(* ===== verification/Prelude.thy ===== *)
theory Prelude
  imports Main "HOL-Library.Word"
begin

section \<open>Shared vocabulary and automation\<close>

text \<open>
  Types and facts every component uses.  Bytes of the C buffers are natural numbers below 256
  (\<open>bytes_ok\<close>), and a store into a \<^verbatim>\<open>uint8_t\<close> reduces modulo 256
  (\<open>u8\<close>).  Shifts and masks are written with the bit operations of the source; the
  collection \<open>bits_arith\<close> turns them into \<open>div\<close>, \<open>mod\<close>, \<open>*\<close> and
  \<open>+\<close>, so that linear arithmetic finishes the component proofs.
\<close>

unbundle bit_operations_syntax

named_theorems bits_arith

type_synonym bytes = "nat list"

definition u8 :: "nat \<Rightarrow> nat" where
  "u8 x = x mod 256"

definition bytes_ok :: "bytes \<Rightarrow> bool" where
  "bytes_ok bs \<longleftrightarrow> list_all (\<lambda>b. b < 256) bs"

lemma u8_less [simp]: "u8 x < 256"
  by (simp add: u8_def)

lemma u8_id [simp]: "x < 256 \<Longrightarrow> u8 x = x"
  by (simp add: u8_def)

lemma bytes_ok_append [simp]: "bytes_ok (xs @ ys) \<longleftrightarrow> bytes_ok xs \<and> bytes_ok ys"
  by (simp add: bytes_ok_def)

lemma bytes_ok_Nil [simp]: "bytes_ok []"
  by (simp add: bytes_ok_def)

lemma bytes_ok_Cons [simp]: "bytes_ok (x # xs) \<longleftrightarrow> x < 256 \<and> bytes_ok xs"
  by (simp add: bytes_ok_def)

lemma bytes_ok_nth: "bytes_ok bs \<Longrightarrow> i < length bs \<Longrightarrow> bs ! i < 256"
  by (simp add: bytes_ok_def list_all_length)

subsection \<open>Bit operations as arithmetic\<close>

lemma nat_or_eq_add:
  fixes a b :: nat
  assumes "a AND b = 0"
  shows "a OR b = a + b"
  using assms by (simp add: disjunctive_add_eq_or)

lemma nat_and_mask:
  fixes a :: nat
  shows "a AND (2 ^ n - 1) = a mod 2 ^ n"
  by (metis mask_eq_exp_minus_1 take_bit_eq_mask take_bit_eq_mod)

lemma and_masks [bits_arith]:
  fixes a :: nat
  shows "a AND 0x3ff = a mod 1024" "a AND 0x3f = a mod 64" "a AND 0x1f = a mod 32"
    "a AND 0xf = a mod 16" "a AND 7 = a mod 8" "a AND 0xff = a mod 256"
  using nat_and_mask [of a 10] nat_and_mask [of a 6] nat_and_mask [of a 5]
    nat_and_mask [of a 4] nat_and_mask [of a 3] nat_and_mask [of a 8] by simp_all

lemma push_bits [bits_arith]:
  fixes a :: nat
  shows "push_bit n a = a * 2 ^ n"
  by (simp add: push_bit_eq_mult)

lemma drop_bits [bits_arith]:
  fixes a :: nat
  shows "drop_bit n a = a div 2 ^ n"
  by (simp add: drop_bit_eq_div)

lemma and_push_bit:
  fixes b k :: nat
  shows "b AND push_bit n k = push_bit n (drop_bit n b AND k)"
  by (auto simp: bit_eq_iff bit_simps)

lemma and_low_high:
  fixes a b :: nat
  assumes "a < 2 ^ n"
  shows "a AND (b * 2 ^ n) = 0"
proof -
  have a: "take_bit n a = a" using assms by (simp add: take_bit_nat_eq_self)
  have "m < n" if "bit a m" for m
    using that by (metis a bit_take_bit_iff)
  then show ?thesis
    by (fastforce simp: bit_eq_iff bit_simps push_bit_eq_mult [symmetric])
qed

lemma or_high_low:
  fixes a b :: nat
  assumes "a < 2 ^ n"
  shows "a OR (b * 2 ^ n) = a + b * 2 ^ n" "(b * 2 ^ n) OR a = b * 2 ^ n + a"
  using and_low_high [OF assms] by (simp_all add: nat_or_eq_add and.commute)

subsection \<open>Lists\<close>

lemma nth_Cons_drop:
  "i < length xs \<Longrightarrow> xs ! i # drop (Suc i) xs = drop i xs"
  by (simp add: Cons_nth_drop_Suc)

end
