(* ===== verification/Cutils.thy ===== *)
theory Cutils
  imports Prelude
begin

section \<open>C utilities: strings, integers, byte order and UTF-8\<close>

text \<open>
  Models \<^verbatim>\<open>mquickjs/src_c/cutils.c\<close> and the inline functions of
  \<^verbatim>\<open>cutils.h\<close>.  A C string is the list of its bytes before the
  terminating NUL; a buffer is the list of all its bytes, terminator included.  The UTF-8 codec
  accepts surrogates (WTF-8), as the comments of the source say.  Multi-byte integers are
  stored in the little-endian order of the machines the engine runs on.  Reads through a
  pointer are list accesses: the theorems that use them have hypotheses that keep every
  access inside the buffer.
\<close>

unbundle bit_operations_syntax

subsection \<open>Bounded C strings\<close>

text \<open>The loop of \<open>pstrcpy\<close>: \<open>q\<close> is the write offset into \<open>buf\<close>; the
  loop stops at the terminator of \<open>str\<close> or when only the last byte is left.\<close>

fun pstrcpy_loop :: "bytes \<Rightarrow> int \<Rightarrow> nat \<Rightarrow> bytes \<Rightarrow> bytes" where
  "pstrcpy_loop buf buf_size q [] = buf[q := 0]"
| "pstrcpy_loop buf buf_size q (c # str) =
     (if int q \<ge> buf_size - 1 then buf[q := 0]
      else pstrcpy_loop (buf[q := c]) buf_size (Suc q) str)"

definition pstrcpy :: "bytes \<Rightarrow> int \<Rightarrow> bytes \<Rightarrow> bytes" where
  "pstrcpy buf buf_size str = (if buf_size \<le> 0 then buf else pstrcpy_loop buf buf_size 0 str)"

definition c_string :: "bytes \<Rightarrow> bytes" where
  "c_string buf = takeWhile (\<lambda>b. b \<noteq> 0) buf"

definition strlen :: "bytes \<Rightarrow> nat" where
  "strlen buf = length (c_string buf)"

definition pstrcat :: "bytes \<Rightarrow> int \<Rightarrow> bytes \<Rightarrow> bytes" where
  "pstrcat buf buf_size s =
     (let len = strlen buf
      in if int len < buf_size
         then take len buf @ pstrcpy (drop len buf) (buf_size - int len) s
         else buf)"

text \<open>\<open>strstart\<close> returns the rest of the string (the \<open>*ptr\<close> it sets) or \<open>None\<close>
  for the result 0.  At the end of \<open>str\<close> the byte compared is the terminator.\<close>

fun strstart :: "bytes \<Rightarrow> bytes \<Rightarrow> bytes option" where
  "strstart p [] = Some p"
| "strstart [] (q # qs) = None"
| "strstart (p # ps) (q # qs) = (if p \<noteq> q then None else strstart ps qs)"

definition has_suffix :: "bytes \<Rightarrow> bytes \<Rightarrow> bool" where
  "has_suffix str suffix =
     (let len = length str; slen = length suffix
      in len \<ge> slen \<and> take slen (drop (len - slen) str) = suffix)"

subsection \<open>Small integer helpers\<close>

definition max_int :: "int \<Rightarrow> int \<Rightarrow> int" where
  "max_int a b = (if a > b then a else b)"

definition min_int :: "int \<Rightarrow> int \<Rightarrow> int" where
  "min_int a b = (if a < b then a else b)"

definition from_hex :: "int \<Rightarrow> int" where
  "from_hex c =
     (if c \<ge> 48 \<and> c \<le> 57 then c - 48
      else if c \<ge> 65 \<and> c \<le> 70 then c - 65 + 10
      else if c \<ge> 97 \<and> c \<le> 102 then c - 97 + 10
      else -1)"

subsection \<open>Unaligned little-endian access and byte swapping\<close>

definition get_u16 :: "bytes \<Rightarrow> nat \<Rightarrow> nat" where
  "get_u16 tab i = tab ! i + 0x100 * tab ! (i + 1)"

definition put_u16 :: "bytes \<Rightarrow> nat \<Rightarrow> nat \<Rightarrow> bytes" where
  "put_u16 tab i val = tab[i := u8 val, i + 1 := u8 (drop_bit 8 val)]"

definition get_u32 :: "bytes \<Rightarrow> nat \<Rightarrow> nat" where
  "get_u32 tab i =
     tab ! i + 0x100 * tab ! (i + 1) + 0x10000 * tab ! (i + 2) + 0x1000000 * tab ! (i + 3)"

definition put_u32 :: "bytes \<Rightarrow> nat \<Rightarrow> nat \<Rightarrow> bytes" where
  "put_u32 tab i val =
     tab[i := u8 val, i + 1 := u8 (drop_bit 8 val), i + 2 := u8 (drop_bit 16 val),
         i + 3 := u8 (drop_bit 24 val)]"

definition bswap32 :: "nat \<Rightarrow> nat" where
  "bswap32 v =
     drop_bit 24 (v AND 0xff000000) OR drop_bit 8 (v AND 0x00ff0000) OR
     push_bit 8 (v AND 0x0000ff00) OR push_bit 24 (v AND 0x000000ff)"

definition get_be32 :: "bytes \<Rightarrow> nat \<Rightarrow> nat" where
  "get_be32 d i = bswap32 (get_u32 d i)"

definition put_be32 :: "bytes \<Rightarrow> nat \<Rightarrow> nat \<Rightarrow> bytes" where
  "put_be32 d i v = put_u32 d i (bswap32 v)"

subsection \<open>UTF-8\<close>

text \<open>The bytes \<open>unicode_to_utf8\<close> writes; none stands for the result 0.  The functions
  with a leading double underscore in the source end in \<open>slow\<close> here.\<close>

definition unicode_to_utf8_slow :: "nat \<Rightarrow> bytes" where
  "unicode_to_utf8_slow c =
     (if c < 0x800 then
        [u8 (drop_bit 6 c OR 0xc0), u8 ((c AND 0x3f) OR 0x80)]
      else if c < 0x10000 then
        [u8 (drop_bit 12 c OR 0xe0), u8 ((drop_bit 6 c AND 0x3f) OR 0x80),
         u8 ((c AND 0x3f) OR 0x80)]
      else if c < 0x200000 then
        [u8 (drop_bit 18 c OR 0xf0), u8 ((drop_bit 12 c AND 0x3f) OR 0x80),
         u8 ((drop_bit 6 c AND 0x3f) OR 0x80), u8 ((c AND 0x3f) OR 0x80)]
      else [])"

definition unicode_to_utf8 :: "nat \<Rightarrow> bytes" where
  "unicode_to_utf8 c = (if c < 0x80 then [u8 c] else unicode_to_utf8_slow c)"

definition cont_byte :: "nat \<Rightarrow> bool" where
  "cont_byte b \<longleftrightarrow> (b AND 0xc0) = 0x80"

definition unicode_from_utf8_slow :: "bytes \<Rightarrow> nat \<Rightarrow> int \<times> nat" where
  "unicode_from_utf8_slow p max_len =
     (if p ! 0 < 0xc0 then (-1, 1)
      else if p ! 0 < 0xe0 then
        (if max_len < 2 \<or> \<not> cont_byte (p ! 1) then (-1, 1)
         else let c = push_bit 6 (p ! 0 AND 0x1f) OR (p ! 1 AND 0x3f)
              in if c < 0x80 then (-1, 2) else (int c, 2))
      else if p ! 0 < 0xf0 then
        (if max_len < 2 \<or> \<not> cont_byte (p ! 1) then (-1, 1)
         else if max_len < 3 \<or> \<not> cont_byte (p ! 2) then (-1, 2)
         else let c = push_bit 12 (p ! 0 AND 0x0f) OR push_bit 6 (p ! 1 AND 0x3f)
                      OR (p ! 2 AND 0x3f)
              in if c < 0x800 then (-1, 3) else (int c, 3))
      else if p ! 0 < 0xf8 then
        (if max_len < 2 \<or> \<not> cont_byte (p ! 1) then (-1, 1)
         else if max_len < 3 \<or> \<not> cont_byte (p ! 2) then (-1, 2)
         else if max_len < 4 \<or> \<not> cont_byte (p ! 3) then (-1, 3)
         else let c = push_bit 18 (p ! 0 AND 0x07) OR push_bit 12 (p ! 1 AND 0x3f)
                      OR push_bit 6 (p ! 2 AND 0x3f) OR (p ! 3 AND 0x3f)
              in if c < 0x10000 \<or> c > 0x10ffff then (-1, 4) else (int c, 4))
      else (-1, 1))"

definition unicode_from_utf8 :: "bytes \<Rightarrow> nat \<Rightarrow> int \<times> nat" where
  "unicode_from_utf8 buf max_len =
     (if buf ! 0 < 0x80 then (int (buf ! 0), 1) else unicode_from_utf8_slow buf max_len)"

definition utf8_get_slow :: "bytes \<Rightarrow> nat \<times> nat" where
  "utf8_get_slow p =
     (if p ! 0 < 0xc0 then (p ! 0, 1)
      else if p ! 0 < 0xe0 then
        (push_bit 6 (p ! 0 AND 0x1f) OR (p ! 1 AND 0x3f), 2)
      else if p ! 0 < 0xf0 then
        (push_bit 12 (p ! 0 AND 0x0f) OR push_bit 6 (p ! 1 AND 0x3f) OR (p ! 2 AND 0x3f), 3)
      else if p ! 0 < 0xf8 then
        (push_bit 18 (p ! 0 AND 0x07) OR push_bit 12 (p ! 1 AND 0x3f)
           OR push_bit 6 (p ! 2 AND 0x3f) OR (p ! 3 AND 0x3f), 4)
      else (p ! 0, 1))"

definition utf8_get :: "bytes \<Rightarrow> nat \<times> nat" where
  "utf8_get buf = (if buf ! 0 < 0x80 then (buf ! 0, 1) else utf8_get_slow buf)"

subsection \<open>Base-64 digits\<close>

lemma or_digits64 [bits_arith]:
  fixes a b c d :: nat
  shows "b < 64 \<Longrightarrow> a * 64 OR b = a * 64 + b"
    "b < 64 \<Longrightarrow> c < 64 \<Longrightarrow> a * 4096 OR (b * 64 + c) = a * 4096 + b * 64 + c"
    "b < 64 \<Longrightarrow> c < 64 \<Longrightarrow> d < 64 \<Longrightarrow>
       a * 262144 OR (b * 4096 + c * 64 + d) = a * 262144 + b * 4096 + c * 64 + d"
  using or_high_low(2) [of b 6 a] or_high_low(2) [of "b * 64 + c" 12 a]
    or_high_low(2) [of "b * 4096 + c * 64 + d" 18 a] by simp_all

lemma strip_lead [bits_arith]:
  fixes a :: nat
  shows "a < 64 \<Longrightarrow> (a + 0x80) mod 64 = a" "a < 32 \<Longrightarrow> (a + 0xc0) mod 32 = a"
    "a < 16 \<Longrightarrow> (a + 0xe0) mod 16 = a" "a < 8 \<Longrightarrow> (a + 0xf0) mod 8 = a"
  using mod_mult_self1 [of a 2 64] mod_mult_self1 [of a 6 32] mod_mult_self1 [of a 14 16]
    mod_mult_self1 [of a 30 8] by simp_all

lemma or_lead [bits_arith]:
  fixes a :: nat
  shows "a < 64 \<Longrightarrow> a OR 0x80 = a + 0x80" "a < 32 \<Longrightarrow> a OR 0xc0 = a + 0xc0"
    "a < 16 \<Longrightarrow> a OR 0xe0 = a + 0xe0" "a < 8 \<Longrightarrow> a OR 0xf0 = a + 0xf0"
  using or_high_low(1) [of a 6 2] or_high_low(1) [of a 5 6]
    or_high_low(1) [of a 4 14] or_high_low(1) [of a 3 30] by simp_all

lemma cont_byte_iff:
  assumes "b < 256"
  shows "cont_byte b \<longleftrightarrow> 0x80 \<le> b \<and> b < 0xc0"
proof -
  have "b AND 192 = (b div 64) mod 4 * 64"
    using nat_and_mask [of "b div 64" 2] and_push_bit [of b 6 3]
    by (simp add: push_bits drop_bits)
  then have "cont_byte b \<longleftrightarrow> (b div 64) mod 4 = 2"
    by (simp add: cont_byte_def)
  then show ?thesis using assms by auto
qed

lemma digits64 [bits_arith]:
  fixes a b c d x :: nat
  shows "b < 64 \<Longrightarrow> (a * 64 + b) div 64 = a" "b < 64 \<Longrightarrow> (a * 64 + b) mod 64 = b"
    "c < 64 \<Longrightarrow> (a * 4096 + b * 64 + c) div 64 = a * 64 + b"
    "c < 64 \<Longrightarrow> (a * 4096 + b * 64 + c) mod 64 = c"
    "d < 64 \<Longrightarrow> (a * 262144 + b * 4096 + c * 64 + d) div 64 = a * 4096 + b * 64 + c"
    "d < 64 \<Longrightarrow> (a * 262144 + b * 4096 + c * 64 + d) mod 64 = d"
    "x div 4096 = x div 64 div 64" "x div 262144 = x div 64 div 64 div 64"
proof -
  have *: "y < 64 \<Longrightarrow> (z * 64 + y) div 64 = z" "y < 64 \<Longrightarrow> (z * 64 + y) mod 64 = y" for y z :: nat
    by simp_all
  show "b < 64 \<Longrightarrow> (a * 64 + b) div 64 = a" "b < 64 \<Longrightarrow> (a * 64 + b) mod 64 = b"
    by (rule *, assumption)+
  show "c < 64 \<Longrightarrow> (a * 4096 + b * 64 + c) div 64 = a * 64 + b"
    "c < 64 \<Longrightarrow> (a * 4096 + b * 64 + c) mod 64 = c"
    using * [of c "a * 64 + b"] by (simp_all add: mult.commute)
  show "d < 64 \<Longrightarrow> (a * 262144 + b * 4096 + c * 64 + d) div 64 = a * 4096 + b * 64 + c"
    "d < 64 \<Longrightarrow> (a * 262144 + b * 4096 + c * 64 + d) mod 64 = d"
    using * [of d "a * 4096 + b * 64 + c"] by (simp_all add: mult.commute)
  show "x div 4096 = x div 64 div 64" "x div 262144 = x div 64 div 64 div 64"
    using div_mult2_eq [of x 64 64] div_mult2_eq [of x 64 4096] div_mult2_eq [of "x div 64" 64 64]
    by simp_all
qed

text \<open>The encoder on base-64 digits.\<close>

lemma to_utf8_2:
  assumes "a < 32" "b < 64"
  shows "unicode_to_utf8_slow (a * 64 + b) = [a + 0xc0, b + 0x80]"
proof -
  have "a * 64 + b < 0x800" using assms by linarith
  then show ?thesis using assms
    by (simp add: unicode_to_utf8_slow_def bits_arith u8_def)
qed

lemma to_utf8_3:
  assumes "a < 16" "b < 64" "c < 64" "0x800 \<le> a * 4096 + b * 64 + c"
  shows "unicode_to_utf8_slow (a * 4096 + b * 64 + c) = [a + 0xe0, b + 0x80, c + 0x80]"
proof -
  have "a * 4096 + b * 64 + c < 0x10000" using assms by linarith
  then show ?thesis using assms
    by (simp add: unicode_to_utf8_slow_def bits_arith u8_def)
qed

lemma to_utf8_4:
  assumes "a < 8" "b < 64" "c < 64" "d < 64" "0x10000 \<le> a * 262144 + b * 4096 + c * 64 + d"
  shows "unicode_to_utf8_slow (a * 262144 + b * 4096 + c * 64 + d) =
     [a + 0xf0, b + 0x80, c + 0x80, d + 0x80]"
proof -
  have "a * 262144 + b * 4096 + c * 64 + d < 0x200000" using assms by linarith
  then show ?thesis using assms
    by (simp add: unicode_to_utf8_slow_def bits_arith u8_def)
qed

lemma from_utf8_2:
  assumes "a < 32" "b < 64" "2 \<le> n"
  shows "unicode_from_utf8_slow ((a + 0xc0) # (b + 0x80) # r) n = 
    (let c = a * 64 + b in if c < 0x80 then (-1, 2) else (int c, 2))"
  using assms
  by (simp add: unicode_from_utf8_slow_def bits_arith cont_byte_iff Let_def)

lemma from_utf8_3:
  assumes "a < 16" "b < 64" "c < 64" "3 \<le> n"
  shows "unicode_from_utf8_slow ((a + 0xe0) # (b + 0x80) # (c + 0x80) # r) n = 
    (let u = a * 4096 + b * 64 + c in if u < 0x800 then (-1, 3) else (int u, 3))"
  using assms
  by (simp add: unicode_from_utf8_slow_def bits_arith cont_byte_iff Let_def)

lemma from_utf8_4:
  assumes "a < 8" "b < 64" "c < 64" "d < 64" "4 \<le> n"
  shows "unicode_from_utf8_slow ((a + 0xf0) # (b + 0x80) # (c + 0x80) # (d + 0x80) # r) n = 
    (let u = a * 262144 + b * 4096 + c * 64 + d in if u < 0x10000 \<or> u > 0x10ffff then (-1, 4) else (int u, 4))"
  using assms
  by (simp add: unicode_from_utf8_slow_def bits_arith cont_byte_iff Let_def)

text \<open>Every code point up to 0x1fffff is a string of base-64 digits.\<close>

lemma utf8_cases:
  assumes "u < 0x200000"
  obtains (one) "u < 0x80"
  | (two) a b where "u = a * 64 + b" "a < 32" "b < 64" "0x80 \<le> u" "u < 0x800"
      "unicode_to_utf8 u = [a + 0xc0, b + 0x80]"
  | (three) a b c where "u = a * 4096 + b * 64 + c" "a < 16" "b < 64" "c < 64" "0x800 \<le> u"
      "u < 0x10000" "unicode_to_utf8 u = [a + 0xe0, b + 0x80, c + 0x80]"
  | (four) a b c d where "u = a * 262144 + b * 4096 + c * 64 + d" "a < 8" "b < 64" "c < 64"
      "d < 64" "0x10000 \<le> u" "unicode_to_utf8 u = [a + 0xf0, b + 0x80, c + 0x80, d + 0x80]"
proof -
  have d2: "u = u div 64 * 64 + u mod 64" by simp
  have q: "u div 64 = u div 4096 * 64 + u div 64 mod 64"
    "u div 4096 = u div 262144 * 64 + u div 4096 mod 64"
    unfolding digits64(7,8) by simp_all
  have d3: "u = u div 4096 * 4096 + u div 64 mod 64 * 64 + u mod 64"
    using d2 q(1) by linarith
  have d4: "u = u div 262144 * 262144 + u div 4096 mod 64 * 4096 + u div 64 mod 64 * 64 + u mod 64"
    using d3 q(2) by linarith
  consider "u < 0x80" | "0x80 \<le> u" "u < 0x800" | "0x800 \<le> u" "u < 0x10000" | "0x10000 \<le> u"
    by linarith
  then show ?thesis
  proof cases
    case 1 then show ?thesis by (rule one)
  next
    case 2
    then show ?thesis
      using to_utf8_2 [of "u div 64" "u mod 64"]
      by (intro two [of "u div 64" "u mod 64"]) (auto simp: unicode_to_utf8_def)
  next
    case 3
    then show ?thesis
      using to_utf8_3 [of "u div 4096" "u div 64 mod 64" "u mod 64"] d3
      by (intro three [of "u div 4096" "u div 64 mod 64" "u mod 64"])
        (auto simp: unicode_to_utf8_def)
  next
    case 4
    have lt: "u div 262144 < 8" using assms by simp
    have "unicode_to_utf8 u = [u div 262144 + 0xf0, u div 4096 mod 64 + 0x80,
        u div 64 mod 64 + 0x80, u mod 64 + 0x80]"
      using to_utf8_4 [OF lt, of "u div 4096 mod 64" "u div 64 mod 64" "u mod 64"] d4 4
      by (simp add: unicode_to_utf8_def)
    with lt 4 show ?thesis by (intro four [OF d4]) simp_all
  qed
qed


text \<open>C7. Decoding the UTF-8 encoding of any code point up to 0x10ffff (surrogates included), followed by any bytes, gives the code point back and the number of bytes it took.\<close>

theorem unicode_utf8_roundtrip:
  assumes "u \<le> 0x10ffff" "length (unicode_to_utf8 u) \<le> n"
  shows "unicode_from_utf8 (unicode_to_utf8 u @ rest) n = (int u, length (unicode_to_utf8 u))"
proof -
  from assms(1) have "u < 0x200000" by simp
  then show ?thesis using assms
    by (cases rule: utf8_cases)
      (auto simp: unicode_from_utf8_def unicode_to_utf8_def u8_def from_utf8_2 from_utf8_3 from_utf8_4 Let_def)
qed

theorem unicode_utf8_roundtrip_witness:
  "(0x20ac::nat) \<le> 0x10ffff \<and> length (unicode_to_utf8 0x20ac) \<le> 3 \<and>
   unicode_from_utf8 (unicode_to_utf8 0x20ac @ [65]) 3 = (0x20ac, 3)"
proof -
  have "length (unicode_to_utf8 0x20ac) = 3"
    by (simp add: unicode_to_utf8_def unicode_to_utf8_slow_def)
  then show ?thesis using unicode_utf8_roundtrip [of "0x20ac" 3 "[65]"] by simp
qed

lemma utf8_get_eq:
  assumes "u \<le> 0x10ffff"
  shows "utf8_get (unicode_to_utf8 u @ rest) = (u, length (unicode_to_utf8 u))"
proof -
  from assms(1) have "u < 0x200000" by simp
  then show ?thesis using assms
    by (cases rule: utf8_cases)
      (auto simp: utf8_get_def utf8_get_slow_def unicode_to_utf8_def u8_def bits_arith)
qed

lemma cont_byte_split: "b < 256 \<Longrightarrow> cont_byte b \<Longrightarrow> \<exists>d < 64. b = d + 0x80"
  by (rule exI [of _ "b - 0x80"]) (auto simp: cont_byte_iff)

lemma take_prefix_nth:
  assumes "n \<le> length p" "2 \<le> n"
  shows "p = p ! 0 # p ! 1 # drop 2 p"
    "3 \<le> n \<Longrightarrow> p = p ! 0 # p ! 1 # p ! 2 # drop 3 p"
    "4 \<le> n \<Longrightarrow> p = p ! 0 # p ! 1 # p ! 2 # p ! 3 # drop 4 p"
proof -
  have *: "p = p ! 0 # drop 1 p"
    using Cons_nth_drop_Suc [of 0 p] assms by (cases p) auto
  then show "p = p ! 0 # p ! 1 # drop 2 p"
    "3 \<le> n \<Longrightarrow> p = p ! 0 # p ! 1 # p ! 2 # drop 3 p"
    "4 \<le> n \<Longrightarrow> p = p ! 0 # p ! 1 # p ! 2 # p ! 3 # drop 4 p"
    using assms by (simp_all add: Cons_nth_drop_Suc numeral_eq_Suc)
qed

lemma from_utf8_slow_shape:
  assumes "bytes_ok p" "n \<le> length p" "unicode_from_utf8_slow p n = (c, len)" "0 \<le> c"
  shows "(\<exists>a b r. a < 32 \<and> b < 64 \<and> 2 \<le> n \<and> p = (a + 0xc0) # (b + 0x80) # r) \<or>
    (\<exists>a b d r. a < 16 \<and> b < 64 \<and> d < 64 \<and> 3 \<le> n \<and>
       p = (a + 0xe0) # (b + 0x80) # (d + 0x80) # r) \<or>
    (\<exists>a b d e r. a < 8 \<and> b < 64 \<and> d < 64 \<and> e < 64 \<and> 4 \<le> n \<and>
       p = (a + 0xf0) # (b + 0x80) # (d + 0x80) # (e + 0x80) # r)"
proof -
  have byte: "p ! i < 256" if "i < n" for i
    using assms(1,2) that by (auto simp: bytes_ok_def list_all_length)
  have cont: "\<exists>d < 64. p ! i = d + 0x80" if "i < n" "cont_byte (p ! i)" for i
    using cont_byte_split [OF byte] that by blast
  have lead: "\<exists>a < k. p ! 0 = a + m" if "m \<le> p ! 0" "p ! 0 < m + k" for m k
    using that by (intro exI [of _ "p ! 0 - m"]) auto
  note sh = take_prefix_nth [OF assms(2)]
  consider "0xc0 \<le> p ! 0" "p ! 0 < 0xe0" "2 \<le> n" "cont_byte (p ! 1)"
    | "0xe0 \<le> p ! 0" "p ! 0 < 0xf0" "3 \<le> n" "cont_byte (p ! 1)" "cont_byte (p ! 2)"
    | "0xf0 \<le> p ! 0" "p ! 0 < 0xf8" "4 \<le> n" "cont_byte (p ! 1)" "cont_byte (p ! 2)"
      "cont_byte (p ! 3)"
    using assms(3,4) unfolding unicode_from_utf8_slow_def
    by (auto simp: Let_def not_less split: if_splits)
  then show ?thesis
  proof cases
    case 1
    obtain a b where "a < 32" "p ! 0 = a + 0xc0" "b < 64" "p ! 1 = b + 0x80"
      using 1 lead [of "0xc0" 32] cont [of 1] by auto
    then show ?thesis using 1 sh(1) by (intro disjI1) auto
  next
    case 2
    obtain a b d where "a < 16" "p ! 0 = a + 0xe0" "b < 64" "p ! 1 = b + 0x80"
      "d < 64" "p ! 2 = d + 0x80"
      using 2 lead [of "0xe0" 16] cont [of 1] cont [of 2] by auto
    then show ?thesis using 2 sh(2) by (intro disjI2 disjI1) auto
  next
    case 3
    obtain a b d e where "a < 8" "p ! 0 = a + 0xf0" "b < 64" "p ! 1 = b + 0x80"
      "d < 64" "p ! 2 = d + 0x80" "e < 64" "p ! 3 = e + 0x80"
      using 3 lead [of "0xf0" 8] cont [of 1] cont [of 2] cont [of 3] by auto
    then have "p = (a + 0xf0) # (b + 0x80) # (d + 0x80) # (e + 0x80) # drop 4 p"
      using 3 sh(3) by simp
    with \<open>a < 8\<close> \<open>b < 64\<close> \<open>d < 64\<close> \<open>e < 64\<close> 3 show ?thesis by blast
  qed
qed

text \<open>C8. Whenever the decoder accepts a byte sequence, the code point is at most 0x10ffff, the length stays inside the buffer, and the bytes consumed are exactly the encoding of the code point: no overlong form is accepted.\<close>

theorem unicode_from_utf8_canonical:
  assumes "bytes_ok p" "n \<le> length p" "1 \<le> n"
    and "unicode_from_utf8 p n = (c, len)" "0 \<le> c"
  shows "c \<le> 0x10ffff \<and> len \<le> n \<and> take len p = unicode_to_utf8 (nat c)"
proof (cases "p ! 0 < 0x80")
  case True
  then show ?thesis using assms
    by (cases p) (auto simp: unicode_from_utf8_def unicode_to_utf8_def u8_def)
next
  case False
  then have slow: "unicode_from_utf8_slow p n = (c, len)"
    using assms(4) by (simp add: unicode_from_utf8_def)
  show ?thesis
    using from_utf8_slow_shape [OF assms(1,2) slow assms(5)] slow assms(5)
    by (elim disjE exE conjE)
      (auto simp: from_utf8_2 from_utf8_3 from_utf8_4 Let_def unicode_to_utf8_def nat_add_distrib nat_mult_distrib
        to_utf8_2 to_utf8_3 to_utf8_4 split: if_splits)
qed

theorem unicode_from_utf8_canonical_witness:
  "unicode_from_utf8 [0xed, 0xa0, 0x80, 65] 4 = (0xd800, 3) \<and>
   take 3 [0xed, 0xa0, 0x80, 65] = unicode_to_utf8 0xd800"
proof -
  have "unicode_from_utf8 [0xed, 0xa0, 0x80, 65] 4 = (0xd800, 3)"
    by (simp add: unicode_from_utf8_def unicode_from_utf8_slow_def cont_byte_def Let_def)
  then show ?thesis
    using unicode_from_utf8_canonical [of "[0xed, 0xa0, 0x80, 65]" 4 "0xd800" 3] by simp
qed

subsection \<open>Bounded copies stay inside the buffer and are terminated\<close>

lemma pstrcpy_loop_eq:
  assumes "int q < buf_size" "buf_size \<le> int (length buf)"
  shows "pstrcpy_loop buf buf_size q str =
    (let s = take (nat buf_size - 1 - q) str
     in take q buf @ s @ [0] @ drop (q + length s + 1) buf)"
  using assms
proof (induction buf buf_size q str rule: pstrcpy_loop.induct)
  case (1 buf buf_size q)
  then show ?case by (simp add: upd_conv_take_nth_drop)
next
  case (2 buf buf_size q c str)
  show ?case
  proof (cases "int q \<ge> buf_size - 1")
    case True
    then show ?thesis using "2.prems" by (simp add: upd_conv_take_nth_drop)
  next
    case False
    then have "nat buf_size - Suc q = Suc (nat buf_size - 1 - Suc q)" by auto
    with False "2.IH" "2.prems" show ?thesis
      by (simp add: Let_def upd_conv_take_nth_drop take_Suc_conv_app_nth nth_append
          drop_Cons' add.commute)
  qed
qed

lemma pstrcpy_spec:
  assumes "0 < buf_size" "buf_size \<le> int (length buf)"
  shows "pstrcpy buf buf_size str =
    (let s = take (nat buf_size - 1) str in s @ [0] @ drop (length s + 1) buf)"
  using pstrcpy_loop_eq [of 0 buf_size buf str] assms by (simp add: pstrcpy_def)

lemma c_string_terminated [simp]: "0 \<notin> set s \<Longrightarrow> c_string (s @ 0 # r) = s"
  by (induction s) (auto simp: c_string_def)

text \<open>C9. A bounded concatenation holds the longest prefix of the concatenation that fits with its terminator, and leaves every byte past the given size alone.\<close>

theorem pstrcat_truncates:
  assumes "0 \<notin> set s" "int (strlen buf) < buf_size" "buf_size \<le> int (length buf)"
  shows "c_string (pstrcat buf buf_size s) = take (nat buf_size - 1) (c_string buf @ s)
    \<and> length (pstrcat buf buf_size s) = length buf
    \<and> drop (nat buf_size) (pstrcat buf buf_size s) = drop (nat buf_size) buf"
proof -
  let ?l = "strlen buf" and ?t = "take (nat buf_size - 1 - strlen buf) s"
  have eq: "take ?l buf = c_string buf"
    by (metis c_string_def strlen_def takeWhile_eq_take)
  have nz: "0 \<notin> set (c_string buf)"
    by (auto simp: c_string_def dest: set_takeWhileD)
  have cat: "pstrcat buf buf_size s = c_string buf @ ?t @ 0 # drop (?l + length ?t + 1) buf"
    using assms pstrcpy_spec [of "buf_size - int ?l" "drop ?l buf" s]
    by (simp add: pstrcat_def Let_def eq nat_diff_distrib ac_simps diff_diff_eq)
  have "0 \<notin> set (c_string buf @ ?t)" using nz assms(1) by (auto dest: in_set_takeD)
  then have "c_string (pstrcat buf buf_size s) = c_string buf @ ?t"
    using c_string_terminated [of "c_string buf @ ?t"] cat by simp
  moreover have "?l \<le> nat buf_size - 1" using assms by linarith
  moreover have "length (c_string buf) = ?l" by (simp add: strlen_def)
  ultimately show ?thesis using assms cat by (auto simp: drop_append drop_Cons')
qed

theorem pstrcat_truncates_witness:
  "c_string (pstrcat [97, 98, 0, 7, 7, 7] 5 [99, 100, 101]) = [97, 98, 99, 100]"
proof -
  have "c_string [97, 98, 0, 7, 7, 7] = [97, 98]" by (simp add: c_string_def)
  then show ?thesis
    using pstrcat_truncates [of "[99, 100, 101]" "[97, 98, 0, 7, 7, 7]" 5]
    by (simp add: strlen_def)
qed

lemma strstart_eq: "strstart str val = (if take (length val) str = val then Some (drop (length val) str) else None)"
  by (induction str val rule: strstart.induct) auto

lemma strstart_Some: "strstart str val = Some r \<longleftrightarrow> str = val @ r"
  by (metis append_eq_conv_conj append_take_drop_id option.inject option.distinct(1) strstart_eq)

lemma has_suffix_iff: "has_suffix str suffix \<longleftrightarrow> (\<exists>pre. str = pre @ suffix)"
proof
  assume "has_suffix str suffix"
  then show "\<exists>pre. str = pre @ suffix"
    by (auto simp: has_suffix_def Let_def) (metis append_take_drop_id)
next
  assume "\<exists>pre. str = pre @ suffix"
  then show "has_suffix str suffix" by (auto simp: has_suffix_def Let_def)
qed

subsection \<open>Byte order\<close>

lemma get_put_u16:
  assumes "val < 0x10000" "i + 1 < length tab"
  shows "get_u16 (put_u16 tab i val) i = val"
  using assms by (simp add: get_u16_def put_u16_def u8_def drop_bits)

lemma get_put_u32:
  assumes "val < 0x100000000" "i + 3 < length tab"
  shows "get_u32 (put_u32 tab i val) i = val"
proof -
  have div: "val div 65536 = val div 256 div 256" "val div 16777216 = val div 256 div 256 div 256"
    by (simp_all add: div_mult2_eq [symmetric])
  define x1 x2 x3 m0 m1 m2 where x: "x1 = val div 256" "x2 = x1 div 256" "x3 = x2 div 256"
    "m0 = val mod 256" "m1 = x1 mod 256" "m2 = x2 mod 256"
  have "val = 256 * x1 + m0" "x1 = 256 * x2 + m1" "x2 = 256 * x3 + m2"
    unfolding x by (simp_all add: mult_div_mod_eq)
  then have "val = m0 + 256 * m1 + 65536 * m2 + 16777216 * x3" by linarith
  then have d: "val = val mod 256 + 256 * (val div 256 mod 256) + 65536 * (val div 65536 mod 256)
      + 16777216 * (val div 16777216)"
    using div by (simp only: x)
  have "val div 16777216 < 256" using assms by linarith
  moreover have "get_u32 (put_u32 tab i val) i = val mod 256 + 256 * (val div 256 mod 256)
      + 65536 * (val div 65536 mod 256) + 16777216 * (val div 16777216 mod 256)"
    using assms(2) by (simp add: get_u32_def put_u32_def u8_def drop_bits)
  ultimately show ?thesis using d by (metis mod_less)
qed

end
