(* ===== verification/JSStrings.thy ===== *)
theory JSStrings
  imports Cutils
begin

section \<open>Engine strings: WTF-8 storage, UTF-16 positions\<close>

text \<open>
  Models the string section of \<^verbatim>\<open>mquickjs/src_c/mquickjs.c\<close>.  A JavaScript
  string is a sequence of UTF-16 units, but the engine stores WTF-8 bytes and converts positions
  on demand, with a small cache of known (UTF-8, UTF-16) position pairs.  \<open>strctx\<close> holds
  the part of \<^verbatim>\<open>JSContext\<close> that string code uses: the string blocks of the heap
  (the address of a block is its index; block 0 is the atom of the empty string), the bytes the
  allocator can still give out, and the position cache with its replacement counter.  Positions
  are natural numbers, with \<open>s32\<close> and \<open>u32\<close> where the source converts between
  \<^verbatim>\<open>int\<close> and \<^verbatim>\<open>uint32_t\<close>.

  The specification side is a list of code points \<open>cps\<close>: \<open>encode cps\<close> is its WTF-8
  form, \<open>utf16 cps\<close> its UTF-16 units, and \<open>string_at ctx val cps\<close> says that the
  value \<open>val\<close> denotes it.
\<close>

unbundle bit_operations_syntax

subsection \<open>Data\<close>

definition JS_STRING_LEN_MAX :: nat where
  "JS_STRING_LEN_MAX = 0x7ffffffe"

definition JS_STRING_POS_CACHE_SIZE :: nat where
  "JS_STRING_POS_CACHE_SIZE = 2"

definition JS_STRING_POS_CACHE_MIN_LEN :: nat where
  "JS_STRING_POS_CACHE_MIN_LEN = 16"

record JSString =
  is_unique :: bool
  is_ascii :: bool
  is_numeric :: bool
  buf :: bytes

datatype strval = StringChar nat | StringPtr nat

datatype StringPosTypeEnum = POS_TYPE_UTF8 | POS_TYPE_UTF16

record JSStringPosCacheEntry =
  ce_str :: "strval option"
  pos_utf8 :: nat
  pos_utf16 :: nat

record strctx =
  heap :: "JSString list"
  mem_free :: nat
  string_pos_cache :: "JSStringPosCacheEntry list"
  string_pos_cache_counter :: nat

definition s32 :: "nat \<Rightarrow> int" where
  "s32 x = (if x mod 2 ^ 32 < 2 ^ 31 then int (x mod 2 ^ 32) else int (x mod 2 ^ 32) - 2 ^ 32)"

definition u32 :: "int \<Rightarrow> nat" where
  "u32 x = nat (x mod 2 ^ 32)"

subsection \<open>Operations\<close>

fun utf8_char_len :: "nat \<Rightarrow> nat" where
  "utf8_char_len c =
     (if c < 0x80 then 1 else if c < 0xc0 then 1 else if c < 0xe0 then 2
      else if c < 0xf0 then 3 else if c < 0xf8 then 4 else 1)"

declare utf8_char_len.simps [simp del]

lemma utf8_char_len_pos [simp]: "0 < utf8_char_len c"
  by (simp add: utf8_char_len.simps)

fun is_ascii_string :: "bytes \<Rightarrow> bool" where
  "is_ascii_string [] = True"
| "is_ascii_string (b # bs) = (if b > 0x7f then False else is_ascii_string bs)"

definition get_string_ptr :: "strctx \<Rightarrow> strval \<Rightarrow> JSString" where
  "get_string_ptr ctx val =
     (case val of
        StringChar c \<Rightarrow> \<lparr>is_unique = False, is_ascii = c \<le> 0x7f, is_numeric = False, buf = unicode_to_utf8 c\<rparr>
      | StringPtr a \<Rightarrow> heap ctx ! a)"

definition is_valid_len4_utf8 :: "bytes \<Rightarrow> bool" where
  "is_valid_len4_utf8 b \<longleftrightarrow> (push_bit 6 (b ! 0 AND 0xf) OR (b ! 1 AND 0x3f)) \<ge> 0x10"

lemma utf8_char_len_progress [simp]: "i < len \<Longrightarrow> len - (i + utf8_char_len c) < len - i"
  by (rule diff_less_mono2) auto

function convert_pos_fwd :: "bytes \<Rightarrow> nat \<Rightarrow> nat \<Rightarrow> nat \<Rightarrow> nat \<Rightarrow> nat \<times> nat \<times> nat" where
  "convert_pos_fwd b len limit i j =
     (if i < len then
        (if j = limit then (i, j, 0)
         else let clen = utf8_char_len (b ! i)
              in if clen = 4 \<and> is_valid_len4_utf8 (drop i b) then
                   (if j + 1 = limit then (i, j, 1)
                    else convert_pos_fwd b len limit (i + clen) (j + 2))
                 else convert_pos_fwd b len limit (i + clen) (j + 1))
      else (i, j, 0))"
  by pat_completeness auto
termination
  by (relation "measure (\<lambda>(b, len, limit, i, j). len - i)") auto

declare convert_pos_fwd.simps [simp del]

text \<open>The inner loop of the backward scan: back over continuation bytes.\<close>

fun skip_cont_back :: "bytes \<Rightarrow> nat \<Rightarrow> nat" where
  "skip_cont_back b 0 = 0"
| "skip_cont_back b (Suc i) = (if cont_byte (b ! Suc i) then skip_cont_back b i else Suc i)"

lemma skip_cont_back_le: "skip_cont_back b i \<le> i"
  by (induction i) auto

function convert_pos_bwd :: "bytes \<Rightarrow> nat \<Rightarrow> nat \<Rightarrow> nat \<Rightarrow> nat \<Rightarrow> nat \<times> nat \<times> nat" where
  "convert_pos_bwd b start limit i j =
     (if i > start then
        let i' = skip_cont_back b (i - 1); clen = i - i'
        in if clen = 4 \<and> is_valid_len4_utf8 (drop i' b) then
             (let j' = j - 2
              in if j' + 1 = limit then (i', j', 1)
                 else if j' = limit then (i', j', 0)
                 else convert_pos_bwd b start limit i' j')
           else
             (let j' = j - 1
              in if j' = limit then (i', j', 0)
                 else convert_pos_bwd b start limit i' j')
      else (i, j, 0))"
  by pat_completeness auto
termination
proof (relation "measure (\<lambda>(b, start, limit, i, j). i)", goal_cases)
  case 1 then show ?case by simp
next
  case (2 b start limit i j x xa xb)
  then show ?case using skip_cont_back_le [of b "i - 1"] by auto
next
  case (3 b start limit i j x xa xb)
  then show ?case using skip_cont_back_le [of b "i - 1"] by auto
qed

declare convert_pos_bwd.simps [simp del]

text \<open>The cache: probe the entries for the one nearest to \<open>pos\<close>, else replace one.\<close>

definition str_pos :: "JSStringPosCacheEntry \<Rightarrow> StringPosTypeEnum \<Rightarrow> nat" where
  "str_pos e ty = (case ty of POS_TYPE_UTF8 \<Rightarrow> pos_utf8 e | POS_TYPE_UTF16 \<Rightarrow> pos_utf16 e)"

definition cache_probe ::
    "strctx \<Rightarrow> strval \<Rightarrow> nat \<Rightarrow> StringPosTypeEnum \<Rightarrow> nat \<Rightarrow> nat \<times> nat option \<Rightarrow> nat \<times> nat option" where
  "cache_probe ctx val pos ty ce_idx acc =
     (let ce1 = string_pos_cache ctx ! ce_idx
      in if ce_str ce1 = Some val then
           let d0 = str_pos ce1 ty;
               d = (if d0 \<ge> pos then d0 - pos else pos - d0)
           in if d < fst acc then (d, Some ce_idx) else acc
         else acc)"

definition cache_find :: "strctx \<Rightarrow> strval \<Rightarrow> nat \<Rightarrow> StringPosTypeEnum \<Rightarrow> nat option" where
  "cache_find ctx val pos ty =
     snd (fold (cache_probe ctx val pos ty) [0..<JS_STRING_POS_CACHE_SIZE] (pos, None))"

definition cache_replace :: "strctx \<Rightarrow> strval \<Rightarrow> nat \<times> strctx" where
  "cache_replace ctx val =
     (let k = string_pos_cache_counter ctx;
          n = (if Suc k = JS_STRING_POS_CACHE_SIZE then 0 else Suc k)
      in (k, ctx\<lparr>string_pos_cache_counter := n,
                 string_pos_cache := (string_pos_cache ctx)
                   [k := \<lparr>ce_str = Some val, pos_utf8 = 0, pos_utf16 = 0\<rparr>]\<rparr>))"

definition convert_pos_result :: "StringPosTypeEnum \<Rightarrow> nat \<Rightarrow> nat \<times> nat \<times> nat \<Rightarrow> nat" where
  "convert_pos_result ty has_surrogate r =
     (case r of (i, j, surrogate_flag) \<Rightarrow>
        (case ty of POS_TYPE_UTF8 \<Rightarrow> u32 (int (j + has_surrogate))
         | POS_TYPE_UTF16 \<Rightarrow> u32 (int (i * 2 + surrogate_flag))))"

definition convert_pos_scan ::
    "bytes \<Rightarrow> StringPosTypeEnum \<Rightarrow> nat \<Rightarrow> bool \<Rightarrow> nat \<Rightarrow> nat \<Rightarrow> nat \<times> nat \<times> nat" where
  "convert_pos_scan b ty pos forward i j =
     (if forward then
        (case ty of POS_TYPE_UTF8 \<Rightarrow> convert_pos_fwd b pos 0x7fffffff i j
         | POS_TYPE_UTF16 \<Rightarrow> convert_pos_fwd b (length b) pos i j)
      else
        (case ty of POS_TYPE_UTF8 \<Rightarrow> convert_pos_bwd b pos 0x7fffffff i j
         | POS_TYPE_UTF16 \<Rightarrow> convert_pos_bwd b 0 pos i j))"

definition js_string_convert_pos ::
    "strctx \<Rightarrow> strval \<Rightarrow> nat \<Rightarrow> StringPosTypeEnum \<Rightarrow> nat \<times> strctx" where
  "js_string_convert_pos ctx val pos0 ty =
     (let p = get_string_ptr ctx val; len = length (buf p)
      in if is_ascii p then
           (case ty of
              POS_TYPE_UTF8 \<Rightarrow> (u32 (min_int (int len) (s32 (pos0 div 2))), ctx)
            | POS_TYPE_UTF16 \<Rightarrow> (u32 (min_int (int len) (s32 pos0) * 2), ctx))
         else
           let has_surrogate = (case ty of POS_TYPE_UTF8 \<Rightarrow> pos0 AND 1 | POS_TYPE_UTF16 \<Rightarrow> 0);
               pos = (case ty of POS_TYPE_UTF8 \<Rightarrow> drop_bit 1 pos0 | POS_TYPE_UTF16 \<Rightarrow> pos0)
           in if len < JS_STRING_POS_CACHE_MIN_LEN then
                (convert_pos_result ty has_surrogate (convert_pos_scan (buf p) ty pos True 0 0), ctx)
              else
                let (k, ctx1) = (case cache_find ctx val pos ty of
                                   Some k \<Rightarrow> (k, ctx) | None \<Rightarrow> cache_replace ctx val);
                    ce = string_pos_cache ctx1 ! k;
                    r = convert_pos_scan (buf p) ty pos (str_pos ce ty \<le> pos) (pos_utf8 ce) (pos_utf16 ce);
                    ce' = ce\<lparr>pos_utf8 := fst r, pos_utf16 := fst (snd r)\<rparr>
                in (convert_pos_result ty has_surrogate r,
                    ctx1\<lparr>string_pos_cache := (string_pos_cache ctx1)[k := ce']\<rparr>))"

subsection \<open>Specification: code points, WTF-8 and UTF-16\<close>

definition utf16_units :: "nat \<Rightarrow> nat list" where
  "utf16_units c =
     (if c < 0x10000 then [c]
      else [0xd800 + (c - 0x10000) div 0x400, 0xdc00 + (c - 0x10000) mod 0x400])"

definition encode :: "nat list \<Rightarrow> bytes" where
  "encode cps = concat (map unicode_to_utf8 cps)"

definition utf16 :: "nat list \<Rightarrow> nat list" where
  "utf16 cps = concat (map utf16_units cps)"

definition cps_ok :: "nat list \<Rightarrow> bool" where
  "cps_ok cps \<longleftrightarrow> list_all (\<lambda>c. c \<le> 0x10ffff) cps"

lemma enc_simps [simp]:
  "encode [] = []" "encode (c # cs) = unicode_to_utf8 c @ encode cs" "encode (xs @ ys) = encode xs @ encode ys"
  "utf16 [] = []" "utf16 (c # cs) = utf16_units c @ utf16 cs" "utf16 (xs @ ys) = utf16 xs @ utf16 ys"
  "cps_ok []" "cps_ok (c # cs) \<longleftrightarrow> c \<le> 0x10ffff \<and> cps_ok cs" "cps_ok (xs @ ys) \<longleftrightarrow> cps_ok xs \<and> cps_ok ys"
  by (simp_all add: encode_def utf16_def cps_ok_def)

lemma utf16_units_length: "length (utf16_units c) = (if c < 0x10000 then 1 else 2)"
  by (simp add: utf16_units_def)

text \<open>The shape of one encoded code point.\<close>

lemma utf8_char_shape:
  assumes "c \<le> 0x10ffff"
  obtains h t where "unicode_to_utf8 c = h # t" "\<not> cont_byte h" "utf8_char_len h = Suc (length t)"
    "list_all cont_byte t" "Suc (length t) = 4 \<longleftrightarrow> 0x10000 \<le> c"
    "0x10000 \<le> c \<Longrightarrow> is_valid_len4_utf8 (h # t @ r)" "h < 256" "h < 0x80 \<longleftrightarrow> c < 0x80" "c < 0x80 \<Longrightarrow> h = c"
proof -
  from assms have "c < 0x200000" by simp
  then show ?thesis
  proof (cases rule: utf8_cases)
    case one
    then show ?thesis
      by (intro that [of c "[]"]) (auto simp: unicode_to_utf8_def cont_byte_iff utf8_char_len.simps)
  next
    case (two a b)
    then show ?thesis
      by (intro that [of "a + 0xc0" "[b + 0x80]"]) (auto simp: cont_byte_iff utf8_char_len.simps)
  next
    case (three a b d)
    then show ?thesis
      by (intro that [of "a + 0xe0" "[b + 0x80, d + 0x80]"])
        (auto simp: cont_byte_iff utf8_char_len.simps)
  next
    case (four a b d e)
    then have "(a + 240) mod 16 = a" 
      using mod_mult_self1 [of a 15 16] by simp
    then have "is_valid_len4_utf8 ((a + 240) # [b + 128, d + 128, e + 128] @ r)"
      using four by (simp add: is_valid_len4_utf8_def bits_arith) 
    then show ?thesis using four
      by (intro that [of "a + 0xf0" "[b + 0x80, d + 0x80, e + 0x80]"])
        (auto simp: cont_byte_iff utf8_char_len.simps)
  qed
qed


lemma utf8_char_shape_ex:
  assumes "c \<le> 0x10ffff"
  shows "\<exists>h t. unicode_to_utf8 c = h # t \<and> \<not> cont_byte h \<and> utf8_char_len h = Suc (length t) \<and>
    list_all cont_byte t \<and> (Suc (length t) = 4 \<longleftrightarrow> 0x10000 \<le> c) \<and>
    (0x10000 \<le> c \<longrightarrow> is_valid_len4_utf8 (h # t @ r))"
  using utf8_char_shape [OF assms, where r = r] by metis

subsection \<open>The forward scan\<close>

lemma fwd_step:
  assumes "b = encode xs @ unicode_to_utf8 c @ r" "c \<le> 0x10ffff" "length (encode xs) < len"
  shows "convert_pos_fwd b len limit (length (encode xs)) j =
    (if j = limit then (length (encode xs), j, 0)
     else if 0x10000 \<le> c \<and> j + 1 = limit then (length (encode xs), j, 1)
     else convert_pos_fwd b len limit (length (encode (xs @ [c]))) (j + length (utf16_units c)))"
proof -
  from assms(2) obtain h t where ht: "unicode_to_utf8 c = h # t" "utf8_char_len h = Suc (length t)"
    "Suc (length t) = 4 \<longleftrightarrow> 0x10000 \<le> c" "0x10000 \<le> c \<Longrightarrow> is_valid_len4_utf8 (h # t @ r)"
    using utf8_char_shape_ex [of c r] by blast
  have "b ! length (encode xs) = h" "drop (length (encode xs)) b = h # t @ r"
    using assms(1) ht(1) by (simp_all add: nth_append)
  with ht assms(3) show ?thesis
    by (subst convert_pos_fwd.simps) (auto simp: Let_def utf16_units_length)
qed

definition at_utf16 :: "nat list \<Rightarrow> nat \<Rightarrow> nat \<times> nat \<times> nat \<Rightarrow> bool" where
  "at_utf16 cps n r \<longleftrightarrow> (\<exists>xs ys. cps = xs @ ys \<and> fst r = length (encode xs) \<and> fst (snd r) = length (utf16 xs)
     \<and> (snd (snd r) = 0 \<and> (length (utf16 xs) = n \<or> ys = [] \<and> length (utf16 xs) \<le> n) \<or>
        snd (snd r) = 1 \<and> n = length (utf16 xs) + 1 \<and> ys \<noteq> [] \<and> 0x10000 \<le> hd ys))"

lemma at_utf16_here:
  "length (utf16 xs) = n \<Longrightarrow> at_utf16 (xs @ ys) n (length (encode xs), n, 0)"
  unfolding at_utf16_def by (rule exI [of _ xs], rule exI [of _ ys]) simp

lemma at_utf16_inside:
  "0x10000 \<le> c \<Longrightarrow> length (utf16 xs) + 1 = n \<Longrightarrow>
     at_utf16 (xs @ c # ys) n (length (encode xs), length (utf16 xs), 1)"
  unfolding at_utf16_def by (rule exI [of _ xs], rule exI [of _ "c # ys"]) simp

lemma unicode_to_utf8_nonempty: "c \<le> 0x10ffff \<Longrightarrow> 0 < length (unicode_to_utf8 c)"
  by (rule utf8_char_shape [of c "[]"]) auto

lemma fwd_utf16:
  assumes "cps_ok ys" "length (utf16 xs) \<le> n" 
  shows "at_utf16 (xs @ ys) n
    (convert_pos_fwd (encode (xs @ ys)) (length (encode (xs @ ys))) n (length (encode xs)) (length (utf16 xs)))"
  using assms
proof (induction ys arbitrary: xs)
  case Nil
  then show ?case by (subst convert_pos_fwd.simps) (auto simp: at_utf16_def)
next
  case (Cons c ys)
  have pos: "0 < length (unicode_to_utf8 c)" using Cons.prems unicode_to_utf8_nonempty by simp
  note step = fwd_step [of "encode (xs @ c # ys)" xs c "encode ys" "length (encode (xs @ c # ys))" n
      "length (utf16 xs)"]
  show ?case
  proof (cases "length (utf16 xs) = n \<or> 0x10000 \<le> c \<and> length (utf16 xs) + 1 = n")
    case True
    with step pos Cons.prems at_utf16_here [of xs n "c # ys"] at_utf16_inside [of c xs n ys]
    show ?thesis by auto
  next
    case False
    then have "length (utf16 (xs @ [c])) \<le> n" using Cons.prems by (auto simp: utf16_units_length)
    with Cons.IH [of "xs @ [c]"] Cons.prems step pos False show ?thesis by auto
  qed
qed

lemma fwd_utf8:
  assumes "cps_ok ys" "length (utf16 (xs @ ys)) < limit"
  shows "convert_pos_fwd (encode (xs @ ys) @ r) (length (encode (xs @ ys))) limit
     (length (encode xs)) (length (utf16 xs)) = (length (encode (xs @ ys)), length (utf16 (xs @ ys)), 0)"
  using assms
proof (induction ys arbitrary: xs)
  case Nil
  then show ?case by (subst convert_pos_fwd.simps) simp
next
  case (Cons c ys)
  have pos: "0 < length (unicode_to_utf8 c)" using Cons.prems unicode_to_utf8_nonempty by simp
  have "length (utf16 xs) \<noteq> limit" "\<not> (0x10000 \<le> c \<and> length (utf16 xs) + 1 = limit)"
    using Cons.prems(2) by (auto simp: utf16_units_length)
  with fwd_step [of "encode (xs @ c # ys) @ r" xs c "encode ys @ r" "length (encode (xs @ c # ys))" limit
      "length (utf16 xs)"] pos Cons.prems Cons.IH [of "xs @ [c]"]
  show ?case by simp
qed

subsection \<open>The backward scan\<close>

lemma skip_cont_back_eq:
  assumes "\<not> cont_byte (b ! i)" "\<And>k. i < k \<Longrightarrow> k \<le> i + n \<Longrightarrow> cont_byte (b ! k)"
  shows "skip_cont_back b (i + n) = i"
  using assms
proof (induction n)
  case 0
  then show ?case by (cases i) auto
next
  case (Suc n)
  then show ?case by simp
qed

lemma bwd_step:
  assumes "b = encode xs @ unicode_to_utf8 c @ r" "c \<le> 0x10ffff" "start \<le> length (encode xs)"
  shows "convert_pos_bwd b start limit (length (encode (xs @ [c]))) (j + length (utf16_units c)) =
    (if 0x10000 \<le> c \<and> j + 1 = limit then (length (encode xs), j, 1)
     else if j = limit then (length (encode xs), j, 0)
     else convert_pos_bwd b start limit (length (encode xs)) j)"
proof -
  from assms(2) obtain h t where ht: "unicode_to_utf8 c = h # t" "\<not> cont_byte h"
    "list_all cont_byte t"
    "Suc (length t) = 4 \<longleftrightarrow> 0x10000 \<le> c" "0x10000 \<le> c \<Longrightarrow> is_valid_len4_utf8 (h # t @ r)"
    using utf8_char_shape_ex [of c r] by blast
  have b: "b ! length (encode xs) = h" "drop (length (encode xs)) b = h # t @ r"
    using assms(1) ht(1) by (simp_all add: nth_append)
  have "cont_byte (b ! k)" if "length (encode xs) < k" "k \<le> length (encode xs) + length t" for k
  proof -
    have "k - Suc (length (encode xs)) < length t" using that by linarith
    then have "b ! k = t ! (k - Suc (length (encode xs)))"
      using that assms(1) ht(1) by (simp add: nth_append nth_Cons')
    then show ?thesis using ht(3) that by (simp add: list_all_length)
  qed
  then have "skip_cont_back b (length (encode xs) + length t) = length (encode xs)"
    using ht(2) b(1) by (intro skip_cont_back_eq) auto
  with ht b assms(3) show ?thesis
    by (subst convert_pos_bwd.simps) (auto simp: Let_def utf16_units_length)
qed

lemma bwd_utf16:
  assumes "cps_ok xs" "n \<le> length (utf16 xs)"
  shows "n < length (utf16 xs) \<Longrightarrow> at_utf16 (xs @ ys) n
    (convert_pos_bwd (encode (xs @ ys)) 0 n (length (encode xs)) (length (utf16 xs)))"
  using assms
proof (induction xs arbitrary: ys rule: rev_induct)
  case Nil
  then show ?case by simp
next
  case (snoc c xs)
  note step = bwd_step [of "encode (xs @ c # ys)" xs c "encode ys" 0 n "length (utf16 xs)"]
  show ?case
  proof (cases "length (utf16 xs) = n \<or> 0x10000 \<le> c \<and> length (utf16 xs) + 1 = n")
    case True
    with step snoc.prems at_utf16_here [of xs n "c # ys"] at_utf16_inside [of c xs n ys]
    show ?thesis by auto
  next
    case False
    then have "n < length (utf16 xs)" using snoc.prems by (auto simp: utf16_units_length split: if_splits)
    with snoc.IH [of "c # ys"] snoc.prems step False show ?thesis by auto
  qed
qed

lemma bwd_utf8:
  assumes "cps_ok (xs @ ys)" "length (utf16 (xs @ ys)) < limit"
  shows "convert_pos_bwd (encode (xs @ ys) @ r) (length (encode xs)) limit
     (length (encode (xs @ ys))) (length (utf16 (xs @ ys))) = (length (encode xs), length (utf16 xs), 0)"
  using assms
proof (induction ys arbitrary: r rule: rev_induct)
  case Nil
  then show ?case by (subst convert_pos_bwd.simps) simp
next
  case (snoc c ys)
  have "length (utf16 (xs @ ys)) \<noteq> limit" "\<not> (0x10000 \<le> c \<and> length (utf16 (xs @ ys)) + 1 = limit)"
    using snoc.prems(2) by (auto simp: utf16_units_length)
  with bwd_step [of "encode (xs @ ys @ [c]) @ r" "xs @ ys" c r "length (encode xs)" limit
      "length (utf16 (xs @ ys))"] snoc.prems snoc.IH [of "unicode_to_utf8 c @ r"]
  show ?case by (simp add: add.assoc)
qed


subsection \<open>The reference conversion and the cache invariant\<close>

text \<open>The position of UTF-16 unit \<open>n\<close> counted over code points, with no cache: twice the byte
  offset, plus one for the right half of a surrogate pair.\<close>

fun ref_utf8_pos :: "nat list \<Rightarrow> nat \<Rightarrow> nat" where
  "ref_utf8_pos [] n = 0"
| "ref_utf8_pos (c # cs) n =
     (if n = 0 then 0 else if 0x10000 \<le> c \<and> n = 1 then 1
      else 2 * length (unicode_to_utf8 c) + ref_utf8_pos cs (n - length (utf16_units c)))"

lemma at_utf16_pos:
  assumes "at_utf16 cps n (i, j, f)"
  shows "ref_utf8_pos cps n = 2 * i + f"
proof -
  from assms obtain xs ys where cps: "cps = xs @ ys" and i: "i = length (encode xs)"
    and alt: "f = 0 \<and> (length (utf16 xs) = n \<or> ys = [] \<and> length (utf16 xs) \<le> n) \<or>
        f = 1 \<and> n = length (utf16 xs) + 1 \<and> ys \<noteq> [] \<and> 0x10000 \<le> hd ys"
    by (auto simp: at_utf16_def)
  have "ref_utf8_pos (xs @ ys) n = 2 * length (encode xs) + f"
    using alt
  proof (induction xs arbitrary: n)
    case Nil
    then show ?case by (cases ys) auto
  next
    case (Cons c xs)
    let ?m = "n - length (utf16_units c)"
    have "f = 0 \<and> (length (utf16 xs) = ?m \<or> ys = [] \<and> length (utf16 xs) \<le> ?m) \<or>
        f = 1 \<and> ?m = length (utf16 xs) + 1 \<and> ys \<noteq> [] \<and> 0x10000 \<le> hd ys"
      using Cons.prems by auto
    moreover have "n \<noteq> 0" "\<not> (0x10000 \<le> c \<and> n = 1)"
      using Cons.prems by (auto simp: utf16_units_length split: if_splits)
    ultimately show ?case using Cons.IH [of ?m] by auto
  qed
  then show ?thesis by (simp add: cps i)
qed

definition val_ok :: "strctx \<Rightarrow> strval \<Rightarrow> bool" where
  "val_ok ctx val \<longleftrightarrow> (case val of StringChar c \<Rightarrow> c \<le> 0x10ffff | StringPtr a \<Rightarrow> a < length (heap ctx))"

definition string_at :: "strctx \<Rightarrow> strval \<Rightarrow> nat list \<Rightarrow> bool" where
  "string_at ctx val cps \<longleftrightarrow> val_ok ctx val \<and>
     buf (get_string_ptr ctx val) = encode cps \<and> cps_ok cps \<and>
     (is_ascii (get_string_ptr ctx val) \<longrightarrow> list_all (\<lambda>c. c < 0x80) cps) \<and>
     length (encode cps) \<le> JS_STRING_LEN_MAX"

definition entry_ok :: "strctx \<Rightarrow> JSStringPosCacheEntry \<Rightarrow> bool" where
  "entry_ok ctx e \<longleftrightarrow> (\<forall>val. ce_str e = Some val \<longrightarrow> val_ok ctx val \<and> (\<forall>cps. string_at ctx val cps \<longrightarrow>
     (\<exists>xs ys. cps = xs @ ys \<and> pos_utf8 e = length (encode xs) \<and> pos_utf16 e = length (utf16 xs))))"

definition cache_ok :: "strctx \<Rightarrow> bool" where
  "cache_ok ctx \<longleftrightarrow> length (string_pos_cache ctx) = JS_STRING_POS_CACHE_SIZE \<and>
     string_pos_cache_counter ctx < JS_STRING_POS_CACHE_SIZE \<and>
     list_all (entry_ok ctx) (string_pos_cache ctx)"

lemma string_at_heap: "heap ctx' = heap ctx \<Longrightarrow> string_at ctx' val cps = string_at ctx val cps"
  unfolding string_at_def get_string_ptr_def val_ok_def by (cases val) simp_all

lemma val_ok_heap: "heap ctx' = heap ctx \<Longrightarrow> val_ok ctx' val = val_ok ctx val"
  unfolding val_ok_def by (cases val) simp_all

lemma entry_ok_heap: "heap ctx' = heap ctx \<Longrightarrow> entry_ok ctx' e = entry_ok ctx e"
  unfolding entry_ok_def by (simp add: string_at_heap [of ctx' ctx] val_ok_heap [of ctx' ctx])

lemma string_at_frame [simp]:
  "string_at (ctx\<lparr>string_pos_cache := x\<rparr>) = string_at ctx"
  "string_at (ctx\<lparr>string_pos_cache_counter := n\<rparr>) = string_at ctx"
  by (intro ext, rule string_at_heap, simp)+

lemma entry_ok_frame [simp]:
  "entry_ok (ctx\<lparr>string_pos_cache := x\<rparr>) = entry_ok ctx"
  "entry_ok (ctx\<lparr>string_pos_cache_counter := n\<rparr>) = entry_ok ctx"
  by (intro ext, rule entry_ok_heap, simp)+

lemma list_all_update: "list_all P xs \<Longrightarrow> P x \<Longrightarrow> list_all P (xs[k := x])"
  by (auto simp: list_all_iff dest!: subsetD [OF set_update_subset_insert])

lemma utf16_le_utf8: "cps_ok cps \<Longrightarrow> length (utf16 cps) \<le> length (encode cps)"
proof (induction cps)
  case Nil
  then show ?case by simp
next
  case (Cons c cps)
  then have "length (utf16_units c) \<le> length (unicode_to_utf8 c)"
    using utf8_char_shape_ex [of c "[]"] by (auto simp: utf16_units_length)
  with Cons show ?case by simp
qed

definition probe_ok :: "strctx \<Rightarrow> strval \<Rightarrow> nat \<times> nat option \<Rightarrow> bool" where
  "probe_ok ctx val acc \<longleftrightarrow> (case snd acc of None \<Rightarrow> True
     | Some k \<Rightarrow> k < JS_STRING_POS_CACHE_SIZE \<and> ce_str (string_pos_cache ctx ! k) = Some val)"

lemma probe_ok_step:
  "probe_ok ctx val acc \<Longrightarrow> k < JS_STRING_POS_CACHE_SIZE \<Longrightarrow>
     probe_ok ctx val (cache_probe ctx val pos ty k acc)"
  by (simp add: probe_ok_def cache_probe_def Let_def)

lemma probe_ok_fold:
  "probe_ok ctx val acc \<Longrightarrow> list_all (\<lambda>k. k < JS_STRING_POS_CACHE_SIZE) ks \<Longrightarrow>
     probe_ok ctx val (fold (cache_probe ctx val pos ty) ks acc)"
  by (induction ks arbitrary: acc) (simp_all add: probe_ok_step)

lemma cache_find_sound:
  assumes "cache_find ctx val pos ty = Some k"
  shows "k < JS_STRING_POS_CACHE_SIZE \<and> ce_str (string_pos_cache ctx ! k) = Some val"
proof -
  have "probe_ok ctx val (fold (cache_probe ctx val pos ty) [0..<JS_STRING_POS_CACHE_SIZE] (pos, None))"
    by (rule probe_ok_fold) (simp_all add: probe_ok_def list_all_iff)
  then show ?thesis using assms by (simp add: probe_ok_def cache_find_def)
qed

text \<open>Which entry the conversion works on.\<close>

lemma cache_select:
  assumes "cache_ok ctx" "val_ok ctx val"
    and "(k, ctx1) = (case cache_find ctx val pos ty of Some k \<Rightarrow> (k, ctx) | None \<Rightarrow> cache_replace ctx val)"
  shows "cache_ok ctx1 \<and> heap ctx1 = heap ctx \<and> k < length (string_pos_cache ctx1) \<and>
    ce_str (string_pos_cache ctx1 ! k) = Some val \<and> entry_ok ctx (string_pos_cache ctx1 ! k)"
proof (cases "cache_find ctx val pos ty")
  case None
  have new: "entry_ok ctx \<lparr>ce_str = Some val, pos_utf8 = 0, pos_utf16 = 0\<rparr>"
    unfolding entry_ok_def
  proof (intro allI impI conjI)
    fix v
    assume "ce_str \<lparr>ce_str = Some val, pos_utf8 = 0, pos_utf16 = 0\<rparr> = Some v"
    then show "val_ok ctx v" using assms(2) by simp
  next
    fix v and cps :: "nat list"
    have "cps = [] @ cps" by simp
    then show "\<exists>xs ys. cps = xs @ ys
        \<and> pos_utf8 \<lparr>ce_str = Some val, pos_utf8 = 0, pos_utf16 = 0\<rparr> = length (encode xs)
        \<and> pos_utf16 \<lparr>ce_str = Some val, pos_utf8 = 0, pos_utf16 = 0\<rparr> = length (utf16 xs)"
      by (intro exI conjI) auto
  qed
  have "list_all (entry_ok ctx) ((string_pos_cache ctx)
      [string_pos_cache_counter ctx := \<lparr>ce_str = Some val, pos_utf8 = 0, pos_utf16 = 0\<rparr>])"
    using assms(1) new by (intro list_all_update) (auto simp: cache_ok_def)
  then show ?thesis using None assms new
    by (simp add: cache_replace_def Let_def cache_ok_def)
next
  case (Some k')
  with cache_find_sound [OF Some] assms show ?thesis
    by (auto simp: cache_ok_def list_all_iff)
qed


lemma u32_small: "n < 2 ^ 32 \<Longrightarrow> u32 (int n) = n"
  by (simp add: u32_def)

lemma ascii_encode:
  "list_all (\<lambda>c. c < 0x80) cps \<Longrightarrow> encode cps = cps \<and> utf16 cps = cps"
  by (induction cps) (auto simp: unicode_to_utf8_def utf16_units_def)

lemma ascii_utf8_pos:
  "list_all (\<lambda>c. c < 0x80) cps \<Longrightarrow> ref_utf8_pos cps n = 2 * min (length cps) n"
  by (induction cps arbitrary: n)
    (auto simp: unicode_to_utf8_def utf16_units_def min_def)

lemma prefix_lengths:
  assumes "string_at ctx val (xs @ ys)"
  shows "length (encode xs) \<le> JS_STRING_LEN_MAX" "length (utf16 (xs @ ys)) < 0x7fffffff"
  using assms utf16_le_utf8 [of "xs @ ys"] by (auto simp: string_at_def JS_STRING_LEN_MAX_def)

text \<open>The scan, in either direction, from any prefix position.\<close>

lemma scan_utf16:
  assumes "cps_ok cps" "cps = xs @ ys" 
  shows "at_utf16 cps n (convert_pos_scan (encode cps) POS_TYPE_UTF16 n (length (utf16 xs) \<le> n)
     (length (encode xs)) (length (utf16 xs)))"
  using assms fwd_utf16 [of ys xs n] bwd_utf16 [of xs n ys]
  by (auto simp: convert_pos_scan_def)

lemma scan_utf8:
  assumes "cps_ok cps" "cps = xs @ ys" "cps = xs' @ ys'" "length (utf16 cps) < 0x7fffffff"
  shows "convert_pos_scan (encode cps) POS_TYPE_UTF8 (length (encode xs'))
      (length (encode xs) \<le> length (encode xs')) (length (encode xs)) (length (utf16 xs))
    = (length (encode xs'), length (utf16 xs'), 0)"
proof -
  have less: "length (encode as) < length (encode (as @ c # bs))" if "c \<le> 0x10ffff" for as bs c
    using unicode_to_utf8_nonempty [OF that] by simp
  consider zs where "xs' = xs @ zs" "ys = zs @ ys'" | c zs where "xs = xs' @ c # zs" "ys' = c # zs @ ys"
    using assms(2,3) by (auto simp: append_eq_append_conv2) (metis append_Nil2 list.exhaust)
  then show ?thesis
  proof cases
    case 1
    with assms fwd_utf8 [of zs xs "0x7fffffff" "encode ys'"] show ?thesis
      by (simp add: convert_pos_scan_def)
  next
    case 2
    have "c \<le> 0x10ffff" using 2 assms by simp
    from less [OF this, of xs' zs] 2 assms bwd_utf8 [of xs' "c # zs" "0x7fffffff" "encode ys"]
    show ?thesis by (auto simp: convert_pos_scan_def)
  qed
qed


subsection \<open>Position conversion is correct with any consistent cache\<close>

lemma encode_inj:
  "cps_ok xs \<Longrightarrow> cps_ok ys \<Longrightarrow> encode xs = encode ys \<Longrightarrow> xs = ys"
proof (induction xs arbitrary: ys)
  case Nil
  then show ?case using unicode_to_utf8_nonempty by (cases ys) auto
next
  case (Cons c xs)
  then obtain d zs where ys: "ys = d # zs"
    using unicode_to_utf8_nonempty [of c] by (cases ys) auto
  have "utf8_get (unicode_to_utf8 c @ encode xs) = utf8_get (unicode_to_utf8 d @ encode zs)"
    using Cons.prems ys by simp
  then have "c = d"
    using Cons.prems ys utf8_get_eq [of c "encode xs"] utf8_get_eq [of d "encode zs"] by simp
  with Cons ys show ?case by simp
qed

definition scan_ok :: "nat list \<Rightarrow> nat \<times> nat \<times> nat \<Rightarrow> bool" where
  "scan_ok cps r \<longleftrightarrow> (\<exists>xs ys. cps = xs @ ys \<and> fst r = length (encode xs) \<and> fst (snd r) = length (utf16 xs))"

lemma at_utf16_scan_ok: "at_utf16 cps n r \<Longrightarrow> scan_ok cps r"
  unfolding at_utf16_def scan_ok_def by blast

lemma convert_pos_core:
  assumes str: "string_at ctx val cps" and cache: "cache_ok ctx"
    and na: "\<not> is_ascii (get_string_ptr ctx val)"
    and pos: "pos = (case ty of POS_TYPE_UTF8 \<Rightarrow> drop_bit 1 pos0 | POS_TYPE_UTF16 \<Rightarrow> pos0)"
    and has: "has = (case ty of POS_TYPE_UTF8 \<Rightarrow> pos0 AND 1 | POS_TYPE_UTF16 \<Rightarrow> 0)"
    and scan: "\<And>xs ys. cps = xs @ ys \<Longrightarrow> good (convert_pos_scan (encode cps) ty pos
        ((case ty of POS_TYPE_UTF8 \<Rightarrow> length (encode xs) | POS_TYPE_UTF16 \<Rightarrow> length (utf16 xs)) \<le> pos)
        (length (encode xs)) (length (utf16 xs)))"
    and ok: "\<And>r. good r \<Longrightarrow> scan_ok cps r"
  shows "\<exists>r ctx'. js_string_convert_pos ctx val pos0 ty = (convert_pos_result ty has r, ctx') \<and> good r \<and>
     cache_ok ctx' \<and> heap ctx' = heap ctx"
proof (cases "length (encode cps) < JS_STRING_POS_CACHE_MIN_LEN")
  case True
  have "good (convert_pos_scan (encode cps) ty pos True 0 0)"
    using scan [of "[]" cps] by (cases ty) simp_all
  moreover have "buf (get_string_ptr ctx val) = encode cps" using str by (simp add: string_at_def)
  moreover have "js_string_convert_pos ctx val pos0 ty =
      (convert_pos_result ty has (convert_pos_scan (encode cps) ty pos True 0 0), ctx)"
    using True na calculation(2) by (simp add: js_string_convert_pos_def Let_def flip: pos has)
  ultimately show ?thesis using cache by blast
next
  case False
  obtain k ctx1 where sel: "(k, ctx1) = (case cache_find ctx val pos ty of
      Some k \<Rightarrow> (k, ctx) | None \<Rightarrow> cache_replace ctx val)" by (metis surj_pair)
  have vok: "val_ok ctx val" using str by (simp add: string_at_def)
  note sel_ok = cache_select [OF cache vok sel]
  define ce where "ce = string_pos_cache ctx1 ! k"
  obtain xs ys where cps: "cps = xs @ ys" and ce: "pos_utf8 ce = length (encode xs)"
      "pos_utf16 ce = length (utf16 xs)"
    using sel_ok str unfolding ce_def entry_ok_def by blast
  define r where "r = convert_pos_scan (encode cps) ty pos (str_pos ce ty \<le> pos) (pos_utf8 ce) (pos_utf16 ce)"
  have good: "good r" using scan [OF cps] ce by (cases ty) (simp_all add: r_def str_pos_def)
  define ce' where "ce' = ce\<lparr>pos_utf8 := fst r, pos_utf16 := fst (snd r)\<rparr>"
  have "entry_ok ctx1 ce'"
    unfolding entry_ok_def
  proof (intro allI impI conjI)
    fix v
    assume "ce_str ce' = Some v"
    then show "val_ok ctx1 v" using sel_ok vok val_ok_heap [of ctx1 ctx] by (simp add: ce'_def ce_def)
  next
    fix v cps'
    assume v: "ce_str ce' = Some v" and s': "string_at ctx1 v cps'"
    have "v = val" using v sel_ok by (simp add: ce'_def ce_def)
    then have "string_at ctx val cps'" using s' sel_ok string_at_heap [of ctx1 ctx] by simp
    then have "encode cps' = encode cps" "cps_ok cps'" "cps_ok cps"
      using str by (auto simp: string_at_def)
    then have "cps' = cps" using encode_inj by blast
    then show "\<exists>xs ys. cps' = xs @ ys \<and> pos_utf8 ce' = length (encode xs) \<and> pos_utf16 ce' = length (utf16 xs)"
      using ok [OF good] by (simp add: scan_ok_def ce'_def)
  qed
  then have "cache_ok (ctx1\<lparr>string_pos_cache := (string_pos_cache ctx1)[k := ce']\<rparr>)"
    using sel_ok by (simp add: cache_ok_def list_all_update)
  moreover have "js_string_convert_pos ctx val pos0 ty =
      (convert_pos_result ty has r, ctx1\<lparr>string_pos_cache := (string_pos_cache ctx1)[k := ce']\<rparr>)"
    using False na str sel [symmetric]
    by (simp add: js_string_convert_pos_def Let_def string_at_def r_def ce'_def ce_def flip: pos has)
  moreover have "heap (ctx1\<lparr>string_pos_cache := (string_pos_cache ctx1)[k := ce']\<rparr>) = heap ctx"
    using sel_ok by simp
  ultimately show ?thesis using good by blast
qed

lemma convert_pos_utf16_ref:
  assumes "string_at ctx val cps" "cache_ok ctx" "n < 2 ^ 31"
  shows "fst (js_string_convert_pos ctx val n POS_TYPE_UTF16) = ref_utf8_pos cps n
    \<and> cache_ok (snd (js_string_convert_pos ctx val n POS_TYPE_UTF16))
    \<and> heap (snd (js_string_convert_pos ctx val n POS_TYPE_UTF16)) = heap ctx"
proof (cases "is_ascii (get_string_ptr ctx val)")
  case True
  with assms have a: "list_all (\<lambda>c. c < 0x80) cps" and len: "length cps \<le> JS_STRING_LEN_MAX"
    and b: "buf (get_string_ptr ctx val) = cps"
    using ascii_encode [of cps] by (auto simp: string_at_def)
  have "u32 (min_int (int (length cps)) (s32 n) * 2) = 2 * min (length cps) n"
    using assms(3) len u32_small [of "2 * length cps"] u32_small [of "2 * n"]
    by (simp add: min_int_def s32_def JS_STRING_LEN_MAX_def min_def mult.commute)
  with True b a assms(2) show ?thesis
    by (simp add: js_string_convert_pos_def Let_def ascii_utf8_pos)
next
  case False
  have ok: "cps_ok cps" "length (encode cps) \<le> JS_STRING_LEN_MAX" using assms by (auto simp: string_at_def)
  have "\<exists>r ctx'. js_string_convert_pos ctx val n POS_TYPE_UTF16 = (convert_pos_result POS_TYPE_UTF16 0 r, ctx')
     \<and> at_utf16 cps n r \<and> cache_ok ctx' \<and> heap ctx' = heap ctx"
    by (rule convert_pos_core [OF assms(1,2) False])
      (use ok scan_utf16 at_utf16_scan_ok in simp_all)
  then obtain i j f ctx' where r: "js_string_convert_pos ctx val n POS_TYPE_UTF16 =
      (convert_pos_result POS_TYPE_UTF16 0 (i, j, f), ctx')" "at_utf16 cps n (i, j, f)" "cache_ok ctx'"
      "heap ctx' = heap ctx" by auto
  have "2 * i + f < 2 ^ 32" using r(2) ok(2) by (auto simp: at_utf16_def JS_STRING_LEN_MAX_def)
  then show ?thesis using r at_utf16_pos [OF r(2)] u32_small [of "2 * i + f"]
    by (simp add: convert_pos_result_def mult.commute)
qed

text \<open>C6. Converting a UTF-16 position to a UTF-8 position gives the reference position whatever the position cache holds, scanning forwards or backwards from the nearest cached pair, and leaves the cache consistent and the heap unchanged.\<close>

theorem convert_pos_utf16_correct:
  assumes "string_at ctx val cps" "cache_ok ctx" "n < 2 ^ 31"
  shows "fst (js_string_convert_pos ctx val n POS_TYPE_UTF16) = ref_utf8_pos cps n
    \<and> cache_ok (snd (js_string_convert_pos ctx val n POS_TYPE_UTF16))
    \<and> heap (snd (js_string_convert_pos ctx val n POS_TYPE_UTF16)) = heap ctx"
  using assms by (rule convert_pos_utf16_ref)


lemma convert_pos_utf8_ref:
  assumes "string_at ctx val (xs @ ys)" "cache_ok ctx"
    and "h = 0 \<or> h = 1 \<and> ys \<noteq> [] \<and> 0x10000 \<le> hd ys"
  shows "fst (js_string_convert_pos ctx val (2 * length (encode xs) + h) POS_TYPE_UTF8) = length (utf16 xs) + h
    \<and> cache_ok (snd (js_string_convert_pos ctx val (2 * length (encode xs) + h) POS_TYPE_UTF8))
    \<and> heap (snd (js_string_convert_pos ctx val (2 * length (encode xs) + h) POS_TYPE_UTF8)) = heap ctx"
proof (cases "is_ascii (get_string_ptr ctx val)")
  case True
  with assms have a: "list_all (\<lambda>c. c < 0x80) (xs @ ys)" and len: "length (xs @ ys) \<le> JS_STRING_LEN_MAX"
    and b: "buf (get_string_ptr ctx val) = xs @ ys"
    using ascii_encode [of xs] ascii_encode [of ys] by (auto simp: string_at_def)
  have h: "h = 0" using assms(3) a by (cases ys) auto
  have "u32 (min_int (int (length (xs @ ys))) (s32 (length xs))) = length xs"
    using len u32_small [of "length xs"]
    by (simp add: min_int_def s32_def JS_STRING_LEN_MAX_def)
  with True b a assms(2) h ascii_encode [of xs] show ?thesis
    by (simp add: js_string_convert_pos_def Let_def)
next
  case False
  let ?cps = "xs @ ys" and ?p0 = "2 * length (encode xs) + h"
  have ok: "cps_ok ?cps" "length (utf16 ?cps) < 0x7fffffff" 
    using assms prefix_lengths [OF assms(1)] by (auto simp: string_at_def)
  have "?p0 AND 1 = ?p0 mod 2" using nat_and_mask [of ?p0 1] by simp
  then have p0: "drop_bit 1 ?p0 = length (encode xs)" "?p0 AND 1 = h"
    using assms(3) by (auto simp: drop_bits)
  have "\<exists>r ctx'. js_string_convert_pos ctx val ?p0 POS_TYPE_UTF8 =
       (convert_pos_result POS_TYPE_UTF8 h r, ctx')
     \<and> r = (length (encode xs), length (utf16 xs), 0) \<and> cache_ok ctx' \<and> heap ctx' = heap ctx"
    by (rule convert_pos_core [OF assms(1,2) False, where pos = "length (encode xs)"])
      (use ok p0 scan_utf8 [OF ok(1) _ refl ok(2)] in \<open>auto simp: scan_ok_def\<close>)
  moreover have "length (utf16 xs) + h < 2 ^ 32" using ok(2) assms(3) by auto
  ultimately show ?thesis using u32_small [of "length (utf16 xs) + h"]
    by (auto simp: convert_pos_result_def)
qed

text \<open>Converting a UTF-8 position (byte offset of a code point boundary, with the low bit for the right half of a pair) to a UTF-16 position gives the number of UTF-16 units before it, with any consistent cache, and leaves the cache consistent.\<close>

theorem convert_pos_utf8_correct:
  assumes "string_at ctx val (xs @ ys)" "cache_ok ctx"
    and "h = 0 \<or> h = 1 \<and> ys \<noteq> [] \<and> 0x10000 \<le> hd ys"
  shows "fst (js_string_convert_pos ctx val (2 * length (encode xs) + h) POS_TYPE_UTF8) = length (utf16 xs) + h
    \<and> cache_ok (snd (js_string_convert_pos ctx val (2 * length (encode xs) + h) POS_TYPE_UTF8))
    \<and> heap (snd (js_string_convert_pos ctx val (2 * length (encode xs) + h) POS_TYPE_UTF8)) = heap ctx"
  using assms by (rule convert_pos_utf8_ref)

subsection \<open>A concrete string and cache\<close>

text \<open>A string of 21 bytes in the heap and a cache entry past its third code point.\<close>

definition example_cps :: "nat list" where
  "example_cps = [65, 0x10400, 0xe9, 0x20ac, 0x10ffff, 66, 67, 68, 69, 70, 71, 72]"

definition example_ctx :: strctx where
  "example_ctx = \<lparr>
     heap = [\<lparr>is_unique = True, is_ascii = True, is_numeric = False, buf = []\<rparr>,
             \<lparr>is_unique = False, is_ascii = False, is_numeric = False, buf = encode example_cps\<rparr>],
     mem_free = 1000,
     string_pos_cache = [\<lparr>ce_str = Some (StringPtr 1), pos_utf8 = 10, pos_utf16 = 5\<rparr>,
                         \<lparr>ce_str = None, pos_utf8 = 0, pos_utf16 = 0\<rparr>],
     string_pos_cache_counter = 1\<rparr>"

lemma example_string_at: "string_at example_ctx (StringPtr 1) example_cps"
  by (simp add: string_at_def example_ctx_def example_cps_def get_string_ptr_def
      val_ok_def JS_STRING_LEN_MAX_def unicode_to_utf8_def unicode_to_utf8_slow_def)

lemma example_cache_ok: "cache_ok example_ctx"
proof -
  have "pos_utf8 e = length (encode (take 4 example_cps)) \<and> pos_utf16 e = length (utf16 (take 4 example_cps))"
    if "e = \<lparr>ce_str = Some (StringPtr 1), pos_utf8 = 10, pos_utf16 = 5\<rparr>" for e :: JSStringPosCacheEntry
    using that by (simp add: example_cps_def unicode_to_utf8_def unicode_to_utf8_slow_def utf16_units_def)
  moreover have "cps = example_cps" if "string_at example_ctx (StringPtr 1) cps" for cps
    using that example_string_at encode_inj [of cps example_cps] by (simp add: string_at_def)
  ultimately have "entry_ok example_ctx \<lparr>ce_str = Some (StringPtr 1), pos_utf8 = 10, pos_utf16 = 5\<rparr>"
    unfolding entry_ok_def using example_string_at
    by (metis append_take_drop_id JSStringPosCacheEntry.select_convs(1) option.inject string_at_def)
  moreover have "entry_ok example_ctx \<lparr>ce_str = None, pos_utf8 = 0, pos_utf16 = 0\<rparr>"
    by (simp add: entry_ok_def)
  ultimately show ?thesis
    by (simp add: cache_ok_def example_ctx_def JS_STRING_POS_CACHE_SIZE_def)
qed

theorem convert_pos_utf16_correct_witness:
  "fst (js_string_convert_pos example_ctx (StringPtr 1) 2 POS_TYPE_UTF16) = 3"
  using convert_pos_utf16_correct [OF example_string_at example_cache_ok, of 2]
  by (simp add: example_cps_def unicode_to_utf8_def unicode_to_utf8_slow_def utf16_units_def)

theorem convert_pos_utf8_correct_witness:
  "fst (js_string_convert_pos example_ctx (StringPtr 1) 3 POS_TYPE_UTF8) = 2"
proof -
  have s: "string_at example_ctx (StringPtr 1) ([65] @ tl example_cps)"
    using example_string_at by (simp add: example_cps_def)
  show ?thesis
    using convert_pos_utf8_correct [OF s example_cache_ok, of 1]
    by (simp add: example_cps_def unicode_to_utf8_def utf16_units_def)
qed

end
