(* ===== verification/JSStringOps.thy ===== *)
theory JSStringOps
  imports JSStrings
begin

unbundle bit_operations_syntax

section \<open>Reading engine strings: length, units, equality, order\<close>

text \<open>
  Models the read-only string operations of \<^verbatim>\<open>mquickjs.c\<close>: length in UTF-16 units,
  the unit or code point at a UTF-16 position, equality and ordering.  They are specified on the code
  points a value denotes: \<open>js_string_len\<close> is the number of UTF-16 units, \<open>string_getc\<close>
  the unit itself, \<open>js_string_eq\<close> equality, and \<open>js_string_compare\<close> the order
  \<open>cps_compare\<close>, which is a total order and, on strings without unpaired surrogates, the
  UTF-16 order the language prescribes.
\<close>

subsection \<open>Length and character access\<close>

definition js_string_utf16_to_utf8_pos :: "strctx \<Rightarrow> strval \<Rightarrow> nat \<Rightarrow> nat \<times> strctx" where
  "js_string_utf16_to_utf8_pos ctx val utf16_pos = js_string_convert_pos ctx val utf16_pos POS_TYPE_UTF16"

definition js_string_utf8_to_utf16_pos :: "strctx \<Rightarrow> strval \<Rightarrow> nat \<Rightarrow> nat \<times> strctx" where
  "js_string_utf8_to_utf16_pos ctx val utf8_pos = js_string_convert_pos ctx val utf8_pos POS_TYPE_UTF8"

definition js_string_len :: "strctx \<Rightarrow> strval \<Rightarrow> nat \<times> strctx" where
  "js_string_len ctx val =
     (case val of
        StringChar c \<Rightarrow> (if c \<ge> 0x10000 then 2 else 1, ctx)
      | StringPtr a \<Rightarrow>
          (let p = heap ctx ! a
           in if is_ascii p then (length (buf p), ctx)
              else js_string_utf8_to_utf16_pos ctx val (length (buf p) * 2)))"

definition string_getcp :: "strctx \<Rightarrow> strval \<Rightarrow> nat \<Rightarrow> bool \<Rightarrow> int \<times> strctx" where
  "string_getcp ctx str utf16_pos is_codepoint =
     (let r = js_string_utf16_to_utf8_pos ctx str utf16_pos;
          utf8_pos0 = fst r; ctx' = snd r;
          surrogate_flag = utf8_pos0 AND 1;
          utf8_pos = drop_bit 1 utf8_pos0;
          p = get_string_ptr ctx' str
      in if utf8_pos \<ge> length (buf p) then (-1, ctx')
         else let c = fst (utf8_get (drop utf8_pos (buf p)))
              in if c < 0x10000 \<or> (surrogate_flag = 0 \<and> is_codepoint) then (int c, ctx')
                 else let c' = c - 0x10000
                      in if surrogate_flag = 0 then (int (0xd800 + drop_bit 10 c'), ctx')
                         else (int (0xdc00 + (c' AND 0x3ff)), ctx'))"

definition string_getc :: "strctx \<Rightarrow> strval \<Rightarrow> nat \<Rightarrow> int \<times> strctx" where
  "string_getc ctx str utf16_pos = string_getcp ctx str utf16_pos False"

subsection \<open>Comparison\<close>

definition js_string_eq :: "strctx \<Rightarrow> strval \<Rightarrow> strval \<Rightarrow> bool" where
  "js_string_eq ctx val1 val2 =
     (let p1 = get_string_ptr ctx val1; p2 = get_string_ptr ctx val2
      in if length (buf p1) \<noteq> length (buf p2) then False else buf p1 = buf p2)"

text \<open>\<open>string_get_cp p\<close> with \<open>p\<close> pointing at byte \<open>i\<close> of \<open>b\<close>.\<close>

definition string_get_cp :: "bytes \<Rightarrow> nat \<Rightarrow> nat" where
  "string_get_cp b i = fst (utf8_get (drop (skip_cont_back b i) b))"

function first_diff :: "bytes \<Rightarrow> bytes \<Rightarrow> nat \<Rightarrow> nat \<Rightarrow> nat" where
  "first_diff b1 b2 len i = (if i < len then (if b1 ! i \<noteq> b2 ! i then i else first_diff b1 b2 len (i + 1)) else i)"
  by pat_completeness auto
termination by (relation "measure (\<lambda>(b1, b2, len, i). len - i)") auto

declare first_diff.simps [simp del]

definition js_string_compare :: "strctx \<Rightarrow> strval \<Rightarrow> strval \<Rightarrow> int" where
  "js_string_compare ctx val1 val2 =
     (let b1 = buf (get_string_ptr ctx val1); b2 = buf (get_string_ptr ctx val2);
          len = nat (min_int (int (length b1)) (int (length b2)));
          i = first_diff b1 b2 len 0
      in if i \<noteq> len then
           let c1 = string_get_cp b1 i; c2 = string_get_cp b2 i
           in if (c1 < 0x10000 \<and> c2 < 0x10000) \<or> (c1 \<ge> 0x10000 \<and> c2 \<ge> 0x10000) then
                (if c1 < c2 then -1 else 1)
              else if c1 < 0x10000 then
                (let c2' = 0xd800 + drop_bit 10 (c2 - 0x10000) in if c1 \<le> c2' then -1 else 1)
              else
                (let c1' = 0xd800 + drop_bit 10 (c1 - 0x10000) in if c1' < c2 then -1 else 1)
         else if length b1 = length b2 then 0
         else if length b1 < length b2 then -1
         else 1)"

subsection \<open>Reading a unit\<close>

lemma utf8_pos_end: "cps_ok cps \<Longrightarrow> length (utf16 cps) \<le> n \<Longrightarrow> ref_utf8_pos cps n = 2 * length (encode cps)"
  by (induction cps arbitrary: n) (auto simp: utf16_units_length split: if_splits)

lemma utf8_pos_split:
  assumes "n < length (utf16 cps)"
  shows "\<exists>xs c ys. cps = xs @ c # ys \<and>
    (n = length (utf16 xs) \<and> ref_utf8_pos cps n = 2 * length (encode xs) \<or>
     n = length (utf16 xs) + 1 \<and> 0x10000 \<le> c \<and> ref_utf8_pos cps n = 2 * length (encode xs) + 1)"
  using assms
proof (induction cps arbitrary: n)
  case Nil
  then show ?case by simp
next
  case (Cons c cps)
  show ?case
  proof (cases "n < length (utf16_units c)")
    case True
    then show ?thesis
      by (intro exI [of _ "[]"] exI [of _ c] exI [of _ cps])
        (auto simp: utf16_units_length split: if_splits)
  next
    case False
    then have lt: "n - length (utf16_units c) < length (utf16 cps)" using Cons.prems by auto
    obtain xs d ys where *: "cps = xs @ d # ys"
      "n - length (utf16_units c) = length (utf16 xs) \<and>
         ref_utf8_pos cps (n - length (utf16_units c)) = 2 * length (encode xs) \<or>
       n - length (utf16_units c) = length (utf16 xs) + 1 \<and> 0x10000 \<le> d \<and>
         ref_utf8_pos cps (n - length (utf16_units c)) = 2 * length (encode xs) + 1"
      using Cons.IH [OF lt] by blast
    have "n \<noteq> 0" "\<not> (0x10000 \<le> c \<and> n = 1)"
      using False by (auto simp: utf16_units_length split: if_splits)
    then show ?thesis using * False
      by (intro exI [of _ "c # xs"] exI [of _ d] exI [of _ ys]) auto
  qed
qed

lemma utf16_nth_units:
  "utf16 (xs @ c # ys) ! length (utf16 xs) = hd (utf16_units c)"
  "0x10000 \<le> c \<Longrightarrow> utf16 (xs @ c # ys) ! Suc (length (utf16 xs)) = 0xdc00 + (c - 0x10000) mod 0x400"
  by (auto simp: nth_append utf16_units_def)

text \<open>Reading at a UTF-16 position gives exactly that UTF-16 unit of the string (a half of a surrogate pair when the position falls in one) and -1 from the end on, whatever the position cache holds.\<close>

theorem string_getc_correct:
  assumes "string_at ctx val cps" "cache_ok ctx" "n < 2 ^ 31"
  shows "fst (string_getc ctx val n) = (if n < length (utf16 cps) then int (utf16 cps ! n) else -1)"
proof -
  obtain u ctx' where conv: "js_string_utf16_to_utf8_pos ctx val n = (u, ctx')" by fastforce
  have u: "u = ref_utf8_pos cps n" and h: "heap ctx' = heap ctx"
    using convert_pos_utf16_ref [OF assms] conv by (auto simp: js_string_utf16_to_utf8_pos_def)
  have ok: "cps_ok cps" and b: "buf (get_string_ptr ctx' val) = encode cps"
    using assms(1) string_at_heap [OF h, of val cps] by (auto simp: string_at_def)
  have eq: "fst (string_getc ctx val n) =
     (if length (encode cps) \<le> u div 2 then -1
      else let c = fst (utf8_get (drop (u div 2) (encode cps)))
           in if c < 0x10000 then int c
              else if even u then int (0xd800 + (c - 0x10000) div 0x400)
              else int (0xdc00 + (c - 0x10000) mod 0x400))"
    by (simp add: string_getc_def string_getcp_def conv b Let_def drop_bits and_masks even_iff_mod_2_eq_zero)
  show ?thesis
  proof (cases "n < length (utf16 cps)")
    case False
    with ok have "u = 2 * length (encode cps)" by (simp add: u utf8_pos_end)
    then show ?thesis using False eq by simp
  next
    case True
    from utf8_pos_split [OF True] obtain xs c ys where cps: "cps = xs @ c # ys"
      and alt: "n = length (utf16 xs) \<and> u = 2 * length (encode xs) \<or>
       n = length (utf16 xs) + 1 \<and> 0x10000 \<le> c \<and> u = 2 * length (encode xs) + 1"
      using u by auto
    have c: "c \<le> 0x10ffff" using ok cps by simp
    have get: "utf8_get (drop (length (encode xs)) (encode cps)) = (c, length (unicode_to_utf8 c))"
      using utf8_get_eq [OF c, of "encode ys"] cps by simp
    have lt: "length (encode xs) < length (encode cps)"
      using unicode_to_utf8_nonempty [OF c] cps by simp
    from alt show ?thesis
    proof (elim disjE conjE)
      assume "n = length (utf16 xs)" "u = 2 * length (encode xs)"
      then show ?thesis unfolding eq using True get lt utf16_nth_units(1) [of xs c ys] cps
        by (simp add: Let_def utf16_units_def)
    next
      assume "n = length (utf16 xs) + 1" "0x10000 \<le> c" "u = 2 * length (encode xs) + 1"
      then show ?thesis unfolding eq using True get lt utf16_nth_units(2) [of c xs ys] cps
        by (simp add: Let_def)
    qed
  qed
qed


subsection \<open>Comparison\<close>

definition cp_less :: "nat \<Rightarrow> nat \<Rightarrow> bool" where
  "cp_less c d \<longleftrightarrow> (let u = hd (utf16_units c); v = hd (utf16_units d)
     in u < v \<or> u = v \<and> (if d < 0x10000 then False else if c < 0x10000 then True else c < d))"

fun cps_compare :: "nat list \<Rightarrow> nat list \<Rightarrow> int" where
  "cps_compare [] [] = 0"
| "cps_compare [] (d # ds) = -1"
| "cps_compare (c # cs) [] = 1"
| "cps_compare (c # cs) (d # ds) =
     (if c = d then cps_compare cs ds else if cp_less c d then -1 else 1)"

lemma first_diff_eq:
  assumes "i \<le> j" "j \<le> len" "\<And>k. i \<le> k \<Longrightarrow> k < j \<Longrightarrow> b1 ! k = b2 ! k" "j = len \<or> b1 ! j \<noteq> b2 ! j"
  shows "first_diff b1 b2 len i = j"
  using assms
proof (induction b1 b2 len i rule: first_diff.induct)
  case (1 b1 b2 len i)
  show ?case
  proof (cases "i = j")
    case True
    then show ?thesis using "1.prems" by (subst first_diff.simps) auto
  next
    case False
    then have "first_diff b1 b2 len (i + 1) = j"
      using "1.prems" by (intro "1.IH") auto
    then show ?thesis using False "1.prems" by (subst first_diff.simps) auto
  qed
qed

lemma list_first_difference:
  "length xs = length ys \<Longrightarrow> xs \<noteq> ys \<Longrightarrow>
     \<exists>k < length xs. take k xs = take k ys \<and> xs ! k \<noteq> ys ! k"
proof (induction xs ys rule: list_induct2)
  case Nil
  then show ?case by simp
next
  case (Cons x xs y ys)
  show ?case
  proof (cases "x = y")
    case True
    with Cons obtain k where "k < length xs" "take k xs = take k ys" "xs ! k \<noteq> ys ! k" by auto
    with True show ?thesis by (intro exI [of _ "Suc k"]) auto
  next
    case False
    then show ?thesis by (intro exI [of _ 0]) auto
  qed
qed

lemma utf8_first_difference:
  assumes "c \<le> 0x10ffff" "d \<le> 0x10ffff" "c \<noteq> d"
  shows "\<exists>k. k < length (unicode_to_utf8 c) \<and> k < length (unicode_to_utf8 d) \<and>
    take k (unicode_to_utf8 c) = take k (unicode_to_utf8 d) \<and> unicode_to_utf8 c ! k \<noteq> unicode_to_utf8 d ! k"
proof -
  have neq: "unicode_to_utf8 c \<noteq> unicode_to_utf8 d"
    using encode_inj [of "[c]" "[d]"] assms by auto
  obtain h t where c: "unicode_to_utf8 c = h # t" "utf8_char_len h = Suc (length t)"
    using utf8_char_shape_ex [OF assms(1), of "[]"] by blast
  obtain h' t' where d: "unicode_to_utf8 d = h' # t'" "utf8_char_len h' = Suc (length t')"
    using utf8_char_shape_ex [OF assms(2), of "[]"] by blast
  show ?thesis
  proof (cases "h = h'")
    case True
    then have "length (unicode_to_utf8 c) = length (unicode_to_utf8 d)" using c d by simp
    with list_first_difference [OF this neq] show ?thesis by auto
  next
    case False
    then show ?thesis using c d by (intro exI [of _ 0]) simp
  qed
qed

lemma string_get_cp_inside:
  assumes "b = encode xs @ unicode_to_utf8 c @ r" "c \<le> 0x10ffff" "k < length (unicode_to_utf8 c)"
  shows "string_get_cp b (length (encode xs) + k) = c"
proof -
  obtain h t where ht: "unicode_to_utf8 c = h # t" "\<not> cont_byte h" "list_all cont_byte t"
    using utf8_char_shape_ex [OF assms(2), of "[]"] by blast
  have "skip_cont_back b (length (encode xs) + k) = length (encode xs)"
  proof (rule skip_cont_back_eq)
    show "\<not> cont_byte (b ! length (encode xs))" using assms(1) ht by (simp add: nth_append)
  next
    fix m assume m: "length (encode xs) < m" "m \<le> length (encode xs) + k"
    have l: "m - length (encode xs) - 1 < length t" using m assms(3) ht(1) by auto
    have "b ! m = t ! (m - length (encode xs) - 1)"
      using m l assms(1) ht(1) by (simp add: nth_append nth_Cons')
    then show "cont_byte (b ! m)" using l ht(3) by (simp add: list_all_length)
  qed
  then show ?thesis using assms(1) utf8_get_eq [OF assms(2), of r] by (simp add: string_get_cp_def)
qed

lemma common_prefix_cases:
  obtains (eq) "xs = ys"
  | (left) c cs where "ys = xs @ c # cs"
  | (right) c cs where "xs = ys @ c # cs"
  | (diff) p c cs d ds where "xs = p @ c # cs" "ys = p @ d # ds" "c \<noteq> d"
proof -
  have "xs = ys \<or> (\<exists>c cs. ys = xs @ c # cs) \<or> (\<exists>c cs. xs = ys @ c # cs) \<or>
     (\<exists>p c cs d ds. xs = p @ c # cs \<and> ys = p @ d # ds \<and> c \<noteq> d)"
  proof (induction xs arbitrary: ys)
    case Nil
    then show ?case by (cases ys) auto
  next
    case (Cons x xs)
    show ?case
    proof (cases ys)
      case Nil
      then show ?thesis by auto
    next
      case y: (Cons y zs)
      show ?thesis
      proof (cases "x = y")
        case False
        then show ?thesis using y by (metis append_Nil)
      next
        case True
        with Cons.IH [of zs] y show ?thesis by (metis append_Cons)
      qed
    qed
  qed
  then show ?thesis using that by blast
qed

lemma cps_compare_prefix [simp]:
  "cps_compare (p @ xs) (p @ ys) = cps_compare xs ys"
  by (induction p) auto

lemma js_string_compare_cps:
  assumes "string_at ctx v1 xs" "string_at ctx v2 ys"
  shows "js_string_compare ctx v1 v2 = cps_compare xs ys"
proof -
  have b: "buf (get_string_ptr ctx v1) = encode xs" "buf (get_string_ptr ctx v2) = encode ys"
    and ok: "cps_ok xs" "cps_ok ys"
    using assms by (auto simp: string_at_def)
  define len where "len = min (length (encode xs)) (length (encode ys))"
  have len: "nat (min_int (int (length (encode xs))) (int (length (encode ys)))) = len"
    by (simp add: min_int_def len_def)
  have pre: "js_string_compare ctx v1 v2 = (if length (encode xs) = length (encode ys) then 0
      else if length (encode xs) < length (encode ys) then -1 else 1)"
    if "first_diff (encode xs) (encode ys) len 0 = len"
    using that by (simp add: js_string_compare_def b len Let_def)
  show ?thesis
  proof (cases xs ys rule: common_prefix_cases)
    case eq
    then have "first_diff (encode xs) (encode ys) len 0 = len"
      by (intro first_diff_eq) auto
    then show ?thesis using eq pre cps_compare_prefix [of xs "[]" "[]"] by simp
  next
    case (left c cs)
    then have "first_diff (encode xs) (encode ys) len 0 = len"
      by (intro first_diff_eq) (auto simp: nth_append len_def)
    then show ?thesis
      using left pre cps_compare_prefix [of xs "[]" "c # cs"] ok unicode_to_utf8_nonempty [of c] by auto
  next
    case (right c cs)
    then have "first_diff (encode xs) (encode ys) len 0 = len"
      by (intro first_diff_eq) (auto simp: nth_append len_def)
    then show ?thesis
      using right pre cps_compare_prefix [of ys "c # cs" "[]"] ok unicode_to_utf8_nonempty [of c] by auto
  next
    case (diff p c cs d ds)
    have cd: "c \<le> 0x10ffff" "d \<le> 0x10ffff" using ok diff by auto
    obtain k where k: "k < length (unicode_to_utf8 c)" "k < length (unicode_to_utf8 d)"
      "take k (unicode_to_utf8 c) = take k (unicode_to_utf8 d)" "unicode_to_utf8 c ! k \<noteq> unicode_to_utf8 d ! k"
      using utf8_first_difference [OF cd diff(3)] by blast
    let ?i = "length (encode p) + k"
    have "encode xs ! m = encode ys ! m" if "m < ?i" for m
    proof (cases "m < length (encode p)")
      case True
      then show ?thesis using diff by (simp add: nth_append)
    next
      case False
      then have "m - length (encode p) < k" using that by auto
      then show ?thesis using False diff k(1,2) nth_take [of "m - length (encode p)" k "unicode_to_utf8 c"]
          nth_take [of "m - length (encode p)" k "unicode_to_utf8 d"] k(3)
        by (simp add: nth_append)
    qed
    moreover have "encode xs ! ?i \<noteq> encode ys ! ?i" using diff k by (simp add: nth_append)
    moreover have lt: "?i < len" using diff k by (simp add: len_def)
    ultimately have fd: "first_diff (encode xs) (encode ys) len 0 = ?i"
      by (intro first_diff_eq) auto
    have cp: "string_get_cp (encode xs) ?i = c" "string_get_cp (encode ys) ?i = d"
      using diff cd k by (auto intro!: string_get_cp_inside)
    have "js_string_compare ctx v1 v2 = (if cp_less c d then -1 else 1)"
      using lt cd diff(3)
      by (auto simp: js_string_compare_def b len fd cp cp_less_def Let_def utf16_units_def drop_bits)
    then show ?thesis using diff by simp
  qed
qed


lemma js_string_eq_iff:
  assumes "string_at ctx v1 xs" "string_at ctx v2 ys"
  shows "js_string_eq ctx v1 v2 \<longleftrightarrow> xs = ys"
proof -
  have b: "buf (get_string_ptr ctx v1) = encode xs" "buf (get_string_ptr ctx v2) = encode ys" "cps_ok xs" "cps_ok ys"
    using assms by (auto simp: string_at_def)
  have "encode xs = encode ys \<longleftrightarrow> xs = ys" using encode_inj [OF b(3,4)] by auto
  then show ?thesis by (auto simp: js_string_eq_def b(1,2) Let_def)
qed

subsection \<open>The order is total\<close>

text \<open>A key that makes \<open>cp_less\<close> the order of natural numbers.\<close>

definition cp_key :: "nat \<Rightarrow> nat" where
  "cp_key c = (if c < 0x10000 then c * 0x200000 else (0xd800 + (c - 0x10000) div 0x400) * 0x200000 + c)"

lemma cp_less_key:
  assumes "c \<le> 0x10ffff" "d \<le> 0x10ffff"
  shows "cp_less c d \<longleftrightarrow> cp_key c < cp_key d"
proof -
  have lex: "a * 0x200000 + x < b * 0x200000 + y \<longleftrightarrow> a < b \<or> a = b \<and> x < y"
    if "x < 0x200000" "y < 0x200000" for a b x y :: nat using that by (cases a b rule: linorder_cases) auto
  define k where "k e = (if e < 0x10000 then 0 else e)" for e :: nat
  have k: "k e < 0x200000" if "e \<le> 0x10ffff" for e using that by (simp add: k_def)
  have key: "cp_key e = hd (utf16_units e) * 0x200000 + k e" for e by (simp add: cp_key_def utf16_units_def k_def)
  show ?thesis unfolding key lex [OF k [OF assms(1)] k [OF assms(2)]]
    by (auto simp: cp_less_def Let_def k_def)
qed

lemma cp_key_inj:
  assumes "c \<le> 0x10ffff" "d \<le> 0x10ffff" "cp_key c = cp_key d"
  shows "c = d"
proof -
  have eq: "a = b \<and> x = y" if "a * 0x200000 + x = b * 0x200000 + y" "x < 0x200000" "y < 0x200000" for a b x y :: nat
    using that by (cases a b rule: linorder_cases) auto
  define a k where "a e = (if e < 0x10000 then e else 0xd800 + (e - 0x10000) div 0x400)"
    and "k e = (if e < 0x10000 then 0 else e)" for e :: nat
  have "cp_key e = a e * 0x200000 + k e" for e by (simp add: cp_key_def a_def k_def)
  moreover have "k c < 0x200000" "k d < 0x200000" using assms by (simp_all add: k_def)
  ultimately have "a c = a d \<and> k c = k d" using eq [of "a c" "k c" "a d" "k d"] assms(3) by simp
  then show ?thesis by (auto simp: a_def k_def split: if_splits)
qed

text \<open>The order on lists of keys, and \<open>cps_compare\<close> as its sign.\<close>

lemma cps_compare_keys:
  assumes "cps_ok xs" "cps_ok ys"
  shows "cps_compare xs ys =
    (if xs = ys then 0 else if ord_class.lexordp (map cp_key xs) (map cp_key ys) then -1 else 1)"
  using assms
proof (induction xs ys rule: cps_compare.induct)
  case (4 c cs d ds)
  then show ?case using cp_less_key [of c d] cp_key_inj [of c d] by auto
qed auto


subsection \<open>The order is the UTF-16 order on well-formed strings\<close>

fun units_compare :: "nat list \<Rightarrow> nat list \<Rightarrow> int" where
  "units_compare [] [] = 0"
| "units_compare [] (v # vs) = -1"
| "units_compare (u # us) [] = 1"
| "units_compare (u # us) (v # vs) = (if u = v then units_compare us vs else if u < v then -1 else 1)"

definition no_surrogates :: "nat list \<Rightarrow> bool" where
  "no_surrogates cps \<longleftrightarrow> list_all (\<lambda>c. c < 0xd800 \<or> 0xe000 \<le> c) cps"

lemma units_compare_prefix [simp]: "units_compare (p @ xs) (p @ ys) = units_compare xs ys"
  by (induction p) auto

lemma units_compare_cp:
  assumes "c < 0xd800 \<or> 0xe000 \<le> c" "d < 0xd800 \<or> 0xe000 \<le> d" "c \<noteq> d" "c \<le> 0x10ffff" "d \<le> 0x10ffff"
  shows "units_compare (utf16_units c @ us) (utf16_units d @ vs) = (if cp_less c d then -1 else 1)"
proof -
  have hi: "(e - 0x10000) div 0x400 < 0x400" if "e \<le> 0x10ffff" for e :: nat
    using that by (auto simp: less_mult_imp_div_less)
  have split: "e = 0x10000 + ((e - 0x10000) div 0x400 * 0x400 + (e - 0x10000) mod 0x400)" if "0x10000 \<le> e" for e :: nat
    using that by simp
  have eq: "(c - 0x10000) mod 0x400 \<noteq> (d - 0x10000) mod 0x400 \<and>
     (c < d \<longleftrightarrow> (c - 0x10000) mod 0x400 < (d - 0x10000) mod 0x400)"
    if "0x10000 \<le> c" "0x10000 \<le> d" "(c - 0x10000) div 0x400 = (d - 0x10000) div 0x400"
    using split [OF that(1)] split [OF that(2)] that(3) assms(3) by (metis add_left_cancel nat_add_left_cancel_less)
  show ?thesis using assms(1-3) hi [OF assms(4)] hi [OF assms(5)] eq
    by (auto simp: utf16_units_def cp_less_def Let_def)
qed

lemma cps_compare_units:
  "no_surrogates xs \<Longrightarrow> no_surrogates ys \<Longrightarrow> cps_ok xs \<Longrightarrow> cps_ok ys \<Longrightarrow>
     cps_compare xs ys = units_compare (utf16 xs) (utf16 ys)"
proof (induction xs ys rule: cps_compare.induct)
  case (4 c cs d ds)
  then show ?case using units_compare_cp [of c d "utf16 cs" "utf16 ds"] by (auto simp: no_surrogates_def)
qed (auto simp: utf16_units_def)

text \<open>C10. Comparing two strings without unpaired surrogates, byte by byte on the WTF-8 form with a correction at the first differing code point, gives the lexicographic order of their UTF-16 units, as the language requires.\<close>

theorem js_string_compare_utf16_order:
  assumes "string_at ctx v1 xs" "string_at ctx v2 ys" "no_surrogates xs" "no_surrogates ys"
  shows "js_string_compare ctx v1 v2 = units_compare (utf16 xs) (utf16 ys)"
  using assms js_string_compare_cps [OF assms(1,2)] cps_compare_units [of xs ys] by (simp add: string_at_def)

text \<open>With an unpaired left surrogate the comparison can contradict the UTF-16 order: the string of units D800 E000 is ordered before the pair D800 DC00 although its second unit is greater.\<close>

theorem js_string_compare_unpaired:
  "\<exists>ctx v1 v2. string_at ctx v1 [0xd800, 0xe000] \<and> string_at ctx v2 [0x10000] \<and>
     js_string_compare ctx v1 v2 = -1 \<and> units_compare (utf16 [0xd800, 0xe000]) (utf16 [0x10000]) = 1"
proof -
  define ctx where "ctx = \<lparr>heap = [\<lparr>is_unique = False, is_ascii = False, is_numeric = False, buf = encode [0xd800, 0xe000]\<rparr>],
     mem_free = 0, string_pos_cache = [], string_pos_cache_counter = 0\<rparr>"
  have "string_at ctx (StringPtr 0) [0xd800, 0xe000]" "string_at ctx (StringChar 0x10000) [0x10000]"
    by (simp_all add: string_at_def ctx_def val_ok_def get_string_ptr_def unicode_to_utf8_def
        unicode_to_utf8_slow_def JS_STRING_LEN_MAX_def)
  moreover from this have "js_string_compare ctx (StringPtr 0) (StringChar 0x10000) = -1"
    by (simp add: js_string_compare_cps cp_less_def utf16_units_def)
  moreover have "units_compare (utf16 [0xd800, 0xe000]) (utf16 [0x10000]) = 1" by (simp add: utf16_units_def)
  ultimately show ?thesis by blast
qed

subsection \<open>Length\<close>

lemma js_string_len_utf16:
  assumes "string_at ctx val cps" "cache_ok ctx"
  shows "fst (js_string_len ctx val) = length (utf16 cps)"
    "cache_ok (snd (js_string_len ctx val))" "heap (snd (js_string_len ctx val)) = heap ctx"
proof -
  have "fst (js_string_len ctx val) = length (utf16 cps) \<and> cache_ok (snd (js_string_len ctx val)) \<and>
    heap (snd (js_string_len ctx val)) = heap ctx"
  proof (cases val)
    case (StringChar c)
    have "cps = [c]" using assms(1) StringChar encode_inj [of cps "[c]"]
      by (auto simp: string_at_def val_ok_def get_string_ptr_def)
    then show ?thesis using StringChar assms(2) by (auto simp: js_string_len_def utf16_units_length)
  next
    case (StringPtr a)
    have b: "buf (heap ctx ! a) = encode cps" "is_ascii (heap ctx ! a) \<longrightarrow> encode cps = cps \<and> utf16 cps = cps"
      using assms(1) StringPtr ascii_encode [of cps] by (auto simp: string_at_def get_string_ptr_def)
    have c: "string_at ctx val (cps @ [])" using assms(1) by simp
    show ?thesis using convert_pos_utf8_ref [OF c assms(2), of 0] b assms(2) StringPtr
      by (auto simp: js_string_len_def js_string_utf8_to_utf16_pos_def Let_def mult.commute)
  qed
  then show "fst (js_string_len ctx val) = length (utf16 cps)"
    "cache_ok (snd (js_string_len ctx val))" "heap (snd (js_string_len ctx val)) = heap ctx" by blast+
qed

text \<open>The length of a string is its number of UTF-16 units, whatever the position cache holds.\<close>

theorem js_string_len_correct:
  assumes "string_at ctx val cps" "cache_ok ctx"
  shows "fst (js_string_len ctx val) = length (utf16 cps) \<and> cache_ok (snd (js_string_len ctx val))"
  using js_string_len_utf16 [OF assms] by blast

theorem js_string_len_correct_witness: "fst (js_string_len example_ctx (StringPtr 1)) = 14"
  using js_string_len_correct [OF example_string_at example_cache_ok]
  by (simp add: example_cps_def utf16_units_def)

theorem string_getc_correct_witness: "fst (string_getc example_ctx (StringPtr 1) 2) = 0xdc00"
  using string_getc_correct [OF example_string_at example_cache_ok, of 2]
  by (simp add: example_cps_def utf16_units_def)

theorem js_string_compare_utf16_order_witness:
  "js_string_compare example_ctx (StringPtr 1) (StringChar 66) = -1"
proof -
  have "string_at example_ctx (StringChar 66) [66]"
    by (simp add: string_at_def val_ok_def get_string_ptr_def unicode_to_utf8_def JS_STRING_LEN_MAX_def)
  from js_string_compare_utf16_order [OF example_string_at this] show ?thesis
    by (simp add: example_cps_def no_surrogates_def utf16_units_def)
qed

end
