(* ===== verification/JSStringBuf.thy ===== *)
theory JSStringBuf
  imports JSStringOps
begin

section \<open>Building strings: allocation, substrings and string buffers\<close>

text \<open>
  Models \<open>js_alloc_string\<close>, \<open>JS_NewStringLen\<close>, \<open>js_sub_string_utf8\<close>,
  \<open>js_sub_string\<close>, \<open>js_byte_array_to_string\<close> and the \<^verbatim>\<open>StringBuffer\<close>
  functions of \<^verbatim>\<open>mquickjs.c\<close>.  Allocation takes its rounded size from
  \<open>mem_free\<close> or fails; a new block goes at the end of \<open>heap\<close>, so the addresses of
  the older ones stay valid.  A string buffer holds a string, a byte array of some capacity, or an
  exception.

  The theorems say that substring and concatenation are \<open>take\<close>/\<open>drop\<close> and
  append on UTF-16 units, although the stored form splits and joins surrogate pairs, and that the
  stored form stays free of encoded surrogate pairs (\<open>no_pair\<close>).
\<close>

unbundle bit_operations_syntax

subsection \<open>Operations\<close>

text \<open>The exceptions, and \<open>InvalidStore\<close> for a call that does not return one but stores outside the memory it was given.\<close>

datatype js_error = StringTooLong | OutOfMemory | InvalidStore

definition JSW :: nat where
  "JSW = 8"

definition sizeof_JSString :: nat where
  "sizeof_JSString = 8"

definition js_malloc_size :: "nat \<Rightarrow> nat" where
  "js_malloc_size n = (n + JSW - 1) div JSW * JSW"

definition JS_ATOM_empty :: strval where
  "JS_ATOM_empty = StringPtr 0"

definition JS_NewStringChar :: "nat \<Rightarrow> strval" where
  "JS_NewStringChar c = StringChar c"

definition js_alloc_string :: "strctx \<Rightarrow> nat \<Rightarrow> js_error + nat \<times> strctx" where
  "js_alloc_string ctx buf_len =
     (if buf_len > JS_STRING_LEN_MAX then Inl StringTooLong
      else let size = js_malloc_size (sizeof_JSString + buf_len + 1)
           in if mem_free ctx < size then Inl OutOfMemory
              else Inr (length (heap ctx),
                ctx\<lparr>heap := heap ctx @ [\<lparr>is_unique = False, is_ascii = False, is_numeric = False,
                                      buf = replicate buf_len 0\<rparr>],
                    mem_free := mem_free ctx - size\<rparr>))"

definition set_string :: "strctx \<Rightarrow> nat \<Rightarrow> bool \<Rightarrow> bytes \<Rightarrow> strctx" where
  "set_string ctx p ascii b = ctx\<lparr>heap := (heap ctx)[p := (heap ctx ! p)\<lparr>is_ascii := ascii, buf := b\<rparr>]\<rparr>"

definition JS_NewStringLen :: "strctx \<Rightarrow> bytes \<Rightarrow> js_error + strval \<times> strctx" where
  "JS_NewStringLen ctx b =
     (let len = length b
      in if len = 0 then Inr (JS_ATOM_empty, ctx)
         else if utf8_char_len (b ! 0) = len then Inr (JS_NewStringChar (fst (utf8_get b)), ctx)
         else case js_alloc_string ctx len of
                Inl e \<Rightarrow> Inl e
              | Inr r \<Rightarrow> Inr (StringPtr (fst r), set_string (snd r) (fst r) (is_ascii_string b) b))"

definition js_sub_string_utf8 :: "strctx \<Rightarrow> strval \<Rightarrow> nat \<Rightarrow> nat \<Rightarrow> js_error + strval \<times> strctx" where
  "js_sub_string_utf8 ctx val start0 end0 =
     (if end0 = start0 then Inr (JS_ATOM_empty, ctx)
      else
        let start_surrogate = (start0 AND 1 \<noteq> 0); end_surrogate = (end0 AND 1 \<noteq> 0);
            start = drop_bit 1 start0; en = drop_bit 1 end0; len = en - start;
            p1 = get_string_ptr ctx val; ptr = buf p1
        in if \<not> start_surrogate \<and> \<not> end_surrogate \<and> utf8_char_len (ptr ! start) = len then
             Inr (JS_NewStringChar (fst (utf8_get (drop start ptr))), ctx)
           else
             case js_alloc_string ctx
                    (len - of_bool start_surrogate + (if end_surrogate then 3 else 0)) of
               Inl e \<Rightarrow> Inl e
             | Inr r \<Rightarrow>
                 let p = fst r; ctx1 = snd r
                 in Inr (StringPtr p,
                      if start_surrogate \<or> end_surrogate then
                        set_string ctx1 p False
                          ((if start_surrogate then
                              unicode_to_utf8 (0xdc00 + ((fst (utf8_get (drop start ptr)) - 0x10000) AND 0x3ff))
                            else [])
                           @ (let start' = (if start_surrogate then start + 4 else start)
                              in take (en - start') (drop start' ptr))
                           @ (if end_surrogate then
                                unicode_to_utf8 (0xd800 + drop_bit 10 (fst (utf8_get (drop en ptr)) - 0x10000))
                              else []))
                      else
                        set_string ctx1 p
                          (if is_ascii p1 then True else is_ascii_string (take len (drop start ptr)))
                          (take len (drop start ptr))))"

definition js_sub_string :: "strctx \<Rightarrow> strval \<Rightarrow> int \<Rightarrow> int \<Rightarrow> js_error + strval \<times> strctx" where
  "js_sub_string ctx val start en =
     (if en \<le> start then Inr (JS_ATOM_empty, ctx)
      else let r1 = js_string_utf16_to_utf8_pos ctx val (u32 start);
               r2 = js_string_utf16_to_utf8_pos (snd r1) val (u32 en)
           in js_sub_string_utf8 (snd r2) val (fst r1) (fst r2))"

definition is_utf8_left_surrogate :: "bytes \<Rightarrow> bool" where
  "is_utf8_left_surrogate p \<longleftrightarrow> p ! 0 = 0xed \<and> (p ! 1 \<ge> 0xa0 \<and> p ! 1 \<le> 0xaf)"

definition is_utf8_right_surrogate :: "bytes \<Rightarrow> bool" where
  "is_utf8_right_surrogate p \<longleftrightarrow> p ! 0 = 0xed \<and> (p ! 1 \<ge> 0xb0 \<and> p ! 1 \<le> 0xbf)"


definition JS_BYTE_ARRAY_SIZE_MAX :: nat where
  "JS_BYTE_ARRAY_SIZE_MAX = 2 ^ (32 - 4) - 1"

definition sizeof_JSByteArray :: nat where
  "sizeof_JSByteArray = 8"

definition js_alloc_byte_array :: "strctx \<Rightarrow> nat \<Rightarrow> js_error + bytes \<times> strctx" where
  "js_alloc_byte_array ctx sz =
     (if sz > JS_BYTE_ARRAY_SIZE_MAX then Inl OutOfMemory
      else let n = js_malloc_size (sizeof_JSByteArray + sz)
           in if mem_free ctx < n then Inl OutOfMemory
              else Inr (replicate sz 0, ctx\<lparr>mem_free := mem_free ctx - n\<rparr>))"

text \<open>\<open>memcpy_at a k b\<close>: copy \<open>b\<close> into \<open>a\<close> at offset \<open>k\<close>.\<close>

definition memcpy_at :: "bytes \<Rightarrow> nat \<Rightarrow> bytes \<Rightarrow> bytes" where
  "memcpy_at a k b = take k a @ b @ drop (k + length b) a"

definition js_resize_byte_array :: "strctx \<Rightarrow> bytes option \<Rightarrow> nat \<Rightarrow> js_error + bytes \<times> strctx" where
  "js_resize_byte_array ctx val new_size =
     (let arr = (case val of None \<Rightarrow> [] | Some a \<Rightarrow> a); old_size = length arr
      in if new_size > old_size then
           (let new_size' = nat (max_int (int new_size) (int (old_size + old_size div 2)))
            in case js_alloc_byte_array ctx new_size' of
                 Inl e \<Rightarrow> Inl e
               | Inr r \<Rightarrow> Inr (if old_size > 0 then memcpy_at (fst r) 0 arr else fst r, snd r))
         else Inr (arr, ctx))"

definition js_byte_array_to_string :: "strctx \<Rightarrow> bytes \<Rightarrow> nat \<Rightarrow> bool \<Rightarrow> strval \<times> strctx" where
  "js_byte_array_to_string ctx arr len ascii =
     (if len = 0 then (JS_ATOM_empty, ctx)
      else if utf8_char_len (arr ! 0) = len then (JS_NewStringChar (fst (utf8_get arr)), ctx)
      else (StringPtr (length (heap ctx)),
            ctx\<lparr>heap := heap ctx @ [\<lparr>is_unique = False, is_ascii = ascii, is_numeric = False, buf = take len arr\<rparr>]\<rparr>))"

datatype sbuf = SBString strval | SBArray bytes | SBException js_error

record StringBuffer =
  buffer_val :: sbuf
  sb_len :: nat
  sb_is_ascii :: bool

definition string_buffer_push :: "strctx \<Rightarrow> nat \<Rightarrow> js_error + StringBuffer \<times> strctx" where
  "string_buffer_push ctx len =
     (if len > 0 then
        (case js_alloc_byte_array ctx len of
           Inl e \<Rightarrow> Inl e
         | Inr r \<Rightarrow> Inr (\<lparr>buffer_val = SBArray (fst r), sb_len = 0, sb_is_ascii = True\<rparr>, snd r))
      else Inr (\<lparr>buffer_val = SBString JS_ATOM_empty, sb_len = 0, sb_is_ascii = True\<rparr>, ctx))"

text \<open>The copying part of \<open>string_buffer_concat_str\<close>: \<open>p2\<close> goes after the first \<open>len1\<close> bytes of
  \<open>arr\<close>; a left surrogate before a right one is contracted to four bytes.\<close>

definition concat_copy :: "bytes \<Rightarrow> nat \<Rightarrow> bool \<Rightarrow> JSString \<Rightarrow> StringBuffer" where
  "concat_copy arr len1 ascii p2 =
     (let len2 = length (buf p2)
      in if len2 \<ge> 3 \<and> is_utf8_right_surrogate (buf p2) \<and> len1 \<ge> 3 \<and> is_utf8_left_surrogate (drop (len1 - 3) arr) then
           let c = (push_bit 10 (fst (utf8_get (drop (len1 - 3) arr)) AND 0x3ff)
                    OR (fst (utf8_get (buf p2)) AND 0x3ff)) + 0x10000;
               q = len1 - 3; u = unicode_to_utf8 c
           in \<lparr>buffer_val = SBArray (memcpy_at (memcpy_at arr q u) (q + length u) (drop 3 (buf p2))),
               sb_len = len1 + len2 - 2, sb_is_ascii = False\<rparr>
         else \<lparr>buffer_val = SBArray (memcpy_at arr len1 (buf p2)),
               sb_len = len1 + len2, sb_is_ascii = ascii \<and> is_ascii p2\<rparr>)"

text \<open>The length test of \<open>string_buffer_concat_str\<close>, on the \<^verbatim>\<open>int\<close> sum of the two lengths, which wraps at 32 bits.  A negative
  sum passes the test; then \<open>js_resize_byte_array\<close> returns its argument (NULL or the old array), and the bytes are copied
  through it.\<close>

definition concat_length_error :: "nat \<Rightarrow> js_error option" where
  "concat_length_error n =
     (let len = s32 n
      in if len > int JS_STRING_LEN_MAX then Some StringTooLong else if len < 0 then Some InvalidStore else None)"

definition string_buffer_concat_str :: "strctx \<Rightarrow> StringBuffer \<Rightarrow> strval \<Rightarrow> StringBuffer \<times> strctx" where
  "string_buffer_concat_str ctx s val2 =
     (let p2 = get_string_ptr ctx val2; len2 = length (buf p2)
      in case buffer_val s of
           SBException e \<Rightarrow> (s, ctx)
         | SBString val1 \<Rightarrow>
             (let p1 = get_string_ptr ctx val1; len1 = length (buf p1)
              in if len2 = 0 then (s, ctx)
                 else if len1 = 0 then (s\<lparr>buffer_val := SBString val2\<rparr>, ctx)
                 else case concat_length_error (len1 + len2) of
                        Some e \<Rightarrow> (s\<lparr>buffer_val := SBException e\<rparr>, ctx)
                      | None \<Rightarrow>
                          (case js_resize_byte_array ctx None (len1 + len2 + 1) of
                             Inl e \<Rightarrow> (s\<lparr>buffer_val := SBException e\<rparr>, ctx)
                           | Inr r \<Rightarrow> (concat_copy (memcpy_at (fst r) 0 (buf p1)) len1 (is_ascii p1) p2, snd r)))
         | SBArray arr \<Rightarrow>
             (let len1 = sb_len s
              in if len2 = 0 then (s, ctx)
                 else case concat_length_error (len1 + len2) of
                        Some e \<Rightarrow> (s\<lparr>buffer_val := SBException e\<rparr>, ctx)
                      | None \<Rightarrow>
                          (if len1 + len2 + 1 > length arr then
                             (case js_resize_byte_array ctx (Some arr) (len1 + len2 + 1) of
                                Inl e \<Rightarrow> (s\<lparr>buffer_val := SBException e\<rparr>, ctx)
                              | Inr r \<Rightarrow> (concat_copy (fst r) len1 (sb_is_ascii s) p2, snd r))
                           else (concat_copy arr len1 (sb_is_ascii s) p2, ctx))))"

definition string_buffer_concat_utf8 ::
    "strctx \<Rightarrow> StringBuffer \<Rightarrow> strval \<Rightarrow> nat \<Rightarrow> nat \<Rightarrow> StringBuffer \<times> strctx" where
  "string_buffer_concat_utf8 ctx s str start en =
     (if en \<le> start then (s, ctx)
      else case js_sub_string_utf8 ctx str start en of
             Inl e \<Rightarrow> (s\<lparr>buffer_val := SBException e\<rparr>, ctx)
           | Inr r \<Rightarrow> string_buffer_concat_str (snd r) s (fst r))"

definition string_buffer_concat_utf16 ::
    "strctx \<Rightarrow> StringBuffer \<Rightarrow> strval \<Rightarrow> nat \<Rightarrow> nat \<Rightarrow> StringBuffer \<times> strctx" where
  "string_buffer_concat_utf16 ctx s str start en =
     (if en \<le> start then (s, ctx)
      else let r1 = js_string_utf16_to_utf8_pos ctx str start;
               r2 = js_string_utf16_to_utf8_pos (snd r1) str en
           in string_buffer_concat_utf8 (snd r2) s str (fst r1) (fst r2))"

definition string_buffer_putc :: "strctx \<Rightarrow> StringBuffer \<Rightarrow> nat \<Rightarrow> StringBuffer \<times> strctx" where
  "string_buffer_putc ctx s c = string_buffer_concat_str ctx s (JS_NewStringChar c)"

definition string_buffer_puts :: "strctx \<Rightarrow> StringBuffer \<Rightarrow> bytes \<Rightarrow> StringBuffer \<times> strctx" where
  "string_buffer_puts ctx s str =
     (case JS_NewStringLen ctx str of
        Inl e \<Rightarrow> (s, ctx)
      | Inr r \<Rightarrow> string_buffer_concat_str (snd r) s (fst r))"

definition string_buffer_pop :: "strctx \<Rightarrow> StringBuffer \<Rightarrow> js_error + strval \<times> strctx" where
  "string_buffer_pop ctx s =
     (case buffer_val s of
        SBException e \<Rightarrow> Inl e
      | SBString v \<Rightarrow> Inr (v, ctx)
      | SBArray arr \<Rightarrow>
          Inr (js_byte_array_to_string ctx (if sb_len s \<noteq> 0 then arr[sb_len s := 0] else arr) (sb_len s) (sb_is_ascii s)))"

definition JS_ConcatString ::
    "strctx \<Rightarrow> js_error + strval \<Rightarrow> js_error + strval \<Rightarrow> js_error + strval \<times> strctx" where
  "JS_ConcatString ctx val1 val2 =
     (case (val1, val2) of
        (Inl e, _) \<Rightarrow> Inl e
      | (_, Inl e) \<Rightarrow> Inl e
      | (Inr v1, Inr v2) \<Rightarrow>
          (case string_buffer_push ctx 0 of
             Inl e \<Rightarrow> Inl e
           | Inr b0 \<Rightarrow>
               let b1 = string_buffer_concat_str (snd b0) (fst b0) v1;
                   b2 = string_buffer_concat_str (snd b1) (fst b1) v2
               in string_buffer_pop (snd b2) (fst b2)))"

subsection \<open>Specification: pairs and slices\<close>

definition is_lead :: "nat \<Rightarrow> bool" where
  "is_lead c \<longleftrightarrow> 0xd800 \<le> c \<and> c \<le> 0xdbff"

definition is_trail :: "nat \<Rightarrow> bool" where
  "is_trail c \<longleftrightarrow> 0xdc00 \<le> c \<and> c \<le> 0xdfff"

definition no_pair :: "nat list \<Rightarrow> bool" where
  "no_pair cps \<longleftrightarrow> successively (\<lambda>c d. \<not> (is_lead c \<and> is_trail d)) cps"

definition lead :: "nat \<Rightarrow> nat" where
  "lead c = 0xd800 + (c - 0x10000) div 0x400"

definition trail :: "nat \<Rightarrow> nat" where
  "trail c = 0xdc00 + (c - 0x10000) mod 0x400"

definition sub_cps :: "nat \<Rightarrow> nat \<Rightarrow> nat list \<Rightarrow> nat list \<Rightarrow> nat list" where
  "sub_cps s e zs ys = (if s = 0 then zs else trail (hd zs) # tl zs) @ (if e = 0 then [] else [lead (hd ys)])"

definition extends :: "strctx \<Rightarrow> strctx \<Rightarrow> bool" where
  "extends ctx ctx' \<longleftrightarrow> (\<exists>ss. heap ctx' = heap ctx @ ss)"

definition empty_ok :: "strctx \<Rightarrow> bool" where
  "empty_ok ctx \<longleftrightarrow> heap ctx \<noteq> [] \<and> buf (heap ctx ! 0) = []"

lemma extends_refl [simp]: "extends ctx ctx"
  by (simp add: extends_def)

lemma extends_heap: "heap ctx' = heap ctx \<Longrightarrow> extends ctx ctx'"
  by (simp add: extends_def)

lemma extends_trans: "extends a b \<Longrightarrow> extends b c \<Longrightarrow> extends a c"
  by (auto simp: extends_def)

lemma get_string_ptr_extends:
  "extends ctx ctx' \<Longrightarrow> val_ok ctx val \<Longrightarrow> get_string_ptr ctx' val = get_string_ptr ctx val"
  by (auto simp: extends_def get_string_ptr_def val_ok_def nth_append split: strval.splits)

lemma val_ok_extends: "extends ctx ctx' \<Longrightarrow> val_ok ctx val \<Longrightarrow> val_ok ctx' val"
  by (auto simp: extends_def val_ok_def split: strval.splits)

lemma string_at_extends: "extends ctx ctx' \<Longrightarrow> string_at ctx val cps \<Longrightarrow> string_at ctx' val cps"
  by (auto simp: string_at_def get_string_ptr_extends val_ok_extends)

lemma entry_ok_extends:
  assumes "extends ctx ctx'" "entry_ok ctx e"
  shows "entry_ok ctx' e"
  unfolding entry_ok_def
proof (intro allI impI conjI)
  fix val assume e: "ce_str e = Some val"
  then have v: "val_ok ctx val" using assms(2) by (simp add: entry_ok_def)
  then show "val_ok ctx' val" using assms(1) val_ok_extends by blast
  fix cps assume "string_at ctx' val cps"
  then have "string_at ctx val cps" using get_string_ptr_extends [OF assms(1) v] v by (simp add: string_at_def)
  then show "\<exists>xs ys. cps = xs @ ys \<and> pos_utf8 e = length (encode xs) \<and> pos_utf16 e = length (utf16 xs)"
    using e assms(2) by (simp add: entry_ok_def)
qed

lemma cache_ok_extends:
  assumes "extends ctx ctx'" "cache_ok ctx" "string_pos_cache ctx' = string_pos_cache ctx"
    "string_pos_cache_counter ctx' = string_pos_cache_counter ctx"
  shows "cache_ok ctx'"
  using assms entry_ok_extends [OF assms(1)] by (auto simp: cache_ok_def list_all_iff)

lemma empty_ok_extends: "extends ctx ctx' \<Longrightarrow> empty_ok ctx \<Longrightarrow> empty_ok ctx'"
  by (auto simp: extends_def empty_ok_def nth_append)

lemma empty_string_at: "empty_ok ctx \<Longrightarrow> string_at ctx JS_ATOM_empty []"
  by (auto simp: string_at_def JS_ATOM_empty_def val_ok_def get_string_ptr_def empty_ok_def)

lemma new_char_string_at:
  "c \<le> 0x10ffff \<Longrightarrow> string_at ctx (JS_NewStringChar c) [c]"
  using utf8_char_shape_ex [of c "[]"]
  by (auto simp: string_at_def JS_NewStringChar_def val_ok_def get_string_ptr_def JS_STRING_LEN_MAX_def
      utf8_char_len.simps split: if_splits)

text \<open>Allocating a block and filling it.\<close>

definition alloc_fill :: "strctx \<Rightarrow> bool \<Rightarrow> bytes \<Rightarrow> js_error + strval \<times> strctx" where
  "alloc_fill ctx ascii b = (case js_alloc_string ctx (length b) of Inl e \<Rightarrow> Inl e
     | Inr r \<Rightarrow> Inr (StringPtr (fst r), set_string (snd r) (fst r) ascii b))"

definition new_string :: "strctx \<Rightarrow> js_error + strval \<times> strctx \<Rightarrow> nat list \<Rightarrow> bool" where
  "new_string ctx r cps \<longleftrightarrow>
     (case r of
        Inl e \<Rightarrow> e = OutOfMemory \<and> mem_free ctx < js_malloc_size (sizeof_JSString + length (encode cps) + 1)
      | Inr (v, ctx') \<Rightarrow> string_at ctx' v cps \<and> extends ctx ctx' \<and> (cache_ok ctx \<longrightarrow> cache_ok ctx'))"

lemma alloc_fill_correct:
  assumes "cps_ok cps" "length (encode cps) \<le> JS_STRING_LEN_MAX" "ascii \<longrightarrow> list_all (\<lambda>c. c < 0x80) cps"
  shows "new_string ctx (alloc_fill ctx ascii (encode cps)) cps"
proof (cases "mem_free ctx < js_malloc_size (sizeof_JSString + length (encode cps) + 1)")
  case True
  then show ?thesis using assms by (simp add: new_string_def alloc_fill_def js_alloc_string_def Let_def)
next
  case False
  define ctx' where "ctx' = ctx\<lparr>heap := heap ctx @ [\<lparr>is_unique = False, is_ascii = ascii,
     is_numeric = False, buf = encode cps\<rparr>],
     mem_free := mem_free ctx - js_malloc_size (sizeof_JSString + length (encode cps) + 1)\<rparr>"
  have "alloc_fill ctx ascii (encode cps) = Inr (StringPtr (length (heap ctx)), ctx')"
    using False assms
    by (simp add: alloc_fill_def js_alloc_string_def Let_def set_string_def ctx'_def nth_append list_update_append)
  moreover have "string_at ctx' (StringPtr (length (heap ctx))) cps"
    using assms by (simp add: string_at_def val_ok_def get_string_ptr_def ctx'_def)
  moreover have "extends ctx ctx'" by (simp add: extends_def ctx'_def)
  moreover have "cache_ok ctx \<Longrightarrow> cache_ok ctx'"
    by (rule cache_ok_extends [OF \<open>extends ctx ctx'\<close>]) (simp_all add: ctx'_def)
  ultimately show ?thesis by (simp add: new_string_def)
qed

lemma is_ascii_string_encode:
  "cps_ok cps \<Longrightarrow> is_ascii_string (encode cps) \<Longrightarrow> list_all (\<lambda>c. c < 0x80) cps"
proof (induction cps)
  case Nil
  then show ?case by simp
next
  case (Cons c cps)
  then have c: "c \<le> 0x10ffff" by simp
  obtain h t where ht: "unicode_to_utf8 c = h # t" "h < 0x80 \<longleftrightarrow> c < 0x80" "c < 0x80 \<longrightarrow> t = []"
    by (rule utf8_char_shape [OF c, of "[]"]) (auto simp: utf8_char_len.simps split: if_splits)
  with Cons show ?case by (auto split: if_splits)
qed

lemma lead_trail:
  assumes "0x10000 \<le> c" "c \<le> 0x10ffff"
  shows "is_lead (lead c)" "is_trail (trail c)" "utf16_units c = [lead c, trail c]"
    "length (unicode_to_utf8 (lead c)) = 3" "length (unicode_to_utf8 (trail c)) = 3"
    "length (unicode_to_utf8 c) = 4" "lead c \<le> 0x10ffff" "trail c \<le> 0x10ffff"
    "utf16_units (lead c) = [lead c]" "utf16_units (trail c) = [trail c]"
proof -
  have "(c - 0x10000) div 0x400 < 0x400" using assms by (auto simp: less_mult_imp_div_less)
  then have b: "0xd800 \<le> lead c" "lead c \<le> 0xdbff" "0xdc00 \<le> trail c" "trail c \<le> 0xdfff"
    using mod_less_divisor [of "0x400" "c - 0x10000"] by (auto simp: lead_def trail_def)
  then show "is_lead (lead c)" "is_trail (trail c)" "lead c \<le> 0x10ffff" "trail c \<le> 0x10ffff"
    "utf16_units (lead c) = [lead c]" "utf16_units (trail c) = [trail c]"
    by (auto simp: is_lead_def is_trail_def utf16_units_def)
  show "utf16_units c = [lead c, trail c]" using assms by (simp add: utf16_units_def lead_def trail_def)
  show "length (unicode_to_utf8 (lead c)) = 3" "length (unicode_to_utf8 (trail c)) = 3"
    using b by (auto simp: unicode_to_utf8_def unicode_to_utf8_slow_def)
  show "length (unicode_to_utf8 c) = 4"
    using utf8_char_shape_ex [OF assms(2), of "[]"] assms(1) by auto
qed


subsection \<open>Substrings\<close>

text \<open>A slice between two positions of a string, each possibly inside a surrogate pair.\<close>

definition slice_at :: "nat list \<Rightarrow> nat list \<Rightarrow> nat list \<Rightarrow> nat \<Rightarrow> nat \<Rightarrow> bool" where
  "slice_at xs zs ys s e \<longleftrightarrow> (s = 0 \<or> s = 1 \<and> zs \<noteq> [] \<and> 0x10000 \<le> hd zs) \<and>
     (e = 0 \<or> e = 1 \<and> ys \<noteq> [] \<and> 0x10000 \<le> hd ys) \<and> (zs \<noteq> [] \<or> e = 1)"

lemma slice_at_cases [consumes 2, case_names none left right both]:
  assumes "slice_at xs zs ys s e" "cps_ok (xs @ zs @ ys)"
  obtains "s = 0" "e = 0" "zs \<noteq> []"
  | c zs' where "s = 1" "e = 0" "zs = c # zs'" "0x10000 \<le> c" "c \<le> 0x10ffff"
  | d ys' where "s = 0" "e = 1" "ys = d # ys'" "0x10000 \<le> d" "d \<le> 0x10ffff"
  | c zs' d ys' where "s = 1" "e = 1" "zs = c # zs'" "ys = d # ys'"
     "0x10000 \<le> c" "c \<le> 0x10ffff" "0x10000 \<le> d" "d \<le> 0x10ffff"
  using assms by (cases zs; cases ys) (auto simp: slice_at_def)

lemma sub_cps_props:
  assumes "cps_ok (xs @ zs @ ys)" "slice_at xs zs ys s e"
  shows "cps_ok (sub_cps s e zs ys)"
    and "utf16 (sub_cps s e zs ys) =
      take (length (utf16 zs) + e - s) (drop (length (utf16 xs) + s) (utf16 (xs @ zs @ ys)))"
    and "no_pair (xs @ zs @ ys) \<longrightarrow> no_pair (sub_cps s e zs ys)"
    and "length (encode (sub_cps s e zs ys)) = length (encode zs) - s + (if e = 0 then 0 else 3)"
    and "length (encode (sub_cps s e zs ys)) \<le> length (encode (xs @ zs @ ys))"
proof -
  have "cps_ok (sub_cps s e zs ys) \<and> utf16 (sub_cps s e zs ys) =
      take (length (utf16 zs) + e - s) (drop (length (utf16 xs) + s) (utf16 (xs @ zs @ ys))) \<and>
    (no_pair (xs @ zs @ ys) \<longrightarrow> no_pair (sub_cps s e zs ys)) \<and>
    length (encode (sub_cps s e zs ys)) = length (encode zs) - s + (if e = 0 then 0 else 3) \<and>
    length (encode (sub_cps s e zs ys)) \<le> length (encode (xs @ zs @ ys))" (is ?P)
    using assms(2,1)
  proof (cases rule: slice_at_cases)
    case none
    then show ?P using assms(1) by (simp add: sub_cps_def no_pair_def successively_append_iff)
  next
    case (left c zs')
    note lt = lead_trail [OF left(4,5)]
    have "is_lead (trail c) = False" using lt(2) by (simp add: is_lead_def is_trail_def)
    with left lt assms(1) show ?P
      by (auto simp: sub_cps_def no_pair_def successively_append_iff successively_Cons)
  next
    case (right d ys')
    note lt = lead_trail [OF right(4,5)]
    have "is_trail (lead d) = False" using lt(1) by (simp add: is_lead_def is_trail_def)
    with right lt assms(1) show ?P
      by (simp add: sub_cps_def no_pair_def successively_append_iff)
  next
    case (both c zs' d ys')
    note lt = lead_trail [OF both(5,6)] lead_trail [OF both(7,8)]
    have "is_lead (trail c) = False" "is_trail (lead d) = False"
      using lead_trail(2) [OF both(5,6)] lead_trail(1) [OF both(7,8)] by (simp_all add: is_lead_def is_trail_def)
    with both lt assms(1) show ?P
      by (auto simp: sub_cps_def no_pair_def successively_append_iff successively_Cons)
  qed
  then show "cps_ok (sub_cps s e zs ys)"
    and "utf16 (sub_cps s e zs ys) =
      take (length (utf16 zs) + e - s) (drop (length (utf16 xs) + s) (utf16 (xs @ zs @ ys)))"
    and "no_pair (xs @ zs @ ys) \<longrightarrow> no_pair (sub_cps s e zs ys)"
    and "length (encode (sub_cps s e zs ys)) = length (encode zs) - s + (if e = 0 then 0 else 3)"
    and "length (encode (sub_cps s e zs ys)) \<le> length (encode (xs @ zs @ ys))"
    by blast+
qed

lemma pos_bits:
  "f < 2 \<Longrightarrow> (2 * n + f) AND 1 = f" "f < 2 \<Longrightarrow> drop_bit 1 (2 * n + f) = (n :: nat)"
  using nat_and_mask [of "2 * n + f" 1] by (simp_all add: drop_bit_Suc)

lemma surrogate_bits:
  "0xdc00 + ((c - 0x10000) AND 0x3ff) = trail c" "0xd800 + drop_bit 10 (c - 0x10000) = lead c"
  by (simp_all add: lead_def trail_def and_masks drop_bits)

lemma sub_string_utf8_eq:
  assumes "s < 2" "e < 2" "2 * i + s \<noteq> 2 * j + e" "ptr = buf (get_string_ptr ctx val)"
  shows "js_sub_string_utf8 ctx val (2 * i + s) (2 * j + e) =
    (if s = 0 \<and> e = 0 \<and> utf8_char_len (ptr ! i) = j - i then
       Inr (JS_NewStringChar (fst (utf8_get (drop i ptr))), ctx)
     else case js_alloc_string ctx (j - i - s + (if e = 0 then 0 else 3)) of Inl e \<Rightarrow> Inl e
       | Inr r \<Rightarrow> Inr (StringPtr (fst r), set_string (snd r) (fst r)
          (s = 0 \<and> e = 0 \<and> (is_ascii (get_string_ptr ctx val) \<or> is_ascii_string (take (j - i) (drop i ptr))))
          ((if s = 0 then [] else unicode_to_utf8 (trail (fst (utf8_get (drop i ptr)))))
           @ take (j - (i + 4 * s)) (drop (i + 4 * s) ptr)
           @ (if e = 0 then [] else unicode_to_utf8 (lead (fst (utf8_get (drop j ptr))))))))"
proof -
  have se: "s = 0 \<or> s = 1" "e = 0 \<or> e = 1" using assms by auto
  note bits = pos_bits [OF assms(1)] pos_bits [OF assms(2)]
  show ?thesis
    using se assms(3) unfolding js_sub_string_utf8_def assms(4) Let_def bits surrogate_bits
    by (elim disjE) (simp_all split: sum.split)
qed

lemma sub_string_utf8_alloc:
  assumes str: "string_at ctx val (xs @ zs @ ys)" and sl: "slice_at xs zs ys s e"
    and long: "\<not> (s = 0 \<and> e = 0 \<and> utf8_char_len (encode (xs @ zs @ ys) ! length (encode xs)) = length (encode zs))"
  shows "\<exists>a. js_sub_string_utf8 ctx val (2 * length (encode xs) + s) (2 * length (encode (xs @ zs)) + e)
      = alloc_fill ctx a (encode (sub_cps s e zs ys)) \<and> (a \<longrightarrow> list_all (\<lambda>c. c < 0x80) (sub_cps s e zs ys))"
proof -
  have ok: "cps_ok (xs @ zs @ ys)" and b: "buf (get_string_ptr ctx val) = encode (xs @ zs @ ys)"
    and asc: "is_ascii (get_string_ptr ctx val) \<longrightarrow> list_all (\<lambda>c. c < 0x80) (xs @ zs @ ys)"
    using str by (auto simp: string_at_def)
  note len = sub_cps_props(4) [OF ok sl]
  have se: "s < 2" "e < 2" using sl by (auto simp: slice_at_def)
  have ne: "2 * length (encode xs) + s \<noteq> 2 * length (encode (xs @ zs)) + e"
    using sl ok unicode_to_utf8_nonempty [of "hd zs"] lead_trail(6) [of "hd zs"]
    by (cases zs) (auto simp: slice_at_def)
  have ys: "ys \<noteq> [] \<Longrightarrow> fst (utf8_get (encode ys)) = hd ys" using ok utf8_get_eq by (cases ys) auto
  have zs: "zs \<noteq> [] \<Longrightarrow> fst (utf8_get (encode zs @ r)) = hd zs" for r using ok utf8_get_eq by (cases zs) auto
  have tl: "take (length (encode zs) - 4) (drop (length (encode xs) + 4) (encode (xs @ zs @ ys))) = encode (tl zs)"
    if "zs \<noteq> []" "0x10000 \<le> hd zs" using that ok lead_trail(6) [of "hd zs"] by (cases zs) auto
  have body: "(if s = 0 then [] else unicode_to_utf8 (trail (fst (utf8_get (drop (length (encode xs)) (encode (xs @ zs @ ys)))))))
      @ take (length (encode (xs @ zs)) - (length (encode xs) + 4 * s)) (drop (length (encode xs) + 4 * s) (encode (xs @ zs @ ys)))
      @ (if e = 0 then [] else unicode_to_utf8 (lead (fst (utf8_get (drop (length (encode (xs @ zs))) (encode (xs @ zs @ ys)))))))
    = encode (sub_cps s e zs ys)"
    using sl zs ys tl by (auto simp: slice_at_def sub_cps_def)
  define a where "a \<longleftrightarrow> s = 0 \<and> e = 0 \<and> (is_ascii (get_string_ptr ctx val) \<or> is_ascii_string (encode zs))"
  have lt: "length (encode (xs @ zs)) - length (encode xs) = length (encode zs)"
    "take (length (encode zs)) (drop (length (encode xs)) (encode (xs @ zs @ ys))) = encode zs" by simp_all
  have "a \<longrightarrow> list_all (\<lambda>c. c < 0x80) (sub_cps s e zs ys)"
    using asc ok is_ascii_string_encode [of zs] by (auto simp: a_def sub_cps_def)
  moreover have "js_sub_string_utf8 ctx val (2 * length (encode xs) + s) (2 * length (encode (xs @ zs)) + e)
      = alloc_fill ctx a (encode (sub_cps s e zs ys))"
    using long
    unfolding sub_string_utf8_eq [OF se ne b [symmetric]] alloc_fill_def len body lt a_def by (simp only: if_False)
  ultimately show ?thesis by blast
qed


lemma sub_string_utf8_correct:
  assumes str: "string_at ctx val (xs @ zs @ ys)" and sl: "slice_at xs zs ys s e"
  shows "new_string ctx (js_sub_string_utf8 ctx val (2 * length (encode xs) + s) (2 * length (encode (xs @ zs)) + e))
    (sub_cps s e zs ys)"
proof -
  have ok: "cps_ok (xs @ zs @ ys)" and b: "buf (get_string_ptr ctx val) = encode (xs @ zs @ ys)"
    and max: "length (encode (xs @ zs @ ys)) \<le> JS_STRING_LEN_MAX"
    using str by (auto simp: string_at_def)
  show ?thesis
  proof (cases "s = 0 \<and> e = 0 \<and> utf8_char_len (encode (xs @ zs @ ys) ! length (encode xs)) = length (encode zs)")
    case False
    from sub_string_utf8_alloc [OF str sl False] sub_cps_props(1,5) [OF ok sl] max
    show ?thesis by (metis alloc_fill_correct order.trans)
  next
    case True
    then obtain c zs' where zs: "zs = c # zs'" using sl by (cases zs) (auto simp: slice_at_def)
    have c: "c \<le> 0x10ffff" using ok zs by simp
    obtain h t where ht: "unicode_to_utf8 c = h # t" "utf8_char_len h = Suc (length t)"
      using utf8_char_shape_ex [OF c, of "[]"] by blast
    then have "encode zs' = []" using True zs by (simp add: nth_append)
    then have zs': "zs' = []" using ok zs unicode_to_utf8_nonempty by (cases zs') auto
    have neq: "2 * length (encode xs) + 0 \<noteq> 2 * length (encode (xs @ zs)) + 0" using ht zs by simp
    have "js_sub_string_utf8 ctx val (2 * length (encode xs) + s) (2 * length (encode (xs @ zs)) + e)
       = Inr (JS_NewStringChar c, ctx)"
      using sub_string_utf8_eq [OF _ _ neq b [symmetric]] True zs zs' utf8_get_eq [OF c, of "encode ys"] by simp
    then show ?thesis using True zs zs' c by (simp add: new_string_def sub_cps_def new_char_string_at)
  qed
qed

lemma utf8_pos_flag:
  assumes "n \<le> length (utf16 cps)" "cps_ok cps"
  shows "\<exists>xs ys f. cps = xs @ ys \<and> n = length (utf16 xs) + f \<and> ref_utf8_pos cps n = 2 * length (encode xs) + f \<and>
    (f = 0 \<or> f = 1 \<and> ys \<noteq> [] \<and> 0x10000 \<le> hd ys)"
proof (cases "n < length (utf16 cps)")
  case True
  from utf8_pos_split [OF True] show ?thesis by fastforce
next
  case False
  then show ?thesis using assms utf8_pos_end [of cps n]
    by (intro exI [of _ cps] exI [of _ "[]"] exI [of _ 0]) simp
qed

lemma utf16_slice:
  assumes "n < m" "m \<le> length (utf16 cps)" "cps_ok cps"
  obtains xs zs ys s e where "cps = xs @ zs @ ys" "slice_at xs zs ys s e"
    "n = length (utf16 xs) + s" "m = length (utf16 (xs @ zs)) + e"
    "ref_utf8_pos cps n = 2 * length (encode xs) + s" "ref_utf8_pos cps m = 2 * length (encode (xs @ zs)) + e"
proof -
  obtain xs ys s where x: "cps = xs @ ys" "n = length (utf16 xs) + s" "ref_utf8_pos cps n = 2 * length (encode xs) + s"
    "s = 0 \<or> s = 1 \<and> ys \<noteq> [] \<and> 0x10000 \<le> hd ys"
    using utf8_pos_flag [of n cps] assms by auto
  obtain xs' ys' e where y: "cps = xs' @ ys'" "m = length (utf16 xs') + e"
    "ref_utf8_pos cps m = 2 * length (encode xs') + e" "e = 0 \<or> e = 1 \<and> ys' \<noteq> [] \<and> 0x10000 \<le> hd ys'"
    using utf8_pos_flag [of m cps] assms by auto
  consider zs where "xs' = xs @ zs" "ys = zs @ ys'" | c zs where "xs = xs' @ c # zs" "ys' = c # zs @ ys"
    using x(1) y(1) by (auto simp: append_eq_append_conv2) (metis append_Nil2 list.exhaust)
  then show ?thesis
  proof cases
    case 1
    have "slice_at xs zs ys' s e" using x y 1 assms(1) by (cases zs) (auto simp: slice_at_def)
    with that [of xs zs ys' s e] x y 1 show ?thesis by simp
  next
    case 2
    then show ?thesis using x y assms(1) by (auto simp: utf16_units_length split: if_splits)
  qed
qed

lemma convert_pos_mem [simp]: "mem_free (snd (js_string_convert_pos ctx val pos ty)) = mem_free ctx"
  by (simp add: js_string_convert_pos_def cache_replace_def Let_def split: option.split StringPosTypeEnum.split)

lemma new_string_frame:
  assumes "new_string ctx1 r cps" "heap ctx1 = heap ctx" "mem_free ctx1 = mem_free ctx" "cache_ok ctx1"
  shows "new_string ctx r cps"
  using assms by (auto simp: new_string_def extends_def split: sum.splits)

lemma u32_nat: "0 \<le> i \<Longrightarrow> i < 2 ^ 31 \<Longrightarrow> u32 i = nat i"
  by (simp add: u32_def)

text \<open>C11. A substring between two UTF-16 positions, each of which may cut a surrogate pair in half, denotes exactly the UTF-16 units between them, whatever the position cache holds; no error other than running out of memory is possible, older strings and the cache stay valid, and no encoded surrogate pair appears.\<close>

theorem js_sub_string_correct:
  assumes "string_at ctx val cps" "cache_ok ctx" "empty_ok ctx"
    and "0 \<le> start" "start \<le> en" "en \<le> int (length (utf16 cps))"
  shows "\<exists>cps'. new_string ctx (js_sub_string ctx val start en) cps' \<and>
    utf16 cps' = take (nat (en - start)) (drop (nat start) (utf16 cps)) \<and> (no_pair cps \<longrightarrow> no_pair cps')"
proof (cases "start = en")
  case True
  then show ?thesis using assms
    by (intro exI [of _ "[]"]) (simp add: js_sub_string_def new_string_def empty_string_at no_pair_def)
next
  case False
  define n m where "n = nat start" and "m = nat en"
  have ok: "cps_ok cps" "length (utf16 cps) < 0x7fffffff"
    using assms(1) prefix_lengths [of ctx val "[]" cps] by (auto simp: string_at_def)
  have nm: "n < m" "m \<le> length (utf16 cps)" "n < 2 ^ 31" "m < 2 ^ 31" "u32 start = n" "u32 en = m"
    using assms False ok by (auto simp: n_def m_def u32_nat)
  obtain xs zs ys s e where sl: "cps = xs @ zs @ ys" "slice_at xs zs ys s e"
    "n = length (utf16 xs) + s" "m = length (utf16 (xs @ zs)) + e"
    "ref_utf8_pos cps n = 2 * length (encode xs) + s" "ref_utf8_pos cps m = 2 * length (encode (xs @ zs)) + e"
    using utf16_slice [OF nm(1,2) ok(1)] by blast
  define r1 where "r1 = js_string_utf16_to_utf8_pos ctx val n"
  define r2 where "r2 = js_string_utf16_to_utf8_pos (snd r1) val m"
  have r1: "fst r1 = ref_utf8_pos cps n" "cache_ok (snd r1)" "heap (snd r1) = heap ctx" "mem_free (snd r1) = mem_free ctx"
    using convert_pos_utf16_ref [OF assms(1,2) nm(3)] by (simp_all add: r1_def js_string_utf16_to_utf8_pos_def)
  have s1: "string_at (snd r1) val cps" using assms(1) string_at_heap [OF r1(3)] by simp
  have r2: "fst r2 = ref_utf8_pos cps m" "cache_ok (snd r2)" "heap (snd r2) = heap ctx" "mem_free (snd r2) = mem_free ctx"
    using convert_pos_utf16_ref [OF s1 r1(2) nm(4)] r1 by (simp_all add: r2_def js_string_utf16_to_utf8_pos_def)
  have s2: "string_at (snd r2) val (xs @ zs @ ys)" using assms(1) string_at_heap [OF r2(3)] sl(1) by simp
  have "js_sub_string ctx val start en = js_sub_string_utf8 (snd r2) val (fst r1) (fst r2)"
    using assms False nm by (simp add: js_sub_string_def r1_def r2_def Let_def)
  then have "new_string ctx (js_sub_string ctx val start en) (sub_cps s e zs ys)"
    using sub_string_utf8_correct [OF s2 sl(2)] r1 r2 sl
    by (simp add: new_string_frame)
  moreover have "utf16 (sub_cps s e zs ys) = take (nat (en - start)) (drop (nat start) (utf16 cps))"
    using sub_cps_props(2) [of xs zs ys s e] ok sl assms(4,5)
    by (simp add: n_def m_def nat_diff_distrib')
  ultimately show ?thesis using sub_cps_props(3) [of xs zs ys s e] ok sl by auto
qed


subsection \<open>Concatenation\<close>

definition combine :: "nat \<Rightarrow> nat \<Rightarrow> nat" where
  "combine c d = (c - 0xd800) * 0x400 + (d - 0xdc00) + 0x10000"

definition join :: "nat list \<Rightarrow> nat list \<Rightarrow> nat list" where
  "join xs ys = (if xs \<noteq> [] \<and> ys \<noteq> [] \<and> is_lead (last xs) \<and> is_trail (hd ys)
     then butlast xs @ combine (last xs) (hd ys) # tl ys else xs @ ys)"

lemma combine_props:
  assumes "is_lead c" "is_trail d"
  shows "0x10000 \<le> combine c d" "combine c d \<le> 0x10ffff" "utf16_units (combine c d) = [c, d]"
    "length (unicode_to_utf8 (combine c d)) = 4" "length (unicode_to_utf8 c) = 3" "length (unicode_to_utf8 d) = 3"
    "\<not> is_lead (combine c d)" "\<not> is_trail (combine c d)" "utf16_units c = [c]" "utf16_units d = [d]"
proof -
  obtain a where a: "c = 0xd800 + a" "a < 0x400" using assms(1) by (auto simp: is_lead_def le_iff_add)
  obtain b where b: "d = 0xdc00 + b" "b < 0x400" using assms(2) by (auto simp: is_trail_def le_iff_add)
  show r: "0x10000 \<le> combine c d" "combine c d \<le> 0x10ffff" using a b by (auto simp: combine_def)
  show "utf16_units (combine c d) = [c, d]" using a b r by (simp add: utf16_units_def combine_def)
  show "length (unicode_to_utf8 (combine c d)) = 4" using lead_trail(6) [OF r] .
  show "length (unicode_to_utf8 c) = 3" "length (unicode_to_utf8 d) = 3"
    using a b by (auto simp: unicode_to_utf8_def unicode_to_utf8_slow_def)
  show "\<not> is_lead (combine c d)" "\<not> is_trail (combine c d)" using r(1) by (auto simp: is_lead_def is_trail_def)
  show "utf16_units c = [c]" "utf16_units d = [d]" using a b by (auto simp: utf16_units_def)
qed

lemma join_props:
  assumes "cps_ok xs" "cps_ok ys"
  shows "cps_ok (join xs ys)" "utf16 (join xs ys) = utf16 xs @ utf16 ys"
    "no_pair xs \<Longrightarrow> no_pair ys \<Longrightarrow> no_pair (join xs ys)"
proof -
  have "cps_ok (join xs ys) \<and> utf16 (join xs ys) = utf16 xs @ utf16 ys \<and>
    (no_pair xs \<and> no_pair ys \<longrightarrow> no_pair (join xs ys))"
  proof (cases "xs \<noteq> [] \<and> ys \<noteq> [] \<and> is_lead (last xs) \<and> is_trail (hd ys)")
    case False
    with assms show ?thesis by (auto simp: join_def no_pair_def successively_append_iff)
  next
    case True
    then obtain as c d bs where l: "xs = as @ [c]" "ys = d # bs" "is_lead c" "is_trail d"
      by (cases xs rule: rev_cases; cases ys) auto
    with combine_props [OF l(3,4)] assms show ?thesis
      by (auto simp: join_def no_pair_def successively_append_iff successively_Cons)
  qed
  then show "cps_ok (join xs ys)" "utf16 (join xs ys) = utf16 xs @ utf16 ys"
    "no_pair xs \<Longrightarrow> no_pair ys \<Longrightarrow> no_pair (join xs ys)" by blast+
qed

lemma right_surrogate_iff:
  assumes "c \<le> 0x10ffff"
  shows "is_utf8_right_surrogate (unicode_to_utf8 c @ r) \<and> 3 \<le> length (unicode_to_utf8 c @ r) \<longleftrightarrow> is_trail c"
    "is_utf8_left_surrogate (unicode_to_utf8 c @ r) \<and> 3 \<le> length (unicode_to_utf8 c @ r) \<longleftrightarrow> is_lead c"
proof -
  from assms have "c < 0x200000" by simp
  then have "(is_utf8_right_surrogate (unicode_to_utf8 c @ r) \<and> 3 \<le> length (unicode_to_utf8 c @ r) \<longleftrightarrow> is_trail c) \<and>
    (is_utf8_left_surrogate (unicode_to_utf8 c @ r) \<and> 3 \<le> length (unicode_to_utf8 c @ r) \<longleftrightarrow> is_lead c)"
  proof (cases rule: utf8_cases)
    case one
    then show ?thesis by (auto simp: unicode_to_utf8_def is_utf8_right_surrogate_def is_utf8_left_surrogate_def
          is_trail_def is_lead_def)
  next
    case (two a b)
    then show ?thesis by (auto simp: is_utf8_right_surrogate_def is_utf8_left_surrogate_def
          is_trail_def is_lead_def)
  next
    case (three a b d)
    have "a \<le> 12 \<or> a = 13 \<or> 14 \<le> a" by arith
    then show ?thesis using three
      by (elim disjE) (auto simp: is_utf8_right_surrogate_def is_utf8_left_surrogate_def is_trail_def is_lead_def)
  next
    case (four a b d e)
    then show ?thesis by (auto simp: is_utf8_right_surrogate_def is_utf8_left_surrogate_def
          is_trail_def is_lead_def)
  qed
  then show "is_utf8_right_surrogate (unicode_to_utf8 c @ r) \<and> 3 \<le> length (unicode_to_utf8 c @ r) \<longleftrightarrow> is_trail c"
    "is_utf8_left_surrogate (unicode_to_utf8 c @ r) \<and> 3 \<le> length (unicode_to_utf8 c @ r) \<longleftrightarrow> is_lead c" by blast+
qed

lemma char_start:
  assumes "cps_ok xs" "i < length (encode xs)" "\<not> cont_byte (encode xs ! i)"
  shows "\<exists>as d bs. xs = as @ d # bs \<and> i = length (encode as)"
  using assms
proof (induction xs arbitrary: i)
  case Nil
  then show ?case by simp
next
  case (Cons c xs)
  then have c: "c \<le> 0x10ffff" by simp
  obtain h t where ht: "unicode_to_utf8 c = h # t" "list_all cont_byte t"
    using utf8_char_shape_ex [OF c, of "[]"] by blast
  consider "i = 0" | "0 < i" "i < Suc (length t)" | "Suc (length t) \<le> i" by linarith
  then show ?case
  proof cases
    case 1
    then show ?thesis by (intro exI [of _ "[]"]) simp
  next
    case 2
    then have "encode (c # xs) ! i = t ! (i - 1)" "i - 1 < length t" using ht by (auto simp: nth_append nth_Cons')
    then show ?thesis using Cons.prems(3) ht(2) by (auto simp: list_all_length)
  next
    case 3
    have "\<exists>as d bs. xs = as @ d # bs \<and> i - Suc (length t) = length (encode as)"
      by (rule Cons.IH) (use Cons.prems 3 ht in \<open>auto simp: nth_append nth_Cons' split: if_splits\<close>)
    then obtain as d bs where "xs = as @ d # bs" "i - Suc (length t) = length (encode as)" by blast
    then show ?thesis using 3 ht by (intro exI [of _ "c # as"] exI [of _ d] exI [of _ bs]) auto
  qed
qed


lemma left_surrogate_end:
  assumes "cps_ok xs"
  shows "3 \<le> length (encode xs) \<and> is_utf8_left_surrogate (drop (length (encode xs) - 3) (encode xs @ r)) \<longleftrightarrow>
    xs \<noteq> [] \<and> is_lead (last xs)" (is "?L \<longleftrightarrow> ?R")
proof
  assume L: ?L
  let ?i = "length (encode xs) - 3"
  have i: "?i < length (encode xs)" using L by auto
  then have "encode xs ! ?i = 0xed" using L by (simp add: is_utf8_left_surrogate_def nth_append)
  then have "\<not> cont_byte (encode xs ! ?i)" by (simp add: cont_byte_iff)
  then obtain as d bs where x: "xs = as @ d # bs" "?i = length (encode as)"
    using char_start [OF assms i] by blast
  have d: "d \<le> 0x10ffff" using assms x by simp
  have "drop ?i (encode xs @ r) = unicode_to_utf8 d @ encode bs @ r" using x by simp
  moreover have "length (unicode_to_utf8 d) + length (encode bs) = 3" using x L by auto
  ultimately have "is_lead d" using right_surrogate_iff(2) [OF d, of "encode bs @ r"] L by simp
  moreover from this have "length (unicode_to_utf8 d) = 3"
    using combine_props(5) [of d "0xdc00"] by (simp add: is_trail_def)
  then have "encode bs = []" using x L by simp
  then have "bs = []" using assms x unicode_to_utf8_nonempty by (cases bs) auto
  ultimately show ?R using x by simp
next
  assume ?R
  then obtain as c where x: "xs = as @ [c]" "is_lead c" by (cases xs rule: rev_cases) auto
  have "length (unicode_to_utf8 c) = 3" using combine_props(5) [of c "0xdc00"] x by (simp add: is_trail_def)
  then show ?L using x right_surrogate_iff(2) [of c r] assms by simp
qed

lemma combine_bits:
  assumes "is_lead c" "is_trail d"
  shows "(push_bit 10 (c AND 0x3ff) OR (d AND 0x3ff)) + 0x10000 = combine c d"
proof -
  obtain a where a: "c = 0xd800 + a" "a < 0x400" using assms(1) by (auto simp: is_lead_def le_iff_add)
  obtain b where b: "d = 0xdc00 + b" "b < 0x400" using assms(2) by (auto simp: is_trail_def le_iff_add)
  have "c mod 1024 = a" "d mod 1024 = b"
    using a b mod_mult_self1 [of a 54 1024] mod_mult_self1 [of b 55 1024] by (simp_all add: add.commute)
  then show ?thesis using a b or_high_low(2) [of b 10 a] by (simp add: bits_arith combine_def)
qed

definition buf_at :: "strctx \<Rightarrow> StringBuffer \<Rightarrow> nat list \<Rightarrow> bool" where
  "buf_at ctx s cps \<longleftrightarrow>
     (case buffer_val s of
        SBException e \<Rightarrow> False
      | SBString v \<Rightarrow> string_at ctx v cps
      | SBArray arr \<Rightarrow> sb_len s = length (encode cps) \<and> take (sb_len s) arr = encode cps \<and> cps_ok cps \<and>
          (sb_is_ascii s \<longrightarrow> list_all (\<lambda>c. c < 0x80) cps) \<and> sb_len s \<le> JS_STRING_LEN_MAX \<and> (sb_len s < length arr \<or> cps = []))"

lemma memcpy_at_length [simp]: "k + length b \<le> length a \<Longrightarrow> length (memcpy_at a k b) = length a"
  by (simp add: memcpy_at_def)

lemma memcpy_at_prefix:
  "k \<le> length a \<Longrightarrow> take (k + length b) (memcpy_at a k b) = take k a @ b"
  by (simp add: memcpy_at_def)

lemma concat_copy_correct:
  assumes arr: "arr = encode xs @ r" "len1 = length (encode xs)" "ascii \<longrightarrow> list_all (\<lambda>c. c < 0x80) xs"
    and ok: "cps_ok xs" "cps_ok ys" "ys \<noteq> []"
    and p2: "buf p2 = encode ys" "is_ascii p2 \<longrightarrow> list_all (\<lambda>c. c < 0x80) ys"
    and room: "len1 + length (encode ys) < length arr" "len1 + length (encode ys) \<le> JS_STRING_LEN_MAX"
  shows "buf_at ctx (concat_copy arr len1 ascii p2) (join xs ys)"
proof -
  obtain d ys' where ys: "ys = d # ys'" using ok(3) by (cases ys) auto
  have d: "d \<le> 0x10ffff" using ok ys by simp
  have right: "3 \<le> length (buf p2) \<and> is_utf8_right_surrogate (buf p2) \<longleftrightarrow> is_trail (hd ys)"
    using right_surrogate_iff(1) [OF d, of "encode ys'"] ys p2(1) by auto
  have left: "len1 \<ge> 3 \<and> is_utf8_left_surrogate (drop (len1 - 3) arr) \<longleftrightarrow> xs \<noteq> [] \<and> is_lead (last xs)"
    using left_surrogate_end [OF ok(1), of r] arr by simp
  show ?thesis
  proof (cases "xs \<noteq> [] \<and> is_lead (last xs) \<and> is_trail (hd ys)")
    case False
    then have "concat_copy arr len1 ascii p2 = \<lparr>buffer_val = SBArray (memcpy_at arr len1 (encode ys)),
        sb_len = len1 + length (encode ys), sb_is_ascii = ascii \<and> is_ascii p2\<rparr>"
      using left right p2(1) by (auto simp: concat_copy_def Let_def)
    moreover have "join xs ys = xs @ ys" using False by (auto simp: join_def)
    ultimately show ?thesis using arr room p2 ok memcpy_at_prefix [of len1 arr "encode ys"]
      by (simp add: buf_at_def)
  next
    case True
    then obtain as c where xs: "xs = as @ [c]" "is_lead c" by (cases xs rule: rev_cases) auto
    have tr: "is_trail d" using True ys by simp
    note cp = combine_props [OF xs(2) tr]
    let ?q = "length (encode as)" and ?u = "unicode_to_utf8 (combine c d)"
    have q: "len1 - 3 = ?q" using arr(2) xs(1) cp(5) by simp
    have c: "c \<le> 0x10ffff" using ok xs by simp
    have gets: "fst (utf8_get (drop ?q arr)) = c" "fst (utf8_get (buf p2)) = d"
      using utf8_get_eq [OF c, of r] utf8_get_eq [OF d, of "encode ys'"] arr(1) xs(1) ys p2(1) by simp_all
    have j: "join xs ys = as @ combine c d # ys'" using True xs ys by (simp add: join_def)
    define arr' where "arr' = memcpy_at (memcpy_at arr ?q ?u) (?q + 4) (encode ys')"
    have "concat_copy arr len1 ascii p2 = \<lparr>buffer_val = SBArray arr',
        sb_len = length (encode (join xs ys)), sb_is_ascii = False\<rparr>"
      using left right True arr(2) xs(1) ys p2(1) cp(4,5,6)
      unfolding concat_copy_def Let_def q gets combine_bits [OF xs(2) tr] j arr'_def by simp
    moreover have "take (?q + 4 + length (encode ys')) arr' = encode as @ ?u @ encode ys'"
      using memcpy_at_prefix [of "?q + 4" "memcpy_at arr ?q ?u" "encode ys'"] memcpy_at_prefix [of ?q arr ?u]
        arr xs(1) ys room cp(4,5,6) by (simp add: arr'_def)
    moreover have "length arr' = length arr"
      using arr xs(1) ys room cp(4,5,6) by (simp add: arr'_def)
    ultimately show ?thesis
      using room arr(2) xs(1) ys cp j join_props(1) [OF ok(1,2)] by (simp add: buf_at_def add.assoc)
  qed
qed


lemma resize_byte_array_correct:
  assumes "js_resize_byte_array ctx val n = Inr (arr, ctx')"
  shows "n \<le> length arr" "\<exists>r. arr = (case val of None \<Rightarrow> [] | Some a \<Rightarrow> a) @ r" "heap ctx' = heap ctx"
    "string_pos_cache ctx' = string_pos_cache ctx" "string_pos_cache_counter ctx' = string_pos_cache_counter ctx"
proof -
  define a where "a = (case val of None \<Rightarrow> [] | Some a \<Rightarrow> a)"
  define m where "m = nat (max_int (int n) (int (length a + length a div 2)))"
  have "n \<le> m" "length a \<le> m" by (auto simp: m_def max_int_def)
  then have "n \<le> length arr \<and> (\<exists>r. arr = a @ r) \<and> heap ctx' = heap ctx \<and>
      string_pos_cache ctx' = string_pos_cache ctx \<and> string_pos_cache_counter ctx' = string_pos_cache_counter ctx"
    using assms a_def [symmetric] m_def [symmetric]
    by (auto simp: js_resize_byte_array_def js_alloc_byte_array_def Let_def memcpy_at_def
        split: if_splits sum.splits)
  then show "n \<le> length arr" "\<exists>r. arr = (case val of None \<Rightarrow> [] | Some a \<Rightarrow> a) @ r" "heap ctx' = heap ctx"
    "string_pos_cache ctx' = string_pos_cache ctx" "string_pos_cache_counter ctx' = string_pos_cache_counter ctx"
    by (simp_all add: a_def)
qed

text \<open>What one append does: an exception, or the joined contents in a buffer over an unchanged heap.\<close>

definition appended :: "strctx \<Rightarrow> StringBuffer \<times> strctx \<Rightarrow> nat list \<Rightarrow> bool" where
  "appended ctx r cps \<longleftrightarrow>
     ((\<exists>e. buffer_val (fst r) = SBException e) \<or> buf_at (snd r) (fst r) cps) \<and>
     heap (snd r) = heap ctx \<and> string_pos_cache (snd r) = string_pos_cache ctx \<and>
     string_pos_cache_counter (snd r) = string_pos_cache_counter ctx"

lemma string_at_encode_empty: "string_at ctx v ys \<Longrightarrow> buf (get_string_ptr ctx v) = [] \<longleftrightarrow> ys = []"
  using unicode_to_utf8_nonempty by (cases ys) (auto simp: string_at_def)

lemma concat_length_error_eq:
  "n < 2 ^ 32 \<Longrightarrow> concat_length_error n =
     (if n \<ge> 2 ^ 31 then Some InvalidStore else if n > JS_STRING_LEN_MAX then Some StringTooLong else None)"
  by (auto simp: concat_length_error_def Let_def s32_def JS_STRING_LEN_MAX_def)

lemma concat_length_ok: "concat_length_error n = None \<Longrightarrow> n < 2 ^ 32 \<Longrightarrow> n \<le> JS_STRING_LEN_MAX"
  by (simp add: concat_length_error_eq split: if_splits)

lemma concat_str_correct:
  assumes b: "buf_at ctx s xs" and str: "string_at ctx v2 ys"
  shows "appended ctx (string_buffer_concat_str ctx s v2) (join xs ys)"
proof (cases "ys = []")
  case True
  then show ?thesis using b string_at_encode_empty [OF str]
    by (auto simp: appended_def string_buffer_concat_str_def Let_def buf_at_def join_def split: sbuf.splits)
next
  case ys: False
  define p2 where "p2 = get_string_ptr ctx v2"
  have p2: "buf p2 = encode ys" "cps_ok ys" "is_ascii p2 \<longrightarrow> list_all (\<lambda>c. c < 0x80) ys"
    using str by (auto simp: string_at_def p2_def)
  have len2: "length (encode ys) \<noteq> 0" using ys string_at_encode_empty [OF str] p2 by (simp add: p2_def)
  have l32: "length (encode xs) + length (encode ys) < 2 ^ 32"
    using b str by (auto simp: buf_at_def string_at_def JS_STRING_LEN_MAX_def split: sbuf.splits)
  show ?thesis
  proof (cases "buffer_val s")
    case (SBException e)
    then show ?thesis using b by (simp add: buf_at_def)
  next
    case (SBString v1)
    define p1 where "p1 = get_string_ptr ctx v1"
    have s1: "string_at ctx v1 xs" using b SBString by (simp add: buf_at_def)
    then have p1: "buf p1 = encode xs" "cps_ok xs" "is_ascii p1 \<longrightarrow> list_all (\<lambda>c. c < 0x80) xs"
      by (auto simp: string_at_def p1_def)
    show ?thesis
    proof (cases "xs = []")
      case True
      then show ?thesis using SBString len2 p1 p2 str p1_def p2_def
        by (simp add: string_buffer_concat_str_def Let_def appended_def buf_at_def join_def)
    next
      case xs: False
      then have l1: "encode xs \<noteq> []" using string_at_encode_empty [OF s1] p1 by (simp add: p1_def)
      show ?thesis
      proof (cases "concat_length_error (length (encode xs) + length (encode ys))")
        case (Some e)
        then show ?thesis using SBString len2 p1(1) p2(1) l1
          unfolding string_buffer_concat_str_def Let_def p1_def [symmetric] p2_def [symmetric]
          by (simp add: p1_def [symmetric] appended_def)
      next
      case fits: None
      show ?thesis
      proof (cases "js_resize_byte_array ctx None (length (encode xs) + length (encode ys) + 1)")
        case (Inl e)
        then show ?thesis using SBString len2 p1(1) p2(1) l1 fits
          unfolding string_buffer_concat_str_def Let_def p1_def [symmetric] p2_def [symmetric]
          by (simp add: p1_def [symmetric] appended_def)
      next
        case (Inr r)
        obtain arr ctx' where r: "r = (arr, ctx')" by (cases r)
        note rs = resize_byte_array_correct [OF Inr [unfolded r]]
        have cc: "buf_at ctx' (concat_copy (memcpy_at arr 0 (encode xs)) (length (encode xs)) (is_ascii p1) p2) (join xs ys)"
          by (rule concat_copy_correct [where r = "drop (length (encode xs)) arr"])
            (use p1 p2 ys rs(1) concat_length_ok [OF fits l32] in \<open>auto simp: memcpy_at_def\<close>)
        show ?thesis using SBString len2 p1(1) p2(1) l1 Inr r rs cc fits
          unfolding string_buffer_concat_str_def Let_def p1_def [symmetric] p2_def [symmetric]
          by (simp add: p1_def [symmetric] appended_def)
      qed
      qed
    qed
  next
    case (SBArray arr)
    have a: "sb_len s = length (encode xs)" "take (length (encode xs)) arr = encode xs" "cps_ok xs"
      "sb_is_ascii s \<longrightarrow> list_all (\<lambda>c. c < 0x80) xs"
      using b SBArray by (auto simp: buf_at_def)
    have arr: "arr = encode xs @ drop (length (encode xs)) arr" using a(2) by (metis append_take_drop_id)
    show ?thesis
    proof (cases "concat_length_error (length (encode xs) + length (encode ys))")
      case (Some e)
      then show ?thesis using SBArray len2 p2(1) a(1)
        unfolding string_buffer_concat_str_def Let_def p2_def [symmetric] by (simp add: appended_def)
    next
    case fits: None
    note le = concat_length_ok [OF fits l32]
    show ?thesis
    proof (cases "js_resize_byte_array ctx (Some arr) (length (encode xs) + length (encode ys) + 1)")
      case (Inl e)
      have cc: "buf_at ctx (concat_copy arr (length (encode xs)) (sb_is_ascii s) p2) (join xs ys)"
        if "length (encode xs) + length (encode ys) \<le> JS_STRING_LEN_MAX" "length (encode xs) + length (encode ys) < length arr"
        by (rule concat_copy_correct [OF arr refl a(4,3) p2(2) ys p2(1,3)]) (use that in auto)
      show ?thesis using SBArray len2 p2(1) a(1) Inl cc fits le
        unfolding string_buffer_concat_str_def Let_def p2_def [symmetric]
        by (simp add: appended_def)
    next
      case (Inr r)
      obtain arr' ctx' where r: "r = (arr', ctx')" by (cases r)
      note rs = resize_byte_array_correct [OF Inr [unfolded r]]
      then obtain t where arr': "arr' = arr @ t" by auto
      then have "arr' = encode xs @ (drop (length (encode xs)) arr @ t)" using arr by (metis append.assoc)
      note c1 = concat_copy_correct [OF this refl a(4,3) p2(2) ys p2(1,3)]
      note c2 = concat_copy_correct [OF arr refl a(4,3) p2(2) ys p2(1,3)]
      show ?thesis using SBArray len2 p2(1) a(1) Inr r rs c1 c2 fits le
        unfolding string_buffer_concat_str_def Let_def p2_def [symmetric]
        by (simp add: appended_def)
    qed
    qed
  qed
qed


lemma single_char:
  assumes "cps_ok (c # cs)" "utf8_char_len (encode (c # cs) ! 0) = length (encode (c # cs))"
  shows "cs = []"
proof -
  have c: "c \<le> 0x10ffff" using assms by simp
  obtain h t where ht: "unicode_to_utf8 c = h # t" "utf8_char_len h = Suc (length t)"
    using utf8_char_shape_ex [OF c, of "[]"] by blast
  then have "encode cs = []" using assms(2) by simp
  then show ?thesis using assms(1) unicode_to_utf8_nonempty by (cases cs) auto
qed

lemma byte_array_to_string_correct:
  assumes "cps_ok cps" "take (length (encode cps)) arr = encode cps" "length (encode cps) \<le> JS_STRING_LEN_MAX"
    "ascii \<longrightarrow> list_all (\<lambda>c. c < 0x80) cps" "empty_ok ctx"
    "js_byte_array_to_string ctx arr (length (encode cps)) ascii = (v, ctx')"
  shows "string_at ctx' v cps \<and> extends ctx ctx' \<and> (cache_ok ctx \<longrightarrow> cache_ok ctx')"
proof (cases cps)
  case Nil
  then show ?thesis using assms by (simp add: js_byte_array_to_string_def empty_string_at)
next
  case (Cons c cs)
  have c: "c \<le> 0x10ffff" using assms(1) Cons by simp
  have ne: "length (encode cps) \<noteq> 0" using unicode_to_utf8_nonempty [OF c] Cons by simp
  have arr: "arr = encode cps @ drop (length (encode cps)) arr" using assms(2) by (metis append_take_drop_id)
  then have a0: "arr ! 0 = encode cps ! 0" using ne by (metis length_greater_0_conv nth_append list.size(3))
  show ?thesis
  proof (cases "utf8_char_len (arr ! 0) = length (encode cps)")
    case True
    then have cs: "cs = []" using single_char [of c cs] assms(1) Cons a0 by simp
    have "utf8_get arr = (c, length (unicode_to_utf8 c))"
      by (subst arr) (use utf8_get_eq [OF c] Cons cs in simp)
    then have "(v, ctx') = (JS_NewStringChar c, ctx)"
      using assms(6) True ne by (simp add: js_byte_array_to_string_def)
    then show ?thesis using c Cons cs by (simp add: new_char_string_at)
  next
    case False
    then have v: "v = StringPtr (length (heap ctx))" and c': "ctx' = ctx\<lparr>heap := heap ctx @
       [\<lparr>is_unique = False, is_ascii = ascii, is_numeric = False, buf = encode cps\<rparr>]\<rparr>"
      using assms(2,6) ne by (simp_all add: js_byte_array_to_string_def)
    have e: "extends ctx ctx'" by (simp add: extends_def c')
    have "cache_ok ctx \<Longrightarrow> cache_ok ctx'" by (rule cache_ok_extends [OF e]) (simp_all add: c')
    moreover have "string_at ctx' v cps"
      using assms by (simp add: string_at_def v c' val_ok_def get_string_ptr_def)
    ultimately show ?thesis using e by blast
  qed
qed

lemma string_buffer_pop_correct:
  assumes "buf_at ctx s cps" "empty_ok ctx"
  shows "\<exists>v ctx'. string_buffer_pop ctx s = Inr (v, ctx') \<and> string_at ctx' v cps \<and> extends ctx ctx' \<and>
    (cache_ok ctx \<longrightarrow> cache_ok ctx')"
proof (cases "buffer_val s")
  case (SBArray arr)
  define a where "a = (if sb_len s \<noteq> 0 then arr[sb_len s := 0] else arr)"
  have "take (length (encode cps)) a = encode cps" "sb_len s = length (encode cps)"
    using assms(1) SBArray by (auto simp: buf_at_def a_def)
  moreover obtain v ctx' where "js_byte_array_to_string ctx a (length (encode cps)) (sb_is_ascii s) = (v, ctx')"
    by fastforce
  moreover have "string_buffer_pop ctx s = Inr (js_byte_array_to_string ctx a (length (encode cps)) (sb_is_ascii s))"
    using calculation(2) by (simp add: string_buffer_pop_def SBArray a_def)
  ultimately show ?thesis
    using byte_array_to_string_correct [of cps a "sb_is_ascii s" ctx v ctx'] assms SBArray
    by (auto simp: buf_at_def)
qed (use assms in \<open>auto simp: buf_at_def string_buffer_pop_def\<close>)

lemma concat_str_error:
  assumes "buffer_val s = SBString v1" "buffer_val (fst (string_buffer_concat_str ctx s v2)) = SBException e"
  defines "len \<equiv> length (buf (get_string_ptr ctx v1)) + length (buf (get_string_ptr ctx v2))"
  assumes "len < 2 ^ 32"
  shows "if len \<ge> 2 ^ 31 then e = InvalidStore else if len > JS_STRING_LEN_MAX then e = StringTooLong
    else e = OutOfMemory \<and> (len + 1 > JS_BYTE_ARRAY_SIZE_MAX \<or> mem_free ctx < js_malloc_size (sizeof_JSByteArray + (len + 1)))"
  using assms(1,2,4) unfolding len_def
  by (auto simp: concat_length_error_eq string_buffer_concat_str_def js_resize_byte_array_def js_alloc_byte_array_def Let_def max_int_def
      concat_copy_def nat_add_distrib
      split: if_splits sum.splits)

text \<open>C12. Concatenating two strings gives a string whose UTF-16 units are those of the first followed by those of the second, contracting a left surrogate before a right one, without creating encoded surrogate pairs; it fails only with the documented errors (too long, or no memory for the byte array) as long as the two lengths add up to less than \<open>2 ^ 31\<close> bytes, and older strings and the cache stay valid.  From \<open>2 ^ 31\<close> on the \<^verbatim>\<open>int\<close> sum of the lengths is negative and passes the length test, and unless one string is empty the call stores outside its memory.\<close>

theorem JS_ConcatString_correct:
  assumes "string_at ctx v1 xs" "string_at ctx v2 ys" "empty_ok ctx"
  defines "len \<equiv> length (encode xs) + length (encode ys)"
  shows "case JS_ConcatString ctx (Inr v1) (Inr v2) of
      Inl e \<Rightarrow> if len \<ge> 2 ^ 31 then e = InvalidStore else if len > JS_STRING_LEN_MAX then e = StringTooLong
         else e = OutOfMemory \<and> (len + 1 > JS_BYTE_ARRAY_SIZE_MAX \<or> mem_free ctx < js_malloc_size (sizeof_JSByteArray + (len + 1)))
    | Inr (v, ctx') \<Rightarrow> (\<exists>cps. string_at ctx' v cps \<and> utf16 cps = utf16 xs @ utf16 ys \<and>
         (no_pair xs \<and> no_pair ys \<longrightarrow> no_pair cps)) \<and> extends ctx ctx' \<and> (cache_ok ctx \<longrightarrow> cache_ok ctx')"
proof -
  let ?b0 = "\<lparr>buffer_val = SBString JS_ATOM_empty, sb_len = 0, sb_is_ascii = True\<rparr>"
  have at0: "string_at ctx JS_ATOM_empty []" using assms(3) by (rule empty_string_at)
  define b1 where "b1 = (if xs = [] then ?b0 else ?b0\<lparr>buffer_val := SBString v1\<rparr>)"
  have c1: "string_buffer_concat_str ctx ?b0 v1 = (b1, ctx)"
    using string_at_encode_empty [OF assms(1)] string_at_encode_empty [OF at0]
    by (simp add: string_buffer_concat_str_def Let_def b1_def)
  define v1' where "v1' = (if xs = [] then JS_ATOM_empty else v1)"
  have b1: "buffer_val b1 = SBString v1'" and at1: "string_at ctx v1' xs"
    using assms(1) at0 by (auto simp: b1_def v1'_def)
  define r2 where "r2 = string_buffer_concat_str ctx b1 v2"
  have app: "appended ctx r2 (join xs ys)"
    unfolding r2_def using concat_str_correct [OF _ assms(2), of b1 xs] b1 at1 by (simp add: buf_at_def)
  have eq: "JS_ConcatString ctx (Inr v1) (Inr v2) = string_buffer_pop (snd r2) (fst r2)"
    by (simp add: JS_ConcatString_def string_buffer_push_def Let_def c1 r2_def)
  have ok: "cps_ok xs" "cps_ok ys" using assms(1,2) by (auto simp: string_at_def)
  show ?thesis
  proof (cases "\<exists>e. buffer_val (fst r2) = SBException e")
    case True
    then obtain e where e: "buffer_val (fst r2) = SBException e" by blast
    then have "string_buffer_pop (snd r2) (fst r2) = Inl e" by (simp add: string_buffer_pop_def)
    moreover have "buf (get_string_ptr ctx v1') = encode xs" "buf (get_string_ptr ctx v2) = encode ys"
      using at1 assms(2) by (simp_all add: string_at_def)
    moreover have "length (encode xs) + length (encode ys) < 2 ^ 32" using assms(1,2) by (auto simp: string_at_def JS_STRING_LEN_MAX_def)
    ultimately show ?thesis using concat_str_error [OF b1 e [unfolded r2_def]]
      by (auto simp: eq len_def split: if_splits)
  next
    case False
    then have b: "buf_at (snd r2) (fst r2) (join xs ys)" and h: "heap (snd r2) = heap ctx"
      "string_pos_cache (snd r2) = string_pos_cache ctx"
      "string_pos_cache_counter (snd r2) = string_pos_cache_counter ctx"
      using app by (auto simp: appended_def)
    have ex: "extends ctx (snd r2)" using h(1) by (rule extends_heap)
    have ca: "cache_ok ctx \<Longrightarrow> cache_ok (snd r2)" using cache_ok_extends [OF ex] h by blast
    obtain v ctx' where "string_buffer_pop (snd r2) (fst r2) = Inr (v, ctx')" "string_at ctx' v (join xs ys)"
      "extends (snd r2) ctx'" "cache_ok (snd r2) \<longrightarrow> cache_ok ctx'"
      using string_buffer_pop_correct [OF b empty_ok_extends [OF ex assms(3)]] by blast
    then show ?thesis using join_props [OF ok] ex ca extends_trans by (auto simp: eq)
  qed
qed


text \<open>Appending a UTF-16 slice of a string to a buffer.\<close>

lemma buf_at_extends: "extends ctx ctx' \<Longrightarrow> buf_at ctx s cps \<Longrightarrow> buf_at ctx' s cps"
  by (auto simp: buf_at_def string_at_extends split: sbuf.splits)

text \<open>Appending the UTF-16 slice from one position of a string to another to a string buffer either leaves an exception in the buffer or makes its contents the old units followed by exactly the units of the slice.\<close>

theorem string_buffer_concat_utf16_correct:
  assumes str: "string_at ctx val cps" and cache: "cache_ok ctx" and b: "buf_at ctx s xs"
    and nm: "n \<le> m" "m \<le> length (utf16 cps)"
  defines "r \<equiv> string_buffer_concat_utf16 ctx s val n m"
  shows "(\<exists>e. buffer_val (fst r) = SBException e) \<or>
    (\<exists>cps'. buf_at (snd r) (fst r) cps' \<and> utf16 cps' = utf16 xs @ take (m - n) (drop n (utf16 cps)) \<and>
       (no_pair xs \<and> no_pair cps \<longrightarrow> no_pair cps'))"
proof (cases "n = m")
  case True
  then show ?thesis using b by (auto simp: r_def string_buffer_concat_utf16_def)
next
  case False
  have ok: "cps_ok cps" "length (utf16 cps) < 0x7fffffff"
    using str prefix_lengths [of ctx val "[]" cps] by (auto simp: string_at_def)
  have nm': "n < m" "n < 2 ^ 31" "m < 2 ^ 31" using nm False ok by auto
  obtain as zs ys f e where sl: "cps = as @ zs @ ys" "slice_at as zs ys f e"
    "n = length (utf16 as) + f" "m = length (utf16 (as @ zs)) + e"
    "ref_utf8_pos cps n = 2 * length (encode as) + f" "ref_utf8_pos cps m = 2 * length (encode (as @ zs)) + e"
    using utf16_slice [OF nm'(1) nm(2) ok(1)] by blast
  define r1 where "r1 = js_string_utf16_to_utf8_pos ctx val n"
  define r2 where "r2 = js_string_utf16_to_utf8_pos (snd r1) val m"
  have r1: "fst r1 = ref_utf8_pos cps n" "cache_ok (snd r1)" "heap (snd r1) = heap ctx"
    using convert_pos_utf16_ref [OF str cache nm'(2)] by (simp_all add: r1_def js_string_utf16_to_utf8_pos_def)
  have s1: "string_at (snd r1) val cps" using str string_at_heap [OF r1(3)] by simp
  have r2: "fst r2 = ref_utf8_pos cps m" "cache_ok (snd r2)" "heap (snd r2) = heap ctx"
    using convert_pos_utf16_ref [OF s1 r1(2) nm'(3)] r1 by (simp_all add: r2_def js_string_utf16_to_utf8_pos_def)
  have s2: "string_at (snd r2) val (as @ zs @ ys)" using str string_at_heap [OF r2(3)] sl(1) by simp
  have b2: "buf_at (snd r2) s xs" by (rule buf_at_extends [OF extends_heap [OF r2(3)] b])
  have eqr: "r = string_buffer_concat_utf8 (snd r2) s val (2 * length (encode as) + f) (2 * length (encode (as @ zs)) + e)"
    using nm'(1) r1(1) r2(1) sl by (simp add: r_def string_buffer_concat_utf16_def Let_def r1_def r2_def)
  have lt: "\<not> 2 * length (encode (as @ zs)) + e \<le> 2 * length (encode as) + f"
    using sl(2) ok sl(1) unicode_to_utf8_nonempty [of "hd zs"] lead_trail(6) [of "hd zs"]
    by (cases zs) (auto simp: slice_at_def)
  note new = sub_string_utf8_correct [OF s2 sl(2)]
  show ?thesis
  proof (cases "js_sub_string_utf8 (snd r2) val (2 * length (encode as) + f) (2 * length (encode (as @ zs)) + e)")
    case (Inl err)
    then show ?thesis using lt by (simp add: eqr string_buffer_concat_utf8_def)
  next
    case (Inr p)
    obtain v ctx3 where p: "p = (v, ctx3)" by (cases p)
    have n3: "string_at ctx3 v (sub_cps f e zs ys)" "extends (snd r2) ctx3" using new Inr p by (simp_all add: new_string_def)
    have eqr': "r = string_buffer_concat_str ctx3 s v" using lt Inr p by (simp add: eqr string_buffer_concat_utf8_def)
    have app: "appended ctx3 r (join xs (sub_cps f e zs ys))"
      unfolding eqr' using concat_str_correct [OF buf_at_extends [OF n3(2) b2] n3(1)] .
    have okx: "cps_ok xs" using b by (auto simp: buf_at_def string_at_def split: sbuf.splits)
    note sp = sub_cps_props [OF _ sl(2)]
    have "utf16 (join xs (sub_cps f e zs ys)) = utf16 xs @ take (m - n) (drop n (utf16 cps))"
      using join_props(2) [OF okx sp(1)] sp(2) ok sl(1,3,4) by simp
    moreover have "no_pair xs \<and> no_pair cps \<longrightarrow> no_pair (join xs (sub_cps f e zs ys))"
      using join_props(3) [OF okx sp(1)] sp(3) ok sl(1) by auto
    ultimately show ?thesis using app by (auto simp: appended_def)
  qed
qed

subsection \<open>A one-unit string that is not a character value\<close>

definition pair_ctx :: strctx where
  "pair_ctx = \<lparr>
     heap = [\<lparr>is_unique = True, is_ascii = True, is_numeric = False, buf = []\<rparr>,
             \<lparr>is_unique = False, is_ascii = False, is_numeric = False, buf = [0xf0, 0x90, 0x90, 0x80, 0x41]\<rparr>],
     mem_free = 16,
     string_pos_cache = replicate 2 \<lparr>ce_str = None, pos_utf8 = 0, pos_utf16 = 0\<rparr>,
     string_pos_cache_counter = 0\<rparr>"

text \<open>The right half of a surrogate pair taken by substring is a heap string, not the character value that denotes the same one-unit string everywhere else: the two compare equal but are different values, hence different property keys once interned by address.\<close>

theorem half_pair_not_canonical:
  "\<exists>ctx'. js_sub_string pair_ctx (StringPtr 1) 1 2 = Inr (StringPtr 2, ctx') \<and>
     string_at ctx' (StringPtr 2) [0xdc00] \<and> string_at ctx' (JS_NewStringChar 0xdc00) [0xdc00] \<and>
     js_string_eq ctx' (StringPtr 2) (JS_NewStringChar 0xdc00) \<and> StringPtr 2 \<noteq> JS_NewStringChar 0xdc00"
proof -
  define ctx' where "ctx' = pair_ctx\<lparr>heap := heap pair_ctx @
     [\<lparr>is_unique = False, is_ascii = False, is_numeric = False, buf = [0xed, 0xb0, 0x80]\<rparr>], mem_free := 0\<rparr>"
  have u: "unicode_to_utf8 0xdc00 = [0xed, 0xb0, 0x80]" by (simp add: unicode_to_utf8_def unicode_to_utf8_slow_def)
  have p: "get_string_ptr pair_ctx (StringPtr (Suc 0)) = \<lparr>is_unique = False, is_ascii = False, is_numeric = False,
      buf = [0xf0, 0x90, 0x90, 0x80, 0x41]\<rparr>" by (simp add: get_string_ptr_def pair_ctx_def)
  have at: "string_at pair_ctx (StringPtr 1) [0x10400, 0x41]"
    by (simp add: string_at_def get_string_ptr_def val_ok_def pair_ctx_def JS_STRING_LEN_MAX_def unicode_to_utf8_def
        unicode_to_utf8_slow_def)
  have ca: "cache_ok pair_ctx"
    by (simp add: cache_ok_def pair_ctx_def entry_ok_def JS_STRING_POS_CACHE_SIZE_def list_all_iff)
  have "snd (js_string_utf16_to_utf8_pos pair_ctx (StringPtr 1) n) = pair_ctx" for n
    by (simp add: js_string_utf16_to_utf8_pos_def js_string_convert_pos_def p Let_def JS_STRING_POS_CACHE_MIN_LEN_def)
  then have conv: "js_string_utf16_to_utf8_pos pair_ctx (StringPtr 1) (Suc 0) = (1, pair_ctx)"
    "js_string_utf16_to_utf8_pos pair_ctx (StringPtr 1) 2 = (8, pair_ctx)"
    using convert_pos_utf16_ref [OF at ca, of 1] convert_pos_utf16_ref [OF at ca, of 2]
    by (simp_all add: prod_eq_iff js_string_utf16_to_utf8_pos_def unicode_to_utf8_def unicode_to_utf8_slow_def
        utf16_units_def)
  have "fst (utf8_get [0xf0, 0x90, 0x90, 0x80, 0x41]) = 0x10400"
    by (simp add: utf8_get_def utf8_get_slow_def bits_arith)
  moreover have "heap pair_ctx = [\<lparr>is_unique = True, is_ascii = True, is_numeric = False, buf = []\<rparr>,
     \<lparr>is_unique = False, is_ascii = False, is_numeric = False, buf = [0xf0, 0x90, 0x90, 0x80, 0x41]\<rparr>]"
    "mem_free pair_ctx = 16" by (simp_all add: pair_ctx_def)
  ultimately have "js_sub_string_utf8 pair_ctx (StringPtr 1) 1 8 = Inr (StringPtr 2, ctx')"
    using sub_string_utf8_eq [of 1 0 0 4 "[0xf0, 0x90, 0x90, 0x80, 0x41]" pair_ctx "StringPtr (Suc 0)"] u
    by (simp add: p trail_def js_alloc_string_def JS_STRING_LEN_MAX_def js_malloc_size_def JSW_def
        sizeof_JSString_def set_string_def ctx'_def numeral_2_eq_2)
  then have "js_sub_string pair_ctx (StringPtr 1) 1 2 = Inr (StringPtr 2, ctx')"
    using conv by (simp add: js_sub_string_def u32_def Let_def)
  moreover have "string_at ctx' (StringPtr 2) [0xdc00]"
    by (simp add: ctx'_def pair_ctx_def string_at_def val_ok_def get_string_ptr_def u JS_STRING_LEN_MAX_def)
  moreover have "js_string_eq ctx' (StringPtr 2) (JS_NewStringChar 0xdc00)"
    by (simp add: ctx'_def pair_ctx_def js_string_eq_def get_string_ptr_def u JS_NewStringChar_def)
  ultimately show ?thesis by (auto simp: new_char_string_at JS_NewStringChar_def [symmetric]) (simp add: JS_NewStringChar_def)
qed


subsection \<open>Concrete uses\<close>

lemma example_empty_ok: "empty_ok example_ctx"
  by (simp add: empty_ok_def example_ctx_def)

lemma example_utf16:
  "utf16 example_cps = [65, 0xd801, 0xdc00, 0xe9, 0x20ac, 0xdbff, 0xdfff, 66, 67, 68, 69, 70, 71, 72]"
  by (simp add: example_cps_def utf16_units_def)

theorem js_sub_string_correct_witness:
  "\<exists>cps'. new_string example_ctx (js_sub_string example_ctx (StringPtr 1) 2 6) cps' \<and>
     utf16 cps' = [0xdc00, 0xe9, 0x20ac, 0xdbff]"
  using js_sub_string_correct [OF example_string_at example_cache_ok example_empty_ok, of 2 6]
  by (auto simp: example_utf16)

theorem JS_ConcatString_correct_witness:
  "case JS_ConcatString example_ctx (Inr (StringChar 0xd801)) (Inr (StringChar 0xdc00)) of
      Inl e \<Rightarrow> False
    | Inr (v, ctx') \<Rightarrow> \<exists>cps. string_at ctx' v cps \<and> utf16 cps = [0xd801, 0xdc00]"
proof -
  have "string_at example_ctx (StringChar 0xd801) [0xd801]" "string_at example_ctx (StringChar 0xdc00) [0xdc00]"
    using new_char_string_at by (simp_all add: JS_NewStringChar_def [symmetric])
  from JS_ConcatString_correct [OF this example_empty_ok] show ?thesis
    by (auto simp: JS_BYTE_ARRAY_SIZE_MAX_def JS_STRING_LEN_MAX_def js_malloc_size_def JSW_def sizeof_JSByteArray_def
        unicode_to_utf8_def unicode_to_utf8_slow_def example_ctx_def utf16_units_def split: sum.splits)
qed

theorem string_buffer_concat_utf16_correct_witness:
  "\<exists>r. r = string_buffer_concat_utf16 example_ctx \<lparr>buffer_val = SBString (StringChar 66), sb_len = 0, sb_is_ascii = True\<rparr>
         (StringPtr 1) 0 2 \<and>
     ((\<exists>e. buffer_val (fst r) = SBException e) \<or> (\<exists>cps'. buf_at (snd r) (fst r) cps' \<and> utf16 cps' = [66, 65, 0xd801]))"
proof -
  have "string_at example_ctx (StringChar 66) [66]"
    using new_char_string_at [of 66 example_ctx] by (simp add: JS_NewStringChar_def)
  then have "buf_at example_ctx \<lparr>buffer_val = SBString (StringChar 66), sb_len = 0, sb_is_ascii = True\<rparr> [66]"
    by (simp add: buf_at_def)
  from string_buffer_concat_utf16_correct [OF example_string_at example_cache_ok this, of 0 2]
  show ?thesis by (auto simp: example_utf16 utf16_units_def)
qed

end
