(* ===== verification/JSArrays.thy ===== *)
theory JSArrays
  imports JSStringBuf
begin

section \<open>Value arrays\<close>

text \<open>
  Models \<open>js_alloc_value_array\<close> and \<open>js_resize_value_array2\<close> of
  \<^verbatim>\<open>mquickjs.c\<close>.  An array is the list of its slots, so its size is the list's length;
  \<open>undef\<close> is the value new slots are filled with (\<^verbatim>\<open>JS_UNDEFINED\<close>) and
  \<open>mem\<close> the free memory, as in \<open>strctx\<close>.
\<close>

definition JS_VALUE_ARRAY_SIZE_MAX :: nat where
  "JS_VALUE_ARRAY_SIZE_MAX = 2 ^ (32 - 4) - 1"

definition sizeof_JSValue :: nat where
  "sizeof_JSValue = 8"

definition sizeof_JSValueArray :: nat where
  "sizeof_JSValueArray = 8"

definition js_alloc_value_array :: "nat \<Rightarrow> 'a \<Rightarrow> nat \<Rightarrow> js_error + 'a list \<times> nat" where
  "js_alloc_value_array mem undef new_size =
     (if new_size > JS_VALUE_ARRAY_SIZE_MAX then Inl OutOfMemory
      else let n = js_malloc_size (sizeof_JSValueArray + new_size * sizeof_JSValue)
           in if mem < n then Inl OutOfMemory
              else Inr (replicate new_size undef, mem - n))"

definition resize_target :: "nat \<Rightarrow> nat \<Rightarrow> nat \<Rightarrow> nat" where
  "resize_target old_size new_size prop_base =
     (let new_size1 = old_size + old_size div 2;
          n = (if new_size1 > new_size then
                 (if prop_base \<noteq> 0 then
                    (let align = (new_size1 - prop_base) mod 3
                     in if align \<noteq> 0 then new_size1 + (3 - align) else new_size1)
                  else new_size1)
               else new_size)
      in nat (max_int (int n) (int (old_size + old_size div 2))))"

definition js_resize_value_array2 ::
    "nat \<Rightarrow> 'a \<Rightarrow> 'a list option \<Rightarrow> nat \<Rightarrow> nat \<Rightarrow> js_error + 'a list option \<times> nat" where
  "js_resize_value_array2 mem undef val new_size prop_base =
     (let slots = (case val of None \<Rightarrow> [] | Some a \<Rightarrow> a); old_size = length slots
      in if new_size > old_size then
           (case js_alloc_value_array mem undef (resize_target old_size new_size prop_base) of
              Inl e \<Rightarrow> Inl e
            | Inr r \<Rightarrow> Inr (Some (if old_size > 0 then slots @ drop old_size (fst r) else fst r), snd r))
         else Inr (val, mem))"

definition js_resize_value_array ::
    "nat \<Rightarrow> 'a \<Rightarrow> 'a list option \<Rightarrow> nat \<Rightarrow> js_error + 'a list option \<times> nat" where
  "js_resize_value_array mem undef val new_size = js_resize_value_array2 mem undef val new_size 0"

lemma nat_max_int: "nat (max_int (int m) (int n)) = max m n"
  by (simp add: max_int_def)

lemma resize_target_ge: "new_size \<le> resize_target old_size new_size prop_base"
  "old_size + old_size div 2 \<le> resize_target old_size new_size prop_base"
  by (auto simp: resize_target_def max_int_def Let_def)

lemma resize_target_eq:
  "resize_target old new base =
     (if old + old div 2 > new then
        (if base = 0 \<or> (old + old div 2 - base) mod 3 = 0 then old + old div 2
         else old + old div 2 + (3 - (old + old div 2 - base) mod 3))
      else new)"
  unfolding resize_target_def Let_def nat_max_int by auto

text \<open>Property arrays keep a number of property slots that is a multiple of three.\<close>

lemma mod_3_round:
  fixes n :: nat
  assumes "n mod 3 \<noteq> 0"
  shows "(n + (3 - n mod 3)) mod 3 = 0"
proof -
  have "n = 3 * (n div 3) + n mod 3" by simp
  moreover have "n mod 3 < 3" by simp
  ultimately have "n + (3 - n mod 3) = 3 * (n div 3) + 3" by linarith
  then show ?thesis by simp
qed

lemma resize_target_aligned:
  assumes "base \<noteq> 0" "base \<le> new" "(new - base) mod 3 = 0"
  shows "(resize_target old new base - base) mod 3 = 0"
proof (cases "old + old div 2 > new \<and> (old + old div 2 - base) mod 3 \<noteq> 0")
  case True
  define n where "n = old + old div 2 - base"
  have "resize_target old new base - base = n + (3 - n mod 3)"
    using True assms by (simp add: resize_target_eq n_def ac_simps)
  then show ?thesis using mod_3_round [of n] True by (simp add: n_def)
next
  case False
  then show ?thesis using assms by (auto simp: resize_target_eq)
qed

lemma resize_value_array2_correct:
  assumes "js_resize_value_array2 mem undef val new_size base = Inr (val', mem')"
  defines "old \<equiv> (case val of None \<Rightarrow> [] | Some a \<Rightarrow> a)"
  shows "\<exists>n. (case val' of None \<Rightarrow> [] | Some a \<Rightarrow> a) = old @ replicate n undef \<and>
    new_size \<le> length old + n \<and>
    (length old < new_size \<longrightarrow> length old + n = resize_target (length old) new_size base) \<and>
    (new_size \<le> length old \<longrightarrow> val' = val)"
proof (cases "length old < new_size")
  case False
  then show ?thesis using assms
    by (intro exI [of _ 0]) (auto simp: js_resize_value_array2_def Let_def)
next
  case True
  let ?t = "resize_target (length old) new_size base"
  have t: "length old \<le> ?t" "new_size \<le> ?t" using resize_target_ge [of new_size "length old" base] True by auto
  have "val' = Some (old @ replicate (?t - length old) undef)"
    using assms(1) True t
    by (auto simp: js_resize_value_array2_def js_alloc_value_array_def Let_def old_def
        split: if_splits sum.splits)
  then show ?thesis using t True by (intro exI [of _ "?t - length old"]) simp
qed

end
