(* ===== verification/Atoms.thy ===== *)
theory Atoms
  imports JSArrays
begin

section \<open>Unique strings (atoms)\<close>

text \<open>
  Models \<open>find_atom\<close>, \<open>js_is_numeric_string\<close> and \<open>JS_MakeUniqueString\<close> of
  \<^verbatim>\<open>mquickjs.c\<close>.  A string used as a property name is interned: at most one string
  block with given contents is flagged \<open>is_unique\<close>, and property lookup compares
  addresses.  The tables (read-only ones loaded with the code and one in memory) are sorted arrays
  searched by bisection.

  \<open>canon\<close> stands for the decimal conversion of the number library: the text that
  \<^verbatim>\<open>js_dtoa\<close> prints for the number \<^verbatim>\<open>js_atod\<close> reads from a string, if
  it reads all of it.

  The memory table is weak: a collection removes the entries whose strings are not marked.  The allocation of
  \<open>js_is_numeric_string\<close> may run one between the search of the table and the insertion; \<open>gc\<close> says whether it
  does and which strings it marks.
\<close>

subsection \<open>Bisection over a comparison function\<close>

function bsearch :: "('a \<Rightarrow> 'a \<Rightarrow> int) \<Rightarrow> 'a list \<Rightarrow> 'a \<Rightarrow> int \<Rightarrow> int \<Rightarrow> bool \<times> nat" where
  "bsearch cmp xs x a b =
     (if a \<le> b then
        (let m = (a + b) div 2; r = cmp x (xs ! nat m)
         in if r = 0 then (True, nat m)
            else if r < 0 then bsearch cmp xs x a (m - 1)
            else bsearch cmp xs x (m + 1) b)
      else (False, nat a))"
  by pat_completeness auto
termination
  by (relation "measure (\<lambda>(cmp, xs, x, a, b). nat (b - a + 1))") auto

declare bsearch.simps [simp del]

text \<open>What the search needs of the comparison, on the values of a domain.\<close>

locale comparator =
  fixes cmp :: "'a \<Rightarrow> 'a \<Rightarrow> int" and dm :: "'a \<Rightarrow> bool"
  assumes cmp_eq: "dm x \<Longrightarrow> dm y \<Longrightarrow> cmp x y = 0 \<longleftrightarrow> x = y"
    and cmp_anti: "dm x \<Longrightarrow> dm y \<Longrightarrow> cmp x y < 0 \<longleftrightarrow> 0 < cmp y x"
    and cmp_trans: "dm x \<Longrightarrow> dm y \<Longrightarrow> dm z \<Longrightarrow> cmp x y < 0 \<Longrightarrow> cmp y z < 0 \<Longrightarrow> cmp x z < 0"
begin

lemma bsearch_sound:
  assumes "list_all dm xs" "dm x" "sorted_wrt (\<lambda>x y. cmp x y < 0) xs" "0 \<le> a" "b < int (length xs)" "a \<le> b + 1"
    and "\<forall>i < nat a. cmp (xs ! i) x < 0" "\<forall>i < length xs. b < int i \<longrightarrow> cmp x (xs ! i) < 0"
  shows "case bsearch cmp xs x a b of
      (True, m) \<Rightarrow> m < length xs \<and> xs ! m = x
    | (False, k) \<Rightarrow> k \<le> length xs \<and> (\<forall>i < k. cmp (xs ! i) x < 0) \<and> (\<forall>i < length xs. k \<le> i \<longrightarrow> cmp x (xs ! i) < 0)"
  using assms(4-)
proof (induction "nat (b - a + 1)" arbitrary: a b rule: less_induct)
  case less
  show ?case
  proof (cases "a \<le> b")
    case False
    then have "a = b + 1" using less.prems by simp
    then show ?thesis using less.prems False by (subst bsearch.simps) (auto simp: nat_le_iff)
  next
    case True
    define m where "m = (a + b) div 2"
    have m: "a \<le> m" "m \<le> b" "0 \<le> m" "nat m < length xs" using True less.prems by (auto simp: m_def)
    define y where "y = xs ! nat m"
    have y: "dm y" using assms(1) m(4) by (simp add: y_def list_all_length)
    have lo: "cmp (xs ! i) y < 0" if "i < nat m" for i
      using assms(3) that m(4) by (simp add: sorted_wrt_iff_nth_less y_def)
    have hi: "cmp y (xs ! i) < 0" if "nat m < i" "i < length xs" for i
      using assms(3) that by (simp add: sorted_wrt_iff_nth_less y_def)
    have dmi: "dm (xs ! i)" if "i < length xs" for i using assms(1) that by (simp add: list_all_length)
    consider "cmp x y = 0" | "cmp x y < 0" | "0 < cmp x y" by linarith
    then show ?thesis
    proof cases
      case 1
      then have "x = y" using cmp_eq assms(2) y by blast
      then show ?thesis using True 1 m by (subst bsearch.simps) (simp add: m_def [symmetric] y_def Let_def)
    next
      case 2
      have "\<forall>i < length xs. m - 1 < int i \<longrightarrow> cmp x (xs ! i) < 0"
      proof (intro allI impI)
        fix i assume i: "i < length xs" "m - 1 < int i"
        show "cmp x (xs ! i) < 0"
        proof (cases "i = nat m")
          case True then show ?thesis using 2 by (simp add: y_def)
        next
          case False
          then have "cmp y (xs ! i) < 0" using hi i m by auto
          then show ?thesis using cmp_trans [OF assms(2) y dmi] 2 i by blast
        qed
      qed
      then have "case bsearch cmp xs x a (m - 1) of (True, m) \<Rightarrow> m < length xs \<and> xs ! m = x
        | (False, k) \<Rightarrow> k \<le> length xs \<and> (\<forall>i < k. cmp (xs ! i) x < 0) \<and> (\<forall>i < length xs. k \<le> i \<longrightarrow> cmp x (xs ! i) < 0)"
        using less.prems m True by (intro less.hyps) auto
      moreover have "bsearch cmp xs x a b = bsearch cmp xs x a (m - 1)"
        using True 2 by (subst bsearch.simps) (simp add: m_def [symmetric] y_def Let_def)
      ultimately show ?thesis by simp
    next
      case 3
      then have yx: "cmp y x < 0" using cmp_anti y assms(2) by blast
      have "\<forall>i < nat (m + 1). cmp (xs ! i) x < 0"
      proof (intro allI impI)
        fix i assume i: "i < nat (m + 1)"
        show "cmp (xs ! i) x < 0"
        proof (cases "i = nat m")
          case True then show ?thesis using yx by (simp add: y_def)
        next
          case False
          then have "cmp (xs ! i) y < 0" using lo i m by auto
          then show ?thesis using cmp_trans [OF dmi y assms(2)] yx i m by auto
        qed
      qed
      then have "case bsearch cmp xs x (m + 1) b of (True, m) \<Rightarrow> m < length xs \<and> xs ! m = x
        | (False, k) \<Rightarrow> k \<le> length xs \<and> (\<forall>i < k. cmp (xs ! i) x < 0) \<and> (\<forall>i < length xs. k \<le> i \<longrightarrow> cmp x (xs ! i) < 0)"
        using less.prems m True by (intro less.hyps) auto
      moreover have "bsearch cmp xs x a b = bsearch cmp xs x (m + 1) b"
        using True 3 by (subst bsearch.simps) (simp add: m_def [symmetric] y_def Let_def)
      ultimately show ?thesis by simp
    qed
  qed
qed

lemma bsearch_correct:
  assumes "list_all dm xs" "dm x" "sorted_wrt (\<lambda>x y. cmp x y < 0) xs"
  shows "case bsearch cmp xs x 0 (int (length xs) - 1) of
      (True, m) \<Rightarrow> m < length xs \<and> xs ! m = x
    | (False, k) \<Rightarrow> k \<le> length xs \<and> x \<notin> set xs \<and>
        sorted_wrt (\<lambda>x y. cmp x y < 0) (take k xs @ x # drop k xs)"
proof -
  have s: "case bsearch cmp xs x 0 (int (length xs) - 1) of
      (True, m) \<Rightarrow> m < length xs \<and> xs ! m = x
    | (False, k) \<Rightarrow> k \<le> length xs \<and> (\<forall>i < k. cmp (xs ! i) x < 0) \<and> (\<forall>i < length xs. k \<le> i \<longrightarrow> cmp x (xs ! i) < 0)"
    by (rule bsearch_sound [OF assms]) auto
  show ?thesis
  proof (cases "bsearch cmp xs x 0 (int (length xs) - 1)")
    case (Pair f k)
    show ?thesis
    proof (cases f)
      case True
      then show ?thesis using s Pair by simp
    next
      case False
      then have k: "k \<le> length xs" "\<And>i. i < k \<Longrightarrow> cmp (xs ! i) x < 0"
        "\<And>i. i < length xs \<Longrightarrow> k \<le> i \<Longrightarrow> cmp x (xs ! i) < 0"
        using s Pair by auto
      have "cmp x x = 0" using cmp_eq assms(2) by blast
      then have "x \<noteq> xs ! i" if "i < length xs" for i using k(2,3) that by (metis less_irrefl linorder_not_less)
      then have nin: "x \<notin> set xs" by (metis in_set_conv_nth)
      have parts: "sorted_wrt (\<lambda>x y. cmp x y < 0) (take k xs @ drop k xs)" using assms(3) by simp
      have tk: "cmp u x < 0" if "u \<in> set (take k xs)" for u
        using that k(1,2) by (auto simp: in_set_conv_nth)
      have dk: "cmp x u < 0" if "u \<in> set (drop k xs)" for u
        using that k(1,3) by (auto simp: in_set_conv_nth)
      have "sorted_wrt (\<lambda>x y. cmp x y < 0) (take k xs @ x # drop k xs)"
        using parts tk dk unfolding sorted_wrt_append by auto
      then show ?thesis using False Pair k(1) nin by simp
    qed
  qed
qed

end

text \<open>The order of engine strings is such a comparison.\<close>

lemma lexordp_trans_keys:
  fixes xs ys zs :: "nat list"
  shows "ord_class.lexordp xs ys \<Longrightarrow> ord_class.lexordp ys zs \<Longrightarrow> ord_class.lexordp xs zs"
  by (rule lexordp_trans)

lemma map_cp_key_inj: "cps_ok xs \<Longrightarrow> cps_ok ys \<Longrightarrow> map cp_key xs = map cp_key ys \<Longrightarrow> xs = ys"
proof (induction xs arbitrary: ys)
  case (Cons c cs)
  then show ?case using cp_key_inj by (cases ys) auto
qed simp

interpretation string_order: comparator cps_compare cps_ok
proof
  fix x y z :: "nat list"
  assume x: "cps_ok x" and y: "cps_ok y"
  show "cps_compare x y = 0 \<longleftrightarrow> x = y" using x y by (simp add: cps_compare_keys)
  show "cps_compare x y < 0 \<longleftrightarrow> 0 < cps_compare y x"
    using x y map_cp_key_inj [OF x y] lexordp_linear [of "map cp_key x" "map cp_key y"]
      lexordp_antisym [of "map cp_key x" "map cp_key y"]
    by (auto simp: cps_compare_keys)
  assume z: "cps_ok z" and "cps_compare x y < 0" "cps_compare y z < 0"
  then show "cps_compare x z < 0"
    using x y lexordp_trans [of "map cp_key x" "map cp_key y" "map cp_key z"] lexordp_irreflexive'
    by (auto simp: cps_compare_keys split: if_splits)
qed


subsection \<open>Operations\<close>

record atomctx =
  str :: strctx
  rom_atom_tables :: "strval option list option list"
  unique_strings :: "strval option list option"
  unique_strings_len :: nat

function find_atom_loop ::
    "strctx \<Rightarrow> strval option list \<Rightarrow> strval \<Rightarrow> int \<Rightarrow> int \<Rightarrow> strval option \<times> nat" where
  "find_atom_loop ctx arr val a b =
     (if a \<le> b then
        (let m = (a + b) div 2; val1 = arr ! nat m; r = js_string_compare ctx val (the val1)
         in if r = 0 then (val1, nat m)
            else if r < 0 then find_atom_loop ctx arr val a (m - 1)
            else find_atom_loop ctx arr val (m + 1) b)
      else (None, nat a))"
  by pat_completeness auto
termination
  by (relation "measure (\<lambda>(ctx, arr, val, a, b). nat (b - a + 1))") auto

declare find_atom_loop.simps [simp del]

definition find_atom :: "strctx \<Rightarrow> strval option list \<Rightarrow> nat \<Rightarrow> strval \<Rightarrow> strval option \<times> nat" where
  "find_atom ctx arr len val = find_atom_loop ctx arr val 0 (int len - 1)"

definition is_num :: "nat \<Rightarrow> bool" where
  "is_num c \<longleftrightarrow> c \<ge> 48 \<and> c \<le> 57"

definition sizeof_JSATODTempMem :: nat where
  "sizeof_JSATODTempMem = 27 * 8"

definition sizeof_JSDTOATempMem :: nat where
  "sizeof_JSDTOATempMem = 37 * 8"

definition starts_numeric :: "JSString \<Rightarrow> bool" where
  "starts_numeric p =
     (let q = buf p
      in if length q = 0 \<or> \<not> is_ascii p then False
         else if q ! 0 = 45 \<and> length q = 1 then False
         else is_num (if q ! 0 = 45 then q ! 1 else q ! 0))"

definition js_is_numeric_string :: "(bytes \<Rightarrow> bytes option) \<Rightarrow> strctx \<Rightarrow> nat \<Rightarrow> js_error + bool" where
  "js_is_numeric_string canon ctx a =
     (let p = heap ctx ! a
      in if \<not> starts_numeric p then Inr False
         else case js_alloc_byte_array ctx (nat (max_int (int sizeof_JSATODTempMem) (int sizeof_JSDTOATempMem))) of
                Inl e \<Rightarrow> Inl e
              | Inr r \<Rightarrow> Inr (canon (buf p) = Some (buf p)))"

text \<open>The update of the weak table by a collection that marks the strings \<open>marked\<close>, if there is one: the marked entries move
  together, and the rest of the array (dead entries and unused slots) is given up.  Blocks of dead strings are not referred
  to any more and stay in the model's heap.\<close>

definition collect_atoms :: "(strval \<Rightarrow> bool) option \<Rightarrow> atomctx \<Rightarrow> atomctx" where
  "collect_atoms gc ctx =
     (case gc of None \<Rightarrow> ctx
      | Some marked \<Rightarrow>
          (case unique_strings ctx of None \<Rightarrow> ctx
           | Some arr \<Rightarrow>
               let arr' = filter (\<lambda>v. case v of None \<Rightarrow> False | Some s \<Rightarrow> marked s) arr
               in ctx\<lparr>unique_strings_len := length arr', unique_strings := (if arr' = [] then None else Some arr')\<rparr>))"

fun find_rom :: "strctx \<Rightarrow> strval option list option list \<Rightarrow> strval \<Rightarrow> strval option" where
  "find_rom ctx [] val = None"
| "find_rom ctx (None # tabs) val = find_rom ctx tabs val"
| "find_rom ctx (Some arr1 # tabs) val =
     (case fst (find_atom ctx arr1 (length arr1) val) of Some v \<Rightarrow> Some v | None \<Rightarrow> find_rom ctx tabs val)"

text \<open>The index \<open>a\<close> found before the allocation is used after it.  When it is past the table by then, the size of the
  \<^verbatim>\<open>memmove\<close> is negative.\<close>

definition JS_MakeUniqueString ::
    "(bytes \<Rightarrow> bytes option) \<Rightarrow> (strval \<Rightarrow> bool) option \<Rightarrow> atomctx \<Rightarrow> strval \<Rightarrow> js_error + strval \<times> atomctx" where
  "JS_MakeUniqueString canon gc ctx val =
     (case val of
        StringChar c \<Rightarrow> Inr (val, ctx)
      | StringPtr p \<Rightarrow>
          if is_unique (heap (str ctx) ! p) then Inr (val, ctx)
          else case find_rom (str ctx) (rom_atom_tables ctx) val of
            Some v \<Rightarrow> Inr (v, ctx)
          | None \<Rightarrow>
              let arr = (case unique_strings ctx of None \<Rightarrow> [] | Some t \<Rightarrow> t);
                  r = find_atom (str ctx) arr (unique_strings_len ctx) val; a = snd r
              in case fst r of
                   Some v \<Rightarrow> Inr (v, ctx)
                 | None \<Rightarrow>
                     case js_is_numeric_string canon (str ctx) p of
                       Inl e \<Rightarrow> Inl e
                     | Inr numeric \<Rightarrow>
                         let ctx1 = (if starts_numeric (heap (str ctx) ! p) then collect_atoms gc ctx else ctx);
                             len = unique_strings_len ctx1
                         in case js_resize_value_array (mem_free (str ctx1)) None (unique_strings ctx1) (len + 1) of
                           Inl e \<Rightarrow> Inl e
                         | Inr nt \<Rightarrow>
                             if a > len then Inl InvalidStore
                             else
                             let arr1 = (case fst nt of None \<Rightarrow> [] | Some t \<Rightarrow> t);
                                 arr2 = take a arr1 @ Some val # take (len - a) (drop a arr1) @ drop (len + 1) arr1;
                                 h = heap (str ctx1)
                             in Inr (val, ctx1\<lparr>unique_strings := Some arr2, unique_strings_len := len + 1,
                                   str := (str ctx1)\<lparr>mem_free := snd nt,
                                     heap := h[p := (h ! p)\<lparr>is_unique := True, is_numeric := numeric\<rparr>]\<rparr>\<rparr>))"

subsection \<open>Specification\<close>

definition content :: "strctx \<Rightarrow> strval \<Rightarrow> nat list" where
  "content ctx v = (SOME cps. string_at ctx v cps)"

definition str_ok :: "strctx \<Rightarrow> strval \<Rightarrow> bool" where
  "str_ok ctx v \<longleftrightarrow> (\<exists>cps. string_at ctx v cps)"

lemma content_eq: "string_at ctx v cps \<Longrightarrow> content ctx v = cps"
proof -
  assume a: "string_at ctx v cps"
  then have "string_at ctx v (content ctx v)" unfolding content_def by (rule someI)
  with a have "encode (content ctx v) = encode cps" "cps_ok (content ctx v)" "cps_ok cps"
    by (simp_all add: string_at_def)
  then show ?thesis using encode_inj by blast
qed

lemma content_at: "str_ok ctx v \<Longrightarrow> string_at ctx v (content ctx v)"
  unfolding str_ok_def content_def by (metis someI)

lemma content_ok: "str_ok ctx v \<Longrightarrow> cps_ok (content ctx v)"
  using content_at by (auto simp: string_at_def)

definition ram_atoms :: "atomctx \<Rightarrow> strval list" where
  "ram_atoms ctx = map the (take (unique_strings_len ctx) (case unique_strings ctx of None \<Rightarrow> [] | Some t \<Rightarrow> t))"

fun rom_atoms :: "strval option list option list \<Rightarrow> strval list" where
  "rom_atoms [] = []"
| "rom_atoms (None # ts) = rom_atoms ts"
| "rom_atoms (Some t # ts) = map the t @ rom_atoms ts"

definition all_atoms :: "atomctx \<Rightarrow> strval list" where
  "all_atoms ctx = rom_atoms (rom_atom_tables ctx) @ ram_atoms ctx"

definition table_ok :: "strctx \<Rightarrow> strval option list \<Rightarrow> bool" where
  "table_ok ctx t \<longleftrightarrow> list_all (\<lambda>v. v \<noteq> None \<and> str_ok ctx (the v)) t \<and>
     sorted_wrt (\<lambda>x y. cps_compare x y < 0) (map (content ctx \<circ> the) t)"

definition atoms_ok :: "atomctx \<Rightarrow> bool" where
  "atoms_ok ctx \<longleftrightarrow>
     (\<forall>a < length (heap (str ctx)). str_ok (str ctx) (StringPtr a)) \<and>
     (\<forall>t \<in> set (rom_atom_tables ctx). t \<noteq> None \<longrightarrow> table_ok (str ctx) (the t)) \<and>
     unique_strings_len ctx \<le> length (case unique_strings ctx of None \<Rightarrow> [] | Some t \<Rightarrow> t) \<and>
     table_ok (str ctx) (take (unique_strings_len ctx) (case unique_strings ctx of None \<Rightarrow> [] | Some t \<Rightarrow> t)) \<and>
     set (drop (unique_strings_len ctx) (case unique_strings ctx of None \<Rightarrow> [] | Some t \<Rightarrow> t)) \<subseteq> {None} \<and>
     distinct (map (content (str ctx)) (all_atoms ctx)) \<and>
     (\<forall>a < length (heap (str ctx)). is_unique (heap (str ctx) ! a) \<longleftrightarrow>
        StringPtr a \<in> set (all_atoms ctx))"

subsection \<open>Bisection on the tables\<close>

lemma find_atom_loop_bsearch:
  assumes "table_ok ctx (take len arr)" "len \<le> length arr" "str_ok ctx val" "0 \<le> a" "b < int len"
  shows "find_atom_loop ctx arr val a b =
    (case bsearch cps_compare (map (content ctx \<circ> the) (take len arr)) (content ctx val) a b of
       (True, m) \<Rightarrow> (arr ! m, m) | (False, k) \<Rightarrow> (None, k))"
  using assms
proof (induction ctx arr val a b rule: find_atom_loop.induct)
  case (1 ctx arr val a b)
  show ?case
  proof (cases "a \<le> b")
    case False
    then show ?thesis by (simp add: find_atom_loop.simps [of ctx arr val a b] bsearch.simps [of _ _ _ a b])
  next
    case True
    define m where "m = (a + b) div 2"
    have m: "0 \<le> m" "m \<le> b" "nat m < len" using True 1 by (auto simp: m_def)
    have "str_ok ctx (the (arr ! nat m))" using "1.prems"(1,2) m by (simp add: table_ok_def list_all_length)
    then have r: "js_string_compare ctx val (the (arr ! nat m)) =
        cps_compare (content ctx val) (map (content ctx \<circ> the) (take len arr) ! nat m)"
      using js_string_compare_cps [OF content_at content_at] "1.prems" m by simp
    let ?r = "cps_compare (content ctx val) (map (content ctx \<circ> the) (take len arr) ! nat m)"
    have s1: "find_atom_loop ctx arr val a b = (if ?r = 0 then (arr ! nat m, nat m)
        else if ?r < 0 then find_atom_loop ctx arr val a (m - 1) else find_atom_loop ctx arr val (m + 1) b)"
      using True by (subst find_atom_loop.simps) (simp only: r [symmetric] m_def [symmetric] Let_def if_True)
    have s2: "bsearch cps_compare (map (content ctx \<circ> the) (take len arr)) (content ctx val) a b =
       (if ?r = 0 then (True, nat m)
        else if ?r < 0 then bsearch cps_compare (map (content ctx \<circ> the) (take len arr)) (content ctx val) a (m - 1)
        else bsearch cps_compare (map (content ctx \<circ> the) (take len arr)) (content ctx val) (m + 1) b)"
      using True by (subst bsearch.simps) (simp only: m_def [symmetric] Let_def if_True)
    have i1: "find_atom_loop ctx arr val a (m - 1) =
      (case bsearch cps_compare (map (content ctx \<circ> the) (take len arr)) (content ctx val) a (m - 1) of
       (True, m) \<Rightarrow> (arr ! m, m) | (False, k) \<Rightarrow> (None, k))" if "?r < 0"
      using "1.IH"(1) [OF True m_def refl refl] that r "1.prems" m by (simp add: comp_def)
    have i2: "find_atom_loop ctx arr val (m + 1) b =
      (case bsearch cps_compare (map (content ctx \<circ> the) (take len arr)) (content ctx val) (m + 1) b of
       (True, m) \<Rightarrow> (arr ! m, m) | (False, k) \<Rightarrow> (None, k))" if "\<not> ?r < 0" "?r \<noteq> 0"
      using "1.IH"(2) [OF True m_def refl refl] that r "1.prems" m by (simp add: comp_def)
    show ?thesis
    proof (cases "?r = 0")
      case True
      then show ?thesis unfolding s1 s2 by simp
    next
      case ne: False
      show ?thesis
      proof (cases "?r < 0")
        case True
        show ?thesis unfolding s1 s2 if_not_P [OF ne] if_P [OF True] by (rule i1 [OF True])
      next
        case False
        show ?thesis unfolding s1 s2 if_not_P [OF ne] if_not_P [OF False] by (rule i2 [OF False ne])
      qed
    qed
  qed
qed

lemma find_atom_correct:
  assumes t: "table_ok ctx (take len arr)" and l: "len \<le> length arr" and v: "str_ok ctx val"
  shows "case find_atom ctx arr len val of
      (Some u, m) \<Rightarrow> Some u \<in> set (take len arr) \<and> content ctx u = content ctx val
    | (None, k) \<Rightarrow> k \<le> len \<and> content ctx val \<notin> content ctx ` the ` set (take len arr) \<and>
        sorted_wrt (\<lambda>x y. cps_compare x y < 0)
          (map (content ctx \<circ> the) (take k (take len arr) @ Some val # drop k (take len arr)))"
proof -
  define xs where "xs = map (content ctx \<circ> the) (take len arr)"
  have len: "length xs = len" using l by (simp add: xs_def)
  have ok: "list_all cps_ok xs" "sorted_wrt (\<lambda>x y. cps_compare x y < 0) xs"
    using t content_ok by (auto simp: xs_def table_ok_def list_all_iff)
  have f: "find_atom ctx arr len val = (case bsearch cps_compare xs (content ctx val) 0 (int len - 1) of
       (True, m) \<Rightarrow> (arr ! m, m) | (False, k) \<Rightarrow> (None, k))"
    unfolding find_atom_def xs_def by (rule find_atom_loop_bsearch [OF t l v]) auto
  note s = string_order.bsearch_correct [OF ok(1) content_ok [OF v] ok(2), unfolded len]
  show ?thesis
  proof (cases "bsearch cps_compare xs (content ctx val) 0 (int len - 1)")
    case (Pair found m)
    show ?thesis
    proof (cases found)
      case True
      then have m: "m < len" "xs ! m = content ctx val" using s Pair by simp_all
      have "Some (the (arr ! m)) = arr ! m" using t m(1) l by (auto simp: table_ok_def list_all_length)
      moreover have "arr ! m \<in> set (take len arr)" using m(1) l by (metis length_take min.absorb2 nth_mem nth_take)
      moreover have "content ctx (the (arr ! m)) = content ctx val" using m l by (simp add: xs_def)
      ultimately show ?thesis using f Pair True by (auto split: option.split)
    next
      case False
      then have "m \<le> len" "content ctx val \<notin> set xs"
        "sorted_wrt (\<lambda>x y. cps_compare x y < 0) (take m xs @ content ctx val # drop m xs)"
        using s Pair by simp_all
      then show ?thesis using f Pair False by (simp add: xs_def take_map drop_map image_comp)
    qed
  qed
qed


lemma find_rom_correct:
  assumes "\<forall>t \<in> set tabs. t \<noteq> None \<longrightarrow> table_ok ctx (the t)" "str_ok ctx val"
  shows "case find_rom ctx tabs val of
      Some u \<Rightarrow> u \<in> set (rom_atoms tabs) \<and> content ctx u = content ctx val
    | None \<Rightarrow> content ctx val \<notin> content ctx ` set (rom_atoms tabs)"
  using assms
proof (induction ctx tabs val rule: find_rom.induct)
  case (3 ctx t tabs val)
  then have "table_ok ctx (take (length t) t)" by simp
  note f = find_atom_correct [OF this order_refl "3.prems"(2)]
  show ?case
  proof (cases "find_atom ctx t (length t) val")
    case (Pair r k)
    show ?thesis
    proof (cases r)
      case None
      then have "content ctx val \<notin> content ctx ` the ` set t" using f Pair by simp
      then show ?thesis using 3 None Pair by (auto split: option.splits)
    next
      case (Some u)
      then have "Some u \<in> set t" "content ctx u = content ctx val" using f Pair by simp_all
      then show ?thesis using Some Pair by (force intro: rev_image_eqI)
    qed
  qed
qed (auto split: option.splits)

text \<open>Setting the flags of a block changes no contents.\<close>

definition same_text :: "strctx \<Rightarrow> strctx \<Rightarrow> bool" where
  "same_text ctx ctx' \<longleftrightarrow> length (heap ctx') = length (heap ctx) \<and>
     (\<forall>a < length (heap ctx). buf (heap ctx' ! a) = buf (heap ctx ! a) \<and> is_ascii (heap ctx' ! a) = is_ascii (heap ctx ! a))"

lemma same_text_string_at:
  assumes "same_text ctx ctx'"
  shows "string_at ctx' v cps \<longleftrightarrow> string_at ctx v cps"
  using assms by (cases v) (auto simp: string_at_def same_text_def val_ok_def get_string_ptr_def)

lemma same_text_content:
  assumes "same_text ctx ctx'"
  shows "content ctx' = content ctx" "str_ok ctx' = str_ok ctx" "table_ok ctx' = table_ok ctx"
proof -
  show c: "content ctx' = content ctx" "str_ok ctx' = str_ok ctx"
    unfolding content_def [abs_def] str_ok_def [abs_def] by (simp_all add: same_text_string_at [OF assms, abs_def])
  show "table_ok ctx' = table_ok ctx" by (simp add: table_ok_def c fun_eq_iff)
qed

text \<open>What a successful call does: it finds the atom with these contents, or makes the given block one.\<close>

definition interned :: "atomctx \<Rightarrow> strval \<Rightarrow> strval \<Rightarrow> atomctx \<Rightarrow> bool" where
  "interned ctx val v ctx' \<longleftrightarrow> atoms_ok ctx' \<and> same_text (str ctx) (str ctx') \<and>
     set (ram_atoms ctx') \<subseteq> insert val (set (ram_atoms ctx)) \<and>
     v \<in> set (all_atoms ctx') \<and> content (str ctx) v = content (str ctx) val \<and>
     (if content (str ctx) val \<in> content (str ctx) ` set (all_atoms ctx)
      then ctx' = ctx else set (all_atoms ctx') = insert val (set (all_atoms ctx)))"

lemma interned_found:
  assumes "atoms_ok ctx" "v \<in> set (all_atoms ctx)" "content (str ctx) v = content (str ctx) val"
  shows "interned ctx val v ctx"
  using assms by (auto simp: interned_def same_text_def) (metis image_eqI)

lemma resized_prefix:
  assumes "js_resize_value_array mem undef val n = Inr (val', mem')" "k \<le> length (case val of None \<Rightarrow> [] | Some t \<Rightarrow> t)"
  shows "take k (case val' of None \<Rightarrow> [] | Some t \<Rightarrow> t) = take k (case val of None \<Rightarrow> [] | Some t \<Rightarrow> t)"
    "n \<le> length (case val' of None \<Rightarrow> [] | Some t \<Rightarrow> t)"
    "set (drop k (case val' of None \<Rightarrow> [] | Some t \<Rightarrow> t)) \<subseteq> insert undef (set (drop k (case val of None \<Rightarrow> [] | Some t \<Rightarrow> t)))"
  using resize_value_array2_correct [OF assms(1) [unfolded js_resize_value_array_def]] assms(2) by auto

lemma insert_slot:
  assumes "a \<le> len" "len < length arr1"
  shows "take (len + 1) (take a arr1 @ x # take (len - a) (drop a arr1) @ drop (len + 1) arr1)
    = take a (take len arr1) @ x # drop a (take len arr1)"
    "length (take a arr1 @ x # take (len - a) (drop a arr1) @ drop (len + 1) arr1) = length arr1"
proof -
  have "drop a (take len arr1) = take (len - a) (drop a arr1)" by (simp add: drop_take)
  moreover have "take (len + 1) ((take a arr1 @ x # take (len - a) (drop a arr1)) @ drop (len + 1) arr1)
      = take a arr1 @ x # take (len - a) (drop a arr1)"
    by (subst take_append) (use assms in simp)
  ultimately show "take (len + 1) (take a arr1 @ x # take (len - a) (drop a arr1) @ drop (len + 1) arr1)
    = take a (take len arr1) @ x # drop a (take len arr1)" using assms by (simp add: min_def)
  show "length (take a arr1 @ x # take (len - a) (drop a arr1) @ drop (len + 1) arr1) = length arr1"
    using assms by simp
qed

lemma interned_new:
  assumes ok: "atoms_ok ctx" and p: "p < length (heap (str ctx))"
    and new: "content (str ctx) (StringPtr p) \<notin> content (str ctx) ` set (all_atoms ctx)"
    and tab: "tab = (case unique_strings ctx of None \<Rightarrow> [] | Some t \<Rightarrow> t)" and len: "len = unique_strings_len ctx"
    and k: "k \<le> len" "sorted_wrt (\<lambda>x y. cps_compare x y < 0) (map (content (str ctx) \<circ> the)
          (take k (take len tab) @ Some (StringPtr p) # drop k (take len tab)))"
    and arr2: "take (len + 1) arr2 = take k (take len tab) @ Some (StringPtr p) # drop k (take len tab)"
      "len + 1 \<le> length arr2" "set (drop (len + 1) arr2) \<subseteq> {None}"
    and ctx': "ctx' = ctx\<lparr>unique_strings := Some arr2, unique_strings_len := len + 1,
        str := (str ctx)\<lparr>mem_free := m, heap := (heap (str ctx))[p := (heap (str ctx) ! p)\<lparr>is_unique := True, is_numeric := num\<rparr>]\<rparr>\<rparr>"
  shows "interned ctx (StringPtr p) (StringPtr p) ctx'"
proof -
  have st: "same_text (str ctx) (str ctx')" using p by (auto simp: same_text_def ctx' nth_list_update)
  note same = same_text_content [OF st]
  have tl: "length (take len tab) = len" using ok by (simp add: atoms_ok_def tab len)
  have ram: "ram_atoms ctx = map the (take len tab)" by (simp add: ram_atoms_def tab len)
  have ram': "ram_atoms ctx' = take k (ram_atoms ctx) @ StringPtr p # drop k (ram_atoms ctx)"
    using arr2(1) unfolding ram by (simp add: ram_atoms_def ctx' take_map drop_map)
  have all': "set (all_atoms ctx') = insert (StringPtr p) (set (all_atoms ctx))"
    using ram' set_append [of "take k (ram_atoms ctx)" "drop k (ram_atoms ctx)"] by (auto simp: all_atoms_def ctx')
  have d: "distinct (map (content (str ctx)) (all_atoms ctx))" using ok by (simp add: atoms_ok_def)
  have rom': "rom_atom_tables ctx' = rom_atom_tables ctx" by (simp add: ctx')
  let ?ts = "take k (take len tab) @ Some (StringPtr p) # drop k (take len tab)"
  have stp: "str_ok (str ctx) (StringPtr p)" using ok p by (simp add: atoms_ok_def)
  have "list_all (\<lambda>v. v \<noteq> None \<and> str_ok (str ctx) (the v)) (take len tab)"
    using ok by (simp add: atoms_ok_def table_ok_def tab len)
  then have "list_all (\<lambda>v. v \<noteq> None \<and> str_ok (str ctx) (the v)) (take k (take len tab) @ drop k (take len tab))"
    by (simp only: append_take_drop_id)
  then have tok: "table_ok (str ctx) ?ts" using k(2) stp unfolding table_ok_def list_all_append by simp
  have "distinct (map (content (str ctx)) (all_atoms ctx'))"
  proof -
    let ?c = "content (str ctx)"
    let ?x = "map ?c (rom_atoms (rom_atom_tables ctx)) @ map ?c (take k (ram_atoms ctx))" and ?y = "map ?c (drop k (ram_atoms ctx))"
    have xy: "?x @ ?y = map ?c (all_atoms ctx)" by (simp add: all_atoms_def flip: map_append)
    have "?c (StringPtr p) \<notin> set (?x @ ?y)" unfolding xy using new by simp
    moreover have "distinct (?x @ ?y)" unfolding xy by (rule d)
    ultimately have "distinct (?x @ ?c (StringPtr p) # ?y)" by auto
    then show ?thesis by (simp add: all_atoms_def rom' ram')
  qed
  moreover have "is_unique (heap (str ctx') ! a) \<longleftrightarrow> StringPtr a \<in> set (all_atoms ctx')"
    if "a < length (heap (str ctx'))" for a
    using that ok p unfolding all' by (cases "a = p") (auto simp: ctx' atoms_ok_def)
  moreover have "unique_strings ctx' = Some arr2" "unique_strings_len ctx' = len + 1"
    "length (heap (str ctx')) = length (heap (str ctx))" by (simp_all add: ctx')
  ultimately have "atoms_ok ctx'"
    using ok arr2 tok unfolding atoms_ok_def same rom' by simp
  moreover have "set (ram_atoms ctx') \<subseteq> insert (StringPtr p) (set (ram_atoms ctx))"
    unfolding ram' by (auto dest: in_set_takeD in_set_dropD)
  ultimately show ?thesis using st all' new by (auto simp: interned_def)
qed

text \<open>A collection that marks every entry of the table changes nothing that matters.\<close>

definition keeps_atoms :: "(strval \<Rightarrow> bool) option \<Rightarrow> strval set \<Rightarrow> bool" where
  "keeps_atoms gc vs \<longleftrightarrow> (case gc of None \<Rightarrow> True | Some marked \<Rightarrow> \<forall>v \<in> vs. marked v)"

lemma collect_atoms_same [simp]: "str (collect_atoms gc ctx) = str ctx" "rom_atom_tables (collect_atoms gc ctx) = rom_atom_tables ctx"
  "(collect_atoms gc ctx)\<lparr>unique_strings := t, unique_strings_len := n, str := s\<rparr> = ctx\<lparr>unique_strings := t, unique_strings_len := n, str := s\<rparr>"
  by (auto simp: collect_atoms_def Let_def split: option.splits)

lemma collect_atoms_kept:
  assumes ok: "atoms_ok ctx" and keep: "keeps_atoms gc (set (ram_atoms ctx))"
  defines "tab \<equiv> (case unique_strings ctx of None \<Rightarrow> [] | Some t \<Rightarrow> t)"
  defines "tab' \<equiv> (case unique_strings (collect_atoms gc ctx) of None \<Rightarrow> [] | Some t \<Rightarrow> t)"
  shows "unique_strings_len (collect_atoms gc ctx) = unique_strings_len ctx \<and>
    take (unique_strings_len ctx) tab' = take (unique_strings_len ctx) tab \<and>
    unique_strings_len ctx \<le> length tab' \<and> set (drop (unique_strings_len ctx) tab') \<subseteq> {None}"
proof (cases "gc = None \<or> unique_strings ctx = None")
  case True
  then have "collect_atoms gc ctx = ctx" by (auto simp: collect_atoms_def split: option.splits)
  then show ?thesis using ok by (simp add: tab_def tab'_def atoms_ok_def)
next
  case False
  then obtain marked arr where g: "gc = Some marked" "unique_strings ctx = Some arr" by auto
  define len where "len = unique_strings_len ctx"
  define P where "P = (\<lambda>v. case v of None \<Rightarrow> False | Some s \<Rightarrow> marked s)"
  have a: "len \<le> length arr" "set (drop len arr) \<subseteq> {None}" "list_all (\<lambda>v. v \<noteq> None) (take len arr)"
    using ok g(2) by (auto simp: atoms_ok_def len_def table_ok_def list_all_iff)
  have "P v" if "v \<in> set (take len arr)" for v
  proof -
    obtain s where s: "v = Some s" using a(3) \<open>v \<in> set (take len arr)\<close> by (auto simp: list_all_iff)
    then have "s \<in> set (ram_atoms ctx)" using \<open>v \<in> set (take len arr)\<close> g(2) by (force simp: ram_atoms_def len_def)
    then show ?thesis using keep s g(1) by (simp add: P_def keeps_atoms_def)
  qed
  then have "filter P (take len arr) = take len arr" by (simp add: filter_id_conv)
  moreover have "filter P (drop len arr) = []" using a(2) by (auto simp: filter_empty_conv P_def)
  ultimately have f: "filter P arr = take len arr"
    using filter_append [of P "take len arr" "drop len arr"] by simp
  then have "collect_atoms gc ctx = ctx\<lparr>unique_strings_len := len, unique_strings := (if take len arr = [] then None else Some (take len arr))\<rparr>"
    using g a(1) by (simp add: collect_atoms_def P_def [symmetric] Let_def)
  then show ?thesis using a(1) g(2) by (auto simp: tab_def tab'_def len_def [symmetric])
qed

lemma make_unique_correct:
  assumes ok: "atoms_ok ctx" and p: "p < length (heap (str ctx))"
    and gc: "starts_numeric (heap (str ctx) ! p) \<Longrightarrow> keeps_atoms gc (set (ram_atoms ctx))"
    and run: "JS_MakeUniqueString canon gc ctx (StringPtr p) = Inr (v, ctx')"
  shows "interned ctx (StringPtr p) v ctx'"
proof (cases "is_unique (heap (str ctx) ! p)")
  case True
  then show ?thesis using run ok p
    by (auto simp: JS_MakeUniqueString_def atoms_ok_def intro!: interned_found)
next
  case nu: False
  have sp: "str_ok (str ctx) (StringPtr p)" using ok p by (simp add: atoms_ok_def)
  have rom: "\<forall>t \<in> set (rom_atom_tables ctx). t \<noteq> None \<longrightarrow> table_ok (str ctx) (the t)" using ok by (simp add: atoms_ok_def)
  note fr = find_rom_correct [OF rom sp]
  show ?thesis
  proof (cases "find_rom (str ctx) (rom_atom_tables ctx) (StringPtr p)")
    case (Some u)
    then show ?thesis using run nu fr ok
      by (auto simp: JS_MakeUniqueString_def all_atoms_def intro!: interned_found)
  next
    case None
    define tab where "tab = (case unique_strings ctx of None \<Rightarrow> [] | Some t \<Rightarrow> t)"
    define len where "len = unique_strings_len ctx"
    have tb: "table_ok (str ctx) (take len tab)" "len \<le> length tab" using ok by (simp_all add: atoms_ok_def tab_def len_def)
    note fa = find_atom_correct [OF tb sp]
    have ram: "ram_atoms ctx = map the (take len tab)" by (simp add: ram_atoms_def tab_def len_def)
    obtain r k where rk: "find_atom (str ctx) tab len (StringPtr p) = (r, k)" by fastforce
    show ?thesis
    proof (cases r)
      case (Some u)
      then have u: "Some u \<in> set (take len tab)" "content (str ctx) u = content (str ctx) (StringPtr p)" using fa rk by simp_all
      then have "u \<in> set (all_atoms ctx)" by (force simp: all_atoms_def ram)
      moreover have "v = u" "ctx' = ctx"
        using run nu None Some rk by (simp_all add: JS_MakeUniqueString_def tab_def [symmetric] len_def [symmetric])
      ultimately show ?thesis using ok u by (simp add: interned_found)
    next
      case none: None
      then have k: "k \<le> len" "content (str ctx) (StringPtr p) \<notin> content (str ctx) ` the ` set (take len tab)"
        "sorted_wrt (\<lambda>x y. cps_compare x y < 0)
          (map (content (str ctx) \<circ> the) (take k (take len tab) @ Some (StringPtr p) # drop k (take len tab)))"
        using fa unfolding rk none prod.case option.case by blast+
      have new: "content (str ctx) (StringPtr p) \<notin> content (str ctx) ` set (all_atoms ctx)"
        using k(2) fr None by (auto simp: all_atoms_def ram)
      define ctx1 where "ctx1 = (if starts_numeric (heap (str ctx) ! p) then collect_atoms gc ctx else ctx)"
      define tab1 where "tab1 = (case unique_strings ctx1 of None \<Rightarrow> [] | Some t \<Rightarrow> t)"
      have c1: "unique_strings_len ctx1 = len" "take len tab1 = take len tab" "len \<le> length tab1" "set (drop len tab1) \<subseteq> {None}"
        using collect_atoms_kept [OF ok gc] tb(2) ok
        by (auto simp: ctx1_def tab1_def tab_def len_def atoms_ok_def)
      have upd: "ctx1\<lparr>unique_strings := x, unique_strings_len := n, str := s\<rparr> = ctx\<lparr>unique_strings := x, unique_strings_len := n, str := s\<rparr>"
        "str ctx1 = str ctx" for x n s by (simp_all add: ctx1_def)
      obtain num nt where nt: "js_resize_value_array (mem_free (str ctx)) None (unique_strings ctx1) (len + 1) = Inr nt"
        and v: "v = StringPtr p" and c': "ctx' = ctx\<lparr>unique_strings := Some
             (take k (case fst nt of None \<Rightarrow> [] | Some t \<Rightarrow> t) @ Some (StringPtr p) #
              take (len - k) (drop k (case fst nt of None \<Rightarrow> [] | Some t \<Rightarrow> t)) @ drop (len + 1) (case fst nt of None \<Rightarrow> [] | Some t \<Rightarrow> t)),
           unique_strings_len := len + 1,
        str := (str ctx)\<lparr>mem_free := snd nt,
          heap := (heap (str ctx))[p := (heap (str ctx) ! p)\<lparr>is_unique := True, is_numeric := num\<rparr>]\<rparr>\<rparr>"
        using run nu None none rk
        by (auto simp: JS_MakeUniqueString_def tab_def [symmetric] len_def [symmetric] ctx1_def [symmetric] c1(1) upd Let_def
            split: sum.splits if_splits)
      define arr1 where "arr1 = (case fst nt of None \<Rightarrow> [] | Some t \<Rightarrow> t)"
      have nt': "js_resize_value_array (mem_free (str ctx)) None (unique_strings ctx1) (len + 1) = Inr (fst nt, snd nt)" using nt by simp
      have a1: "take len arr1 = take len tab" "len + 1 \<le> length arr1" "set (drop len arr1) \<subseteq> {None}"
        using resized_prefix [OF nt' c1(3) [unfolded tab1_def]] c1 by (auto simp: arr1_def tab1_def)
      then have d1: "set (drop (len + 1) arr1) \<subseteq> {None}"
        using set_drop_subset_set_drop [of len "len + 1" arr1] by auto
      note ins = insert_slot [OF k(1), of arr1 "Some (StringPtr p)"]
      have "length (take k arr1 @ Some (StringPtr p) # take (len - k) (drop k arr1)) = len + 1" using k(1) a1(2) by simp
      then have "drop (len + 1) ((take k arr1 @ Some (StringPtr p) # take (len - k) (drop k arr1)) @ drop (len + 1) arr1) = drop (len + 1) arr1"
        by (metis append_eq_conv_conj)
      then show ?thesis unfolding v
        by (intro interned_new [OF ok p new tab_def len_def k(1,3) _ _ _ c' [folded arr1_def]])
          (use ins a1 d1 in simp_all)
    qed
  qed
qed


lemma numeric_error: "js_is_numeric_string canon ctx a = Inl e \<Longrightarrow> e = OutOfMemory"
  by (auto simp: js_is_numeric_string_def js_alloc_byte_array_def Let_def split: sum.splits if_splits)

lemma resize_error: "js_resize_value_array mem undef val n = Inl e \<Longrightarrow> e = OutOfMemory"
  by (auto simp: js_resize_value_array_def js_resize_value_array2_def js_alloc_value_array_def Let_def split: sum.splits if_splits)

lemma make_unique_error:
  assumes ok: "atoms_ok ctx" and p: "p < length (heap (str ctx))"
    and gc: "starts_numeric (heap (str ctx) ! p) \<Longrightarrow> keeps_atoms gc (set (ram_atoms ctx))"
    and run: "JS_MakeUniqueString canon gc ctx (StringPtr p) = Inl e"
  shows "e = OutOfMemory"
proof -
  define tab where "tab = (case unique_strings ctx of None \<Rightarrow> [] | Some t \<Rightarrow> t)"
  define len where "len = unique_strings_len ctx"
  have sp: "str_ok (str ctx) (StringPtr p)" using ok p by (simp add: atoms_ok_def)
  have tb: "table_ok (str ctx) (take len tab)" "len \<le> length tab" using ok by (simp_all add: atoms_ok_def tab_def len_def)
  have k: "snd (find_atom (str ctx) tab len (StringPtr p)) \<le> len" if "fst (find_atom (str ctx) tab len (StringPtr p)) = None"
    using find_atom_correct [OF tb sp] that by (auto split: prod.splits option.splits)
  have l: "unique_strings_len (if starts_numeric (heap (str ctx) ! p) then collect_atoms gc ctx else ctx) = len"
    using collect_atoms_kept [OF ok gc] by (simp add: len_def)
  show ?thesis using run k l unfolding JS_MakeUniqueString_def Let_def tab_def len_def
    by (auto dest: numeric_error resize_error split: option.splits sum.splits if_splits)
qed

subsection \<open>Interning\<close>

lemma atoms_content_inj:
  "atoms_ok ctx \<Longrightarrow> u \<in> set (all_atoms ctx) \<Longrightarrow> v \<in> set (all_atoms ctx) \<Longrightarrow>
     content (str ctx) u = content (str ctx) v \<longleftrightarrow> u = v"
  by (auto simp: atoms_ok_def distinct_map inj_on_def)

lemma interned_mono: "interned ctx val v ctx' \<Longrightarrow> set (all_atoms ctx) \<subseteq> set (all_atoms ctx')"
  by (auto simp: interned_def split: if_splits)

lemma content_buf:
  assumes "str_ok ctx (StringPtr p)" "str_ok ctx (StringPtr q)"
  shows "content ctx (StringPtr p) = content ctx (StringPtr q) \<longleftrightarrow> buf (heap ctx ! p) = buf (heap ctx ! q)"
  using content_at [OF assms(1)] content_at [OF assms(2)] encode_inj
  by (auto simp: string_at_def get_string_ptr_def)

text \<open>C16. Interning two string blocks one after the other keeps the atom tables sorted, duplicate free and in step with the unique flags, and gives the same address exactly when the two blocks hold the same text, whichever of the read-only and memory tables hold them; the only possible error is running out of memory.  This holds for every string that does not start like a number, and for one that does if a collection run by the allocation of the number test finds the interned strings all marked.\<close>

theorem JS_MakeUniqueString_canonical:
  assumes ok: "atoms_ok ctx" and p: "p < length (heap (str ctx))" and q: "q < length (heap (str ctx))"
    and gc1: "starts_numeric (heap (str ctx) ! p) \<Longrightarrow> keeps_atoms gc1 (set (ram_atoms ctx))"
    and gc2: "starts_numeric (heap (str ctx) ! q) \<Longrightarrow> keeps_atoms gc2 (insert (StringPtr p) (set (ram_atoms ctx)))"
  shows "case JS_MakeUniqueString canon gc1 ctx (StringPtr p) of
      Inl e \<Rightarrow> e = OutOfMemory
    | Inr (v1, ctx1) \<Rightarrow> atoms_ok ctx1 \<and>
       (case JS_MakeUniqueString canon gc2 ctx1 (StringPtr q) of
          Inl e \<Rightarrow> e = OutOfMemory
        | Inr (v2, ctx2) \<Rightarrow> atoms_ok ctx2 \<and>
            (v1 = v2 \<longleftrightarrow> buf (heap (str ctx) ! p) = buf (heap (str ctx) ! q)))"
proof -
  have mid: "atoms_ok ctx1" "q < length (heap (str ctx1))"
      "starts_numeric (heap (str ctx1) ! q) \<Longrightarrow> keeps_atoms gc2 (set (ram_atoms ctx1))" "interned ctx (StringPtr p) v1 ctx1"
    if r1: "JS_MakeUniqueString canon gc1 ctx (StringPtr p) = Inr (v1, ctx1)" for v1 ctx1
  proof -
    have i1: "interned ctx (StringPtr p) v1 ctx1" by (rule make_unique_correct [OF ok p gc1 r1])
    have n: "starts_numeric (heap (str ctx1) ! q) = starts_numeric (heap (str ctx) ! q)"
      using i1 q by (simp add: interned_def same_text_def starts_numeric_def)
    show "atoms_ok ctx1" "q < length (heap (str ctx1))" "interned ctx (StringPtr p) v1 ctx1"
      using i1 q by (simp_all add: interned_def same_text_def)
    show "keeps_atoms gc2 (set (ram_atoms ctx1))" if "starts_numeric (heap (str ctx1) ! q)"
      using gc2 i1 that unfolding n by (auto simp: keeps_atoms_def interned_def split: option.splits)
  qed
  have step: "atoms_ok ctx2 \<and> (v1 = v2 \<longleftrightarrow> buf (heap (str ctx) ! p) = buf (heap (str ctx) ! q))"
    if r1: "JS_MakeUniqueString canon gc1 ctx (StringPtr p) = Inr (v1, ctx1)"
      and r2: "JS_MakeUniqueString canon gc2 ctx1 (StringPtr q) = Inr (v2, ctx2)" for v1 ctx1 v2 ctx2
  proof -
    note m = mid [OF r1]
    note i1 = m(4)
    have i2: "interned ctx1 (StringPtr q) v2 ctx2" by (rule make_unique_correct [OF m(1,2,3) r2])
    have s: "content (str ctx1) = content (str ctx)" "content (str ctx2) = content (str ctx)"
      using i1 i2 same_text_content(1) by (auto simp: interned_def)
    have "v1 \<in> set (all_atoms ctx2)" using i1 interned_mono [OF i2] by (auto simp: interned_def)
    moreover have "v2 \<in> set (all_atoms ctx2)" "atoms_ok ctx2" using i2 by (auto simp: interned_def)
    ultimately have "v1 = v2 \<longleftrightarrow> content (str ctx) v1 = content (str ctx) v2"
      using atoms_content_inj s by metis
    also have "\<dots> \<longleftrightarrow> content (str ctx) (StringPtr p) = content (str ctx) (StringPtr q)"
      using i1 i2 s by (simp add: interned_def)
    also have "\<dots> \<longleftrightarrow> buf (heap (str ctx) ! p) = buf (heap (str ctx) ! q)"
      using ok p q by (intro content_buf) (simp_all add: atoms_ok_def)
    finally show ?thesis using \<open>atoms_ok ctx2\<close> by blast
  qed
  show ?thesis
    using step mid(1) make_unique_error [OF ok p gc1] make_unique_error [OF mid(1,2,3)] by (auto split: sum.split)
qed

definition atom_example :: atomctx where
  "atom_example = \<lparr>
     str = \<lparr>heap = [\<lparr>is_unique = True, is_ascii = True, is_numeric = False, buf = []\<rparr>,
                   \<lparr>is_unique = False, is_ascii = True, is_numeric = False, buf = [97, 98]\<rparr>,
                   \<lparr>is_unique = False, is_ascii = True, is_numeric = False, buf = [97, 98]\<rparr>],
            mem_free = 1000, string_pos_cache = [], string_pos_cache_counter = 0\<rparr>,
     rom_atom_tables = [None, Some [Some (StringPtr 0)]],
     unique_strings = None, unique_strings_len = 0\<rparr>"

lemma atom_example_strings:
  "a < length (heap (str atom_example)) \<Longrightarrow>
     string_at (str atom_example) (StringPtr a) (if a = 0 then [] else [97, 98])"
  by (cases a; cases "a - 1")
    (auto simp: atom_example_def string_at_def val_ok_def get_string_ptr_def unicode_to_utf8_def
      JS_STRING_LEN_MAX_def nth_Cons')

lemma atom_example_ok: "atoms_ok atom_example"
proof -
  have "str_ok (str atom_example) (StringPtr a)" if "a < length (heap (str atom_example))" for a
    using atom_example_strings [OF that] by (auto simp: str_ok_def)
  then show ?thesis
    by (auto simp: atoms_ok_def atom_example_def table_ok_def all_atoms_def ram_atoms_def nth_Cons' split: if_splits)
qed

theorem JS_MakeUniqueString_canonical_witness:
  "case JS_MakeUniqueString Some (Some (\<lambda>_. False)) atom_example (StringPtr 1) of
      Inl e \<Rightarrow> e = OutOfMemory
    | Inr (v1, ctx1) \<Rightarrow> (case JS_MakeUniqueString Some None ctx1 (StringPtr 2) of
          Inl e \<Rightarrow> e = OutOfMemory | Inr (v2, ctx2) \<Rightarrow> v1 = v2)"
  using JS_MakeUniqueString_canonical [OF atom_example_ok, of 1 2 "Some (\<lambda>_. False)" None Some]
  by (auto simp: atom_example_def starts_numeric_def is_num_def split: sum.splits)

text \<open>Otherwise the insertion index goes stale.  Here the number test of the string \<open>11\<close>, which belongs between the atoms \<open>!!\<close> and
  \<open>aa\<close>, runs a collection that drops the dead atom \<open>!!\<close>: the string is stored after \<open>aa\<close>, the next search does not find it,
  and a second block with the same text becomes another atom.\<close>

definition stale_example :: atomctx where
  "stale_example = \<lparr>
     str = \<lparr>heap = [\<lparr>is_unique = True, is_ascii = True, is_numeric = False, buf = [33, 33]\<rparr>,
                   \<lparr>is_unique = True, is_ascii = True, is_numeric = False, buf = [97, 97]\<rparr>,
                   \<lparr>is_unique = False, is_ascii = True, is_numeric = False, buf = [49, 49]\<rparr>,
                   \<lparr>is_unique = False, is_ascii = True, is_numeric = False, buf = [49, 49]\<rparr>],
            mem_free = 1000, string_pos_cache = [], string_pos_cache_counter = 0\<rparr>,
     rom_atom_tables = [], unique_strings = Some [Some (StringPtr 0), Some (StringPtr 1)], unique_strings_len = 2\<rparr>"

definition stale_heap :: "strctx \<Rightarrow> bool" where
  "stale_heap ctx \<longleftrightarrow> map buf (heap ctx) = [[33, 33], [97, 97], [49, 49], [49, 49]]"

lemma compare_two:
  assumes "buf (get_string_ptr ctx v) = [a, a]" "buf (get_string_ptr ctx w) = [c, c]" "a < 128" "c < 128" "a \<noteq> c"
  shows "js_string_compare ctx v w = (if a < c then -1 else 1)"
proof -
  have "first_diff [a, a] [c, c] 2 0 = 0" by (rule first_diff_eq) (use assms in auto)
  then show ?thesis using assms
    by (simp add: js_string_compare_def min_int_def string_get_cp_def utf8_get_def Let_def)
qed

lemma stale_find:
  assumes "stale_heap ctx"
  shows "find_atom ctx [Some (StringPtr 0), Some (StringPtr 1)] 2 (StringPtr 2) = (None, 1)"
    "find_atom ctx [Some (StringPtr 1), Some (StringPtr 2)] 2 (StringPtr 3) = (None, 0)"
proof -
  obtain a b c d where h: "heap ctx = [a, b, c, d]" "buf a = [33, 33]" "buf b = [97, 97]" "buf c = [49, 49]" "buf d = [49, 49]"
    using assms by (auto simp: stale_heap_def map_eq_Cons_conv)
  have cmp: "js_string_compare ctx (StringPtr 2) (StringPtr 0) = 1" "js_string_compare ctx (StringPtr 2) (StringPtr (Suc 0)) = -1"
      "js_string_compare ctx (StringPtr 3) (StringPtr (Suc 0)) = -1"
    using compare_two [of ctx "StringPtr 2" 49 "StringPtr 0" 33] compare_two [of ctx "StringPtr 2" 49 "StringPtr 1" 97]
      compare_two [of ctx "StringPtr 3" 49 "StringPtr 1" 97]
    by (simp_all add: get_string_ptr_def h)
  note st = find_atom_loop.simps [of ctx "[Some (StringPtr 0), Some (StringPtr (Suc 0))]" "StringPtr 2"]
  show "find_atom ctx [Some (StringPtr 0), Some (StringPtr 1)] 2 (StringPtr 2) = (None, 1)"
    by (simp add: find_atom_def st [of 0 1] st [of 1 1] st [of 1 0] cmp)
  note st = find_atom_loop.simps [of ctx "[Some (StringPtr (Suc 0)), Some (StringPtr 2)]" "StringPtr 3"]
  show "find_atom ctx [Some (StringPtr 1), Some (StringPtr 2)] 2 (StringPtr 3) = (None, 0)"
    by (simp add: find_atom_def st [of 0 1] st [of 0 "-1"] cmp)
qed

definition stale_after :: atomctx where
  "stale_after = stale_example\<lparr>unique_strings := Some [Some (StringPtr 1), Some (StringPtr 2)], unique_strings_len := 2,
     str := (str stale_example)\<lparr>mem_free := 976,
       heap := (heap (str stale_example))[2 := (heap (str stale_example) ! 2)\<lparr>is_unique := True, is_numeric := True\<rparr>]\<rparr>\<rparr>"

lemmas stale_defs = JS_MakeUniqueString_def Let_def js_is_numeric_string_def starts_numeric_def is_num_def js_alloc_byte_array_def
  js_malloc_size_def collect_atoms_def js_resize_value_array_def js_resize_value_array2_def js_alloc_value_array_def
  sizeof_JSATODTempMem_def sizeof_JSDTOATempMem_def JS_BYTE_ARRAY_SIZE_MAX_def sizeof_JSByteArray_def
  JS_VALUE_ARRAY_SIZE_MAX_def sizeof_JSValueArray_def sizeof_JSValue_def resize_target_def max_int_def JSW_def

lemma stale_first:
  "JS_MakeUniqueString Some (Some (\<lambda>v. v = StringPtr 1)) stale_example (StringPtr 2) = Inr (StringPtr 2, stale_after)"
proof -
  have "stale_heap (str stale_example)" by (simp add: stale_heap_def stale_example_def)
  from stale_find(1) [OF this] show ?thesis by (simp add: stale_defs stale_example_def stale_after_def)
qed

lemma stale_second:
  "\<exists>ctx2. JS_MakeUniqueString Some None stale_after (StringPtr 3) = Inr (StringPtr 3, ctx2) \<and> map buf (heap (str ctx2)) = map buf (heap (str stale_example))"
proof -
  have "stale_heap (str stale_after)" by (simp add: stale_heap_def stale_example_def stale_after_def)
  from stale_find(2) [OF this] show ?thesis by (simp add: stale_defs stale_example_def stale_after_def)
qed

theorem stale_index_duplicates_atom:
  "case JS_MakeUniqueString Some (Some (\<lambda>v. v = StringPtr 1)) stale_example (StringPtr 2) of
      Inl e \<Rightarrow> False
    | Inr (v1, ctx1) \<Rightarrow> (case JS_MakeUniqueString Some None ctx1 (StringPtr 3) of
          Inl e \<Rightarrow> False | Inr (v2, ctx2) \<Rightarrow> v1 \<noteq> v2 \<and> buf (get_string_ptr (str ctx2) v1) = buf (get_string_ptr (str ctx2) v2))"
proof -
  obtain ctx2 where 2: "JS_MakeUniqueString Some None stale_after (StringPtr 3) = Inr (StringPtr 3, ctx2)"
      "map buf (heap (str ctx2)) = [[33, 33], [97, 97], [49, 49], [49, 49]]"
    using stale_second by (auto simp: stale_example_def)
  from 2(2) obtain a b c d where "heap (str ctx2) = [a, b, c, d]" "buf c = buf d" by (auto simp: map_eq_Cons_conv)
  then show ?thesis unfolding stale_first by (simp add: 2(1) get_string_ptr_def)
qed

end
