(* ===== verification/JSProps.thy ===== *)
theory JSProps
  imports JSArrays
begin

section \<open>Property tables of objects\<close>

text \<open>
  Models the property lists of \<^verbatim>\<open>mquickjs.c\<close>: lookup, creation, deletion, compaction and rehashing.
  A property list is one value array: the number of properties, the hash mask, the heads of the hash chains,
  and three words for each property.  The record \<open>props\<close> names these parts; \<open>base\<close> is the array
  index of the first property and \<open>arr_size\<close> the size of the array, and the links of the chains are
  array indices as in the code, 0 ending a chain.  \<^verbatim>\<open>ctx->empty_props\<close> is the only list without room
  for a property.  Values are the words of a 64-bit build.  The outer \<open>None\<close> of a result stands for an
  access outside the array or a chain that does not end; the theorems show that neither happens.
\<close>

subsection \<open>Values and records\<close>

definition JS_UNDEFINED :: nat where
  "JS_UNDEFINED = 11"

definition JS_UNINITIALIZED :: nat where
  "JS_UNINITIALIZED = 23"

definition JS_VALUE_GET_INT :: "nat \<Rightarrow> int" where
  "JS_VALUE_GET_INT v = signed_take_bit 31 (int v) div 2"

datatype prop_type = JS_PROP_NORMAL | JS_PROP_GETSET | JS_PROP_VARREF | JS_PROP_SPECIAL

record JSProperty =
  key :: nat
  pvalue :: nat
  hash_next :: nat
  ptype :: prop_type

record props =
  prop_count :: nat
  hash_mask :: nat
  heads :: "nat list"
  slots :: "JSProperty list"
  in_rom :: bool

definition base :: "props \<Rightarrow> nat" where
  "base t = 2 + hash_mask t + 1"

definition arr_size :: "props \<Rightarrow> nat" where
  "arr_size t = base t + 3 * length (slots t)"

definition slot_no :: "props \<Rightarrow> nat \<Rightarrow> nat" where
  "slot_no t idx = (idx - base t) div 3"

text \<open>What three words of a new value array read as: each word is \<^verbatim>\<open>JS_UNDEFINED\<close>.\<close>

definition fresh_slot :: JSProperty where
  "fresh_slot = \<lparr>key = JS_UNDEFINED, pvalue = JS_UNDEFINED, hash_next = JS_UNDEFINED div 2, ptype = JS_PROP_NORMAL\<rparr>"

definition empty_props :: props where
  "empty_props = \<lparr>prop_count = 0, hash_mask = 0, heads = [0], slots = [], in_rom = False\<rparr>"

subsection \<open>Lookup\<close>

definition hash_prop :: "nat \<Rightarrow> nat" where
  "hash_prop prop = ((prop div JSW) XOR (prop mod JSW)) mod 2 ^ 32"

partial_function (option) find_loop :: "props \<Rightarrow> nat \<Rightarrow> nat \<Rightarrow> nat option option" where
  "find_loop t prop idx =
     (if idx \<noteq> 0 then
        (if slot_no t idx \<ge> length (slots t) then None
         else let pr = slots t ! slot_no t idx
              in if key pr = prop then Some (Some idx) else find_loop t prop (hash_next pr))
      else Some None)"

definition find_own_property :: "props \<Rightarrow> nat \<Rightarrow> nat option option" where
  "find_own_property t prop = find_loop t prop (heads t ! (hash_prop prop AND hash_mask t))"

definition get_special_prop :: "nat list \<Rightarrow> nat list \<Rightarrow> nat \<Rightarrow> nat" where
  "get_special_prop class_proto class_obj val =
     (let idx = JS_VALUE_GET_INT val
      in if idx \<ge> 0 then class_proto ! nat idx else class_obj ! nat (- idx - 1))"

subsection \<open>Allocation, rehashing, compaction\<close>

definition clz32 :: "nat \<Rightarrow> nat" where
  "clz32 a = length (takeWhile (\<lambda>i. \<not> bit a (31 - i)) [0..<32])"

definition get_prop_hash_size_log2 :: "nat \<Rightarrow> nat" where
  "get_prop_hash_size_log2 n = (if n \<le> 1 then 0 else (32 - clz32 (n - 1)) - 1)"

definition set_last_link :: "JSProperty list \<Rightarrow> nat \<Rightarrow> JSProperty list" where
  "set_last_link ps v = ps[length ps - 1 := (last ps)\<lparr>hash_next := v\<rparr>]"

definition js_alloc_props :: "nat \<Rightarrow> nat \<Rightarrow> js_error + props \<times> nat" where
  "js_alloc_props mem n =
     (let mask = 2 ^ get_prop_hash_size_log2 n - 1; first_free = 2 + mask + 1; size = first_free + 3 * n
      in case js_alloc_value_array mem JS_UNDEFINED size of
           Inl e \<Rightarrow> Inl e
         | Inr (_, mem') \<Rightarrow>
             Inr (\<lparr>prop_count = 0, hash_mask = mask, heads = replicate (mask + 1) 0,
                   slots = set_last_link (replicate n (fresh_slot\<lparr>key := JS_UNINITIALIZED\<rparr>)) first_free,
                   in_rom = False\<rparr>, mem'))"

definition link_slot :: "props \<Rightarrow> nat \<Rightarrow> props" where
  "link_slot t i =
     (let pr = slots t ! i; h = hash_prop (key pr) AND hash_mask t
      in t\<lparr>slots := (slots t)[i := pr\<lparr>hash_next := heads t ! h\<rparr>], heads := (heads t)[h := base t + 3 * i]\<rparr>)"

lemma length_link_slot [simp]: "length (slots (link_slot t i)) = length (slots t)"
  by (simp add: link_slot_def Let_def)

function rehash_loop :: "props \<Rightarrow> nat \<Rightarrow> nat \<Rightarrow> props option" where
  "rehash_loop t i j =
     (if j < prop_count t then
        (if i \<ge> length (slots t) then None
         else if key (slots t ! i) \<noteq> JS_UNINITIALIZED then rehash_loop (link_slot t i) (i + 1) (j + 1)
         else rehash_loop t (i + 1) j)
      else Some t)"
  by pat_completeness auto
termination by (relation "measure (\<lambda>(t, i, j). length (slots t) - i)") auto

declare rehash_loop.simps [simp del]

definition js_rehash_props :: "props \<Rightarrow> bool \<Rightarrow> props option" where
  "js_rehash_props t gc_rehash =
     (if in_rom t then Some t
      else if hash_mask t = 0 \<and> gc_rehash then Some t
      else rehash_loop (t\<lparr>heads := replicate (hash_mask t + 1) 0\<rparr>) 0 0)"

text \<open>The moves of \<^verbatim>\<open>js_compact_props\<close> write at or before the slot they read, so what is read next has
  not been overwritten; the result is the list of the slots moved.\<close>

function compact_loop :: "JSProperty list \<Rightarrow> nat \<Rightarrow> nat \<Rightarrow> JSProperty list \<Rightarrow> JSProperty list option" where
  "compact_loop ps count i moved =
     (if length moved < count then
        (if i \<ge> length ps then None
         else if key (ps ! i) \<noteq> JS_UNINITIALIZED then compact_loop ps count (i + 1) (moved @ [ps ! i])
         else compact_loop ps count (i + 1) moved)
      else Some moved)"
  by pat_completeness auto
termination by (relation "measure (\<lambda>(ps, n, i, m). length ps - i)") auto

declare compact_loop.simps [simp del]

definition js_compact_props :: "props \<Rightarrow> props option" where
  "js_compact_props t =
     (if prop_count t = 0 then Some empty_props
      else let new_hash_mask = min (hash_mask t) (2 ^ get_prop_hash_size_log2 (prop_count t) - 1);
               new_size = 2 + new_hash_mask + 1 + 3 * prop_count t
           in if new_size \<ge> arr_size t then Some t
              else case compact_loop (slots t) (prop_count t) 0 [] of
                     None \<Rightarrow> None
                   | Some moved \<Rightarrow>
                       js_rehash_props (t\<lparr>hash_mask := new_hash_mask, slots := moved\<rparr>) False)"

definition js_update_props :: "nat list \<Rightarrow> nat list \<Rightarrow> nat \<Rightarrow> props \<Rightarrow> js_error + props \<times> nat" where
  "js_update_props class_proto class_obj mem t =
     (if \<not> in_rom t then Inr (t, mem)
      else case js_alloc_value_array mem JS_UNDEFINED (arr_size t) of
             Inl e \<Rightarrow> Inl e
           | Inr (_, mem') \<Rightarrow>
               Inr (t\<lparr>in_rom := False,
                      slots := map (\<lambda>pr. if ptype pr = JS_PROP_SPECIAL
                                         then pr\<lparr>pvalue := get_special_prop class_proto class_obj (pvalue pr),
                                                 ptype := JS_PROP_NORMAL\<rparr>
                                         else pr) (slots t)\<rparr>, mem'))"

subsection \<open>Creation\<close>

definition get_first_free :: "props \<Rightarrow> nat" where
  "get_first_free t =
     (if key (last (slots t)) = JS_UNINITIALIZED then hash_next (last (slots t)) else arr_size t)"

text \<open>The part of \<^verbatim>\<open>js_create_property\<close> after the list has room.\<close>

definition store_property :: "props \<Rightarrow> nat \<Rightarrow> nat \<Rightarrow> props" where
  "store_property t first_free prop =
     (let h = hash_prop prop AND hash_mask t;
          ps = (slots t)[slot_no t first_free :=
                 \<lparr>key = prop, pvalue = JS_UNDEFINED, hash_next = heads t ! h, ptype = JS_PROP_NORMAL\<rparr>]
      in t\<lparr>slots := (if first_free + 3 < arr_size t then set_last_link ps (first_free + 3) else ps),
           heads := (heads t)[h := first_free], prop_count := prop_count t + 1\<rparr>)"

definition mark_last :: "props \<Rightarrow> props" where
  "mark_last t = t\<lparr>slots := (slots t)[length (slots t) - 1 := (last (slots t))\<lparr>key := JS_UNINITIALIZED\<rparr>]\<rparr>"

text \<open>The growth of a full list; the size and the memory are those of the array resize.\<close>

definition grow_props :: "nat \<Rightarrow> props \<Rightarrow> (js_error + (props \<times> nat) \<times> nat) option" where
  "grow_props mem t =
     (let mask = hash_mask t; first_free = arr_size t;
          new_hash_mask = (if prop_count t + 1 > 2 * (mask + 1) then 2 * (mask + 1) - 1 else mask);
          new_size = first_free + 3 + (new_hash_mask - mask); new_base = 2 + new_hash_mask + 1
      in case js_resize_value_array2 mem JS_UNDEFINED (Some (replicate (arr_size t) JS_UNDEFINED)) new_size new_base of
           Inl e \<Rightarrow> Some (Inl e)
         | Inr (None, mem') \<Rightarrow> None
         | Inr (Some arr, mem') \<Rightarrow>
             (let n = (length arr - new_base) div 3;
                  t1 = t\<lparr>hash_mask := new_hash_mask, slots := slots t @ replicate (n - length (slots t)) fresh_slot\<rparr>
              in case (if new_hash_mask \<noteq> mask then js_rehash_props t1 False else Some t1) of
                   None \<Rightarrow> None
                 | Some t2 \<Rightarrow> Some (Inr ((mark_last t2, first_free + (new_hash_mask - mask)), mem'))))"

definition js_create_property :: "nat \<Rightarrow> props \<Rightarrow> nat \<Rightarrow> (js_error + (props \<times> nat) \<times> nat) option" where
  "js_create_property mem t prop =
     (if slots t = [] then
        (case js_alloc_props mem 1 of
           Inl e \<Rightarrow> Some (Inl e)
         | Inr (t1, mem') \<Rightarrow> Some (Inr ((store_property (mark_last t1) 3 prop, 3), mem')))
      else if key (last (slots t)) \<noteq> JS_UNINITIALIZED then
        (case grow_props mem t of
           None \<Rightarrow> None
         | Some (Inl e) \<Rightarrow> Some (Inl e)
         | Some (Inr ((t1, first_free), mem')) \<Rightarrow> Some (Inr ((store_property t1 first_free prop, first_free), mem')))
      else let first_free = hash_next (last (slots t))
           in Some (Inr ((store_property t first_free prop, first_free), mem)))"

subsection \<open>Deletion\<close>

text \<open>The walk along the chain: the index found and the one before it.\<close>

partial_function (option) delete_find :: "props \<Rightarrow> nat \<Rightarrow> nat \<Rightarrow> nat option \<Rightarrow> (nat \<times> nat option) option option" where
  "delete_find t prop idx last_idx =
     (if idx \<noteq> 0 then
        (if slot_no t idx \<ge> length (slots t) then None
         else let pr = slots t ! slot_no t idx
              in if key pr = prop then Some (Some (idx, last_idx)) else delete_find t prop (hash_next pr) (Some idx))
      else Some None)"

definition unlink :: "props \<Rightarrow> nat \<Rightarrow> nat \<Rightarrow> nat option \<Rightarrow> props" where
  "unlink t h idx last_idx =
     (let next = hash_next (slots t ! slot_no t idx)
      in case last_idx of
           Some l \<Rightarrow> t\<lparr>slots := (slots t)[slot_no t l := (slots t ! slot_no t l)\<lparr>hash_next := next\<rparr>]\<rparr>
         | None \<Rightarrow> t\<lparr>heads := (heads t)[h := next]\<rparr>)"

fun lower_first_free :: "JSProperty list \<Rightarrow> nat \<Rightarrow> nat" where
  "lower_first_free ps 0 = 0"
| "lower_first_free ps (Suc n) = (if key (ps ! n) \<noteq> JS_UNINITIALIZED then Suc n else lower_first_free ps n)"

definition delete_found :: "props \<Rightarrow> nat \<Rightarrow> nat \<Rightarrow> nat option \<Rightarrow> props" where
  "delete_found t h idx last_idx =
     (let t1 = unlink t h idx last_idx;
          first_free = get_first_free t1;
          i = slot_no t idx;
          ps = (slots t1)[i := (slots t1 ! i)\<lparr>ptype := JS_PROP_NORMAL, key := JS_UNINITIALIZED, pvalue := JS_UNDEFINED\<rparr>];
          first_free' = base t + 3 * lower_first_free ps (slot_no t first_free)
      in t1\<lparr>prop_count := prop_count t1 - 1,
            slots := (if first_free' < arr_size t1 then set_last_link ps first_free' else ps)\<rparr>)"

definition js_delete_property ::
    "nat list \<Rightarrow> nat list \<Rightarrow> nat \<Rightarrow> props \<Rightarrow> nat \<Rightarrow> (js_error + props \<times> nat) option" where
  "js_delete_property class_proto class_obj mem t prop =
     (let h = hash_prop prop AND hash_mask t
      in case delete_find t prop (heads t ! h) None of
           None \<Rightarrow> None
         | Some None \<Rightarrow> Some (Inr (t, mem))
         | Some (Some (idx, last_idx)) \<Rightarrow>
             (case js_update_props class_proto class_obj mem t of
                Inl e \<Rightarrow> Some (Inl e)
              | Inr (t1, mem') \<Rightarrow>
                  (let t2 = delete_found t1 h idx last_idx
                   in if 2 + hash_mask t + 1 + 3 * prop_count t1 < arr_size t2 div 2
                      then map_option (\<lambda>t3. Inr (t3, mem')) (js_compact_props t2)
                      else Some (Inr (t2, mem')))))"

subsection \<open>The invariant\<close>

text \<open>Each chain lists the live slots of its bucket from the newest to the oldest.  The properties in slot
  order are in the order of their creation.\<close>

fun is_chain :: "nat \<Rightarrow> JSProperty list \<Rightarrow> nat \<Rightarrow> nat list \<Rightarrow> bool" where
  "is_chain b ps idx [] \<longleftrightarrow> idx = 0"
| "is_chain b ps idx (i # is) \<longleftrightarrow> i < length ps \<and> idx = b + 3 * i \<and> is_chain b ps (hash_next (ps ! i)) is"

definition bucket :: "nat \<Rightarrow> JSProperty list \<Rightarrow> nat \<Rightarrow> nat \<Rightarrow> nat list" where
  "bucket m ps n h =
     filter (\<lambda>i. key (ps ! i) \<noteq> JS_UNINITIALIZED \<and> hash_prop (key (ps ! i)) AND m = h) [0..<n]"

definition live :: "JSProperty list \<Rightarrow> nat \<Rightarrow> JSProperty list" where
  "live ps n = filter (\<lambda>p. key p \<noteq> JS_UNINITIALIZED) (take n ps)"

definition prop_entry :: "JSProperty \<Rightarrow> nat \<times> nat \<times> prop_type" where
  "prop_entry p = (key p, pvalue p, ptype p)"

definition chains_ok :: "props \<Rightarrow> nat \<Rightarrow> bool" where
  "chains_ok t n \<longleftrightarrow> length (heads t) = hash_mask t + 1 \<and>
     (\<forall>h \<le> hash_mask t. is_chain (base t) (slots t) (heads t ! h) (rev (bucket (hash_mask t) (slots t) n h)))"

definition props_inv :: "props \<Rightarrow> nat \<Rightarrow> bool" where
  "props_inv t n \<longleftrightarrow> n \<le> length (slots t) \<and> prop_count t = length (live (slots t) n)
     \<and> distinct (map key (live (slots t) n)) \<and> chains_ok t n"

definition used :: "props \<Rightarrow> nat" where
  "used t = (if slots t = [] then 0 else slot_no t (get_first_free t))"

definition props_ok :: "props \<Rightarrow> bool" where
  "props_ok t \<longleftrightarrow> props_inv t (used t)
     \<and> (slots t \<noteq> [] \<and> key (last (slots t)) = JS_UNINITIALIZED \<longrightarrow>
          used t < length (slots t) \<and> hash_next (last (slots t)) = base t + 3 * used t)"

definition props_list :: "props \<Rightarrow> (nat \<times> nat \<times> prop_type) list" where
  "props_list t = map prop_entry (live (slots t) (used t))"

lemma and_le: "(a :: nat) AND m \<le> m"
  by (metis AND_upper2' of_nat_0_le_iff of_nat_and_eq of_nat_le_iff order_refl)

lemma slot_no_base [simp]: "slot_no t (base t + 3 * i) = i"
  by (simp add: slot_no_def)

lemma is_chain_cong:
  assumes "is_chain b ps idx is" "length ps' \<ge> length ps" "\<And>i. i \<in> set is \<Longrightarrow> hash_next (ps' ! i) = hash_next (ps ! i)"
  shows "is_chain b ps' idx is"
  using assms by (induction "is" arbitrary: idx) auto

lemma find_loop_chain:
  assumes "is_chain (base t) (slots t) idx is"
  shows "find_loop t prop idx = Some (map_option (\<lambda>i. base t + 3 * i) (List.find (\<lambda>i. key (slots t ! i) = prop) is))"
  using assms
proof (induction "is" arbitrary: idx)
  case Nil then show ?case by (subst find_loop.simps) simp
next
  case (Cons i "is")
  then have "idx \<noteq> 0" by (auto simp: base_def)
  then show ?case using Cons by (subst find_loop.simps) (auto simp: Let_def)
qed

lemma delete_find_chain:
  assumes "is_chain (base t) (slots t) idx is"
  shows "\<lbrakk>is = xs @ i # ys; key (slots t ! i) = prop; \<forall>x \<in> set xs. key (slots t ! x) \<noteq> prop\<rbrakk> \<Longrightarrow>
         delete_find t prop idx l = Some (Some (base t + 3 * i, if xs = [] then l else Some (base t + 3 * last xs)))"
    and "\<forall>x \<in> set is. key (slots t ! x) \<noteq> prop \<Longrightarrow> delete_find t prop idx l = Some None"
  using assms
proof (induction "is" arbitrary: idx xs l)
  case Nil
  { case 1 then show ?case by simp }
  { case 2 then show ?case by (subst delete_find.simps) simp }
next
  case (Cons k "is")
  have idx: "idx \<noteq> 0" if "is_chain (base t) (slots t) idx (k # is)" for idx using that by (auto simp: base_def)
  { case 1
    then show ?case using idx Cons.IH(1) [of "tl xs" "hash_next (slots t ! k)" "Some idx"]
      by (cases xs) (subst delete_find.simps; auto simp: Let_def)+ }
  { case 2
    then show ?case using idx Cons.IH(2) by (subst delete_find.simps) (auto simp: Let_def) }
qed

lemma bucket_Suc:
  "bucket m ps (Suc n) h = bucket m ps n h @
     (if key (ps ! n) \<noteq> JS_UNINITIALIZED \<and> hash_prop (key (ps ! n)) AND m = h then [n] else [])"
  by (simp add: bucket_def)

lemma bucket_0 [simp]: "bucket m ps 0 h = []"
  by (simp add: bucket_def)

lemma set_bucket:
  "i \<in> set (bucket m ps n h) \<longleftrightarrow> i < n \<and> key (ps ! i) \<noteq> JS_UNINITIALIZED \<and> hash_prop (key (ps ! i)) AND m = h"
  by (auto simp: bucket_def)

lemma bucket_cong:
  "(\<And>i. i < n \<Longrightarrow> key (ps' ! i) = key (ps ! i)) \<Longrightarrow> bucket m ps' n h = bucket m ps n h"
  unfolding bucket_def by (rule filter_cong) auto

lemma live_Suc:
  "n < length ps \<Longrightarrow> live ps (Suc n) = live ps n @ (if key (ps ! n) \<noteq> JS_UNINITIALIZED then [ps ! n] else [])"
  by (simp add: live_def take_Suc_conv_app_nth)

lemma live_0 [simp]: "live ps 0 = []"
  by (simp add: live_def)

lemma set_live:
  "n \<le> length ps \<Longrightarrow> p \<in> set (live ps n) \<longleftrightarrow> (\<exists>i < n. ps ! i = p \<and> key p \<noteq> JS_UNINITIALIZED)"
  by (auto simp: live_def in_set_conv_nth)

lemma live_cong:
  assumes "n \<le> length ps" "n \<le> length ps'" "\<And>i. i < n \<Longrightarrow> prop_entry (ps' ! i) = prop_entry (ps ! i)"
  shows "map prop_entry (live ps' n) = map prop_entry (live ps n)"
  using assms by (induction n) (auto simp: live_Suc prop_entry_def)

lemma live_mono: "i \<le> n \<Longrightarrow> n \<le> length ps \<Longrightarrow> length (live ps i) \<le> length (live ps n)"
proof (induction n)
  case (Suc n) then show ?case by (cases "i = Suc n") (auto simp: live_Suc)
qed simp

lemma keys_of_entries: "map key (live ps n) = map fst (map prop_entry (live ps n))"
  by (simp add: prop_entry_def)

subsection \<open>Storing a property\<close>

lemma base_simps [simp]:
  "base (t\<lparr>slots := x\<rparr>) = base t" "base (t\<lparr>heads := y\<rparr>) = base t" "base (t\<lparr>prop_count := c\<rparr>) = base t"
  "base (t\<lparr>in_rom := r\<rparr>) = base t"
  by (simp_all add: base_def)

lemma slot_no_simps [simp]:
  "slot_no (t\<lparr>slots := x\<rparr>) = slot_no t" "slot_no (t\<lparr>heads := y\<rparr>) = slot_no t"
  "slot_no (t\<lparr>prop_count := c\<rparr>) = slot_no t" "slot_no (t\<lparr>in_rom := r\<rparr>) = slot_no t"
  by (simp_all add: slot_no_def fun_eq_iff)

lemma length_set_last_link [simp]: "length (set_last_link ps v) = length ps"
  by (simp add: set_last_link_def)

lemma set_last_link_nth:
  "i < length ps \<Longrightarrow> set_last_link ps v ! i = (if i = length ps - 1 then (ps ! i)\<lparr>hash_next := v\<rparr> else ps ! i)"
  by (cases "ps = []") (auto simp: set_last_link_def last_conv_nth nth_list_update)

lemma last_set_last_link: "ps \<noteq> [] \<Longrightarrow> last (set_last_link ps v) = (last ps)\<lparr>hash_next := v\<rparr>"
  by (simp add: set_last_link_def last_list_update)

lemma live_take: "take n ps = take n ps' \<Longrightarrow> live ps n = live ps' n"
  by (simp add: live_def)

lemma props_okI:
  assumes "props_inv t n" "slots t \<noteq> []" "n < length (slots t) \<Longrightarrow> key (last (slots t)) = JS_UNINITIALIZED \<and> hash_next (last (slots t)) = base t + 3 * n"
    and "n = length (slots t) \<Longrightarrow> key (last (slots t)) \<noteq> JS_UNINITIALIZED"
  shows "props_ok t" "used t = n"
proof -
  have "n \<le> length (slots t)" using assms(1) by (simp add: props_inv_def)
  then show u: "used t = n" using assms(2-)
    by (cases "n = length (slots t)") (auto simp: used_def get_first_free_def arr_size_def)
  show "props_ok t" unfolding props_ok_def u using assms \<open>n \<le> _\<close> by (cases "n = length (slots t)") auto
qed

lemma chains_push:
  assumes c: "chains_ok t n" and n: "n < length (slots t)" and k: "key (slots t' ! n) \<noteq> JS_UNINITIALIZED"
    and len: "length (slots t') = length (slots t)" and old: "\<And>i. i < n \<Longrightarrow> slots t' ! i = slots t ! i"
    and h0: "h0 = hash_prop (key (slots t' ! n)) AND hash_mask t"
    and m: "hash_mask t' = hash_mask t" and hn: "hash_next (slots t' ! n) = heads t ! h0"
    and hd: "heads t' = (heads t)[h0 := base t + 3 * n]"
  shows "chains_ok t' (n + 1)"
proof -
  have bk: "bucket (hash_mask t) (slots t') (n + 1) h = bucket (hash_mask t) (slots t) n h @ (if h0 = h then [n] else [])" for h
    using k bucket_cong [of n "slots t'" "slots t" "hash_mask t" h] by (simp add: bucket_Suc old h0)
  have hl: "length (heads t) = hash_mask t + 1" using c by (simp add: chains_ok_def)
  have b: "base t' = base t" using m by (simp add: base_def)
  show ?thesis unfolding chains_ok_def m b hd
  proof (intro conjI allI impI)
    show "length ((heads t)[h0 := base t + 3 * n]) = hash_mask t + 1" using hl by simp
    fix h assume h: "h \<le> hash_mask t"
    have "is_chain (base t) (slots t') (heads t ! h) (rev (bucket (hash_mask t) (slots t) n h))"
    proof (rule is_chain_cong [of "base t" "slots t"])
      show "is_chain (base t) (slots t) (heads t ! h) (rev (bucket (hash_mask t) (slots t) n h))"
        using c h unfolding chains_ok_def by blast
    qed (simp_all add: len set_bucket old)
    then show "is_chain (base t) (slots t') ((heads t)[h0 := base t + 3 * n] ! h)
        (rev (bucket (hash_mask t) (slots t') (n + 1) h))"
      unfolding bk using hl h n len hn by (cases "h0 = h") simp_all
  qed
qed

lemma store_property_ok:
  assumes inv: "props_inv t n" and n: "n < length (slots t)" and l: "key (last (slots t)) = JS_UNINITIALIZED"
    and p: "prop \<noteq> JS_UNINITIALIZED" "prop \<notin> set (map key (live (slots t) n))"
  defines "t' \<equiv> store_property t (base t + 3 * n) prop"
  shows "props_ok t'" "props_list t' = map prop_entry (live (slots t) n) @ [(prop, JS_UNDEFINED, JS_PROP_NORMAL)]"
    "length (slots t') = length (slots t)" "used t' = n + 1"
proof -
  define new where "new = \<lparr>key = prop, pvalue = JS_UNDEFINED,
    hash_next = heads t ! (hash_prop prop AND hash_mask t), ptype = JS_PROP_NORMAL\<rparr>"
  have size: "base t + 3 * n + 3 < arr_size t \<longleftrightarrow> n + 1 < length (slots t)"
    by (simp add: arr_size_def) linarith
  have t'_slots: "slots t' = (if n + 1 < length (slots t) then set_last_link ((slots t)[n := new]) (base t + 3 * n + 3)
      else (slots t)[n := new])"
    unfolding t'_def store_property_def Let_def size by (simp add: new_def)
  have t'_rest: "heads t' = (heads t)[hash_prop prop AND hash_mask t := base t + 3 * n]" "hash_mask t' = hash_mask t"
    "base t' = base t" "prop_count t' = prop_count t + 1"
    by (simp_all add: t'_def store_property_def Let_def)
  show len: "length (slots t') = length (slots t)" by (simp add: t'_slots)
  have old: "slots t' ! i = slots t ! i" if "i < n" for i
    using that n by (simp add: t'_slots set_last_link_nth)
  have nn: "slots t' ! n = new" using n by (simp add: t'_slots set_last_link_nth)
  have "take n (slots t') = take n (slots t)"
    using n len by (intro nth_equalityI) (auto simp: old)
  then have live_n: "live (slots t') n = live (slots t) n" by (rule live_take)
  have live': "live (slots t') (n + 1) = live (slots t) n @ [new]"
    using n len p(1) by (simp add: live_Suc nn live_n) (simp add: new_def)
  have "chains_ok t' (n + 1)"
    by (rule chains_push [of t n]) (use inv n p(1) in \<open>simp_all add: props_inv_def t'_rest len old nn new_def\<close>)
  moreover have "distinct (map key (live (slots t') (n + 1)))"
    using inv p(2) unfolding live' by (simp add: props_inv_def new_def)
  ultimately have inv': "props_inv t' (n + 1)"
    using inv n len unfolding props_inv_def live' t'_rest by simp
  have "slots t \<noteq> []" using n by auto
  have last: "last (slots t') = (if n + 1 < length (slots t) then (last (slots t))\<lparr>hash_next := base t + 3 * n + 3\<rparr> else new)"
    using n \<open>slots t \<noteq> []\<close> by (auto simp: t'_slots last_set_last_link last_list_update)
  show "props_ok t'" and u: "used t' = n + 1"
    by (rule props_okI [OF inv']; use n l last len p(1) \<open>slots t \<noteq> []\<close> t'_rest in \<open>auto simp: new_def\<close>)+
  show "props_list t' = map prop_entry (live (slots t) n) @ [(prop, JS_UNDEFINED, JS_PROP_NORMAL)]"
    unfolding props_list_def u live' by (simp add: prop_entry_def new_def)
qed

subsection \<open>Rehashing\<close>

lemma bucket_live:
  "\<lbrakk>length (live ps i) = length (live ps n); i \<le> n; n \<le> length ps\<rbrakk> \<Longrightarrow> bucket m ps n h = bucket m ps i h"
proof (induction n)
  case (Suc n)
  show ?case
  proof (cases "i = Suc n")
    case False
    then have "i \<le> n" using Suc.prems by simp
    moreover from this have "length (live ps i) = length (live ps n)" "key (ps ! n) = JS_UNINITIALIZED"
      using live_mono [of i n ps] Suc.prems by (auto simp: live_Suc split: if_splits)
    ultimately show ?thesis using Suc by (simp add: bucket_Suc)
  qed simp
qed simp

text \<open>What rehashing keeps: everything but the links of the live properties below \<open>n\<close>.\<close>

definition same_but_links :: "props \<Rightarrow> props \<Rightarrow> nat \<Rightarrow> bool" where
  "same_but_links t t' n \<longleftrightarrow> hash_mask t' = hash_mask t \<and> prop_count t' = prop_count t \<and> in_rom t' = in_rom t
     \<and> length (slots t') = length (slots t)
     \<and> (\<forall>k < length (slots t). prop_entry (slots t' ! k) = prop_entry (slots t ! k)
          \<and> (k \<ge> n \<or> key (slots t ! k) = JS_UNINITIALIZED \<longrightarrow> slots t' ! k = slots t ! k))"

lemma same_but_links_refl: "same_but_links t t n"
  by (simp add: same_but_links_def)

lemma same_but_links_trans:
  assumes "same_but_links t t1 n" "same_but_links t1 t2 n"
  shows "same_but_links t t2 n"
proof -
  have "key (slots t1 ! k) = key (slots t ! k)" if "k < length (slots t)" for k
    using assms(1) that by (auto simp: same_but_links_def prop_entry_def)
  then show ?thesis using assms by (auto simp: same_but_links_def)
qed

lemma same_but_links_live:
  assumes "same_but_links t t' n" "m \<le> length (slots t)"
  shows "map prop_entry (live (slots t') m) = map prop_entry (live (slots t) m)"
  using assms by (intro live_cong) (auto simp: same_but_links_def)

lemma same_but_links_length:
  assumes "same_but_links t t' n" "m \<le> length (slots t)"
  shows "length (live (slots t') m) = length (live (slots t) m)"
  using same_but_links_live [OF assms] by (metis length_map)

lemma link_slot_ok:
  assumes "chains_ok t i" "i < n" "n \<le> length (slots t)" "key (slots t ! i) \<noteq> JS_UNINITIALIZED"
  shows "chains_ok (link_slot t i) (i + 1) \<and> same_but_links t (link_slot t i) n"
proof
  show "chains_ok (link_slot t i) (i + 1)"
    by (rule chains_push [of t i]) (use assms in \<open>simp_all add: link_slot_def Let_def\<close>)
  show "same_but_links t (link_slot t i) n"
    using assms by (auto simp: same_but_links_def link_slot_def Let_def prop_entry_def nth_list_update)
qed

lemma rehash_loop_ok:
  assumes "n \<le> length (slots t)" "i \<le> n" "prop_count t = length (live (slots t) n)" "chains_ok t i"
  shows "\<exists>t'. rehash_loop t i (length (live (slots t) i)) = Some t' \<and> chains_ok t' n \<and> same_but_links t t' n"
  using assms
proof (induction "length (slots t) - i" arbitrary: t i rule: less_induct)
  case less
  let ?j = "length (live (slots t) i)"
  note step = rehash_loop.simps [of t i ?j]
  show ?case
  proof (cases "?j < prop_count t")
    case False
    then have "?j = length (live (slots t) n)" using less.prems live_mono [of i n "slots t"] by simp
    then have "chains_ok t n" using bucket_live [of "slots t" i n] less.prems by (simp add: chains_ok_def)
    then show ?thesis using False same_but_links_refl by (subst step) auto
  next
    case True
    then have i: "i < n" using less.prems by (cases "i = n") auto
    show ?thesis
    proof (cases "key (slots t ! i) = JS_UNINITIALIZED")
      case u: True
      then have "chains_ok t (i + 1)" using less.prems by (simp add: chains_ok_def bucket_Suc)
      moreover have "length (live (slots t) (i + 1)) = ?j" using u i less.prems by (simp add: live_Suc)
      ultimately show ?thesis
        using less.hyps [of t "i + 1"] less.prems True u i by (subst step) auto
    next
      case l: False
      define t1 where "t1 = link_slot t i"
      have t1: "chains_ok t1 (i + 1)" "same_but_links t t1 n" "length (slots t1) = length (slots t)"
        using link_slot_ok [of t i n] less.prems i l by (simp_all add: t1_def)
      have "length (live (slots t1) (i + 1)) = ?j + 1"
        using same_but_links_length [OF t1(2), of "i + 1"] less.prems i l by (simp add: live_Suc)
      moreover have "prop_count t1 = length (live (slots t1) n)"
        using same_but_links_length [OF t1(2), of n] less.prems t1(2) by (simp add: same_but_links_def)
      moreover have "length (slots t1) - (i + 1) < length (slots t) - i" using i less.prems t1(3) by linarith
      ultimately obtain t' where "rehash_loop t1 (i + 1) (?j + 1) = Some t'" "chains_ok t' n" "same_but_links t1 t' n"
        using less.hyps [of t1 "i + 1"] less.prems i t1 by auto
      then show ?thesis using same_but_links_trans [OF t1(2)] True l less.prems i
        by (subst step) (auto simp: t1_def)
    qed
  qed
qed

lemma js_rehash_props_ok:
  assumes "n \<le> length (slots t)" "prop_count t = length (live (slots t) n)" "distinct (map key (live (slots t) n))"
    and "\<not> in_rom t"
  shows "\<exists>t'. js_rehash_props t False = Some t' \<and> props_inv t' n \<and> same_but_links t t' n"
proof -
  define t0 where "t0 = t\<lparr>heads := replicate (hash_mask t + 1) 0\<rparr>"
  have "chains_ok t0 0" by (simp add: chains_ok_def t0_def del: replicate_Suc)
  then obtain t' where t': "rehash_loop t0 0 0 = Some t'" "chains_ok t' n" "same_but_links t0 t' n"
    using rehash_loop_ok [of n t0 0] assms by (auto simp: t0_def)
  have s: "same_but_links t t' n" using t'(3) by (simp add: same_but_links_def t0_def)
  have "props_inv t' n"
    using t' s assms same_but_links_live [OF s assms(1)] same_but_links_length [OF s assms(1)]
    unfolding props_inv_def keys_of_entries by (simp add: same_but_links_def)
  then show ?thesis using t' s assms(4) by (auto simp: js_rehash_props_def t0_def)
qed

subsection \<open>Compaction\<close>

lemma compact_loop_ok:
  "\<lbrakk>n \<le> length ps; i \<le> n; count = length (live ps n)\<rbrakk> \<Longrightarrow> compact_loop ps count i (live ps i) = Some (live ps n)"
proof (induction "length ps - i" arbitrary: i rule: less_induct)
  case less
  note step = compact_loop.simps [of ps count i "live ps i"]
  show ?case
  proof (cases "length (live ps i) < count")
    case True
    then have i: "i < n" using less.prems by (cases "i = n") auto
    then have lt: "length ps - (i + 1) < length ps - i" using less.prems by linarith
    show ?thesis using less.hyps [OF lt] i less.prems True
      by (subst step) (auto simp: live_Suc split: if_splits)
  next
    case False
    then have "length (live ps i) = length (live ps n)" using less.prems live_mono [of i n ps] by simp
    moreover have "live ps n = live ps i @ filter (\<lambda>p. key p \<noteq> JS_UNINITIALIZED) (drop i (take n ps))"
      using less.prems by (metis append_take_drop_id filter_append live_def min.absorb1 take_take)
    ultimately have "live ps n = live ps i" by simp
    then show ?thesis using False by (subst step) simp
  qed
qed

lemma live_live: "live (live ps n) (length (live ps n)) = live ps n"
  by (simp add: live_def)

lemma last_live_key: "live ps n \<noteq> [] \<Longrightarrow> key (last (live ps n)) \<noteq> JS_UNINITIALIZED"
  using last_in_set [of "live ps n"] by (simp add: live_def)

lemma same_but_links_last:
  assumes "same_but_links t t' n" "slots t \<noteq> []"
  shows "key (last (slots t')) = key (last (slots t))"
    and "key (last (slots t)) = JS_UNINITIALIZED \<Longrightarrow> last (slots t') = last (slots t)"
proof -
  have l: "length (slots t') = length (slots t)" "slots t' \<noteq> []" using assms by (auto simp: same_but_links_def)
  show "key (last (slots t')) = key (last (slots t))"
    and "key (last (slots t)) = JS_UNINITIALIZED \<Longrightarrow> last (slots t') = last (slots t)"
    using assms l by (auto simp: last_conv_nth same_but_links_def prop_entry_def)
qed

lemma empty_props_ok: "props_ok empty_props" "props_list empty_props = []"
  by (simp_all add: props_ok_def props_inv_def chains_ok_def used_def empty_props_def props_list_def)

lemma js_compact_props_ok:
  assumes "props_ok t" "\<not> in_rom t"
  shows "\<exists>t'. js_compact_props t = Some t' \<and> props_ok t' \<and> props_list t' = props_list t \<and> \<not> in_rom t'"
proof -
  let ?n = "used t" and ?m = "min (hash_mask t) (2 ^ get_prop_hash_size_log2 (prop_count t) - 1)"
  have inv: "props_inv t ?n" using assms(1) by (simp add: props_ok_def)
  then have c: "prop_count t = length (live (slots t) ?n)" "?n \<le> length (slots t)" by (simp_all add: props_inv_def)
  consider (none) "prop_count t = 0" | (full) "prop_count t \<noteq> 0" "2 + ?m + 1 + 3 * prop_count t \<ge> arr_size t"
    | (move) "prop_count t \<noteq> 0" "\<not> 2 + ?m + 1 + 3 * prop_count t \<ge> arr_size t" by blast
  then show ?thesis
  proof cases
    case none
    then show ?thesis using c empty_props_ok
      by (auto simp: js_compact_props_def props_list_def empty_props_def)
  next
    case full
    then show ?thesis using assms by (auto simp: js_compact_props_def Let_def)
  next
    case move
    let ?L = "live (slots t) ?n"
    define t1 where "t1 = t\<lparr>hash_mask := ?m, slots := ?L\<rparr>"
    have "distinct (map key ?L)" using inv by (simp add: props_inv_def)
    then obtain t' where t': "js_rehash_props t1 False = Some t'" "props_inv t' (length ?L)" "same_but_links t1 t' (length ?L)"
      using js_rehash_props_ok [of "length ?L" t1] c(1) live_live [of "slots t" ?n] assms(2) by (auto simp: t1_def)
    have L: "?L \<noteq> []" using move(1) c(1) by auto
    have len: "length (slots t') = length ?L" using t'(3) by (simp add: same_but_links_def t1_def)
    have k: "key (last (slots t')) \<noteq> JS_UNINITIALIZED"
      using same_but_links_last(1) [OF t'(3)] last_live_key [OF L] L by (simp add: t1_def)
    have "slots t' \<noteq> []" using len L by auto
    then have ok: "props_ok t'" "used t' = length ?L"
      using props_okI [OF t'(2)] len k by auto
    have "props_list t' = props_list t"
      using same_but_links_live [OF t'(3), of "length ?L"] live_live [of "slots t" ?n]
      by (simp add: props_list_def ok(2) t1_def)
    moreover have "compact_loop (slots t) (prop_count t) 0 [] = Some ?L"
      using compact_loop_ok [of ?n "slots t" 0 "prop_count t"] c by simp
    moreover have "\<not> in_rom t'" using t'(3) assms(2) by (simp add: same_but_links_def t1_def)
    ultimately show ?thesis using move t'(1) ok
      unfolding js_compact_props_def Let_def t1_def by (auto simp del: min.bounded_iff)
  qed
qed

subsection \<open>Growth and creation\<close>

lemma props_inv_tail:
  assumes inv: "props_inv t n" and len: "length ps \<ge> length (slots t)" and old: "\<And>i. i < n \<Longrightarrow> ps ! i = slots t ! i"
  shows "props_inv (t\<lparr>slots := ps\<rparr>) n" "live ps n = live (slots t) n"
proof -
  have n: "n \<le> length (slots t)" using inv by (simp add: props_inv_def)
  then show l: "live ps n = live (slots t) n"
    using len old by (intro live_take nth_equalityI) auto
  have "chains_ok (t\<lparr>slots := ps\<rparr>) n"
    unfolding chains_ok_def
  proof (intro conjI allI impI)
    show "length (heads (t\<lparr>slots := ps\<rparr>)) = hash_mask (t\<lparr>slots := ps\<rparr>) + 1"
      using inv by (simp add: props_inv_def chains_ok_def)
    fix h assume "h \<le> hash_mask (t\<lparr>slots := ps\<rparr>)"
    then have "is_chain (base t) (slots t) (heads t ! h) (rev (bucket (hash_mask t) (slots t) n h))"
      using inv unfolding props_inv_def chains_ok_def by simp
    then have "is_chain (base t) ps (heads t ! h) (rev (bucket (hash_mask t) (slots t) n h))"
      by (rule is_chain_cong) (use len old in \<open>simp_all add: set_bucket\<close>)
    moreover have "bucket (hash_mask t) ps n h = bucket (hash_mask t) (slots t) n h"
      using old by (intro bucket_cong) simp
    ultimately show "is_chain (base (t\<lparr>slots := ps\<rparr>)) (slots (t\<lparr>slots := ps\<rparr>)) (heads (t\<lparr>slots := ps\<rparr>) ! h)
        (rev (bucket (hash_mask (t\<lparr>slots := ps\<rparr>)) (slots (t\<lparr>slots := ps\<rparr>)) n h))" by simp
  qed
  then show "props_inv (t\<lparr>slots := ps\<rparr>) n"
    using inv n len l by (simp add: props_inv_def)
qed

lemma mark_last_ok:
  assumes "props_inv t n" "n < length (slots t)"
  shows "props_inv (mark_last t) n" "live (slots (mark_last t)) n = live (slots t) n"
    "key (last (slots (mark_last t))) = JS_UNINITIALIZED" "length (slots (mark_last t)) = length (slots t)"
    "base (mark_last t) = base t"
proof -
  let ?ps = "(slots t)[length (slots t) - 1 := (last (slots t))\<lparr>key := JS_UNINITIALIZED\<rparr>]"
  have nth: "i < n \<Longrightarrow> ?ps ! i = slots t ! i" for i using assms(2) by simp
  show "props_inv (mark_last t) n" "live (slots (mark_last t)) n = live (slots t) n"
    using props_inv_tail [OF assms(1), of ?ps] nth by (simp_all add: mark_last_def)
  have "slots t \<noteq> []" using assms(2) by auto
  then show "key (last (slots (mark_last t))) = JS_UNINITIALIZED"
    by (simp add: mark_last_def last_list_update)
  show "length (slots (mark_last t)) = length (slots t)" "base (mark_last t) = base t"
    by (simp_all add: mark_last_def)
qed

lemma resized_slots:
  assumes "js_resize_value_array2 mem JS_UNDEFINED (Some (replicate (arr_size t) JS_UNDEFINED))
             (arr_size t + 3 + (nm - hash_mask t)) (2 + nm + 1) = Inr (val, mem')" and nm: "hash_mask t \<le> nm"
  obtains arr where "val = Some arr" "length (slots t) + 1 \<le> (length arr - (2 + nm + 1)) div 3"
    "(length arr - (2 + nm + 1)) mod 3 = 0"
proof -
  let ?new = "arr_size t + 3 + (nm - hash_mask t)" and ?nb = "2 + nm + 1"
  have new: "?new = ?nb + 3 * (length (slots t) + 1)" using nm by (simp add: arr_size_def base_def)
  have al: "(resize_target (arr_size t) ?new ?nb - ?nb) mod 3 = 0"
    by (rule resize_target_aligned) (simp_all add: new)
  obtain arr where "val = Some arr"
    using assms(1) by (auto simp: js_resize_value_array2_def Let_def split: sum.splits)
  moreover have "length arr = resize_target (arr_size t) ?new ?nb" "?new \<le> length arr"
    using resize_value_array2_correct [OF assms(1)] calculation resize_target_ge(1) [of ?new] by auto
  moreover have "length (slots t) + 1 \<le> (length arr - ?nb) div 3"
  proof -
    have "(length (slots t) + 1) * 3 \<le> length arr - ?nb" using calculation(3) unfolding new by linarith
    then show ?thesis by (simp only: less_eq_div_iff_mult_less_eq zero_less_numeral)
  qed
  ultimately show thesis using that al by simp
qed

lemma grow_props_ok:
  assumes ok: "props_ok t" and s: "slots t \<noteq> []" "key (last (slots t)) \<noteq> JS_UNINITIALIZED" and r: "\<not> in_rom t"
  shows "(\<exists>e. grow_props mem t = Some (Inl e)) \<or>
     (\<exists>t1 mem'. grow_props mem t = Some (Inr ((t1, base t1 + 3 * used t), mem')) \<and> props_inv t1 (used t)
        \<and> used t < length (slots t1) \<and> key (last (slots t1)) = JS_UNINITIALIZED
        \<and> map prop_entry (live (slots t1) (used t)) = props_list t \<and> \<not> in_rom t1)"
proof -
  let ?n = "length (slots t)"
  have u: "used t = ?n" using s by (simp add: used_def get_first_free_def arr_size_def)
  have inv: "props_inv t ?n" using ok u by (simp add: props_ok_def)
  define nm where "nm = (if prop_count t + 1 > 2 * (hash_mask t + 1) then 2 * (hash_mask t + 1) - 1 else hash_mask t)"
  have nm: "hash_mask t \<le> nm" by (simp add: nm_def)
  show ?thesis
  proof (cases "js_resize_value_array2 mem JS_UNDEFINED (Some (replicate (arr_size t) JS_UNDEFINED))
             (arr_size t + 3 + (nm - hash_mask t)) (2 + nm + 1)")
    case (Inl e)
    then show ?thesis unfolding grow_props_def Let_def nm_def [symmetric] by simp
  next
    case (Inr r)
    obtain val mem' where r: "r = (val, mem')" by fastforce
    obtain arr where arr: "val = Some arr" "?n + 1 \<le> (length arr - (2 + nm + 1)) div 3"
      using resized_slots [OF Inr [unfolded r] nm] by blast
    define ps where "ps = slots t @ replicate ((length arr - (2 + nm + 1)) div 3 - ?n) fresh_slot"
    define t1 where "t1 = t\<lparr>hash_mask := nm, slots := ps\<rparr>"
    have ps: "?n < length ps" "live ps ?n = live (slots t) ?n"
      using arr(2) by (auto simp: ps_def intro: live_take)
    have "\<exists>t2. (if nm \<noteq> hash_mask t then js_rehash_props t1 False else Some t1) = Some t2
        \<and> props_inv t2 ?n \<and> same_but_links t1 t2 ?n"
    proof (cases "nm = hash_mask t")
      case True
      then have "t1 = t\<lparr>slots := ps\<rparr>" by (simp add: t1_def)
      then show ?thesis using True props_inv_tail(1) [OF inv, of ps] same_but_links_refl
        by (auto simp: ps_def nth_append)
    next
      case False
      then show ?thesis using js_rehash_props_ok [of ?n t1] inv ps assms(4) by (simp add: t1_def props_inv_def)
    qed
    then obtain t2 where t2: "(if nm \<noteq> hash_mask t then js_rehash_props t1 False else Some t1) = Some t2"
      "props_inv t2 ?n" "same_but_links t1 t2 ?n" by blast
    have len: "length (slots t2) = length ps" "base t2 = 2 + nm + 1" "\<not> in_rom t2"
      using t2(3) assms(4) by (simp_all add: same_but_links_def t1_def base_def)
    have ent: "map prop_entry (live (slots t2) ?n) = props_list t"
      using same_but_links_live [OF t2(3), of ?n] ps by (simp add: t1_def props_list_def u)
    have g: "grow_props mem t = Some (Inr ((mark_last t2, arr_size t + (nm - hash_mask t)), mem'))"
      unfolding grow_props_def Let_def nm_def [symmetric] Inr r arr(1) sum.case prod.case option.case
        ps_def [symmetric] t1_def [symmetric] t2(1) ..
    moreover have "arr_size t + (nm - hash_mask t) = base (mark_last t2) + 3 * ?n"
      using nm len by (simp add: arr_size_def base_def mark_last_def)
    moreover have "\<not> in_rom (mark_last t2)" using len by (simp add: mark_last_def)
    ultimately show ?thesis
      using mark_last_ok [OF t2(2)] ps(1) len ent unfolding u by auto
  qed
qed

lemma js_create_property_ok:
  assumes ok: "props_ok t" and r: "\<not> in_rom t" and p: "prop \<noteq> JS_UNINITIALIZED" "prop \<notin> fst ` set (props_list t)"
  shows "(\<exists>e. js_create_property mem t prop = Some (Inl e)) \<or>
     (\<exists>t' idx mem'. js_create_property mem t prop = Some (Inr ((t', idx), mem')) \<and> props_ok t' \<and> \<not> in_rom t'
        \<and> props_list t' = props_list t @ [(prop, JS_UNDEFINED, JS_PROP_NORMAL)])"
proof -
  have fin: "props_ok t' \<and> \<not> in_rom t' \<and> props_list t' = props_list t @ [(prop, JS_UNDEFINED, JS_PROP_NORMAL)]"
    if "props_inv t1 n" "n < length (slots t1)" "key (last (slots t1)) = JS_UNINITIALIZED"
      "map prop_entry (live (slots t1) n) = props_list t" "\<not> in_rom t1" "t' = store_property t1 (base t1 + 3 * n) prop"
    for t1 t' n
  proof -
    have "prop \<notin> set (map key (live (slots t1) n))"
      using p(2) unfolding keys_of_entries that(4) by auto
    from store_property_ok [OF that(1-3) p(1) this] that show ?thesis
      by (simp add: store_property_def Let_def)
  qed
  consider (empty) "slots t = []" | (full) "slots t \<noteq> []" "key (last (slots t)) \<noteq> JS_UNINITIALIZED"
    | (room) "slots t \<noteq> []" "key (last (slots t)) = JS_UNINITIALIZED" by blast
  then show ?thesis
  proof cases
    case empty
    have pl: "props_list t = []" by (simp add: props_list_def empty live_def)
    show ?thesis
    proof (cases "js_alloc_props mem 1")
      case (Inl e) then show ?thesis by (simp add: js_create_property_def empty)
    next
      case (Inr x)
      obtain t1 mem' where x: "x = (t1, mem')" by fastforce
      have t1: "props_inv t1 0" "length (slots t1) = 1" "base t1 = 3" "\<not> in_rom t1"
        using Inr x by (auto simp: js_alloc_props_def get_prop_hash_size_log2_def Let_def props_inv_def chains_ok_def
            base_def split: sum.splits)
      have m: "props_inv (mark_last t1) 0" "0 < length (slots (mark_last t1))"
        "key (last (slots (mark_last t1))) = JS_UNINITIALIZED" "\<not> in_rom (mark_last t1)" "base (mark_last t1) = 3"
        using mark_last_ok [OF t1(1)] t1 by (simp_all add: mark_last_def)
      from fin [OF m(1-3) _ m(4) refl] m(5) pl show ?thesis
        by (simp add: js_create_property_def empty Inr [simplified] x)
    qed
  next
    case full
    from grow_props_ok [OF ok full r, of mem] show ?thesis
    proof (elim disjE exE conjE)
      fix t1 mem' assume g: "grow_props mem t = Some (Inr ((t1, base t1 + 3 * used t), mem'))"
        and *: "props_inv t1 (used t)" "used t < length (slots t1)" "key (last (slots t1)) = JS_UNINITIALIZED"
        "map prop_entry (live (slots t1) (used t)) = props_list t" "\<not> in_rom t1"
      from fin [OF * refl] show ?thesis by (simp add: js_create_property_def full g)
    qed (simp add: js_create_property_def full)
  next
    case room
    then have l: "used t < length (slots t)" "hash_next (last (slots t)) = base t + 3 * used t"
      and inv: "props_inv t (used t)" using ok by (simp_all add: props_ok_def)
    from fin [OF inv l(1) room(2) _ r refl] show ?thesis
      by (simp add: js_create_property_def room l(2) Let_def props_list_def)
  qed
qed

subsection \<open>Deletion\<close>

lemma unlink_chain:
  assumes "is_chain b ps idx (xs @ i # ys)" "distinct (xs @ i # ys)"
  shows "xs = [] \<Longrightarrow> is_chain b ps (hash_next (ps ! i)) ys"
    and "xs \<noteq> [] \<Longrightarrow> is_chain b (ps[last xs := (ps ! last xs)\<lparr>hash_next := hash_next (ps ! i)\<rparr>]) idx (xs @ ys)"
proof -
  show "xs = [] \<Longrightarrow> is_chain b ps (hash_next (ps ! i)) ys" using assms by simp
  show "xs \<noteq> [] \<Longrightarrow> is_chain b (ps[last xs := (ps ! last xs)\<lparr>hash_next := hash_next (ps ! i)\<rparr>]) idx (xs @ ys)"
    using assms
  proof (induction xs arbitrary: idx)
    case (Cons k xs)
    let ?ps = "ps[last (k # xs) := (ps ! last (k # xs))\<lparr>hash_next := hash_next (ps ! i)\<rparr>]"
    show ?case
    proof (cases "xs = []")
      case True
      have "is_chain b ps (hash_next (ps ! i)) ys" using Cons.prems True by simp
      then have "is_chain b ?ps (hash_next (ps ! i)) ys"
        by (rule is_chain_cong) (use Cons.prems True in \<open>auto simp: nth_list_update\<close>)
      then show ?thesis using Cons.prems True by simp
    next
      case False
      then have "k \<noteq> last xs" using Cons.prems(3) last_in_set [of xs] by auto
      then show ?thesis using Cons False by simp
    qed
  qed simp
qed

lemma lower_first_free_le: "lower_first_free ps n \<le> n"
  by (induction ps n rule: lower_first_free.induct) auto

lemma lower_first_free_above:
  "\<lbrakk>lower_first_free ps n \<le> k; k < n\<rbrakk> \<Longrightarrow> key (ps ! k) = JS_UNINITIALIZED"
  by (induction ps n rule: lower_first_free.induct) (auto simp: less_Suc_eq split: if_splits)

lemma lower_first_free_top:
  "0 < lower_first_free ps n \<Longrightarrow> key (ps ! (lower_first_free ps n - 1)) \<noteq> JS_UNINITIALIZED"
  by (induction ps n rule: lower_first_free.induct) auto

lemma live_lower:
  assumes "m \<le> n" "n \<le> length ps" "\<And>k. m \<le> k \<Longrightarrow> k < n \<Longrightarrow> key (ps ! k) = JS_UNINITIALIZED"
  shows "live ps n = live ps m" "bucket mk ps n h = bucket mk ps m h"
proof -
  have "live ps n = live ps m \<and> bucket mk ps n h = bucket mk ps m h" using assms
  proof (induction n)
    case (Suc n)
    then show ?case by (cases "m = Suc n") (auto simp: live_Suc bucket_Suc)
  qed simp
  then show "live ps n = live ps m" "bucket mk ps n h = bucket mk ps m h" by auto
qed

lemma live_distinct_nth:
  "\<lbrakk>distinct (map key (live ps n)); n \<le> length ps; i < n; k < n; key (ps ! i) = key (ps ! k); key (ps ! i) \<noteq> JS_UNINITIALIZED\<rbrakk>
   \<Longrightarrow> i = k"
proof (induction n)
  case (Suc n)
  have d: "distinct (map key (live ps n))" using Suc.prems(1,2) by (simp add: live_Suc split: if_splits)
  have new: "key (ps ! j) \<noteq> key (ps ! n)" if "j < n" "key (ps ! n) \<noteq> JS_UNINITIALIZED" for j
  proof
    assume e: "key (ps ! j) = key (ps ! n)"
    have "ps ! j \<in> set (live ps n)" using that e Suc.prems(2) by (auto simp: set_live)
    moreover have "key (ps ! n) \<notin> key ` set (live ps n)" using Suc.prems(1,2) that(2) by (simp add: live_Suc)
    ultimately show False using e by (metis image_eqI)
  qed
  show ?case
    using Suc d new [of i] new [of k] by (cases "i = n"; cases "k = n") (auto simp: less_Suc_eq)
qed simp

lemma live_kill:
  assumes "m \<le> length ps" "length ps' = length ps"
    and "\<And>k. k < m \<Longrightarrow> k \<noteq> i \<Longrightarrow> prop_entry (ps' ! k) = prop_entry (ps ! k) \<and> key (ps ! k) \<noteq> prop"
    and "key (ps' ! i) = JS_UNINITIALIZED" "key (ps ! i) = prop"
  shows "map prop_entry (live ps' m) = filter (\<lambda>e. fst e \<noteq> prop) (map prop_entry (live ps m))"
  using assms
proof (induction m)
  case (Suc m)
  then show ?case
    by (cases "m = i") (auto simp: live_Suc prop_entry_def)
qed simp

lemma length_filter_key:
  assumes "distinct (map fst L)" "p \<in> fst ` set L"
  shows "length (filter (\<lambda>e. fst e \<noteq> p) L) = length L - 1"
  using assms
proof (induction L)
  case (Cons e L)
  show ?case
  proof (cases "fst e = p")
    case True
    then have "filter (\<lambda>e. fst e \<noteq> p) L = L" by (intro filter_True) (use True Cons.prems(1) in \<open>auto simp: image_iff\<close>)
    then show ?thesis using True by simp
  next
    case False
    then have "p \<in> fst ` set L" using Cons.prems(2) by auto
    then have "L \<noteq> []" by auto
    then show ?thesis using Cons False \<open>p \<in> fst ` set L\<close> by (cases L) auto
  qed
qed simp

lemma bucket_kill:
  assumes "\<And>k. k < n \<Longrightarrow> k \<noteq> i \<Longrightarrow> key (ps' ! k) = key (ps ! k)" "key (ps' ! i) = JS_UNINITIALIZED"
  shows "bucket m ps' n h = filter (\<lambda>k. k \<noteq> i) (bucket m ps n h)"
  using assms by (induction n) (auto simp: bucket_Suc)

lemma filter_middle:
  assumes "distinct (xs @ i # ys)"
  shows "filter (\<lambda>k. k \<noteq> i) (xs @ i # ys) = xs @ ys"
proof -
  have "filter (\<lambda>k. k \<noteq> i) xs = xs" "filter (\<lambda>k. k \<noteq> i) ys = ys"
    using assms by (auto intro!: filter_True)
  then show ?thesis by simp
qed

text \<open>Unlinking slot \<open>i\<close>, whose chain is \<open>xs @ i # ys\<close>, changes links only.\<close>

lemma unlink_ok:
  assumes inv: "props_inv t n" and s: "slots t \<noteq> []" and i: "i < n" "key (slots t ! i) = prop"
    and h: "h = hash_prop prop AND hash_mask t"
    and xy: "rev (bucket (hash_mask t) (slots t) n h) = xs @ i # ys"
  defines "t1 \<equiv> unlink t h (base t + 3 * i) (if xs = [] then None else Some (base t + 3 * last xs))"
  shows "base t1 = base t \<and> hash_mask t1 = hash_mask t \<and> prop_count t1 = prop_count t \<and> in_rom t1 = in_rom t
     \<and> length (slots t1) = length (slots t) \<and> length (heads t1) = length (heads t)"
    and "prop_entry (slots t1 ! k) = prop_entry (slots t ! k)"
    and "get_first_free t1 = get_first_free t"
    and "h' \<le> hash_mask t \<Longrightarrow>
      is_chain (base t) (slots t1) (heads t1 ! h') (filter (\<lambda>k. k \<noteq> i) (rev (bucket (hash_mask t) (slots t) n h')))"
proof -
  have n: "n \<le> length (slots t)" and hl: "length (heads t) = hash_mask t + 1"
    using inv by (simp_all add: props_inv_def chains_ok_def)
  have hm: "h \<le> hash_mask t" by (simp add: h and_le)
  have dist: "distinct (xs @ i # ys)" unfolding xy [symmetric] by (simp add: bucket_def)
  have lx: "last xs \<in> set (bucket (hash_mask t) (slots t) n h)" if "xs \<noteq> []"
    using that xy by (metis Un_iff last_in_set set_append set_rev)
  then have lx': "last xs < n \<and> key (slots t ! last xs) \<noteq> JS_UNINITIALIZED" if "xs \<noteq> []"
    using that by (simp add: set_bucket)
  have t1: "slots t1 = (if xs = [] then slots t
        else (slots t)[last xs := (slots t ! last xs)\<lparr>hash_next := hash_next (slots t ! i)\<rparr>])"
    "heads t1 = (if xs = [] then (heads t)[h := hash_next (slots t ! i)] else heads t)"
    "hash_mask t1 = hash_mask t" "prop_count t1 = prop_count t" "in_rom t1 = in_rom t"
    by (simp_all add: t1_def unlink_def Let_def)
  show rest: "base t1 = base t \<and> hash_mask t1 = hash_mask t \<and> prop_count t1 = prop_count t \<and> in_rom t1 = in_rom t
     \<and> length (slots t1) = length (slots t) \<and> length (heads t1) = length (heads t)"
    by (simp add: base_def t1)
  show "prop_entry (slots t1 ! k) = prop_entry (slots t ! k)"
    using lx' n by (cases "k < length (slots t)") (auto simp: t1 prop_entry_def nth_list_update)
  have "key (last (slots t1)) = key (last (slots t))"
    "key (last (slots t)) = JS_UNINITIALIZED \<Longrightarrow> last (slots t1) = last (slots t)"
    using lx' n s by (auto simp: t1 last_list_update last_conv_nth [of "slots t"])
  then show "get_first_free t1 = get_first_free t" by (simp add: get_first_free_def arr_size_def rest)
  assume h': "h' \<le> hash_mask t"
  have c: "is_chain (base t) (slots t) (heads t ! h') (rev (bucket (hash_mask t) (slots t) n h'))"
    using inv h' unfolding props_inv_def chains_ok_def by blast
  show "is_chain (base t) (slots t1) (heads t1 ! h') (filter (\<lambda>k. k \<noteq> i) (rev (bucket (hash_mask t) (slots t) n h')))"
  proof (cases "h' = h")
    case True
    show ?thesis
      using unlink_chain [OF c [unfolded True xy] dist] hl hm True
      unfolding True xy filter_middle [OF dist] t1 by (cases "xs = []") simp_all
  next
    case False
    have ni: "filter (\<lambda>k. k \<noteq> i) (rev (bucket (hash_mask t) (slots t) n h')) = rev (bucket (hash_mask t) (slots t) n h')"
      using False i h by (intro filter_True) (auto simp: set_bucket)
    have nl: "k \<noteq> last xs" if "xs \<noteq> []" "k \<in> set (bucket (hash_mask t) (slots t) n h')" for k
      using lx [OF that(1)] that(2) False by (auto simp: set_bucket)
    have "hash_next (slots t1 ! k) = hash_next (slots t ! k)" if "k \<in> set (bucket (hash_mask t) (slots t) n h')" for k
      using nl [OF _ that] by (auto simp: t1)
    then have "is_chain (base t) (slots t1) (heads t ! h') (rev (bucket (hash_mask t) (slots t) n h'))"
      by (intro is_chain_cong [OF c]) (simp_all add: rest)
    moreover have "heads t1 ! h' = heads t ! h'" using False by (simp add: t1)
    ultimately show ?thesis unfolding ni by simp
  qed
qed

text \<open>Clearing slot \<open>i\<close> of a list whose chains already leave it out, and lowering the free mark to \<open>m\<close>.\<close>

lemma clear_slot_ok:
  assumes inv: "props_inv t n" and i: "i < n" "key (slots t ! i) = prop" "prop \<noteq> JS_UNINITIALIZED"
    and mn: "m \<le> n" and len: "length ps = length (slots t)" and r: "hash_mask t' = hash_mask t" "slots t' = ps"
      "length (heads t') = hash_mask t + 1" "prop_count t' = prop_count t - 1"
    and ps_i: "key (ps ! i) = JS_UNINITIALIZED"
    and ps_k: "\<And>k. k < n \<Longrightarrow> k \<noteq> i \<Longrightarrow> prop_entry (ps ! k) = prop_entry (slots t ! k)"
    and above: "\<And>k. m \<le> k \<Longrightarrow> k < n \<Longrightarrow> key (ps ! k) = JS_UNINITIALIZED"
    and chain: "\<And>h. h \<le> hash_mask t \<Longrightarrow>
      is_chain (base t) ps (heads t' ! h) (filter (\<lambda>k. k \<noteq> i) (rev (bucket (hash_mask t) (slots t) n h)))"
  shows "props_inv t' m"
    and "map prop_entry (live ps m) = filter (\<lambda>e. fst e \<noteq> prop) (map prop_entry (live (slots t) n))"
proof -
  have n: "n \<le> length (slots t)" and dk: "distinct (map key (live (slots t) n))" and cnt: "prop_count t = length (live (slots t) n)"
    using inv by (simp_all add: props_inv_def)
  let ?L = "map prop_entry (live (slots t) n)"
  have lower: "live ps n = live ps m" "bucket mk ps n h = bucket mk ps m h" for mk h
    using live_lower [of m n ps] mn n len above by simp_all
  show live': "map prop_entry (live ps m) = filter (\<lambda>e. fst e \<noteq> prop) ?L"
    unfolding lower(1) [symmetric]
  proof (rule live_kill [where i = i])
    show "prop_entry (ps ! k) = prop_entry (slots t ! k) \<and> key (slots t ! k) \<noteq> prop" if "k < n" "k \<noteq> i" for k
      using ps_k that live_distinct_nth [OF dk n that(1) i(1)] i by auto
  qed (use n len ps_i i in auto)
  have bk: "rev (bucket (hash_mask t) ps m h) = filter (\<lambda>k. k \<noteq> i) (rev (bucket (hash_mask t) (slots t) n h))" for h
  proof -
    have "bucket (hash_mask t) ps n h = filter (\<lambda>k. k \<noteq> i) (bucket (hash_mask t) (slots t) n h)"
      using ps_k ps_i by (intro bucket_kill) (auto simp: prop_entry_def)
    then show ?thesis by (simp add: rev_filter flip: lower(2))
  qed
  have "base t' = base t" using r by (simp add: base_def)
  then have "chains_ok t' m" unfolding chains_ok_def r bk using chain by simp
  moreover have d: "distinct (map fst ?L)" using dk unfolding keys_of_entries .
  moreover have "prop \<in> fst ` set ?L"
    using i n by (force simp: set_live prop_entry_def image_iff)
  moreover have "length (live ps m) = length (filter (\<lambda>e. fst e \<noteq> prop) ?L)" using live' by (metis length_map)
  ultimately show "props_inv t' m"
    unfolding props_inv_def r keys_of_entries live' using mn n len length_filter_key [OF d] cnt
    by (simp add: distinct_map_filter)
qed

lemma delete_found_ok:
  assumes ok: "props_ok t" and i: "i < used t" "key (slots t ! i) = prop" "prop \<noteq> JS_UNINITIALIZED"
    and h: "h = hash_prop prop AND hash_mask t"
    and xy: "rev (bucket (hash_mask t) (slots t) (used t) h) = xs @ i # ys"
  defines "t' \<equiv> delete_found t h (base t + 3 * i) (if xs = [] then None else Some (base t + 3 * last xs))"
  shows "props_ok t'" "props_list t' = filter (\<lambda>e. fst e \<noteq> prop) (props_list t)" "in_rom t' = in_rom t"
proof -
  define t1 where "t1 = unlink t h (base t + 3 * i) (if xs = [] then None else Some (base t + 3 * last xs))"
  define ps where "ps = (slots t1)[i := (slots t1 ! i)\<lparr>ptype := JS_PROP_NORMAL, key := JS_UNINITIALIZED, pvalue := JS_UNDEFINED\<rparr>]"
  let ?n = "used t"
  define m where "m = lower_first_free ps ?n"
  define ps' where "ps' = (if m < length (slots t) then set_last_link ps (base t + 3 * m) else ps)"
  have inv: "props_inv t ?n" using ok by (simp add: props_ok_def)
  then have n: "?n \<le> length (slots t)" and hl: "length (heads t) = hash_mask t + 1"
    by (simp_all add: props_inv_def chains_ok_def)
  have s: "slots t \<noteq> []" using i n by auto
  note u = unlink_ok [OF inv s i(1,2) h xy, folded t1_def]
  have ff: "slot_no t (get_first_free t1) = ?n" using s u(3) by (simp add: used_def)
  have t': "t' = t1\<lparr>prop_count := prop_count t - 1, slots := ps'\<rparr>"
  proof -
    have "base t + 3 * m < arr_size t1 \<longleftrightarrow> m < length (slots t)" using u(1) by (simp add: arr_size_def)
    then show ?thesis
      unfolding t'_def delete_found_def Let_def t1_def [symmetric] ff slot_no_base ps_def [symmetric] m_def [symmetric]
      using u(1) by (simp add: ps'_def)
  qed
  show "in_rom t' = in_rom t" using u(1) by (simp add: t')
  have lps: "length ps = length (slots t)" "length ps' = length (slots t)" using u(1) by (simp_all add: ps_def ps'_def)
  have mn: "m \<le> ?n" by (simp add: m_def lower_first_free_le)
  have ps_i: "key (ps ! i) = JS_UNINITIALIZED" using i n u(1) by (simp add: ps_def)
  have ps_k: "prop_entry (ps ! k) = prop_entry (slots t ! k)" "hash_next (ps ! k) = hash_next (slots t1 ! k)" if "k \<noteq> i" for k
    using that u(2) by (simp_all add: ps_def)
  have last_u: "key (ps ! (length (slots t) - 1)) = JS_UNINITIALIZED" if m: "m < length (slots t)"
  proof (cases "?n = length (slots t)")
    case True then show ?thesis using lower_first_free_above [of ps ?n "length (slots t) - 1"] m by (simp add: m_def)
  next
    case False
    then have "key (last (slots t)) = JS_UNINITIALIZED"
      using s by (auto simp: used_def get_first_free_def arr_size_def split: if_splits)
    then show ?thesis using s ps_i ps_k(1) [of "length (slots t) - 1"]
      by (cases "length (slots t) - 1 = i") (auto simp: last_conv_nth prop_entry_def)
  qed
  have ps'_e: "prop_entry (ps' ! k) = prop_entry (ps ! k)" if "k < length (slots t)" for k
    using that lps by (auto simp: ps'_def set_last_link_nth prop_entry_def)
  have ps'_key: "key (ps' ! k) = key (ps ! k)" if "k < length (slots t)" for k
    using ps'_e [OF that] by (simp add: prop_entry_def)
  have ps'_next: "hash_next (ps' ! k) = hash_next (ps ! k)" if "k < length (slots t)" "key (ps ! k) \<noteq> JS_UNINITIALIZED" for k
    using that last_u lps by (auto simp: ps'_def set_last_link_nth)
  have chain: "is_chain (base t) ps' (heads t' ! h') (filter (\<lambda>k. k \<noteq> i) (rev (bucket (hash_mask t) (slots t) ?n h')))"
    if "h' \<le> hash_mask t" for h'
  proof (rule is_chain_cong)
    show "is_chain (base t) (slots t1) (heads t' ! h') (filter (\<lambda>k. k \<noteq> i) (rev (bucket (hash_mask t) (slots t) ?n h')))"
      using u(4) [OF that] by (simp add: t')
    show "length (slots t1) \<le> length ps'" using u(1) lps by simp
    fix k assume "k \<in> set (filter (\<lambda>k. k \<noteq> i) (rev (bucket (hash_mask t) (slots t) ?n h')))"
    then have "k \<noteq> i" "k < ?n" "key (slots t ! k) \<noteq> JS_UNINITIALIZED" by (auto simp: set_bucket)
    then show "hash_next (ps' ! k) = hash_next (slots t1 ! k)"
      using ps'_next [of k] ps_k [of k] n by (simp add: prop_entry_def)
  qed
  have above: "key (ps' ! k) = JS_UNINITIALIZED" if "m \<le> k" "k < ?n" for k
    using lower_first_free_above [of ps ?n k] ps'_key [of k] that n by (simp add: m_def)
  have inv': "props_inv t' m" and live': "map prop_entry (live ps' m) = filter (\<lambda>e. fst e \<noteq> prop) (map prop_entry (live (slots t) ?n))"
    by (rule clear_slot_ok [OF inv i mn lps(2) _ _ _ _ _ _ above chain];
        use u(1) hl i n ps_i ps_k ps'_e ps'_key in \<open>simp add: t'\<close>)+
  have l': "last ps' = (if m < length (slots t) then (last ps)\<lparr>hash_next := base t + 3 * m\<rparr> else last ps)" "ps' \<noteq> []"
    using s lps by (auto simp: ps'_def last_set_last_link simp flip: length_greater_0_conv)
  have lp: "last ps = ps ! (length (slots t) - 1)" using s lps by (metis last_conv_nth length_0_conv)
  have "key (last ps') = JS_UNINITIALIZED \<and> hash_next (last ps') = base t + 3 * m" if "m < length ps'"
    using that last_u unfolding l'(1) lps lp by simp
  moreover have "key (last ps') \<noteq> JS_UNINITIALIZED" if "m = length ps'"
    using that s lower_first_free_top [of ps ?n, folded m_def] unfolding l'(1) lps lp by simp
  moreover have "slots t' = ps'" "base t' = base t" using u(1) by (simp_all add: t')
  ultimately have "props_ok t'" "used t' = m" using props_okI [OF inv'] l'(2) by simp_all
  then show "props_ok t'" "props_list t' = filter (\<lambda>e. fst e \<noteq> prop) (props_list t)"
    using live' \<open>slots t' = ps'\<close> by (simp_all add: props_list_def)
qed

subsection \<open>The property list as an ordered association list\<close>

lemma entry_in_props_list:
  assumes "i < used t" "used t \<le> length (slots t)" "key (slots t ! i) \<noteq> JS_UNINITIALIZED"
  shows "prop_entry (slots t ! i) \<in> set (props_list t)"
proof -
  have "slots t ! i \<in> set (live (slots t) (used t))" using assms by (auto simp: set_live)
  then show ?thesis by (simp add: props_list_def)
qed

lemma live_index:
  assumes "props_ok t" "prop \<in> fst ` set (props_list t)"
  obtains i xs ys where "i < used t" "key (slots t ! i) = prop" "prop \<noteq> JS_UNINITIALIZED"
    "rev (bucket (hash_mask t) (slots t) (used t) (hash_prop prop AND hash_mask t)) = xs @ i # ys"
    "\<forall>x \<in> set xs. key (slots t ! x) \<noteq> prop" "prop_entry (slots t ! i) \<in> set (props_list t)"
proof -
  have inv: "props_inv t (used t)" using assms(1) by (simp add: props_ok_def)
  then have n: "used t \<le> length (slots t)" by (simp add: props_inv_def)
  obtain i where i: "i < used t" "key (slots t ! i) = prop" "prop \<noteq> JS_UNINITIALIZED"
    using assms(2) n by (auto simp: props_list_def set_live prop_entry_def)
  have e: "prop_entry (slots t ! i) \<in> set (props_list t)" using entry_in_props_list i n by blast
  let ?b = "rev (bucket (hash_mask t) (slots t) (used t) (hash_prop prop AND hash_mask t))"
  have "i \<in> set ?b" using i by (simp add: set_bucket)
  then obtain xs ys where xy: "?b = xs @ i # ys" by (meson split_list)
  have "key (slots t ! x) \<noteq> prop" if "x \<in> set xs" for x
  proof
    assume k: "key (slots t ! x) = prop"
    have "x \<in> set ?b" using that xy by simp
    then have "x < used t" by (simp add: set_bucket)
    then have "x = i" using live_distinct_nth [of "slots t" "used t" x i] inv i k n by (simp add: props_inv_def)
    moreover have "distinct (xs @ i # ys)" unfolding xy [symmetric] by (simp add: bucket_def)
    ultimately show False using that by simp
  qed
  then show thesis using that i xy e by blast
qed

lemma chain_of:
  assumes "props_ok t"
  shows "is_chain (base t) (slots t) (heads t ! (hash_prop prop AND hash_mask t))
           (rev (bucket (hash_mask t) (slots t) (used t) (hash_prop prop AND hash_mask t)))"
  using assms and_le unfolding props_ok_def props_inv_def chains_ok_def by blast

lemma absent_bucket:
  assumes "props_ok t" "prop \<notin> fst ` set (props_list t)" "x \<in> set (bucket (hash_mask t) (slots t) (used t) h)"
  shows "key (slots t ! x) \<noteq> prop"
proof
  assume "key (slots t ! x) = prop"
  moreover have "used t \<le> length (slots t)" using assms(1) by (simp add: props_ok_def props_inv_def)
  ultimately have "prop_entry (slots t ! x) \<in> set (props_list t)" "fst (prop_entry (slots t ! x)) = prop"
    using assms(3) by (auto simp: set_bucket intro: entry_in_props_list) (simp add: prop_entry_def)
  then show False using assms(2) by (metis image_eqI)
qed

lemma find_own_property_ok:
  assumes ok: "props_ok t"
  shows "prop \<notin> fst ` set (props_list t) \<Longrightarrow> find_own_property t prop = Some None"
    and "prop \<in> fst ` set (props_list t) \<Longrightarrow>
         \<exists>idx. find_own_property t prop = Some (Some idx) \<and> prop_entry (slots t ! slot_no t idx) \<in> set (props_list t)
             \<and> key (slots t ! slot_no t idx) = prop"
proof -
  note f = find_loop_chain [OF chain_of [OF ok], of "prop" "prop", folded find_own_property_def]
  show "find_own_property t prop = Some None" if "prop \<notin> fst ` set (props_list t)"
  proof -
    have "List.find (\<lambda>i. key (slots t ! i) = prop) (rev (bucket (hash_mask t) (slots t) (used t) (hash_prop prop AND hash_mask t))) = None"
      using absent_bucket [OF ok that] by (auto simp: find_None_iff)
    then show ?thesis using f by simp
  qed
  assume "prop \<in> fst ` set (props_list t)"
  then obtain i xs ys where i: "key (slots t ! i) = prop" "prop_entry (slots t ! i) \<in> set (props_list t)"
    "rev (bucket (hash_mask t) (slots t) (used t) (hash_prop prop AND hash_mask t)) = xs @ i # ys"
    "\<forall>x \<in> set xs. key (slots t ! x) \<noteq> prop" using live_index [OF ok] by metis
  have "List.find (\<lambda>i. key (slots t ! i) = prop) (xs @ i # ys) = Some i"
    using i(1,4) by (induction xs) auto
  then show "\<exists>idx. find_own_property t prop = Some (Some idx) \<and> prop_entry (slots t ! slot_no t idx) \<in> set (props_list t)
             \<and> key (slots t ! slot_no t idx) = prop"
    using f i by auto
qed

definition resolve_special :: "nat list \<Rightarrow> nat list \<Rightarrow> nat \<times> nat \<times> prop_type \<Rightarrow> nat \<times> nat \<times> prop_type" where
  "resolve_special class_proto class_obj e =
     (case e of (k, v, ty) \<Rightarrow> if ty = JS_PROP_SPECIAL then (k, get_special_prop class_proto class_obj v, JS_PROP_NORMAL) else e)"

lemma js_update_props_ok:
  assumes "js_update_props cp co mem t = Inr (t', mem')" "props_ok t"
  shows "props_ok t' \<and> \<not> in_rom t' \<and> hash_mask t' = hash_mask t \<and> heads t' = heads t \<and> used t' = used t \<and> prop_count t' = prop_count t
     \<and> length (slots t') = length (slots t) \<and> (\<forall>k < length (slots t). key (slots t' ! k) = key (slots t ! k))
     \<and> props_list t' = (if in_rom t then map (resolve_special cp co) (props_list t) else props_list t)"
proof (cases "in_rom t")
  case False
  then show ?thesis using assms by (simp add: js_update_props_def)
next
  case True
  define f where "f = (\<lambda>pr :: JSProperty. if ptype pr = JS_PROP_SPECIAL
      then pr\<lparr>pvalue := get_special_prop cp co (pvalue pr), ptype := JS_PROP_NORMAL\<rparr> else pr)"
  have f: "key (f p) = key p" "hash_next (f p) = hash_next p" "prop_entry (f p) = resolve_special cp co (prop_entry p)" for p
    by (simp_all add: f_def resolve_special_def prop_entry_def)
  have t': "t' = t\<lparr>in_rom := False, slots := map f (slots t)\<rparr>"
    using assms(1) True by (auto simp: js_update_props_def f_def split: sum.splits)
  have u: "used t' = used t"
    by (auto simp: t' used_def get_first_free_def arr_size_def last_map f)
  have n: "used t \<le> length (slots t)" using assms(2) by (simp add: props_ok_def props_inv_def)
  have l: "live (map f (slots t)) k = map f (live (slots t) k)" for k
    by (simp add: live_def take_map filter_map comp_def f)
  have b: "bucket m (map f (slots t)) (used t) h = bucket m (slots t) (used t) h" for m h
    using n f by (intro bucket_cong) simp
  have c: "is_chain bs (map f (slots t)) idx is" if "is_chain bs (slots t) idx is" for bs idx "is"
    using that by (induction "is" arbitrary: idx) (auto simp: f)
  have "props_inv t' (used t)"
    using assms(2) c unfolding props_ok_def props_inv_def chains_ok_def
    by (simp add: t' l b comp_def f)
  then have "props_ok t'"
    using assms(2) unfolding props_ok_def u by (auto simp: t' last_map f)
  then show ?thesis using u n True by (simp add: props_list_def t' l comp_def f)
qed

lemma js_delete_property_ok:
  assumes ok: "props_ok t"
  shows "prop \<notin> fst ` set (props_list t) \<Longrightarrow> js_delete_property cp co mem t prop = Some (Inr (t, mem))"
    and "prop \<in> fst ` set (props_list t) \<Longrightarrow>
       (\<exists>e. in_rom t \<and> js_delete_property cp co mem t prop = Some (Inl e)) \<or>
       (\<exists>t' mem'. js_delete_property cp co mem t prop = Some (Inr (t', mem')) \<and> props_ok t' \<and> \<not> in_rom t'
          \<and> props_list t' = filter (\<lambda>e. fst e \<noteq> prop)
              (if in_rom t then map (resolve_special cp co) (props_list t) else props_list t))"
proof -
  let ?h = "hash_prop prop AND hash_mask t"
  note ch = chain_of [OF ok, of "prop"]
  show "js_delete_property cp co mem t prop = Some (Inr (t, mem))" if "prop \<notin> fst ` set (props_list t)"
  proof -
    have "delete_find t prop (heads t ! ?h) None = Some None"
      by (rule delete_find_chain(2) [OF ch]) (use absent_bucket [OF ok that] in simp)
    then show ?thesis by (simp add: js_delete_property_def Let_def)
  qed
  assume "prop \<in> fst ` set (props_list t)"
  then obtain i xs ys where i: "i < used t" "key (slots t ! i) = prop" "prop \<noteq> JS_UNINITIALIZED"
    "rev (bucket (hash_mask t) (slots t) (used t) ?h) = xs @ i # ys" "\<forall>x \<in> set xs. key (slots t ! x) \<noteq> prop"
    using live_index [OF ok] by metis
  define l where "l = (if xs = [] then None else Some (base t + 3 * last xs))"
  have d: "delete_find t prop (heads t ! ?h) None = Some (Some (base t + 3 * i, l))"
    unfolding l_def by (rule delete_find_chain(1) [OF ch i(4,2,5)])
  show "(\<exists>e. in_rom t \<and> js_delete_property cp co mem t prop = Some (Inl e)) \<or>
       (\<exists>t' mem'. js_delete_property cp co mem t prop = Some (Inr (t', mem')) \<and> props_ok t' \<and> \<not> in_rom t'
          \<and> props_list t' = filter (\<lambda>e. fst e \<noteq> prop)
              (if in_rom t then map (resolve_special cp co) (props_list t) else props_list t))"
  proof (cases "js_update_props cp co mem t")
    case (Inl e)
    then have "in_rom t" by (auto simp: js_update_props_def split: if_splits)
    then show ?thesis using d Inl by (simp add: js_delete_property_def Let_def)
  next
    case (Inr r)
    obtain t1 mem1 where r: "r = (t1, mem1)" by fastforce
    note u = js_update_props_ok [OF Inr [unfolded r] ok]
    have n: "used t \<le> length (slots t)" using ok by (simp add: props_ok_def props_inv_def)
    have b: "base t1 = base t" using u by (simp add: base_def)
    have bk: "bucket (hash_mask t) (slots t1) (used t) ?h = bucket (hash_mask t) (slots t) (used t) ?h"
      using u n by (intro bucket_cong) simp
    define t2 where "t2 = delete_found t1 ?h (base t + 3 * i) l"
    have t2: "props_ok t2" "props_list t2 = filter (\<lambda>e. fst e \<noteq> prop) (props_list t1)" "in_rom t2 = in_rom t1"
      unfolding t2_def l_def b [symmetric]
      by (rule delete_found_ok [of t1 i "prop" ?h xs ys]; use u i n bk in simp)+
    obtain t3 where t3: "js_compact_props t2 = Some t3" "props_ok t3" "props_list t3 = props_list t2" "\<not> in_rom t3"
      using js_compact_props_ok [OF t2(1)] t2(3) u by auto
    show ?thesis
      unfolding js_delete_property_def Let_def d option.case prod.case Inr r sum.case t2_def [symmetric]
      using t2 t3 u by auto
  qed
qed

lemma props_okI_any:
  assumes "props_inv t n" "n < length (slots t) \<Longrightarrow> key (last (slots t)) = JS_UNINITIALIZED \<and> hash_next (last (slots t)) = base t + 3 * n"
    and "\<lbrakk>n = length (slots t); slots t \<noteq> []\<rbrakk> \<Longrightarrow> key (last (slots t)) \<noteq> JS_UNINITIALIZED"
  shows "props_ok t \<and> used t = n"
proof (cases "slots t = []")
  case True
  then have "n = 0" "used t = 0" using assms(1) by (simp_all add: props_inv_def used_def)
  then show ?thesis using assms(1) True by (simp add: props_ok_def)
next
  case False
  then show ?thesis using props_okI [OF assms(1)] assms(2,3) by blast
qed

lemma used_cases:
  assumes "props_ok t" "slots t \<noteq> []"
  shows "used t < length (slots t) \<Longrightarrow> key (last (slots t)) = JS_UNINITIALIZED \<and> hash_next (last (slots t)) = base t + 3 * used t"
    and "used t = length (slots t) \<Longrightarrow> key (last (slots t)) \<noteq> JS_UNINITIALIZED"
proof -
  have "used t = length (slots t)" if "key (last (slots t)) \<noteq> JS_UNINITIALIZED"
    using that assms(2) by (simp add: used_def get_first_free_def arr_size_def)
  then show "used t < length (slots t) \<Longrightarrow> key (last (slots t)) = JS_UNINITIALIZED \<and> hash_next (last (slots t)) = base t + 3 * used t"
    and "used t = length (slots t) \<Longrightarrow> key (last (slots t)) \<noteq> JS_UNINITIALIZED"
    using assms unfolding props_ok_def by auto
qed

text \<open>The collector moves the strings that serve as keys; every key of the list is replaced by its new address.\<close>

definition rename_keys :: "(nat \<Rightarrow> nat) \<Rightarrow> props \<Rightarrow> props" where
  "rename_keys \<phi> t = t\<lparr>slots := map (\<lambda>p. p\<lparr>key := \<phi> (key p)\<rparr>) (slots t)\<rparr>"

lemma gc_rehash_ok:
  assumes ok: "props_ok t" and r: "\<not> in_rom t" and inj: "inj_on \<phi> (fst ` set (props_list t))"
    and u: "\<And>k. \<phi> k = JS_UNINITIALIZED \<longleftrightarrow> k = JS_UNINITIALIZED"
  shows "\<exists>t'. js_rehash_props (rename_keys \<phi> t) True = Some t' \<and> props_ok t'
     \<and> props_list t' = map (\<lambda>(k, v, ty). (\<phi> k, v, ty)) (props_list t)"
proof -
  let ?n = "used t" and ?f = "\<lambda>p :: JSProperty. p\<lparr>key := \<phi> (key p)\<rparr>" and ?t = "rename_keys \<phi> t"
  have inv: "props_inv t ?n" using ok by (simp add: props_ok_def)
  then have n: "?n \<le> length (slots t)" by (simp add: props_inv_def)
  have l: "live (slots ?t) ?n = map ?f (live (slots t) ?n)"
    by (simp add: live_def rename_keys_def take_map filter_map comp_def u)
  have dist: "distinct (map key (live (slots ?t) ?n))"
  proof -
    have "map key (live (slots ?t) ?n) = map \<phi> (map key (live (slots t) ?n))" by (simp add: l)
    then show ?thesis using inv inj by (simp add: props_inv_def distinct_map props_list_def prop_entry_def image_image comp_inj_on)
  qed
  have cnt: "prop_count ?t = length (live (slots ?t) ?n)" using inv unfolding l by (simp add: rename_keys_def props_inv_def)
  have "\<exists>t'. js_rehash_props ?t True = Some t' \<and> props_inv t' ?n \<and> same_but_links ?t t' ?n"
  proof (cases "hash_mask t = 0")
    case False
    then show ?thesis using js_rehash_props_ok [OF _ cnt dist] n r
      by (simp add: js_rehash_props_def rename_keys_def)
  next
    case True
    have "bucket 0 (slots ?t) ?n 0 = bucket 0 (slots t) ?n 0"
      using n u unfolding bucket_def by (intro filter_cong) (auto simp: rename_keys_def)
    moreover have "is_chain b (slots ?t) idx is" if "is_chain b (slots t) idx is" for b idx "is"
      using that by (induction "is" arbitrary: idx) (auto simp: rename_keys_def)
    ultimately have "chains_ok ?t ?n" using inv True
      by (simp add: props_inv_def chains_ok_def rename_keys_def)
    then have "props_inv ?t ?n" unfolding props_inv_def using n cnt dist by (simp add: rename_keys_def)
    then show ?thesis using True r same_but_links_refl by (simp add: js_rehash_props_def rename_keys_def)
  qed
  then obtain t' where t': "js_rehash_props ?t True = Some t'" "props_inv t' ?n" "same_but_links ?t t' ?n" by blast
  have len: "length (slots ?t) = length (slots t)" "length (slots t') = length (slots t)" "base t' = base t"
    using t'(3) by (simp_all add: rename_keys_def same_but_links_def base_def)
  have "last (slots ?t) = ?f (last (slots t))" if "slots t \<noteq> []" using that by (simp add: rename_keys_def last_map)
  then have lst: "(key (last (slots t')) = JS_UNINITIALIZED) = (key (last (slots t)) = JS_UNINITIALIZED)"
    "key (last (slots t)) = JS_UNINITIALIZED \<Longrightarrow> hash_next (last (slots t')) = hash_next (last (slots t))"
    if "slots t \<noteq> []"
    using same_but_links_last [OF t'(3)] that u len by (auto simp flip: length_greater_0_conv)
  have "props_ok t' \<and> used t' = ?n"
    using props_okI_any [OF t'(2)] used_cases [OF ok] lst len n by (metis length_0_conv not_less_zero)
  then show ?thesis using t'(1) same_but_links_live [OF t'(3), of ?n] n l len
    by (auto simp: props_list_def prop_entry_def comp_def)
qed

subsection \<open>Properties\<close>

text \<open>C1. A property list refines an association list in creation order.  Every chain walk ends: the lookup finds
  the entry of a key exactly when the list has one.  Creating an absent property appends it, with the value
  undefined, or reports that memory is exhausted; the list grows, doubles its hash table and relinks every
  chain on the way.  Deleting removes exactly the entry of the key, keeps the order of the others, unlinks
  the slot, moves the free mark down and compacts; it fails only when a list in read-only memory cannot be
  copied, and the copy resolves the special entries.  Each result satisfies the invariant again.\<close>

theorem property_list_refines:
  assumes "props_ok t" "prop \<noteq> JS_UNINITIALIZED"
  shows "(prop \<notin> fst ` set (props_list t) \<longrightarrow> find_own_property t prop = Some None)
     \<and> (prop \<in> fst ` set (props_list t) \<longrightarrow>
          (\<exists>idx. find_own_property t prop = Some (Some idx) \<and> key (slots t ! slot_no t idx) = prop
             \<and> prop_entry (slots t ! slot_no t idx) \<in> set (props_list t)))
     \<and> (prop \<notin> fst ` set (props_list t) \<and> \<not> in_rom t \<longrightarrow>
          (\<exists>e. js_create_property mem t prop = Some (Inl e)) \<or>
          (\<exists>t' idx mem'. js_create_property mem t prop = Some (Inr ((t', idx), mem')) \<and> props_ok t'
             \<and> props_list t' = props_list t @ [(prop, JS_UNDEFINED, JS_PROP_NORMAL)]))
     \<and> (prop \<notin> fst ` set (props_list t) \<longrightarrow> js_delete_property cp co mem t prop = Some (Inr (t, mem)))
     \<and> (prop \<in> fst ` set (props_list t) \<longrightarrow>
          (\<exists>e. in_rom t \<and> js_delete_property cp co mem t prop = Some (Inl e)) \<or>
          (\<exists>t' mem'. js_delete_property cp co mem t prop = Some (Inr (t', mem')) \<and> props_ok t'
             \<and> props_list t' = filter (\<lambda>e. fst e \<noteq> prop)
                 (if in_rom t then map (resolve_special cp co) (props_list t) else props_list t)))"
proof (intro conjI impI)
  show "find_own_property t prop = Some None" if "prop \<notin> fst ` set (props_list t)"
    by (rule find_own_property_ok(1) [OF assms(1) that])
  show "\<exists>idx. find_own_property t prop = Some (Some idx) \<and> key (slots t ! slot_no t idx) = prop
             \<and> prop_entry (slots t ! slot_no t idx) \<in> set (props_list t)" if "prop \<in> fst ` set (props_list t)"
    using find_own_property_ok(2) [OF assms(1) that] by blast
  show "(\<exists>e. js_create_property mem t prop = Some (Inl e)) \<or>
          (\<exists>t' idx mem'. js_create_property mem t prop = Some (Inr ((t', idx), mem')) \<and> props_ok t'
             \<and> props_list t' = props_list t @ [(prop, JS_UNDEFINED, JS_PROP_NORMAL)])"
    if "prop \<notin> fst ` set (props_list t) \<and> \<not> in_rom t"
    using js_create_property_ok [OF assms(1), of "prop" mem] assms(2) that by blast
  show "js_delete_property cp co mem t prop = Some (Inr (t, mem))" if "prop \<notin> fst ` set (props_list t)"
    by (rule js_delete_property_ok(1) [OF assms(1) that])
  show "(\<exists>e. in_rom t \<and> js_delete_property cp co mem t prop = Some (Inl e)) \<or>
          (\<exists>t' mem'. js_delete_property cp co mem t prop = Some (Inr (t', mem')) \<and> props_ok t'
             \<and> props_list t' = filter (\<lambda>e. fst e \<noteq> prop)
                 (if in_rom t then map (resolve_special cp co) (props_list t) else props_list t))"
    if "prop \<in> fst ` set (props_list t)"
    using js_delete_property_ok(2) [OF assms(1) that, of cp co mem] by blast
qed

text \<open>A list with two properties in two buckets.\<close>

definition two_props :: props where
  "two_props = \<lparr>prop_count = 2, hash_mask = 1, heads = [7, 4],
     slots = [\<lparr>key = 40, pvalue = 2, hash_next = 0, ptype = JS_PROP_NORMAL\<rparr>,
              \<lparr>key = 48, pvalue = 4, hash_next = 0, ptype = JS_PROP_NORMAL\<rparr>], in_rom = False\<rparr>"

lemma two_props_ok: "props_ok two_props" "props_list two_props = [(40, 2, JS_PROP_NORMAL), (48, 4, JS_PROP_NORMAL)]"
proof -
  have h: "hash_prop 40 AND 1 = 1" "hash_prop 48 AND 1 = 0" by (simp_all add: hash_prop_def JSW_def)
  have u: "used two_props = 2"
    by (simp add: used_def get_first_free_def arr_size_def slot_no_def base_def two_props_def JS_UNINITIALIZED_def)
  have b: "bucket 1 (slots two_props) 2 0 = [1]" "bucket 1 (slots two_props) 2 1 = [0]"
    using h by (simp_all add: bucket_def two_props_def JS_UNINITIALIZED_def upt_rec)
  have l: "live (slots two_props) 2 = slots two_props"
    by (simp add: live_def two_props_def JS_UNINITIALIZED_def)
  have m: "hash_mask two_props = 1" by (simp add: two_props_def)
  have "is_chain (base two_props) (slots two_props) (heads two_props ! h) (rev (bucket 1 (slots two_props) 2 h))"
    if "h \<le> 1" for h
  proof -
    have "h = 0 \<or> h = 1" using that by linarith
    then show ?thesis
      by (elim disjE) (simp_all only: b, simp_all add: two_props_def base_def)
  qed
  then have "chains_ok two_props 2" unfolding chains_ok_def m by (simp add: two_props_def)
  then show "props_ok two_props"
    unfolding props_ok_def props_inv_def u l by (simp add: two_props_def JS_UNINITIALIZED_def)
  show "props_list two_props = [(40, 2, JS_PROP_NORMAL), (48, 4, JS_PROP_NORMAL)]"
    unfolding props_list_def u l by (simp add: two_props_def prop_entry_def)
qed

theorem property_list_refines_witness:
  "(\<exists>t' mem'. js_delete_property [] [] 0 two_props 40 = Some (Inr (t', mem')) \<and> props_ok t'
      \<and> props_list t' = [(48, 4, JS_PROP_NORMAL)])
   \<and> find_own_property two_props 56 = Some None"
  using property_list_refines [OF two_props_ok(1), of 40 0 "[]" "[]"] property_list_refines [OF two_props_ok(1), of 56 0 "[]" "[]"]
    two_props_ok(2) by (simp add: JS_UNINITIALIZED_def two_props_def [THEN arg_cong, of in_rom])

text \<open>C2. After a collection has moved the keys, rehashing makes the list correct again: every lookup by a new
  key finds the entry of the old one, in the same order.  A list with a single chain is left as it is.\<close>

theorem gc_rehash_restores:
  assumes "props_ok t" "\<not> in_rom t" "inj_on \<phi> (fst ` set (props_list t))"
    and "\<And>k. \<phi> k = JS_UNINITIALIZED \<longleftrightarrow> k = JS_UNINITIALIZED"
  shows "\<exists>t'. js_rehash_props (rename_keys \<phi> t) True = Some t' \<and> props_ok t'
     \<and> props_list t' = map (\<lambda>(k, v, ty). (\<phi> k, v, ty)) (props_list t)
     \<and> (\<forall>k \<in> fst ` set (props_list t). \<exists>idx. find_own_property t' (\<phi> k) = Some (Some idx))"
proof -
  obtain t' where t': "js_rehash_props (rename_keys \<phi> t) True = Some t'" "props_ok t'"
    "props_list t' = map (\<lambda>(k, v, ty). (\<phi> k, v, ty)) (props_list t)" using gc_rehash_ok [OF assms] by blast
  have "\<exists>idx. find_own_property t' (\<phi> k) = Some (Some idx)" if "k \<in> fst ` set (props_list t)" for k
  proof -
    have "\<phi> k \<in> fst ` set (props_list t')" using that unfolding t'(3) by (auto simp: image_iff) force
    then show ?thesis using find_own_property_ok(2) [OF t'(2)] by blast
  qed
  then show ?thesis using t' by blast
qed

theorem gc_rehash_restores_witness:
  "\<exists>t'. js_rehash_props (rename_keys (\<lambda>k. if k = 40 then 48 else if k = 48 then 40 else k) two_props) True = Some t'
     \<and> props_list t' = [(48, 2, JS_PROP_NORMAL), (40, 4, JS_PROP_NORMAL)]"
proof -
  let ?\<phi> = "\<lambda>k :: nat. if k = 40 then 48 else if k = 48 then 40 else k"
  have "\<exists>t'. js_rehash_props (rename_keys ?\<phi> two_props) True = Some t' \<and> props_ok t'
     \<and> props_list t' = map (\<lambda>(k, v, ty). (?\<phi> k, v, ty)) (props_list two_props)
     \<and> (\<forall>k \<in> fst ` set (props_list two_props). \<exists>idx. find_own_property t' (?\<phi> k) = Some (Some idx))"
    by (rule gc_rehash_restores [OF two_props_ok(1)])
      (auto simp: two_props_ok(2) inj_on_def JS_UNINITIALIZED_def two_props_def split: if_splits)
  then show ?thesis by (auto simp: two_props_ok(2))
qed

end
