(* ===== verification/JSSort.thy ===== *)
theory JSSort
  imports JSArrays "HOL-Library.Multiset"
begin

section \<open>Sorting of arrays\<close>

text \<open>
  Models \<^verbatim>\<open>Array.prototype.sort\<close> of \<^verbatim>\<open>mquickjs.c\<close>: the heap sort \<^verbatim>\<open>rqsort_idx\<close> over
  a temporary table of values with their positions, the comparison that makes the sort stable, and
  \<^verbatim>\<open>js_array_sort\<close>.  A call of the comparison function, and the string comparison used without one,
  are parameters that give the outcome of the call for two values; a function that changes the array while it
  is sorted is therefore not covered.  Two consecutive words of the table are one pair.
\<close>

subsection \<open>The table and the comparison\<close>

datatype sort_call = Val int | Threw | Failed

record 'v JSArraySortContext =
  tab :: "('v \<times> nat) list"
  exc :: bool

definition sign :: "int \<Rightarrow> int" where
  "sign v = (if v > 0 then 1 else 0) - (if v < 0 then 1 else 0)"

definition JS_EXCEPTION_int :: int where
  "JS_EXCEPTION_int = 15"

definition compare_offsets :: "nat \<Rightarrow> nat \<Rightarrow> int" where
  "compare_offsets j1 j2 = (if j1 > j2 then 1 else 0) - (if j1 < j2 then 1 else 0)"

definition js_array_sort_cmp ::
    "('v \<Rightarrow> 'v \<Rightarrow> sort_call) option \<Rightarrow> ('v \<Rightarrow> 'v \<Rightarrow> sort_call) \<Rightarrow> 'v JSArraySortContext \<Rightarrow> nat \<Rightarrow> nat
      \<Rightarrow> int \<times> 'v JSArraySortContext" where
  "js_array_sort_cmp pfunc string_compare s i1 i2 =
     (if exc s then (0, s)
      else let v1 = fst (tab s ! i1); v2 = fst (tab s ! i2);
               same = (compare_offsets (snd (tab s ! i1)) (snd (tab s ! i2)), s)
           in case pfunc of
                Some f \<Rightarrow>
                  if v1 = v2 then same
                  else (case f v1 v2 of
                          Threw \<Rightarrow> (JS_EXCEPTION_int, s)
                        | Failed \<Rightarrow> (0, s\<lparr>exc := True\<rparr>)
                        | Val val \<Rightarrow> if sign val \<noteq> 0 then (sign val, s) else same)
              | None \<Rightarrow>
                  (case string_compare v1 v2 of
                     Val val \<Rightarrow> if val \<noteq> 0 then (val, s) else same
                   | _ \<Rightarrow> (0, s\<lparr>exc := True\<rparr>)))"

definition swap_list :: "'a list \<Rightarrow> nat \<Rightarrow> nat \<Rightarrow> 'a list" where
  "swap_list d i1 i2 = d[i1 := d ! i2, i2 := d ! i1]"

definition js_array_sort_swap :: "'v JSArraySortContext \<Rightarrow> nat \<Rightarrow> nat \<Rightarrow> 'v JSArraySortContext" where
  "js_array_sort_swap s i1 i2 = s\<lparr>tab := swap_list (tab s) i1 i2\<rparr>"

subsection \<open>Heap sort\<close>

type_synonym 's cmp_fun = "'s \<Rightarrow> nat \<Rightarrow> nat \<Rightarrow> int \<times> 's"

type_synonym 's swap_fun = "'s \<Rightarrow> nat \<Rightarrow> nat \<Rightarrow> 's"

function sift :: "'s cmp_fun \<Rightarrow> 's swap_fun \<Rightarrow> 's \<Rightarrow> nat \<Rightarrow> nat \<Rightarrow> 's" where
  "sift cmp swap s n r =
     (let c = r * 2 + 1
      in if c < n then
           (let (c, s) = (if c < n - 1 then (let (x, s') = cmp s c (c + 1) in (if x \<le> 0 then c + 1 else c, s')) else (c, s));
                (y, s) = cmp s r c
            in if y > 0 then s else sift cmp swap (swap s r c) n c)
         else s)"
  by pat_completeness auto
termination
  by (relation "measure (\<lambda>(cmp, swap, s, n, r). n - r)") (auto split: if_splits prod.splits)

declare sift.simps [simp del]

fun build_loop :: "'s cmp_fun \<Rightarrow> 's swap_fun \<Rightarrow> 's \<Rightarrow> nat \<Rightarrow> nat \<Rightarrow> 's" where
  "build_loop cmp swap s n 0 = s"
| "build_loop cmp swap s n (Suc i) = build_loop cmp swap (sift cmp swap s n i) n i"

fun sort_loop :: "'s cmp_fun \<Rightarrow> 's swap_fun \<Rightarrow> 's \<Rightarrow> nat \<Rightarrow> 's" where
  "sort_loop cmp swap s 0 = s"
| "sort_loop cmp swap s (Suc i) = sort_loop cmp swap (sift cmp swap (swap s 0 (Suc i)) (Suc i) 0) i"

definition rqsort_idx :: "nat \<Rightarrow> 's cmp_fun \<Rightarrow> 's swap_fun \<Rightarrow> 's \<Rightarrow> 's" where
  "rqsort_idx nmemb cmp swap s =
     (if nmemb > 1 then sort_loop cmp swap (build_loop cmp swap s nmemb (nmemb div 2)) (nmemb - 1) else s)"

subsection \<open>Array.prototype.sort\<close>

datatype 'v sort_arg = Undefined_arg | Not_function | Function "'v \<Rightarrow> 'v \<Rightarrow> sort_call"

datatype sort_error = Not_a_function | No_memory | Compare_exception

definition js_array_sort ::
    "nat \<Rightarrow> 'v \<Rightarrow> ('v \<Rightarrow> 'v \<Rightarrow> sort_call) \<Rightarrow> 'v sort_arg \<Rightarrow> 'v list \<Rightarrow> sort_error + 'v list" where
  "js_array_sort mem undef string_compare arg arr =
     (case arg of Not_function \<Rightarrow> Inl Not_a_function
      | _ \<Rightarrow> let pfunc = (case arg of Function f \<Rightarrow> Some f | _ \<Rightarrow> None); len = length arr
           in case js_alloc_value_array mem undef (len * 2) of
                Inl e \<Rightarrow> Inl No_memory
              | Inr _ \<Rightarrow>
                  (let pairs = filter (\<lambda>(v, i). v \<noteq> undef) (zip arr [0..<len]);
                       n = length pairs;
                       s = rqsort_idx n (js_array_sort_cmp pfunc string_compare) js_array_sort_swap
                             \<lparr>tab = pairs @ replicate (len - n) (undef, 5), exc = False\<rparr>
                   in if exc s then Inl Compare_exception else Inr (map fst (tab s))))"

subsection \<open>Sifting on a list\<close>

text \<open>When no comparison fails the context only changes by swaps, and the sort is the one on the list.\<close>

function psift :: "('a \<Rightarrow> 'a \<Rightarrow> int) \<Rightarrow> 'a list \<Rightarrow> nat \<Rightarrow> nat \<Rightarrow> 'a list" where
  "psift ord d n r =
     (let c0 = r * 2 + 1; c = (if c0 < n - 1 \<and> ord (d ! c0) (d ! (c0 + 1)) \<le> 0 then c0 + 1 else c0)
      in if c0 < n then (if ord (d ! r) (d ! c) > 0 then d else psift ord (swap_list d r c) n c) else d)"
  by pat_completeness auto
termination by (relation "measure (\<lambda>(ord, d, n, r). n - r)") auto

declare psift.simps [simp del]

definition cmp_pure :: "'v JSArraySortContext cmp_fun \<Rightarrow> ('v \<times> nat \<Rightarrow> 'v \<times> nat \<Rightarrow> int) \<Rightarrow> bool" where
  "cmp_pure cmp ord \<longleftrightarrow> (\<forall>s i j. \<not> exc s \<longrightarrow> cmp s i j = (ord (tab s ! i) (tab s ! j), s))"

lemma sift_psift:
  assumes "cmp_pure cmp ord" "\<not> exc s"
  shows "sift cmp js_array_sort_swap s n r = s\<lparr>tab := psift ord (tab s) n r\<rparr>"
  using assms(2)
proof (induction "n - r" arbitrary: s r rule: less_induct)
  case less
  have c: "cmp s i j = (ord (tab s ! i) (tab s ! j), s)" for i j
    using assms(1) less.prems by (simp add: cmp_pure_def)
  define c' where "c' = (if r * 2 + 1 < n - 1 \<and> ord (tab s ! (r * 2 + 1)) (tab s ! (r * 2 + 1 + 1)) \<le> 0
    then r * 2 + 1 + 1 else r * 2 + 1)"
  have c': "(if r * 2 + 1 < n - 1 then (let (x, s') = cmp s (r * 2 + 1) (r * 2 + 1 + 1)
      in (if x \<le> 0 then r * 2 + 1 + 1 else r * 2 + 1, s')) else (r * 2 + 1, s)) = (c', s)"
    by (simp add: c c'_def)
  have p: "psift ord (tab s) n r = (if r * 2 + 1 < n then (if ord (tab s ! r) (tab s ! c') > 0 then tab s
      else psift ord (swap_list (tab s) r c') n c') else tab s)"
    unfolding psift.simps [of ord "tab s" n r] Let_def c'_def [symmetric] ..
  have q: "sift cmp js_array_sort_swap s n r = (if r * 2 + 1 < n then (if ord (tab s ! r) (tab s ! c') > 0 then s
      else sift cmp js_array_sort_swap (js_array_sort_swap s r c') n c') else s)"
    unfolding sift.simps [of cmp js_array_sort_swap s n r] Let_def [of "r * 2 + 1"] c' by (simp add: c)
  have "n - c' < n - r" if "r * 2 + 1 < n" using that by (auto simp: c'_def)
  then show ?case unfolding p q using less.hyps [of c' "js_array_sort_swap s r c'"] less.prems
    by (simp add: js_array_sort_swap_def)
qed

subsection \<open>The heap\<close>

definition parent :: "nat \<Rightarrow> nat" where
  "parent j = (j - 1) div 2"

definition is_order :: "('a \<Rightarrow> 'a \<Rightarrow> int) \<Rightarrow> bool" where
  "is_order ord \<longleftrightarrow> (\<forall>a b. ord a b > 0 \<longrightarrow> ord b a \<le> 0) \<and> (\<forall>a b c. ord a b \<le> 0 \<and> ord b c \<le> 0 \<longrightarrow> ord a c \<le> 0)"

definition max_heap :: "('a \<Rightarrow> 'a \<Rightarrow> int) \<Rightarrow> nat \<Rightarrow> 'a list \<Rightarrow> nat \<Rightarrow> bool" where
  "max_heap ord k d n \<longleftrightarrow> (\<forall>j. 0 < j \<and> j < n \<and> k \<le> parent j \<longrightarrow> ord (d ! j) (d ! parent j) \<le> 0)"

lemma is_orderD:
  assumes "is_order ord"
  shows "0 < ord a b \<Longrightarrow> ord b a \<le> 0" "\<lbrakk>ord a b \<le> 0; ord b c \<le> 0\<rbrakk> \<Longrightarrow> ord a c \<le> 0" "ord a a \<le> 0"
  using assms unfolding is_order_def by (blast, blast, meson not_le)

lemma parent_iff: "0 < j \<Longrightarrow> parent j = i \<longleftrightarrow> j = 2 * i + 1 \<or> j = 2 * i + 2"
  unfolding parent_def by linarith

lemma parent_less: "0 < j \<Longrightarrow> parent j < j"
  unfolding parent_def by linarith

lemma swap_list_simps [simp]: "length (swap_list d i j) = length d"
  by (simp add: swap_list_def)

lemma swap_list_nth:
  "\<lbrakk>i < length d; j < length d; k < length d\<rbrakk> \<Longrightarrow> swap_list d i j ! k = (if k = j then d ! i else if k = i then d ! j else d ! k)"
  by (simp add: swap_list_def nth_list_update)

lemma swap_list_mset:
  assumes "i < n" "j < n" "n \<le> length d"
  shows "mset (take n (swap_list d i j)) = mset (take n d)" "drop n (swap_list d i j) = drop n d"
proof -
  have "take n (swap_list d i j) = swap_list (take n d) i j"
    using assms by (simp add: swap_list_def take_update_swap)
  then show "mset (take n (swap_list d i j)) = mset (take n d)"
    using assms mset_swap [of j "take n d" i] by (simp add: swap_list_def)
  show "drop n (swap_list d i j) = drop n d" using assms by (simp add: swap_list_def)
qed

lemma greater_child:
  fixes d :: "'a list"
  assumes "is_order ord" "r * 2 + 1 < n"
  defines "c \<equiv> (if r * 2 + 1 < n - 1 \<and> ord (d ! (r * 2 + 1)) (d ! (r * 2 + 1 + 1)) \<le> 0 then r * 2 + 1 + 1 else r * 2 + 1)"
  shows "0 < c" "c < n" "parent c = r" "\<And>j. \<lbrakk>0 < j; j < n; parent j = r\<rbrakk> \<Longrightarrow> ord (d ! j) (d ! c) \<le> 0"
proof -
  show "0 < c" "c < n" "parent c = r" using assms(2) by (auto simp: c_def parent_def)
  fix j assume "0 < j" "j < n" "parent j = r"
  then have "j = r * 2 + 1 \<or> j = r * 2 + 1 + 1 \<and> r * 2 + 1 < n - 1" by (auto simp: parent_iff)
  then show "ord (d ! j) (d ! c) \<le> 0"
    using is_orderD [OF assms(1)] by (auto simp: c_def not_le)
qed

lemma psift_correct:
  assumes "is_order ord" "k \<le> r" "r < n" "n \<le> length d"
    and "\<And>j. \<lbrakk>0 < j; j < n; k \<le> parent j; parent j \<noteq> r\<rbrakk> \<Longrightarrow> ord (d ! j) (d ! parent j) \<le> 0"
    and "\<And>c. \<lbrakk>0 < c; c < n; parent c = r; 0 < r; k \<le> parent r\<rbrakk> \<Longrightarrow> ord (d ! c) (d ! parent r) \<le> 0"
  shows "max_heap ord k (psift ord d n r) n \<and> length (psift ord d n r) = length d
       \<and> drop n (psift ord d n r) = drop n d \<and> mset (take n (psift ord d n r)) = mset (take n d)"
  using assms(2-)
proof (induction "n - r" arbitrary: d r rule: less_induct)
  case less
  define c where "c = (if r * 2 + 1 < n - 1 \<and> ord (d ! (r * 2 + 1)) (d ! (r * 2 + 1 + 1)) \<le> 0 then r * 2 + 1 + 1 else r * 2 + 1)"
  have p: "psift ord d n r = (if r * 2 + 1 < n then (if ord (d ! r) (d ! c) > 0 then d
      else psift ord (swap_list d r c) n c) else d)"
    unfolding psift.simps [of ord d n r] Let_def c_def [symmetric] ..
  show ?case
  proof (cases "r * 2 + 1 < n")
    case False
    then have "parent j \<noteq> r" if "0 < j" "j < n" for j using that by (auto simp: parent_iff)
    then show ?thesis using False less.prems(4) by (simp add: p max_heap_def)
  next
    case True
    note c = greater_child [OF assms(1) True, where d = d, folded c_def]
    show ?thesis
    proof (cases "ord (d ! r) (d ! c) > 0")
      case g: True
      have "ord (d ! j) (d ! parent j) \<le> 0" if "0 < j" "j < n" "k \<le> parent j" for j
        using less.prems(4) [of j] c(4) [of j] is_orderD(1,2) [OF assms(1)] g that by (cases "parent j = r") blast+
      then show ?thesis using g by (simp add: p max_heap_def)
    next
      case le: False
      let ?d = "swap_list d r c"
      have lt: "r < c" using parent_less [OF c(1)] c(3) by simp
      have nth: "?d ! m = (if m = c then d ! r else if m = r then d ! c else d ! m)" if "m < n" for m
        using that less.prems(2,3) c(2) by (simp add: swap_list_nth)
      have c1: "ord (?d ! j) (?d ! parent j) \<le> 0" if j: "0 < j" "j < n" "k \<le> parent j" "parent j \<noteq> c" for j
      proof -
        have pj: "parent j < n" using parent_less [OF j(1)] j(2) by simp
        show ?thesis
        proof (cases "parent j = r")
          case True
          then have "j \<noteq> r" using parent_less [OF j(1)] by simp
          then show ?thesis using c(4) [OF j(1,2) True] le lt True nth [OF j(2)] nth [OF pj] by auto
        next
          case False
          then have "j \<noteq> c" using c(3) by auto
          then show ?thesis using less.prems(4) [OF j(1,2,3)] less.prems(5) [of c] False j c nth [OF j(2)] nth [OF pj]
            by (cases "j = r") auto
        qed
      qed
      have c2: "ord (?d ! j) (?d ! parent c) \<le> 0" if "0 < j" "j < n" "parent j = c" "0 < c" "k \<le> parent c" for j
      proof -
        have "c < j" using parent_less [OF that(1)] that(3) by simp
        then show ?thesis using less.prems(4) [of j] less.prems(1,2) that lt nth [of j] nth [of r] c by auto
      qed
      have nr: "n - c < n - r" using lt c(2) by linarith
      have "k \<le> c" "n \<le> length ?d" using less.prems(1,3) lt by simp_all
      note ih = less.hyps [OF nr this(1) c(2) this(2) c1 c2]
      have e: "psift ord d n r = psift ord ?d n c" unfolding p using True le by simp
      show ?thesis unfolding e using ih unfolding swap_list_mset [OF less.prems(2) c(2) less.prems(3)] swap_list_simps .
    qed
  qed
qed

lemma heap_root:
  assumes "is_order ord" "max_heap ord 0 d n"
  shows "j < n \<Longrightarrow> ord (d ! j) (d ! 0) \<le> 0"
proof (induction j rule: less_induct)
  case (less j)
  show ?case
  proof (cases "j = 0")
    case True then show ?thesis using is_orderD(3) [OF assms(1)] by simp
  next
    case False
    then have "ord (d ! j) (d ! parent j) \<le> 0" "ord (d ! parent j) (d ! 0) \<le> 0"
      using assms(2) less parent_less [of j] by (simp_all add: max_heap_def)
    then show ?thesis by (rule is_orderD(2) [OF assms(1)])
  qed
qed

text \<open>What a rearrangement of the first \<open>n\<close> entries keeps.\<close>

definition rearranged :: "nat \<Rightarrow> 'a list \<Rightarrow> 'a list \<Rightarrow> bool" where
  "rearranged n d e \<longleftrightarrow> length e = length d \<and> drop n e = drop n d \<and> mset (take n e) = mset (take n d)"

lemma rearranged_trans: "rearranged n d e \<Longrightarrow> rearranged n e f \<Longrightarrow> rearranged n d f"
  by (simp add: rearranged_def)

lemma rearranged_mono:
  assumes "rearranged m d e" "m \<le> n" "n \<le> length d"
  shows "rearranged n d e"
proof -
  have t: "take n x = take m x @ take (n - m) (drop m x)" for x :: "'a list"
    using assms(2) by (metis le_add_diff_inverse take_add)
  have "drop (n - m) (drop m e) = drop (n - m) (drop m d)" using assms(1) by (simp add: rearranged_def)
  then have "drop n e = drop n d" using assms(2) by simp
  then show ?thesis using assms(1) unfolding rearranged_def t [of e] t [of d] by simp
qed

lemma psift_rearranged:
  assumes "is_order ord" "r < n" "n \<le> length d" "max_heap ord (r + 1) d n"
  shows "max_heap ord r (psift ord d n r) n \<and> rearranged n d (psift ord d n r)"
proof -
  have "ord (d ! j) (d ! parent j) \<le> 0" if "0 < j" "j < n" "r \<le> parent j" "parent j \<noteq> r" for j
    using assms(4) that by (simp add: max_heap_def)
  moreover have "ord (d ! c) (d ! parent r) \<le> 0" if "0 < r" "r \<le> parent r" for c
    using parent_less [OF that(1)] that(2) by simp
  ultimately show ?thesis using psift_correct [OF assms(1) order_refl assms(2,3)] unfolding rearranged_def by blast
qed

lemma build_loop_correct:
  assumes "cmp_pure cmp ord" "is_order ord" "i < n"
  shows "\<lbrakk>\<not> exc s; n \<le> length (tab s); max_heap ord i (tab s) n\<rbrakk> \<Longrightarrow>
    \<exists>e. build_loop cmp js_array_sort_swap s n i = s\<lparr>tab := e\<rparr> \<and> max_heap ord 0 e n \<and> rearranged n (tab s) e"
  using assms(3)
proof (induction i arbitrary: s)
  case 0
  then show ?case by (intro exI [of _ "tab s"]) (simp add: rearranged_def)
next
  case (Suc i)
  define d where "d = psift ord (tab s) n i"
  have d: "max_heap ord i d n" "rearranged n (tab s) d"
    using psift_rearranged [OF assms(2), of i n "tab s"] Suc.prems by (simp_all add: d_def)
  obtain e where "build_loop cmp js_array_sort_swap (s\<lparr>tab := d\<rparr>) n i = s\<lparr>tab := e\<rparr>" "max_heap ord 0 e n" "rearranged n d e"
    using Suc.IH [of "s\<lparr>tab := d\<rparr>"] Suc.prems d by (auto simp: rearranged_def)
  then show ?case using sift_psift [OF assms(1) Suc.prems(1), of n i] rearranged_trans [OF d(2)] by (auto simp: d_def)
qed

text \<open>Before the step with index \<open>i\<close>: the first \<open>i + 1\<close> entries are a heap, the entries up to \<open>n\<close>
  are sorted, and no entry of the heap is above one of those.\<close>

definition sort_inv :: "('a \<Rightarrow> 'a \<Rightarrow> int) \<Rightarrow> nat \<Rightarrow> 'a list \<Rightarrow> nat \<Rightarrow> bool" where
  "sort_inv ord n d i \<longleftrightarrow> i < n \<and> n \<le> length d \<and> max_heap ord 0 d (i + 1)
     \<and> sorted_wrt (\<lambda>x y. ord x y \<le> 0) (drop (i + 1) (take n d))
     \<and> (\<forall>x \<in> set (take (i + 1) d). \<forall>y \<in> set (drop (i + 1) (take n d)). ord x y \<le> 0)"

lemma sort_step:
  assumes o: "is_order ord" and inv: "sort_inv ord n d (Suc i)"
  defines "e \<equiv> psift ord (swap_list d 0 (Suc i)) (Suc i) 0"
  shows "sort_inv ord n e i \<and> rearranged n d e"
proof -
  let ?d = "swap_list d 0 (Suc i)"
  have n: "Suc i < n" "n \<le> length d" and hp: "max_heap ord 0 d (Suc i + 1)" using inv by (simp_all add: sort_inv_def)
  have nth: "?d ! k = (if k = Suc i then d ! 0 else if k = 0 then d ! Suc i else d ! k)" if "k < length d" for k
  proof (rule swap_list_nth)
    show "0 < length d" "Suc i < length d" "k < length d" using n that by linarith+
  qed
  have sw: "mset (take (Suc i + 1) ?d) = mset (take (Suc i + 1) d)" "drop (Suc i + 1) ?d = drop (Suc i + 1) d"
    using swap_list_mset [of 0 "Suc i + 1" "Suc i" d] n by simp_all
  have "max_heap ord 1 ?d (Suc i)"
    unfolding max_heap_def
  proof (intro allI impI)
    fix j assume j: "0 < j \<and> j < Suc i \<and> 1 \<le> parent j"
    then have "parent j < Suc i" "parent j \<noteq> 0" using parent_less [of j] by auto
    then show "ord (?d ! j) (?d ! parent j) \<le> 0" using hp j n nth [of j] nth [of "parent j"] by (auto simp: max_heap_def)
  qed
  then have e: "max_heap ord 0 e (Suc i)" "rearranged (Suc i) ?d e"
    using psift_rearranged [OF o, of 0 "Suc i" ?d] n by (simp_all add: e_def)
  have "rearranged (Suc i + 1) d ?d" using sw by (simp add: rearranged_def)
  then have r1: "rearranged n d ?d" by (rule rearranged_mono) (use n in simp_all)
  have r2: "rearranged n ?d e" by (rule rearranged_mono [OF e(2)]) (use n in simp_all)
  have len: "length e = length d" using e(2) by (simp add: rearranged_def)
  have "drop (Suc i) e = d ! 0 # drop (Suc i + 1) d"
    using e(2) sw(2) n nth [of "Suc i"] Cons_nth_drop_Suc [of "Suc i" ?d] by (simp add: rearranged_def)
  then have tail: "drop (Suc i) (take n e) = d ! 0 # drop (Suc i + 1) (take n d)"
    using n by (simp add: drop_take Suc_diff_Suc take_Suc_Cons [symmetric] del: take_Suc_Cons)
  have root: "ord x (d ! 0) \<le> 0" if "x \<in> set (take (Suc i + 1) d)" for x
    using that heap_root [OF o hp] n by (auto simp: in_set_conv_nth)
  have r0: "d ! 0 \<in> set (take (Suc i + 1) d)" using n by (auto simp: in_set_conv_nth intro!: exI [of _ 0])
  have sub: "set (take (Suc i) e) \<subseteq> set (take (Suc i + 1) d)"
  proof -
    have "set (take (Suc i) e) = set (take (Suc i) ?d)" using e(2) unfolding rearranged_def by (metis set_mset_mset)
    also have "\<dots> \<subseteq> set (take (Suc i + 1) ?d)" by (rule set_take_subset_set_take) simp
    finally show ?thesis using sw(1) by (metis set_mset_mset)
  qed
  have "sort_inv ord n e i"
    unfolding sort_inv_def Suc_eq_plus1 [symmetric] tail
    using n len e(1) inv root r0 sub unfolding sort_inv_def Suc_eq_plus1 [symmetric] by auto
  then show ?thesis using rearranged_trans [OF r1 r2] by blast
qed

lemma sort_loop_correct:
  assumes "cmp_pure cmp ord" "is_order ord"
  shows "\<lbrakk>\<not> exc s; sort_inv ord n (tab s) i\<rbrakk> \<Longrightarrow>
    \<exists>e. sort_loop cmp js_array_sort_swap s i = s\<lparr>tab := e\<rparr> \<and> sorted_wrt (\<lambda>x y. ord x y \<le> 0) (take n e) \<and> rearranged n (tab s) e"
proof (induction i arbitrary: s)
  case 0
  then have n: "0 < n" "n \<le> length (tab s)" by (simp_all add: sort_inv_def)
  then have eq: "take n (tab s) = hd (tab s) # drop 1 (take n (tab s))" and mem: "hd (tab s) \<in> set (take 1 (tab s))"
    by (cases n; cases "tab s"; simp)+
  have "sorted_wrt (\<lambda>x y. ord x y \<le> 0) (hd (tab s) # drop 1 (take n (tab s)))"
    using "0.prems"(2) mem by (auto simp: sort_inv_def)
  then have "sorted_wrt (\<lambda>x y. ord x y \<le> 0) (take n (tab s))" unfolding eq [symmetric] .
  then show ?case by (intro exI [of _ "tab s"]) (simp add: rearranged_def)
next
  case (Suc i)
  define d where "d = psift ord (swap_list (tab s) 0 (Suc i)) (Suc i) 0"
  have d: "sort_inv ord n d i" "rearranged n (tab s) d"
    using sort_step [OF assms(2) Suc.prems(2)] by (simp_all add: d_def)
  obtain e where "sort_loop cmp js_array_sort_swap (s\<lparr>tab := d\<rparr>) i = s\<lparr>tab := e\<rparr>"
    "sorted_wrt (\<lambda>x y. ord x y \<le> 0) (take n e)" "rearranged n d e"
    using Suc.IH [of "s\<lparr>tab := d\<rparr>"] Suc.prems d by auto
  moreover have "sift cmp js_array_sort_swap (js_array_sort_swap s 0 (Suc i)) (Suc i) 0 = s\<lparr>tab := d\<rparr>"
    using sift_psift [OF assms(1), of "js_array_sort_swap s 0 (Suc i)" "Suc i" 0] Suc.prems(1)
    by (simp add: d_def js_array_sort_swap_def [of s])
  ultimately show ?case using rearranged_trans [OF d(2)] by auto
qed

lemma rqsort_idx_correct:
  assumes "cmp_pure cmp ord" "is_order ord" "\<not> exc s" "n \<le> length (tab s)"
  shows "\<exists>e. rqsort_idx n cmp js_array_sort_swap s = s\<lparr>tab := e\<rparr> \<and> sorted_wrt (\<lambda>x y. ord x y \<le> 0) (take n e) \<and> rearranged n (tab s) e"
proof (cases "n > 1")
  case False
  then have "sorted_wrt P (take n (tab s))" for P
    using assms(4) by (cases "tab s"; cases n) auto
  then show ?thesis using False by (intro exI [of _ "tab s"]) (simp add: rqsort_idx_def rearranged_def)
next
  case True
  have "max_heap ord (n div 2) (tab s) n" unfolding max_heap_def parent_def by (intro allI impI) linarith
  then obtain d where d: "build_loop cmp js_array_sort_swap s n (n div 2) = s\<lparr>tab := d\<rparr>" "max_heap ord 0 d n" "rearranged n (tab s) d"
    using build_loop_correct [OF assms(1,2), of "n div 2" n s] assms(3,4) True by auto
  then have "sort_inv ord n d (n - 1)" using True assms(4) by (simp add: sort_inv_def rearranged_def)
  then obtain e where "sort_loop cmp js_array_sort_swap (s\<lparr>tab := d\<rparr>) (n - 1) = s\<lparr>tab := e\<rparr>"
    "sorted_wrt (\<lambda>x y. ord x y \<le> 0) (take n e)" "rearranged n d e"
    using sort_loop_correct [OF assms(1,2), of "s\<lparr>tab := d\<rparr>" n "n - 1"] assms(3) by auto
  then show ?thesis using True d rearranged_trans [OF d(3)] by (auto simp: rqsort_idx_def)
qed

subsection \<open>The comparison is an order\<close>

definition consistent :: "('v \<Rightarrow> 'v \<Rightarrow> int) \<Rightarrow> bool" where
  "consistent cv \<longleftrightarrow> (\<forall>v w. sign (cv w v) = - sign (cv v w)) \<and> (\<forall>u v w. cv u v \<le> 0 \<and> cv v w \<le> 0 \<longrightarrow> cv u w \<le> 0)"

definition js_ord :: "bool \<Rightarrow> ('v \<Rightarrow> 'v \<Rightarrow> int) \<Rightarrow> 'v \<times> nat \<Rightarrow> 'v \<times> nat \<Rightarrow> int" where
  "js_ord user cv a b =
     (if user then (if fst a = fst b \<or> sign (cv (fst a) (fst b)) = 0 then compare_offsets (snd a) (snd b)
                    else sign (cv (fst a) (fst b)))
      else if cv (fst a) (fst b) = 0 then compare_offsets (snd a) (snd b) else cv (fst a) (fst b))"

lemma js_cmp_pure:
  assumes "pfunc = Some f \<and> (\<forall>v w. f v w = Val (cv v w)) \<and> user \<or> pfunc = None \<and> (\<forall>v w. string_compare v w = Val (cv v w)) \<and> \<not> user"
  shows "cmp_pure (js_array_sort_cmp pfunc string_compare) (js_ord user cv)"
  using assms by (auto simp: cmp_pure_def js_array_sort_cmp_def js_ord_def Let_def)

lemma consistentD:
  assumes "consistent cv"
  shows "cv v w > 0 \<longleftrightarrow> cv w v < 0" "cv v v = 0" "cv u v \<le> 0 \<Longrightarrow> cv v w \<le> 0 \<Longrightarrow> cv u w \<le> 0"
proof -
  have s: "sign (cv w v) = - sign (cv v w)" for v w using assms unfolding consistent_def by blast
  show "cv v w > 0 \<longleftrightarrow> cv w v < 0" using s [of v w] by (auto simp: sign_def split: if_splits)
  show "cv v v = 0" using s [of v v] by (auto simp: sign_def split: if_splits)
  show "cv u v \<le> 0 \<Longrightarrow> cv v w \<le> 0 \<Longrightarrow> cv u w \<le> 0" using assms unfolding consistent_def by blast
qed

lemma js_ord_iff:
  assumes "consistent cv"
  shows "js_ord user cv a b \<le> 0 \<longleftrightarrow> cv (fst a) (fst b) < 0 \<or> cv (fst a) (fst b) = 0 \<and> snd a \<le> snd b"
  using consistentD(2) [OF assms, of "fst b"]
  by (auto simp: js_ord_def sign_def compare_offsets_def split: if_splits)

lemma js_ord_is_order:
  assumes "consistent cv"
  shows "is_order (js_ord user cv)"
  unfolding is_order_def
proof (intro conjI allI impI)
  fix a b :: "'a \<times> nat"
  assume "0 < js_ord user cv a b"
  then have "\<not> (cv (fst a) (fst b) < 0 \<or> cv (fst a) (fst b) = 0 \<and> snd a \<le> snd b)"
    using js_ord_iff [OF assms, of user a b] by linarith
  then show "js_ord user cv b a \<le> 0"
    using js_ord_iff [OF assms, of user b a] consistentD(1) [OF assms, of "fst a" "fst b"] consistentD(1) [OF assms, of "fst b" "fst a"]
    by linarith
next
  fix a b c :: "'a \<times> nat"
  assume "js_ord user cv a b \<le> 0 \<and> js_ord user cv b c \<le> 0"
  then have ab: "cv (fst a) (fst b) < 0 \<or> cv (fst a) (fst b) = 0 \<and> snd a \<le> snd b"
    and bc: "cv (fst b) (fst c) < 0 \<or> cv (fst b) (fst c) = 0 \<and> snd b \<le> snd c"
    using js_ord_iff [OF assms] by blast+
  have ac: "cv (fst a) (fst c) \<le> 0" using consistentD(3) [OF assms, of "fst a" "fst b" "fst c"] ab bc by linarith
  show "js_ord user cv a c \<le> 0"
  proof (cases "cv (fst a) (fst c) = 0")
    case True
    then have "cv (fst c) (fst a) \<le> 0" using consistentD(1) [OF assms, of "fst c" "fst a"] by linarith
    then have "cv (fst b) (fst a) \<le> 0" "cv (fst c) (fst b) \<le> 0"
      using consistentD(3) [OF assms, of "fst b" "fst c" "fst a"] consistentD(3) [OF assms, of "fst c" "fst a" "fst b"] ab bc
      by linarith+
    then have "snd a \<le> snd c"
      using ab bc consistentD(1) [OF assms, of "fst b" "fst a"] consistentD(1) [OF assms, of "fst c" "fst b"] by linarith
    then show ?thesis using True js_ord_iff [OF assms, of user a c] by simp
  next
    case False
    then show ?thesis using ac js_ord_iff [OF assms, of user a c] by simp
  qed
qed

lemma sorted_strict:
  assumes "consistent cv" "sorted_wrt (\<lambda>x y. js_ord user cv x y \<le> 0) zs" "distinct (map snd zs)"
  shows "sorted_wrt (\<lambda>x y. cv (fst x) (fst y) < 0 \<or> cv (fst x) (fst y) = 0 \<and> snd x < snd y) zs"
  using assms(2,3)
proof (induction zs)
  case (Cons z zs)
  have "snd z \<noteq> snd y" if "y \<in> set zs" for y using that Cons.prems(2) by (auto simp: image_iff)
  moreover have "cv (fst z) (fst y) < 0 \<or> cv (fst z) (fst y) = 0 \<and> snd z \<le> snd y" if "y \<in> set zs" for y
    using Cons.prems(1) that js_ord_iff [OF assms(1), of user z y] by simp
  ultimately have "\<forall>y \<in> set zs. cv (fst z) (fst y) < 0 \<or> cv (fst z) (fst y) = 0 \<and> snd z < snd y"
    by (meson le_neq_implies_less)
  then show ?case using Cons by simp
qed simp

subsection \<open>Properties\<close>

lemma distinct_pairs: "distinct (map snd (filter P (zip arr [0..<length arr])))"
proof -
  have "map snd (zip arr [0..<length arr]) = [0..<length arr]" by simp
  then show ?thesis by (metis distinct_map_filter distinct_upt)
qed

text \<open>C13. Sorting always ends.  With a comparison that returns numbers and orders the values consistently (or,
  without a function, with such a string comparison) and memory for the table, the result is the elements
  that are not undefined, each as often as before, in increasing order and with equal elements in their
  original order, followed by the undefined ones.\<close>

theorem js_array_sort_stable:
  assumes "consistent cv" "js_alloc_value_array mem undef (length arr * 2) = Inr r"
    and "arg = Function f \<and> (\<forall>v w. f v w = Val (cv v w)) \<or>
         arg = Undefined_arg \<and> (\<forall>v w. string_compare v w = Val (cv v w))"
  shows "\<exists>zs. js_array_sort mem undef string_compare arg arr =
             Inr (map fst zs @ replicate (length arr - length zs) undef)
      \<and> mset zs = mset (filter (\<lambda>(v, i). v \<noteq> undef) (zip arr [0..<length arr]))
      \<and> sorted_wrt (\<lambda>x y. cv (fst x) (fst y) < 0 \<or> cv (fst x) (fst y) = 0 \<and> snd x < snd y) zs"
proof -
  define pairs where "pairs = filter (\<lambda>(v, i). v \<noteq> undef) (zip arr [0..<length arr])"
  define pfunc where "pfunc = (case arg of Function f \<Rightarrow> Some f | _ \<Rightarrow> None)"
  define s where "s = \<lparr>tab = pairs @ replicate (length arr - length pairs) (undef, 5 :: nat), exc = False\<rparr>"
  define user where "user = (pfunc \<noteq> None)"
  let ?n = "length pairs" and ?cmp = "js_array_sort_cmp pfunc string_compare"
  have "cmp_pure ?cmp (js_ord user cv)"
    using assms(3) by (intro js_cmp_pure [where f = f]) (auto simp: pfunc_def user_def)
  moreover have "is_order (js_ord user cv)" by (rule js_ord_is_order [OF assms(1)])
  moreover have "\<not> exc s" "?n \<le> length (tab s)" by (simp_all add: s_def)
  ultimately obtain e where e: "rqsort_idx ?n ?cmp js_array_sort_swap s = s\<lparr>tab := e\<rparr>"
    "sorted_wrt (\<lambda>x y. js_ord user cv x y \<le> 0) (take ?n e)" "rearranged ?n (tab s) e"
    using rqsort_idx_correct by blast
  have len: "?n \<le> length arr" unfolding pairs_def by (metis length_filter_le length_zip length_upt diff_zero min.idem)
  have el: "length e = length arr" using e(3) len by (simp add: rearranged_def s_def)
  have ms: "mset (take ?n e) = mset pairs" and dr: "drop ?n e = replicate (length arr - ?n) (undef, 5)"
    using e(3) by (simp_all add: rearranged_def s_def)
  have "mset (map snd (take ?n e)) = mset (map snd pairs)" using ms by (metis mset_map)
  then have "distinct (map snd (take ?n e))" using distinct_pairs unfolding pairs_def by (metis mset_eq_imp_distinct_iff)
  from sorted_strict [OF assms(1) e(2) this]
  have so: "sorted_wrt (\<lambda>x y. cv (fst x) (fst y) < 0 \<or> cv (fst x) (fst y) = 0 \<and> snd x < snd y) (take ?n e)" .
  have js: "js_array_sort mem undef string_compare arg arr = Inr (map fst e)"
  proof -
    have "js_array_sort mem undef string_compare arg arr =
      (let s = rqsort_idx ?n ?cmp js_array_sort_swap s in if exc s then Inl Compare_exception else Inr (map fst (tab s)))"
      unfolding js_array_sort_def Let_def pairs_def [symmetric] assms(2) pfunc_def s_def
      using assms(3) by (auto split: prod.splits)
    then show ?thesis unfolding e(1) by (simp add: s_def)
  qed
  have mf: "map fst e = map fst (take ?n e) @ replicate (length arr - length (take ?n e)) undef"
  proof -
    have "map fst e = map fst (take ?n e @ drop ?n e)" by simp
    then show ?thesis unfolding map_append dr using el len by simp
  qed
  show ?thesis unfolding js mf pairs_def [symmetric] using ms so by blast
qed

theorem js_array_sort_stable_witness:
  "\<exists>zs. js_array_sort 1000 (0 :: nat) (\<lambda>v w. Failed) (Function (\<lambda>v w. Val (int (v mod 10) - int (w mod 10)))) [23, 0, 11, 13] =
          Inr (map fst zs @ replicate (length [23, 0, 11, 13 :: nat] - length zs) 0)
      \<and> mset zs = mset [(23, 0 :: nat), (11, 2), (13, 3)]
      \<and> sorted_wrt (\<lambda>x y. int (fst x mod 10) - int (fst y mod 10) < 0 \<or>
            int (fst x mod 10) - int (fst y mod 10) = 0 \<and> snd x < snd y) zs"
proof -
  have c: "consistent (\<lambda>v w :: nat. int (v mod 10) - int (w mod 10))"
    by (auto simp: consistent_def sign_def)
  have a: "js_alloc_value_array 1000 (0 :: nat) (length [23, 0, 11, 13 :: nat] * 2) =
      Inr (replicate 8 0, 1000 - js_malloc_size (8 + 8 * 8))"
    by (simp add: js_alloc_value_array_def JS_VALUE_ARRAY_SIZE_MAX_def Let_def js_malloc_size_def JSW_def
        sizeof_JSValueArray_def sizeof_JSValue_def)
  have z: "filter (\<lambda>(v, i). v \<noteq> 0) (zip [23, 0, 11, 13 :: nat] [0..<length [23, 0, 11, 13 :: nat]]) = [(23, 0), (11, 2), (13, 3)]"
    by (simp add: upt_rec)
  show ?thesis
    using js_array_sort_stable [OF c a, where arg = "Function (\<lambda>v w. Val (int (v mod 10) - int (w mod 10)))"
        and f = "\<lambda>v w. Val (int (v mod 10) - int (w mod 10))" and string_compare = "\<lambda>v w. Failed", unfolded z] by simp
qed

text \<open>A comparison function that throws does not stop the sort: the comparison returns the word of the
  exception as a positive number and does not set the flag, so that the sort reports success.\<close>

lemma rqsort_throwing:
  "rqsort_idx 2 (js_array_sort_cmp (Some (\<lambda>v w. Threw)) (\<lambda>v w. Failed)) js_array_sort_swap
     \<lparr>tab = [(1 :: nat, 0), (2, 1)], exc = False\<rparr> = \<lparr>tab = [(2, 1), (1, 0)], exc = False\<rparr>"
  by code_simp

lemma js_array_sort_loses_exception:
  assumes "js_alloc_value_array mem (0 :: nat) 4 = Inr r"
  shows "js_array_sort mem (0 :: nat) (\<lambda>v w. Failed) (Function (\<lambda>v w. Threw)) [1, 2] = Inr [2, 1]"
  using assms rqsort_throwing by (simp add: js_array_sort_def upt_rec numeral_eq_Suc)

end
