(* ===== verification/JSCharClass.thy ===== *)
theory JSCharClass
  imports JSSort
begin

section \<open>Character classes of regular expressions\<close>

text \<open>
  Models how \<^verbatim>\<open>mquickjs.c\<close> compiles a character class and matches a character against it: the
  intervals that \<^verbatim>\<open>re_parse_char_class\<close> emits for each item, their sorting, merging, inversion and
  compression in \<^verbatim>\<open>re_range_optimize\<close>, and the two matching instructions of
  \<^verbatim>\<open>lre_exec\<close>.  The intervals of a class are the part of the byte code from \<^verbatim>\<open>range_start\<close>
  on, seen as the list of its 32-bit words, two words to an interval.  The items of a class are given as
  parsed: reading an atom of the pattern text (\<^verbatim>\<open>get_class_atom\<close>) is not modelled.  Words are below
  \<open>2 ^ 32\<close>; the addition of a case offset wraps.
\<close>

subsection \<open>Words and intervals\<close>

definition get_interval :: "nat list \<Rightarrow> nat \<Rightarrow> nat \<times> nat" where
  "get_interval w i = (w ! (2 * i), w ! (2 * i + 1))"

definition put_interval :: "nat list \<Rightarrow> nat \<Rightarrow> nat \<times> nat \<Rightarrow> nat list" where
  "put_interval w i p = w[2 * i := fst p, 2 * i + 1 := snd p]"

definition max_code_point :: nat where
  "max_code_point = 0x110000"

subsection \<open>Items of a class\<close>

datatype char_range = CHAR_RANGE_d | CHAR_RANGE_s | CHAR_RANGE_w

datatype class_item = Chars nat nat | Class char_range bool

definition char_range_s :: "nat list" where
  "char_range_s =
    [0x0009, 0x000D + 1, 0x0020, 0x0020 + 1, 0x00A0, 0x00A0 + 1, 0x1680, 0x1680 + 1, 0x2000, 0x200A + 1,
     0x2028, 0x2029 + 1, 0x202F, 0x202F + 1, 0x205F, 0x205F + 1, 0x3000, 0x3000 + 1, 0xFEFF, 0xFEFF + 1]"

definition char_range_w :: "nat list" where
  "char_range_w = [0x0030, 0x0039 + 1, 0x0041, 0x005A + 1, 0x005F, 0x005F + 1, 0x0061, 0x007A + 1]"

definition char_range_words :: "char_range \<Rightarrow> nat list" where
  "char_range_words r =
     (case r of CHAR_RANGE_d \<Rightarrow> [0x30, 0x39 + 1] | CHAR_RANGE_s \<Rightarrow> char_range_s | CHAR_RANGE_w \<Rightarrow> char_range_w)"

definition re_emit_range_base :: "nat list \<Rightarrow> char_range \<Rightarrow> bool \<Rightarrow> nat list" where
  "re_emit_range_base w r invert =
     w @ (if invert then [0] else []) @ char_range_words r @ (if invert then [max_code_point] else [])"

definition add_interval_intersect :: "nat list \<Rightarrow> nat \<Rightarrow> nat \<Rightarrow> nat \<Rightarrow> nat \<Rightarrow> int \<Rightarrow> nat list" where
  "add_interval_intersect w start end start1 end1 offset =
     (let start = max start start1; end = min end end1
      in if start < end
         then w @ [start, end] @
              (if offset \<noteq> 0
               then [nat ((int start + offset) mod 2 ^ 32), nat ((int end + offset) mod 2 ^ 32)] else [])
         else w)"

definition add_range :: "bool \<Rightarrow> nat list \<Rightarrow> nat \<Rightarrow> nat \<Rightarrow> nat list" where
  "add_range ignore_case w c1 c2 =
     (if ignore_case then
        (let w = add_interval_intersect w c1 c2 0 65 0;
             w = add_interval_intersect w c1 c2 (90 + 1) 97 0;
             w = add_interval_intersect w c1 c2 (122 + 1) (2 ^ 31 - 1) 0;
             w = add_interval_intersect w c1 c2 65 (90 + 1) 32
         in add_interval_intersect w c1 c2 97 (122 + 1) (- 32))
      else w @ [c1, c2])"

fun class_words :: "bool \<Rightarrow> class_item list \<Rightarrow> nat list \<Rightarrow> nat list" where
  "class_words ignore_case [] w = w"
| "class_words ignore_case (Chars c1 c2 # items) w = class_words ignore_case items (add_range ignore_case w c1 (c2 + 1))"
| "class_words ignore_case (Class r invert # items) w = class_words ignore_case items (re_emit_range_base w r invert)"

subsection \<open>Sorting, merging, inverting\<close>

definition range_sort_cmp :: "nat list cmp_fun" where
  "range_sort_cmp w i1 i2 =
     (signed_take_bit 31 (int (fst (get_interval w i1)) - int (fst (get_interval w i2))), w)"

definition range_sort_swap :: "nat list swap_fun" where
  "range_sort_swap w i1 i2 =
     put_interval (put_interval w i1 (get_interval w i2)) i2 (get_interval w i1)"

function compress_loop :: "nat list \<Rightarrow> nat \<Rightarrow> nat \<Rightarrow> nat \<Rightarrow> nat list \<times> nat" where
  "compress_loop w len i j =
     (if i < len then
        (case get_interval w i of (start, end) \<Rightarrow>
           if start = end then compress_loop w len (i + 1) j
           else if i + 1 < len then
             (case get_interval w (i + 1) of (start2, end2) \<Rightarrow>
                if end < start2 then compress_loop (put_interval w j (start, end)) len (i + 1) (j + 1)
                else compress_loop (put_interval w (i + 1) (start, max end end2)) len (i + 1) j)
           else compress_loop (put_interval w j (start, end)) len (i + 1) (j + 1))
      else (w, j))"
  by pat_completeness auto
termination by (relation "measure (\<lambda>(w, len, i, j). len - i)") auto

declare compress_loop.simps [simp del]

definition range_compress :: "nat list \<Rightarrow> nat \<Rightarrow> nat list \<times> nat" where
  "range_compress w len = compress_loop w len 0 0"

datatype range_code = Range8 nat "nat list" | Range nat "nat list" | Range_too_big

definition range8_byte :: "nat \<Rightarrow> nat" where
  "range8_byte c = (if c = max_code_point then 0xff else c)"

definition encode_range :: "nat \<Rightarrow> nat list \<Rightarrow> range_code" where
  "encode_range n w =
     (if n > 65534 then Range_too_big
      else if 0 < n \<and> n < 16 \<and>
        (snd (get_interval w (n - 1)) < 254 \<or>
         snd (get_interval w (n - 1)) = max_code_point \<and> fst (get_interval w (n - 1)) < 254)
      then Range8 n (map range8_byte (take (2 * n) w))
      else Range n w)"

definition re_range_optimize :: "nat list \<Rightarrow> bool \<Rightarrow> range_code" where
  "re_range_optimize w invert =
     (let n = length w div 2;
          w1 = rqsort_idx n range_sort_cmp range_sort_swap w
      in case range_compress w1 n of (w', n1) \<Rightarrow>
           let w2 = take (2 * n1) w'
           in if invert
              then (case range_compress (0 # w2 @ [max_code_point]) (n1 + 1) of
                      (w', n3) \<Rightarrow> encode_range n3 (take (2 * n3) w'))
              else encode_range n1 w2)"

definition re_parse_char_class :: "bool \<Rightarrow> bool \<Rightarrow> class_item list \<Rightarrow> range_code" where
  "re_parse_char_class ignore_case invert items = re_range_optimize (class_words ignore_case items []) invert"

subsection \<open>Matching\<close>

fun range8_scan :: "nat list \<Rightarrow> nat \<Rightarrow> nat \<Rightarrow> nat \<Rightarrow> bool" where
  "range8_scan b c 0 i = (c \<ge> b ! (2 * i) \<and> (c < b ! (2 * i + 1) \<or> b ! (2 * i + 1) = 0xff))"
| "range8_scan b c (Suc k) i = (c \<ge> b ! (2 * i) \<and> c < b ! (2 * i + 1) \<or> range8_scan b c k (i + 1))"

text \<open>
  The bounds of the binary search are unsigned, so \<^verbatim>\<open>idx - 1\<close> wraps at zero; whether the search ends
  is a theorem.
\<close>

partial_function (option) range_search :: "nat list \<Rightarrow> nat \<Rightarrow> nat \<Rightarrow> nat \<Rightarrow> bool option" where
  "range_search w c idx_min idx_max =
     (if idx_min \<le> idx_max then
        (let idx = ((idx_min + idx_max) mod 2 ^ 32) div 2
         in if c < fst (get_interval w idx) then range_search w c idx_min ((idx + 2 ^ 32 - 1) mod 2 ^ 32)
            else if c \<ge> snd (get_interval w idx) then range_search w c ((idx + 1) mod 2 ^ 32) idx_max
            else Some True)
      else Some False)"

definition lre_match_range :: "range_code \<Rightarrow> nat \<Rightarrow> bool option" where
  "lre_match_range r c =
     (case r of
        Range8 n b \<Rightarrow> Some (range8_scan b c (n - 1) 0)
      | Range n w \<Rightarrow>
          if n = 0 then Some False
          else if c < fst (get_interval w 0) then Some False
          else if c \<ge> snd (get_interval w (n - 1)) then Some False
          else range_search w c 0 (n - 1)
      | Range_too_big \<Rightarrow> None)"

subsection \<open>Interval lists\<close>

fun flat_pairs :: "(nat \<times> nat) list \<Rightarrow> nat list" where
  "flat_pairs [] = []"
| "flat_pairs ((a, b) # ps) = a # b # flat_pairs ps"

lemma length_flat_pairs [simp]: "length (flat_pairs ps) = 2 * length ps"
  by (induction ps rule: flat_pairs.induct) auto

lemma flat_pairs_append [simp]: "flat_pairs (ps @ qs) = flat_pairs ps @ flat_pairs qs"
  by (induction ps rule: flat_pairs.induct) auto

lemma flat_pairs_ex: "even (length w) \<Longrightarrow> \<exists>ps. w = flat_pairs ps"
proof (induction w rule: induct_list012)
  case (3 a b w)
  then obtain ps where "w = flat_pairs ps"
    by auto
  then show ?case
    by (intro exI [of _ "(a, b) # ps"]) simp
qed (auto intro: exI [of _ "[]"])

lemma get_interval_flat [simp]: "i < length ps \<Longrightarrow> get_interval (flat_pairs ps) i = ps ! i"
proof (induction ps arbitrary: i rule: flat_pairs.induct)
  case (2 a b ps)
  then show ?case
    by (cases i) (auto simp: get_interval_def)
qed simp

lemma put_interval_flat [simp]: "i < length ps \<Longrightarrow> put_interval (flat_pairs ps) i p = flat_pairs (ps[i := p])"
proof (induction ps arbitrary: i rule: flat_pairs.induct)
  case (2 a b ps)
  then show ?case
    by (cases i; cases p) (auto simp: put_interval_def)
qed simp

lemma take_flat_pairs [simp]: "take (2 * n) (flat_pairs ps) = flat_pairs (take n ps)"
proof (induction ps arbitrary: n rule: flat_pairs.induct)
  case (2 a b ps)
  then show ?case
    by (cases n) auto
qed simp

text \<open>
  The sort on the words is the sort on the pairs.
\<close>

definition pair_cmp :: "nat \<times> nat \<Rightarrow> nat \<times> nat \<Rightarrow> int" where
  "pair_cmp x y = int (fst x) - int (fst y)"

definition ctx_cmp :: "nat JSArraySortContext cmp_fun" where
  "ctx_cmp s i j = (pair_cmp (tab s ! i) (tab s ! j), s)"

definition small :: "(nat \<times> nat) list \<Rightarrow> bool" where
  "small ps \<longleftrightarrow> (\<forall>p\<in>set ps. fst p < 2 ^ 31)"

abbreviation ctx :: "(nat \<times> nat) list \<Rightarrow> nat JSArraySortContext" where
  "ctx ps \<equiv> \<lparr>tab = ps, exc = False\<rparr>"

lemma range_sort_cmp_flat:
  assumes "small ps" "i < length ps" "j < length ps"
  shows "range_sort_cmp (flat_pairs ps) i j = (pair_cmp (ps ! i) (ps ! j), flat_pairs ps)"
proof -
  have "fst (ps ! i) < 2 ^ 31" "fst (ps ! j) < 2 ^ 31"
    using assms by (auto simp: small_def)
  then have "signed_take_bit 31 (pair_cmp (ps ! i) (ps ! j)) = pair_cmp (ps ! i) (ps ! j)"
    by (intro signed_take_bit_int_eq_self) (auto simp: pair_cmp_def)
  with assms show ?thesis
    by (simp add: range_sort_cmp_def pair_cmp_def)
qed

lemma swap_list_small: "small ps \<Longrightarrow> i < length ps \<Longrightarrow> j < length ps \<Longrightarrow> small (swap_list ps i j)"
  by (auto simp: small_def swap_list_def dest!: set_update_subset_insert [THEN subsetD])

lemma range_sort_swap_flat:
  "i < length ps \<Longrightarrow> j < length ps \<Longrightarrow> range_sort_swap (flat_pairs ps) i j = flat_pairs (swap_list ps i j)"
  by (simp add: range_sort_swap_def swap_list_def)

lemma sift_flat:
  assumes "small ps" "n \<le> length ps" "r < n"
  shows "\<exists>qs. sift range_sort_cmp range_sort_swap (flat_pairs ps) n r = flat_pairs qs \<and>
    sift ctx_cmp js_array_sort_swap (ctx ps) n r = ctx qs \<and> small qs \<and> length qs = length ps"
  using assms
proof (induction "n - r" arbitrary: ps r rule: less_induct)
  case less
  show ?case
  proof (cases "r * 2 + 1 < n")
    case False
    then show ?thesis
      using less.prems by (subst (1 2) sift.simps) auto
  next
    case True
    define c where "c = (if r * 2 + 1 < n - 1 \<and> pair_cmp (ps ! (r * 2 + 1)) (ps ! (r * 2 + 1 + 1)) \<le> 0
      then r * 2 + 1 + 1 else r * 2 + 1)"
    have c: "c < n" "r < c"
      using True by (auto simp: c_def)
    have cmp: "range_sort_cmp (flat_pairs ps) i j = (pair_cmp (ps ! i) (ps ! j), flat_pairs ps)" if "i < n" "j < n" for i j
      using range_sort_cmp_flat less.prems that by simp
    have w: "sift range_sort_cmp range_sort_swap (flat_pairs ps) n r =
        (if pair_cmp (ps ! r) (ps ! c) > 0 then flat_pairs ps
         else sift range_sort_cmp range_sort_swap (flat_pairs (swap_list ps r c)) n c)"
      using True c less.prems
      by (subst sift.simps) (auto simp: cmp c_def Let_def range_sort_swap_flat)
    have x: "sift ctx_cmp js_array_sort_swap (ctx ps) n r =
        (if pair_cmp (ps ! r) (ps ! c) > 0 then ctx ps
         else sift ctx_cmp js_array_sort_swap (ctx (swap_list ps r c)) n c)"
      using True c less.prems
      by (subst sift.simps) (auto simp: ctx_cmp_def c_def Let_def js_array_sort_swap_def)
    show ?thesis
    proof (cases "pair_cmp (ps ! r) (ps ! c) > 0")
      case True
      with w x less.prems show ?thesis
        by auto
    next
      case False
      have "n - c < n - r"
        using c by linarith
      from less.hyps [OF this, of "swap_list ps r c"] False w x less.prems c show ?thesis
        using swap_list_small [of ps r c] by auto
    qed
  qed
qed

lemma build_loop_flat:
  assumes "small ps" "n \<le> length ps" "i \<le> n"
  shows "\<exists>qs. build_loop range_sort_cmp range_sort_swap (flat_pairs ps) n i = flat_pairs qs \<and>
    build_loop ctx_cmp js_array_sort_swap (ctx ps) n i = ctx qs \<and> small qs \<and> length qs = length ps"
  using assms
proof (induction i arbitrary: ps)
  case (Suc i)
  obtain qs where "sift range_sort_cmp range_sort_swap (flat_pairs ps) n i = flat_pairs qs"
      "sift ctx_cmp js_array_sort_swap (ctx ps) n i = ctx qs" "small qs" "length qs = length ps"
    using sift_flat [of ps n i] Suc.prems by auto
  with Suc.IH [of qs] Suc.prems show ?case
    by auto
qed auto

lemma sort_loop_flat:
  assumes "small ps" "i < length ps"
  shows "\<exists>qs. sort_loop range_sort_cmp range_sort_swap (flat_pairs ps) i = flat_pairs qs \<and>
    sort_loop ctx_cmp js_array_sort_swap (ctx ps) i = ctx qs \<and> small qs \<and> length qs = length ps"
  using assms
proof (induction i arbitrary: ps)
  case (Suc i)
  let ?ps = "swap_list ps 0 (Suc i)"
  have sw: "range_sort_swap (flat_pairs ps) 0 (Suc i) = flat_pairs ?ps"
    using Suc.prems by (intro range_sort_swap_flat) auto
  have sw': "js_array_sort_swap (ctx ps) 0 (Suc i) = ctx ?ps"
    by (simp add: js_array_sort_swap_def)
  have "small ?ps"
    using Suc.prems by (intro swap_list_small) auto
  then obtain qs where "sift range_sort_cmp range_sort_swap (flat_pairs ?ps) (Suc i) 0 = flat_pairs qs"
      "sift ctx_cmp js_array_sort_swap (ctx ?ps) (Suc i) 0 = ctx qs" "small qs" "length qs = length ps"
    using sift_flat [of ?ps "Suc i" 0] Suc.prems by auto
  with Suc.IH [of qs] Suc.prems sw sw' show ?case
    by auto
qed auto

lemma range_sort_correct:
  assumes "small ps"
  shows "\<exists>qs. rqsort_idx (length ps) range_sort_cmp range_sort_swap (flat_pairs ps) = flat_pairs qs \<and>
    mset qs = mset ps \<and> sorted (map fst qs)"
proof -
  have ord: "is_order pair_cmp"
    by (auto simp: is_order_def pair_cmp_def)
  have pure: "cmp_pure ctx_cmp pair_cmp"
    by (simp add: cmp_pure_def ctx_cmp_def)
  obtain e where e: "rqsort_idx (length ps) ctx_cmp js_array_sort_swap (ctx ps) = (ctx ps)\<lparr>tab := e\<rparr>"
      "sorted_wrt (\<lambda>x y. pair_cmp x y \<le> 0) (take (length ps) e)" "rearranged (length ps) ps e"
    using rqsort_idx_correct [OF pure ord, of "ctx ps" "length ps"] by auto
  have "\<exists>qs. rqsort_idx (length ps) range_sort_cmp range_sort_swap (flat_pairs ps) = flat_pairs qs \<and>
      rqsort_idx (length ps) ctx_cmp js_array_sort_swap (ctx ps) = ctx qs"
  proof (cases "length ps > 1")
    case True
    obtain qs where qs: "build_loop range_sort_cmp range_sort_swap (flat_pairs ps) (length ps) (length ps div 2) = flat_pairs qs"
        "build_loop ctx_cmp js_array_sort_swap (ctx ps) (length ps) (length ps div 2) = ctx qs"
        "small qs" "length qs = length ps"
      using build_loop_flat [OF assms, of "length ps" "length ps div 2"] by auto
    have "length ps - 1 < length qs"
      using True qs(4) by simp
    from sort_loop_flat [OF qs(3) this] qs(1,2) True show ?thesis
      by (auto simp: rqsort_idx_def)
  qed (auto simp: rqsort_idx_def)
  then obtain qs where qs: "rqsort_idx (length ps) range_sort_cmp range_sort_swap (flat_pairs ps) = flat_pairs qs"
      "rqsort_idx (length ps) ctx_cmp js_array_sort_swap (ctx ps) = ctx qs"
    by auto
  with e(1) have "qs = e"
    by simp
  moreover have "length e = length ps" "mset e = mset ps"
    using e(3) by (auto simp: rearranged_def)
  ultimately show ?thesis
    using qs(1) e(2) by (auto simp: pair_cmp_def sorted_wrt_map intro!: exI [of _ qs])
qed

subsection \<open>Merging\<close>

definition covers :: "(nat \<times> nat) list \<Rightarrow> nat \<Rightarrow> bool" where
  "covers ps c \<longleftrightarrow> (\<exists>p\<in>set ps. fst p \<le> c \<and> c < snd p)"

definition proper :: "(nat \<times> nat) list \<Rightarrow> bool" where
  "proper ps \<longleftrightarrow> (\<forall>p\<in>set ps. fst p \<le> snd p \<and> snd p \<le> max_code_point)"

definition separated :: "(nat \<times> nat) list \<Rightarrow> bool" where
  "separated ps \<longleftrightarrow> sorted_wrt (\<lambda>p q. snd p < fst q) ps \<and> (\<forall>p\<in>set ps. fst p < snd p)"

fun merge_pairs :: "(nat \<times> nat) list \<Rightarrow> (nat \<times> nat) list" where
  "merge_pairs [] = []"
| "merge_pairs [(s, e)] = (if s = e then [] else [(s, e)])"
| "merge_pairs ((s, e) # (s2, e2) # ps) =
     (if s = e then merge_pairs ((s2, e2) # ps)
      else if e < s2 then (s, e) # merge_pairs ((s2, e2) # ps)
      else merge_pairs ((s, max e e2) # ps))"

lemma covers_simps [simp]:
  "covers [] c \<longleftrightarrow> False" "covers (p # ps) c \<longleftrightarrow> fst p \<le> c \<and> c < snd p \<or> covers ps c"
  by (auto simp: covers_def)

lemma proper_Cons [simp]:
  "proper [] \<longleftrightarrow> True" "proper (p # ps) \<longleftrightarrow> fst p \<le> snd p \<and> snd p \<le> max_code_point \<and> proper ps"
  by (auto simp: proper_def)

lemma merge_covers:
  "sorted (map fst ps) \<Longrightarrow> proper ps \<Longrightarrow> covers (merge_pairs ps) c \<longleftrightarrow> covers ps c"
proof (induction ps rule: merge_pairs.induct)
  case (3 s e s2 e2 ps)
  show ?case
  proof (cases "s = e \<or> e < s2")
    case True
    with 3 show ?thesis
      by auto
  next
    case False
    have "sorted (map fst ((s, max e e2) # ps))" "proper ((s, max e e2) # ps)"
      using 3(4,5) by auto
    with 3(3) False have "covers (merge_pairs ((s, e) # (s2, e2) # ps)) c \<longleftrightarrow> covers ((s, max e e2) # ps) c"
      by simp
    also have "\<dots> \<longleftrightarrow> covers ((s, e) # (s2, e2) # ps) c"
      using False 3(4,5) by auto
    finally show ?thesis .
  qed
qed auto

lemma merge_fst: "q \<in> set (merge_pairs ((s, e) # ps)) \<Longrightarrow> sorted (map fst ((s, e) # ps)) \<Longrightarrow> s \<le> fst q"
proof (induction "(s, e) # ps" arbitrary: s e ps rule: merge_pairs.induct)
  case (3 s e s2 e2 ps)
  consider "s = e" | "s \<noteq> e" "e < s2" | "s \<noteq> e" "\<not> e < s2"
    by blast
  then show ?case
  proof cases
    case 1
    with 3 show ?thesis
      by force
  next
    case 2
    with 3 show ?thesis
      by force
  next
    case c: 3
    with 3(3) [OF c] 3(4,5) show ?thesis
      by auto
  qed
qed (auto split: if_splits)

lemma merge_separated:
  "sorted (map fst ps) \<Longrightarrow> proper ps \<Longrightarrow> separated (merge_pairs ps) \<and> proper (merge_pairs ps)"
proof (induction ps rule: merge_pairs.induct)
  case (3 s e s2 e2 ps)
  consider "s = e" | "s \<noteq> e" "e < s2" | "s \<noteq> e" "\<not> e < s2"
    by blast
  then show ?case
  proof cases
    case 1
    with 3 show ?thesis
      by auto
  next
    case 2
    then have "separated (merge_pairs ((s2, e2) # ps)) \<and> proper (merge_pairs ((s2, e2) # ps))"
      using 3 by auto
    moreover have "e < fst q" if "q \<in> set (merge_pairs ((s2, e2) # ps))" for q
      using merge_fst [OF that] 2(2) 3(4) by force
    ultimately show ?thesis
      using 2 3(5) by (auto simp: separated_def)
  next
    case c: 3
    with 3(3) [OF c] 3(4,5) show ?thesis
      by auto
  qed
qed (auto simp: separated_def)

lemma length_merge_pairs: "length (merge_pairs ps) \<le> length ps"
  by (induction ps rule: merge_pairs.induct) auto

text \<open>
  The loop in place: what it has written are the merged intervals, and it writes only behind its reader.
\<close>

lemma compress_loop_merge:
  assumes "ps = done0 @ gap @ todo" "len = length ps" "i = length done0 + length gap" "j = length done0"
  shows "\<exists>ps'. compress_loop (flat_pairs ps) len i j = (flat_pairs ps', j + length (merge_pairs todo)) \<and>
    length ps' = length ps \<and> take (j + length (merge_pairs todo)) ps' = done0 @ merge_pairs todo"
  using assms
proof (induction todo arbitrary: ps done0 gap i j rule: merge_pairs.induct)
  case 1
  then show ?case
    by (subst compress_loop.simps) (auto intro!: exI [of _ ps])
next
  case (2 s e)
  note step = compress_loop.simps [of "flat_pairs ps" len i j]
  have "ps ! i = (s, e)" "i < length ps" and len: "i < len" "\<not> i + 1 < len"
    using 2 by (auto simp: nth_append)
  then have nth: "get_interval (flat_pairs ps) i = (s, e)" "i < len" "\<not> i + 1 < len"
    by auto
  have stop: "compress_loop w len (i + 1) k = (w, k)" for w k
    using nth by (subst compress_loop.simps) simp
  show ?case
  proof (cases "s = e")
    case True
    then have "compress_loop (flat_pairs ps) len i j = (flat_pairs ps, j)"
      unfolding step using nth stop by simp
    with True 2 show ?thesis
      by (intro exI [of _ ps]) simp
  next
    case False
    let ?ps = "ps[j := (s, e)]"
    have "compress_loop (flat_pairs ps) len i j = (flat_pairs ?ps, j + 1)"
      unfolding step using nth stop False 2(2-4) by simp
    then show ?thesis
      using 2 False by (intro exI [of _ ?ps]) (cases gap; auto simp: list_update_append)
  qed
next
  case (3 s e s2 e2 todo)
  note step = compress_loop.simps [of "flat_pairs ps" len i j]
  have "ps ! i = (s, e)" "ps ! (i + 1) = (s2, e2)" "i < length ps" "i + 1 < length ps" "j < length ps"
    using 3(4-7) by (auto simp: nth_append)
  then have nth: "get_interval (flat_pairs ps) i = (s, e)" "get_interval (flat_pairs ps) (i + 1) = (s2, e2)"
      "i < len" "i + 1 < len" "i + 1 < length ps" "j < length ps"
    using 3(5) by auto
  consider (empty) "s = e" | (apart) "s \<noteq> e" "e < s2" | (merge) "s \<noteq> e" "\<not> e < s2"
    by blast
  then show ?case
  proof cases
    case empty
    then have "compress_loop (flat_pairs ps) len i j = compress_loop (flat_pairs ps) len (i + 1) j"
      unfolding step using nth by simp
    with 3(1) [OF empty, of ps done0 "gap @ [(s, e)]" "i + 1" j] 3(4-7) empty show ?thesis
      by simp
  next
    case apart
    define gap' where "gap' = (case gap of [] \<Rightarrow> [] | g # gs \<Rightarrow> gs @ [(s, e)])"
    have ps': "ps[j := (s, e)] = (done0 @ [(s, e)]) @ gap' @ (s2, e2) # todo" "length gap' = length gap"
      using 3(4-7) by (auto simp: gap'_def list_update_append split: list.splits)
    have "compress_loop (flat_pairs ps) len i j = compress_loop (flat_pairs (ps[j := (s, e)])) len (i + 1) (j + 1)"
      unfolding step using nth apart by simp
    with 3(2) [OF apart, of "ps[j := (s, e)]" "done0 @ [(s, e)]" gap' "i + 1" "j + 1"] 3(4-7) ps' apart show ?thesis
      by auto
  next
    case merge
    have ps': "ps[i + 1 := (s, max e e2)] = done0 @ (gap @ [(s, e)]) @ (s, max e e2) # todo"
      using 3(4-7) by (auto simp: list_update_append)
    have "compress_loop (flat_pairs ps) len i j = compress_loop (flat_pairs (ps[i + 1 := (s, max e e2)])) len (i + 1) j"
      unfolding step using nth merge by simp
    with 3(3) [OF merge, of "ps[i + 1 := (s, max e e2)]" done0 "gap @ [(s, e)]" "i + 1" j] 3(4-7) ps' merge show ?thesis
      by auto
  qed
qed

lemma range_compress_merge:
  "\<exists>ps'. range_compress (flat_pairs ps) (length ps) = (flat_pairs ps', length (merge_pairs ps)) \<and>
    take (length (merge_pairs ps)) ps' = merge_pairs ps"
  using compress_loop_merge [of ps "[]" "[]" ps "length ps" 0 0] by (auto simp: range_compress_def)

subsection \<open>Inversion\<close>

text \<open>
  A zero in front and the end of the code points behind shift the words by one: the gaps become the intervals.
\<close>

fun gaps :: "nat \<Rightarrow> (nat \<times> nat) list \<Rightarrow> (nat \<times> nat) list" where
  "gaps a [] = [(a, max_code_point)]"
| "gaps a ((s, e) # ps) = (a, s) # gaps e ps"

lemma flat_gaps: "flat_pairs (gaps a ps) = a # flat_pairs ps @ [max_code_point]"
  by (induction a ps rule: gaps.induct) auto

lemma length_gaps [simp]: "length (gaps a ps) = length ps + 1"
  by (induction a ps rule: gaps.induct) auto

lemma separated_Cons [simp]:
  "separated [] \<longleftrightarrow> True"
  "separated (p # ps) \<longleftrightarrow> fst p < snd p \<and> (\<forall>q\<in>set ps. snd p < fst q) \<and> separated ps"
  by (auto simp: separated_def)

lemma gaps_fst_ge:
  "separated ps \<Longrightarrow> \<forall>p\<in>set ps. a \<le> fst p \<Longrightarrow> q \<in> set (gaps a ps) \<Longrightarrow> a \<le> fst q"
  by (induction a ps rule: gaps.induct) fastforce+

lemma gaps_correct:
  assumes "separated ps" "proper ps" "\<forall>p\<in>set ps. a \<le> fst p" "a \<le> max_code_point"
  shows "sorted (map fst (gaps a ps)) \<and> proper (gaps a ps) \<and>
    (\<forall>c. covers (gaps a ps) c \<longleftrightarrow> a \<le> c \<and> c < max_code_point \<and> \<not> covers ps c)"
  using assms
proof (induction a ps rule: gaps.induct)
  case (2 a s e ps)
  have e: "\<forall>p\<in>set ps. e \<le> fst p" "e \<le> max_code_point" "s < e" "a \<le> s"
    using 2(2-4) by auto
  have IH: "sorted (map fst (gaps e ps))" "proper (gaps e ps)"
      "\<And>c. covers (gaps e ps) c \<longleftrightarrow> e \<le> c \<and> c < max_code_point \<and> \<not> covers ps c"
    using 2(1) 2(2,3) e by auto
  have "a \<le> fst q" if "q \<in> set (gaps e ps)" for q
    using gaps_fst_ge [OF _ e(1) that] 2(2) e(3,4) by auto
  moreover have "\<not> covers ps c" if "c < e" for c
    using e(1) that by (force simp: covers_def)
  ultimately show ?case
    using IH e 2(3) by auto
qed auto

subsection \<open>Compilation\<close>

definition range_code_of :: "(nat \<times> nat) list \<Rightarrow> range_code" where
  "range_code_of qs =
     (if length qs > 65534 then Range_too_big
      else if qs \<noteq> [] \<and> length qs < 16 \<and> (snd (last qs) < 254 \<or> snd (last qs) = max_code_point \<and> fst (last qs) < 254)
      then Range8 (length qs) (map range8_byte (flat_pairs qs))
      else Range (length qs) (flat_pairs qs))"

lemma encode_range_flat: "encode_range (length qs) (flat_pairs qs) = range_code_of qs"
proof (cases "qs = []")
  case False
  then have "get_interval (flat_pairs qs) (length qs - 1) = last qs"
    by (simp add: last_conv_nth)
  with False show ?thesis
    by (simp only: encode_range_def range_code_of_def take_flat_pairs take_all order_refl) simp
qed (simp add: encode_range_def range_code_of_def)

definition class_intervals :: "(nat \<times> nat) list \<Rightarrow> bool \<Rightarrow> (nat \<times> nat) list \<Rightarrow> bool" where
  "class_intervals ps invert qs \<longleftrightarrow>
     separated qs \<and> proper qs \<and> (\<forall>c < max_code_point. covers qs c \<longleftrightarrow> invert \<noteq> covers ps c) \<and>
     length qs \<le> length ps + 1"

lemma re_range_optimize_pairs:
  assumes "proper ps"
  shows "\<exists>qs. class_intervals ps invert qs \<and> re_range_optimize (flat_pairs ps) invert = range_code_of qs"
proof -
  have "fst p < 2 ^ 31" if "p \<in> set ps" for p
    using assms that by (fastforce simp: proper_def max_code_point_def)
  then obtain ss where ss: "rqsort_idx (length ps) range_sort_cmp range_sort_swap (flat_pairs ps) = flat_pairs ss"
      "mset ss = mset ps" "sorted (map fst ss)"
    using range_sort_correct [of ps] by (auto simp: small_def)
  have set: "set ss = set ps" "length ss = length ps"
    using ss(2) mset_eq_setD mset_eq_length by blast+
  then have ps: "proper ss" "covers ss c \<longleftrightarrow> covers ps c" for c
    using assms by (auto simp: proper_def covers_def)
  let ?m = "merge_pairs ss"
  have m: "separated ?m" "proper ?m" "covers ?m c \<longleftrightarrow> covers ps c" for c
    using merge_separated [OF ss(3) ps(1)] merge_covers [OF ss(3) ps(1)] ps(2) by auto
  obtain w2 where w2: "range_compress (flat_pairs ss) (length ps) = (flat_pairs w2, length ?m)" "take (length ?m) w2 = ?m"
    using range_compress_merge [of ss] set(2) by auto
  let ?g = "gaps 0 ?m"
  have g: "sorted (map fst ?g)" "proper ?g" "covers ?g c \<longleftrightarrow> c < max_code_point \<and> \<not> covers ps c" for c
    using gaps_correct [OF m(1,2), of 0] m(3) by auto
  obtain w3 where w3: "range_compress (0 # flat_pairs ?m @ [max_code_point]) (Suc (length ?m)) = (flat_pairs w3, length (merge_pairs ?g))"
      "take (length (merge_pairs ?g)) w3 = merge_pairs ?g"
    using range_compress_merge [of ?g] by (auto simp: flat_gaps)
  define qs where "qs = (if invert then merge_pairs ?g else ?m)"
  have "length qs \<le> length ps + 1"
    using length_merge_pairs [of ss] length_merge_pairs [of ?g] set(2) by (auto simp: qs_def)
  then have "class_intervals ps invert qs"
    using m merge_separated [OF g(1,2)] merge_covers [OF g(1,2)] g(3)
    by (auto simp: class_intervals_def qs_def)
  moreover have "re_range_optimize (flat_pairs ps) invert = range_code_of qs"
  proof (cases invert)
    case True
    then have "qs = merge_pairs ?g"
      by (simp add: qs_def)
    with True show ?thesis
      by (simp add: re_range_optimize_def ss(1) w2 w3 encode_range_flat)
  next
    case False
    then have "qs = ?m"
      by (simp add: qs_def)
    with False show ?thesis
      by (simp add: re_range_optimize_def ss(1) w2 encode_range_flat)
  qed
  ultimately show ?thesis
    by blast
qed

text \<open>
  The characters an item stands for, and the intervals emitted for it.
\<close>

definition swap_case :: "nat \<Rightarrow> nat" where
  "swap_case c = (if 65 \<le> c \<and> c \<le> 90 then c + 32 else if 97 \<le> c \<and> c \<le> 122 then c - 32 else c)"

definition in_char_range :: "char_range \<Rightarrow> nat \<Rightarrow> bool" where
  "in_char_range r c \<longleftrightarrow>
     (case r of
        CHAR_RANGE_d \<Rightarrow> 48 \<le> c \<and> c \<le> 57
      | CHAR_RANGE_s \<Rightarrow> 9 \<le> c \<and> c \<le> 13 \<or> 0x2000 \<le> c \<and> c \<le> 0x200A \<or>
          c \<in> {0x20, 0xA0, 0x1680, 0x2028, 0x2029, 0x202F, 0x205F, 0x3000, 0xFEFF}
      | CHAR_RANGE_w \<Rightarrow> 48 \<le> c \<and> c \<le> 57 \<or> 65 \<le> c \<and> c \<le> 90 \<or> 97 \<le> c \<and> c \<le> 122 \<or> c = 95)"

fun item_matches :: "bool \<Rightarrow> class_item \<Rightarrow> nat \<Rightarrow> bool" where
  "item_matches ignore_case (Chars c1 c2) c \<longleftrightarrow>
     c1 \<le> c \<and> c \<le> c2 \<or> ignore_case \<and> c1 \<le> swap_case c \<and> swap_case c \<le> c2"
| "item_matches ignore_case (Class r invert) c \<longleftrightarrow> invert \<noteq> in_char_range r c"

fun item_ok :: "class_item \<Rightarrow> bool" where
  "item_ok (Chars c1 c2) \<longleftrightarrow> c1 \<le> c2 \<and> c2 < max_code_point"
| "item_ok (Class r invert) \<longleftrightarrow> True"

definition intersect_pairs :: "nat \<Rightarrow> nat \<Rightarrow> nat \<Rightarrow> nat \<Rightarrow> int \<Rightarrow> (nat \<times> nat) list" where
  "intersect_pairs a b a1 b1 k =
     (if max a a1 < min b b1
      then (max a a1, min b b1) #
        (if k \<noteq> 0 then [(nat ((int (max a a1) + k) mod 2 ^ 32), nat ((int (min b b1) + k) mod 2 ^ 32))] else [])
      else [])"

lemma add_interval_pairs:
  "add_interval_intersect (flat_pairs ps) a b a1 b1 k = flat_pairs (ps @ intersect_pairs a b a1 b1 k)"
  by (simp add: add_interval_intersect_def intersect_pairs_def Let_def)

lemma intersect_plain:
  "covers (intersect_pairs a b a1 b1 0) c \<longleftrightarrow> a \<le> c \<and> c < b \<and> a1 \<le> c \<and> c < b1"
  "b \<le> max_code_point \<Longrightarrow> proper (intersect_pairs a b a1 b1 0)"
  by (auto simp: intersect_pairs_def)

lemma offset_up: "x \<le> 91 \<Longrightarrow> nat ((int x + 32) mod 2 ^ 32) = x + 32"
  by simp

lemma offset_down: "97 \<le> x \<Longrightarrow> x \<le> 123 \<Longrightarrow> nat ((int x + (- 32)) mod 2 ^ 32) = x - 32"
  by simp

lemma intersect_upper:
  "covers (intersect_pairs a b 65 91 32) c \<longleftrightarrow>
    a \<le> c \<and> c < b \<and> 65 \<le> c \<and> c < 91 \<or> a \<le> c - 32 \<and> c - 32 < b \<and> 97 \<le> c \<and> c < 123"
  "b \<le> max_code_point \<Longrightarrow> proper (intersect_pairs a b 65 91 32)"
proof -
  have "intersect_pairs a b 65 91 32 =
      (if max a 65 < min b 91 then [(max a 65, min b 91), (max a 65 + 32, min b 91 + 32)] else [])"
    using offset_up [of "max a 65"] offset_up [of "min b 91"] by (simp add: intersect_pairs_def)
  then show "covers (intersect_pairs a b 65 91 32) c \<longleftrightarrow>
    a \<le> c \<and> c < b \<and> 65 \<le> c \<and> c < 91 \<or> a \<le> c - 32 \<and> c - 32 < b \<and> 97 \<le> c \<and> c < 123"
    "b \<le> max_code_point \<Longrightarrow> proper (intersect_pairs a b 65 91 32)"
    by (auto simp: max_code_point_def)
qed

lemma intersect_lower:
  "covers (intersect_pairs a b 97 123 (- 32)) c \<longleftrightarrow>
    a \<le> c \<and> c < b \<and> 97 \<le> c \<and> c < 123 \<or> a \<le> c + 32 \<and> c + 32 < b \<and> 65 \<le> c \<and> c < 91"
  "b \<le> max_code_point \<Longrightarrow> proper (intersect_pairs a b 97 123 (- 32))"
proof -
  have "intersect_pairs a b 97 123 (- 32) =
      (if max a 97 < min b 123 then [(max a 97, min b 123), (max a 97 - 32, min b 123 - 32)] else [])"
    using offset_down [of "max a 97"] offset_down [of "min b 123"] by (simp add: intersect_pairs_def)
  then show "covers (intersect_pairs a b 97 123 (- 32)) c \<longleftrightarrow>
    a \<le> c \<and> c < b \<and> 97 \<le> c \<and> c < 123 \<or> a \<le> c + 32 \<and> c + 32 < b \<and> 65 \<le> c \<and> c < 91"
    "b \<le> max_code_point \<Longrightarrow> proper (intersect_pairs a b 97 123 (- 32))"
    by (auto simp: max_code_point_def)
qed

lemma covers_append [simp]: "covers (ps @ qs) c \<longleftrightarrow> covers ps c \<or> covers qs c"
  by (auto simp: covers_def)

lemma proper_append [simp]: "proper (ps @ qs) \<longleftrightarrow> proper ps \<and> proper qs"
  by (auto simp: proper_def)

lemma add_range_pairs:
  assumes "c1 \<le> c2" "c2 < max_code_point"
  shows "\<exists>qs. add_range ignore_case (flat_pairs ps) c1 (c2 + 1) = flat_pairs (ps @ qs) \<and> proper qs \<and>
    (\<forall>c < max_code_point. covers qs c \<longleftrightarrow> item_matches ignore_case (Chars c1 c2) c)"
proof (cases ignore_case)
  case False
  then show ?thesis
    using assms by (intro exI [of _ "[(c1, c2 + 1)]"]) (auto simp: add_range_def)
next
  case True
  let ?I = "intersect_pairs c1 (c2 + 1)"
  let ?qs = "?I 0 65 0 @ ?I (90 + 1) 97 0 @ ?I (122 + 1) (2 ^ 31 - 1) 0 @ ?I 65 91 32 @ ?I 97 123 (- 32)"
  have b: "c2 + 1 \<le> max_code_point"
    using assms(2) by simp
  have "add_range ignore_case (flat_pairs ps) c1 (c2 + 1) = flat_pairs (ps @ ?qs)"
    unfolding add_range_def Let_def add_interval_pairs using True by simp
  moreover have "proper ?qs"
    using intersect_plain(2) [OF b] intersect_upper(2) [OF b] intersect_lower(2) [OF b] by simp
  moreover have "covers ?qs c \<longleftrightarrow> item_matches ignore_case (Chars c1 c2) c" if "c < max_code_point" for c
  proof -
    have c: "c < 2 ^ 31 - 1"
      using that by (simp add: max_code_point_def)
    show ?thesis
    proof (cases "65 \<le> c \<and> c \<le> 90")
      case up: True
      then have "\<not> 97 \<le> c" "\<not> 123 \<le> c" "\<not> c < 65" "\<not> 91 \<le> c" "swap_case c = c + 32"
        by (auto simp: swap_case_def)
      with up True show ?thesis
        unfolding covers_append intersect_plain(1) intersect_upper(1) intersect_lower(1) by (auto simp: less_Suc_eq_le)
    next
      case up: False
      show ?thesis
      proof (cases "97 \<le> c \<and> c \<le> 122")
        case low: True
        then have "\<not> 123 \<le> c" "\<not> c < 65" "\<not> c < 97" "\<not> c < 91" "swap_case c = c - 32"
          by (auto simp: swap_case_def)
        with low True show ?thesis
          unfolding covers_append intersect_plain(1) intersect_upper(1) intersect_lower(1) by (auto simp: less_Suc_eq_le)
      next
        case low: False
        with up have other: "swap_case c = c" "\<not> (65 \<le> c \<and> c < 91)" "\<not> (97 \<le> c \<and> c < 123)"
            "c < 65 \<or> 91 \<le> c \<and> c < 97 \<or> 123 \<le> c"
          by (auto simp: swap_case_def)
        have le: "c < c2 + 1 \<longleftrightarrow> c \<le> c2"
          by auto
        have "covers ?qs c \<longleftrightarrow> c1 \<le> c \<and> c \<le> c2"
          unfolding covers_append intersect_plain(1) intersect_upper(1) intersect_lower(1) le using other(4) c by (elim disjE) auto
        then show ?thesis
          using other(1) by auto
      qed
    qed
  qed
  ultimately show ?thesis
    by blast
qed

lemma char_range_pairs:
  "\<exists>qs. re_emit_range_base (flat_pairs ps) r invert = flat_pairs (ps @ qs) \<and> proper qs \<and>
    (\<forall>c < max_code_point. covers qs c \<longleftrightarrow> item_matches ignore_case (Class r invert) c)"
proof -
  define qs :: "(nat \<times> nat) list" where "qs = (case r of
      CHAR_RANGE_d \<Rightarrow> [(48, 58)]
    | CHAR_RANGE_s \<Rightarrow> [(9, 14), (32, 33), (0xA0, 0xA1), (0x1680, 0x1681), (0x2000, 0x200B), (0x2028, 0x202A),
        (0x202F, 0x2030), (0x205F, 0x2060), (0x3000, 0x3001), (0xFEFF, 0xFF00)]
    | CHAR_RANGE_w \<Rightarrow> [(48, 58), (65, 91), (95, 96), (97, 123)])"
  have w: "char_range_words r = flat_pairs qs"
    by (cases r) (simp_all add: qs_def char_range_words_def char_range_s_def char_range_w_def)
  have one: "32 \<le> c \<and> c < 33 \<longleftrightarrow> c = 32" "160 \<le> c \<and> c < 161 \<longleftrightarrow> c = 160" "5760 \<le> c \<and> c < 5761 \<longleftrightarrow> c = 5760"
      "8232 \<le> c \<and> c < 8234 \<longleftrightarrow> c = 8232 \<or> c = 8233" "8239 \<le> c \<and> c < 8240 \<longleftrightarrow> c = 8239"
      "8287 \<le> c \<and> c < 8288 \<longleftrightarrow> c = 8287" "12288 \<le> c \<and> c < 12289 \<longleftrightarrow> c = 12288"
      "65279 \<le> c \<and> c < 65280 \<longleftrightarrow> c = 65279" "9 \<le> c \<and> c < 14 \<longleftrightarrow> 9 \<le> c \<and> c \<le> 13"
      "8192 \<le> c \<and> c < 8203 \<longleftrightarrow> 8192 \<le> c \<and> c \<le> 8202" "48 \<le> c \<and> c < 58 \<longleftrightarrow> 48 \<le> c \<and> c \<le> 57"
      "65 \<le> c \<and> c < 91 \<longleftrightarrow> 65 \<le> c \<and> c \<le> 90" "95 \<le> c \<and> c < 96 \<longleftrightarrow> c = 95"
      "97 \<le> c \<and> c < 123 \<longleftrightarrow> 97 \<le> c \<and> c \<le> 122" for c :: nat
    by linarith+
  have cov: "covers qs c \<longleftrightarrow> in_char_range r c" for c
    unfolding qs_def in_char_range_def
    by (cases r; simp only: char_range.case covers_simps fst_conv snd_conv one; blast)
  have sep: "separated qs" "proper qs"
    by (cases r; simp add: qs_def max_code_point_def)+
  show ?thesis
  proof (cases invert)
    case False
    then show ?thesis
      using w cov sep(2) by (intro exI [of _ qs]) (simp add: re_emit_range_base_def)
  next
    case True
    then show ?thesis
      using w cov gaps_correct [OF sep, of 0]
      by (intro exI [of _ "gaps 0 qs"]) (simp add: re_emit_range_base_def flat_gaps)
  qed
qed

lemma class_words_pairs:
  assumes "\<forall>it\<in>set items. item_ok it" "proper ps"
  shows "\<exists>qs. class_words ignore_case items (flat_pairs ps) = flat_pairs qs \<and> proper qs \<and>
    (\<forall>c < max_code_point. covers qs c \<longleftrightarrow> covers ps c \<or> (\<exists>it\<in>set items. item_matches ignore_case it c))"
  using assms
proof (induction items arbitrary: ps)
  case (Cons it items)
  have "\<exists>qs. class_words ignore_case (it # items) (flat_pairs ps) = class_words ignore_case items (flat_pairs (ps @ qs)) \<and>
      proper qs \<and> (\<forall>c < max_code_point. covers qs c \<longleftrightarrow> item_matches ignore_case it c)"
  proof (cases it)
    case (Chars c1 c2)
    with Cons.prems add_range_pairs [of c1 c2 ignore_case ps] show ?thesis
      by (auto simp del: item_matches.simps flat_pairs_append)
  next
    case (Class r invert)
    with char_range_pairs [of ps r invert ignore_case] show ?thesis
      by (auto simp del: item_matches.simps flat_pairs_append)
  qed
  then obtain qs where qs: "class_words ignore_case (it # items) (flat_pairs ps) = class_words ignore_case items (flat_pairs (ps @ qs))"
      "proper qs" "\<forall>c < max_code_point. covers qs c \<longleftrightarrow> item_matches ignore_case it c"
    by blast
  have "proper (ps @ qs)" "\<forall>it\<in>set items. item_ok it"
    using qs(2) Cons.prems by auto
  from Cons.IH [OF this(2,1)] qs(3) show ?case
    unfolding qs(1) by auto
qed auto

subsection \<open>Matching an encoded class\<close>

lemma flat_nth:
  assumes "i < length qs"
  shows "flat_pairs qs ! (2 * i) = fst (qs ! i)" "flat_pairs qs ! Suc (2 * i) = snd (qs ! i)"
  using get_interval_flat [OF assms] unfolding get_interval_def by (metis fst_conv, metis snd_conv Suc_eq_plus1)

lemma ex_from_step:
  "(i :: nat) < n \<Longrightarrow> (\<exists>m. i \<le> m \<and> m < n \<and> P m) \<longleftrightarrow> P i \<or> (\<exists>m. i + 1 \<le> m \<and> m < n \<and> P m)"
proof
  assume i: "i < n" and "\<exists>m. i \<le> m \<and> m < n \<and> P m"
  then obtain m where "i \<le> m" "m < n" "P m"
    by blast
  then show "P i \<or> (\<exists>m. i + 1 \<le> m \<and> m < n \<and> P m)"
    using le_neq_implies_less [of i m] by (cases "m = i") (auto simp: Suc_le_eq intro!: exI [of _ m])
qed (auto intro: Suc_leD)

lemma range8_scan_covers:
  assumes "\<And>m. m < length qs \<Longrightarrow> b ! (2 * m) = fst (qs ! m)"
    and "\<And>m. m < length qs - 1 \<Longrightarrow> b ! (2 * m + 1) = snd (qs ! m)"
    and "c < b ! (2 * (length qs - 1) + 1) \<or> b ! (2 * (length qs - 1) + 1) = 255 \<longleftrightarrow> c < snd (last qs)"
  shows "qs \<noteq> [] \<Longrightarrow> i + k = length qs - 1 \<Longrightarrow>
    range8_scan b c k i \<longleftrightarrow> (\<exists>m. i \<le> m \<and> m < length qs \<and> fst (qs ! m) \<le> c \<and> c < snd (qs ! m))"
proof (induction k arbitrary: i)
  case 0
  then have "i = length qs - 1" "i < length qs"
    by auto
  moreover have "(\<exists>m. i \<le> m \<and> m < length qs \<and> fst (qs ! m) \<le> c \<and> c < snd (qs ! m)) \<longleftrightarrow> fst (qs ! i) \<le> c \<and> c < snd (qs ! i)"
    using calculation by (auto simp: le_less) 
  ultimately show ?case
    using assms(1) [of i] assms(3) 0(1) by (auto simp: last_conv_nth)
next
  case (Suc k)
  have "range8_scan b c (Suc k) i \<longleftrightarrow> fst (qs ! i) \<le> c \<and> c < snd (qs ! i) \<or> range8_scan b c k (i + 1)"
    using assms(1) [of i] assms(2) [of i] Suc.prems by auto
  also have "\<dots> \<longleftrightarrow> (\<exists>m. i \<le> m \<and> m < length qs \<and> fst (qs ! m) \<le> c \<and> c < snd (qs ! m))"
    using Suc.IH [of "i + 1"] Suc.prems
      ex_from_step [of i "length qs" "\<lambda>m. fst (qs ! m) \<le> c \<and> c < snd (qs ! m)"] by simp
  finally show ?case .
qed

lemma covers_nth: "covers qs c \<longleftrightarrow> (\<exists>m<length qs. fst (qs ! m) \<le> c \<and> c < snd (qs ! m))"
  unfolding covers_def by (metis in_set_conv_nth)

lemma separated_less:
  assumes "separated qs" "i < j" "j < length qs"
  shows "snd (qs ! i) < fst (qs ! j)"
  using assms sorted_wrt_nth_less [of "\<lambda>p q. snd p < fst q" qs i j] by (simp add: separated_def)

lemma separated_nonempty: "separated qs \<Longrightarrow> i < length qs \<Longrightarrow> fst (qs ! i) < snd (qs ! i)"
  by (simp add: separated_def)

lemma match_range8:
  assumes "separated qs" "qs \<noteq> []" "snd (last qs) < 254 \<or> snd (last qs) = max_code_point \<and> fst (last qs) < 254"
    and "c < max_code_point"
  shows "range8_scan (map range8_byte (flat_pairs qs)) c (length qs - 1) 0 \<longleftrightarrow> covers qs c"
proof -
  let ?b = "map range8_byte (flat_pairs qs)"
  have last: "last qs = qs ! (length qs - 1)" "length qs - 1 < length qs"
    using assms(2) by (auto simp: last_conv_nth)
  have lf: "fst (last qs) < 254"
    using separated_nonempty [OF assms(1) last(2)] assms(3) last(1) by auto
  have small: "fst (qs ! m) < 254" if "m < length qs" for m
  proof (cases "m = length qs - 1")
    case False
    then have "m < length qs - 1"
      using that by simp
    from separated_less [OF assms(1) this] separated_nonempty [OF assms(1) that] lf last show ?thesis
      by simp
  qed (use lf last in simp)
  have small': "snd (qs ! m) < 254" if "m < length qs - 1" for m
    using separated_less [OF assms(1) that] lf last by auto
  have b0: "?b ! (2 * m) = fst (qs ! m)" if "m < length qs" for m
    using small [OF that] that by (simp add: flat_nth range8_byte_def max_code_point_def)
  have b1: "?b ! (2 * m + 1) = snd (qs ! m)" if "m < length qs - 1" for m
    using small' [OF that] that by (simp add: flat_nth range8_byte_def max_code_point_def)
  have "?b ! (2 * (length qs - 1) + 1) = range8_byte (snd (last qs))"
    using last by (simp add: flat_nth)
  then have b2: "c < ?b ! (2 * (length qs - 1) + 1) \<or> ?b ! (2 * (length qs - 1) + 1) = 255 \<longleftrightarrow> c < snd (last qs)"
    using assms(3,4) by (auto simp: range8_byte_def max_code_point_def)
  show ?thesis
    using range8_scan_covers [OF b0 b1 b2 assms(2), of 0 "length qs - 1"] by (simp add: covers_nth)
qed

lemma range_search_correct:
  assumes "separated qs" "length qs < 2 ^ 16" "fst (qs ! 0) \<le> c"
    and "hi < length qs" "\<forall>m<lo. m < length qs \<longrightarrow> snd (qs ! m) \<le> c" "\<forall>m. hi < m \<and> m < length qs \<longrightarrow> c < fst (qs ! m)"
    and "lo \<le> length qs"
  shows "range_search (flat_pairs qs) c lo hi = Some (covers qs c)"
  using assms(4-7)
proof (induction "hi + 1 - lo" arbitrary: lo hi rule: less_induct)
  case less
  show ?case
  proof (cases "lo \<le> hi")
    case False
    have "\<not> (fst (qs ! m) \<le> c \<and> c < snd (qs ! m))" if "m < length qs" for m
    proof (cases "m < lo")
      case True
      with less.prems(2) that show ?thesis
        by auto
    next
      case False
      with \<open>\<not> lo \<le> hi\<close> less.prems(3) that show ?thesis
        by (meson leD le_less_linear less_le_trans not_le)
    qed
    then have "\<not> covers qs c"
      by (auto simp: covers_nth)
    with False show ?thesis
      by (subst range_search.simps) simp
  next
    case True
    define idx where "idx = (lo + hi) div 2"
    have idx: "lo \<le> idx" "idx \<le> hi" "idx < length qs"
      using True less.prems(1) by (auto simp: idx_def)
    have mod: "(lo + hi) mod 2 ^ 32 = lo + hi" "(idx + 1) mod 2 ^ 32 = idx + 1"
      using less.prems(1) assms(2) True idx by auto
    have iv: "get_interval (flat_pairs qs) idx = qs ! idx"
      using idx(3) by simp
    note step = range_search.simps [of "flat_pairs qs" c lo hi, unfolded Let_def mod(1) idx_def [symmetric] iv]
    consider (below) "c < fst (qs ! idx)" | (above) "fst (qs ! idx) \<le> c" "snd (qs ! idx) \<le> c"
      | (found) "fst (qs ! idx) \<le> c" "c < snd (qs ! idx)"
      by linarith
    then show ?thesis
    proof cases
      case below
      then have i0: "0 < idx"
        using assms(3) by (cases idx) auto
      then have "(idx + 2 ^ 32 - 1) mod 2 ^ 32 = idx - 1"
        using idx(3) assms(2) by (cases idx) auto
      then have "range_search (flat_pairs qs) c lo hi = range_search (flat_pairs qs) c lo (idx - 1)"
        unfolding step using True below by simp
      moreover have "c < fst (qs ! m)" if "idx - 1 < m" "m < length qs" for m
      proof (cases "m = idx")
        case False
        then have "idx < m"
          using that(1) i0 by linarith
        from separated_less [OF assms(1) this that(2)] separated_nonempty [OF assms(1) idx(3)] below show ?thesis
          by linarith
      qed (use below in simp)
      ultimately show ?thesis
        using less.hyps [of "idx - 1" lo] idx i0 less.prems by auto
    next
      case above
      then have "range_search (flat_pairs qs) c lo hi = range_search (flat_pairs qs) c (idx + 1) hi"
        unfolding step mod(2) using True by simp
      moreover have "snd (qs ! m) \<le> c" if "m < idx + 1" for m
        using separated_less [OF assms(1), of m idx] idx(3) above that by (cases "m = idx") auto
      ultimately show ?thesis
        using less.hyps [of hi "idx + 1"] idx less.prems by auto
    next
      case found
      then have "covers qs c"
        using idx(3) by (auto simp: covers_nth)
      with found True show ?thesis
        unfolding step by simp
    qed
  qed
qed

lemma lre_match_range_code:
  assumes "separated qs" "c < max_code_point" "length qs \<le> 65534"
  shows "lre_match_range (range_code_of qs) c = Some (covers qs c)"
proof (cases "qs = []")
  case True
  then show ?thesis
    by (simp add: range_code_of_def lre_match_range_def)
next
  case ne: False
  show ?thesis
  proof (cases "length qs < 16 \<and> (snd (last qs) < 254 \<or> snd (last qs) = max_code_point \<and> fst (last qs) < 254)")
    case True
    then show ?thesis
      using match_range8 [OF assms(1) ne _ assms(2)] ne assms(3) by (auto simp: range_code_of_def lre_match_range_def)
  next
    case False
    then have code: "range_code_of qs = Range (length qs) (flat_pairs qs)"
      using ne assms(3) by (auto simp: range_code_of_def)
    have l: "0 < length qs" "length qs - 1 < length qs"
      using ne by auto
    have below: "\<not> covers qs c" if "c < fst (qs ! 0)"
    proof -
      have "c < fst (qs ! m)" if "m < length qs" for m
        using separated_less [OF assms(1), of 0 m] separated_nonempty [OF assms(1) l(1)] that \<open>c < fst (qs ! 0)\<close>
        by (cases "m = 0") auto
      then show ?thesis
        by (meson covers_nth not_le)
    qed
    have above: "\<not> covers qs c" if "snd (qs ! (length qs - 1)) \<le> c"
    proof -
      have "snd (qs ! m) \<le> c" if "m < length qs" for m
      proof (cases "m = length qs - 1")
        case False
        then have "m < length qs - 1"
          using that by simp
        from separated_less [OF assms(1) this l(2)] separated_nonempty [OF assms(1) l(2)]
          \<open>snd (qs ! (length qs - 1)) \<le> c\<close> show ?thesis
          by linarith
      qed (use \<open>snd (qs ! (length qs - 1)) \<le> c\<close> in simp)
      then show ?thesis
        by (meson covers_nth not_le)
    qed
    have "range_search (flat_pairs qs) c 0 (length qs - 1) = Some (covers qs c)" if "fst (qs ! 0) \<le> c"
      by (rule range_search_correct [OF assms(1) _ that]) (use assms(3) l in auto)
    with l below above show ?thesis
      by (auto simp: code lre_match_range_def)
  qed
qed

lemma char_class_fits:
  assumes "\<forall>it\<in>set items. item_ok it" "length (class_words ignore_case items []) \<le> 131066"
  shows "re_parse_char_class ignore_case invert items \<noteq> Range_too_big"
proof -
  obtain ps where ps: "class_words ignore_case items [] = flat_pairs ps" "proper ps"
    using class_words_pairs [OF assms(1), of "[]" ignore_case] by auto
  obtain qs where qs: "class_intervals ps invert qs" "re_range_optimize (flat_pairs ps) invert = range_code_of qs"
    using re_range_optimize_pairs [OF ps(2)] by blast
  then have "length qs \<le> 65534"
    using assms(2) ps(1) by (simp add: class_intervals_def)
  with qs(2) show ?thesis
    by (simp add: re_parse_char_class_def ps(1) range_code_of_def)
qed

subsection \<open>Properties\<close>

text \<open>C14. A compiled character class matches exactly the characters it denotes.  For every list of items in order, with or
  without inversion and case folding, the code of the class is either rejected as too big or matching a character against
  it ends, by whichever of the two instructions was chosen, with the answer whether one of the items contains the
  character, negated for an inverted class.  The binary search never wraps its unsigned bounds.
\<close>

theorem char_class_correct:
  assumes "\<forall>it\<in>set items. item_ok it" "c < max_code_point"
    and "re_parse_char_class ignore_case invert items \<noteq> Range_too_big"
  shows "lre_match_range (re_parse_char_class ignore_case invert items) c =
    Some (invert \<noteq> (\<exists>it\<in>set items. item_matches ignore_case it c))"
proof -
  obtain ps where ps: "class_words ignore_case items [] = flat_pairs ps" "proper ps"
      "\<forall>c < max_code_point. covers ps c \<longleftrightarrow> (\<exists>it\<in>set items. item_matches ignore_case it c)"
    using class_words_pairs [OF assms(1), of "[]" ignore_case] by auto
  obtain qs where qs: "class_intervals ps invert qs" "re_range_optimize (flat_pairs ps) invert = range_code_of qs"
    using re_range_optimize_pairs [OF ps(2)] by blast
  then have code: "re_parse_char_class ignore_case invert items = range_code_of qs"
    by (simp add: re_parse_char_class_def ps(1))
  have "length qs \<le> 65534"
    using assms(3) unfolding code by (auto simp: range_code_of_def split: if_splits)
  with qs(1) assms(2) ps(3) show ?thesis
    unfolding code using lre_match_range_code [of qs c] by (auto simp: class_intervals_def)
qed

theorem char_class_correct_witness:
  "lre_match_range (re_parse_char_class True True [Chars 97 99, Class CHAR_RANGE_d False]) 66 = Some False"
proof -
  have "re_parse_char_class True True [Chars 97 99, Class CHAR_RANGE_d False] \<noteq> Range_too_big"
    by (rule char_class_fits)
      (simp_all add: max_code_point_def add_range_def add_interval_intersect_def Let_def re_emit_range_base_def
        char_range_words_def)
  then show ?thesis
    using char_class_correct [of "[Chars 97 99, Class CHAR_RANGE_d False]" 66 True True]
    by (simp add: max_code_point_def swap_case_def)
qed

end
