(* ===== verification/JSPc2line.thy ===== *)
theory JSPc2line
  imports JSStringBuf
begin

section \<open>The line number table\<close>

text \<open>
  Models the bit stream in which \<^verbatim>\<open>mquickjs.c\<close> keeps the source position of each instruction: bits are
  stored from the most significant bit of each byte, numbers as exponential Golomb codes.  The writer works on
  32-bit windows of a growing byte array, the reader has a fast path for windows inside the array.
\<close>

subsection \<open>Reading\<close>

definition get_bit :: "bytes \<Rightarrow> nat \<Rightarrow> nat" where
  "get_bit b index = drop_bit (7 - (index AND 7)) (b ! drop_bit 3 index) AND 1"

definition get_bits_slow :: "bytes \<Rightarrow> nat \<Rightarrow> nat \<Rightarrow> nat" where
  "get_bits_slow b index n = foldl (\<lambda>val i. val OR push_bit (n - 1 - i) (get_bit b (index + i))) 0 [0..<n]"

definition get_bits :: "bytes \<Rightarrow> nat \<Rightarrow> nat \<Rightarrow> nat" where
  "get_bits b index n =
     (let pos = drop_bit 3 index
      in if n > 25 \<or> pos + 3 \<ge> length b then get_bits_slow b index n
         else drop_bit (32 - (index AND 7) - n) (get_be32 b pos) AND (2 ^ n - 1))"

text \<open>The number of zero bits before the first one bit, at most 32, and the index after the last bit read.\<close>

fun zeros_loop :: "bytes \<Rightarrow> nat \<Rightarrow> nat \<Rightarrow> nat \<Rightarrow> nat \<times> nat" where
  "zeros_loop b index i 0 = (i, index)"
| "zeros_loop b index i (Suc k) =
     (if get_bit b index \<noteq> 0 then (i, index + 1) else zeros_loop b (index + 1) (i + 1) k)"

definition get_ugolomb :: "bytes \<Rightarrow> nat \<Rightarrow> nat \<times> nat" where
  "get_ugolomb b index =
     (let (i, index) = zeros_loop b index 0 32
      in if i = 32 then (0xffffffff, index)
         else if i = 0 then (0, index)
         else ((2 ^ i OR get_bits b index i) - 1, index + i))"

subsection \<open>Writing\<close>

record pc2line_state =
  pc2line :: "bytes option"
  pc2line_bit_len :: nat

definition pc2line_put_bits_short :: "strctx \<Rightarrow> pc2line_state \<Rightarrow> nat \<Rightarrow> nat \<Rightarrow> js_error + pc2line_state \<times> strctx" where
  "pc2line_put_bits_short ctx s n bits =
     (let index = pc2line_bit_len s; pos = drop_bit 3 index
      in case js_resize_byte_array ctx (pc2line s) (pos + 4) of
           Inl e \<Rightarrow> Inl e
         | Inr (arr, ctx') \<Rightarrow>
             (let val = get_be32 arr pos; shift = 32 - (index AND 7) - n;
                  val = val AND (push_bit shift (2 ^ n - 1) XOR (2 ^ 32 - 1));
                  val = val OR push_bit shift bits
              in Inr (\<lparr>pc2line = Some (put_be32 arr pos val), pc2line_bit_len = index + n\<rparr>, ctx')))"

definition pc2line_put_bits :: "strctx \<Rightarrow> pc2line_state \<Rightarrow> nat \<Rightarrow> nat \<Rightarrow> js_error + pc2line_state \<times> strctx" where
  "pc2line_put_bits ctx s n bits =
     (if n > 25 then
        (case pc2line_put_bits_short ctx s (n - 25) (drop_bit 25 bits) of
           Inl e \<Rightarrow> Inl e
         | Inr (s', ctx') \<Rightarrow> pc2line_put_bits_short ctx' s' 25 (bits AND (2 ^ 25 - 1)))
      else pc2line_put_bits_short ctx s n bits)"

definition bit_width :: "nat \<Rightarrow> nat" where
  "bit_width v = 32 - length (takeWhile (\<lambda>i. \<not> bit v (31 - i)) [0..<32])"

definition put_ugolomb :: "strctx \<Rightarrow> pc2line_state \<Rightarrow> nat \<Rightarrow> js_error + pc2line_state \<times> strctx" where
  "put_ugolomb ctx s v =
     (let v = (v + 1) mod 2 ^ 32; n = bit_width v
      in case (if n > 1 then pc2line_put_bits ctx s (n - 1) 0 else Inr (s, ctx)) of
           Inl e \<Rightarrow> Inl e
         | Inr (s', ctx') \<Rightarrow> pc2line_put_bits ctx' s' n v)"

subsection \<open>Bits of words and bytes\<close>

definition stream_bit :: "bytes \<Rightarrow> nat \<Rightarrow> bool" where
  "stream_bit b k = bit (b ! (k div 8)) (7 - k mod 8)"

lemma get_bit_stream: "get_bit b k = of_bool (stream_bit b k)"
proof -
  have "k AND 7 = k mod 8" by (simp add: bits_arith)
  then show ?thesis
    by (simp add: get_bit_def stream_bit_def and_one_eq mod_2_eq_odd bit_iff_odd_drop_bit drop_bit_eq_div [of 3])
qed

lemma bswap32_masks:
  "(0xff000000 :: nat) = push_bit 24 (mask 8)" "(0xff0000 :: nat) = push_bit 16 (mask 8)"
  "(0xff00 :: nat) = push_bit 8 (mask 8)" "(0xff :: nat) = mask 8"
  by (simp_all add: mask_eq_exp_minus_1 push_bit_eq_mult)

lemma bit_bswap32:
  assumes "k < 32"
  shows "bit (bswap32 v) k = bit v (8 * (3 - k div 8) + k mod 8)"
proof -
  consider "k < 8" | "8 \<le> k" "k < 16" | "16 \<le> k" "k < 24" | "24 \<le> k" "k < 32" using assms by linarith
  then show ?thesis
  proof cases
    case 1
    then have "k div 8 = 0" "k mod 8 = k" by simp_all
    then show ?thesis using 1 unfolding bswap32_def bswap32_masks by (auto simp: bit_simps)
  next
    case 2
    then have d: "k div 8 = 1" by linarith
    have "k mod 8 = k - 8" using minus_div_mult_eq_mod [of k 8] d by simp
    then show ?thesis using 2 d unfolding bswap32_def bswap32_masks by (auto simp: bit_simps)
  next
    case 3
    then have d: "k div 8 = 2" by linarith
    have "k mod 8 = k - 16" using minus_div_mult_eq_mod [of k 8] d by simp
    then show ?thesis using 3 d unfolding bswap32_def bswap32_masks by (auto simp: bit_simps)
  next
    case 4
    then have d: "k div 8 = 3" by linarith
    have "k mod 8 = k - 24" using minus_div_mult_eq_mod [of k 8] d by simp
    then show ?thesis using 4 d unfolding bswap32_def bswap32_masks by (auto simp: bit_simps)
  qed
qed

lemma bit_cat:
  fixes x y :: nat
  assumes "x < 256"
  shows "bit (x + 256 * y) k = (if k < 8 then bit x k else bit y (k - 8))"
proof -
  have "x + 256 * y = x OR push_bit 8 y"
    using or_high_low(1) [of x 8 y] assms by (simp add: push_bit_eq_mult mult.commute)
  moreover have "take_bit 8 x = x" using assms by (simp add: take_bit_nat_eq_self)
  then have "bit x k \<Longrightarrow> k < 8" by (metis bit_take_bit_iff)
  ultimately show ?thesis by (auto simp: bit_simps)
qed

lemma bit_get_u32:
  assumes "bytes_ok d" "i + 3 < length d" "k < 32"
  shows "bit (get_u32 d i) k = bit (d ! (i + k div 8)) (k mod 8)"
proof -
  have b: "d ! i < 256" "d ! (i + 1) < 256" "d ! (i + 2) < 256" "d ! (i + 3) < 256"
    using assms bytes_ok_nth by simp_all
  have e: "get_u32 d i = d ! i + 256 * (d ! (i + 1) + 256 * (d ! (i + 2) + 256 * (d ! (i + 3) + 256 * 0)))"
    by (simp add: get_u32_def)
  consider "k < 8" | "8 \<le> k" "k < 16" | "16 \<le> k" "k < 24" | "24 \<le> k" "k < 32" using assms(3) by linarith
  then show ?thesis
  proof cases
    case 1 then show ?thesis unfolding e using b by (simp only: bit_cat) simp
  next
    case 2
    then have d: "k div 8 = 1" by linarith
    have "k - 8 < 8" using 2 by linarith
    have "k mod 8 = k - 8" using minus_div_mult_eq_mod [of k 8] d by simp
    then show ?thesis unfolding e using 2 b d \<open>k - 8 < 8\<close> by (simp only: bit_cat) simp
  next
    case 3
    then have d: "k div 8 = 2" by linarith
    have x: "\<not> k - 8 < 8" "k - 8 - 8 < 8" using 3 by linarith+
    have "k mod 8 = k - 16" using minus_div_mult_eq_mod [of k 8] d by simp
    then show ?thesis unfolding e using 3 b d x by (simp only: bit_cat) simp
  next
    case 4
    then have d: "k div 8 = 3" by linarith
    have x: "\<not> k - 8 < 8" "\<not> k - 8 - 8 < 8" "k - 8 - 8 - 8 < 8" using 4 by linarith+
    have "k mod 8 = k - 24" using minus_div_mult_eq_mod [of k 8] d by simp
    then show ?thesis unfolding e using 4 b d x by (simp only: bit_cat) simp
  qed
qed

lemma byte_split: "y < 8 \<Longrightarrow> (y + 8 * x) div 8 = x" "y < 8 \<Longrightarrow> (y + 8 * x) mod 8 = y" for x y :: nat
  by simp_all

text \<open>The window of 32 bits at byte \<open>pos\<close>, most significant bit first.\<close>

lemma bit_get_be32:
  assumes "bytes_ok d" "pos + 3 < length d" "k < 32"
  shows "bit (get_be32 d pos) k = stream_bit d (8 * pos + (31 - k))"
proof -
  have k: "k = 8 * (k div 8) + k mod 8" "k div 8 < 4" "k mod 8 < 8" using assms(3) by auto
  define a where "a = k div 8"
  define c where "c = k mod 8"
  have ka: "k = 8 * a + c" "a < 4" "c < 8" using k by (simp_all add: a_def c_def)
  have l: "(8 * (3 - a) + c) div 8 = 3 - a" "(8 * (3 - a) + c) mod 8 = c" "8 * (3 - a) + c < 32" using ka by auto
  have "8 * pos + (31 - k) = (7 - c) + 8 * (pos + (3 - a))" using ka by presburger
  then have r: "(8 * pos + (31 - k)) div 8 = pos + (3 - a)" "(8 * pos + (31 - k)) mod 8 = 7 - c"
    using byte_split [of "7 - c" "pos + (3 - a)"] by simp_all
  have "bit (get_be32 d pos) k = bit (get_u32 d pos) (8 * (3 - a) + c)"
    using bit_bswap32 [OF assms(3)] by (simp add: get_be32_def a_def c_def)
  also have "\<dots> = bit (d ! (pos + (3 - a))) c" using bit_get_u32 [OF assms(1,2) l(3)] l by simp
  finally show ?thesis using r ka by (simp add: stream_bit_def)
qed

lemma put_u32_nth:
  assumes "i + 3 < length d" "k < length d"
  shows "put_u32 d i v ! k = (if i \<le> k \<and> k < i + 4 then u8 (drop_bit (8 * (k - i)) v) else d ! k)"
proof -
  consider "k = i" | "k = i + 1" | "k = i + 2" | "k = i + 3" | "k < i \<or> i + 4 \<le> k" by linarith
  then show ?thesis by cases (use assms in \<open>auto simp: put_u32_def nth_list_update\<close>)
qed

lemma put_be32_stream:
  assumes "pos + 3 < length d" "q < 8 * length d"
  shows "stream_bit (put_be32 d pos v) q =
    (if 8 * pos \<le> q \<and> q < 8 * pos + 32 then bit v (31 - (q - 8 * pos)) else stream_bit d q)"
proof -
  define a where "a = q div 8"
  define c where "c = q mod 8"
  have q: "q = 8 * a + c" "c < 8" "a < length d" using assms(2) by (auto simp: a_def c_def)
  have in_w: "pos \<le> a \<and> a < pos + 4 \<longleftrightarrow> 8 * pos \<le> q \<and> q < 8 * pos + 32" using q by linarith
  have n: "put_be32 d pos v ! a = (if pos \<le> a \<and> a < pos + 4 then u8 (drop_bit (8 * (a - pos)) (bswap32 v)) else d ! a)"
    using put_u32_nth [OF assms(1) q(3)] by (simp add: put_be32_def)
  show ?thesis
  proof (cases "pos \<le> a \<and> a < pos + 4")
    case False
    then have "put_be32 d pos v ! a = d ! a" using n by (simp only: if_False)
    then have "stream_bit (put_be32 d pos v) q = stream_bit d q" by (simp add: stream_bit_def a_def)
    moreover have "\<not> (8 * pos \<le> q \<and> q < 8 * pos + 32)" using False in_w by blast
    ultimately show ?thesis by (simp only: if_False)
  next
    case True
    define j where "j = a - pos"
    have j: "j < 4" "a = pos + j" using True by (auto simp: j_def)
    let ?k = "8 * j + (7 - c)"
    have k: "?k < 32" "?k div 8 = j" "?k mod 8 = 7 - c"
      using j q byte_split [of "7 - c" j] by (simp_all add: add.commute)
    have "bit (u8 x) m = (m < 8 \<and> bit x m)" for x m
      using bit_take_bit_iff [of 8 x m] by (simp add: u8_def take_bit_eq_mod)
    moreover have "7 - c < 8" by linarith
    ultimately have "stream_bit (put_be32 d pos v) q = bit (bswap32 v) ?k"
      using n True q(2) by (simp add: stream_bit_def a_def [symmetric] c_def [symmetric] j_def [symmetric] bit_drop_bit_eq add.commute)
    also have "\<dots> = bit v (8 * (3 - j) + (7 - c))" using bit_bswap32 [OF k(1)] k by simp
    also have "8 * (3 - j) + (7 - c) = 31 - (q - 8 * pos)" using q j by linarith
    finally show ?thesis using in_w True by simp
  qed
qed

lemma put_be32_bytes_ok: "bytes_ok d \<Longrightarrow> pos + 3 < length d \<Longrightarrow> bytes_ok (put_be32 d pos v) \<and> length (put_be32 d pos v) = length d"
  by (auto simp: bytes_ok_def list_all_length put_be32_def put_u32_nth) (simp_all add: put_u32_def nth_list_update)

subsection \<open>Reading a field\<close>

text \<open>The number whose binary digits, most significant first, are the \<open>n\<close> bits from \<open>index\<close>.\<close>

definition field :: "bytes \<Rightarrow> nat \<Rightarrow> nat \<Rightarrow> nat \<Rightarrow> bool" where
  "field d index n v \<longleftrightarrow> v < 2 ^ n \<and> (\<forall>j < n. stream_bit d (index + j) = bit v (n - 1 - j))"

lemma field_unique:
  assumes "field d index n v" "field d index n w"
  shows "v = w"
proof (rule bit_eqI)
  fix k
  show "bit v k = bit w k"
  proof (cases "k < n")
    case True
    then have "n - 1 - (n - 1 - k) = k" "n - 1 - k < n" by auto
    then show ?thesis using assms unfolding field_def by metis
  next
    case False
    have "take_bit n v = v" "take_bit n w = w" using assms by (simp_all add: field_def take_bit_nat_eq_self)
    then show ?thesis using False by (metis bit_take_bit_iff)
  qed
qed

lemma get_bits_slow_field: "field d index n (get_bits_slow d index n)"
proof -
  have *: "bit (foldl (\<lambda>val i. val OR push_bit (n - 1 - i) (get_bit d (index + i))) 0 [0..<m]) k \<longleftrightarrow>
      (\<exists>i < m. k = n - 1 - i \<and> stream_bit d (index + i))" for m k
    by (induction m) (auto simp: bit_simps get_bit_stream less_Suc_eq bit_of_bool_iff)
  have b: "bit (get_bits_slow d index n) k \<longleftrightarrow> k < n \<and> stream_bit d (index + (n - 1 - k))" for k
    unfolding get_bits_slow_def * by (auto intro: exI [of _ "n - 1 - k"])
  have "take_bit n (get_bits_slow d index n) = get_bits_slow d index n"
    by (rule bit_eqI) (auto simp: bit_take_bit_iff b)
  then have "get_bits_slow d index n < 2 ^ n" by (metis take_bit_nat_less_exp)
  then show ?thesis unfolding field_def by (auto simp: b)
qed

lemma get_bits_field:
  assumes "bytes_ok d" "n \<le> 32"
  shows "field d index n (get_bits d index n)"
proof (cases "n > 25 \<or> index div 8 + 3 \<ge> length d")
  case True
  then show ?thesis using get_bits_slow_field by (auto simp: get_bits_def Let_def drop_bit_eq_div)
next
  case False
  define pos where "pos = index div 8"
  define c where "c = index mod 8"
  have i: "index = 8 * pos + c" "c < 8" by (simp_all add: pos_def c_def)
  have n: "n \<le> 25" "pos + 3 < length d" using False by (simp_all add: pos_def)
  have "index AND 7 = c" by (simp add: c_def bits_arith)
  then have g: "get_bits d index n = take_bit n (drop_bit (32 - c - n) (get_be32 d pos))"
    using False by (simp add: get_bits_def Let_def drop_bit_eq_div [of 3] pos_def take_bit_eq_mask mask_eq_exp_minus_1)
  have "stream_bit d (index + j) = bit (get_bits d index n) (n - 1 - j)" if "j < n" for j
  proof -
    have k: "32 - c - n + (n - 1 - j) < 32" "8 * pos + (31 - (32 - c - n + (n - 1 - j))) = index + j"
      using i n that by linarith+
    show ?thesis using bit_get_be32 [OF assms(1) n(2) k(1)] k(2) that
      by (simp add: g bit_take_bit_iff bit_drop_bit_eq)
  qed
  moreover have "get_bits d index n < 2 ^ n" by (simp add: g)
  ultimately show ?thesis by (simp add: field_def)
qed

subsection \<open>Writing a field\<close>

definition pc2line_bytes :: "pc2line_state \<Rightarrow> bytes" where
  "pc2line_bytes s = (case pc2line s of None \<Rightarrow> [] | Some d \<Rightarrow> d)"

definition pc2line_ok :: "pc2line_state \<Rightarrow> bool" where
  "pc2line_ok s \<longleftrightarrow> bytes_ok (pc2line_bytes s) \<and> pc2line_bit_len s \<le> 8 * length (pc2line_bytes s)"

text \<open>\<open>stream_extends s s'\<close>: the bits written so far are kept.\<close>

definition stream_extends :: "pc2line_state \<Rightarrow> pc2line_state \<Rightarrow> bool" where
  "stream_extends s s' \<longleftrightarrow> pc2line_ok s' \<and> pc2line_bit_len s \<le> pc2line_bit_len s'
     \<and> (\<forall>q < pc2line_bit_len s. stream_bit (pc2line_bytes s') q = stream_bit (pc2line_bytes s) q)"

lemma stream_extends_trans: "stream_extends s s1 \<Longrightarrow> stream_extends s1 s2 \<Longrightarrow> stream_extends s s2"
  by (auto simp: stream_extends_def)

lemma stream_extends_field:
  assumes "stream_extends s s'" "field (pc2line_bytes s) index n v" "index + n \<le> pc2line_bit_len s"
  shows "field (pc2line_bytes s') index n v"
  using assms by (auto simp: stream_extends_def field_def)

lemma resize_byte_array_keeps:
  assumes "js_resize_byte_array ctx val sz = Inr (arr, ctx')"
  defines "old \<equiv> (case val of None \<Rightarrow> [] | Some a \<Rightarrow> a)"
  shows "\<exists>k. arr = old @ replicate k 0" "sz \<le> length arr"
proof -
  have m: "nat (max_int (int a) (int b)) = max a b" for a b by (simp add: max_int_def)
  show "\<exists>k. arr = old @ replicate k 0"
    using assms(1) unfolding js_resize_byte_array_def Let_def old_def [symmetric] m
    by (auto simp: js_alloc_byte_array_def Let_def memcpy_at_def split: if_splits sum.splits intro: exI [of _ 0])
  show "sz \<le> length arr"
    using assms(1) unfolding js_resize_byte_array_def Let_def old_def [symmetric] m
    by (auto simp: js_alloc_byte_array_def Let_def memcpy_at_def split: if_splits sum.splits)
qed

lemma put_window_bit:
  assumes "bits < 2 ^ n" "shift + n \<le> 32" "k < 32"
  shows "bit ((val AND (push_bit shift (2 ^ n - 1) XOR (2 ^ 32 - 1))) OR push_bit shift bits) k =
    (if shift \<le> k \<and> k < shift + n then bit bits (k - shift) else bit (val :: nat) k)"
proof -
  have m: "2 ^ n - 1 = (mask n :: nat)" "2 ^ 32 - 1 = (mask 32 :: nat)" by (simp_all add: mask_eq_exp_minus_1)
  have "take_bit n bits = bits" using assms(1) by (simp add: take_bit_nat_eq_self)
  then have b: "bit bits (k - shift) \<Longrightarrow> k - shift < n" by (metis bit_take_bit_iff)
  consider "k < shift" | "shift \<le> k" "k < shift + n" | "shift + n \<le> k" by linarith
  then show ?thesis
  proof cases
    case 3
    then have "\<not> bit bits (k - shift)" using b by linarith
    then show ?thesis using 3 assms(2,3) unfolding m by (auto simp: bit_simps)
  qed (use assms(2,3) in \<open>unfold m, auto simp: bit_simps\<close>)
qed

lemma pc2line_put_bits_short_ok:
  assumes ok: "pc2line_ok s" and n: "0 < n" "n \<le> 25" and bits: "bits < 2 ^ n"
    and r: "pc2line_put_bits_short ctx s n bits = Inr (s', ctx')"
  shows "stream_extends s s' \<and> pc2line_bit_len s' = pc2line_bit_len s + n \<and> field (pc2line_bytes s') (pc2line_bit_len s) n bits"
proof -
  define index where "index = pc2line_bit_len s"
  define pos where "pos = index div 8"
  define c where "c = index mod 8"
  have i: "index = 8 * pos + c" "c < 8" by (simp_all add: pos_def c_def)
  have ac: "index AND 7 = c" "drop_bit 3 index = pos" by (simp_all add: c_def pos_def bits_arith)
  obtain arr ctx1 where arr: "js_resize_byte_array ctx (pc2line s) (pos + 4) = Inr (arr, ctx1)"
    using r by (auto simp: pc2line_put_bits_short_def Let_def index_def [symmetric] ac split: sum.splits)
  define shift where "shift = 32 - c - n"
  define v where "v = (get_be32 arr pos AND (push_bit shift (2 ^ n - 1) XOR (2 ^ 32 - 1))) OR push_bit shift bits"
  have s': "s' = \<lparr>pc2line = Some (put_be32 arr pos v), pc2line_bit_len = index + n\<rparr>"
    using r by (simp add: pc2line_put_bits_short_def Let_def index_def [symmetric] ac arr shift_def v_def)
  obtain k where k: "arr = pc2line_bytes s @ replicate k 0" "pos + 4 \<le> length arr"
    using resize_byte_array_keeps [OF arr] by (auto simp: pc2line_bytes_def)
  have len: "pos + 3 < length arr" using k(2) by simp
  have aok: "bytes_ok arr" using ok k(1) by (auto simp: pc2line_ok_def bytes_ok_def list_all_iff)
  have sh: "shift + n \<le> 32" "shift + n = 32 - c" using i n by (simp_all add: shift_def)
  have st: "stream_bit (pc2line_bytes s') q = (if 8 * pos \<le> q \<and> q < 8 * pos + 32 then bit v (31 - (q - 8 * pos)) else stream_bit arr q)"
    if "q < 8 * length arr" for q
    using put_be32_stream [OF len that] by (simp add: s' pc2line_bytes_def)
  have bound: "index + n \<le> 8 * length arr" using i n k(2) by linarith
  have keep: "stream_bit (pc2line_bytes s') q = stream_bit (pc2line_bytes s) q" if q: "q < index" for q
  proof -
    have "q div 8 < length (pc2line_bytes s)" using ok q by (simp add: pc2line_ok_def index_def div_less_iff_less_mult mult.commute)
    then have a: "stream_bit arr q = stream_bit (pc2line_bytes s) q" by (simp add: stream_bit_def k(1) nth_append)
    show ?thesis
    proof (cases "8 * pos \<le> q")
      case True
      then have q': "q - 8 * pos < c" "q < 8 * pos + 32" using q i by linarith+
      then have m: "31 - (q - 8 * pos) < 32" "\<not> 31 - (q - 8 * pos) < shift + n" "8 * pos + (31 - (31 - (q - 8 * pos))) = q"
        using sh i True by linarith+
      then show ?thesis using st [of q] q bound a True q' put_window_bit [OF bits sh(1) m(1), of "get_be32 arr pos", folded v_def]
          bit_get_be32 [OF aok len m(1)] by simp
    next
      case False
      then show ?thesis using st [of q] q bound a by simp
    qed
  qed
  moreover have "field (pc2line_bytes s') index n bits"
    unfolding field_def
  proof (intro conjI allI impI bits)
    fix j assume j: "j < n"
    have m: "31 - (index + j - 8 * pos) < 32" "shift \<le> 31 - (index + j - 8 * pos)" "31 - (index + j - 8 * pos) < shift + n"
      "31 - (index + j - 8 * pos) - shift = n - 1 - j" "8 * pos \<le> index + j" "index + j < 8 * pos + 32"
      using sh i j n by linarith+
    then show "stream_bit (pc2line_bytes s') (index + j) = bit bits (n - 1 - j)"
      using st [of "index + j"] j bound put_window_bit [OF bits sh(1) m(1), of "get_be32 arr pos", folded v_def] by simp
  qed
  moreover have "pc2line_ok s'"
    using put_be32_bytes_ok [OF aok len] bound by (simp add: pc2line_ok_def s' pc2line_bytes_def)
  ultimately show ?thesis by (simp add: stream_extends_def s' index_def)
qed

lemma field_append:
  assumes "field d index a x" "field d (index + a) b y"
  shows "field d index (a + b) (x * 2 ^ b + y)"
proof -
  have y: "y < 2 ^ b" and x: "x < 2 ^ a" using assms by (simp_all add: field_def)
  have e: "x * 2 ^ b + y = push_bit b x OR y" using or_high_low(2) [OF y, of x] by (simp add: push_bit_eq_mult)
  have ty: "take_bit b y = y" using y by (simp add: take_bit_nat_eq_self)
  then have yb: "bit y k \<Longrightarrow> k < b" for k by (metis bit_take_bit_iff)
  have "x * 2 ^ b + y < (x + 1) * 2 ^ b" using y by simp
  also have "\<dots> \<le> 2 ^ a * 2 ^ b" using x by (intro mult_right_mono) simp_all
  finally have "x * 2 ^ b + y < 2 ^ (a + b)" by (simp add: power_add)
  moreover have "stream_bit d (index + j) = bit (x * 2 ^ b + y) (a + b - 1 - j)" if j: "j < a + b" for j
  proof (cases "j < a")
    case True
    then have "b \<le> a + b - 1 - j" "a + b - 1 - j - b = a - 1 - j" by linarith+
    then show ?thesis using assms(1) True yb [of "a + b - 1 - j"] unfolding e field_def by (auto simp: bit_simps)
  next
    case False
    then have "j - a < b" "index + a + (j - a) = index + j" "b - 1 - (j - a) = a + b - 1 - j" "a + b - 1 - j < b"
      using j by linarith+
    then show ?thesis using assms(2) unfolding e field_def by (metis bit_or_iff bit_push_bit_iff_nat not_le)
  qed
  ultimately show ?thesis by (simp add: field_def)
qed

lemma pc2line_put_bits_ok:
  assumes ok: "pc2line_ok s" and n: "0 < n" "n \<le> 32" and bits: "bits < 2 ^ n"
    and r: "pc2line_put_bits ctx s n bits = Inr (s', ctx')"
  shows "stream_extends s s' \<and> pc2line_bit_len s' = pc2line_bit_len s + n \<and> field (pc2line_bytes s') (pc2line_bit_len s) n bits"
proof (cases "n > 25")
  case False
  then show ?thesis using pc2line_put_bits_short_ok [OF ok n(1) _ bits] r by (simp add: pc2line_put_bits_def)
next
  case True
  have lo: "bits AND (2 ^ 25 - 1) = bits mod 2 ^ 25" by (rule nat_and_mask)
  have hi: "drop_bit 25 bits = bits div 2 ^ 25" by (simp add: drop_bit_eq_div)
  obtain s1 ctx1 where s1: "pc2line_put_bits_short ctx s (n - 25) (bits div 2 ^ 25) = Inr (s1, ctx1)"
    "pc2line_put_bits_short ctx1 s1 25 (bits mod 2 ^ 25) = Inr (s', ctx')"
    using r True unfolding pc2line_put_bits_def lo hi by (auto split: sum.splits)
  have "(2 :: nat) ^ n = 2 ^ (n - 25) * 2 ^ 25" using power_add [of "2 :: nat" "n - 25" 25] True
    by (metis le_add_diff_inverse2 less_imp_le)
  then have "bits div 2 ^ 25 < 2 ^ (n - 25)" using bits by (simp only: less_mult_imp_div_less)
  then have a: "stream_extends s s1" "pc2line_bit_len s1 = pc2line_bit_len s + (n - 25)"
    "field (pc2line_bytes s1) (pc2line_bit_len s) (n - 25) (bits div 2 ^ 25)"
    using pc2line_put_bits_short_ok [OF ok _ _ _ s1(1)] True n by simp_all
  have "pc2line_ok s1" using a(1) by (simp add: stream_extends_def)
  then have b: "stream_extends s1 s'" "pc2line_bit_len s' = pc2line_bit_len s1 + 25"
    "field (pc2line_bytes s') (pc2line_bit_len s1) 25 (bits mod 2 ^ 25)"
    using pc2line_put_bits_short_ok [OF _ _ _ _ s1(2)] by simp_all
  have "field (pc2line_bytes s') (pc2line_bit_len s) (n - 25) (bits div 2 ^ 25)"
    by (rule stream_extends_field [OF b(1) a(3)]) (simp add: a(2))
  from field_append [OF this b(3) [unfolded a(2)]]
  have "field (pc2line_bytes s') (pc2line_bit_len s) (n - 25 + 25) bits" unfolding div_mult_mod_eq .
  then have "field (pc2line_bytes s') (pc2line_bit_len s) n bits" using True by simp
  then show ?thesis using a b stream_extends_trans [OF a(1) b(1)] True by simp
qed

subsection \<open>Golomb codes read back\<close>

lemma bit_width_bounds:
  assumes "0 < v" "v < 2 ^ 32"
  shows "0 < bit_width v" "bit_width v \<le> 32" "2 ^ (bit_width v - 1) \<le> v" "v < 2 ^ bit_width v"
proof -
  define P where "P = (\<lambda>i. \<not> bit v (31 - i))"
  define L where "L = length (takeWhile P [0..<32])"
  have w: "bit_width v = 32 - L" by (simp add: bit_width_def L_def P_def)
  have v32: "take_bit 32 v = v" using assms(2) by (simp add: take_bit_nat_eq_self)
  have "L \<le> 32" using length_takeWhile_le [of P "[0..<32]"] by (simp add: L_def)
  have below: "\<not> bit v (31 - i)" if "i < L" for i
  proof -
    have i: "i < length (takeWhile P [0..<32])" using that unfolding L_def .
    have "[0..<32] ! i = i" using that \<open>L \<le> 32\<close> by simp
    then have "takeWhile P [0..<32] ! i = i" using takeWhile_nth [OF i] by simp
    then have "i \<in> set (takeWhile P [0..<32])" using nth_mem [OF i] by simp
    then have "P i" using set_takeWhileD by metis
    then show ?thesis unfolding P_def by simp
  qed
  have hi: "\<not> bit v k" if "32 - L \<le> k" for k
  proof (cases "k < 32")
    case True
    then have "31 - k < L" "31 - (31 - k) = k" using that \<open>L \<le> 32\<close> by linarith+
    then show ?thesis using below [of "31 - k"] by simp
  next
    case False then show ?thesis using v32 by (metis bit_take_bit_iff)
  qed
  have tb: "take_bit (32 - L) v = v" using hi by (intro bit_eqI) (auto simp: bit_take_bit_iff, metis not_le)
  have "L \<noteq> 32"
  proof
    assume "L = 32"
    then have "v = 0" using tb by simp
    then show False using assms(1) by simp
  qed
  then have l: "L < 32" using \<open>L \<le> 32\<close> by simp
  then have "\<not> P ([0..<32] ! L)" using nth_length_takeWhile [of P "[0..<32]"] by (simp add: L_def)
  then have top: "bit v (31 - L)" using l by (simp add: P_def)
  show "0 < bit_width v" "bit_width v \<le> 32" using l w by simp_all
  show "v < 2 ^ bit_width v" using tb w by (metis take_bit_nat_less_exp)
  show "2 ^ (bit_width v - 1) \<le> v"
  proof (rule ccontr)
    assume "\<not> 2 ^ (bit_width v - 1) \<le> v"
    then have "take_bit (31 - L) v = v" using w l by (simp add: take_bit_nat_eq_self)
    then show False using top by (metis bit_take_bit_iff less_irrefl_nat)
  qed
qed

lemma zeros_loop_run:
  "\<lbrakk>\<And>j. j < m \<Longrightarrow> \<not> stream_bit d (i + j); stream_bit d (i + m); m < k\<rbrakk> \<Longrightarrow> zeros_loop d i a k = (a + m, i + m + 1)"
proof (induction m arbitrary: i a k)
  case 0 then show ?case by (cases k) (simp_all add: get_bit_stream)
next
  case (Suc m)
  obtain k' where k: "k = Suc k'" "m < k'" using Suc.prems(3) by (cases k) auto
  have "\<not> stream_bit d i" using Suc.prems(1) [of 0] by simp
  moreover have "zeros_loop d (i + 1) (a + 1) k' = (a + 1 + m, i + 1 + m + 1)"
    using Suc.prems(1) [of "Suc j" for j] Suc.prems(2) k(2) by (intro Suc.IH) auto
  ultimately show ?case by (simp add: k get_bit_stream)
qed

lemma field_tail:
  assumes "field d i n v" "0 < n" "2 ^ (n - 1) \<le> v"
  shows "stream_bit d i" "field d (i + 1) (n - 1) (v - 2 ^ (n - 1))"
proof -
  define w where "w = v - 2 ^ (n - 1)"
  have v: "v < 2 ^ n" "(2 :: nat) ^ n = 2 * 2 ^ (n - 1)" using assms by (simp_all add: field_def power_eq_if)
  then have w: "w < 2 ^ (n - 1)" "v = w + 1 * 2 ^ (n - 1)" using assms(3) by (simp_all add: w_def)
  then have e: "v = w OR push_bit (n - 1) 1" using or_high_low(1) [OF w(1), of 1] by (simp add: push_bit_eq_mult)
  have st: "stream_bit d (i + j) = bit v (n - 1 - j)" if "j < n" for j using assms(1) that by (simp add: field_def)
  show "stream_bit d i" using st [of 0] assms(2) unfolding e by (simp add: bit_simps)
  have "stream_bit d (i + 1 + j) = bit w (n - 1 - 1 - j)" if "j < n - 1" for j
  proof -
    have ne: "n - Suc (Suc j) \<noteq> n - Suc 0" using that by linarith
    show ?thesis using st [of "j + 1"] that unfolding e by (simp add: bit_simps add.assoc ne)
  qed
  then show "field d (i + 1) (n - 1) (v - 2 ^ (n - 1))" unfolding w_def [symmetric] field_def using w(1) by blast
qed

lemma get_ugolomb_field:
  assumes ok: "bytes_ok d" and n: "0 < n" "n \<le> 32" and v: "2 ^ (n - 1) \<le> v"
    and z: "field d i (n - 1) 0" and f: "field d (i + (n - 1)) n v"
  shows "get_ugolomb d i = (v - 1, i + (n - 1) + n)"
proof -
  note t = field_tail [OF f n(1) v]
  have zl: "zeros_loop d i 0 32 = (n - 1, i + (n - 1) + 1)"
    using zeros_loop_run [of "n - 1" d i 32 0] z t(1) n by (simp add: field_def)
  have g: "get_bits d (i + (n - 1) + 1) (n - 1) = v - 2 ^ (n - 1)"
    using field_unique [OF get_bits_field [OF ok] t(2)] n by simp
  have w: "v - 2 ^ (n - 1) < 2 ^ (n - 1)" using t(2) by (simp add: field_def)
  have o: "2 ^ (n - 1) OR (v - 2 ^ (n - 1)) = v" using or_high_low(2) [OF w, of 1] v by simp
  show ?thesis
  proof (cases "n = 1")
    case True
    then have "v = 1" using v w by simp
    then show ?thesis using True zl by (simp add: get_ugolomb_def)
  next
    case False
    then show ?thesis using n zl g o by (simp add: get_ugolomb_def)
  qed
qed

lemma put_ugolomb_ok:
  assumes ok: "pc2line_ok s" and v: "v < 2 ^ 32 - 1" and r: "put_ugolomb ctx s v = Inr (s', ctx')"
  defines "n \<equiv> bit_width (v + 1)"
  shows "stream_extends s s' \<and> pc2line_bit_len s' = pc2line_bit_len s + (n - 1) + n
     \<and> field (pc2line_bytes s') (pc2line_bit_len s) (n - 1) 0
     \<and> field (pc2line_bytes s') (pc2line_bit_len s + (n - 1)) n (v + 1)"
proof -
  have m: "(v + 1) mod 2 ^ 32 = v + 1" using v by simp
  have w: "0 < n" "n \<le> 32" "v + 1 < 2 ^ n" using bit_width_bounds [of "v + 1"] v by (simp_all add: n_def)
  obtain s1 ctx1 where s1: "(if n > 1 then pc2line_put_bits ctx s (n - 1) 0 else Inr (s, ctx)) = Inr (s1, ctx1)"
    "pc2line_put_bits ctx1 s1 n (v + 1) = Inr (s', ctx')"
    using r unfolding put_ugolomb_def Let_def m n_def [symmetric] by (auto split: sum.splits if_splits)
  have a: "stream_extends s s1" "pc2line_bit_len s1 = pc2line_bit_len s + (n - 1)"
    "field (pc2line_bytes s1) (pc2line_bit_len s) (n - 1) 0"
  proof -
    have "stream_extends s s1 \<and> pc2line_bit_len s1 = pc2line_bit_len s + (n - 1) \<and> field (pc2line_bytes s1) (pc2line_bit_len s) (n - 1) 0"
    proof (cases "n > 1")
      case True
      then show ?thesis using pc2line_put_bits_ok [OF ok, of "n - 1" 0 ctx s1 ctx1] s1(1) w by simp
    next
      case False
      then have "n = 1" using w by simp
      then show ?thesis using s1(1) ok by (simp add: stream_extends_def field_def)
    qed
    then show "stream_extends s s1" "pc2line_bit_len s1 = pc2line_bit_len s + (n - 1)"
      "field (pc2line_bytes s1) (pc2line_bit_len s) (n - 1) 0" by simp_all
  qed
  have "pc2line_ok s1" using a(1) by (simp add: stream_extends_def)
  from pc2line_put_bits_ok [OF this w s1(2)]
  have b: "stream_extends s1 s'" "pc2line_bit_len s' = pc2line_bit_len s1 + n" "field (pc2line_bytes s') (pc2line_bit_len s1) n (v + 1)" by simp_all
  show ?thesis using b a stream_extends_trans [OF a(1) b(1)] stream_extends_field [OF b(1) a(3)] by simp
qed

subsection \<open>Signed codes and sequences\<close>

definition get_sgolomb :: "bytes \<Rightarrow> nat \<Rightarrow> int \<times> nat" where
  "get_sgolomb b index =
     (let (val, index) = get_ugolomb b index
      in (s32 ((drop_bit 1 val) XOR (if odd val then 2 ^ 32 - 1 else 0)), index))"

definition put_sgolomb :: "strctx \<Rightarrow> pc2line_state \<Rightarrow> int \<Rightarrow> js_error + pc2line_state \<times> strctx" where
  "put_sgolomb ctx s v1 =
     (let v = u32 v1
      in put_ugolomb ctx s ((2 * v) mod 2 ^ 32 XOR (if drop_bit 31 v = 1 then 2 ^ 32 - 1 else 0)))"

lemma xor_all_ones:
  fixes x :: nat
  assumes "x < 2 ^ 32"
  shows "x XOR (2 ^ 32 - 1) = 2 ^ 32 - 1 - x"
proof -
  have m: "2 ^ 32 - 1 = (mask 32 :: nat)" by (simp add: mask_eq_exp_minus_1)
  have t: "take_bit 32 x = x" using assms by (simp add: take_bit_nat_eq_self)
  then have b: "bit x k \<Longrightarrow> k < 32" for k by (metis bit_take_bit_iff)
  have "x AND (x XOR mask 32) = 0" using b by (auto simp: bit_eq_iff bit_simps)
  then have "x + (x XOR mask 32) = x OR (x XOR mask 32)" by (simp add: nat_or_eq_add)
  also have "\<dots> = mask 32" using b by (auto simp: bit_eq_iff bit_simps)
  finally show ?thesis unfolding m by linarith
qed

fun put_deltas :: "strctx \<Rightarrow> pc2line_state \<Rightarrow> int list \<Rightarrow> js_error + pc2line_state \<times> strctx" where
  "put_deltas ctx s [] = Inr (s, ctx)"
| "put_deltas ctx s (v # vs) =
     (case put_sgolomb ctx s v of Inl e \<Rightarrow> Inl e | Inr (s', ctx') \<Rightarrow> put_deltas ctx' s' vs)"

fun get_deltas :: "bytes \<Rightarrow> nat \<Rightarrow> nat \<Rightarrow> int list \<times> nat" where
  "get_deltas b index 0 = ([], index)"
| "get_deltas b index (Suc n) =
     (let (v, index) = get_sgolomb b index; (vs, index) = get_deltas b index n in (v # vs, index))"

lemma zigzag:
  assumes "- (2 ^ 31) < v" "v < 2 ^ 31"
  defines "z \<equiv> (2 * u32 v) mod 2 ^ 32 XOR (if drop_bit 31 (u32 v) = 1 then 2 ^ 32 - 1 else 0)"
  shows "z < 2 ^ 32 - 1" "s32 (drop_bit 1 z XOR (if odd z then 2 ^ 32 - 1 else 0)) = v"
proof -
  have "z < 2 ^ 32 - 1 \<and> s32 (drop_bit 1 z XOR (if odd z then 2 ^ 32 - 1 else 0)) = v"
  proof (cases "0 \<le> v")
    case True
    then have u: "u32 v = nat v" "nat v < 2 ^ 31" using assms(2) by (simp_all add: u32_def nat_less_iff)
    then have z: "z = 2 * nat v" by (simp add: z_def drop_bit_eq_div)
    then have "drop_bit 1 z XOR (if odd z then 2 ^ 32 - 1 else 0) = nat v" by (simp add: drop_bit_Suc)
    then show ?thesis using z u(2) True assms(2) by (simp add: s32_def)
  next
    case False
    define m where "m = nat (- v)"
    have m: "0 < m" "m < 2 ^ 31" "v = - int m" using False assms(1) by (simp_all add: m_def nat_less_iff)
    have "(v + 2 ^ 32) mod 2 ^ 32 = v + 2 ^ 32" by (rule mod_pos_pos_trivial) (use m in simp_all)
    then have "v mod 2 ^ 32 = 2 ^ 32 + v" by simp
    then have u: "u32 v = 2 ^ 32 - m" using m by (simp add: u32_def nat_diff_distrib')
    have "drop_bit 31 (u32 v) = 1" unfolding u drop_bit_eq_div using m by (intro div_nat_eqI) simp_all
    moreover have "(2 * u32 v) mod 2 ^ 32 = 2 ^ 32 - 2 * m"
    proof -
      define y :: nat where "y = 2 ^ 32 - 2 * m"
      have "2 * u32 v = y + 2 ^ 32" using m unfolding u y_def by simp
      moreover have "y < 2 ^ 32" using m by (simp add: y_def)
      ultimately show ?thesis unfolding y_def [symmetric] by simp
    qed
    ultimately have z: "z = 2 * m - 1" using xor_all_ones [of "2 ^ 32 - 2 * m"] m by (simp add: z_def)
    have "drop_bit 1 z = m - 1" "odd z" using m by (simp_all add: z drop_bit_eq_div)
    then have "drop_bit 1 z XOR (if odd z then 2 ^ 32 - 1 else 0) = 2 ^ 32 - m" using xor_all_ones [of "m - 1"] m by simp
    moreover have "s32 (2 ^ 32 - m) = v"
    proof -
      have "(2 ^ 32 - m) mod 2 ^ 32 = 2 ^ 32 - m" using m by simp
      moreover have "\<not> 2 ^ 32 - m < 2 ^ 31" using m by simp
      ultimately show ?thesis using m unfolding s32_def by (simp add: of_nat_diff)
    qed
    ultimately show ?thesis using z m by simp
  qed
  then show "z < 2 ^ 32 - 1" "s32 (drop_bit 1 z XOR (if odd z then 2 ^ 32 - 1 else 0)) = v" by simp_all
qed

lemma put_sgolomb_ok:
  assumes "pc2line_ok s" "- (2 ^ 31) < v" "v < 2 ^ 31" "put_sgolomb ctx s v = Inr (s', ctx')"
    and "stream_extends s' t"
  shows "stream_extends s s' \<and> get_sgolomb (pc2line_bytes t) (pc2line_bit_len s) = (v, pc2line_bit_len s')"
proof -
  define z where "z = (2 * u32 v) mod 2 ^ 32 XOR (if drop_bit 31 (u32 v) = 1 then 2 ^ 32 - 1 else 0)"
  note zz = zigzag [OF assms(2,3), folded z_def]
  have p: "put_ugolomb ctx s z = Inr (s', ctx')" using assms(4) by (simp add: put_sgolomb_def Let_def z_def)
  define n where "n = bit_width (z + 1)"
  note u = put_ugolomb_ok [OF assms(1) zz(1) p, folded n_def]
  have w: "0 < n" "n \<le> 32" "2 ^ (n - 1) \<le> z + 1" using bit_width_bounds [of "z + 1"] zz(1) by (simp_all add: n_def)
  have f: "field (pc2line_bytes t) (pc2line_bit_len s) (n - 1) 0" "field (pc2line_bytes t) (pc2line_bit_len s + (n - 1)) n (z + 1)"
    using stream_extends_field [OF assms(5)] u by simp_all
  have "bytes_ok (pc2line_bytes t)" using assms(5) by (simp add: stream_extends_def pc2line_ok_def)
  from get_ugolomb_field [OF this w f] u
  have "get_ugolomb (pc2line_bytes t) (pc2line_bit_len s) = (z, pc2line_bit_len s')" by simp
  then show ?thesis using zz(2) u by (simp add: get_sgolomb_def)
qed

lemma put_deltas_keep:
  "\<lbrakk>pc2line_ok s; list_all (\<lambda>v. - (2 ^ 31) < v \<and> v < 2 ^ 31) vs; put_deltas ctx s vs = Inr (s', ctx')\<rbrakk> \<Longrightarrow> stream_extends s s'"
proof (induction vs arbitrary: ctx s)
  case Nil then show ?case by (simp add: stream_extends_def)
next
  case (Cons v vs)
  obtain s1 ctx1 where s1: "put_sgolomb ctx s v = Inr (s1, ctx1)" "put_deltas ctx1 s1 vs = Inr (s', ctx')"
    using Cons.prems(3) by (auto split: sum.splits)
  have v: "- (2 ^ 31) < v" "v < 2 ^ 31" using Cons.prems(2) by simp_all
  define z where "z = (2 * u32 v) mod 2 ^ 32 XOR (if drop_bit 31 (u32 v) = 1 then 2 ^ 32 - 1 else 0)"
  have "stream_extends s s1"
    using put_ugolomb_ok [OF Cons.prems(1) zigzag(1) [OF v]] s1(1) by (simp add: put_sgolomb_def Let_def)
  moreover from this have "stream_extends s1 s'" using Cons.IH [OF _ _ s1(2)] Cons.prems(2) by (simp add: stream_extends_def)
  ultimately show ?case by (rule stream_extends_trans)
qed

text \<open>C15. The position table reads back as it was written: after any sequence of signed differences other than
  the least 32-bit number has been appended to a table, the reader, started where the writer was, returns the
  same differences and stops where the writer stopped, whichever of its two paths it takes for each field,
  and the bits written before are unchanged.\<close>

theorem pc2line_roundtrip:
  assumes "pc2line_ok s" "list_all (\<lambda>v. - (2 ^ 31) < v \<and> v < 2 ^ 31) vs" "put_deltas ctx s vs = Inr (s', ctx')"
  shows "get_deltas (pc2line_bytes s') (pc2line_bit_len s) (length vs) = (vs, pc2line_bit_len s')
       \<and> (\<forall>q < pc2line_bit_len s. stream_bit (pc2line_bytes s') q = stream_bit (pc2line_bytes s) q)"
proof -
  have "get_deltas (pc2line_bytes s') (pc2line_bit_len s) (length vs) = (vs, pc2line_bit_len s')"
    using assms
  proof (induction vs arbitrary: ctx s)
    case (Cons v vs)
    obtain s1 ctx1 where s1: "put_sgolomb ctx s v = Inr (s1, ctx1)" "put_deltas ctx1 s1 vs = Inr (s', ctx')"
      using Cons.prems(3) by (auto split: sum.splits)
    have v: "- (2 ^ 31) < v" "v < 2 ^ 31" using Cons.prems(2) by simp_all
    have "stream_extends s s1"
      using put_ugolomb_ok [OF Cons.prems(1) zigzag(1) [OF v]] s1(1) by (simp add: put_sgolomb_def Let_def)
    then have ok1: "pc2line_ok s1" by (simp add: stream_extends_def)
    then have "stream_extends s1 s'" using put_deltas_keep [OF _ _ s1(2)] Cons.prems(2) by simp
    from put_sgolomb_ok [OF Cons.prems(1) v s1(1) this] Cons.IH [OF ok1 _ s1(2)] Cons.prems(2)
    show ?case by simp
  qed simp
  then show ?thesis using put_deltas_keep [OF assms] by (simp add: stream_extends_def)
qed

definition pc2line_ctx :: strctx where
  "pc2line_ctx = \<lparr>heap = [], mem_free = 1000, string_pos_cache = [], string_pos_cache_counter = 0\<rparr>"

lemma put_first_window:
  "\<exists>d ctx'. length d = 4 \<and> pc2line_put_bits_short pc2line_ctx \<lparr>pc2line = None, pc2line_bit_len = 0\<rparr> n bits =
     Inr (\<lparr>pc2line = Some d, pc2line_bit_len = n\<rparr>, ctx')"
  by (simp add: pc2line_put_bits_short_def Let_def js_resize_byte_array_def js_alloc_byte_array_def pc2line_ctx_def
      JS_BYTE_ARRAY_SIZE_MAX_def js_malloc_size_def JSW_def sizeof_JSByteArray_def max_int_def put_be32_def put_u32_def)

lemma put_same_window:
  "length d = 4 \<Longrightarrow> \<exists>s' ctx'. pc2line_put_bits_short ctx \<lparr>pc2line = Some d, pc2line_bit_len = 1\<rparr> n bits = Inr (s', ctx')"
  by (simp add: pc2line_put_bits_short_def Let_def js_resize_byte_array_def)

lemma put_minus_one:
  "\<exists>s' ctx'. put_deltas pc2line_ctx \<lparr>pc2line = None, pc2line_bit_len = 0\<rparr> [- 1] = Inr (s', ctx')"
proof -
  have "u32 (- 1) = 4294967295" by (simp add: u32_def)
  then have z: "(2 * u32 (- 1)) mod 2 ^ 32 XOR (if drop_bit 31 (u32 (- 1)) = 1 then 2 ^ 32 - 1 else 0) = 1" by simp
  have e: "(1 + 1) mod 2 ^ 32 = (2 :: nat)" by simp
  have w: "bit_width 2 = 2"
  proof -
    have b: "0 < bit_width 2" "2 ^ (bit_width 2 - 1) \<le> (2 :: nat)" "(2 :: nat) < 2 ^ bit_width 2"
      using bit_width_bounds [of 2] by simp_all
    have "\<not> 2 < bit_width 2"
    proof
      assume "2 < bit_width 2"
      then have "(2 :: nat) ^ 2 \<le> 2 ^ (bit_width 2 - 1)" by (intro power_increasing) simp_all
      then show False using b(2) by simp
    qed
    moreover have "bit_width 2 \<noteq> 1" using b(3) by auto
    ultimately show ?thesis using b(1) by linarith
  qed
  obtain d ctx1 where d: "length d = 4" "pc2line_put_bits_short pc2line_ctx \<lparr>pc2line = None, pc2line_bit_len = 0\<rparr> 1 0 =
     Inr (\<lparr>pc2line = Some d, pc2line_bit_len = 1\<rparr>, ctx1)" using put_first_window [of 1 0] by blast
  obtain s' ctx' where "pc2line_put_bits_short ctx1 \<lparr>pc2line = Some d, pc2line_bit_len = 1\<rparr> 2 2 = Inr (s', ctx')"
    using put_same_window [OF d(1), of ctx1 2 2] by blast
  then have "put_sgolomb pc2line_ctx \<lparr>pc2line = None, pc2line_bit_len = 0\<rparr> (- 1) = Inr (s', ctx')"
    unfolding put_sgolomb_def Let_def z put_ugolomb_def e w pc2line_put_bits_def using d(2) by simp
  then show ?thesis by simp
qed

theorem pc2line_roundtrip_witness:
  "\<exists>s' ctx'. put_deltas pc2line_ctx \<lparr>pc2line = None, pc2line_bit_len = 0\<rparr> [- 1] = Inr (s', ctx')
     \<and> get_deltas (pc2line_bytes s') 0 1 = ([- 1], pc2line_bit_len s')"
proof -
  obtain s' ctx' where p: "put_deltas pc2line_ctx \<lparr>pc2line = None, pc2line_bit_len = 0\<rparr> [- 1] = Inr (s', ctx')"
    using put_minus_one by blast
  have "pc2line_ok \<lparr>pc2line = None, pc2line_bit_len = 0\<rparr>" by (simp add: pc2line_ok_def pc2line_bytes_def)
  from pc2line_roundtrip [OF this _ p] p show ?thesis by (simp del: put_deltas.simps)
qed

end
