(* ===== verification/AetherArrays.thy ===== *)
theory AetherArrays
  imports Prelude
begin

section \<open>Growable arrays of the Aether library\<close>

text \<open>
  Models the array containers of \<^verbatim>\<open>aether/std/collections\<close>: \<open>ArrayList\<close>
  (\<^verbatim>\<open>aether_collections.c\<close>), \<open>Vector\<close> (\<^verbatim>\<open>aether_vector.c\<close>)
  and \<open>IntArray\<close> (\<^verbatim>\<open>aether_intarr.c\<close>).  A block of memory is the list of its
  slots; a pointer to a container is an option (\<open>None\<close> for \<^verbatim>\<open>NULL\<close>) and the
  elements are pointers, natural numbers with 0 for \<^verbatim>\<open>NULL\<close>.  \<open>alloc n\<close> says
  whether the allocator grants a request of \<open>n\<close> bytes during the call.  The contents of a slot
  that was allocated and never written are not specified by the language; they are 0 here and no
  theorem depends on them.  Callbacks that free elements are modelled by the list of pointers they are
  called with.

  Each container refines a list: \<open>alist\<close> and \<open>vlist\<close> are the abstraction functions.
\<close>

type_synonym ptr = nat

subsection \<open>Shifting loops\<close>

text \<open>\<^verbatim>\<open>for (i = i0; i < n; i++) data[i] = data[i + 1];\<close>\<close>

function shift_left :: "'a list \<Rightarrow> nat \<Rightarrow> nat \<Rightarrow> 'a list" where
  "shift_left data i n = (if i < n then shift_left (data[i := data ! (i + 1)]) (i + 1) n else data)"
  by pat_completeness auto
termination by (relation "measure (\<lambda>(data, i, n). n - i)") auto

declare shift_left.simps [simp del]

text \<open>\<^verbatim>\<open>for (i = n; i > i0; i--) data[i] = data[i - 1];\<close>\<close>

fun shift_right :: "'a list \<Rightarrow> nat \<Rightarrow> nat \<Rightarrow> 'a list" where
  "shift_right data i0 0 = data"
| "shift_right data i0 (Suc i) =
     (if Suc i > i0 then shift_right (data[Suc i := data ! i]) i0 i else data)"

lemma shift_left_length [simp]: "length (shift_left data i n) = length data"
  by (induction data i n rule: shift_left.induct) (subst shift_left.simps, simp)

lemma shift_right_length [simp]: "length (shift_right data i0 n) = length data"
  by (induction data i0 n rule: shift_right.induct) auto

lemma shift_left_eq:
  "i \<le> n \<Longrightarrow> n < length data \<Longrightarrow>
     shift_left data i n = take i data @ take (n - i) (drop (i + 1) data) @ drop n data"
proof (induction data i n rule: shift_left.induct)
  case (1 data i n)
  show ?case
  proof (cases "i < n")
    case False
    then have "i = n" using 1 by simp
    then show ?thesis by (simp add: shift_left.simps)
  next
    case True
    let ?d = "data[i := data ! (i + 1)]"
    have "shift_left data i n = shift_left ?d (i + 1) n" using True by (subst shift_left.simps) simp
    also have "\<dots> = take (i + 1) ?d @ take (n - (i + 1)) (drop (i + 1 + 1) ?d) @ drop n ?d"
      using 1 True by simp
    finally have "shift_left data i n = take (i + 1) ?d @ take (n - (i + 1)) (drop (i + 1 + 1) ?d) @ drop n ?d" .
    moreover have "take (i + 1) ?d = take i data @ [data ! (i + 1)]"
      using True 1 by (simp add: take_Suc_conv_app_nth)
    moreover have "drop (i + 1 + 1) ?d = drop (i + 2) data" "drop n ?d = drop n data" using True by simp_all
    moreover have "take (n - i) (drop (i + 1) data) = data ! (i + 1) # take (n - (i + 1)) (drop (i + 2) data)"
      using True 1 by (simp add: take_Cons' Cons_nth_drop_Suc [symmetric])
    ultimately show ?thesis by simp
  qed
qed

lemma shift_right_eq:
  "i0 \<le> n \<Longrightarrow> n < length data \<Longrightarrow>
     shift_right data i0 n = take (i0 + 1) data @ take (n - i0) (drop i0 data) @ drop (n + 1) data"
proof (induction data i0 n rule: shift_right.induct)
  case (1 data i0)
  then show ?case by (cases data) auto
next
  case (2 data i0 i)
  show ?case
  proof (cases "Suc i > i0")
    case False
    then have "i0 = Suc i" using 2 by simp
    then show ?thesis by simp
  next
    case True
    let ?d = "data[Suc i := data ! i]"
    have "shift_right data i0 (Suc i) = take (i0 + 1) ?d @ take (i - i0) (drop i0 ?d) @ drop (i + 1) ?d"
      using 2 True by simp
    moreover have "take (i0 + 1) ?d = take (i0 + 1) data" using True by simp
    moreover have "take (i - i0) (drop i0 ?d) = take (i - i0) (drop i0 data)"
      using True by (simp add: drop_update_swap take_update_swap list_update_beyond)
    moreover have "drop (i + 1) ?d = data ! i # drop (Suc i + 1) data"
      using 2 by (simp add: drop_update_swap Cons_nth_drop_Suc [symmetric])
    moreover have "take (Suc i - i0) (drop i0 data) = take (i - i0) (drop i0 data) @ [data ! i]"
      using True 2 by (simp add: Suc_diff_le take_Suc_conv_app_nth)
    ultimately show ?thesis by simp
  qed
qed

subsection \<open>ArrayList\<close>

record ArrayList =
  items :: "ptr list"
  al_size :: int
  al_capacity :: int

definition list_new :: "(nat \<Rightarrow> bool) \<Rightarrow> ArrayList option" where
  "list_new alloc = (if alloc 16 then Some \<lparr>items = [], al_size = 0, al_capacity = 0\<rparr> else None)"

text \<open>The doubled capacity is an \<^verbatim>\<open>int\<close> and wraps at 32 bits.  A negative one is converted to a \<^verbatim>\<open>size_t\<close>, so that more than
  \<open>2 ^ 63\<close> bytes are asked for, which no allocator grants.\<close>

definition list_add_raw :: "(nat \<Rightarrow> bool) \<Rightarrow> ArrayList option \<Rightarrow> ptr \<Rightarrow> int \<times> ArrayList option" where
  "list_add_raw alloc lst item =
     (case lst of
        None \<Rightarrow> (0, None)
      | Some l \<Rightarrow>
          if al_size l \<ge> al_capacity l then
            let new_capacity = (if al_capacity l = 0 then 8 else signed_take_bit 31 (al_capacity l * 2))
            in if new_capacity < 0 \<or> \<not> alloc (nat new_capacity * 8) then (0, Some l)
               else (1, Some (l\<lparr>items := (items l @ replicate (nat new_capacity - length (items l)) 0)
                                         [nat (al_size l) := item],
                               al_capacity := new_capacity, al_size := al_size l + 1\<rparr>))
          else (1, Some (l\<lparr>items := (items l)[nat (al_size l) := item], al_size := al_size l + 1\<rparr>)))"

definition list_get_raw :: "ArrayList option \<Rightarrow> int \<Rightarrow> ptr" where
  "list_get_raw lst index =
     (case lst of None \<Rightarrow> 0
      | Some l \<Rightarrow> if index < 0 \<or> index \<ge> al_size l then 0 else items l ! nat index)"

definition list_set :: "ArrayList option \<Rightarrow> int \<Rightarrow> ptr \<Rightarrow> ArrayList option" where
  "list_set lst index item =
     (case lst of None \<Rightarrow> None
      | Some l \<Rightarrow> if index < 0 \<or> index \<ge> al_size l then Some l
                  else Some (l\<lparr>items := (items l)[nat index := item]\<rparr>))"

definition list_size :: "ArrayList option \<Rightarrow> int" where
  "list_size lst = (case lst of None \<Rightarrow> 0 | Some l \<Rightarrow> al_size l)"

definition list_remove :: "ArrayList option \<Rightarrow> int \<Rightarrow> ArrayList option" where
  "list_remove lst index =
     (case lst of None \<Rightarrow> None
      | Some l \<Rightarrow> if index < 0 \<or> index \<ge> al_size l then Some l
                  else Some (l\<lparr>items := shift_left (items l) (nat index) (nat (al_size l - 1)),
                              al_size := al_size l - 1\<rparr>))"

definition list_clear :: "ArrayList option \<Rightarrow> ArrayList option" where
  "list_clear lst = (case lst of None \<Rightarrow> None | Some l \<Rightarrow> Some (l\<lparr>al_size := 0\<rparr>))"

definition al_ok :: "ArrayList \<Rightarrow> bool" where
  "al_ok l \<longleftrightarrow> 0 \<le> al_size l \<and> al_size l \<le> al_capacity l \<and> al_capacity l < 2 ^ 31 \<and> int (length (items l)) = al_capacity l"

definition alist :: "ArrayList \<Rightarrow> ptr list" where
  "alist l = take (nat (al_size l)) (items l)"

lemma take_update_snoc: "n < length xs \<Longrightarrow> take (Suc n) (xs[n := x]) = take n xs @ [x]"
  by (simp add: take_Suc_conv_app_nth)

lemma double_wraps: "2 ^ 30 \<le> c \<Longrightarrow> c < 2 ^ 31 \<Longrightarrow> signed_take_bit 31 (c * 2) < (0 :: int)"
  using signed_take_bit_int_eq_self [of 31 "c * 2 - 2 ^ 32"] signed_take_bit_eq_iff_take_bit_eq [of 31 "c * 2" "c * 2 - 2 ^ 32"]
  by (simp add: take_bit_eq_mod mod_eq_dvd_iff)

lemma double_id: "0 \<le> c \<Longrightarrow> c < 2 ^ 30 \<Longrightarrow> signed_take_bit 31 (c * 2) = (c * 2 :: int)"
  by (simp add: signed_take_bit_int_eq_self)

lemma list_add_raw_correct:
  assumes "al_ok l" "list_add_raw alloc (Some l) x = (r, l')"
  shows "(r = 1 \<and> (\<exists>m. l' = Some m \<and> al_ok m \<and> alist m = alist l @ [x])) \<or>
    (r = 0 \<and> l' = Some l \<and> (2 ^ 30 \<le> length (alist l) \<or> \<not> alloc (nat (if al_capacity l = 0 then 8 else al_capacity l * 2) * 8)))"
proof (cases "al_size l \<ge> al_capacity l")
  case True
  define nc where "nc = (if al_capacity l = 0 then 8 else al_capacity l * 2)"
  define it where "it = items l @ replicate (nat nc - length (items l)) 0"
  have eq: "al_size l = al_capacity l" and len: "nat (al_size l) = length (items l)" "length (alist l) = nat (al_capacity l)"
    and cap: "0 \<le> al_capacity l" "al_capacity l < 2 ^ 31"
    and nc: "length (items l) < nat nc" using True assms(1) by (auto simp: al_ok_def nc_def alist_def)
  show ?thesis
  proof (cases "al_capacity l < 2 ^ 30")
    case small: True
    have "(if al_capacity l = 0 then 8 else signed_take_bit 31 (al_capacity l * 2)) = nc" "0 \<le> nc" "nc < 2 ^ 31"
      using double_id [OF cap(1) small] cap small by (auto simp: nc_def)
    then have "list_add_raw alloc (Some l) x = (if alloc (nat nc * 8) then
        (1, Some (l\<lparr>items := it[nat (al_size l) := x], al_capacity := nc, al_size := al_size l + 1\<rparr>)) else (0, Some l))"
      using True by (simp add: list_add_raw_def Let_def it_def)
    moreover have "take (Suc (length (items l))) (it[length (items l) := x]) = items l @ [x]"
      using nc by (simp add: it_def take_update_snoc)
    ultimately show ?thesis using assms nc len eq \<open>nc < 2 ^ 31\<close>
      by (auto simp: al_ok_def alist_def nat_add_distrib it_def nc_def [symmetric] split: if_splits)
  next
    case False
    then have "list_add_raw alloc (Some l) x = (0, Some l)"
      using True double_wraps [of "al_capacity l"] cap(2) by (simp add: list_add_raw_def Let_def)
    then show ?thesis using False assms(2) by (auto simp: len(2) le_nat_iff)
  qed
next
  case False
  then show ?thesis using assms
    by (auto simp: list_add_raw_def al_ok_def alist_def nat_add_distrib take_update_snoc)
qed

lemma nat_less_list: "0 \<le> i \<Longrightarrow> i < n \<Longrightarrow> n \<le> int (length xs) \<Longrightarrow> nat i < length xs"
  by linarith

lemma alist_length: "al_ok l \<Longrightarrow> int (length (alist l)) = al_size l"
  by (auto simp: alist_def al_ok_def)

lemma list_remove_correct:
  assumes ok: "al_ok l"
  shows "\<exists>m. list_remove (Some l) i = Some m \<and> al_ok m \<and>
       alist m = (if 0 \<le> i \<and> i < int (length (alist l)) then take (nat i) (alist l) @ drop (nat i + 1) (alist l) else alist l)"
proof (cases "0 \<le> i \<and> i < al_size l")
  case False
  then show ?thesis using ok unfolding alist_length [OF ok] by (auto simp: list_remove_def)
next
  case True
  define k n where "k = nat i" and "n = nat (al_size l - 1)"
  have kn: "k \<le> n" "n < length (items l)" "nat (al_size l) = Suc n"
    using True ok by (auto simp: k_def n_def al_ok_def)
  have "take n (shift_left (items l) k n) = take k (alist l) @ drop (k + 1) (alist l)"
    using kn by (simp add: shift_left_eq alist_def drop_take)
  then show ?thesis using True ok unfolding alist_length [OF ok]
    by (auto simp: list_remove_def alist_def al_ok_def k_def n_def)
qed

text \<open>C17. The array list refines a list: appending either appends or fails, and then changes nothing and only because the allocator refused the doubled array or the list holds at least \<open>2 ^ 30\<close> items, where the doubled capacity overflows; reading, writing and removing at an index act on the list and do nothing (reading gives NULL) outside it; the representation stays well formed.\<close>

theorem ArrayList_refines_list:
  assumes ok: "al_ok l"
  shows "(case list_add_raw alloc (Some l) x of
       (r, l') \<Rightarrow> (r = 1 \<and> (\<exists>m. l' = Some m \<and> al_ok m \<and> alist m = alist l @ [x])) \<or>
         (r = 0 \<and> l' = Some l \<and> (2 ^ 30 \<le> length (alist l) \<or> \<not> alloc (nat (if al_capacity l = 0 then 8 else al_capacity l * 2) * 8))))
    \<and> list_get_raw (Some l) i = (if 0 \<le> i \<and> i < int (length (alist l)) then alist l ! nat i else 0)
    \<and> (\<exists>m. list_set (Some l) i x = Some m \<and> al_ok m \<and>
         alist m = (if 0 \<le> i \<and> i < int (length (alist l)) then (alist l)[nat i := x] else alist l))
    \<and> (\<exists>m. list_remove (Some l) i = Some m \<and> al_ok m \<and>
         alist m = (if 0 \<le> i \<and> i < int (length (alist l))
                    then take (nat i) (alist l) @ drop (nat i + 1) (alist l) else alist l))
    \<and> (\<exists>m. list_clear (Some l) = Some m \<and> al_ok m \<and> alist m = [])
    \<and> list_size (Some l) = int (length (alist l))"
proof (intro conjI)
  note len = alist_length [OF ok]
  show "case list_add_raw alloc (Some l) x of
       (r, l') \<Rightarrow> (r = 1 \<and> (\<exists>m. l' = Some m \<and> al_ok m \<and> alist m = alist l @ [x])) \<or>
         (r = 0 \<and> l' = Some l \<and> (2 ^ 30 \<le> length (alist l) \<or> \<not> alloc (nat (if al_capacity l = 0 then 8 else al_capacity l * 2) * 8)))"
    using list_add_raw_correct [OF ok] by blast
  show "list_get_raw (Some l) i = (if 0 \<le> i \<and> i < int (length (alist l)) then alist l ! nat i else 0)"
    using ok unfolding len by (auto simp: list_get_raw_def alist_def al_ok_def)
  show "\<exists>m. list_set (Some l) i x = Some m \<and> al_ok m \<and>
       alist m = (if 0 \<le> i \<and> i < int (length (alist l)) then (alist l)[nat i := x] else alist l)"
    using ok unfolding len by (auto simp: list_set_def alist_def al_ok_def take_update_swap)
  show "\<exists>m. list_clear (Some l) = Some m \<and> al_ok m \<and> alist m = []"
    using ok by (auto simp: list_clear_def alist_def al_ok_def)
  show "list_size (Some l) = int (length (alist l))" by (simp add: list_size_def len)
qed (rule list_remove_correct [OF ok])

theorem ArrayList_refines_list_witness:
  "list_get_raw (Some \<lparr>items = [7, 8, 0], al_size = 2, al_capacity = 3\<rparr>) 1 = 8"
  using ArrayList_refines_list [where l = "\<lparr>items = [7, 8, 0], al_size = 2, al_capacity = 3\<rparr>" and i = 1]
  by (simp add: al_ok_def alist_def)


subsection \<open>Vector\<close>

record Vector =
  vdata :: "ptr list"
  vsize :: nat
  vcapacity :: nat
  velement_free :: bool

definition DEFAULT_CAPACITY :: nat where
  "DEFAULT_CAPACITY = 16"

definition GROWTH_FACTOR :: nat where
  "GROWTH_FACTOR = 2"

definition sizeof_Vector :: nat where
  "sizeof_Vector = 40"

definition vector_create :: "(nat \<Rightarrow> bool) \<Rightarrow> nat \<Rightarrow> bool \<Rightarrow> Vector option" where
  "vector_create alloc initial_capacity frees =
     (if \<not> alloc sizeof_Vector then None
      else let n = (if initial_capacity < DEFAULT_CAPACITY then DEFAULT_CAPACITY else initial_capacity)
           in if \<not> alloc (n * 8) then None
              else Some \<lparr>vdata = replicate n 0, vsize = 0, vcapacity = n, velement_free = frees\<rparr>)"

text \<open>Reallocation keeps the first slots of a block; the rest of a larger block is fresh.\<close>

definition realloc_slots :: "ptr list \<Rightarrow> nat \<Rightarrow> ptr list" where
  "realloc_slots d n = take n d @ replicate (n - length d) 0"

lemma realloc_slots_length [simp]: "length (realloc_slots d n) = n"
  by (simp add: realloc_slots_def)

lemma take_realloc_slots [simp]: "k \<le> n \<Longrightarrow> k \<le> length d \<Longrightarrow> take k (realloc_slots d n) = take k d"
  by (simp add: realloc_slots_def min_def)

definition vector_ensure_capacity :: "(nat \<Rightarrow> bool) \<Rightarrow> Vector \<Rightarrow> nat \<Rightarrow> bool \<times> Vector" where
  "vector_ensure_capacity alloc vec min_capacity =
     (if vcapacity vec \<ge> min_capacity then (True, vec)
      else let n0 = vcapacity vec * GROWTH_FACTOR; n = (if n0 < min_capacity then min_capacity else n0)
           in if \<not> alloc (n * 8) then (False, vec)
              else (True, vec\<lparr>vdata := realloc_slots (vdata vec) n, vcapacity := n\<rparr>))"

definition vector_push :: "(nat \<Rightarrow> bool) \<Rightarrow> Vector option \<Rightarrow> ptr \<Rightarrow> bool \<times> Vector option" where
  "vector_push alloc vo element =
     (case vo of None \<Rightarrow> (False, None)
      | Some vec \<Rightarrow>
          let r = vector_ensure_capacity alloc vec (vsize vec + 1)
          in if \<not> fst r then (False, Some vec)
             else (True, Some ((snd r)\<lparr>vdata := (vdata (snd r))[vsize vec := element], vsize := vsize vec + 1\<rparr>)))"

definition vector_pop :: "Vector option \<Rightarrow> ptr \<times> Vector option" where
  "vector_pop vo =
     (case vo of None \<Rightarrow> (0, None)
      | Some vec \<Rightarrow> if vsize vec = 0 then (0, Some vec)
                    else (vdata vec ! (vsize vec - 1), Some (vec\<lparr>vsize := vsize vec - 1\<rparr>)))"

definition vector_get :: "Vector option \<Rightarrow> nat \<Rightarrow> ptr" where
  "vector_get vo index =
     (case vo of None \<Rightarrow> 0 | Some vec \<Rightarrow> if index \<ge> vsize vec then 0 else vdata vec ! index)"

text \<open>The third component lists the elements passed to \<open>element_free\<close>.\<close>

definition vector_set :: "Vector option \<Rightarrow> nat \<Rightarrow> ptr \<Rightarrow> bool \<times> Vector option \<times> ptr list" where
  "vector_set vo index element =
     (case vo of None \<Rightarrow> (False, None, [])
      | Some vec \<Rightarrow> if index \<ge> vsize vec then (False, Some vec, [])
                    else (True, Some (vec\<lparr>vdata := (vdata vec)[index := element]\<rparr>),
                          if velement_free vec then [vdata vec ! index] else []))"

definition vector_insert :: "(nat \<Rightarrow> bool) \<Rightarrow> Vector option \<Rightarrow> nat \<Rightarrow> ptr \<Rightarrow> bool \<times> Vector option" where
  "vector_insert alloc vo index element =
     (case vo of None \<Rightarrow> (False, None)
      | Some vec \<Rightarrow>
          if index > vsize vec then (False, Some vec)
          else let r = vector_ensure_capacity alloc vec (vsize vec + 1)
               in if \<not> fst r then (False, Some vec)
                  else (True, Some ((snd r)\<lparr>vdata := (shift_right (vdata (snd r)) index (vsize vec))[index := element],
                                           vsize := vsize vec + 1\<rparr>)))"

definition vector_remove :: "Vector option \<Rightarrow> nat \<Rightarrow> bool \<times> Vector option \<times> ptr list" where
  "vector_remove vo index =
     (case vo of None \<Rightarrow> (False, None, [])
      | Some vec \<Rightarrow> if index \<ge> vsize vec then (False, Some vec, [])
                    else (True, Some (vec\<lparr>vdata := shift_left (vdata vec) index (vsize vec - 1), vsize := vsize vec - 1\<rparr>),
                          if velement_free vec then [vdata vec ! index] else []))"

definition vector_clear :: "Vector option \<Rightarrow> Vector option \<times> ptr list" where
  "vector_clear vo =
     (case vo of None \<Rightarrow> (None, [])
      | Some vec \<Rightarrow> (Some (vec\<lparr>vsize := 0\<rparr>),
                     if velement_free vec then map (\<lambda>i. vdata vec ! i) [0..<vsize vec] else []))"

definition vector_reserve :: "(nat \<Rightarrow> bool) \<Rightarrow> Vector option \<Rightarrow> nat \<Rightarrow> bool \<times> Vector option" where
  "vector_reserve alloc vo new_capacity =
     (case vo of None \<Rightarrow> (False, None)
      | Some vec \<Rightarrow> (let r = vector_ensure_capacity alloc vec new_capacity in (fst r, Some (snd r))))"

definition vector_shrink_to_fit :: "(nat \<Rightarrow> bool) \<Rightarrow> Vector option \<Rightarrow> Vector option" where
  "vector_shrink_to_fit alloc vo =
     (case vo of None \<Rightarrow> None
      | Some vec \<Rightarrow> if vsize vec = 0 then Some vec
                    else if vsize vec < vcapacity vec \<and> alloc (vsize vec * 8)
                    then Some (vec\<lparr>vdata := realloc_slots (vdata vec) (vsize vec), vcapacity := vsize vec\<rparr>)
                    else Some vec)"

function vector_find_loop :: "(ptr \<Rightarrow> ptr \<Rightarrow> bool) \<Rightarrow> ptr list \<Rightarrow> nat \<Rightarrow> ptr \<Rightarrow> nat \<Rightarrow> int" where
  "vector_find_loop equals d n element i =
     (if i < n then (if equals (d ! i) element then int i else vector_find_loop equals d n element (i + 1))
      else -1)"
  by pat_completeness auto
termination by (relation "measure (\<lambda>(equals, d, n, element, i). n - i)") auto

declare vector_find_loop.simps [simp del]

definition vector_find :: "Vector option \<Rightarrow> ptr \<Rightarrow> (ptr \<Rightarrow> ptr \<Rightarrow> bool) option \<Rightarrow> int" where
  "vector_find vo element equals =
     (case (vo, equals) of
        (Some vec, Some eq) \<Rightarrow> vector_find_loop eq (vdata vec) (vsize vec) element 0
      | _ \<Rightarrow> -1)"

definition vector_contains :: "Vector option \<Rightarrow> ptr \<Rightarrow> (ptr \<Rightarrow> ptr \<Rightarrow> bool) option \<Rightarrow> bool" where
  "vector_contains vo element equals \<longleftrightarrow> vector_find vo element equals \<ge> 0"

fun reverse_loop :: "ptr list \<Rightarrow> nat \<Rightarrow> nat \<Rightarrow> ptr list" where
  "reverse_loop d n 0 = d"
| "reverse_loop d n (Suc k) =
     (let d' = reverse_loop d n k in d'[k := d' ! (n - 1 - k), n - 1 - k := d' ! k])"

definition vector_reverse :: "Vector option \<Rightarrow> Vector option" where
  "vector_reverse vo =
     (case vo of None \<Rightarrow> None
      | Some vec \<Rightarrow> if vsize vec \<le> 1 then Some vec
                    else Some (vec\<lparr>vdata := reverse_loop (vdata vec) (vsize vec) (vsize vec div 2)\<rparr>))"

definition vok :: "Vector \<Rightarrow> bool" where
  "vok v \<longleftrightarrow> vsize v \<le> vcapacity v \<and> length (vdata v) = vcapacity v"

definition vlist :: "Vector \<Rightarrow> ptr list" where
  "vlist v = take (vsize v) (vdata v)"


lemma ensure_capacity_correct:
  assumes "vok v" "vector_ensure_capacity alloc v n = (r, w)"
  shows "vok w \<and> vlist w = vlist v \<and> vsize w = vsize v \<and> velement_free w = velement_free v \<and> (r \<longrightarrow> n \<le> vcapacity w) \<and>
    (\<not> r \<longrightarrow> w = v \<and> \<not> alloc (max n (vcapacity v * 2) * 8))"
  using assms
  by (auto simp: vector_ensure_capacity_def vok_def vlist_def GROWTH_FACTOR_def max_def Let_def split: if_splits)

lemma vector_push_correct:
  assumes "vok v" "vector_push alloc (Some v) x = (r, w)"
  shows "(r \<and> (\<exists>u. w = Some u \<and> vok u \<and> vlist u = vlist v @ [x])) \<or>
    (\<not> r \<and> w = Some v \<and> \<not> alloc (max (vsize v + 1) (vcapacity v * 2) * 8))"
proof -
  obtain r1 u where e: "vector_ensure_capacity alloc v (Suc (vsize v)) = (r1, u)" by fastforce
  note c = ensure_capacity_correct [OF assms(1) e]
  show ?thesis using assms(2) c
    by (auto simp: vector_push_def e Let_def vok_def vlist_def take_update_snoc split: if_splits)
qed

lemma vector_insert_correct:
  assumes "vok v" "vector_insert alloc (Some v) i x = (r, w)"
  shows "if i > vsize v then \<not> r \<and> w = Some v
    else (r \<and> (\<exists>u. w = Some u \<and> vok u \<and> vlist u = take i (vlist v) @ x # drop i (vlist v))) \<or>
      (\<not> r \<and> w = Some v \<and> \<not> alloc (max (vsize v + 1) (vcapacity v * 2) * 8))"
proof (cases "i > vsize v")
  case True
  then show ?thesis using assms by (simp add: vector_insert_def)
next
  case False
  obtain r1 u where e: "vector_ensure_capacity alloc v (Suc (vsize v)) = (r1, u)" by fastforce
  note c = ensure_capacity_correct [OF assms(1) e]
  show ?thesis
  proof (cases r1)
    case False
    then show ?thesis using assms(2) c \<open>\<not> i > vsize v\<close> by (auto simp: vector_insert_def e Let_def)
  next
    case True
    then have len: "vsize v < length (vdata u)" and u: "vsize u = vsize v" "vlist u = vlist v" using c by (auto simp: vok_def)
    have "take (vsize v + 1) ((shift_right (vdata u) i (vsize v))[i := x]) = take i (vlist v) @ x # drop i (vlist v)"
      using False len u(2) [symmetric] u(1)
      by (simp add: shift_right_eq vlist_def list_update_append take_Suc_conv_app_nth drop_take min_def Suc_diff_le) linarith
    then show ?thesis using assms(2) c True False len
      by (auto simp: vector_insert_def e Let_def vok_def vlist_def)
  qed
qed

lemma vector_remove_correct:
  assumes "vok v" "i < vsize v"
  shows "\<exists>u. vector_remove (Some v) i = (True, Some u, if velement_free v then [vlist v ! i] else []) \<and> vok u \<and>
    vlist u = take i (vlist v) @ drop (i + 1) (vlist v)"
proof -
  define n where "n = vsize v - 1"
  have n: "vsize v = Suc n" "i \<le> n" "n < length (vdata v)" using assms by (auto simp: n_def vok_def)
  have "take n (shift_left (vdata v) i n) = take i (vlist v) @ drop (i + 1) (vlist v)"
    using n by (simp add: shift_left_eq vlist_def drop_take)
  then show ?thesis using assms n by (auto simp: vector_remove_def vok_def vlist_def)
qed

lemma reverse_loop_nth:
  "k \<le> n div 2 \<Longrightarrow> n \<le> length d \<Longrightarrow> length (reverse_loop d n k) = length d \<and>
     (\<forall>i < length d. reverse_loop d n k ! i = (if i < n \<and> (i < k \<or> n - 1 - i < k) then d ! (n - 1 - i) else d ! i))"
proof (induction k)
  case 0
  then show ?case by auto
next
  case (Suc k)
  define d' where "d' = reverse_loop d n k"
  have ih: "length d' = length d" "\<And>i. i < length d \<Longrightarrow>
      d' ! i = (if i < n \<and> (i < k \<or> n - 1 - i < k) then d ! (n - 1 - i) else d ! i)"
    using Suc by (auto simp: d'_def)
  have kn: "k < n" "n - 1 - k < n" "k < n - 1 - k \<or> k = n - 1 - k" "n - 1 - (n - 1 - k) = k" "k \<noteq> n - 1 - k"
    using Suc.prems by auto
  have a: "d' ! k = d ! k" "d' ! (n - 1 - k) = d ! (n - 1 - k)" using ih(2) kn Suc.prems by auto
  have e: "reverse_loop d n (Suc k) = d'[k := d ! (n - 1 - k), n - 1 - k := d ! k]"
    using a by (simp add: Let_def d'_def [symmetric])
  have "reverse_loop d n (Suc k) ! i = (if i < n \<and> (i < Suc k \<or> n - 1 - i < Suc k) then d ! (n - 1 - i) else d ! i)"
    if "i < length d" for i
  proof -
    consider "i = k" | "i = n - 1 - k" | "i \<noteq> k" "i \<noteq> n - 1 - k" by blast
    then show ?thesis
    proof cases
      case 1
      then show ?thesis using e kn ih(1) that by (simp add: nth_list_update)
    next
      case 2
      then show ?thesis using e kn ih(1) that by (simp add: nth_list_update)
    next
      case 3
      have "i < n \<Longrightarrow> n - 1 - i < Suc k \<longleftrightarrow> n - 1 - i < k" using 3 kn by auto
      then show ?thesis using e 3 ih that by (auto simp: less_Suc_eq)
    qed
  qed
  then show ?case using e ih(1) by simp
qed

lemma vector_reverse_correct:
  assumes "vok v"
  shows "\<exists>u. vector_reverse (Some v) = Some u \<and> vok u \<and> vlist u = rev (vlist v)"
proof (cases "vsize v \<le> 1")
  case True
  then have "rev (vlist v) = vlist v" using assms
    by (cases "vdata v"; cases "vsize v") (auto simp: vlist_def)
  then show ?thesis using True assms by (auto simp: vector_reverse_def)
next
  case False
  let ?d = "reverse_loop (vdata v) (vsize v) (vsize v div 2)"
  have r: "length ?d = length (vdata v)" "\<And>i. i < length (vdata v) \<Longrightarrow>
      ?d ! i = (if i < vsize v \<and> (i < vsize v div 2 \<or> vsize v - 1 - i < vsize v div 2) then vdata v ! (vsize v - 1 - i) else vdata v ! i)"
    using reverse_loop_nth [of "vsize v div 2" "vsize v" "vdata v"] assms by (auto simp: vok_def)
  have "take (vsize v) ?d = rev (vlist v)"
  proof (rule nth_equalityI)
    show "length (take (vsize v) ?d) = length (rev (vlist v))" using r(1) by (simp add: vlist_def)
  next
    fix i assume "i < length (take (vsize v) ?d)"
    then have i: "i < vsize v" "i < length (vdata v)" using r(1) by auto
    have "vdata v ! i = vdata v ! (vsize v - 1 - i)" if "\<not> i < vsize v div 2" "\<not> vsize v - 1 - i < vsize v div 2"
    proof -
      have "i = vsize v - 1 - i" using that i by linarith
      then show ?thesis by simp
    qed
    moreover have "Suc i \<le> vsize v" "vsize v \<le> length (vdata v)" using i assms by (auto simp: vok_def)
    ultimately show "take (vsize v) ?d ! i = rev (vlist v) ! i"
      using r(2) [OF i(2)] i by (auto simp: rev_nth vlist_def min_def)
  qed
  then show ?thesis using False assms r(1) by (auto simp: vector_reverse_def vok_def vlist_def)
qed

lemma vector_find_loop_correct:
  "i \<le> n \<Longrightarrow> case vector_find_loop eq d n x i of
     r \<Rightarrow> if \<exists>j. i \<le> j \<and> j < n \<and> eq (d ! j) x
         then \<exists>j. r = int j \<and> i \<le> j \<and> j < n \<and> eq (d ! j) x \<and> (\<forall>k. i \<le> k \<and> k < j \<longrightarrow> \<not> eq (d ! k) x)
         else r = -1"
proof (induction eq d n x i rule: vector_find_loop.induct)
  case (1 eq d n x i)
  show ?case
  proof (cases "i < n \<and> \<not> eq (d ! i) x")
    case False
    then show ?thesis using 1 by (subst (1 2) vector_find_loop.simps) (auto intro!: exI [of _ i])
  next
    case True
    have "i + 1 \<le> j \<longleftrightarrow> i \<le> j \<and> i \<noteq> j" for j by auto
    moreover have "vector_find_loop eq d n x i = vector_find_loop eq d n x (i + 1)"
      using True by (subst vector_find_loop.simps) simp
    ultimately show ?thesis using "1.IH" True
      by (auto split: if_splits)
  qed
qed

text \<open>The vector refines a list: push and insert either fail, only because the allocator refused, or add the element at the right place; remove deletes and frees exactly the removed element; reverse reverses; the representation stays well formed.\<close>

theorem Vector_refines_list:
  assumes ok: "vok v"
  shows "(case vector_push alloc (Some v) x of (r, w) \<Rightarrow>
        (r \<and> (\<exists>u. w = Some u \<and> vok u \<and> vlist u = vlist v @ [x])) \<or>
        (\<not> r \<and> w = Some v \<and> \<not> alloc (max (vsize v + 1) (vcapacity v * 2) * 8)))
    \<and> (case vector_insert alloc (Some v) i x of (r, w) \<Rightarrow>
        if i > length (vlist v) then \<not> r \<and> w = Some v
        else (r \<and> (\<exists>u. w = Some u \<and> vok u \<and> vlist u = take i (vlist v) @ x # drop i (vlist v))) \<or>
          (\<not> r \<and> w = Some v \<and> \<not> alloc (max (vsize v + 1) (vcapacity v * 2) * 8)))
    \<and> (if i < length (vlist v) then
         \<exists>u. vector_remove (Some v) i = (True, Some u, if velement_free v then [vlist v ! i] else []) \<and> vok u \<and>
           vlist u = take i (vlist v) @ drop (i + 1) (vlist v)
       else vector_remove (Some v) i = (False, Some v, []))
    \<and> (\<exists>u. vector_reverse (Some v) = Some u \<and> vok u \<and> vlist u = rev (vlist v))"
proof -
  have len: "length (vlist v) = vsize v" using ok by (simp add: vlist_def vok_def)
  show ?thesis
    unfolding len
    using vector_push_correct [OF ok, of alloc x] vector_insert_correct [OF ok, of alloc i x]
      vector_remove_correct [OF ok, of i] vector_reverse_correct [OF ok]
    by (auto simp: vector_remove_def)
qed

theorem Vector_refines_list_witness:
  "\<exists>u. vector_reverse (Some \<lparr>vdata = [3, 4, 5, 0], vsize = 3, vcapacity = 4, velement_free = True\<rparr>) = Some u
     \<and> vlist u = [5, 4, 3]"
proof -
  let ?v = "\<lparr>vdata = [3, 4, 5, 0], vsize = 3, vcapacity = 4, velement_free = True\<rparr>"
  have "vok ?v" by (simp add: vok_def)
  from Vector_refines_list [OF this, where alloc = "\<lambda>_. True" and i = 0 and x = 0]
  have "\<exists>u. vector_reverse (Some ?v) = Some u \<and> vok u \<and> vlist u = rev (vlist ?v)" by blast
  then show ?thesis by (auto simp: vlist_def)
qed


subsection \<open>The interface the two containers share\<close>

text \<open>A sequence that can be appended to (the append may be refused) and read by index.\<close>

locale appendable =
  fixes inv :: "'s \<Rightarrow> bool" and abs :: "'s \<Rightarrow> ptr list"
    and push :: "'s \<Rightarrow> ptr \<Rightarrow> 's option" and get :: "'s \<Rightarrow> nat \<Rightarrow> ptr"
  assumes push_inv: "inv s \<Longrightarrow> push s x = Some s' \<Longrightarrow> inv s'"
    and push_abs: "inv s \<Longrightarrow> push s x = Some s' \<Longrightarrow> abs s' = abs s @ [x]"
    and get_abs: "inv s \<Longrightarrow> i < length (abs s) \<Longrightarrow> get s i = abs s ! i"
begin

lemma push_all:
  "inv s \<Longrightarrow> foldl (\<lambda>so x. case so of None \<Rightarrow> None | Some t \<Rightarrow> push t x) (Some s) xs = Some s' \<Longrightarrow>
     inv s' \<and> abs s' = abs s @ xs"
proof (induction xs arbitrary: s)
  case (Cons x xs)
  have none: "foldl (\<lambda>so x. case so of None \<Rightarrow> None | Some t \<Rightarrow> push t x) None xs = None" for xs :: "ptr list"
    by (induction xs) auto
  obtain t where t: "push s x = Some t" using Cons.prems none by (cases "push s x") auto
  then show ?case using Cons.IH [of t] Cons.prems push_inv push_abs by auto
qed simp

lemma read_back:
  assumes "inv s" "foldl (\<lambda>so x. case so of None \<Rightarrow> None | Some t \<Rightarrow> push t x) (Some s) xs = Some s'"
    and "i < length (abs s) + length xs"
  shows "get s' i = (abs s @ xs) ! i"
  using push_all [OF assms(1,2)] assms(3) get_abs by simp

end

definition list_push :: "ArrayList \<Rightarrow> ptr \<Rightarrow> ArrayList option" where
  "list_push l x = (case list_add_raw (\<lambda>_. True) (Some l) x of (r, l') \<Rightarrow> if r = 1 then l' else None)"

definition vec_push :: "Vector \<Rightarrow> ptr \<Rightarrow> Vector option" where
  "vec_push v x = (case vector_push (\<lambda>_. True) (Some v) x of (r, v') \<Rightarrow> if r then v' else None)"

interpretation array_list: appendable al_ok alist list_push "\<lambda>l i. list_get_raw (Some l) (int i)"
proof
  fix l x l' i
  assume ok: "al_ok l"
  obtain r m where m: "list_add_raw (\<lambda>_. True) (Some l) x = (r, m)" by fastforce
  note c = list_add_raw_correct [OF ok m]
  show "al_ok l'" if "list_push l x = Some l'" using that c m by (auto simp: list_push_def)
  show "alist l' = alist l @ [x]" if "list_push l x = Some l'" using that c m by (auto simp: list_push_def)
  show "list_get_raw (Some l) (int i) = alist l ! i" if "i < length (alist l)"
    using that ok alist_length [OF ok] by (auto simp: list_get_raw_def alist_def al_ok_def)
qed

interpretation vector: appendable vok vlist vec_push "\<lambda>v i. vector_get (Some v) i"
proof
  fix v x v' i
  assume ok: "vok v"
  obtain r m where m: "vector_push (\<lambda>_. True) (Some v) x = (r, m)" by fastforce
  note c = vector_push_correct [OF ok m]
  show "vok v'" if "vec_push v x = Some v'" using that c m by (auto simp: vec_push_def)
  show "vlist v' = vlist v @ [x]" if "vec_push v x = Some v'" using that c m by (auto simp: vec_push_def)
  show "vector_get (Some v) i = vlist v ! i" if "i < length (vlist v)"
    using that ok by (auto simp: vector_get_def vlist_def vok_def)
qed

subsection \<open>IntArray\<close>

record IntArray =
  ia_data :: "int list"
  ia_size :: int

definition intarr_new_raw :: "(nat \<Rightarrow> bool) \<Rightarrow> int \<Rightarrow> IntArray option" where
  "intarr_new_raw alloc sz =
     (if sz < 0 then None
      else if \<not> alloc 16 then None
      else if sz = 0 then Some \<lparr>ia_data = [], ia_size = sz\<rparr>
      else if \<not> alloc (nat sz * 4) then None
      else Some \<lparr>ia_data = replicate (nat sz) 0, ia_size = sz\<rparr>)"

fun fill_loop :: "int list \<Rightarrow> int \<Rightarrow> nat \<Rightarrow> int list" where
  "fill_loop d v 0 = d"
| "fill_loop d v (Suc n) = (fill_loop d v n)[n := v]"

definition intarr_new_filled_raw :: "(nat \<Rightarrow> bool) \<Rightarrow> int \<Rightarrow> int \<Rightarrow> IntArray option" where
  "intarr_new_filled_raw alloc sz init =
     (case intarr_new_raw alloc sz of None \<Rightarrow> None
      | Some arr \<Rightarrow> Some (arr\<lparr>ia_data := fill_loop (ia_data arr) init (nat sz)\<rparr>))"

definition intarr_size :: "IntArray option \<Rightarrow> int" where
  "intarr_size ao = (case ao of None \<Rightarrow> -1 | Some arr \<Rightarrow> ia_size arr)"

definition intarr_get_raw :: "IntArray option \<Rightarrow> int \<Rightarrow> int" where
  "intarr_get_raw ao i =
     (case ao of None \<Rightarrow> 0 | Some arr \<Rightarrow> if i < 0 \<or> i \<ge> ia_size arr then 0 else ia_data arr ! nat i)"

definition intarr_set_raw :: "IntArray option \<Rightarrow> int \<Rightarrow> int \<Rightarrow> IntArray option" where
  "intarr_set_raw ao i v =
     (case ao of None \<Rightarrow> None
      | Some arr \<Rightarrow> if i < 0 \<or> i \<ge> ia_size arr then Some arr else Some (arr\<lparr>ia_data := (ia_data arr)[nat i := v]\<rparr>))"

definition intarr_fill :: "IntArray option \<Rightarrow> int \<Rightarrow> IntArray option" where
  "intarr_fill ao v =
     (case ao of None \<Rightarrow> None
      | Some arr \<Rightarrow> if ia_size arr = 0 then Some arr
                    else Some (arr\<lparr>ia_data := fill_loop (ia_data arr) v (nat (ia_size arr))\<rparr>))"

definition ia_ok :: "IntArray \<Rightarrow> bool" where
  "ia_ok a \<longleftrightarrow> 0 \<le> ia_size a \<and> int (length (ia_data a)) = ia_size a"

lemma fill_loop_eq: "n \<le> length d \<Longrightarrow> fill_loop d v n = replicate n v @ drop n d"
proof (induction n)
  case (Suc n)
  then have "drop n d = d ! n # drop (Suc n) d" by (simp add: Cons_nth_drop_Suc)
  then show ?case using Suc by (simp add: list_update_append replicate_append_same)
qed simp

lemma intarr_new_ok: "intarr_new_raw alloc sz = Some a \<Longrightarrow> ia_ok a \<and> ia_size a = sz \<and> (\<forall>i. intarr_get_raw (Some a) i = 0)"
  by (auto simp: intarr_new_raw_def ia_ok_def intarr_get_raw_def split: if_splits)

lemma intarr_set_ok: "ia_ok a \<Longrightarrow> intarr_set_raw (Some a) i v = Some b \<Longrightarrow>
    ia_ok b \<and> ia_size b = ia_size a \<and>
    intarr_get_raw (Some b) j = (if j = i \<and> 0 \<le> i \<and> i < ia_size a then v else intarr_get_raw (Some a) j)"
  by (auto simp: intarr_set_raw_def ia_ok_def intarr_get_raw_def nth_list_update split: if_splits)

lemma intarr_fill_ok: "ia_ok a \<Longrightarrow> intarr_fill (Some a) v = Some b \<Longrightarrow>
    ia_ok b \<and> ia_size b = ia_size a \<and> intarr_get_raw (Some b) j = (if 0 \<le> j \<and> j < ia_size a then v else 0)"
  by (auto simp: intarr_fill_def ia_ok_def intarr_get_raw_def fill_loop_eq nth_append split: if_splits)

end
