(* ===== verification/AetherPQueue.thy ===== *)
theory AetherPQueue
  imports AetherArrays "HOL-Library.Multiset"
begin

section \<open>The binary-heap priority queue of the Aether library\<close>

text \<open>
  Models \<^verbatim>\<open>aether/std/collections/aether_pqueue.c\<close>: a binary heap in an array,
  ordered by a comparison function the caller gives.  The sift loops are recursive functions on the
  array; \<open>alloc\<close> and the elements are as in \<open>AetherArrays\<close>.  What the queue needs of
  the comparison is the locale \<open>weak_order\<close>; the two comparison functions of the file are
  instances.  The abstraction of a queue is the multiset of its elements.
\<close>

subsection \<open>Operations\<close>

record PriorityQueue =
  pq_data :: "ptr list"
  pq_size :: nat
  pq_capacity :: nat
  pq_element_free :: bool

definition sizeof_PriorityQueue :: nat where
  "sizeof_PriorityQueue = 48"

definition PARENT :: "nat \<Rightarrow> nat" where
  "PARENT i = (i - 1) div 2"

definition LEFT_CHILD :: "nat \<Rightarrow> nat" where
  "LEFT_CHILD i = 2 * i + 1"

definition RIGHT_CHILD :: "nat \<Rightarrow> nat" where
  "RIGHT_CHILD i = 2 * i + 2"

definition aether_pqueue_create ::
    "(nat \<Rightarrow> bool) \<Rightarrow> nat \<Rightarrow> (ptr \<Rightarrow> ptr \<Rightarrow> int) option \<Rightarrow> bool \<Rightarrow> PriorityQueue option" where
  "aether_pqueue_create alloc initial_capacity compare frees =
     (if compare = None then None
      else if \<not> alloc sizeof_PriorityQueue then None
      else let n = (if initial_capacity < DEFAULT_CAPACITY then DEFAULT_CAPACITY else initial_capacity)
           in if \<not> alloc (n * 8) then None
              else Some \<lparr>pq_data = replicate n 0, pq_size = 0, pq_capacity = n, pq_element_free = frees\<rparr>)"

definition aether_pqueue_ensure_capacity :: "(nat \<Rightarrow> bool) \<Rightarrow> PriorityQueue \<Rightarrow> nat \<Rightarrow> bool \<times> PriorityQueue" where
  "aether_pqueue_ensure_capacity alloc pq min_capacity =
     (if pq_capacity pq \<ge> min_capacity then (True, pq)
      else let n0 = pq_capacity pq * GROWTH_FACTOR; n = (if n0 < min_capacity then min_capacity else n0)
           in if \<not> alloc (n * 8) then (False, pq)
              else (True, pq\<lparr>pq_data := realloc_slots (pq_data pq) n, pq_capacity := n\<rparr>))"

definition aether_pqueue_swap :: "ptr list \<Rightarrow> nat \<Rightarrow> nat \<Rightarrow> ptr list" where
  "aether_pqueue_swap d i j = d[i := d ! j, j := d ! i]"

lemma PARENT_less: "0 < i \<Longrightarrow> PARENT i < i"
  by (auto simp: PARENT_def)

function aether_pqueue_heapify_up :: "(ptr \<Rightarrow> ptr \<Rightarrow> int) \<Rightarrow> ptr list \<Rightarrow> nat \<Rightarrow> ptr list" where
  "aether_pqueue_heapify_up compare d index =
     (if index > 0 then
        let parent = PARENT index
        in if compare (d ! index) (d ! parent) < 0
           then aether_pqueue_heapify_up compare (aether_pqueue_swap d index parent) parent
           else d
      else d)"
  by pat_completeness auto
termination by (relation "measure (\<lambda>(compare, d, index). index)") (auto simp: PARENT_less)

declare aether_pqueue_heapify_up.simps [simp del]

definition smallest_child :: "(ptr \<Rightarrow> ptr \<Rightarrow> int) \<Rightarrow> ptr list \<Rightarrow> nat \<Rightarrow> nat \<Rightarrow> nat" where
  "smallest_child compare d sz index =
     (let left = LEFT_CHILD index; right = RIGHT_CHILD index;
          s1 = (if left < sz \<and> compare (d ! left) (d ! index) < 0 then left else index)
      in if right < sz \<and> compare (d ! right) (d ! s1) < 0 then right else s1)"

lemma smallest_child_cases:
  "smallest_child compare d sz index = index \<or> index < smallest_child compare d sz index \<and> smallest_child compare d sz index < sz"
  by (auto simp: smallest_child_def Let_def LEFT_CHILD_def RIGHT_CHILD_def)

function aether_pqueue_heapify_down :: "(ptr \<Rightarrow> ptr \<Rightarrow> int) \<Rightarrow> ptr list \<Rightarrow> nat \<Rightarrow> nat \<Rightarrow> ptr list" where
  "aether_pqueue_heapify_down compare d sz index =
     (let smallest = smallest_child compare d sz index
      in if smallest = index then d
         else aether_pqueue_heapify_down compare (aether_pqueue_swap d index smallest) sz smallest)"
  by pat_completeness auto
termination
proof (relation "measure (\<lambda>(compare, d, sz, index). sz - index)", goal_cases)
  case 1 then show ?case by simp
next
  case (2 compare d sz index x)
  then show ?case using smallest_child_cases [of compare d sz index] by auto
qed

declare aether_pqueue_heapify_down.simps [simp del]

definition aether_pqueue_insert ::
    "(nat \<Rightarrow> bool) \<Rightarrow> (ptr \<Rightarrow> ptr \<Rightarrow> int) \<Rightarrow> PriorityQueue option \<Rightarrow> ptr \<Rightarrow> bool \<times> PriorityQueue option" where
  "aether_pqueue_insert alloc compare pqo element =
     (case pqo of None \<Rightarrow> (False, None)
      | Some pq0 \<Rightarrow>
          let r = aether_pqueue_ensure_capacity alloc pq0 (pq_size pq0 + 1); pq = snd r
          in if \<not> fst r then (False, Some pq0)
             else (True, Some (pq\<lparr>pq_data := aether_pqueue_heapify_up compare ((pq_data pq)[pq_size pq := element]) (pq_size pq),
                                pq_size := pq_size pq + 1\<rparr>)))"

definition aether_pqueue_extract ::
    "(ptr \<Rightarrow> ptr \<Rightarrow> int) \<Rightarrow> PriorityQueue option \<Rightarrow> ptr \<times> PriorityQueue option" where
  "aether_pqueue_extract compare pqo =
     (case pqo of None \<Rightarrow> (0, None)
      | Some pq \<Rightarrow>
          if pq_size pq = 0 then (0, Some pq)
          else let result = pq_data pq ! 0; n = pq_size pq - 1; d = (pq_data pq)[0 := pq_data pq ! n]
               in (result, Some (pq\<lparr>pq_data := (if n > 0 then aether_pqueue_heapify_down compare d n 0 else d),
                                   pq_size := n\<rparr>)))"

definition aether_pqueue_peek :: "PriorityQueue option \<Rightarrow> ptr" where
  "aether_pqueue_peek pqo =
     (case pqo of None \<Rightarrow> 0 | Some pq \<Rightarrow> if pq_size pq = 0 then 0 else pq_data pq ! 0)"

definition aether_pqueue_is_empty :: "PriorityQueue option \<Rightarrow> bool" where
  "aether_pqueue_is_empty pqo = (case pqo of None \<Rightarrow> True | Some pq \<Rightarrow> pq_size pq = 0)"

definition aether_pqueue_clear :: "PriorityQueue option \<Rightarrow> PriorityQueue option \<times> ptr list" where
  "aether_pqueue_clear pqo =
     (case pqo of None \<Rightarrow> (None, [])
      | Some pq \<Rightarrow> (Some (pq\<lparr>pq_size := 0\<rparr>), if pq_element_free pq then take (pq_size pq) (pq_data pq) else []))"

fun contains_loop :: "(ptr \<Rightarrow> ptr \<Rightarrow> bool) \<Rightarrow> ptr list \<Rightarrow> ptr \<Rightarrow> bool" where
  "contains_loop equals [] element = False"
| "contains_loop equals (x # xs) element = (if equals x element then True else contains_loop equals xs element)"

definition aether_pqueue_contains :: "PriorityQueue option \<Rightarrow> ptr \<Rightarrow> (ptr \<Rightarrow> ptr \<Rightarrow> bool) option \<Rightarrow> bool" where
  "aether_pqueue_contains pqo element equals =
     (case (pqo, equals) of
        (Some pq, Some eq) \<Rightarrow> contains_loop eq (take (pq_size pq) (pq_data pq)) element
      | _ \<Rightarrow> False)"

fun floyd_loop :: "(ptr \<Rightarrow> ptr \<Rightarrow> int) \<Rightarrow> ptr list \<Rightarrow> nat \<Rightarrow> nat \<Rightarrow> ptr list" where
  "floyd_loop compare d sz 0 = d"
| "floyd_loop compare d sz (Suc i) = floyd_loop compare (aether_pqueue_heapify_down compare d sz i) sz i"

definition aether_pqueue_from_array ::
    "(nat \<Rightarrow> bool) \<Rightarrow> ptr list \<Rightarrow> (ptr \<Rightarrow> ptr \<Rightarrow> int) \<Rightarrow> bool \<Rightarrow> (ptr \<Rightarrow> ptr) option \<Rightarrow> PriorityQueue option" where
  "aether_pqueue_from_array alloc elements compare frees clone =
     (let count = length elements
      in case aether_pqueue_create alloc count (Some compare) frees of
           None \<Rightarrow> None
         | Some pq \<Rightarrow>
             let d = (case clone of None \<Rightarrow> elements | Some f \<Rightarrow> map f elements) @ drop count (pq_data pq)
             in Some (pq\<lparr>pq_data := floyd_loop compare d count (count div 2), pq_size := count\<rparr>))"

definition aether_pqueue_compare_int_min :: "ptr \<Rightarrow> ptr \<Rightarrow> int" where
  "aether_pqueue_compare_int_min a b =
     (let ia = signed_take_bit 63 (int a); ib = signed_take_bit 63 (int b)
      in if ia < ib then -1 else if ia > ib then 1 else 0)"

definition aether_pqueue_compare_int_max :: "ptr \<Rightarrow> ptr \<Rightarrow> int" where
  "aether_pqueue_compare_int_max a b = - aether_pqueue_compare_int_min a b"

subsection \<open>Heap order\<close>

definition heap_from :: "(ptr \<Rightarrow> ptr \<Rightarrow> int) \<Rightarrow> nat \<Rightarrow> ptr list \<Rightarrow> nat \<Rightarrow> bool" where
  "heap_from compare k d n \<longleftrightarrow> (\<forall>j. 0 < j \<and> j < n \<and> k \<le> PARENT j \<longrightarrow> \<not> compare (d ! j) (d ! PARENT j) < 0)"

lemma child_iff: "0 < j \<Longrightarrow> PARENT j = i \<longleftrightarrow> j = LEFT_CHILD i \<or> j = RIGHT_CHILD i"
  by (auto simp: PARENT_def LEFT_CHILD_def RIGHT_CHILD_def)

lemma swap_nth: "i < length d \<Longrightarrow> j < length d \<Longrightarrow> k < length d \<Longrightarrow>
    aether_pqueue_swap d i j ! k = (if k = j then d ! i else if k = i then d ! j else d ! k)"
  by (auto simp: aether_pqueue_swap_def nth_list_update)

lemma swap_length [simp]: "length (aether_pqueue_swap d i j) = length d"
  by (simp add: aether_pqueue_swap_def)

lemma swap_mset:
  assumes "i < n" "j < n" "n \<le> length d"
  shows "mset (take n (aether_pqueue_swap d i j)) = mset (take n d)"
proof -
  have "take n (aether_pqueue_swap d i j) = (take n d)[i := take n d ! j, j := take n d ! i]"
    using assms by (simp add: aether_pqueue_swap_def take_update_swap)
  then show ?thesis using assms mset_swap [of j "take n d" i] by simp
qed

locale weak_order =
  fixes compare :: "ptr \<Rightarrow> ptr \<Rightarrow> int"
  assumes asym: "compare x y < 0 \<Longrightarrow> \<not> compare y x < 0"
    and le_trans: "\<not> compare y x < 0 \<Longrightarrow> \<not> compare z y < 0 \<Longrightarrow> \<not> compare z x < 0"
begin

lemma lt_trans: "compare x y < 0 \<Longrightarrow> compare y z < 0 \<Longrightarrow> compare x z < 0"
  using asym le_trans by blast

lemma smallest_spec:
  "if smallest_child compare d n i = i
   then \<forall>c. 0 < c \<and> c < n \<and> PARENT c = i \<longrightarrow> \<not> compare (d ! c) (d ! i) < 0
   else 0 < smallest_child compare d n i \<and> smallest_child compare d n i < n \<and> PARENT (smallest_child compare d n i) = i
     \<and> compare (d ! smallest_child compare d n i) (d ! i) < 0
     \<and> (\<forall>c. 0 < c \<and> c < n \<and> PARENT c = i \<longrightarrow> \<not> compare (d ! c) (d ! smallest_child compare d n i) < 0)"
proof -
  have ne: "LEFT_CHILD i \<noteq> i" "RIGHT_CHILD i \<noteq> i" "LEFT_CHILD i \<noteq> RIGHT_CHILD i" "0 < LEFT_CHILD i" "0 < RIGHT_CHILD i"
    "PARENT (LEFT_CHILD i) = i" "PARENT (RIGHT_CHILD i) = i"
    by (auto simp: LEFT_CHILD_def RIGHT_CHILD_def PARENT_def)
  have ch: "(\<forall>c. 0 < c \<and> c < n \<and> PARENT c = i \<longrightarrow> Q c) \<longleftrightarrow>
      (LEFT_CHILD i < n \<longrightarrow> Q (LEFT_CHILD i)) \<and> (RIGHT_CHILD i < n \<longrightarrow> Q (RIGHT_CHILD i))" for Q
    using ne child_iff by metis
  define l r where "l = LEFT_CHILD i" and "r = RIGHT_CHILD i"
  define s1 where "s1 = (if l < n \<and> compare (d ! l) (d ! i) < 0 then l else i)"
  define s where "s = (if r < n \<and> compare (d ! r) (d ! s1) < 0 then r else s1)"
  have s: "smallest_child compare d n i = s"
    unfolding smallest_child_def Let_def s_def s1_def l_def r_def by (rule refl)
  have refl: "\<not> compare x x < 0" for x using asym by blast
  have a: "l < n \<longrightarrow> \<not> compare (d ! l) (d ! s1) < 0" "\<not> compare (d ! i) (d ! s1) < 0"
    using asym [of "d ! l" "d ! i"] refl [of "d ! l"] refl [of "d ! i"] by (simp_all add: s1_def)
  have b: "l < n \<longrightarrow> \<not> compare (d ! l) (d ! s) < 0" "r < n \<longrightarrow> \<not> compare (d ! r) (d ! s) < 0"
    using a(1) le_trans [of "d ! s1" "d ! r" "d ! l"] asym [of "d ! r" "d ! s1"] refl [of "d ! r"] by (simp_all add: s_def)
  have c: "s = i \<or> s = l \<and> l < n \<or> s = r \<and> r < n" by (auto simp: s_def s1_def)
  have e: "s \<noteq> i \<longrightarrow> compare (d ! s) (d ! i) < 0" using lt_trans [of "d ! r" "d ! l" "d ! i"] by (simp add: s_def s1_def)
  show ?thesis
    unfolding ch s l_def [symmetric] r_def [symmetric] using b c e ne by (auto simp: l_def [symmetric] r_def [symmetric])
qed

lemma heapify_down_correct:
  assumes "k \<le> i" "i < n" "n \<le> length d"
    and "\<forall>j. 0 < j \<and> j < n \<and> k \<le> PARENT j \<and> PARENT j \<noteq> i \<longrightarrow> \<not> compare (d ! j) (d ! PARENT j) < 0"
    and "\<forall>c. 0 < c \<and> c < n \<and> PARENT c = i \<and> 0 < i \<and> k \<le> PARENT i \<longrightarrow> \<not> compare (d ! c) (d ! PARENT i) < 0"
  shows "heap_from compare k (aether_pqueue_heapify_down compare d n i) n \<and>
    length (aether_pqueue_heapify_down compare d n i) = length d \<and>
    drop n (aether_pqueue_heapify_down compare d n i) = drop n d \<and>
    mset (take n (aether_pqueue_heapify_down compare d n i)) = mset (take n d)"
  using assms
proof (induction "n - i" arbitrary: d i rule: less_induct)
  case less
  define s where "s = smallest_child compare d n i"
  note sp = smallest_spec [of d n i, folded s_def]
  show ?case
  proof (cases "s = i")
    case True
    then have "aether_pqueue_heapify_down compare d n i = d"
      by (subst aether_pqueue_heapify_down.simps) (simp add: s_def)
    moreover have "heap_from compare k d n" using sp True less.prems(4) unfolding heap_from_def by metis
    ultimately show ?thesis by simp
  next
    case False
    define d' where "d' = aether_pqueue_swap d i s"
    have e: "aether_pqueue_heapify_down compare d n i = aether_pqueue_heapify_down compare d' n s"
      using False by (subst aether_pqueue_heapify_down.simps) (simp add: s_def d'_def Let_def)
    have s: "0 < s" "s < n" "PARENT s = i" "compare (d ! s) (d ! i) < 0"
      "\<And>c. 0 < c \<Longrightarrow> c < n \<Longrightarrow> PARENT c = i \<Longrightarrow> \<not> compare (d ! c) (d ! s) < 0"
      using sp False by auto
    have lt: "i < s" using PARENT_less [OF s(1)] s(3) by simp
    have nth: "d' ! m = (if m = s then d ! i else if m = i then d ! s else d ! m)" if "m < n" for m
      using that less.prems(2,3) s(2) by (simp add: d'_def swap_nth)
    have par: "PARENT j < n" if "0 < j" "j < n" for j using PARENT_less [OF that(1)] that by simp
    have c1: "\<not> compare (d' ! j) (d' ! PARENT j) < 0" if j: "0 < j" "j < n" "k \<le> PARENT j" "PARENT j \<noteq> s" for j
    proof (cases "PARENT j = i")
      case True
      have "d' ! PARENT j = d ! s" using True False less.prems(2) by (simp add: nth)
      then show ?thesis using j s(4,5) asym [OF s(4)] True False PARENT_less [OF j(1)] by (simp add: nth)
    next
      case ne: False
      have "j \<noteq> s" using ne s(3) by auto
      show ?thesis
      proof (cases "j = i")
        case True
        have "PARENT i < n" "PARENT i \<noteq> i" "PARENT i \<noteq> s" using PARENT_less [of i] j True lt par by auto
        then show ?thesis using less.prems(5) s j True by (auto simp: nth)
      next
        case False
        then show ?thesis using less.prems(4) j ne \<open>j \<noteq> s\<close> by (auto simp: nth par)
      qed
    qed
    have c2: "\<not> compare (d' ! c) (d' ! PARENT s) < 0" if c: "0 < c" "c < n" "PARENT c = s" for c
    proof -
      have "s < c" using PARENT_less [OF c(1)] c(3) by simp
      then have "d' ! c = d ! c" "d' ! PARENT s = d ! s" using lt c s by (auto simp: nth)
      moreover have "\<not> compare (d ! c) (d ! PARENT c) < 0" using less.prems(1,4) c lt by auto
      ultimately show ?thesis using c(3) by simp
    qed
    have ih: "heap_from compare k (aether_pqueue_heapify_down compare d' n s) n \<and>
      length (aether_pqueue_heapify_down compare d' n s) = length d' \<and>
      drop n (aether_pqueue_heapify_down compare d' n s) = drop n d' \<and>
      mset (take n (aether_pqueue_heapify_down compare d' n s)) = mset (take n d')"
      by (rule less.hyps) (use lt s(2) less.prems(1,2,3) c1 c2 in \<open>auto simp: d'_def\<close>)
    have "drop n d' = drop n d" using less.prems(2) s(2) by (simp add: d'_def aether_pqueue_swap_def)
    then show ?thesis using ih e swap_mset [of i n s d] less.prems(2,3) s(2) by (simp add: d'_def)
  qed
qed

lemma heapify_up_correct:
  assumes "i < n" "n \<le> length d"
    and "\<forall>j. 0 < j \<and> j < n \<and> j \<noteq> i \<longrightarrow> \<not> compare (d ! j) (d ! PARENT j) < 0"
    and "\<forall>j. 0 < j \<and> j < n \<and> PARENT j = i \<and> 0 < i \<longrightarrow> \<not> compare (d ! j) (d ! PARENT i) < 0"
  shows "heap_from compare 0 (aether_pqueue_heapify_up compare d i) n \<and>
    length (aether_pqueue_heapify_up compare d i) = length d \<and>
    mset (take n (aether_pqueue_heapify_up compare d i)) = mset (take n d)"
  using assms
proof (induction i arbitrary: d rule: less_induct)
  case (less i)
  show ?case
  proof (cases "0 < i \<and> compare (d ! i) (d ! PARENT i) < 0")
    case False
    then have "aether_pqueue_heapify_up compare d i = d"
      by (subst aether_pqueue_heapify_up.simps) (auto simp: Let_def)
    moreover have "heap_from compare 0 d n" using False less.prems(3) unfolding heap_from_def by metis
    ultimately show ?thesis by simp
  next
    case True
    define p where "p = PARENT i"
    define d' where "d' = aether_pqueue_swap d i p"
    have e: "aether_pqueue_heapify_up compare d i = aether_pqueue_heapify_up compare d' p"
      using True by (subst aether_pqueue_heapify_up.simps) (simp add: p_def d'_def Let_def)
    have p: "p < i" "p < n" "compare (d ! i) (d ! p) < 0" using True less.prems(1) PARENT_less [of i] by (auto simp: p_def)
    have nth: "d' ! m = (if m = p then d ! i else if m = i then d ! p else d ! m)" if "m < n" for m
      using that less.prems(1,2) p by (simp add: d'_def swap_nth)
    have par: "PARENT j < n" "PARENT j \<noteq> j" if "0 < j" "j < n" for j using PARENT_less [OF that(1)] that by auto
    have c1: "\<not> compare (d' ! j) (d' ! PARENT j) < 0" if j: "0 < j" "j < n" "j \<noteq> p" for j
    proof -
      have h: "\<not> compare (d ! j) (d ! PARENT j) < 0" if "j \<noteq> i" using less.prems(3) j that by blast
      consider "j = i" | "j \<noteq> i" "PARENT j = i" | "j \<noteq> i" "PARENT j = p" | "j \<noteq> i" "PARENT j \<noteq> i" "PARENT j \<noteq> p" by blast
      then show ?thesis
      proof cases
        case 1 then show ?thesis using p asym [OF p(3)] less.prems(1) by (simp add: nth p_def [symmetric])
      next
        case 2
        then have "\<not> compare (d ! j) (d ! p) < 0" using less.prems(4) True j by (simp add: p_def)
        then show ?thesis using 2 less.prems(1) j p by (simp add: nth)
      next
        case 3
        then have "\<not> compare (d ! j) (d ! i) < 0" using h le_trans [OF asym [OF p(3)]] by simp
        then show ?thesis using 3 p j par by (simp add: nth)
      next
        case 4 then show ?thesis using h j par by (auto simp: nth)
      qed
    qed
    have c2: "\<not> compare (d' ! j) (d' ! PARENT p) < 0" if j: "0 < j" "j < n" "PARENT j = p" "0 < p" for j
    proof -
      have pp: "PARENT p < p" "PARENT p < n" using PARENT_less [OF j(4)] p by auto
      have hp: "\<not> compare (d ! p) (d ! PARENT p) < 0" using less.prems(3) j p by auto
      have "p < j" using PARENT_less [OF j(1)] j(3) by simp
      show ?thesis
      proof (cases "j = i")
        case True then show ?thesis using hp pp p j less.prems(1) by (auto simp: nth)
      next
        case False
        then have "\<not> compare (d ! j) (d ! p) < 0" using less.prems(3) j by auto
        then have "\<not> compare (d ! j) (d ! PARENT p) < 0" using le_trans [OF hp] by blast
        then show ?thesis using pp p j \<open>p < j\<close> False by (simp add: nth)
      qed
    qed
    have ih: "heap_from compare 0 (aether_pqueue_heapify_up compare d' p) n \<and>
      length (aether_pqueue_heapify_up compare d' p) = length d' \<and>
      mset (take n (aether_pqueue_heapify_up compare d' p)) = mset (take n d')"
      by (rule less.IH) (use p less.prems(2) c1 c2 in \<open>auto simp: d'_def\<close>)
    then show ?thesis using e swap_mset [of i n p d] less.prems(1,2) p(2) by (simp add: d'_def)
  qed
qed

lemma heap_root_least:
  assumes "heap_from compare 0 d n" "j < n"
  shows "\<not> compare (d ! j) (d ! 0) < 0"
  using assms(2)
proof (induction j rule: less_induct)
  case (less j)
  show ?case
  proof (cases "j = 0")
    case True then show ?thesis using asym by blast
  next
    case False
    then have "PARENT j < j" by (simp add: PARENT_less)
    then have "\<not> compare (d ! PARENT j) (d ! 0) < 0" using less by simp
    moreover have "\<not> compare (d ! j) (d ! PARENT j) < 0" using assms(1) less.prems False by (simp add: heap_from_def)
    ultimately show ?thesis using le_trans by blast
  qed
qed

lemma floyd_correct:
  assumes "n \<le> length d" "k \<le> n div 2" "heap_from compare k d n"
  shows "heap_from compare 0 (floyd_loop compare d n k) n \<and> length (floyd_loop compare d n k) = length d \<and>
    mset (take n (floyd_loop compare d n k)) = mset (take n d)"
  using assms
proof (induction k arbitrary: d)
  case (Suc k)
  have "\<forall>j. 0 < j \<and> j < n \<and> k \<le> PARENT j \<and> PARENT j \<noteq> k \<longrightarrow> \<not> compare (d ! j) (d ! PARENT j) < 0"
    using Suc.prems(3) by (auto simp: heap_from_def)
  moreover have "\<forall>c. 0 < c \<and> c < n \<and> PARENT c = k \<and> 0 < k \<and> k \<le> PARENT k \<longrightarrow> \<not> compare (d ! c) (d ! PARENT k) < 0"
    using PARENT_less [of k] by auto
  ultimately have "heap_from compare k (aether_pqueue_heapify_down compare d n k) n \<and>
    length (aether_pqueue_heapify_down compare d n k) = length d \<and>
    drop n (aether_pqueue_heapify_down compare d n k) = drop n d \<and>
    mset (take n (aether_pqueue_heapify_down compare d n k)) = mset (take n d)"
    using Suc.prems by (intro heapify_down_correct) auto
  then show ?case using Suc.IH [of "aether_pqueue_heapify_down compare d n k"] Suc.prems by simp
qed simp

end

subsection \<open>The queue operations\<close>

definition pq_ok :: "(ptr \<Rightarrow> ptr \<Rightarrow> int) \<Rightarrow> PriorityQueue \<Rightarrow> bool" where
  "pq_ok compare pq \<longleftrightarrow> pq_size pq \<le> pq_capacity pq \<and> length (pq_data pq) = pq_capacity pq \<and>
     heap_from compare 0 (pq_data pq) (pq_size pq)"

definition pq_mset :: "PriorityQueue \<Rightarrow> ptr multiset" where
  "pq_mset pq = mset (take (pq_size pq) (pq_data pq))"

lemma heap_from_take: "n \<le> length d \<Longrightarrow> n \<le> length e \<Longrightarrow> take n d = take n e \<Longrightarrow> heap_from compare k d n = heap_from compare k e n"
proof -
  assume h: "n \<le> length d" "n \<le> length e" "take n d = take n e"
  then have "d ! j = e ! j" if "j < n" for j using that by (metis nth_take)
  then show ?thesis by (auto simp: heap_from_def PARENT_less less_trans [OF PARENT_less])
qed

lemma pq_ensure_correct:
  assumes "pq_ok compare q" "aether_pqueue_ensure_capacity alloc q n = (r, p)"
  shows "pq_ok compare p \<and> pq_mset p = pq_mset q \<and> pq_size p = pq_size q \<and> (r \<longrightarrow> n \<le> pq_capacity p) \<and>
    (\<not> r \<longrightarrow> p = q \<and> \<not> alloc (max n (pq_capacity q * 2) * 8))"
proof (cases "pq_capacity q \<ge> n")
  case True
  then show ?thesis using assms by (auto simp: aether_pqueue_ensure_capacity_def)
next
  case False
  define m where "m = (if pq_capacity q * 2 < n then n else pq_capacity q * 2)"
  have m: "pq_size q \<le> m" "n \<le> m" "max n (pq_capacity q * 2) = m" using False assms(1) by (auto simp: m_def pq_ok_def)
  have "heap_from compare 0 (realloc_slots (pq_data q) m) (pq_size q)"
    using assms(1) m heap_from_take [of "pq_size q" "realloc_slots (pq_data q) m" "pq_data q"] by (auto simp: pq_ok_def)
  then show ?thesis using assms False m
    by (auto simp: aether_pqueue_ensure_capacity_def GROWTH_FACTOR_def m_def [symmetric] pq_ok_def pq_mset_def Let_def
        split: if_splits)
qed

context weak_order begin

lemma pq_insert:
  assumes ok: "pq_ok compare q"
  shows "case aether_pqueue_insert alloc compare (Some q) x of (r, w) \<Rightarrow>
    (r \<and> (\<exists>p. w = Some p \<and> pq_ok compare p \<and> pq_mset p = add_mset x (pq_mset q))) \<or>
    (\<not> r \<and> w = Some q \<and> \<not> alloc (max (pq_size q + 1) (pq_capacity q * 2) * 8))"
proof -
  obtain r p where e: "aether_pqueue_ensure_capacity alloc q (Suc (pq_size q)) = (r, p)" by fastforce
  note c = pq_ensure_correct [OF ok e]
  show ?thesis
  proof (cases r)
    case False
    then show ?thesis using c e by (simp add: aether_pqueue_insert_def Let_def)
  next
    case True
    define n where "n = pq_size q"
    define d where "d = (pq_data p)[n := x]"
    have p: "pq_size p = n" "n < length (pq_data p)" "heap_from compare 0 (pq_data p) n" "mset (take n (pq_data p)) = pq_mset q"
      "length (pq_data p) = pq_capacity p"
      using c True by (auto simp: pq_ok_def n_def pq_mset_def)
    have nth: "d ! j = (if j = n then x else pq_data p ! j)" if "j \<le> n" for j using that p(2) by (simp add: d_def nth_list_update)
    have "heap_from compare 0 (aether_pqueue_heapify_up compare d n) (Suc n) \<and>
      length (aether_pqueue_heapify_up compare d n) = length d \<and>
      mset (take (Suc n) (aether_pqueue_heapify_up compare d n)) = mset (take (Suc n) d)"
    proof (rule heapify_up_correct)
      show "\<forall>j. 0 < j \<and> j < Suc n \<and> j \<noteq> n \<longrightarrow> \<not> compare (d ! j) (d ! PARENT j) < 0"
      proof (intro allI impI)
        fix j assume j: "0 < j \<and> j < Suc n \<and> j \<noteq> n"
        then have "PARENT j < n" using PARENT_less [of j] by auto
        then show "\<not> compare (d ! j) (d ! PARENT j) < 0" using p(3) j by (simp add: heap_from_def nth)
      qed
      show "\<forall>j. 0 < j \<and> j < Suc n \<and> PARENT j = n \<and> 0 < n \<longrightarrow> \<not> compare (d ! j) (d ! PARENT n) < 0"
      proof (intro allI impI)
        fix j assume j: "0 < j \<and> j < Suc n \<and> PARENT j = n \<and> 0 < n"
        have "PARENT j < j" using j by (intro PARENT_less) simp
        then show "\<not> compare (d ! j) (d ! PARENT n) < 0" using j by simp
      qed
    qed (use p(2) in \<open>auto simp: d_def\<close>)
    moreover have "take (Suc n) d = take n (pq_data p) @ [x]" using p(2) by (simp add: d_def take_update_snoc)
    ultimately show ?thesis using True e p c
      by (simp add: aether_pqueue_insert_def Let_def pq_ok_def pq_mset_def d_def n_def)
  qed
qed

lemma pq_extract:
  assumes ok: "pq_ok compare q" and ne: "pq_size q \<noteq> 0"
  shows "case aether_pqueue_extract compare (Some q) of (x, w) \<Rightarrow>
    \<exists>p. w = Some p \<and> pq_ok compare p \<and> add_mset x (pq_mset p) = pq_mset q \<and>
      (\<forall>y \<in># pq_mset q. \<not> compare y x < 0)"
proof -
  define n where "n = pq_size q - 1"
  have sz: "pq_size q = Suc n" "n < length (pq_data q)" using ok ne by (auto simp: n_def pq_ok_def)
  have least: "\<forall>y \<in># pq_mset q. \<not> compare y (pq_data q ! 0) < 0"
    using heap_root_least [of "pq_data q" "pq_size q"] ok
    by (auto simp: pq_mset_def pq_ok_def in_set_conv_nth)
  define d where "d = (pq_data q)[0 := pq_data q ! n]"
  have tk: "mset (take (Suc n) (pq_data q)) = add_mset (pq_data q ! 0) (mset (take n d))"
  proof (cases n)
    case 0
    then show ?thesis using sz by (cases "pq_data q") auto
  next
    case (Suc m)
    obtain y ys where y: "pq_data q = y # ys" using sz by (cases "pq_data q") auto
    have "m < length ys" using sz y Suc by simp
    then show ?thesis using Suc y by (simp add: d_def take_Suc_conv_app_nth)
  qed
  show ?thesis
  proof (cases "n = 0")
    case True
    then show ?thesis using ok sz least tk
      by (auto simp: aether_pqueue_extract_def Let_def pq_ok_def pq_mset_def heap_from_def d_def)
  next
    case False
    have nth: "d ! j = (if j = 0 then pq_data q ! n else pq_data q ! j)" if "j < n" for j
    proof -
      have "0 < length (pq_data q)" using sz by linarith
      then show ?thesis by (simp add: d_def nth_list_update)
    qed
    have hp: "\<not> compare (pq_data q ! j) (pq_data q ! PARENT j) < 0" if "0 < j" "j < Suc n" for j
      using ok sz that by (simp add: pq_ok_def heap_from_def)
    have "heap_from compare 0 (aether_pqueue_heapify_down compare d n 0) n \<and>
      length (aether_pqueue_heapify_down compare d n 0) = length d \<and>
      drop n (aether_pqueue_heapify_down compare d n 0) = drop n d \<and>
      mset (take n (aether_pqueue_heapify_down compare d n 0)) = mset (take n d)"
    proof (rule heapify_down_correct)
      show "\<forall>j. 0 < j \<and> j < n \<and> 0 \<le> PARENT j \<and> PARENT j \<noteq> 0 \<longrightarrow> \<not> compare (d ! j) (d ! PARENT j) < 0"
      proof (intro allI impI)
        fix j assume j: "0 < j \<and> j < n \<and> 0 \<le> PARENT j \<and> PARENT j \<noteq> 0"
        then have "PARENT j < n" using PARENT_less [of j] by auto
        then show "\<not> compare (d ! j) (d ! PARENT j) < 0" using hp [of j] j by (auto simp: nth)
      qed
    qed (use False sz in \<open>auto simp: d_def\<close>)
    then show ?thesis using False ok sz least tk
      by (auto simp: aether_pqueue_extract_def Let_def pq_ok_def pq_mset_def d_def)
  qed
qed

lemma pq_from_array:
  assumes "aether_pqueue_from_array alloc xs compare frees clone = Some q"
  shows "pq_ok compare q \<and> pq_mset q = mset (case clone of None \<Rightarrow> xs | Some f \<Rightarrow> map f xs)"
proof -
  define ys where "ys = (case clone of None \<Rightarrow> xs | Some f \<Rightarrow> map f xs)"
  define n where "n = (if length xs < DEFAULT_CAPACITY then DEFAULT_CAPACITY else length xs)"
  define d where "d = ys @ replicate (n - length xs) 0"
  have len: "length ys = length xs" "length xs \<le> n" by (auto simp: ys_def n_def split: option.split)
  have q: "q = \<lparr>pq_data = floyd_loop compare d (length xs) (length xs div 2), pq_size = length xs, pq_capacity = n,
      pq_element_free = frees\<rparr>"
    using assms
    by (auto simp: aether_pqueue_from_array_def aether_pqueue_create_def Let_def n_def [symmetric] ys_def [symmetric]
        d_def [symmetric] split: if_splits)
  have "heap_from compare (length xs div 2) d (length xs)" by (auto simp: heap_from_def PARENT_def)
  then have "heap_from compare 0 (floyd_loop compare d (length xs) (length xs div 2)) (length xs) \<and>
     length (floyd_loop compare d (length xs) (length xs div 2)) = length d \<and>
     mset (take (length xs) (floyd_loop compare d (length xs) (length xs div 2))) = mset (take (length xs) d)"
    using len by (intro floyd_correct) (auto simp: d_def)
  then show ?thesis using len by (simp add: q pq_ok_def pq_mset_def d_def ys_def)
qed

end

text \<open>The comparison functions of the library are weak orders.\<close>

interpretation int_min: weak_order aether_pqueue_compare_int_min
  by unfold_locales (auto simp: aether_pqueue_compare_int_min_def Let_def split: if_splits)

interpretation int_max: weak_order aether_pqueue_compare_int_max
  by unfold_locales (auto simp: aether_pqueue_compare_int_max_def aether_pqueue_compare_int_min_def Let_def split: if_splits)

text \<open>Inserting into a heap-ordered queue, for any comparison that is a weak order, either adds the element and keeps the heap order or fails because the allocator refused, leaving the queue unchanged.\<close>

theorem pqueue_insert_correct:
  assumes "weak_order compare" "pq_ok compare q"
  shows "case aether_pqueue_insert alloc compare (Some q) x of (r, w) \<Rightarrow>
    (r \<and> (\<exists>p. w = Some p \<and> pq_ok compare p \<and> pq_mset p = add_mset x (pq_mset q))) \<or>
    (\<not> r \<and> w = Some q \<and> \<not> alloc (max (pq_size q + 1) (pq_capacity q * 2) * 8))"
  using assms by (rule weak_order.pq_insert)

text \<open>C18. Extracting from a non-empty heap-ordered queue removes and returns an element that no other precedes, and keeps the heap order.\<close>

theorem pqueue_extract_correct:
  assumes "weak_order compare" "pq_ok compare q" "pq_size q \<noteq> 0"
  shows "case aether_pqueue_extract compare (Some q) of (x, w) \<Rightarrow>
    \<exists>p. w = Some p \<and> pq_ok compare p \<and> add_mset x (pq_mset p) = pq_mset q \<and>
      (\<forall>y \<in># pq_mset q. \<not> compare y x < 0)"
  using assms by (rule weak_order.pq_extract)

text \<open>Building a queue from an array by Floyd's bottom-up heapify gives a heap-ordered queue of exactly the array's (cloned) elements.\<close>

theorem pqueue_from_array_correct:
  assumes "weak_order compare" "aether_pqueue_from_array alloc xs compare frees clone = Some q"
  shows "pq_ok compare q \<and> pq_mset q = mset (case clone of None \<Rightarrow> xs | Some f \<Rightarrow> map f xs)"
  using assms by (rule weak_order.pq_from_array)

definition pq_example :: PriorityQueue where
  "pq_example = \<lparr>pq_data = [2, 5, 3, 0], pq_size = 3, pq_capacity = 4, pq_element_free = False\<rparr>"

lemma pq_example_ok: "pq_ok aether_pqueue_compare_int_min pq_example"
proof -
  have "\<not> aether_pqueue_compare_int_min ([2, 5, 3, 0] ! j) ([2, 5, 3, 0] ! PARENT j) < 0" if j: "0 < j" "j < 3" for j
  proof -
    from j consider "j = 1" | "j = 2" by linarith
    then show ?thesis
      by cases (simp_all add: PARENT_def aether_pqueue_compare_int_min_def signed_take_bit_eq_take_bit_shift take_bit_eq_mod)
  qed
  then show ?thesis by (simp add: pq_ok_def pq_example_def heap_from_def)
qed

theorem pqueue_insert_correct_witness:
  "\<exists>p. snd (aether_pqueue_insert (\<lambda>_. True) aether_pqueue_compare_int_min (Some pq_example) 1) = Some p \<and>
     pq_ok aether_pqueue_compare_int_min p \<and> pq_mset p = {#1, 2, 5, 3#}"
  using pqueue_insert_correct [OF int_min.weak_order_axioms pq_example_ok, where alloc = "\<lambda>_. True" and x = 1]
  by (auto simp: pq_mset_def pq_example_def add_mset_commute)

theorem pqueue_extract_correct_witness:
  "fst (aether_pqueue_extract aether_pqueue_compare_int_min (Some pq_example)) \<in># {#2, 5, 3#}"
proof -
  obtain x w where xw: "aether_pqueue_extract aether_pqueue_compare_int_min (Some pq_example) = (x, w)" by fastforce
  have "pq_size pq_example \<noteq> 0" by (simp add: pq_example_def)
  from pqueue_extract_correct [OF int_min.weak_order_axioms pq_example_ok this]
  obtain p where "add_mset x (pq_mset p) = pq_mset pq_example" unfolding xw by auto
  moreover have "pq_mset pq_example = {#2, 5, 3#}" by (simp add: pq_mset_def pq_example_def add_mset_commute)
  ultimately have "x \<in># {#2, 5, 3#}" by (metis union_single_eq_member)
  then show ?thesis by (simp only: xw fst_conv)
qed

theorem pqueue_from_array_correct_witness:
  "\<exists>q. aether_pqueue_from_array (\<lambda>_. True) [9, 4] aether_pqueue_compare_int_min False None = Some q \<and> pq_mset q = {#9, 4#}"
proof -
  obtain q where q: "aether_pqueue_from_array (\<lambda>_. True) [9, 4] aether_pqueue_compare_int_min False None = Some q"
    by (simp add: aether_pqueue_from_array_def aether_pqueue_create_def Let_def)
  from pqueue_from_array_correct [OF int_min.weak_order_axioms q] q show ?thesis by (auto simp: add_mset_commute)
qed

end
