(* ===== verification/AetherMap.thy ===== *)
theory AetherMap
  imports AetherArrays
begin

section \<open>The chained hash map of the Aether library\<close>

text \<open>
  Models the hash map of \<^verbatim>\<open>aether/std/collections/aether_collections.c\<close>: an array
  of buckets, each a linked list of entries with the key's hash and length cached, doubled when the
  load passes 3/4.  A bucket is the list of its entries from the head.  Keys are the bytes of a C
  string; values are pointers.  \<open>alloc\<close> is as in \<open>AetherArrays\<close>.  The cached length is the 32-bit
  truncation of the key's length and the doubled capacity wraps at 32 bits; keys shorter than \<open>2 ^ 32\<close> bytes are compared
  exactly, and a capacity past the \<^verbatim>\<open>int\<close>s is refused by \<^verbatim>\<open>calloc\<close>.  The number of entries is the \<^verbatim>\<open>int\<close> size
  while it is below \<open>2 ^ 31\<close>.

  The abstraction of a map is the partial function \<open>map_abs\<close> from keys to values; the
  interface shared with the other map of the library is the locale \<open>map_interface\<close>.
\<close>

subsection \<open>Operations\<close>

definition HASHMAP_INITIAL_CAPACITY :: nat where
  "HASHMAP_INITIAL_CAPACITY = 16"

definition HASHMAP_LOAD_NUMERATOR :: nat where
  "HASHMAP_LOAD_NUMERATOR = 3"

definition HASHMAP_LOAD_DENOMINATOR :: nat where
  "HASHMAP_LOAD_DENOMINATOR = 4"

record HashMapEntry =
  me_key :: bytes
  me_value :: ptr
  me_hash :: nat
  me_key_len :: nat

record ChainedMap =
  buckets :: "HashMapEntry list list"
  cm_capacity :: nat
  cm_size :: nat

definition hash_cstr_len :: "bytes \<Rightarrow> nat \<times> nat" where
  "hash_cstr_len key = (foldl (\<lambda>hash c. ((hash * 2 ^ 5) mod 2 ^ 32 + hash + c) mod 2 ^ 32) 5381 key, length key mod 2 ^ 32)"

definition key_equals :: "HashMapEntry \<Rightarrow> bytes \<Rightarrow> nat \<Rightarrow> bool" where
  "key_equals e b b_len = (if me_key_len e \<noteq> b_len then False else take b_len (me_key e) = take b_len b)"

definition map_new :: "(nat \<Rightarrow> bool) \<Rightarrow> ChainedMap option" where
  "map_new alloc =
     (if \<not> alloc 16 then None
      else if \<not> alloc (HASHMAP_INITIAL_CAPACITY * 8) then None
      else Some \<lparr>buckets = replicate HASHMAP_INITIAL_CAPACITY [], cm_capacity = HASHMAP_INITIAL_CAPACITY, cm_size = 0\<rparr>)"

definition move_entry :: "nat \<Rightarrow> HashMapEntry list list \<Rightarrow> HashMapEntry \<Rightarrow> HashMapEntry list list" where
  "move_entry cap bs entry = (let index = me_hash entry mod cap in bs[index := entry # bs ! index])"

definition map_resize :: "(nat \<Rightarrow> bool) \<Rightarrow> ChainedMap \<Rightarrow> ChainedMap" where
  "map_resize alloc m =
     (let new_capacity = signed_take_bit 31 (int (cm_capacity m) * 2)
      in if new_capacity < 0 \<or> \<not> alloc (nat new_capacity * 8) then m
         else m\<lparr>cm_capacity := nat new_capacity,
                buckets := foldl (foldl (move_entry (nat new_capacity))) (replicate (nat new_capacity) []) (buckets m)\<rparr>)"

fun bucket_find :: "HashMapEntry list \<Rightarrow> nat \<Rightarrow> bytes \<Rightarrow> nat \<Rightarrow> HashMapEntry option" where
  "bucket_find [] hash key key_len = None"
| "bucket_find (entry # next) hash key key_len =
     (if me_hash entry = hash \<and> key_equals entry key key_len then Some entry else bucket_find next hash key key_len)"

fun bucket_update :: "HashMapEntry list \<Rightarrow> nat \<Rightarrow> bytes \<Rightarrow> nat \<Rightarrow> ptr \<Rightarrow> HashMapEntry list option" where
  "bucket_update [] hash key key_len value = None"
| "bucket_update (entry # next) hash key key_len value =
     (if me_hash entry = hash \<and> key_equals entry key key_len then Some (entry\<lparr>me_value := value\<rparr> # next)
      else map_option (Cons entry) (bucket_update next hash key key_len value))"

text \<open>An entry and an \<^verbatim>\<open>AetherString\<close> have 32 bytes each; \<^verbatim>\<open>string_new\<close> copies the key with its terminator.\<close>

definition sizeof_HashMapEntry :: nat where
  "sizeof_HashMapEntry = 32"

definition string_new_granted :: "(nat \<Rightarrow> bool) \<Rightarrow> bytes \<Rightarrow> bool" where
  "string_new_granted alloc key \<longleftrightarrow> alloc 32 \<and> alloc (length key + 1)"

definition map_put_raw ::
    "(nat \<Rightarrow> bool) \<Rightarrow> ChainedMap option \<Rightarrow> bytes option \<Rightarrow> ptr \<Rightarrow> int \<times> ChainedMap option" where
  "map_put_raw alloc mo ko value =
     (case (mo, ko) of
        (Some m0, Some key) \<Rightarrow>
          let m = (if cm_size m0 * HASHMAP_LOAD_DENOMINATOR > cm_capacity m0 * HASHMAP_LOAD_NUMERATOR
                   then map_resize alloc m0 else m0);
              hash = fst (hash_cstr_len key); key_len = snd (hash_cstr_len key);
              index = hash mod cm_capacity m; bucket = buckets m ! index
          in (case bucket_update bucket hash key key_len value of
                Some b \<Rightarrow> (1, Some (m\<lparr>buckets := (buckets m)[index := b]\<rparr>))
              | None \<Rightarrow>
                  if \<not> alloc sizeof_HashMapEntry then (0, Some m)
                  else if \<not> string_new_granted alloc key then (0, Some m)
                  else (1, Some (m\<lparr>buckets := (buckets m)[index :=
                             \<lparr>me_key = key, me_value = value, me_hash = hash, me_key_len = key_len\<rparr> # bucket],
                           cm_size := cm_size m + 1\<rparr>)))
      | _ \<Rightarrow> (0, mo))"

definition map_get_raw :: "ChainedMap option \<Rightarrow> bytes option \<Rightarrow> ptr" where
  "map_get_raw mo ko =
     (case (mo, ko) of
        (Some m, Some key) \<Rightarrow>
          let hash = fst (hash_cstr_len key); key_len = snd (hash_cstr_len key); index = hash mod cm_capacity m
          in (case bucket_find (buckets m ! index) hash key key_len of Some e \<Rightarrow> me_value e | None \<Rightarrow> 0)
      | _ \<Rightarrow> 0)"

definition map_has :: "ChainedMap option \<Rightarrow> bytes option \<Rightarrow> bool" where
  "map_has mo ko \<longleftrightarrow> map_get_raw mo ko \<noteq> 0"

fun bucket_unlink :: "HashMapEntry list \<Rightarrow> nat \<Rightarrow> bytes \<Rightarrow> nat \<Rightarrow> HashMapEntry list option" where
  "bucket_unlink [] hash key key_len = None"
| "bucket_unlink (entry # next) hash key key_len =
     (if me_hash entry = hash \<and> key_equals entry key key_len then Some next
      else map_option (Cons entry) (bucket_unlink next hash key key_len))"

definition map_remove :: "ChainedMap option \<Rightarrow> bytes option \<Rightarrow> ChainedMap option" where
  "map_remove mo ko =
     (case (mo, ko) of
        (Some m, Some key) \<Rightarrow>
          let hash = fst (hash_cstr_len key); key_len = snd (hash_cstr_len key); index = hash mod cm_capacity m
          in (case bucket_unlink (buckets m ! index) hash key key_len of
                None \<Rightarrow> Some m
              | Some b \<Rightarrow> Some (m\<lparr>buckets := (buckets m)[index := b], cm_size := cm_size m - 1\<rparr>))
      | _ \<Rightarrow> mo)"

definition map_size :: "ChainedMap option \<Rightarrow> nat" where
  "map_size mo = (case mo of None \<Rightarrow> 0 | Some m \<Rightarrow> cm_size m)"

definition map_clear :: "ChainedMap option \<Rightarrow> ChainedMap option" where
  "map_clear mo =
     (case mo of None \<Rightarrow> None | Some m \<Rightarrow> Some (m\<lparr>buckets := map (\<lambda>_. []) (buckets m), cm_size := 0\<rparr>))"

definition map_keys_raw :: "(nat \<Rightarrow> bool) \<Rightarrow> ChainedMap option \<Rightarrow> bytes list option" where
  "map_keys_raw alloc mo =
     (case mo of None \<Rightarrow> None
      | Some m \<Rightarrow>
          if \<not> alloc 16 then None
          else if cm_size m = 0 then Some []
          else if \<not> alloc (cm_size m * 8) then None
          else Some (concat (map (map me_key) (buckets m))))"

subsection \<open>Invariant and abstraction\<close>

definition entry_wf :: "HashMapEntry \<Rightarrow> bool" where
  "entry_wf e \<longleftrightarrow> me_hash e = fst (hash_cstr_len (me_key e)) \<and> me_key_len e = length (me_key e) \<and> length (me_key e) < 2 ^ 32"

definition entry_in :: "nat \<Rightarrow> nat \<Rightarrow> HashMapEntry \<Rightarrow> bool" where
  "entry_in cap i e \<longleftrightarrow> entry_wf e \<and> me_hash e mod cap = i"

definition map_ok :: "ChainedMap \<Rightarrow> bool" where
  "map_ok m \<longleftrightarrow> 0 < cm_capacity m \<and> cm_capacity m < 2 ^ 31 \<and> length (buckets m) = cm_capacity m \<and>
     (\<forall>i < cm_capacity m. list_all (entry_in (cm_capacity m) i) (buckets m ! i)) \<and>
     (\<forall>i < cm_capacity m. distinct (map me_key (buckets m ! i))) \<and>
     cm_size m = sum_list (map length (buckets m))"

definition bucket_map :: "HashMapEntry list \<Rightarrow> bytes \<Rightarrow> ptr option" where
  "bucket_map b = map_of (map (\<lambda>e. (me_key e, me_value e)) b)"

definition map_abs :: "ChainedMap \<Rightarrow> bytes \<Rightarrow> ptr option" where
  "map_abs m key = bucket_map (buckets m ! (fst (hash_cstr_len key) mod cm_capacity m)) key"

lemma snd_hash_cstr_len: "length key < 2 ^ 32 \<Longrightarrow> snd (hash_cstr_len key) = length key"
  by (simp add: hash_cstr_len_def)

lemma key_match:
  "entry_in cap i e \<Longrightarrow> length key < 2 ^ 32 \<Longrightarrow>
     me_hash e = fst (hash_cstr_len key) \<and> key_equals e key (snd (hash_cstr_len key)) \<longleftrightarrow> me_key e = key"
  by (auto simp: entry_in_def entry_wf_def key_equals_def hash_cstr_len_def)

lemma bucket_find_map:
  "list_all (entry_in cap i) b \<Longrightarrow> length key < 2 ^ 32 \<Longrightarrow>
     map_option me_value (bucket_find b (fst (hash_cstr_len key)) key (snd (hash_cstr_len key))) = bucket_map b key"
proof (induction b)
  case (Cons e b)
  then have "me_hash e = fst (hash_cstr_len key) \<and> key_equals e key (snd (hash_cstr_len key)) \<longleftrightarrow> me_key e = key"
    by (intro key_match [of cap i]) simp_all
  with Cons show ?case by (cases "me_key e = key") (auto simp: bucket_map_def)
qed (simp add: bucket_map_def)

lemma bucket_update_map:
  assumes "list_all (entry_in cap i) b" "length key < 2 ^ 32"
  shows "case bucket_update b (fst (hash_cstr_len key)) key (snd (hash_cstr_len key)) v of
      None \<Rightarrow> bucket_map b key = None
    | Some b' \<Rightarrow> bucket_map b' = (bucket_map b)(key \<mapsto> v) \<and> map me_key b' = map me_key b \<and> list_all (entry_in cap i) b' \<and>
        length b' = length b"
  using assms(1)
proof (induction b)
  case (Cons e b)
  have e: "entry_in cap i (e\<lparr>me_value := v\<rparr>)" using Cons.prems by (auto simp: entry_in_def entry_wf_def)
  show ?case using Cons e key_match [of cap i e key] assms(2)
    by (auto simp: bucket_map_def fun_eq_iff split: option.splits)
qed (simp add: bucket_map_def)

lemma bucket_unlink_map:
  assumes "list_all (entry_in cap i) b" "distinct (map me_key b)" "length key < 2 ^ 32"
  shows "case bucket_unlink b (fst (hash_cstr_len key)) key (snd (hash_cstr_len key)) of
      None \<Rightarrow> bucket_map b key = None
    | Some b' \<Rightarrow> bucket_map b' = (bucket_map b)(key := None) \<and> set b' \<subseteq> set b \<and> distinct (map me_key b') \<and>
        Suc (length b') = length b"
  using assms(1,2)
proof (induction b)
  case (Cons e b)
  have none: "map_of (map (\<lambda>e. (me_key e, me_value e)) b) (me_key e) = None" using Cons.prems(2)
    by (auto simp: map_of_eq_None_iff)
  show ?case using Cons none key_match [of cap i e key] assms(3)
    by (auto simp: bucket_map_def fun_eq_iff split: option.splits)
qed (simp add: bucket_map_def)

lemma map_get_abs:
  assumes "map_ok m" "length key < 2 ^ 32"
  shows "map_get_raw (Some m) (Some key) = (case map_abs m key of None \<Rightarrow> 0 | Some v \<Rightarrow> v)"
proof -
  let ?i = "fst (hash_cstr_len key) mod cm_capacity m"
  have "list_all (entry_in (cm_capacity m) ?i) (buckets m ! ?i)" using assms by (simp add: map_ok_def)
  from bucket_find_map [OF this assms(2)] show ?thesis
    by (auto simp: map_get_raw_def map_abs_def Let_def split: option.splits)
qed

text \<open>Replacing one bucket.\<close>

lemma map_abs_bucket:
  assumes "map_ok m" "i < cm_capacity m"
    and "\<And>k. fst (hash_cstr_len k) mod cm_capacity m = i \<Longrightarrow> bucket_map b k = f k"
    and "\<And>k. fst (hash_cstr_len k) mod cm_capacity m \<noteq> i \<Longrightarrow> map_abs m k = f k"
  shows "map_abs (m\<lparr>buckets := (buckets m)[i := b], cm_size := n\<rparr>) = f"
  using assms by (auto simp: map_abs_def fun_eq_iff nth_list_update map_ok_def)

lemma sum_list_length_update:
  "i < length bs \<Longrightarrow> sum_list (map length (bs[i := b])) + length (bs ! i) = sum_list (map length bs) + length b"
  for bs :: "'a list list"
proof (induction bs arbitrary: i)
  case (Cons x bs)
  then show ?case by (cases i) auto
qed simp

lemma map_ok_bucket:
  assumes "map_ok m" "i < cm_capacity m" "list_all (entry_in (cm_capacity m) i) b" "distinct (map me_key b)"
    "n + length (buckets m ! i) = cm_size m + length b"
  shows "map_ok (m\<lparr>buckets := (buckets m)[i := b], cm_size := n\<rparr>)"
proof -
  have "sum_list (map length ((buckets m)[i := b])) = n"
    using sum_list_length_update [of i "buckets m" b] assms by (simp add: map_ok_def)
  then show ?thesis using assms by (auto simp: map_ok_def nth_list_update)
qed

subsection \<open>Resizing\<close>

definition part_ok :: "nat \<Rightarrow> HashMapEntry list list \<Rightarrow> HashMapEntry list \<Rightarrow> bool" where
  "part_ok cap bs es \<longleftrightarrow> length bs = cap \<and>
     (\<forall>i < cap. list_all (entry_in cap i) (bs ! i) \<and> distinct (map me_key (bs ! i))
        \<and> set (bs ! i) = {e \<in> set es. me_hash e mod cap = i}) \<and>
     sum_list (map length bs) = length es"

lemma move_entry_part:
  assumes "part_ok cap bs es" "0 < cap" "entry_wf e"
    "me_key e \<notin> me_key ` set es"
  shows "part_ok cap (move_entry cap bs e) (e # es)"
proof -
  let ?i = "me_hash e mod cap"
  have i: "?i < cap" "length bs = cap" using assms by (auto simp: part_ok_def)
  have "sum_list (map length (bs[?i := e # bs ! ?i])) = Suc (length es)"
    using sum_list_length_update [of ?i bs "e # bs ! ?i"] assms(1) i by (simp add: part_ok_def)
  moreover have "me_key e \<notin> me_key ` set (bs ! ?i)" using assms(1,4) i by (auto simp: part_ok_def)
  ultimately show ?thesis using assms i
    by (auto simp: part_ok_def move_entry_def Let_def nth_list_update entry_in_def)
qed

lemma move_all_part:
  "part_ok cap bs ds \<Longrightarrow> 0 < cap \<Longrightarrow> \<forall>e \<in> set es. entry_wf e \<Longrightarrow>
     distinct (map me_key (es @ ds)) \<Longrightarrow> part_ok cap (foldl (move_entry cap) bs es) (rev es @ ds)"
proof (induction es arbitrary: bs ds)
  case (Cons e es)
  then have "part_ok cap (move_entry cap bs e) (e # ds)" by (intro move_entry_part) auto
  from Cons.IH [OF this] Cons.prems show ?case by auto
qed simp

lemma foldl_foldl_concat: "foldl (foldl f) a xss = foldl f a (concat xss)"
  by (induction xss arbitrary: a) auto

lemma entry_bucket: "map_ok m \<Longrightarrow> i < cm_capacity m \<Longrightarrow> e \<in> set (buckets m ! i) \<Longrightarrow> entry_in (cm_capacity m) i e"
  by (simp add: map_ok_def list_all_iff)

lemma entry_home:
  "map_ok m \<Longrightarrow> i < cm_capacity m \<Longrightarrow> e \<in> set (buckets m ! i) \<Longrightarrow>
     fst (hash_cstr_len (me_key e)) mod cm_capacity m = i"
  using entry_bucket [of m i e] by (auto simp: entry_in_def entry_wf_def)

lemma in_concat_buckets: "map_ok m \<Longrightarrow> e \<in> set (concat (buckets m)) \<longleftrightarrow> (\<exists>i < cm_capacity m. e \<in> set (buckets m ! i))"
proof -
  assume "map_ok m"
  then have "length (buckets m) = cm_capacity m" by (simp add: map_ok_def)
  then have "set (buckets m) = (\<lambda>i. buckets m ! i) ` {..<cm_capacity m}" by (auto simp: set_conv_nth)
  then show ?thesis by auto
qed

lemma map_ok_distinct:
  assumes "map_ok m"
  shows "distinct (map me_key (concat (buckets m)))"
proof -
  have "distinct (map me_key (concat (take n (buckets m))))" if "n \<le> cm_capacity m" for n
    using that
  proof (induction n)
    case (Suc n)
    have idx: "fst (hash_cstr_len (me_key e)) mod cm_capacity m = i" if "i < cm_capacity m" "e \<in> set (buckets m ! i)" for i e
      using entry_home [OF assms that] .
    have "me_key e \<noteq> me_key e'" if c: "e \<in> set (concat (take n (buckets m)))" and e': "e' \<in> set (buckets m ! n)" for e e'
    proof -
      obtain b where b: "b \<in> set (take n (buckets m))" "e \<in> set b" using c unfolding set_concat by blast
      then obtain i where "i < n" "e \<in> set (buckets m ! i)" by (auto simp: in_set_conv_nth [of b])
      then show ?thesis using idx [of i e] idx [of n e'] e' Suc.prems by auto
    qed
    moreover have "n < length (buckets m)" "distinct (map me_key (buckets m ! n))"
      using assms Suc.prems by (auto simp: map_ok_def)
    ultimately show ?case using Suc by (auto simp: take_Suc_conv_app_nth)
  qed simp
  from this [of "cm_capacity m"] assms show ?thesis by (simp add: map_ok_def)
qed

lemma bucket_map_set:
  assumes "distinct (map me_key b)" "distinct (map me_key c)" "\<And>e. me_key e = k \<Longrightarrow> e \<in> set b \<longleftrightarrow> e \<in> set c"
  shows "bucket_map b k = bucket_map c k"
proof -
  have "bucket_map b k = Some v \<longleftrightarrow> bucket_map c k = Some v" for v
    using assms unfolding bucket_map_def
    by (subst (1 2) map_of_eq_Some_iff) (auto simp: comp_def)
  then show ?thesis by (metis option.exhaust)
qed

lemma new_capacity_id: "c < 2 ^ 30 \<Longrightarrow> signed_take_bit 31 (int c * 2) = int (c * 2)"
  using double_id [of "int c"] by simp

lemma map_resize_correct:
  assumes ok: "map_ok m"
  shows "map_ok (map_resize alloc m) \<and> map_abs (map_resize alloc m) = map_abs m"
proof (cases "cm_capacity m < 2 ^ 30 \<and> alloc (cm_capacity m * 2 * 8)")
  case False
  have "map_resize alloc m = m"
  proof (cases "cm_capacity m < 2 ^ 30")
    case True
    then show ?thesis using False new_capacity_id [OF True] by (simp add: map_resize_def Let_def nat_mult_distrib mult.assoc)
  next
    case big: False
    then show ?thesis using ok double_wraps [of "int (cm_capacity m)"] by (simp add: map_resize_def Let_def map_ok_def)
  qed
  then show ?thesis using ok by simp
next
  case True
  define cap where "cap = cm_capacity m * 2"
  define es where "es = concat (buckets m)"
  define bs where "bs = foldl (move_entry cap) (replicate cap []) es"
  have m': "map_resize alloc m = m\<lparr>cm_capacity := cap, buckets := bs\<rparr>"
    using True new_capacity_id [of "cm_capacity m"] by (simp add: map_resize_def Let_def cap_def bs_def es_def foldl_foldl_concat nat_mult_distrib mult.assoc)
  have cap: "0 < cap" "cap < 2 ^ 31" "0 < cm_capacity m" using ok True by (auto simp: cap_def map_ok_def)
  have ent: "\<forall>e \<in> set es. entry_wf e"
  proof
    fix e assume "e \<in> set es"
    then obtain i where "i < cm_capacity m" "e \<in> set (buckets m ! i)"
      using in_concat_buckets [OF ok] by (auto simp: es_def)
    then show "entry_wf e"
      using entry_bucket [OF ok] by (auto simp: entry_in_def)
  qed
  have "part_ok cap (replicate cap []) []" by (auto simp: part_ok_def sum_list_replicate)
  from move_all_part [OF this cap(1) ent] have p: "part_ok cap bs (rev es)"
    using map_ok_distinct [OF ok] by (simp add: bs_def es_def)
  have "cm_size m = length es" using ok by (simp add: map_ok_def es_def length_concat)
  then have "map_ok (map_resize alloc m)" using p cap by (auto simp: m' map_ok_def part_ok_def)
  moreover have "map_abs (map_resize alloc m) k = map_abs m k" for k
  proof -
    let ?i = "fst (hash_cstr_len k) mod cap" and ?j = "fst (hash_cstr_len k) mod cm_capacity m"
    have "e \<in> set (bs ! ?i) \<longleftrightarrow> e \<in> set (buckets m ! ?j)" if "me_key e = k" for e
    proof -
      have "e \<in> set (bs ! ?i) \<longleftrightarrow> e \<in> set es" using p cap that ent by (auto simp: part_ok_def entry_wf_def)
      also have "\<dots> \<longleftrightarrow> e \<in> set (buckets m ! ?j)"
      proof
        assume "e \<in> set es"
        then obtain i where i: "i < cm_capacity m" "e \<in> set (buckets m ! i)"
          using in_concat_buckets [OF ok] by (auto simp: es_def)
        then have "i = ?j" using entry_home [OF ok i] that by simp
        then show "e \<in> set (buckets m ! ?j)" using i by simp
      next
        assume "e \<in> set (buckets m ! ?j)"
        then show "e \<in> set es" unfolding es_def in_concat_buckets [OF ok] using cap(3) by (intro exI [of _ ?j]) simp
      qed
      finally show ?thesis .
    qed
    then show ?thesis unfolding map_abs_def m'
      by (auto intro!: bucket_map_set) (use p cap ok in \<open>auto simp: part_ok_def map_ok_def\<close>)
  qed
  ultimately show ?thesis by blast
qed


subsection \<open>Put and remove\<close>

lemma map_put_correct:
  assumes ok: "map_ok m" and key: "length key < 2 ^ 32"
  shows "case map_put_raw alloc (Some m) (Some key) v of (r, mo) \<Rightarrow> \<exists>m'. mo = Some m' \<and> map_ok m' \<and>
    (r = 1 \<and> map_abs m' = (map_abs m)(key \<mapsto> v) \<or>
     r = 0 \<and> map_abs m' = map_abs m \<and> map_abs m key = None \<and> \<not> (alloc 32 \<and> alloc (length key + 1)))"
proof -
  define m1 where "m1 = (if cm_size m * HASHMAP_LOAD_DENOMINATOR > cm_capacity m * HASHMAP_LOAD_NUMERATOR
                   then map_resize alloc m else m)"
  have ok1: "map_ok m1" and abs1: "map_abs m1 = map_abs m" using map_resize_correct [OF ok] ok by (auto simp: m1_def)
  define h i where "h = fst (hash_cstr_len key)" and "i = fst (hash_cstr_len key) mod cm_capacity m1"
  define b where "b = buckets m1 ! i"
  have i: "i < cm_capacity m1" using ok1 by (simp add: i_def map_ok_def)
  have b: "list_all (entry_in (cm_capacity m1) i) b" "distinct (map me_key b)" using ok1 i by (auto simp: map_ok_def b_def)
  have absb: "map_abs m1 k = bucket_map b k" if "fst (hash_cstr_len k) mod cm_capacity m1 = i" for k
    using that by (simp add: map_abs_def b_def)
  note upd = bucket_update_map [OF b(1) key, of v]
  show ?thesis
  proof (cases "bucket_update b (fst (hash_cstr_len key)) key (snd (hash_cstr_len key)) v")
    case (Some b')
    then have b': "bucket_map b' = (bucket_map b)(key \<mapsto> v)" "map me_key b' = map me_key b"
      "list_all (entry_in (cm_capacity m1) i) b'" "length b' = length b" using upd by auto
    have put: "map_put_raw alloc (Some m) (Some key) v = (1, Some (m1\<lparr>buckets := (buckets m1)[i := b'], cm_size := cm_size m1\<rparr>))"
      using Some by (simp add: map_put_raw_def Let_def m1_def [symmetric] i_def [symmetric] b_def [symmetric])
    have "map_ok (m1\<lparr>buckets := (buckets m1)[i := b'], cm_size := cm_size m1\<rparr>)"
      by (rule map_ok_bucket [OF ok1 i b'(3)]) (use b b' b_def in auto)
    moreover have "map_abs (m1\<lparr>buckets := (buckets m1)[i := b'], cm_size := cm_size m1\<rparr>) = (map_abs m1)(key \<mapsto> v)"
      by (rule map_abs_bucket [OF ok1 i]) (auto simp: b'(1) absb i_def)
    ultimately show ?thesis using put abs1 by simp
  next
    case None
    then have new: "bucket_map b key = None" using upd by simp
    then have abs0: "map_abs m key = None" using absb [of key] abs1 by (simp add: i_def)
    define e where "e = \<lparr>me_key = key, me_value = v, me_hash = fst (hash_cstr_len key), me_key_len = snd (hash_cstr_len key)\<rparr>"
    show ?thesis
    proof (cases "alloc 32 \<and> alloc (length key + 1)")
      case False
      then have "map_put_raw alloc (Some m) (Some key) v = (0, Some m1)"
        using None by (auto simp: map_put_raw_def Let_def m1_def [symmetric] i_def [symmetric] b_def [symmetric]
            sizeof_HashMapEntry_def string_new_granted_def)
      then show ?thesis using False ok1 abs1 abs0 by auto
    next
      case True
      then have put: "map_put_raw alloc (Some m) (Some key) v =
          (1, Some (m1\<lparr>buckets := (buckets m1)[i := e # b], cm_size := cm_size m1 + 1\<rparr>))"
        using None by (simp add: map_put_raw_def Let_def m1_def [symmetric] i_def [symmetric] b_def [symmetric] e_def
            sizeof_HashMapEntry_def string_new_granted_def)
      have "key \<notin> me_key ` set b" using new by (auto simp: bucket_map_def map_of_eq_None_iff image_image)
      then have "map_ok (m1\<lparr>buckets := (buckets m1)[i := e # b], cm_size := cm_size m1 + 1\<rparr>)"
        by (intro map_ok_bucket [OF ok1 i]) (use b key in \<open>auto simp: e_def entry_in_def entry_wf_def i_def b_def snd_hash_cstr_len\<close>)
      moreover have "map_abs (m1\<lparr>buckets := (buckets m1)[i := e # b], cm_size := cm_size m1 + 1\<rparr>) = (map_abs m1)(key \<mapsto> v)"
        by (rule map_abs_bucket [OF ok1 i]) (auto simp: absb i_def e_def bucket_map_def)
      ultimately show ?thesis using put abs1 by simp
    qed
  qed
qed

lemma map_remove_correct:
  assumes ok: "map_ok m" and key: "length key < 2 ^ 32"
  shows "\<exists>m'. map_remove (Some m) (Some key) = Some m' \<and> map_ok m' \<and> map_abs m' = (map_abs m)(key := None)"
proof -
  define i where "i = fst (hash_cstr_len key) mod cm_capacity m"
  define b where "b = buckets m ! i"
  have i: "i < cm_capacity m" using ok by (simp add: i_def map_ok_def)
  have b: "list_all (entry_in (cm_capacity m) i) b" "distinct (map me_key b)" using ok i by (auto simp: map_ok_def b_def)
  have absb: "map_abs m k = bucket_map b k" if "fst (hash_cstr_len k) mod cm_capacity m = i" for k
    using that by (simp add: map_abs_def b_def)
  note un = bucket_unlink_map [OF b key]
  show ?thesis
  proof (cases "bucket_unlink b (fst (hash_cstr_len key)) key (snd (hash_cstr_len key))")
    case None
    then have "map_abs m key = None" using un absb [of key] by (simp add: i_def)
    then have "(map_abs m)(key := None) = map_abs m" by auto
    then show ?thesis using None ok by (simp add: map_remove_def Let_def i_def [symmetric] b_def [symmetric])
  next
    case (Some b')
    then have b': "bucket_map b' = (bucket_map b)(key := None)" "set b' \<subseteq> set b" "distinct (map me_key b')"
      "Suc (length b') = length b" using un by auto
    have sz: "length b \<le> cm_size m"
      using sum_list_length_update [of i "buckets m" "[]"] ok i by (simp add: b_def map_ok_def)
    have "list_all (entry_in (cm_capacity m) i) b'" using b(1) b'(2) by (auto simp: list_all_iff)
    then have "map_ok (m\<lparr>buckets := (buckets m)[i := b'], cm_size := cm_size m - 1\<rparr>)"
      by (intro map_ok_bucket [OF ok i]) (use b' sz b_def in auto)
    moreover have "map_abs (m\<lparr>buckets := (buckets m)[i := b'], cm_size := cm_size m - 1\<rparr>) = (map_abs m)(key := None)"
      by (rule map_abs_bucket [OF ok i]) (auto simp: b'(1) absb i_def)
    ultimately show ?thesis using Some by (simp add: map_remove_def Let_def i_def [symmetric] b_def [symmetric])
  qed
qed

lemma map_new_correct: "map_new alloc = Some m \<Longrightarrow> map_ok m \<and> map_abs m = Map.empty"
  by (auto simp: map_new_def map_ok_def map_abs_def HASHMAP_INITIAL_CAPACITY_def bucket_map_def fun_eq_iff split: if_splits)

lemma map_clear_correct: "map_ok m \<Longrightarrow> \<exists>m'. map_clear (Some m) = Some m' \<and> map_ok m' \<and> map_abs m' = Map.empty"
  by (auto simp: map_clear_def map_ok_def map_abs_def bucket_map_def fun_eq_iff)

subsection \<open>The map interface\<close>

locale map_interface =
  fixes inv :: "'m \<Rightarrow> bool" and abs :: "'m \<Rightarrow> 'k \<Rightarrow> ptr option"
    and put :: "'m \<Rightarrow> 'k \<Rightarrow> ptr \<Rightarrow> 'm" and get :: "'m \<Rightarrow> 'k \<Rightarrow> ptr" and remove :: "'m \<Rightarrow> 'k \<Rightarrow> 'm"
    and key_ok :: "'k \<Rightarrow> bool"
  assumes put_inv: "inv m \<Longrightarrow> key_ok k \<Longrightarrow> inv (put m k v)"
    and put_abs: "inv m \<Longrightarrow> key_ok k \<Longrightarrow> key_ok k' \<Longrightarrow> abs (put m k v) k' = (if k' = k then Some v else abs m k')"
    and get_abs: "inv m \<Longrightarrow> key_ok k \<Longrightarrow> get m k = (case abs m k of None \<Rightarrow> 0 | Some v \<Rightarrow> v)"
    and remove_inv: "inv m \<Longrightarrow> key_ok k \<Longrightarrow> inv (remove m k)"
    and remove_abs: "inv m \<Longrightarrow> key_ok k \<Longrightarrow> key_ok k' \<Longrightarrow> abs (remove m k) k' = (if k' = k then None else abs m k')"
begin

text \<open>A sequence of updates: \<open>Inl (k, v)\<close> puts, \<open>Inr k\<close> removes; the last one for a key decides.\<close>

definition run_op :: "'m \<Rightarrow> 'k \<times> ptr + 'k \<Rightarrow> 'm" where
  "run_op m op = (case op of Inl kv \<Rightarrow> put m (fst kv) (snd kv) | Inr k \<Rightarrow> remove m k)"

lemma run_ops:
  assumes "inv m" "list_all (\<lambda>op. key_ok (case op of Inl kv \<Rightarrow> fst kv | Inr k \<Rightarrow> k)) ops" "key_ok k"
  shows "inv (foldl run_op m ops) \<and> abs (foldl run_op m ops) k =
    foldl (\<lambda>f op. case op of Inl kv \<Rightarrow> f(fst kv \<mapsto> snd kv) | Inr k \<Rightarrow> f(k := None)) (abs m) ops k"
proof -
  have "inv (foldl run_op m ops) \<and> (\<forall>k. key_ok k \<longrightarrow> abs (foldl run_op m ops) k =
    foldl (\<lambda>f op. case op of Inl kv \<Rightarrow> f(fst kv \<mapsto> snd kv) | Inr k \<Rightarrow> f(k := None)) (abs m) ops k)"
    using assms(2)
  proof (induction ops rule: rev_induct)
    case Nil
    then show ?case using assms(1) by simp
  next
    case (snoc op ops)
    then show ?case
      by (cases op) (auto simp: run_op_def put_inv put_abs remove_inv remove_abs)
  qed
  then show ?thesis using assms(3) by blast
qed

lemma get_after_ops:
  assumes "inv m" "list_all (\<lambda>op. key_ok (case op of Inl kv \<Rightarrow> fst kv | Inr k \<Rightarrow> k)) ops" "key_ok k"
  shows "get (foldl run_op m ops) k =
    (case foldl (\<lambda>f op. case op of Inl kv \<Rightarrow> f(fst kv \<mapsto> snd kv) | Inr k \<Rightarrow> f(k := None)) (abs m) ops k of
       None \<Rightarrow> 0 | Some v \<Rightarrow> v)"
  using run_ops [OF assms] get_abs assms(3) by simp

end

definition chained_put :: "ChainedMap \<Rightarrow> bytes \<Rightarrow> ptr \<Rightarrow> ChainedMap" where
  "chained_put m k v = the (snd (map_put_raw (\<lambda>_. True) (Some m) (Some k) v))"

definition chained_remove :: "ChainedMap \<Rightarrow> bytes \<Rightarrow> ChainedMap" where
  "chained_remove m k = the (map_remove (Some m) (Some k))"

lemma chained_put_ok: "map_ok m \<Longrightarrow> length k < 2 ^ 32 \<Longrightarrow> map_ok (chained_put m k v) \<and> map_abs (chained_put m k v) = (map_abs m)(k \<mapsto> v)"
  using map_put_correct [where m = m and alloc = "\<lambda>_. True" and key = k and v = v] by (auto simp: chained_put_def split: prod.splits)

lemma chained_remove_ok: "map_ok m \<Longrightarrow> length k < 2 ^ 32 \<Longrightarrow> map_ok (chained_remove m k) \<and> map_abs (chained_remove m k) = (map_abs m)(k := None)"
  using map_remove_correct [of m k] by (auto simp: chained_remove_def)

interpretation chained: map_interface map_ok map_abs chained_put "\<lambda>m k. map_get_raw (Some m) (Some k)" chained_remove "\<lambda>k. length k < 2 ^ 32"
  by unfold_locales (simp_all add: chained_put_ok chained_remove_ok map_get_abs)

text \<open>C19. The chained hash map refines a partial function, for keys shorter than \<open>2 ^ 32\<close> bytes (the cached lengths have 32 bits) and fewer than \<open>2 ^ 31 - 1\<close> entries: putting a key, with a resize that may happen first or be refused, updates exactly that key or (only when the allocator refuses the entry or its copy of the key, and the key is new) changes nothing and returns 0; getting returns the value or NULL; removing deletes exactly that key; the invariant is kept.\<close>

theorem map_refines_function:
  assumes "map_ok m" "length key < 2 ^ 32" "cm_size m < 2 ^ 31 - 1"
  shows "(case map_put_raw alloc (Some m) (Some key) v of (r, mo) \<Rightarrow> \<exists>m'. mo = Some m' \<and> map_ok m' \<and>
      (r = 1 \<and> map_abs m' = (map_abs m)(key \<mapsto> v) \<or>
       r = 0 \<and> map_abs m' = map_abs m \<and> map_abs m key = None \<and> \<not> (alloc 32 \<and> alloc (length key + 1))))
    \<and> map_get_raw (Some m) (Some key) = (case map_abs m key of None \<Rightarrow> 0 | Some v \<Rightarrow> v)
    \<and> (\<exists>m'. map_remove (Some m) (Some key) = Some m' \<and> map_ok m' \<and> map_abs m' = (map_abs m)(key := None))"
  using map_put_correct [OF assms(1,2), where alloc = alloc and v = v] map_get_abs [OF assms(1,2)] map_remove_correct [OF assms(1,2)] by blast

text \<open>Starting from a new map, any sequence of puts and removes leaves a map in which every lookup returns what the last operation on that key decided.\<close>

theorem map_history:
  assumes "map_new alloc = Some m" "length key < 2 ^ 32"
    and "list_all (\<lambda>op. length (case op of Inl kv \<Rightarrow> fst kv | Inr k \<Rightarrow> k) < 2 ^ 32) ops"
  shows "map_get_raw (Some (foldl (\<lambda>m op. case op of Inl kv \<Rightarrow> chained_put m (fst kv) (snd kv) | Inr k \<Rightarrow> chained_remove m k) m ops)) (Some key)
    = (case foldl (\<lambda>f op. case op of Inl kv \<Rightarrow> f(fst kv \<mapsto> snd kv) | Inr k \<Rightarrow> f(k := None)) Map.empty ops key of
         None \<Rightarrow> 0 | Some v \<Rightarrow> v)"
  using chained.get_after_ops [of m ops key] map_new_correct [OF assms(1)] assms(2,3)
  by (simp add: chained.run_op_def [abs_def])

text \<open>A key stored with a NULL value is reported as absent.\<close>

theorem map_has_null_value:
  assumes "map_ok m" "map_abs m key = Some 0" "length key < 2 ^ 32"
  shows "\<not> map_has (Some m) (Some key)"
  using assms by (simp add: map_has_def map_get_abs)

definition map_example :: ChainedMap where
  "map_example = \<lparr>buckets = [[], [\<lparr>me_key = [], me_value = 0, me_hash = 5381, me_key_len = 0\<rparr>]], cm_capacity = 2, cm_size = 1\<rparr>"

lemma map_example_ok: "map_ok map_example"
  by (auto simp: map_ok_def map_example_def less_2_cases_iff entry_in_def entry_wf_def hash_cstr_len_def)

theorem map_refines_function_witness:
  "\<exists>m'. map_put_raw (\<lambda>n. n \<le> 32) (Some map_example) (Some []) 7 = (1, Some m') \<and> map_abs m' [] = Some 7"
proof -
  have "cm_size map_example < 2 ^ 31 - 1" "length ([] :: bytes) < 2 ^ 32" by (simp_all add: map_example_def)
  from map_refines_function [OF map_example_ok this(2,1), where alloc = "\<lambda>n. n \<le> 32" and v = 7] show ?thesis
    by (auto split: prod.splits)
qed

theorem map_has_null_value_witness: "\<not> map_has (Some map_example) (Some [])"
  by (rule map_has_null_value [OF map_example_ok])
    (simp_all add: map_abs_def map_example_def hash_cstr_len_def bucket_map_def)

theorem map_history_witness:
  "\<exists>m. map_new (\<lambda>_. True) = Some m \<and> map_get_raw (Some (chained_put m [97] 7)) (Some [97]) = 7"
proof -
  obtain m where m: "map_new (\<lambda>_. True) = Some m" by (simp add: map_new_def)
  show ?thesis using map_history [OF m, of "[97]" "[Inl ([97], 7)]"] m by simp
qed

end
