(* ===== verification/RobinHood.thy ===== *)
theory RobinHood
  imports AetherMap "HOL-Library.Multiset"
begin

section \<open>The Robin Hood hash map of the Aether library\<close>

text \<open>
  Models \<^verbatim>\<open>aether/std/collections/aether_hashmap.c\<close>: open addressing with linear
  probing, where an insertion displaces entries that are closer to their home slot, and deletion
  shifts the following entries back.  Keys and values are pointers (0 is \<^verbatim>\<open>NULL\<close>); the
  hash and equality functions are fields of the map, as in the source, and \<open>key_frees\<close>,
  \<open>value_frees\<close> say whether the map has the corresponding callback.  Operations return the
  pointers passed to the callbacks.  The probe loops have no bound in the source, so they are partial
  functions: \<open>None\<close> is a loop that does not end.  The load test, a floating-point quotient in
  the source, is the exact comparison with 3/4, which agrees for capacities below \<open>2 ^ 23\<close>.

  The well-formedness of a table (\<open>shape\<close>): an entry sits at its home slot plus its probe
  length, and the slot before an entry that is not at home is occupied by one at most one step closer to
  its own home.  Lookup, insertion and deletion are proved against the multiset of stored pairs.
\<close>

subsection \<open>Data\<close>

record RHEntry =
  rkey :: ptr
  rvalue :: ptr
  rhash :: nat
  rpsl :: nat
  occupied :: bool

definition empty_entry :: RHEntry where
  "empty_entry = \<lparr>rkey = 0, rvalue = 0, rhash = 0, rpsl = 0, occupied = False\<rparr>"

record RHMap =
  entries :: "RHEntry list"
  rcapacity :: nat
  rsize :: nat
  hash_func :: "ptr \<Rightarrow> nat"
  eq_func :: "ptr \<Rightarrow> ptr \<Rightarrow> bool"
  key_frees :: bool
  value_frees :: bool
  key_clone :: "ptr \<Rightarrow> ptr"

definition sizeof_RHEntry :: nat where
  "sizeof_RHEntry = 32"

definition sizeof_RHMap :: nat where
  "sizeof_RHMap = 80"

subsection \<open>Hash functions\<close>

definition FNV_OFFSET :: nat where
  "FNV_OFFSET = 14695981039346656037"

definition FNV_PRIME :: nat where
  "FNV_PRIME = 1099511628211"

unbundle bit_operations_syntax

definition hashmap_hash_string :: "bytes \<Rightarrow> nat" where
  "hashmap_hash_string str = foldl (\<lambda>hash c. ((hash XOR c) * FNV_PRIME) mod 2 ^ 64) FNV_OFFSET str"

definition hashmap_hash_int :: "ptr \<Rightarrow> nat" where
  "hashmap_hash_int key =
     (let x0 = key mod 2 ^ 64;
          x1 = ((drop_bit 16 x0 XOR x0) * 0x45d9f3b) mod 2 ^ 64;
          x2 = ((drop_bit 16 x1 XOR x1) * 0x45d9f3b) mod 2 ^ 64
      in drop_bit 16 x2 XOR x2)"

definition hashmap_equals_int :: "ptr \<Rightarrow> ptr \<Rightarrow> bool" where
  "hashmap_equals_int a b \<longleftrightarrow> a = b"

definition hashmap_clone_int :: "ptr \<Rightarrow> ptr" where
  "hashmap_clone_int p = p"

subsection \<open>Operations\<close>

definition hashmap_create ::
    "(nat \<Rightarrow> bool) \<Rightarrow> nat \<Rightarrow> (ptr \<Rightarrow> nat) \<Rightarrow> (ptr \<Rightarrow> ptr \<Rightarrow> bool) \<Rightarrow> bool \<Rightarrow> bool \<Rightarrow> (ptr \<Rightarrow> ptr) \<Rightarrow> RHMap option" where
  "hashmap_create alloc initial_capacity hf eqf kf vf kc =
     (if \<not> alloc sizeof_RHMap then None
      else let n = (if initial_capacity < DEFAULT_CAPACITY then DEFAULT_CAPACITY else initial_capacity)
           in if \<not> alloc (n * sizeof_RHEntry) then None
              else Some \<lparr>entries = replicate n empty_entry, rcapacity = n, rsize = 0, hash_func = hf, eq_func = eqf,
                         key_frees = kf, value_frees = vf, key_clone = kc\<rparr>)"

partial_function (option) rh_insert_loop ::
    "RHMap \<Rightarrow> nat \<Rightarrow> ptr \<Rightarrow> ptr \<Rightarrow> RHEntry list \<Rightarrow> RHEntry \<Rightarrow> nat \<Rightarrow> nat \<Rightarrow> (RHEntry list \<times> bool \<times> ptr list) option" where
  "rh_insert_loop hm hash key value es entry psl index =
     (let current = es ! index
      in if \<not> occupied current then Some (es[index := entry\<lparr>rpsl := psl\<rparr>], True, [])
         else if rhash current = hash \<and> eq_func hm (rkey current) key then
           Some (es[index := current\<lparr>rvalue := value, rkey := key\<rparr>], False,
                 (if value_frees hm then [rvalue current] else []) @
                 (if key_frees hm \<and> rkey current \<noteq> key then [rkey current] else []))
         else if psl > rpsl current then
           rh_insert_loop hm hash key value (es[index := entry\<lparr>rpsl := psl\<rparr>]) current (rpsl current + 1)
             ((index + 1) mod rcapacity hm)
         else rh_insert_loop hm hash key value es entry (psl + 1) ((index + 1) mod rcapacity hm))"

text \<open>The insertion proper, after the load test.\<close>

definition hashmap_put :: "RHMap \<Rightarrow> ptr \<Rightarrow> ptr \<Rightarrow> (RHMap \<times> ptr list) option" where
  "hashmap_put hm key value =
     (let hash = hash_func hm key; index = hash mod rcapacity hm;
          entry = \<lparr>rkey = key, rvalue = value, rhash = hash, rpsl = 0, occupied = True\<rparr>
      in case rh_insert_loop hm hash key value (entries hm) entry 0 index of
           None \<Rightarrow> None
         | Some (es, added, freed) \<Rightarrow>
             Some (hm\<lparr>entries := es, rsize := (if added then rsize hm + 1 else rsize hm)\<rparr>, freed))"

definition hashmap_resize ::
    "(RHMap \<Rightarrow> ptr \<Rightarrow> ptr \<Rightarrow> (bool \<times> RHMap \<times> ptr list) option) \<Rightarrow> (nat \<Rightarrow> bool) \<Rightarrow> RHMap \<Rightarrow> (RHMap \<times> ptr list) option" where
  "hashmap_resize ins alloc hm =
     (let new_capacity = rcapacity hm * 2
      in if \<not> alloc (new_capacity * sizeof_RHEntry) then Some (hm, [])
         else foldl (\<lambda>acc e. case acc of None \<Rightarrow> None
                       | Some (m, fr) \<Rightarrow>
                           if occupied e then
                             (case ins m (rkey e) (rvalue e) of None \<Rightarrow> None | Some (_, m', fr') \<Rightarrow> Some (m', fr @ fr'))
                           else Some (m, fr))
                (Some (hm\<lparr>rcapacity := new_capacity, entries := replicate new_capacity empty_entry, rsize := 0\<rparr>, []))
                (entries hm))"

text \<open>Insertion and resizing call each other; the first argument bounds the depth, and 2 is enough.\<close>

fun hashmap_insert ::
    "nat \<Rightarrow> (nat \<Rightarrow> bool) \<Rightarrow> RHMap option \<Rightarrow> ptr \<Rightarrow> ptr \<Rightarrow> (bool \<times> RHMap option \<times> ptr list) option" where
  "hashmap_insert 0 alloc mo key value = None"
| "hashmap_insert (Suc n) alloc mo key value =
     (case mo of
        None \<Rightarrow> Some (False, None, [])
      | Some hm \<Rightarrow>
          if key = 0 then Some (False, Some hm, [])
          else case (if 4 * rsize hm \<ge> 3 * rcapacity hm then
                       hashmap_resize (\<lambda>m k v. case hashmap_insert n alloc (Some m) k v of None \<Rightarrow> None
                                         | Some (b, mo, fr) \<Rightarrow> map_option (\<lambda>m. (b, m, fr)) mo) alloc hm
                     else Some (hm, [])) of
                 None \<Rightarrow> None
               | Some (m1, fr1) \<Rightarrow>
                   (case hashmap_put m1 key value of
                      None \<Rightarrow> None
                    | Some (m2, fr2) \<Rightarrow> Some (True, Some m2, fr1 @ fr2)))"

partial_function (option) probe_loop ::
    "RHMap \<Rightarrow> nat \<Rightarrow> ptr \<Rightarrow> nat \<Rightarrow> nat \<Rightarrow> nat option option" where
  "probe_loop hm hash key psl index =
     (let entry = entries hm ! index
      in if \<not> occupied entry \<or> psl > rpsl entry then Some None
         else if rhash entry = hash \<and> eq_func hm (rkey entry) key then Some (Some index)
         else probe_loop hm hash key (psl + 1) ((index + 1) mod rcapacity hm))"

definition hashmap_get :: "RHMap option \<Rightarrow> ptr \<Rightarrow> ptr option" where
  "hashmap_get mo key =
     (case mo of None \<Rightarrow> Some 0
      | Some hm \<Rightarrow>
          if key = 0 then Some 0
          else let hash = hash_func hm key; index = hash mod rcapacity hm
               in case probe_loop hm hash key 0 index of
                    None \<Rightarrow> None
                  | Some None \<Rightarrow> Some 0
                  | Some (Some i) \<Rightarrow> Some (rvalue (entries hm ! i)))"

definition hashmap_contains :: "RHMap option \<Rightarrow> ptr \<Rightarrow> bool option" where
  "hashmap_contains mo key = map_option (\<lambda>v. v \<noteq> 0) (hashmap_get mo key)"

partial_function (option) shift_loop :: "nat \<Rightarrow> RHEntry list \<Rightarrow> nat \<Rightarrow> RHEntry list option" where
  "shift_loop cap es current =
     (let next = (current + 1) mod cap; next_entry = es ! next
      in if \<not> occupied next_entry \<or> rpsl next_entry = 0 then
           Some (es[current := (es ! current)\<lparr>occupied := False\<rparr>])
         else shift_loop cap (es[current := next_entry\<lparr>rpsl := rpsl next_entry - 1\<rparr>]) next)"

definition hashmap_remove :: "RHMap option \<Rightarrow> ptr \<Rightarrow> (bool \<times> RHMap option \<times> ptr list) option" where
  "hashmap_remove mo key =
     (case mo of None \<Rightarrow> Some (False, None, [])
      | Some hm \<Rightarrow>
          if key = 0 then Some (False, Some hm, [])
          else let hash = hash_func hm key; index = hash mod rcapacity hm
               in case probe_loop hm hash key 0 index of
                    None \<Rightarrow> None
                  | Some None \<Rightarrow> Some (False, Some hm, [])
                  | Some (Some i) \<Rightarrow>
                      (case shift_loop (rcapacity hm) (entries hm) i of
                         None \<Rightarrow> None
                       | Some es \<Rightarrow> Some (True, Some (hm\<lparr>entries := es, rsize := rsize hm - 1\<rparr>),
                           (if key_frees hm then [rkey (entries hm ! i)] else []) @
                           (if value_frees hm then [rvalue (entries hm ! i)] else []))))"

definition hashmap_clear :: "RHMap option \<Rightarrow> RHMap option \<times> ptr list" where
  "hashmap_clear mo =
     (case mo of None \<Rightarrow> (None, [])
      | Some hm \<Rightarrow>
          (Some (hm\<lparr>entries := replicate (rcapacity hm) empty_entry, rsize := 0\<rparr>),
           concat (map (\<lambda>e. if occupied e then (if key_frees hm then [rkey e] else []) @
                              (if value_frees hm then [rvalue e] else []) else []) (entries hm))))"

definition hashmap_size :: "RHMap option \<Rightarrow> nat" where
  "hashmap_size mo = (case mo of None \<Rightarrow> 0 | Some hm \<Rightarrow> rsize hm)"

definition hashmap_is_empty :: "RHMap option \<Rightarrow> bool" where
  "hashmap_is_empty mo = (case mo of None \<Rightarrow> True | Some hm \<Rightarrow> rsize hm = 0)"

record HashMapIterator =
  it_map :: "RHMap option"
  it_index :: nat

definition hashmap_iterator :: "RHMap option \<Rightarrow> HashMapIterator" where
  "hashmap_iterator mo = \<lparr>it_map = mo, it_index = 0\<rparr>"

function iter_loop :: "RHMap \<Rightarrow> nat \<Rightarrow> (ptr \<times> ptr) option \<times> nat" where
  "iter_loop hm index =
     (if index < rcapacity hm then
        (let entry = entries hm ! index
         in if occupied entry then (Some (rkey entry, rvalue entry), index + 1) else iter_loop hm (index + 1))
      else (None, index))"
  by pat_completeness auto
termination by (relation "measure (\<lambda>(hm, index). rcapacity hm - index)") auto

declare iter_loop.simps [simp del]

definition hashmap_iterator_next :: "HashMapIterator \<Rightarrow> (ptr \<times> ptr) option \<times> HashMapIterator" where
  "hashmap_iterator_next iter =
     (case it_map iter of None \<Rightarrow> (None, iter)
      | Some hm \<Rightarrow> (let r = iter_loop hm (it_index iter) in (fst r, iter\<lparr>it_index := snd r\<rparr>)))"

subsection \<open>Table shape and contents\<close>

definition shape :: "(ptr \<Rightarrow> nat) \<Rightarrow> nat \<Rightarrow> RHEntry list \<Rightarrow> bool" where
  "shape hf cap es \<longleftrightarrow> 2 \<le> cap \<and> length es = cap \<and>
     (\<forall>i < cap. occupied (es ! i) \<longrightarrow> (rhash (es ! i) + rpsl (es ! i)) mod cap = i \<and> rhash (es ! i) = hf (rkey (es ! i)) \<and> rkey (es ! i) \<noteq> 0) \<and>
     (\<forall>i < cap. occupied (es ! ((i + 1) mod cap)) \<and> 0 < rpsl (es ! ((i + 1) mod cap)) \<longrightarrow>
        occupied (es ! i) \<and> rpsl (es ! ((i + 1) mod cap)) \<le> rpsl (es ! i) + 1)"

definition contrib :: "RHEntry \<Rightarrow> (ptr \<times> ptr) multiset" where
  "contrib e = (if occupied e then {#(rkey e, rvalue e)#} else {#})"

definition contents :: "RHEntry list \<Rightarrow> (ptr \<times> ptr) multiset" where
  "contents es = sum_list (map contrib es)"

lemma contents_update:
  "i < length es \<Longrightarrow> contents (es[i := e]) + contrib (es ! i) = contents es + contrib e"
proof (induction es arbitrary: i)
  case (Cons x es)
  then show ?case by (cases i) (auto simp: contents_def ac_simps)
qed simp

lemma contents_nth: "i < length es \<Longrightarrow> contrib (es ! i) \<subseteq># contents es"
  by (induction es arbitrary: i) (auto simp: contents_def nth_Cons' intro: subset_mset.add_increasing)

lemma in_contents: "x \<in># contents es \<longleftrightarrow> (\<exists>i < length es. occupied (es ! i) \<and> x = (rkey (es ! i), rvalue (es ! i)))"
proof (induction es)
  case (Cons e es)
  have "(\<exists>i < length (e # es). occupied ((e # es) ! i) \<and> x = (rkey ((e # es) ! i), rvalue ((e # es) ! i))) \<longleftrightarrow>
    (occupied e \<and> x = (rkey e, rvalue e)) \<or> (\<exists>i < length es. occupied (es ! i) \<and> x = (rkey (es ! i), rvalue (es ! i)))"
    by (auto simp: less_Suc_eq_0_disj)
  then show ?case using Cons by (auto simp: contents_def contrib_def)
qed (simp add: contents_def)

lemma succ_mod_inj: "i < cap \<Longrightarrow> j < cap \<Longrightarrow> (i + 1) mod cap = (j + 1) mod cap \<Longrightarrow> i = (j :: nat)"
  by (cases "Suc i = cap"; cases "Suc j = cap") auto

lemma add_mod_neq: "i < cap \<Longrightarrow> 0 < j \<Longrightarrow> j < cap \<Longrightarrow> (i + j) mod cap \<noteq> (i :: nat)"
  by (cases "i + j < cap") (auto simp: le_mod_geq mod_if not_less)

lemma succ_add_mod: "((i + 1) mod cap + j) mod cap = (i + (j + 1)) mod (cap :: nat)"
  by (simp only: mod_add_left_eq add.assoc add.commute [of 1 j])

lemma shape_prev:
  "shape hf cap es \<Longrightarrow> i < cap \<Longrightarrow> occupied (es ! ((i + 1) mod cap)) \<Longrightarrow> 0 < rpsl (es ! ((i + 1) mod cap)) \<Longrightarrow>
     occupied (es ! i) \<and> rpsl (es ! ((i + 1) mod cap)) \<le> rpsl (es ! i) + 1"
  unfolding shape_def by blast

lemma shape_slot:
  "shape hf cap es \<Longrightarrow> i < cap \<Longrightarrow> occupied (es ! i) \<Longrightarrow>
     (rhash (es ! i) + rpsl (es ! i)) mod cap = i \<and> rhash (es ! i) = hf (rkey (es ! i)) \<and> rkey (es ! i) \<noteq> 0"
  unfolding shape_def by blast

text \<open>Writing an entry at its probe position keeps the shape.\<close>

lemma shape_put:
  assumes sh: "shape hf cap es" and i: "index < cap"
    and e: "occupied e" "(rhash e + psl) mod cap = index" "rhash e = hf (rkey e)" "rkey e \<noteq> 0"
    and prev: "\<And>j. j < cap \<Longrightarrow> (j + 1) mod cap = index \<Longrightarrow> 0 < psl \<Longrightarrow> occupied (es ! j) \<and> psl \<le> rpsl (es ! j) + 1"
    and succ: "occupied (es ! ((index + 1) mod cap)) \<Longrightarrow> 0 < rpsl (es ! ((index + 1) mod cap)) \<Longrightarrow>
      rpsl (es ! ((index + 1) mod cap)) \<le> psl + 1"
  shows "shape hf cap (es[index := e\<lparr>rpsl := psl\<rparr>])"
proof -
  let ?es = "es[index := e\<lparr>rpsl := psl\<rparr>]"
  have len: "length es = cap" "2 \<le> cap" using sh by (auto simp: shape_def)
  have nth: "?es ! j = (if j = index then e\<lparr>rpsl := psl\<rparr> else es ! j)" if "j < cap" for j
    using that len by (simp add: nth_list_update)
  have "occupied (?es ! j) \<and> rpsl (?es ! ((j + 1) mod cap)) \<le> rpsl (?es ! j) + 1"
    if j: "j < cap" "occupied (?es ! ((j + 1) mod cap))" "0 < rpsl (?es ! ((j + 1) mod cap))" for j
  proof -
    have n: "(j + 1) mod cap < cap" "(j + 1) mod cap \<noteq> j" using len add_mod_neq [OF j(1), of 1] by auto
    consider "(j + 1) mod cap = index" | "j = index" | "j \<noteq> index" "(j + 1) mod cap \<noteq> index" by blast
    then show ?thesis
    proof cases
      case 1
      then have "j \<noteq> index" using n by auto
      then show ?thesis using prev [OF j(1) 1] j 1 n by (simp add: nth)
    next
      case 2
      then have "rpsl (es ! ((j + 1) mod cap)) \<le> psl + 1" using succ j n by (auto simp: nth)
      then show ?thesis using 2 n e(1) i by (auto simp: nth)
    next
      case 3
      then show ?thesis using shape_prev [OF sh j(1)] j n by (simp add: nth)
    qed
  qed
  moreover have "(rhash (?es ! j) + rpsl (?es ! j)) mod cap = j \<and> rhash (?es ! j) = hf (rkey (?es ! j)) \<and> rkey (?es ! j) \<noteq> 0"
    if "j < cap" "occupied (?es ! j)" for j
    using shape_slot [OF sh that(1)] that e by (cases "j = index") (auto simp: nth)
  ultimately show ?thesis using len unfolding shape_def length_list_update by blast
qed

lemma shape_write:
  assumes "shape hf cap es" "index < cap"
    and "occupied e" "(rhash e + psl) mod cap = index" "rhash e = hf (rkey e)" "rkey e \<noteq> 0"
    and "\<And>j. j < cap \<Longrightarrow> (j + 1) mod cap = index \<Longrightarrow> 0 < psl \<Longrightarrow> occupied (es ! j) \<and> psl \<le> rpsl (es ! j) + 1"
    and low: "occupied (es ! index) \<Longrightarrow> rpsl (es ! index) \<le> psl"
  shows "shape hf cap (es[index := e\<lparr>rpsl := psl\<rparr>])"
  by (rule shape_put [OF assms(1-7)]) (use shape_prev [OF assms(1,2)] low in fastforce)+

lemma shape_vacate:
  assumes sh: "shape hf cap es" and i: "index < cap"
    and nxt: "\<not> occupied (es ! ((index + 1) mod cap)) \<or> rpsl (es ! ((index + 1) mod cap)) = 0"
  shows "shape hf cap (es[index := e\<lparr>occupied := False\<rparr>])"
proof -
  let ?es = "es[index := e\<lparr>occupied := False\<rparr>]"
  have len: "length es = cap" "2 \<le> cap" using sh by (auto simp: shape_def)
  have nth: "?es ! j = (if j = index then e\<lparr>occupied := False\<rparr> else es ! j)" if "j < cap" for j
    using that len by (simp add: nth_list_update)
  have "occupied (?es ! j) \<and> rpsl (?es ! ((j + 1) mod cap)) \<le> rpsl (?es ! j) + 1"
    if j: "j < cap" "occupied (?es ! ((j + 1) mod cap))" "0 < rpsl (?es ! ((j + 1) mod cap))" for j
  proof -
    have n: "(j + 1) mod cap < cap" using len by auto
    have "(j + 1) mod cap \<noteq> index" "j \<noteq> index" using j n nxt by (auto simp: nth split: if_splits)
    then show ?thesis using shape_prev [OF sh j(1)] j n by (simp add: nth)
  qed
  moreover have "(rhash (?es ! j) + rpsl (?es ! j)) mod cap = j \<and> rhash (?es ! j) = hf (rkey (?es ! j)) \<and> rkey (?es ! j) \<noteq> 0"
    if "j < cap" "occupied (?es ! j)" for j
    using shape_slot [OF sh that(1)] that by (cases "j = index") (auto simp: nth)
  ultimately show ?thesis using len unfolding shape_def length_list_update by blast
qed

subsection \<open>Probing\<close>

definition matches :: "RHMap \<Rightarrow> ptr \<Rightarrow> RHEntry \<Rightarrow> bool" where
  "matches hm key e \<longleftrightarrow> rhash e = hash_func hm key \<and> eq_func hm (rkey e) key"

lemma rh_insert_steps:
  "\<not> occupied (es ! index) \<Longrightarrow> rh_insert_loop hm (hash_func hm key) key v es e psl index = Some (es[index := e\<lparr>rpsl := psl\<rparr>], True, [])"
  "occupied (es ! index) \<Longrightarrow> matches hm key (es ! index) \<Longrightarrow> rh_insert_loop hm (hash_func hm key) key v es e psl index =
     Some (es[index := (es ! index)\<lparr>rvalue := v, rkey := key\<rparr>], False,
           (if value_frees hm then [rvalue (es ! index)] else []) @ (if key_frees hm \<and> rkey (es ! index) \<noteq> key then [rkey (es ! index)] else []))"
  "occupied (es ! index) \<Longrightarrow> \<not> matches hm key (es ! index) \<Longrightarrow> rpsl (es ! index) < psl \<Longrightarrow>
     rh_insert_loop hm (hash_func hm key) key v es e psl index =
     rh_insert_loop hm (hash_func hm key) key v (es[index := e\<lparr>rpsl := psl\<rparr>]) (es ! index) (rpsl (es ! index) + 1) ((index + 1) mod rcapacity hm)"
  "occupied (es ! index) \<Longrightarrow> \<not> matches hm key (es ! index) \<Longrightarrow> psl \<le> rpsl (es ! index) \<Longrightarrow>
     rh_insert_loop hm (hash_func hm key) key v es e psl index =
     rh_insert_loop hm (hash_func hm key) key v es e (psl + 1) ((index + 1) mod rcapacity hm)"
  unfolding rh_insert_loop.simps [of hm "hash_func hm key" key v es e psl index] Let_def matches_def by (simp_all only: if_True if_False simp_thms not_less [symmetric])

lemma probe_steps:
  "\<not> occupied (entries hm ! index) \<or> rpsl (entries hm ! index) < psl \<Longrightarrow> probe_loop hm (hash_func hm key) key psl index = Some None"
  "occupied (entries hm ! index) \<Longrightarrow> psl \<le> rpsl (entries hm ! index) \<Longrightarrow> matches hm key (entries hm ! index) \<Longrightarrow>
     probe_loop hm (hash_func hm key) key psl index = Some (Some index)"
  "occupied (entries hm ! index) \<Longrightarrow> psl \<le> rpsl (entries hm ! index) \<Longrightarrow> \<not> matches hm key (entries hm ! index) \<Longrightarrow>
     probe_loop hm (hash_func hm key) key psl index = probe_loop hm (hash_func hm key) key (psl + 1) ((index + 1) mod rcapacity hm)"
  unfolding probe_loop.simps [of hm "hash_func hm key" key psl index] Let_def matches_def by (simp_all only: if_True if_False simp_thms not_less [symmetric])

lemma probe_path:
  assumes sh: "shape hf cap es" and i: "(h + p) mod cap = i" "occupied (es ! i)" "rpsl (es ! i) = p" and q: "q \<le> p"
  shows "occupied (es ! ((h + q) mod cap)) \<and> q \<le> rpsl (es ! ((h + q) mod cap))"
  using q
proof (induction "p - q" arbitrary: q)
  case 0
  then show ?case using i by simp
next
  case (Suc d)
  then have ih: "occupied (es ! ((h + (q + 1)) mod cap)) \<and> q + 1 \<le> rpsl (es ! ((h + (q + 1)) mod cap))"
    by (intro Suc(1)) auto
  have cap: "0 < cap" using sh by (simp add: shape_def)
  have step: "((h + q) mod cap + 1) mod cap = (h + (q + 1)) mod cap"
    by (simp only: mod_add_left_eq add.assoc)
  from shape_prev [OF sh, of "(h + q) mod cap"] ih cap show ?case unfolding step by auto
qed

lemma probe_present:
  assumes sh: "shape (hash_func hm) (rcapacity hm) (entries hm)"
    and i: "i < rcapacity hm" "occupied (entries hm ! i)" "matches hm key (entries hm ! i)"
    and uniq: "\<And>j. j < rcapacity hm \<Longrightarrow> occupied (entries hm ! j) \<Longrightarrow> matches hm key (entries hm ! j) \<Longrightarrow> j = i"
    and q: "q \<le> rpsl (entries hm ! i)"
  shows "probe_loop hm (hash_func hm key) key q ((hash_func hm key + q) mod rcapacity hm) = Some (Some i)"
  using q
proof (induction "rpsl (entries hm ! i) - q" arbitrary: q rule: less_induct)
  case less
  define cap where "cap = rcapacity hm"
  define s where "s = (hash_func hm key + q) mod cap"
  have cap: "0 < cap" using sh by (simp add: shape_def cap_def)
  then have s: "s < cap" by (simp add: s_def)
  have home: "(hash_func hm key + rpsl (entries hm ! i)) mod cap = i"
    using shape_slot [OF sh i(1,2)] i(3) unfolding matches_def cap_def by metis
  have occ: "occupied (entries hm ! s) \<and> q \<le> rpsl (entries hm ! s)"
    using probe_path [OF sh [folded cap_def] home i(2) refl less.prems] by (simp add: s_def)
  show ?case
  proof (cases "matches hm key (entries hm ! s)")
    case True
    then have "s = i" using uniq s occ by (simp add: cap_def)
    then show ?thesis using probe_steps(2) [OF _ _ True] occ by (simp add: s_def cap_def)
  next
    case False
    then have "q \<noteq> rpsl (entries hm ! i)" using i(3) home by (auto simp: s_def)
    then have lt: "q < rpsl (entries hm ! i)" using less.prems by simp
    have nxt: "(s + 1) mod cap = (hash_func hm key + (q + 1)) mod cap"
      unfolding s_def by (simp only: mod_add_left_eq add.assoc)
    have "probe_loop hm (hash_func hm key) key (q + 1) ((hash_func hm key + (q + 1)) mod cap) = Some (Some i)"
      unfolding cap_def by (rule less.hyps) (use lt in auto)
    moreover have "probe_loop hm (hash_func hm key) key q s = probe_loop hm (hash_func hm key) key (q + 1) ((s + 1) mod cap)"
      unfolding cap_def by (rule probe_steps(3)) (use False occ in auto)
    ultimately show ?thesis unfolding nxt unfolding s_def cap_def by (rule trans [rotated])
  qed
qed

lemma probe_absent:
  assumes none: "\<And>j. j < rcapacity hm \<Longrightarrow> occupied (entries hm ! j) \<Longrightarrow> \<not> matches hm key (entries hm ! j)"
    and idx: "index < rcapacity hm" and e: "\<not> occupied (entries hm ! ((index + d) mod rcapacity hm))"
  shows "probe_loop hm (hash_func hm key) key psl index = Some None"
  using idx e
proof (induction d arbitrary: psl index)
  case 0
  then show ?case by (subst probe_loop.simps) simp
next
  case (Suc d)
  show ?case
  proof (cases "\<not> occupied (entries hm ! index) \<or> psl > rpsl (entries hm ! index)")
    case True
    then show ?thesis by (subst probe_loop.simps) (simp add: Let_def)
  next
    case False
    have "probe_loop hm (hash_func hm key) key (psl + 1) ((index + 1) mod rcapacity hm) = Some None"
      by (rule Suc.IH) (use Suc.prems in \<open>simp_all add: succ_add_mod [of index _ d, simplified]\<close>)
    moreover have "\<not> matches hm key (entries hm ! index)" using none Suc.prems(1) False by blast
    ultimately show ?thesis using False by (subst probe_loop.simps) (simp add: Let_def matches_def)
  qed
qed

subsection \<open>Insertion\<close>

lemma insert_present:
  assumes sh: "shape (hash_func hm) (rcapacity hm) (entries hm)"
    and i: "i < rcapacity hm" "occupied (entries hm ! i)" "matches hm key (entries hm ! i)"
    and uniq: "\<And>j. j < rcapacity hm \<Longrightarrow> occupied (entries hm ! j) \<Longrightarrow> matches hm key (entries hm ! j) \<Longrightarrow> j = i"
    and q: "q \<le> rpsl (entries hm ! i)"
  shows "rh_insert_loop hm (hash_func hm key) key v (entries hm) e q ((hash_func hm key + q) mod rcapacity hm) =
    Some ((entries hm)[i := (entries hm ! i)\<lparr>rvalue := v, rkey := key\<rparr>], False,
       (if value_frees hm then [rvalue (entries hm ! i)] else []) @
       (if key_frees hm \<and> rkey (entries hm ! i) \<noteq> key then [rkey (entries hm ! i)] else []))"
  using q
proof (induction "rpsl (entries hm ! i) - q" arbitrary: q rule: less_induct)
  case less
  define cap where "cap = rcapacity hm"
  define s where "s = (hash_func hm key + q) mod cap"
  have cap: "0 < cap" using sh by (simp add: shape_def cap_def)
  then have s: "s < cap" by (simp add: s_def)
  have home: "(hash_func hm key + rpsl (entries hm ! i)) mod cap = i"
    using shape_slot [OF sh i(1,2)] i(3) unfolding matches_def cap_def by metis
  have occ: "occupied (entries hm ! s) \<and> q \<le> rpsl (entries hm ! s)"
    using probe_path [OF sh [folded cap_def] home i(2) refl less.prems] by (simp add: s_def)
  show ?case
  proof (cases "matches hm key (entries hm ! s)")
    case True
    then have "s = i" using uniq s occ by (simp add: cap_def)
    then show ?thesis using rh_insert_steps(2) [OF _ True] occ unfolding s_def cap_def by metis
  next
    case False
    then have "q \<noteq> rpsl (entries hm ! i)" using i(3) home by (auto simp: s_def)
    then have lt: "q < rpsl (entries hm ! i)" using less.prems by simp
    have nxt: "(s + 1) mod cap = (hash_func hm key + (q + 1)) mod cap"
      unfolding s_def by (simp only: mod_add_left_eq add.assoc)
    have ih: "rh_insert_loop hm (hash_func hm key) key v (entries hm) e (q + 1) ((hash_func hm key + (q + 1)) mod rcapacity hm) =
      Some ((entries hm)[i := (entries hm ! i)\<lparr>rvalue := v, rkey := key\<rparr>], False,
       (if value_frees hm then [rvalue (entries hm ! i)] else []) @
       (if key_frees hm \<and> rkey (entries hm ! i) \<noteq> key then [rkey (entries hm ! i)] else []))"
      by (rule less.hyps) (use lt in auto)
    have "rh_insert_loop hm (hash_func hm key) key v (entries hm) e q s =
      rh_insert_loop hm (hash_func hm key) key v (entries hm) e (q + 1) ((s + 1) mod cap)"
      unfolding cap_def by (rule rh_insert_steps(4)) (use False occ in auto)
    then show ?thesis unfolding nxt unfolding s_def cap_def ih .
  qed
qed

lemma insert_absent:
  assumes "shape (hash_func hm) (rcapacity hm) es" "index < rcapacity hm"
    and "occupied e" "(rhash e + psl) mod rcapacity hm = index" "rhash e = hash_func hm (rkey e)" "rkey e \<noteq> 0"
    and "\<And>j. j < rcapacity hm \<Longrightarrow> (j + 1) mod rcapacity hm = index \<Longrightarrow> 0 < psl \<Longrightarrow> occupied (es ! j) \<and> psl \<le> rpsl (es ! j) + 1"
    and "d < rcapacity hm" "\<not> occupied (es ! ((index + d) mod rcapacity hm))"
    and "\<And>j. j < d \<Longrightarrow> \<not> matches hm key (es ! ((index + j) mod rcapacity hm))"
  shows "\<exists>es'. rh_insert_loop hm (hash_func hm key) key v es e psl index = Some (es', True, []) \<and>
    shape (hash_func hm) (rcapacity hm) es' \<and> contents es' = contents es + {#(rkey e, rvalue e)#}"
  using assms
proof (induction d arbitrary: es e psl index)
  case 0
  define es' where "es' = es[index := e\<lparr>rpsl := psl\<rparr>]"
  have len: "index < length es" using 0(1,2) by (simp add: shape_def)
  have free: "\<not> occupied (es ! index)" using 0(2,9) by simp
  have "rh_insert_loop hm (hash_func hm key) key v es e psl index = Some (es', True, [])"
    unfolding es'_def by (rule rh_insert_steps(1) [OF free])
  moreover have "shape (hash_func hm) (rcapacity hm) es'"
    unfolding es'_def by (rule shape_write [OF 0(1-7)]) (use free in auto)
  moreover have "contents es' = contents es + {#(rkey e, rvalue e)#}"
    using contents_update [OF len, of "e\<lparr>rpsl := psl\<rparr>"] free 0(3) by (simp add: es'_def contrib_def)
  ultimately show ?case by blast
next
  case (Suc d)
  define cap where "cap = rcapacity hm"
  define c where "c = es ! index"
  have len: "index < length es" "length es = cap" "0 < cap" using Suc.prems(1,2) by (auto simp: shape_def cap_def)
  have nm: "\<not> matches hm key c" using Suc.prems(10) [of 0] Suc.prems(2) by (simp add: c_def)
  have nidx: "(index + 1) mod cap < cap" using len by simp
  have emp: "\<not> occupied (es ! (((index + 1) mod cap + d) mod cap))" using Suc.prems(9) succ_add_mod [of index cap d] by (simp add: cap_def)
  show ?case
  proof (cases "occupied c")
    case False
    define es' where "es' = es[index := e\<lparr>rpsl := psl\<rparr>]"
    have "rh_insert_loop hm (hash_func hm key) key v es e psl index = Some (es', True, [])"
      unfolding es'_def by (rule rh_insert_steps(1)) (use False in \<open>simp add: c_def\<close>)
    moreover have "shape (hash_func hm) (rcapacity hm) es'"
      unfolding es'_def by (rule shape_write [OF Suc.prems(1-7)]) (use False in \<open>auto simp: c_def\<close>)
    moreover have "contents es' = contents es + {#(rkey e, rvalue e)#}"
      using contents_update [OF len(1), of "e\<lparr>rpsl := psl\<rparr>"] False Suc.prems(3) by (simp add: es'_def contrib_def c_def)
    ultimately show ?thesis by blast
  next
    case occ: True
    note slot = shape_slot [OF Suc.prems(1,2) occ [unfolded c_def]]
    show ?thesis
    proof (cases "psl > rpsl c")
      case False
      have step: "rh_insert_loop hm (hash_func hm key) key v es e psl index =
          rh_insert_loop hm (hash_func hm key) key v es e (psl + 1) ((index + 1) mod cap)"
        unfolding cap_def by (rule rh_insert_steps(4)) (use occ nm False in \<open>auto simp: c_def\<close>)
      show ?thesis unfolding step
      proof (rule Suc.IH [OF Suc.prems(1)])
        show "(index + 1) mod cap < rcapacity hm" using nidx by (simp only: cap_def)
        show "occupied e" "rhash e = hash_func hm (rkey e)" "rkey e \<noteq> 0" using Suc.prems by blast+
        show "(rhash e + (psl + 1)) mod rcapacity hm = (index + 1) mod cap"
          unfolding Suc.prems(4) [symmetric] cap_def by (simp only: mod_add_left_eq add.assoc)
        show "d < rcapacity hm" using Suc.prems(8) by simp
        show "occupied (es ! j) \<and> psl + 1 \<le> rpsl (es ! j) + 1"
          if "j < rcapacity hm" "(j + 1) mod rcapacity hm = (index + 1) mod cap" for j
          using succ_mod_inj [of j cap index] that Suc.prems(2) occ False by (simp add: cap_def c_def)
        show "\<not> matches hm key (es ! (((index + 1) mod cap + j) mod rcapacity hm))" if "j < d" for j
          using Suc.prems(10) [of "j + 1"] that succ_add_mod [of index cap j] by (simp add: cap_def)
      qed (use emp in \<open>simp add: cap_def\<close>)
    next
      case True
      define es1 where "es1 = es[index := e\<lparr>rpsl := psl\<rparr>]"
      have step: "rh_insert_loop hm (hash_func hm key) key v es e psl index =
          rh_insert_loop hm (hash_func hm key) key v es1 c (rpsl c + 1) ((index + 1) mod cap)"
        unfolding cap_def c_def es1_def by (rule rh_insert_steps(3)) (use occ nm True in \<open>auto simp: c_def\<close>)
      have sh1: "shape (hash_func hm) (rcapacity hm) es1"
        unfolding es1_def by (rule shape_write [OF Suc.prems(1-7)]) (use True in \<open>auto simp: c_def\<close>)
      have nth1: "es1 ! ((index + j) mod cap) = es ! ((index + j) mod cap)" if "0 < j" "j < cap" for j
        using add_mod_neq [of index cap j] that Suc.prems(2) by (simp add: es1_def cap_def)
      have ih: "\<exists>es'. rh_insert_loop hm (hash_func hm key) key v es1 c (rpsl c + 1) ((index + 1) mod cap) = Some (es', True, []) \<and>
        shape (hash_func hm) (rcapacity hm) es' \<and> contents es' = contents es1 + {#(rkey c, rvalue c)#}"
      proof (rule Suc.IH [OF sh1 _ occ])
        show "(index + 1) mod cap < rcapacity hm" using nidx by (simp only: cap_def)
        show "rhash c = hash_func hm (rkey c)" "rkey c \<noteq> 0" using slot by (auto simp: c_def)
        have "(rhash c + rpsl c) mod cap = index" using slot unfolding c_def cap_def by blast
        then show "(rhash c + (rpsl c + 1)) mod rcapacity hm = (index + 1) mod cap"
          unfolding cap_def by (metis add.assoc mod_add_left_eq)
        show "d < rcapacity hm" using Suc.prems(8) by simp
        show "\<not> occupied (es1 ! (((index + 1) mod cap + d) mod rcapacity hm))"
          using emp nth1 [of "d + 1"] succ_add_mod [of index cap d] Suc.prems(8) by (simp add: cap_def)
        show "occupied (es1 ! j) \<and> rpsl c + 1 \<le> rpsl (es1 ! j) + 1"
          if "j < rcapacity hm" "(j + 1) mod rcapacity hm = (index + 1) mod cap" for j
          using succ_mod_inj [of j cap index] that Suc.prems(2,3) True len by (simp add: cap_def es1_def)
        show "\<not> matches hm key (es1 ! (((index + 1) mod cap + j) mod rcapacity hm))" if "j < d" for j
          using Suc.prems(8) Suc.prems(10) [of "j + 1"] that succ_add_mod [of index cap j] nth1 [of "j + 1"] by (simp add: cap_def)
      qed
      moreover have "contents es1 + {#(rkey c, rvalue c)#} = contents es + {#(rkey e, rvalue e)#}"
        using contents_update [OF len(1), of "e\<lparr>rpsl := psl\<rparr>"] occ Suc.prems(3) by (simp add: es1_def contrib_def c_def)
      ultimately show ?thesis unfolding step by simp
    qed
  qed
qed


subsection \<open>Backward shift\<close>

lemma shift_steps:
  "\<not> occupied (es ! ((current + 1) mod cap)) \<or> rpsl (es ! ((current + 1) mod cap)) = 0 \<Longrightarrow>
     shift_loop cap es current = Some (es[current := (es ! current)\<lparr>occupied := False\<rparr>])"
  "occupied (es ! ((current + 1) mod cap)) \<Longrightarrow> 0 < rpsl (es ! ((current + 1) mod cap)) \<Longrightarrow>
     shift_loop cap es current =
     shift_loop cap (es[current := (es ! ((current + 1) mod cap))\<lparr>rpsl := rpsl (es ! ((current + 1) mod cap)) - 1\<rparr>]) ((current + 1) mod cap)"
  unfolding shift_loop.simps [of cap es current] Let_def by simp_all

lemma shift_ok:
  assumes "shape hf cap es" "current < cap" "occupied (es ! current)"
    and "d + 1 < cap" "\<not> occupied (es ! ((current + (d + 1)) mod cap))"
  shows "\<exists>es'. shift_loop cap es current = Some es' \<and> shape hf cap es' \<and> contents es' + contrib (es ! current) = contents es"
  using assms
proof (induction d arbitrary: es current)
  case 0
  have stop: "\<not> occupied (es ! ((current + 1) mod cap)) \<or> rpsl (es ! ((current + 1) mod cap)) = 0" using 0(5) by simp
  have len: "current < length es" using 0(1,2) by (simp add: shape_def)
  show ?case using shift_steps(1) [OF stop] shape_vacate [OF 0(1,2) stop, of "es ! current"]
      contents_update [OF len, of "(es ! current)\<lparr>occupied := False\<rparr>"] by (simp add: contrib_def)
next
  case (Suc d)
  have len: "current < length es" "length es = cap" "2 \<le> cap" using Suc.prems(1,2) by (auto simp: shape_def)
  define nx where "nx = (current + 1) mod cap"
  have nx: "nx < cap" "nx \<noteq> current" using len add_mod_neq [of current cap 1] by (auto simp: nx_def)
  show ?case
  proof (cases "occupied (es ! nx) \<and> 0 < rpsl (es ! nx)")
    case False
    then have stop: "\<not> occupied (es ! ((current + 1) mod cap)) \<or> rpsl (es ! ((current + 1) mod cap)) = 0" by (simp add: nx_def)
    show ?thesis using shift_steps(1) [OF stop] shape_vacate [OF Suc.prems(1,2) stop, of "es ! current"]
        contents_update [OF len(1), of "(es ! current)\<lparr>occupied := False\<rparr>"] by (simp add: contrib_def)
  next
    case True
    define n where "n = es ! nx"
    define es1 where "es1 = es[current := n\<lparr>rpsl := rpsl n - 1\<rparr>]"
    have prev: "occupied (es ! current)" "rpsl n \<le> rpsl (es ! current) + 1"
      using shape_prev [OF Suc.prems(1,2)] True by (auto simp: n_def nx_def)
    note slot = shape_slot [OF Suc.prems(1) nx(1)]
    have sh1: "shape hf cap es1" unfolding es1_def
    proof (rule shape_put [OF Suc.prems(1,2)])
      show "occupied n" "rhash n = hf (rkey n)" "rkey n \<noteq> 0" using True slot by (auto simp: n_def)
      have "(rhash n + (rpsl n - 1) + 1) mod cap = nx" using True slot unfolding n_def by fastforce
      then have "((rhash n + (rpsl n - 1)) mod cap + 1) mod cap = (current + 1) mod cap" by (simp only: mod_add_left_eq nx_def)
      then show "(rhash n + (rpsl n - 1)) mod cap = current"
        using succ_mod_inj [of "(rhash n + (rpsl n - 1)) mod cap" cap current] Suc.prems(2) len by simp
      show "occupied (es ! j) \<and> rpsl n - 1 \<le> rpsl (es ! j) + 1" if j: "j < cap" "(j + 1) mod cap = current" "0 < rpsl n - 1" for j
        using shape_prev [OF Suc.prems(1) j(1)] prev j by auto
      show "rpsl (es ! ((current + 1) mod cap)) \<le> rpsl n - 1 + 1" using True by (simp add: n_def nx_def)
    qed
    have nth1: "es1 ! ((current + j) mod cap) = es ! ((current + j) mod cap)" if "0 < j" "j < cap" for j
      using add_mod_neq [OF Suc.prems(2) that] by (simp add: es1_def)
    have far: "(nx + (d + 1)) mod cap = (current + (Suc d + 1)) mod cap" unfolding nx_def succ_add_mod by simp
    have n1: "es1 ! nx = n" using nx by (simp add: es1_def n_def)
    have "\<exists>es'. shift_loop cap es1 nx = Some es' \<and> shape hf cap es' \<and> contents es' + contrib (es1 ! nx) = contents es1"
    proof (rule Suc.IH [OF sh1 nx(1)])
      show "occupied (es1 ! nx)" using True by (simp add: n1) (simp add: n_def)
      show "d + 1 < cap" using Suc.prems(4) by simp
      show "\<not> occupied (es1 ! ((nx + (d + 1)) mod cap))"
        unfolding far using nth1 [of "Suc d + 1"] Suc.prems(4,5) by simp
    qed
    then obtain es' where r: "shift_loop cap es1 nx = Some es'" "shape hf cap es'" "contents es' + contrib n = contents es1"
      unfolding n1 by blast
    have "contents es1 + contrib (es ! current) = contents es + contrib n"
      using contents_update [OF len(1), of "n\<lparr>rpsl := rpsl n - 1\<rparr>"] by (simp add: es1_def contrib_def)
    then have "contents es' + contrib (es ! current) = contents es" using r(3)
      by (metis add.assoc add.commute add_right_cancel)
    moreover have "shift_loop cap es current = shift_loop cap es1 nx"
      unfolding es1_def n_def nx_def by (rule shift_steps(2)) (use True in \<open>auto simp: nx_def\<close>)
    ultimately show ?thesis using r by auto
  qed
qed


subsection \<open>Contents as a map\<close>

text \<open>What the callbacks of a map have to satisfy: key equality is an equivalence, and equal keys have equal hashes.\<close>

definition key_laws :: "(ptr \<Rightarrow> nat) \<Rightarrow> (ptr \<Rightarrow> ptr \<Rightarrow> bool) \<Rightarrow> bool" where
  "key_laws hf eqf \<longleftrightarrow> (\<forall>a. eqf a a) \<and> (\<forall>a b. eqf a b \<longrightarrow> eqf b a \<and> hf a = hf b) \<and> (\<forall>a b c. eqf a b \<longrightarrow> eqf b c \<longrightarrow> eqf a c)"

definition distinct_keys :: "(ptr \<Rightarrow> ptr \<Rightarrow> bool) \<Rightarrow> (ptr \<times> ptr) multiset \<Rightarrow> bool" where
  "distinct_keys eqf C \<longleftrightarrow> (\<forall>p \<in># C. \<forall>q \<in># C - {#p#}. \<not> eqf (fst p) (fst q))"

definition without :: "(ptr \<Rightarrow> ptr \<Rightarrow> bool) \<Rightarrow> (ptr \<times> ptr) multiset \<Rightarrow> ptr \<Rightarrow> (ptr \<times> ptr) multiset" where
  "without eqf C key = filter_mset (\<lambda>p. \<not> eqf (fst p) key) C"

lemma key_laws_D:
  assumes "key_laws hf eqf"
  shows "eqf a a" "eqf a b \<Longrightarrow> eqf b a" "eqf a b \<Longrightarrow> hf a = hf b" "eqf a b \<Longrightarrow> eqf b c \<Longrightarrow> eqf a c"
  using assms unfolding key_laws_def by blast+

lemma distinct_keys_D:
  "distinct_keys eqf (add_mset p D) \<Longrightarrow> q \<in># D \<Longrightarrow> \<not> eqf (fst p) (fst q)"
  by (auto simp: distinct_keys_def)

lemma distinct_keys_mono:
  assumes "distinct_keys eqf C" "D \<subseteq># C"
  shows "distinct_keys eqf D"
  unfolding distinct_keys_def
proof (intro ballI)
  fix p q assume "p \<in># D" "q \<in># D - {#p#}"
  then have "p \<in># C" "q \<in># C - {#p#}"
    using mset_subset_eqD [OF assms(2)] mset_subset_eq_count [OF assms(2), of q] by (auto simp: in_diff_count)
  then show "\<not> eqf (fst p) (fst q)" using assms(1) by (auto simp: distinct_keys_def)
qed

lemma without_present:
  assumes "key_laws hf eqf" "distinct_keys eqf C" "(k, v) \<in># C" "eqf k key"
  shows "add_mset (k, v) (without eqf C key) = C"
proof -
  obtain D where C: "C = add_mset (k, v) D" using assms(3) by (meson multi_member_split)
  have "\<not> eqf (fst q) key" if q: "q \<in># D" for q
  proof
    assume "eqf (fst q) key"
    then have "eqf k (fst q)" by (rule key_laws_D(4) [OF assms(1,4) key_laws_D(2) [OF assms(1)]])
    then show False using distinct_keys_D [OF assms(2) [unfolded C] q] by simp
  qed
  then have "without eqf D key = D" by (simp add: without_def filter_mset_eq_conv)
  then show ?thesis using assms(4) by (simp add: C without_def)
qed

lemma without_absent: "(\<And>p. p \<in># C \<Longrightarrow> \<not> eqf (fst p) key) \<Longrightarrow> without eqf C key = C"
  by (simp add: without_def filter_mset_eq_conv)

lemma distinct_keys_put:
  assumes "key_laws hf eqf" "distinct_keys eqf C"
  shows "distinct_keys eqf (add_mset (k, v) (without eqf C k))"
proof -
  have d: "distinct_keys eqf (without eqf C k)" by (rule distinct_keys_mono [OF assms(2)]) (simp add: without_def)
  have n: "\<not> eqf (fst q) k \<and> \<not> eqf k (fst q)" if "q \<in># without eqf C k" for q
    using that key_laws_D(2) [OF assms(1), of k "fst q"] by (auto simp: without_def)
  show ?thesis unfolding distinct_keys_def
  proof (intro ballI)
    fix p q assume p: "p \<in># add_mset (k, v) (without eqf C k)" and q: "q \<in># add_mset (k, v) (without eqf C k) - {#p#}"
    show "\<not> eqf (fst p) (fst q)"
    proof (cases "p = (k, v)")
      case True
      then show ?thesis using q n by auto
    next
      case False
      then have "p \<in># without eqf C k" "q = (k, v) \<or> q \<in># without eqf C k - {#p#}" using p q by (auto split: if_splits)
      then show ?thesis using n [of p] d by (auto simp: distinct_keys_def)
    qed
  qed
qed

definition rh_ok :: "RHMap \<Rightarrow> bool" where
  "rh_ok hm \<longleftrightarrow> shape (hash_func hm) (rcapacity hm) (entries hm) \<and> rsize hm = size (contents (entries hm)) \<and>
     rsize hm < rcapacity hm \<and> DEFAULT_CAPACITY \<le> rcapacity hm \<and> distinct_keys (eq_func hm) (contents (entries hm)) \<and> key_laws (hash_func hm) (eq_func hm)"

definition rh_abs :: "RHMap \<Rightarrow> ptr \<Rightarrow> ptr option" where
  "rh_abs hm key = map_option rvalue (List.find (\<lambda>e. occupied e \<and> eq_func hm (rkey e) key) (entries hm))"

lemma contents_two:
  assumes "i < length es" "j < length es" "i \<noteq> j" "occupied (es ! i)" "occupied (es ! j)"
  shows "(rkey (es ! j), rvalue (es ! j)) \<in># contents es - {#(rkey (es ! i), rvalue (es ! i))#}"
proof -
  have "contents (es[i := empty_entry]) + contrib (es ! i) = contents es + contrib empty_entry"
    by (rule contents_update [OF assms(1)])
  then have "contents es - {#(rkey (es ! i), rvalue (es ! i))#} = contents (es[i := empty_entry])"
    using assms(4) by (simp add: contrib_def empty_entry_def) (metis add_mset_remove_trivial)
  moreover have "(rkey (es ! j), rvalue (es ! j)) \<in># contents (es[i := empty_entry])"
    unfolding in_contents by (rule exI [of _ j]) (use assms in auto)
  ultimately show ?thesis by simp
qed

lemma slot_unique:
  assumes "rh_ok hm" "i < rcapacity hm" "j < rcapacity hm" "occupied (entries hm ! i)" "occupied (entries hm ! j)"
    and "eq_func hm (rkey (entries hm ! i)) key" "eq_func hm (rkey (entries hm ! j)) key"
  shows "i = j"
proof (rule ccontr)
  assume ne: "i \<noteq> j"
  have len: "length (entries hm) = rcapacity hm" using assms(1) by (simp add: rh_ok_def shape_def)
  have kl: "key_laws (hash_func hm) (eq_func hm)" using assms(1) by (simp add: rh_ok_def)
  have "(rkey (entries hm ! i), rvalue (entries hm ! i)) \<in># contents (entries hm)"
    using assms len by (auto simp: in_contents)
  moreover have "(rkey (entries hm ! j), rvalue (entries hm ! j)) \<in># contents (entries hm) - {#(rkey (entries hm ! i), rvalue (entries hm ! i))#}"
    by (rule contents_two) (use assms ne len in auto)
  ultimately have "\<not> eq_func hm (rkey (entries hm ! i)) (rkey (entries hm ! j))"
    using assms(1) unfolding rh_ok_def distinct_keys_def by fastforce
  then show False using key_laws_D [OF kl] assms(6,7) by blast
qed

lemma rh_abs_contents:
  assumes ok: "rh_ok hm"
  shows "rh_abs hm key = Some v \<longleftrightarrow> (\<exists>k. (k, v) \<in># contents (entries hm) \<and> eq_func hm k key)"
proof
  assume "rh_abs hm key = Some v"
  then obtain e where "List.find (\<lambda>e. occupied e \<and> eq_func hm (rkey e) key) (entries hm) = Some e" "v = rvalue e"
    by (auto simp: rh_abs_def)
  then show "\<exists>k. (k, v) \<in># contents (entries hm) \<and> eq_func hm k key"
    by (auto simp: find_Some_iff in_contents)
next
  assume "\<exists>k. (k, v) \<in># contents (entries hm) \<and> eq_func hm k key"
  then obtain i where i: "i < length (entries hm)" "occupied (entries hm ! i)" "v = rvalue (entries hm ! i)" "eq_func hm (rkey (entries hm ! i)) key"
    by (auto simp: in_contents)
  have len: "length (entries hm) = rcapacity hm" using ok by (simp add: rh_ok_def shape_def)
  have "List.find (\<lambda>e. occupied e \<and> eq_func hm (rkey e) key) (entries hm) = Some (entries hm ! i)"
    unfolding find_Some_iff
  proof (intro exI [of _ i] conjI allI impI i(1))
    fix j assume j: "j < i"
    show "\<not> (occupied (entries hm ! j) \<and> eq_func hm (rkey (entries hm ! j)) key)"
      using slot_unique [OF ok, where i = j and j = i and key = key] i j len by auto
  qed (use i in auto)
  then show "rh_abs hm key = Some v" using i by (simp add: rh_abs_def)
qed


lemma rh_abs_None: "rh_ok hm \<Longrightarrow> rh_abs hm key = None \<longleftrightarrow> (\<forall>p \<in># contents (entries hm). \<not> eq_func hm (fst p) key)"
  using rh_abs_contents [of hm key] by (cases "rh_abs hm key") fastforce+

lemma shape_length: "shape hf cap es \<Longrightarrow> length es = cap"
  unfolding shape_def by blast

lemma rh_ok_D:
  assumes "rh_ok hm"
  shows "shape (hash_func hm) (rcapacity hm) (entries hm)" "length (entries hm) = rcapacity hm"
    "key_laws (hash_func hm) (eq_func hm)" "distinct_keys (eq_func hm) (contents (entries hm))" "rsize hm = size (contents (entries hm))"
    "rsize hm < rcapacity hm" "DEFAULT_CAPACITY \<le> rcapacity hm"
  using assms shape_length unfolding rh_ok_def by blast+

lemma present_slot:
  assumes ok: "rh_ok hm" and some: "rh_abs hm key = Some v"
  obtains i where "i < rcapacity hm" "occupied (entries hm ! i)" "matches hm key (entries hm ! i)" "v = rvalue (entries hm ! i)"
    "\<And>j. j < rcapacity hm \<Longrightarrow> occupied (entries hm ! j) \<Longrightarrow> matches hm key (entries hm ! j) \<Longrightarrow> j = i"
proof -
  note sh = rh_ok_D(1) [OF ok] and len = rh_ok_D(2) [OF ok] and kl = rh_ok_D(3) [OF ok]
  obtain i where i: "i < rcapacity hm" "occupied (entries hm ! i)" "v = rvalue (entries hm ! i)" "eq_func hm (rkey (entries hm ! i)) key"
    using some unfolding rh_abs_contents [OF ok] in_contents len by auto
  have m: "matches hm key (entries hm ! i)"
    unfolding matches_def using shape_slot [OF sh i(1,2)] key_laws_D(3) [OF kl i(4)] i(4) by metis
  have "j = i" if "j < rcapacity hm" "occupied (entries hm ! j)" "matches hm key (entries hm ! j)" for j
    using slot_unique [OF ok that(1) i(1) that(2) i(2) _ i(4)] that(3) by (simp add: matches_def)
  then show ?thesis by (rule that [OF i(1,2) m i(3)])
qed

lemma absent_slot:
  assumes ok: "rh_ok hm" and none: "rh_abs hm key = None" and j: "j < rcapacity hm" "occupied (entries hm ! j)"
  shows "\<not> matches hm key (entries hm ! j)"
proof -
  have "length (entries hm) = rcapacity hm" using ok by (auto simp: rh_ok_def shape_def)
  then have "(rkey (entries hm ! j), rvalue (entries hm ! j)) \<in># contents (entries hm)" using j by (auto simp: in_contents)
  then show ?thesis using none unfolding rh_abs_None [OF ok] matches_def by fastforce
qed

lemma size_contents: "size (contents es) = length (filter occupied es)"
  by (induction es) (auto simp: contents_def contrib_def)

lemma empty_slot:
  assumes ok: "rh_ok hm" and idx: "index < rcapacity hm"
  obtains d where "d < rcapacity hm" "\<not> occupied (entries hm ! ((index + d) mod rcapacity hm))"
    "\<And>j. j < d \<Longrightarrow> occupied (entries hm ! ((index + j) mod rcapacity hm))"
proof -
  define cap where "cap = rcapacity hm"
  have len: "length (entries hm) = cap" "0 < cap" using ok by (auto simp: rh_ok_def shape_def cap_def)
  have "length (filter occupied (entries hm)) < length (entries hm)"
    using ok len size_contents [of "entries hm"] by (simp add: rh_ok_def cap_def)
  then obtain s where s: "s < cap" "\<not> occupied (entries hm ! s)"
    using len by (metis filter_True in_set_conv_nth less_irrefl)
  define d where "d = (if index \<le> s then s - index else s + cap - index)"
  have d: "(index + d) mod cap = s" "d < cap" using s idx by (auto simp: d_def cap_def)
  define P where "P = (\<lambda>d. \<not> occupied (entries hm ! ((index + d) mod cap)))"
  have "P d" using d s(2) by (simp add: P_def)
  then have "P (LEAST d. P d)" "(LEAST d. P d) \<le> d" by (rule LeastI, rule Least_le)
  moreover have "\<not> P j" if "j < (LEAST d. P d)" for j using not_less_Least that by blast
  ultimately show ?thesis using that [of "LEAST d. P d"] d(2) unfolding P_def cap_def by (meson le_less_trans)
qed

lemma probe_correct:
  assumes ok: "rh_ok hm"
  shows "(case rh_abs hm key of
      None \<Rightarrow> probe_loop hm (hash_func hm key) key 0 (hash_func hm key mod rcapacity hm) = Some None
    | Some v \<Rightarrow> \<exists>i < rcapacity hm. probe_loop hm (hash_func hm key) key 0 (hash_func hm key mod rcapacity hm) = Some (Some i) \<and>
        occupied (entries hm ! i) \<and> eq_func hm (rkey (entries hm ! i)) key \<and> rvalue (entries hm ! i) = v)"
proof (cases "rh_abs hm key")
  case None
  have idx: "hash_func hm key mod rcapacity hm < rcapacity hm" using ok by (auto simp: rh_ok_def shape_def)
  obtain d where "\<not> occupied (entries hm ! ((hash_func hm key mod rcapacity hm + d) mod rcapacity hm))"
    using empty_slot [OF ok idx] by blast
  then show ?thesis using probe_absent [OF absent_slot [OF ok None] idx] None by simp
next
  case (Some v)
  then obtain i where i: "i < rcapacity hm" "occupied (entries hm ! i)" "matches hm key (entries hm ! i)" "v = rvalue (entries hm ! i)"
    "\<And>j. j < rcapacity hm \<Longrightarrow> occupied (entries hm ! j) \<Longrightarrow> matches hm key (entries hm ! j) \<Longrightarrow> j = i"
    using present_slot [OF ok Some] by metis
  have sh: "shape (hash_func hm) (rcapacity hm) (entries hm)" using ok by (simp add: rh_ok_def)
  have "probe_loop hm (hash_func hm key) key 0 (hash_func hm key mod rcapacity hm) = Some (Some i)"
    using probe_present [OF sh i(1-3) i(5), of 0] by simp
  then show ?thesis using Some i(1-4) by (auto simp: matches_def)
qed

lemma hashmap_get_abs:
  assumes ok: "rh_ok hm" and key: "key \<noteq> 0"
  shows "hashmap_get (Some hm) key = Some (case rh_abs hm key of None \<Rightarrow> 0 | Some v \<Rightarrow> v)"
  using probe_correct [OF ok, of key] key by (auto simp: hashmap_get_def Let_def split: option.splits)

lemma hashmap_put_contents:
  assumes ok: "rh_ok hm" and key: "key \<noteq> 0" and room: "rsize hm + 1 < rcapacity hm"
  shows "\<exists>es n fr. hashmap_put hm key v = Some (hm\<lparr>entries := es, rsize := n\<rparr>, fr) \<and> rh_ok (hm\<lparr>entries := es, rsize := n\<rparr>) \<and>
    contents es = add_mset (key, v) (without (eq_func hm) (contents (entries hm)) key) \<and>
    (rh_abs hm key = None \<longrightarrow> fr = []) \<and> (\<forall>w. value_frees hm \<and> rh_abs hm key = Some w \<longrightarrow> w \<in> set fr)"
proof -
  define e where "e = \<lparr>rkey = key, rvalue = v, rhash = hash_func hm key, rpsl = 0, occupied = True\<rparr>"
  define idx where "idx = hash_func hm key mod rcapacity hm"
  define C where "C = contents (entries hm)"
  have sh: "shape (hash_func hm) (rcapacity hm) (entries hm)" and kl: "key_laws (hash_func hm) (eq_func hm)"
    and dk: "distinct_keys (eq_func hm) C" and sz: "rsize hm = size C" using ok by (auto simp: rh_ok_def C_def)
  have len: "length (entries hm) = rcapacity hm" "idx < rcapacity hm" using sh by (auto simp: shape_def idx_def)
  show ?thesis
  proof (cases "rh_abs hm key")
    case None
    obtain d where d: "d < rcapacity hm" "\<not> occupied (entries hm ! ((idx + d) mod rcapacity hm))"
      "\<And>j. j < d \<Longrightarrow> occupied (entries hm ! ((idx + j) mod rcapacity hm))" using empty_slot [OF ok len(2)] by metis
    have "\<exists>es'. rh_insert_loop hm (hash_func hm key) key v (entries hm) e 0 idx = Some (es', True, []) \<and>
      shape (hash_func hm) (rcapacity hm) es' \<and> contents es' = contents (entries hm) + {#(rkey e, rvalue e)#}"
    proof (rule insert_absent [OF sh len(2) _ _ _ _ _ d(1,2)])
      fix j assume j: "j < d"
      show "\<not> matches hm key (entries hm ! ((idx + j) mod rcapacity hm))"
        by (rule absent_slot [OF ok None]) (use d(3) [OF j] len in auto)
    qed (use key in \<open>auto simp: e_def idx_def\<close>)
    then obtain es' where es': "rh_insert_loop hm (hash_func hm key) key v (entries hm) e 0 idx = Some (es', True, [])"
      "shape (hash_func hm) (rcapacity hm) es'" "contents es' = add_mset (key, v) C" by (auto simp: e_def C_def)
    have w: "without (eq_func hm) C key = C" using None unfolding rh_abs_None [OF ok] C_def by (intro without_absent) blast
    have "hashmap_put hm key v = Some (hm\<lparr>entries := es', rsize := rsize hm + 1\<rparr>, [])"
      using es'(1) by (simp add: hashmap_put_def Let_def e_def idx_def)
    moreover have "rh_ok (hm\<lparr>entries := es', rsize := rsize hm + 1\<rparr>)"
      using es' kl sz room rh_ok_D(7) [OF ok] distinct_keys_put [OF kl dk, of key v] by (simp add: rh_ok_def w)
    ultimately show ?thesis using es'(3) w None unfolding C_def by auto
  next
    case (Some u)
    then obtain i where i: "i < rcapacity hm" "occupied (entries hm ! i)" "matches hm key (entries hm ! i)" "u = rvalue (entries hm ! i)"
      "\<And>j. j < rcapacity hm \<Longrightarrow> occupied (entries hm ! j) \<Longrightarrow> matches hm key (entries hm ! j) \<Longrightarrow> j = i"
      using present_slot [OF ok Some] by metis
    define fr where "fr = (if value_frees hm then [rvalue (entries hm ! i)] else []) @
       (if key_frees hm \<and> rkey (entries hm ! i) \<noteq> key then [rkey (entries hm ! i)] else [])"
    define es' where "es' = (entries hm)[i := (entries hm ! i)\<lparr>rvalue := v, rkey := key\<rparr>]"
    have "rh_insert_loop hm (hash_func hm key) key v (entries hm) e 0 idx = Some (es', False, fr)"
      using insert_present [OF sh i(1-3) i(5), of 0 v e] by (simp add: fr_def es'_def idx_def)
    then have put: "hashmap_put hm key v = Some (hm\<lparr>entries := es', rsize := rsize hm\<rparr>, fr)"
      by (simp add: hashmap_put_def Let_def e_def idx_def)
    have slot: "(rhash (entries hm ! i) + rpsl (entries hm ! i)) mod rcapacity hm = i" using shape_slot [OF sh i(1,2)] by blast
    have sh': "shape (hash_func hm) (rcapacity hm) es'"
      using shape_put [OF sh i(1), of "(entries hm ! i)\<lparr>rvalue := v, rkey := key\<rparr>" "rpsl (entries hm ! i)"]
        i(2,3) slot key shape_prev [OF sh] shape_prev [OF sh i(1)] by (auto simp: es'_def matches_def)
    have "contents es' + {#(rkey (entries hm ! i), u)#} = C + {#(key, v)#}"
      using contents_update [of i "entries hm" "(entries hm ! i)\<lparr>rvalue := v, rkey := key\<rparr>"] i(1,2,4) len
      by (simp add: es'_def contrib_def C_def)
    moreover have "add_mset (rkey (entries hm ! i), u) (without (eq_func hm) C key) = C"
      by (rule without_present [OF kl dk]) (use i(1-4) len in \<open>auto simp: C_def in_contents matches_def\<close>)
    ultimately have c: "contents es' = add_mset (key, v) (without (eq_func hm) C key)"
      by (metis add_mset_add_single add_mset_commute add_mset_remove_trivial)
    have "size C = size (contents es')" unfolding c
      by (subst \<open>add_mset _ (without (eq_func hm) C key) = C\<close> [symmetric]) simp
    then have "rh_ok (hm\<lparr>entries := es', rsize := rsize hm\<rparr>)"
      using sh' kl sz room rh_ok_D(7) [OF ok] distinct_keys_put [OF kl dk, of key v] by (simp add: rh_ok_def c)
    then show ?thesis using put c Some i(4) unfolding C_def
      by (intro exI [of _ es'] exI [of _ "rsize hm"] exI [of _ fr]) (auto simp: fr_def)
  qed
qed

lemma rh_abs_put:
  assumes "rh_ok hm" "rh_ok hm'" "eq_func hm' = eq_func hm"
    and c: "contents (entries hm') = add_mset (key, v) (without (eq_func hm) (contents (entries hm)) key)"
  shows "rh_abs hm' k = (if eq_func hm key k then Some v else rh_abs hm k)"
proof -
  note kl = rh_ok_D(3) [OF assms(1)]
  have sep: "eq_func hm k' key \<longleftrightarrow> eq_func hm key k" if "eq_func hm k' k" for k'
    using key_laws_D(2,4) [OF kl] that by blast
  have "rh_abs hm' k = Some w \<longleftrightarrow> (if eq_func hm key k then Some v else rh_abs hm k) = Some w" for w
    unfolding rh_abs_contents [OF assms(2)] c assms(3) using sep rh_abs_contents [OF assms(1), of k w]
    by (auto simp: without_def)
  then show ?thesis by (metis option.exhaust)
qed

subsection \<open>Resizing\<close>

lemma hashmap_insert_no_resize:
  "hashmap_insert (Suc n) alloc (Some hm) key v = map_option (\<lambda>(m, fr). (True, Some m, fr)) (hashmap_put hm key v)"
  if "key \<noteq> 0" "4 * rsize hm < 3 * rcapacity hm"
  using that by (simp add: split: option.splits)

definition reinsert :: "nat \<Rightarrow> (nat \<Rightarrow> bool) \<Rightarrow> (RHMap \<times> ptr list) option \<Rightarrow> RHEntry \<Rightarrow> (RHMap \<times> ptr list) option" where
  "reinsert n alloc acc e = (case acc of None \<Rightarrow> None
     | Some (m, fr) \<Rightarrow>
         if occupied e then
           (case (case hashmap_insert n alloc (Some m) (rkey e) (rvalue e) of None \<Rightarrow> None
                  | Some (b, mo, fr) \<Rightarrow> map_option (\<lambda>m. (b, m, fr)) mo) of None \<Rightarrow> None | Some (_, m', fr') \<Rightarrow> Some (m', fr @ fr'))
         else Some (m, fr))"

lemma reinsert_ok:
  assumes "rh_ok m" "list_all (\<lambda>e. occupied e \<longrightarrow> rkey e \<noteq> 0) es"
    and "distinct_keys (eq_func m) (contents (entries m) + contents es)"
    and "rsize m + size (contents es) = sz" "4 * sz < 3 * rcapacity m" "sz + 1 < rcapacity m"
  shows "\<exists>es' n. foldl (reinsert (Suc 0) alloc) (Some (m, [])) es = Some (m\<lparr>entries := es', rsize := n\<rparr>, []) \<and>
    rh_ok (m\<lparr>entries := es', rsize := n\<rparr>) \<and> contents es' = contents (entries m) + contents es"
  using assms
proof (induction es arbitrary: m)
  case Nil
  show ?case by (intro exI [of _ "entries m"] exI [of _ "rsize m"]) (use Nil(1) in \<open>simp add: contents_def\<close>)
next
  case (Cons e es)
  have ce: "contents (e # es) = contrib e + contents es" by (simp add: contents_def)
  show ?case
  proof (cases "occupied e")
    case False
    then have "reinsert (Suc 0) alloc (Some (m, [])) e = Some (m, [])" by (simp add: reinsert_def)
    then show ?thesis using Cons.IH [OF Cons.prems(1)] Cons.prems False by (simp add: ce contrib_def)
  next
    case True
    have k: "rkey e \<noteq> 0" using Cons.prems(2) True by simp
    have le: "rsize m + 1 \<le> sz" using Cons.prems(4) True by (simp add: ce contrib_def)
    have dk: "distinct_keys (eq_func m) (add_mset (rkey e, rvalue e) (contents (entries m) + contents es))"
      using Cons.prems(3) True by (simp add: ce contrib_def)
    have "\<not> eq_func m (fst p) (rkey e)" if "p \<in># contents (entries m)" for p
      using distinct_keys_D [OF dk, of p] that key_laws_D(2) [OF rh_ok_D(3) [OF Cons.prems(1)], of "fst p" "rkey e"] by auto
    then have w: "without (eq_func m) (contents (entries m)) (rkey e) = contents (entries m)" and none: "rh_abs m (rkey e) = None"
      by (auto simp: without_absent rh_abs_None [OF Cons.prems(1)])
    obtain es1 n1 fr where put: "hashmap_put m (rkey e) (rvalue e) = Some (m\<lparr>entries := es1, rsize := n1\<rparr>, fr)"
      "rh_ok (m\<lparr>entries := es1, rsize := n1\<rparr>)" "contents es1 = add_mset (rkey e, rvalue e) (contents (entries m))" "fr = []"
      using hashmap_put_contents [OF Cons.prems(1) k, of "rvalue e"] le Cons.prems(6) none w by auto
    have n1: "n1 = rsize m + 1" using rh_ok_D(5) [OF put(2)] rh_ok_D(5) [OF Cons.prems(1)] by (simp add: put(3))
    have "4 * rsize m < 3 * rcapacity m" using Cons.prems(5) le by linarith
    then have "reinsert (Suc 0) alloc (Some (m, [])) e = Some (m\<lparr>entries := es1, rsize := n1\<rparr>, [])"
      using hashmap_insert_no_resize [OF k, of m 0 alloc "rvalue e"] put(1,4) True by (simp add: reinsert_def del: hashmap_insert.simps)
    moreover have "\<exists>es' n. foldl (reinsert (Suc 0) alloc) (Some (m\<lparr>entries := es1, rsize := n1\<rparr>, [])) es =
      Some (m\<lparr>entries := es1, rsize := n1\<rparr>\<lparr>entries := es', rsize := n\<rparr>, []) \<and>
      rh_ok (m\<lparr>entries := es1, rsize := n1\<rparr>\<lparr>entries := es', rsize := n\<rparr>) \<and>
      contents es' = contents (entries (m\<lparr>entries := es1, rsize := n1\<rparr>)) + contents es"
      by (rule Cons.IH [OF put(2)]) (use Cons.prems(2,4-6) dk put(3) n1 True in \<open>simp_all add: ce contrib_def\<close>)
    ultimately show ?thesis using put(3) True by (simp add: ce contrib_def)
  qed
qed

lemma shape_empty: "2 \<le> cap \<Longrightarrow> shape hf cap (replicate cap empty_entry)"
  by (auto simp: shape_def empty_entry_def)

lemma contents_empty: "contents (replicate cap empty_entry) = {#}"
  by (induction cap) (auto simp: contents_def contrib_def empty_entry_def)

lemma hashmap_resize_ok:
  assumes ok: "rh_ok hm"
  shows "\<exists>c es n. hashmap_resize (\<lambda>m k v. case hashmap_insert (Suc 0) alloc (Some m) k v of None \<Rightarrow> None
             | Some (b, mo, fr) \<Rightarrow> map_option (\<lambda>m. (b, m, fr)) mo) alloc hm = Some (hm\<lparr>rcapacity := c, entries := es, rsize := n\<rparr>, []) \<and>
    rh_ok (hm\<lparr>rcapacity := c, entries := es, rsize := n\<rparr>) \<and> contents es = contents (entries hm) \<and>
    (if alloc (rcapacity hm * 2 * sizeof_RHEntry) then c = rcapacity hm * 2 else c = rcapacity hm)"
proof (cases "alloc (rcapacity hm * 2 * sizeof_RHEntry)")
  case False
  then show ?thesis using ok
    by (intro exI [of _ "rcapacity hm"] exI [of _ "entries hm"] exI [of _ "rsize hm"]) (simp add: hashmap_resize_def Let_def)
next
  case True
  define c where "c = rcapacity hm * 2"
  define m where "m = hm\<lparr>rcapacity := c, entries := replicate c empty_entry, rsize := 0\<rparr>"
  note D = rh_ok_D [OF ok]
  have two: "2 \<le> rcapacity hm" using D(1) unfolding shape_def by blast
  have m: "rh_ok m" using D(3,7) two shape_empty [of c "hash_func hm"] by (simp add: m_def rh_ok_def c_def contents_empty distinct_keys_def)
  have "\<exists>es' n. foldl (reinsert (Suc 0) alloc) (Some (m, [])) (entries hm) = Some (m\<lparr>entries := es', rsize := n\<rparr>, []) \<and>
    rh_ok (m\<lparr>entries := es', rsize := n\<rparr>) \<and> contents es' = contents (entries m) + contents (entries hm)"
  proof (rule reinsert_ok [OF m, where sz = "rsize hm"])
    show "list_all (\<lambda>e. occupied e \<longrightarrow> rkey e \<noteq> 0) (entries hm)"
      unfolding list_all_length D(2) using shape_slot [OF D(1)] by blast
    show "distinct_keys (eq_func m) (contents (entries m) + contents (entries hm))"
      using D(4) by (simp add: m_def contents_empty)
    show "rsize m + size (contents (entries hm)) = rsize hm" using D(5) by (simp add: m_def)
    show "4 * rsize hm < 3 * rcapacity m" "rsize hm + 1 < rcapacity m" using D(6) two by (auto simp: m_def c_def)
  qed
  moreover have "hashmap_resize (\<lambda>m k v. case hashmap_insert (Suc 0) alloc (Some m) k v of None \<Rightarrow> None
             | Some (b, mo, fr) \<Rightarrow> map_option (\<lambda>m. (b, m, fr)) mo) alloc hm = foldl (reinsert (Suc 0) alloc) (Some (m, [])) (entries hm)"
    unfolding hashmap_resize_def Let_def reinsert_def [abs_def] m_def c_def using True by simp
  ultimately show ?thesis using True contents_empty by (auto simp: m_def c_def)
qed

lemma hashmap_insert_contents:
  assumes ok: "rh_ok hm" and key: "key \<noteq> 0"
    and room: "4 * rsize hm < 3 * rcapacity hm \<or> alloc (rcapacity hm * 2 * sizeof_RHEntry) \<or> rsize hm + 1 < rcapacity hm"
  shows "\<exists>hm' fr. hashmap_insert 2 alloc (Some hm) key v = Some (True, Some hm', fr) \<and> rh_ok hm' \<and>
    hash_func hm' = hash_func hm \<and> eq_func hm' = eq_func hm \<and> key_clone hm' = key_clone hm \<and>
    contents (entries hm') = add_mset (key, v) (without (eq_func hm) (contents (entries hm)) key) \<and>
    (rh_abs hm key = None \<longrightarrow> fr = []) \<and> (\<forall>w. value_frees hm \<and> rh_abs hm key = Some w \<longrightarrow> w \<in> set fr)"
proof (cases "4 * rsize hm < 3 * rcapacity hm")
  case True
  have "rsize hm + 1 < rcapacity hm" using True rh_ok_D(7) [OF ok] by (simp add: DEFAULT_CAPACITY_def)
  then show ?thesis
    using hashmap_put_contents [OF ok key, of v] hashmap_insert_no_resize [OF key True, of "Suc 0" alloc v]
    unfolding numeral_2_eq_2 by (auto simp del: hashmap_insert.simps)
next
  case False
  obtain c es n where r: "hashmap_resize (\<lambda>m k v. case hashmap_insert (Suc 0) alloc (Some m) k v of None \<Rightarrow> None
             | Some (b, mo, fr) \<Rightarrow> map_option (\<lambda>m. (b, m, fr)) mo) alloc hm = Some (hm\<lparr>rcapacity := c, entries := es, rsize := n\<rparr>, [])"
    "rh_ok (hm\<lparr>rcapacity := c, entries := es, rsize := n\<rparr>)" "contents es = contents (entries hm)"
    "if alloc (rcapacity hm * 2 * sizeof_RHEntry) then c = rcapacity hm * 2 else c = rcapacity hm"
    using hashmap_resize_ok [OF ok, of alloc] by blast
  define m where "m = hm\<lparr>rcapacity := c, entries := es, rsize := n\<rparr>"
  have n: "n = rsize hm" using rh_ok_D(5) [OF r(2)] rh_ok_D(5) [OF ok] r(3) by simp
  have abs: "rh_abs m key = rh_abs hm key"
    using rh_abs_contents [OF ok, of key] rh_abs_contents [OF r(2), of key, folded m_def] r(3)
    by (cases "rh_abs m key"; cases "rh_abs hm key") (auto simp: m_def)
  have "rsize m + 1 < rcapacity m" using r(4) n room False rh_ok_D(6) [OF ok] by (auto simp: m_def split: if_splits)
  then obtain es' n' fr where put: "hashmap_put m key v = Some (m\<lparr>entries := es', rsize := n'\<rparr>, fr)" "rh_ok (m\<lparr>entries := es', rsize := n'\<rparr>)"
    "contents es' = add_mset (key, v) (without (eq_func m) (contents (entries m)) key)"
    "rh_abs m key = None \<longrightarrow> fr = []" "\<forall>w. value_frees m \<and> rh_abs m key = Some w \<longrightarrow> w \<in> set fr"
    using hashmap_put_contents [OF r(2) [folded m_def] key, of v] by metis
  have "hashmap_insert (Suc (Suc 0)) alloc (Some hm) key v = Some (True, Some (m\<lparr>entries := es', rsize := n'\<rparr>), fr)"
    unfolding hashmap_insert.simps(2) [of "Suc 0"] using False key r(1) put(1)
    by (simp add: m_def del: hashmap_insert.simps)
  then show ?thesis using put r(3) abs unfolding numeral_2_eq_2
    by (intro exI [of _ "m\<lparr>entries := es', rsize := n'\<rparr>"] exI [of _ fr]) (simp add: m_def)
qed

subsection \<open>Removal\<close>

lemma hashmap_remove_contents:
  assumes ok: "rh_ok hm" and key: "key \<noteq> 0"
  shows "\<exists>es n fr. hashmap_remove (Some hm) key = Some (rh_abs hm key \<noteq> None, Some (hm\<lparr>entries := es, rsize := n\<rparr>), fr) \<and>
    rh_ok (hm\<lparr>entries := es, rsize := n\<rparr>) \<and> contents es = without (eq_func hm) (contents (entries hm)) key"
proof (cases "rh_abs hm key")
  case None
  then have w: "without (eq_func hm) (contents (entries hm)) key = contents (entries hm)"
    using rh_abs_None [OF ok] by (intro without_absent) blast
  have "hashmap_remove (Some hm) key = Some (False, Some hm, [])"
    using probe_correct [OF ok, of key] None key by (simp add: hashmap_remove_def Let_def)
  then show ?thesis using ok w None by (intro exI [of _ "entries hm"] exI [of _ "rsize hm"] exI [of _ "[]"]) simp
next
  case (Some v)
  then obtain i where i: "i < rcapacity hm" "probe_loop hm (hash_func hm key) key 0 (hash_func hm key mod rcapacity hm) = Some (Some i)"
    "occupied (entries hm ! i)" "eq_func hm (rkey (entries hm ! i)) key" "rvalue (entries hm ! i) = v"
    using probe_correct [OF ok, of key] by auto
  note D = rh_ok_D [OF ok]
  obtain d where d: "d < rcapacity hm" "\<not> occupied (entries hm ! ((i + d) mod rcapacity hm))" using empty_slot [OF ok i(1)] by blast
  then have "d \<noteq> 0" using i(1,3) by (cases d) auto
  then obtain d' where d': "d = d' + 1" by (metis Suc_eq_plus1 not0_implies_Suc)
  obtain es where es: "shift_loop (rcapacity hm) (entries hm) i = Some es" "shape (hash_func hm) (rcapacity hm) es"
    "contents es + contrib (entries hm ! i) = contents (entries hm)"
    using shift_ok [OF D(1) i(1,3), of d'] d unfolding d' by blast
  have mem: "(rkey (entries hm ! i), v) \<in># contents (entries hm)" using i D(2) by (auto simp: in_contents)
  have c: "contents es = without (eq_func hm) (contents (entries hm)) key"
    using es(3) without_present [OF D(3,4) mem i(4)] i(3,5) by (simp add: contrib_def) (metis add_mset_remove_trivial)
  have dk: "distinct_keys (eq_func hm) (contents es)"
    unfolding c by (rule distinct_keys_mono [OF D(4)]) (simp add: without_def)
  have sz: "rsize hm = size (contents es) + 1" using D(5) es(3) i(3) by (metis contrib_def size_single size_union)
  have "rh_ok (hm\<lparr>entries := es, rsize := rsize hm - 1\<rparr>)"
    using es(2) D(3,6,7) dk sz by (simp add: rh_ok_def)
  then show ?thesis using i(2) es(1) key Some c by (auto simp: hashmap_remove_def Let_def)
qed

lemma rh_abs_remove:
  assumes "rh_ok hm" "rh_ok hm'" "eq_func hm' = eq_func hm" "contents (entries hm') = without (eq_func hm) (contents (entries hm)) key"
  shows "rh_abs hm' k = (if eq_func hm key k then None else rh_abs hm k)"
proof -
  note kl = rh_ok_D(3) [OF assms(1)]
  have sep: "eq_func hm k' key \<longleftrightarrow> eq_func hm key k" if "eq_func hm k' k" for k'
    using key_laws_D(2,4) [OF kl] that by blast
  have "rh_abs hm' k = Some w \<longleftrightarrow> (if eq_func hm key k then None else rh_abs hm k) = Some w" for w
    unfolding rh_abs_contents [OF assms(2)] assms(3,4) using sep rh_abs_contents [OF assms(1), of k w]
    by (auto simp: without_def)
  then show ?thesis by (metis option.exhaust)
qed


lemma hashmap_insert_correct:
  assumes ok: "rh_ok hm" and key: "key \<noteq> 0"
    and room: "4 * rsize hm < 3 * rcapacity hm \<or> alloc (rcapacity hm * 2 * sizeof_RHEntry) \<or> rsize hm + 1 < rcapacity hm"
  shows "\<exists>hm' fr. hashmap_insert 2 alloc (Some hm) key v = Some (True, Some hm', fr) \<and> rh_ok hm' \<and>
    hash_func hm' = hash_func hm \<and> eq_func hm' = eq_func hm \<and> key_clone hm' = key_clone hm \<and>
    (\<forall>k. rh_abs hm' k = (if eq_func hm key k then Some v else rh_abs hm k)) \<and>
    (rh_abs hm key = None \<longrightarrow> fr = []) \<and> (\<forall>w. value_frees hm \<and> rh_abs hm key = Some w \<longrightarrow> w \<in> set fr)"
  using hashmap_insert_contents [where v = v and alloc = alloc, OF assms] rh_abs_put [OF ok] by metis

lemma hashmap_remove_correct:
  assumes ok: "rh_ok hm" and key: "key \<noteq> 0"
  shows "\<exists>hm' fr. hashmap_remove (Some hm) key = Some (rh_abs hm key \<noteq> None, Some hm', fr) \<and> rh_ok hm' \<and>
    hash_func hm' = hash_func hm \<and> eq_func hm' = eq_func hm \<and> key_clone hm' = key_clone hm \<and>
    (\<forall>k. rh_abs hm' k = (if eq_func hm key k then None else rh_abs hm k))"
proof -
  obtain es n fr where r: "hashmap_remove (Some hm) key = Some (rh_abs hm key \<noteq> None, Some (hm\<lparr>entries := es, rsize := n\<rparr>), fr)"
    "rh_ok (hm\<lparr>entries := es, rsize := n\<rparr>)" "contents es = without (eq_func hm) (contents (entries hm)) key"
    using hashmap_remove_contents [OF assms] by metis
  then show ?thesis using rh_abs_remove [OF ok r(2)] by simp
qed

lemma hashmap_create_correct:
  assumes "hashmap_create alloc n hf eqf kf vf kc = Some hm" "key_laws hf eqf"
  shows "rh_ok hm \<and> rh_abs hm k = None \<and> hash_func hm = hf \<and> eq_func hm = eqf \<and> key_clone hm = kc"
proof -
  have ok: "rh_ok hm" using assms shape_empty [of "max n 16" hf]
    by (auto simp: hashmap_create_def Let_def rh_ok_def contents_empty distinct_keys_def DEFAULT_CAPACITY_def max_def split: if_splits)
  have "contents (entries hm) = {#}" using assms(1) by (auto simp: hashmap_create_def Let_def contents_empty split: if_splits)
  then show ?thesis using ok rh_abs_None [OF ok, of k] assms(1) by (auto simp: hashmap_create_def Let_def split: if_splits)
qed

subsection \<open>Maps with integer keys\<close>

lemma key_laws_int: "key_laws hashmap_hash_int hashmap_equals_int"
  by (simp add: key_laws_def hashmap_equals_int_def)

definition int_map_ok :: "RHMap \<Rightarrow> bool" where
  "int_map_ok hm \<longleftrightarrow> rh_ok hm \<and> hash_func hm = hashmap_hash_int \<and> eq_func hm = hashmap_equals_int"

definition int_map_put :: "RHMap \<Rightarrow> ptr \<Rightarrow> ptr \<Rightarrow> RHMap" where
  "int_map_put hm k v = (case hashmap_insert 2 (\<lambda>_. True) (Some hm) k v of Some (_, Some hm', _) \<Rightarrow> hm' | _ \<Rightarrow> hm)"

definition int_map_remove :: "RHMap \<Rightarrow> ptr \<Rightarrow> RHMap" where
  "int_map_remove hm k = (case hashmap_remove (Some hm) k of Some (_, Some hm', _) \<Rightarrow> hm' | _ \<Rightarrow> hm)"

lemma int_map_put_ok:
  assumes "int_map_ok hm" "k \<noteq> 0"
  shows "int_map_ok (int_map_put hm k v) \<and> rh_abs (int_map_put hm k v) k' = (if k' = k then Some v else rh_abs hm k')"
  using hashmap_insert_correct [of hm k "\<lambda>_. True" v] assms
  by (auto simp: int_map_ok_def int_map_put_def hashmap_equals_int_def split: option.splits)

lemma int_map_remove_ok:
  assumes "int_map_ok hm" "k \<noteq> 0"
  shows "int_map_ok (int_map_remove hm k) \<and> rh_abs (int_map_remove hm k) k' = (if k' = k then None else rh_abs hm k')"
  using hashmap_remove_correct [of hm k] assms
  by (auto simp: int_map_ok_def int_map_remove_def hashmap_equals_int_def split: option.splits)

interpretation int_map: map_interface int_map_ok rh_abs int_map_put "\<lambda>m k. the (hashmap_get (Some m) k)" int_map_remove "\<lambda>k. k \<noteq> 0"
  by unfold_locales (simp_all add: int_map_put_ok int_map_remove_ok hashmap_get_abs int_map_ok_def [THEN iffD1, THEN conjunct1])

subsection \<open>Claims\<close>

text \<open>C20. The Robin Hood table refines a map from keys to values whenever an insertion has room: the table is less than three quarters full, or the allocator grants the table of twice the capacity, or a slot stays free after the insertion.  Then every probe loop ends, a lookup returns the value of the equal key or NULL, an insertion (with the rehash into the larger table, or without it when it is refused) changes the value of exactly the equal keys, and a removal with backward shift deletes exactly them; the order of probe distances, the size counter and the uniqueness of keys are kept. The key callbacks have to be an equivalence and a compatible hash.\<close>

theorem robin_hood_refines_map:
  assumes "rh_ok hm" "key \<noteq> 0"
    and "4 * rsize hm < 3 * rcapacity hm \<or> alloc (rcapacity hm * 2 * sizeof_RHEntry) \<or> rsize hm + 1 < rcapacity hm"
  shows "hashmap_get (Some hm) key = Some (case rh_abs hm key of None \<Rightarrow> 0 | Some v \<Rightarrow> v) \<and>
    (\<exists>hm' fr. hashmap_insert 2 alloc (Some hm) key v = Some (True, Some hm', fr) \<and> rh_ok hm' \<and>
       (\<forall>k. rh_abs hm' k = (if eq_func hm key k then Some v else rh_abs hm k)) \<and> (rh_abs hm key = None \<longrightarrow> fr = [])) \<and>
    (\<exists>hm' fr. hashmap_remove (Some hm) key = Some (rh_abs hm key \<noteq> None, Some hm', fr) \<and> rh_ok hm' \<and>
       (\<forall>k. rh_abs hm' k = (if eq_func hm key k then None else rh_abs hm k)))"
  using hashmap_get_abs [OF assms(1,2)] hashmap_insert_correct [where v = v and alloc = alloc, OF assms] hashmap_remove_correct [OF assms(1,2)]
  by (elim exE conjE) (intro conjI exI; assumption)

text \<open>C21. Inserting the value that a key already has, in a map that owns its values, releases that value and keeps it in the table.\<close>

theorem reinsert_releases_stored_value:
  assumes "rh_ok hm" "key \<noteq> 0" "rh_abs hm key = Some v" "value_frees hm"
    and "4 * rsize hm < 3 * rcapacity hm \<or> alloc (rcapacity hm * 2 * sizeof_RHEntry) \<or> rsize hm + 1 < rcapacity hm"
  shows "\<exists>hm' fr. hashmap_insert 2 alloc (Some hm) key v = Some (True, Some hm', fr) \<and> v \<in> set fr \<and>
    hashmap_get (Some hm') key = Some v"
proof -
  obtain hm' fr where r: "hashmap_insert 2 alloc (Some hm) key v = Some (True, Some hm', fr)" "rh_ok hm'"
    "rh_abs hm' key = (if eq_func hm key key then Some v else rh_abs hm key)" "v \<in> set fr"
    using hashmap_insert_correct [where v = v and alloc = alloc, OF assms(1,2,5)] assms(3,4) by blast
  then show ?thesis using hashmap_get_abs [OF r(2) assms(2)] assms(3) by (intro exI [of _ hm'] exI [of _ fr]) (simp split: if_splits)
qed

text \<open>After any sequence of insertions and removals of nonzero integer keys in a new integer map, a lookup gives what the last operation on the key left.\<close>

theorem int_map_history:
  assumes "hashmap_create alloc n hashmap_hash_int hashmap_equals_int kf vf kc = Some hm"
    and "list_all (\<lambda>op. (case op of Inl kv \<Rightarrow> fst kv | Inr k \<Rightarrow> k) \<noteq> 0) ops" "k \<noteq> 0"
  shows "hashmap_get (Some (foldl (\<lambda>m op. case op of Inl kv \<Rightarrow> int_map_put m (fst kv) (snd kv) | Inr k \<Rightarrow> int_map_remove m k) hm ops)) k =
    Some (case foldl (\<lambda>f op. case op of Inl kv \<Rightarrow> f(fst kv \<mapsto> snd kv) | Inr k \<Rightarrow> f(k := None)) Map.empty ops k of None \<Rightarrow> 0 | Some v \<Rightarrow> v)"
proof -
  have c: "rh_ok hm" "rh_abs hm = Map.empty" "int_map_ok hm"
    using hashmap_create_correct [OF assms(1) key_laws_int] by (auto simp: int_map_ok_def)
  have run: "int_map.run_op = (\<lambda>m op. case op of Inl kv \<Rightarrow> int_map_put m (fst kv) (snd kv) | Inr k \<Rightarrow> int_map_remove m k)"
    by (auto simp: fun_eq_iff int_map.run_op_def)
  from int_map.run_ops [OF c(3) assms(2,3)]
  have "int_map_ok (foldl int_map.run_op hm ops)" by blast
  then have "hashmap_get (Some (foldl int_map.run_op hm ops)) k = Some (case rh_abs (foldl int_map.run_op hm ops) k of None \<Rightarrow> 0 | Some v \<Rightarrow> v)"
    using hashmap_get_abs assms(3) by (simp add: int_map_ok_def)
  then show ?thesis using int_map.run_ops [OF c(3) assms(2,3)] unfolding c(2) run by simp
qed

definition rh_example :: RHMap where
  "rh_example = \<lparr>entries = replicate 16 empty_entry, rcapacity = 16, rsize = 0, hash_func = hashmap_hash_int, eq_func = hashmap_equals_int,
     key_frees = False, value_frees = True, key_clone = hashmap_clone_int\<rparr>"

lemma rh_example_create: "hashmap_create (\<lambda>_. True) 16 hashmap_hash_int hashmap_equals_int False True hashmap_clone_int = Some rh_example"
  by (simp add: hashmap_create_def Let_def DEFAULT_CAPACITY_def rh_example_def)

lemma rh_example_ok: "rh_ok rh_example" "rh_abs rh_example k = None"
  using hashmap_create_correct [OF rh_example_create key_laws_int] by auto

lemma rh_example_put: "int_map_ok (int_map_put rh_example 5 77)" "rh_abs (int_map_put rh_example 5 77) 5 = Some 77"
  using int_map_put_ok [of rh_example 5 77] rh_example_ok(1) by (auto simp: int_map_ok_def rh_example_def)

text \<open>Without that room the refinement fails.  In a full table whose growth is refused, the insertion of a new key displaces entries around the whole table until it meets the key it has just stored: it reports success, releases the new value although it keeps it, and has lost an entry.\<close>

definition full_table :: RHMap where
  "full_table = \<lparr>entries = map (\<lambda>k. \<lparr>rkey = k, rvalue = 100 + k, rhash = k, rpsl = 0, occupied = True\<rparr>) [16, 1, 2, 3, 4, 5, 6, 7, 8, 9, 10, 11, 12, 13, 14, 15],
     rcapacity = 16, rsize = 16, hash_func = (\<lambda>k. k), eq_func = hashmap_equals_int, key_frees = False, value_frees = True, key_clone = hashmap_clone_int\<rparr>"

definition full_after :: "RHEntry list" where
  "full_after = map (\<lambda>(k, n). \<lparr>rkey = k, rvalue = 100 + k, rhash = k, rpsl = n, occupied = True\<rparr>)
     (map (\<lambda>k. (k, 1)) [15, 16, 17, 2, 3, 4, 5, 6, 7, 8, 9, 10, 11, 12, 13, 14])"

lemma list_update_numeral: "(x # xs)[numeral n := v] = x # xs[pred_numeral n := v]"
  by (simp add: numeral_eq_Suc)

lemma full_insert_loop:
  "rh_insert_loop full_table 17 17 117 (entries full_table) \<lparr>rkey = 17, rvalue = 117, rhash = 17, rpsl = 0, occupied = True\<rparr> 0 1 =
     Some (full_after, False, [117])"
  by (simp add: rh_insert_loop.simps Let_def full_table_def full_after_def upt_rec_numeral hashmap_equals_int_def list_update_numeral)

lemma full_insert:
  "hashmap_insert 2 (\<lambda>_. False) (Some full_table) 17 117 = Some (True, Some (full_table\<lparr>entries := full_after\<rparr>), [117])"
  using full_insert_loop
  by (simp add: numeral_2_eq_2 hashmap_put_def Let_def hashmap_resize_def full_table_def)

lemma full_get:
  "hashmap_get (Some full_table) 1 = Some 101"
  "hashmap_get (Some (full_table\<lparr>entries := full_after\<rparr>)) 17 = Some 117"
  "hashmap_get (Some (full_table\<lparr>entries := full_after\<rparr>)) 1 = Some 0"
  by (simp_all add: hashmap_get_def probe_loop.simps Let_def full_table_def full_after_def hashmap_equals_int_def)

theorem full_table_loses_entry:
  "hashmap_get (Some full_table) 1 = Some 101 \<and>
   (\<exists>hm'. hashmap_insert 2 (\<lambda>_. False) (Some full_table) 17 117 = Some (True, Some hm', [117]) \<and>
      hashmap_get (Some hm') 17 = Some 117 \<and> hashmap_get (Some hm') 1 = Some 0)"
  using full_insert full_get by (intro conjI exI [of _ "full_table\<lparr>entries := full_after\<rparr>"])

theorem robin_hood_refines_map_witness:
  "hashmap_get (Some rh_example) 5 = Some 0 \<and> (\<exists>hm' fr. hashmap_insert 2 (\<lambda>_. True) (Some rh_example) 5 77 = Some (True, Some hm', fr) \<and> rh_abs hm' 5 = Some 77)"
  using robin_hood_refines_map [OF rh_example_ok(1), of 5 "\<lambda>_. True" 77] rh_example_ok(2) [of 5]
  by (auto simp: rh_example_def hashmap_equals_int_def)

theorem int_map_history_witness:
  "hashmap_get (Some (foldl (\<lambda>m op. case op of Inl kv \<Rightarrow> int_map_put m (fst kv) (snd kv) | Inr k \<Rightarrow> int_map_remove m k) rh_example
     [Inl (5, 77), Inl (21, 78), Inr 5, Inl (21, 79)])) 21 = Some 79"
  using int_map_history [OF rh_example_create, of "[Inl (5, 77), Inl (21, 78), Inr 5, Inl (21, 79)]" 21] by simp

theorem reinsert_releases_stored_value_witness:
  "\<exists>hm' fr. hashmap_insert 2 (\<lambda>_. True) (Some (int_map_put rh_example 5 77)) 5 77 = Some (True, Some hm', fr) \<and> 77 \<in> set fr \<and>
     hashmap_get (Some hm') 5 = Some 77"
proof (rule reinsert_releases_stored_value)
  show "rh_ok (int_map_put rh_example 5 77)" using rh_example_put(1) by (simp add: int_map_ok_def)
  show "rh_abs (int_map_put rh_example 5 77) 5 = Some 77" by (rule rh_example_put(2))
  obtain es n fr where "hashmap_put rh_example 5 77 = Some (rh_example\<lparr>entries := es, rsize := n\<rparr>, fr)"
    using hashmap_put_contents [OF rh_example_ok(1), of 5 77] by (auto simp: rh_example_def)
  then have "int_map_put rh_example 5 77 = rh_example\<lparr>entries := es, rsize := n\<rparr>"
    using hashmap_insert_no_resize [of 5 rh_example "Suc 0" "\<lambda>_. True" 77] unfolding int_map_put_def numeral_2_eq_2
    by (simp add: rh_example_def del: hashmap_insert.simps)
  then show "value_frees (int_map_put rh_example 5 77)" by (simp add: rh_example_def)
qed simp_all

end
