(* ===== verification/AetherSet.thy ===== *)
theory AetherSet
  imports RobinHood
begin

text \<open>
  Sets over the Robin Hood table (\<open>std/collections/aether_set.c\<close>): a set is a map whose
  values are a dummy pointer.  Union, intersection, difference and inclusion iterate over one set and ask
  the other one.  A set denotes the set of pointers equal, for its key callback, to a stored element.
  An outer \<open>None\<close> stands for a probe that does not end, and is shown not to occur.
\<close>

subsection \<open>Operations\<close>

record Set =
  smap :: RHMap

definition DUMMY_VALUE :: ptr where
  "DUMMY_VALUE = 1"

definition sizeof_Set :: nat where
  "sizeof_Set = 8"

definition set_create ::
    "(nat \<Rightarrow> bool) \<Rightarrow> nat \<Rightarrow> (ptr \<Rightarrow> nat) \<Rightarrow> (ptr \<Rightarrow> ptr \<Rightarrow> bool) \<Rightarrow> bool \<Rightarrow> (ptr \<Rightarrow> ptr) \<Rightarrow> Set option" where
  "set_create alloc initial_capacity hf eqf kf kc =
     (if \<not> alloc sizeof_Set then None
      else case hashmap_create alloc initial_capacity hf eqf kf False kc of None \<Rightarrow> None | Some hm \<Rightarrow> Some \<lparr>smap = hm\<rparr>)"

definition set_add :: "(nat \<Rightarrow> bool) \<Rightarrow> Set option \<Rightarrow> ptr \<Rightarrow> (bool \<times> Set option \<times> ptr list) option" where
  "set_add alloc so element =
     (case so of None \<Rightarrow> Some (False, None, [])
      | Some s \<Rightarrow> map_option (\<lambda>(b, mo, fr). (b, map_option (\<lambda>m. s\<lparr>smap := m\<rparr>) mo, fr))
                    (hashmap_insert 2 alloc (Some (smap s)) element DUMMY_VALUE))"

definition set_remove :: "Set option \<Rightarrow> ptr \<Rightarrow> (bool \<times> Set option \<times> ptr list) option" where
  "set_remove so element =
     (case so of None \<Rightarrow> Some (False, None, [])
      | Some s \<Rightarrow> map_option (\<lambda>(b, mo, fr). (b, map_option (\<lambda>m. s\<lparr>smap := m\<rparr>) mo, fr)) (hashmap_remove (Some (smap s)) element))"

definition set_contains :: "Set option \<Rightarrow> ptr \<Rightarrow> bool option" where
  "set_contains so element = (case so of None \<Rightarrow> Some False | Some s \<Rightarrow> hashmap_contains (Some (smap s)) element)"

definition set_clear :: "Set option \<Rightarrow> Set option \<times> ptr list" where
  "set_clear so = (case so of None \<Rightarrow> (None, [])
     | Some s \<Rightarrow> (case hashmap_clear (Some (smap s)) of (mo, fr) \<Rightarrow> (map_option (\<lambda>m. s\<lparr>smap := m\<rparr>) mo, fr)))"

definition set_size :: "Set option \<Rightarrow> nat" where
  "set_size so = (case so of None \<Rightarrow> 0 | Some s \<Rightarrow> hashmap_size (Some (smap s)))"

definition set_is_empty :: "Set option \<Rightarrow> bool" where
  "set_is_empty so = (case so of None \<Rightarrow> True | Some s \<Rightarrow> hashmap_is_empty (Some (smap s)))"

definition set_iterator :: "Set option \<Rightarrow> HashMapIterator" where
  "set_iterator so = hashmap_iterator (map_option smap so)"

definition set_iterator_next :: "HashMapIterator \<Rightarrow> ptr option \<times> HashMapIterator" where
  "set_iterator_next iter = (case hashmap_iterator_next iter of (r, iter') \<Rightarrow> (map_option fst r, iter'))"

lemma iter_loop_progress: "iter_loop hm i = (Some kv, j) \<Longrightarrow> i < j \<and> i < rcapacity hm"
proof (induction hm i rule: iter_loop.induct)
  case (1 hm i)
  then show ?case by (subst (asm) (2) iter_loop.simps) (fastforce simp: Let_def split: if_splits)
qed

text \<open>The elements that the loop \<open>while (set_iterator_next (...))\<close> visits.\<close>

function set_drain :: "HashMapIterator \<Rightarrow> ptr list" where
  "set_drain iter = (case set_iterator_next iter of (None, _) \<Rightarrow> [] | (Some element, iter') \<Rightarrow> element # set_drain iter')"
  by pat_completeness auto
termination
proof (relation "measure (\<lambda>iter. case it_map iter of None \<Rightarrow> 0 | Some hm \<Rightarrow> rcapacity hm - it_index iter)", goal_cases)
  case (2 iter x y element)
  then obtain kv hm where hm: "it_map iter = Some hm" "fst (iter_loop hm (it_index iter)) = Some kv" "y = iter\<lparr>it_index := snd (iter_loop hm (it_index iter))\<rparr>"
    by (cases "it_map iter"; cases "fst (iter_loop (the (it_map iter)) (it_index iter))")
      (auto simp: set_iterator_next_def hashmap_iterator_next_def Let_def)
  then show ?case using iter_loop_progress [of hm "it_index iter" kv "snd (iter_loop hm (it_index iter))"]
    by (auto simp: prod_eq_iff intro: diff_less_mono2)
qed simp

declare set_drain.simps [simp del]

definition add_if ::
    "(nat \<Rightarrow> bool) \<Rightarrow> (Set \<Rightarrow> ptr \<Rightarrow> bool option) \<Rightarrow> (ptr \<Rightarrow> ptr) \<Rightarrow> (Set \<times> ptr list) option \<Rightarrow> ptr \<Rightarrow> (Set \<times> ptr list) option" where
  "add_if alloc test clone acc element =
     (case acc of None \<Rightarrow> None
      | Some (r, fr) \<Rightarrow>
          (case test r element of None \<Rightarrow> None
           | Some False \<Rightarrow> Some (r, fr)
           | Some True \<Rightarrow>
               (case set_add alloc (Some r) (clone element) of
                  Some (_, Some r', fr') \<Rightarrow> Some (r', fr @ fr') | _ \<Rightarrow> None)))"

definition set_union :: "(nat \<Rightarrow> bool) \<Rightarrow> Set option \<Rightarrow> Set option \<Rightarrow> (Set option \<times> ptr list) option" where
  "set_union alloc ao bo =
     (case (ao, bo) of
        (Some a, Some b) \<Rightarrow>
          (case set_create alloc (hashmap_size (Some (smap a)) + hashmap_size (Some (smap b))) (hash_func (smap a)) (eq_func (smap a))
                  (key_frees (smap a)) (key_clone (smap a)) of
             None \<Rightarrow> Some (None, [])
           | Some result \<Rightarrow>
               map_option (\<lambda>(r, fr). (Some r, fr))
                 (foldl (add_if alloc (\<lambda>r e. map_option Not (set_contains (Some r) e)) (key_clone (smap b)))
                    (foldl (add_if alloc (\<lambda>_ _. Some True) (key_clone (smap a))) (Some (result, [])) (set_drain (set_iterator (Some a))))
                    (set_drain (set_iterator (Some b)))))
      | _ \<Rightarrow> Some (None, []))"

definition set_intersection :: "(nat \<Rightarrow> bool) \<Rightarrow> Set option \<Rightarrow> Set option \<Rightarrow> (Set option \<times> ptr list) option" where
  "set_intersection alloc ao bo =
     (case (ao, bo) of
        (Some a, Some b) \<Rightarrow>
          (let na = hashmap_size (Some (smap a)); nb = hashmap_size (Some (smap b))
           in case set_create alloc (if na < nb then na else nb) (hash_func (smap a)) (eq_func (smap a)) (key_frees (smap a)) (key_clone (smap a)) of
             None \<Rightarrow> Some (None, [])
           | Some result \<Rightarrow>
               (let smaller = (if na < nb then a else b); larger = (if na < nb then b else a)
                in map_option (\<lambda>(r, fr). (Some r, fr))
                     (foldl (add_if alloc (\<lambda>_ e. set_contains (Some larger) e) (key_clone (smap smaller))) (Some (result, []))
                        (set_drain (set_iterator (Some smaller))))))
      | _ \<Rightarrow> Some (None, []))"

definition set_difference :: "(nat \<Rightarrow> bool) \<Rightarrow> Set option \<Rightarrow> Set option \<Rightarrow> (Set option \<times> ptr list) option" where
  "set_difference alloc ao bo =
     (case (ao, bo) of
        (Some a, Some b) \<Rightarrow>
          (case set_create alloc (hashmap_size (Some (smap a))) (hash_func (smap a)) (eq_func (smap a)) (key_frees (smap a)) (key_clone (smap a)) of
             None \<Rightarrow> Some (None, [])
           | Some result \<Rightarrow>
               map_option (\<lambda>(r, fr). (Some r, fr))
                 (foldl (add_if alloc (\<lambda>_ e. map_option Not (set_contains (Some b) e)) (key_clone (smap a))) (Some (result, []))
                    (set_drain (set_iterator (Some a)))))
      | _ \<Rightarrow> Some (None, []))"

fun subset_loop :: "Set \<Rightarrow> ptr list \<Rightarrow> bool option" where
  "subset_loop b [] = Some True"
| "subset_loop b (e # es) =
     (case set_contains (Some b) e of None \<Rightarrow> None | Some True \<Rightarrow> subset_loop b es | Some False \<Rightarrow> Some False)"

definition set_is_subset :: "Set option \<Rightarrow> Set option \<Rightarrow> bool option" where
  "set_is_subset ao bo =
     (case (ao, bo) of
        (Some a, Some b) \<Rightarrow>
          if hashmap_size (Some (smap a)) > hashmap_size (Some (smap b)) then Some False
          else subset_loop b (set_drain (set_iterator (Some a)))
      | _ \<Rightarrow> Some False)"

definition set_is_superset :: "Set option \<Rightarrow> Set option \<Rightarrow> bool option" where
  "set_is_superset ao bo = set_is_subset bo ao"

definition set_create_int :: "(nat \<Rightarrow> bool) \<Rightarrow> nat \<Rightarrow> Set option" where
  "set_create_int alloc initial_capacity =
     set_create alloc initial_capacity hashmap_hash_int hashmap_equals_int True hashmap_clone_int"

subsection \<open>Iteration\<close>

lemma iter_loop_filter:
  assumes "length (entries hm) = rcapacity hm"
  shows "case iter_loop hm i of (None, _) \<Rightarrow> filter occupied (drop i (entries hm)) = []
    | (Some kv, j) \<Rightarrow> \<exists>e. filter occupied (drop i (entries hm)) = e # filter occupied (drop j (entries hm)) \<and> kv = (rkey e, rvalue e)"
  using assms
proof (induction hm i rule: iter_loop.induct)
  case (1 hm i)
  have d: "drop i (entries hm) = (entries hm ! i) # drop (Suc i) (entries hm)" if "i < rcapacity hm"
    using that 1(2) by (simp add: Cons_nth_drop_Suc)
  show ?case using 1 d by (subst iter_loop.simps) (auto simp: Let_def split: option.splits)
qed

lemma set_drain_filter:
  assumes "length (entries hm) = rcapacity hm"
  shows "set_drain \<lparr>it_map = Some hm, it_index = i\<rparr> = map rkey (filter occupied (drop i (entries hm)))"
  using assms
proof (induction "rcapacity hm - i" arbitrary: i rule: less_induct)
  case less
  obtain r j where r: "iter_loop hm i = (r, j)" by fastforce
  show ?case
  proof (cases r)
    case None
    then show ?thesis using r iter_loop_filter [OF less.prems, of i]
      by (subst set_drain.simps) (simp add: set_iterator_next_def hashmap_iterator_next_def Let_def)
  next
    case (Some kv)
    have p: "i < j" "i < rcapacity hm" using iter_loop_progress r Some by auto
    obtain e where e: "filter occupied (drop i (entries hm)) = e # filter occupied (drop j (entries hm))" "kv = (rkey e, rvalue e)"
      using iter_loop_filter [OF less.prems, of i] r Some by auto
    have "set_drain \<lparr>it_map = Some hm, it_index = j\<rparr> = map rkey (filter occupied (drop j (entries hm)))"
      by (rule less.hyps) (use p less.prems in auto)
    then show ?thesis using r Some e
      by (subst set_drain.simps) (simp add: set_iterator_next_def hashmap_iterator_next_def Let_def)
  qed
qed

lemma set_elements:
  assumes "rh_ok (smap s)"
  shows "set_drain (set_iterator (Some s)) = map rkey (filter occupied (entries (smap s)))"
  using set_drain_filter [OF rh_ok_D(2) [OF assms], of 0] by (simp add: set_iterator_def hashmap_iterator_def)

subsection \<open>Meaning\<close>

definition set_ok :: "Set \<Rightarrow> bool" where
  "set_ok s \<longleftrightarrow> rh_ok (smap s) \<and> (\<forall>k v. rh_abs (smap s) k = Some v \<longrightarrow> v = DUMMY_VALUE) \<and>
     (\<forall>k. k \<noteq> 0 \<longrightarrow> key_clone (smap s) k \<noteq> 0 \<and> eq_func (smap s) (key_clone (smap s) k) k)"

definition set_abs :: "Set \<Rightarrow> ptr set" where
  "set_abs s = {k. rh_abs (smap s) k \<noteq> None}"

definition same_kind :: "Set \<Rightarrow> Set \<Rightarrow> bool" where
  "same_kind a b \<longleftrightarrow> hash_func (smap a) = hash_func (smap b) \<and> eq_func (smap a) = eq_func (smap b) \<and> key_clone (smap a) = key_clone (smap b)"

lemma set_ok_rh: "set_ok s \<Longrightarrow> rh_ok (smap s)"
  by (simp add: set_ok_def)

lemma set_ok_clone: "set_ok s \<Longrightarrow> k \<noteq> 0 \<Longrightarrow> key_clone (smap s) k \<noteq> 0 \<and> eq_func (smap s) (key_clone (smap s) k) k"
  by (simp add: set_ok_def)

lemma elements_abs:
  assumes ok: "set_ok s"
  shows "set_abs s = {k. \<exists>e \<in> set (set_drain (set_iterator (Some s))). eq_func (smap s) e k}"
    and "e \<in> set (set_drain (set_iterator (Some s))) \<Longrightarrow> e \<noteq> 0 \<and> e \<in> set_abs s"
proof -
  note rh = set_ok_rh [OF ok]
  have el: "e \<in> set (set_drain (set_iterator (Some s))) \<longleftrightarrow> (\<exists>v. (e, v) \<in># contents (entries (smap s)))" for e
    unfolding set_elements [OF rh] by (auto simp: in_contents in_set_conv_nth image_iff)
  show eq: "set_abs s = {k. \<exists>e \<in> set (set_drain (set_iterator (Some s))). eq_func (smap s) e k}"
    unfolding set_abs_def not_None_eq rh_abs_contents [OF rh] Bex_def el by blast
  show "e \<noteq> 0 \<and> e \<in> set_abs s" if e: "e \<in> set (set_drain (set_iterator (Some s)))"
  proof
    show "e \<in> set_abs s" unfolding eq using e key_laws_D(1) [OF rh_ok_D(3) [OF rh]] by blast
    obtain i where "i < rcapacity (smap s)" "occupied (entries (smap s) ! i)" "e = rkey (entries (smap s) ! i)"
      using e unfolding el by (auto simp: in_contents rh_ok_D(2) [OF rh])
    then show "e \<noteq> 0" using shape_slot [OF rh_ok_D(1) [OF rh]] by blast
  qed
qed

lemma set_contains_abs: "set_ok s \<Longrightarrow> k \<noteq> 0 \<Longrightarrow> set_contains (Some s) k = Some (k \<in> set_abs s)"
  using hashmap_get_abs [of "smap s" k]
  by (auto simp: set_contains_def hashmap_contains_def set_abs_def set_ok_def DUMMY_VALUE_def split: option.splits)

lemma set_add_abs:
  assumes ok: "set_ok s" and k: "k \<noteq> 0"
  shows "\<exists>s' fr. set_add (\<lambda>_. True) (Some s) k = Some (True, Some s', fr) \<and> set_ok s' \<and> same_kind s s' \<and>
    set_abs s' = set_abs s \<union> {k'. eq_func (smap s) k k'}"
proof -
  obtain hm fr where r: "hashmap_insert 2 (\<lambda>_. True) (Some (smap s)) k DUMMY_VALUE = Some (True, Some hm, fr)" "rh_ok hm"
    "hash_func hm = hash_func (smap s)" "eq_func hm = eq_func (smap s)" "key_clone hm = key_clone (smap s)"
    "\<forall>k'. rh_abs hm k' = (if eq_func (smap s) k k' then Some DUMMY_VALUE else rh_abs (smap s) k')"
    using hashmap_insert_correct [OF set_ok_rh [OF ok] k, of "\<lambda>_. True" DUMMY_VALUE] by blast
  have "set_ok (s\<lparr>smap := hm\<rparr>)" using ok r(2-6) by (auto simp: set_ok_def split: if_splits)
  moreover have "set_abs (s\<lparr>smap := hm\<rparr>) = set_abs s \<union> {k'. eq_func (smap s) k k'}"
    using r(6) by (auto simp: set_abs_def)
  ultimately show ?thesis using r(1,3-5) by (auto simp: set_add_def same_kind_def)
qed

lemma set_remove_abs:
  assumes ok: "set_ok s" and k: "k \<noteq> 0"
  shows "\<exists>s' fr. set_remove (Some s) k = Some (k \<in> set_abs s, Some s', fr) \<and> set_ok s' \<and> same_kind s s' \<and>
    set_abs s' = set_abs s - {k'. eq_func (smap s) k k'}"
proof -
  obtain hm fr where r: "hashmap_remove (Some (smap s)) k = Some (rh_abs (smap s) k \<noteq> None, Some hm, fr)" "rh_ok hm"
    "hash_func hm = hash_func (smap s)" "eq_func hm = eq_func (smap s)" "key_clone hm = key_clone (smap s)"
    "\<forall>k'. rh_abs hm k' = (if eq_func (smap s) k k' then None else rh_abs (smap s) k')"
    using hashmap_remove_correct [OF set_ok_rh [OF ok] k] by blast
  have "set_ok (s\<lparr>smap := hm\<rparr>)" using ok r(2-6) by (auto simp: set_ok_def split: if_splits)
  moreover have "set_abs (s\<lparr>smap := hm\<rparr>) = set_abs s - {k'. eq_func (smap s) k k'}"
    using r(6) by (auto simp: set_abs_def)
  ultimately show ?thesis using r(1,3-5) by (auto simp: set_remove_def same_kind_def set_abs_def)
qed

lemma same_kind_trans: "same_kind a b \<Longrightarrow> same_kind b c \<Longrightarrow> same_kind a c"
  by (simp add: same_kind_def)

text \<open>The loops of union, intersection and difference, for a test that decides \<open>Q\<close> unless the element is already in the result.\<close>

lemma add_if_fold:
  assumes "set_ok r" "same_kind a r" "\<And>e. e \<in> set es \<Longrightarrow> e \<noteq> 0"
    and t: "\<And>r e. set_ok r \<Longrightarrow> e \<in> set es \<Longrightarrow> \<exists>b. test r e = Some b \<and> (b \<longrightarrow> Q e) \<and> (Q e \<longrightarrow> b \<or> e \<in> set_abs r)"
  shows "\<exists>r' fr'. foldl (add_if (\<lambda>_. True) test (key_clone (smap a))) (Some (r, fr)) es = Some (r', fr') \<and> set_ok r' \<and> same_kind a r' \<and>
    set_abs r' = set_abs r \<union> {k. \<exists>e \<in> set es. Q e \<and> eq_func (smap a) e k}"
  using assms
proof (induction es arbitrary: r fr)
  case (Cons e es)
  note kl = rh_ok_D(3) [OF set_ok_rh [OF Cons.prems(1)]]
  have eqf: "eq_func (smap r) = eq_func (smap a)" "key_clone (smap r) = key_clone (smap a)" using Cons.prems(2) by (auto simp: same_kind_def)
  obtain b where b: "test r e = Some b" "b \<longrightarrow> Q e" "Q e \<longrightarrow> b \<or> e \<in> set_abs r"
    using Cons.prems(4) [OF Cons.prems(1), of e] by auto
  have "\<exists>r1 fr1. add_if (\<lambda>_. True) test (key_clone (smap a)) (Some (r, fr)) e = Some (r1, fr1) \<and> set_ok r1 \<and> same_kind a r1 \<and>
    set_abs r1 = set_abs r \<union> {k. Q e \<and> eq_func (smap a) e k}"
  proof (cases b)
    case True
    let ?c = "key_clone (smap a) e"
    have c: "?c \<noteq> 0" "eq_func (smap r) ?c e" using set_ok_clone [OF Cons.prems(1), of e] Cons.prems(3) [of e] eqf by auto
    have "eq_func (smap r) ?c k \<longleftrightarrow> eq_func (smap r) e k" for k
      using key_laws_D(4) [OF kl, of ?c e k] key_laws_D(4) [OF kl key_laws_D(2) [OF kl c(2)], of k] c(2) by blast
    then show ?thesis using set_add_abs [OF Cons.prems(1) c(1)] True b(1,2) Cons.prems(2) same_kind_trans
      unfolding eqf by (fastforce simp: add_if_def)
  next
    case False
    have "k \<in> set_abs r" if "Q e" "eq_func (smap a) e k" for k
    proof -
      have "e \<in> set_abs r" using b(3) that(1) False by blast
      then obtain v k' where "(k', v) \<in># contents (entries (smap r))" "eq_func (smap r) k' e"
        unfolding set_abs_def using rh_abs_contents [OF set_ok_rh [OF Cons.prems(1)], of e] by auto
      then have "rh_abs (smap r) k = Some v"
        using rh_abs_contents [OF set_ok_rh [OF Cons.prems(1)], of k v] key_laws_D(4) [OF kl, of k' e k] that(2) eqf by auto
      then show ?thesis by (simp add: set_abs_def)
    qed
    then show ?thesis using b(1) False Cons.prems(1,2) by (auto simp: add_if_def)
  qed
  then obtain r1 fr1 where r1: "add_if (\<lambda>_. True) test (key_clone (smap a)) (Some (r, fr)) e = Some (r1, fr1)" "set_ok r1" "same_kind a r1"
    "set_abs r1 = set_abs r \<union> {k. Q e \<and> eq_func (smap a) e k}" by blast
  have "\<exists>r' fr'. foldl (add_if (\<lambda>_. True) test (key_clone (smap a))) (Some (r1, fr1)) es = Some (r', fr') \<and> set_ok r' \<and> same_kind a r' \<and>
    set_abs r' = set_abs r1 \<union> {k. \<exists>e \<in> set es. Q e \<and> eq_func (smap a) e k}"
    by (rule Cons.IH [OF r1(2,3)]) (use Cons.prems(3,4) in auto)
  then show ?case using r1(1,4) by auto
qed simp

lemma set_create_like:
  assumes "set_ok a"
  shows "\<exists>r. set_create (\<lambda>_. True) n (hash_func (smap a)) (eq_func (smap a)) kf (key_clone (smap a)) = Some r \<and>
    set_ok r \<and> same_kind a r \<and> set_abs r = {}"
proof -
  note kl = rh_ok_D(3) [OF set_ok_rh [OF assms]]
  obtain hm where hm: "hashmap_create (\<lambda>_. True) n (hash_func (smap a)) (eq_func (smap a)) kf False (key_clone (smap a)) = Some hm"
    by (auto simp: hashmap_create_def Let_def)
  then show ?thesis using hashmap_create_correct [OF hm kl] assms
    by (auto simp: set_create_def set_ok_def same_kind_def set_abs_def)
qed

lemma same_kind_eq: "same_kind a b \<Longrightarrow> eq_func (smap b) = eq_func (smap a)" "same_kind a b \<Longrightarrow> key_clone (smap b) = key_clone (smap a)"
  by (auto simp: same_kind_def)

lemma set_abs_closed:
  assumes ok: "set_ok s" and e: "eq_func (smap s) e k"
  shows "e \<in> set_abs s \<longleftrightarrow> k \<in> set_abs s"
proof -
  note kl = rh_ok_D(3) [OF set_ok_rh [OF ok]]
  show ?thesis unfolding elements_abs(1) [OF ok]
    using key_laws_D(4) [OF kl _ e] key_laws_D(4) [OF kl _ key_laws_D(2) [OF kl e]] by blast
qed

lemma set_union_abs:
  assumes a: "set_ok a" and b: "set_ok b" and k: "same_kind a b"
  shows "\<exists>r fr. set_union (\<lambda>_. True) (Some a) (Some b) = Some (Some r, fr) \<and> set_ok r \<and> set_abs r = set_abs a \<union> set_abs b"
proof -
  obtain r0 where r0: "set_create (\<lambda>_. True) (hashmap_size (Some (smap a)) + hashmap_size (Some (smap b))) (hash_func (smap a)) (eq_func (smap a))
      (key_frees (smap a)) (key_clone (smap a)) = Some r0" "set_ok r0" "same_kind a r0" "set_abs r0 = {}"
    using set_create_like [OF a] by blast
  obtain r1 fr1 where r1: "foldl (add_if (\<lambda>_. True) (\<lambda>_ _. Some True) (key_clone (smap a))) (Some (r0, [])) (set_drain (set_iterator (Some a))) = Some (r1, fr1)"
    "set_ok r1" "same_kind a r1" "set_abs r1 = set_abs a"
    using add_if_fold [OF r0(2,3) _, of "set_drain (set_iterator (Some a))" "\<lambda>_ _. Some True" "\<lambda>_. True" "[]"] elements_abs [OF a] r0(4) by auto
  have "\<exists>r fr. foldl (add_if (\<lambda>_. True) (\<lambda>r e. map_option Not (set_contains (Some r) e)) (key_clone (smap a))) (Some (r1, fr1)) (set_drain (set_iterator (Some b))) = Some (r, fr) \<and>
    set_ok r \<and> same_kind a r \<and> set_abs r = set_abs r1 \<union> {k. \<exists>e \<in> set (set_drain (set_iterator (Some b))). True \<and> eq_func (smap a) e k}"
    by (rule add_if_fold [OF r1(2,3)]) (use elements_abs(2) [OF b] set_contains_abs in auto)
  then show ?thesis using r0(1) r1(1,4) elements_abs(1) [OF b] same_kind_eq [OF k] by (auto simp: set_union_def)
qed

lemma select_abs:
  assumes a: "set_ok a" and r: "set_ok r" "same_kind a r" "set_abs r = {}"
    and t: "\<And>r e. e \<noteq> 0 \<Longrightarrow> test r e = Some (Q e)" and cl: "\<And>e k. eq_func (smap a) e k \<Longrightarrow> Q e = Q k"
  shows "\<exists>r' fr'. foldl (add_if (\<lambda>_. True) test (key_clone (smap a))) (Some (r, [])) (set_drain (set_iterator (Some a))) = Some (r', fr') \<and> set_ok r' \<and>
    set_abs r' = {k \<in> set_abs a. Q k}"
proof -
  have "\<exists>r' fr'. foldl (add_if (\<lambda>_. True) test (key_clone (smap a))) (Some (r, [])) (set_drain (set_iterator (Some a))) = Some (r', fr') \<and> set_ok r' \<and>
    same_kind a r' \<and> set_abs r' = set_abs r \<union> {k. \<exists>e \<in> set (set_drain (set_iterator (Some a))). Q e \<and> eq_func (smap a) e k}"
    by (rule add_if_fold [OF r(1,2)]) (use elements_abs(2) [OF a] t in auto)
  moreover have "{k. \<exists>e \<in> set (set_drain (set_iterator (Some a))). Q e \<and> eq_func (smap a) e k} = {k \<in> set_abs a. Q k}"
    unfolding elements_abs(1) [OF a] using cl by blast
  ultimately show ?thesis using r(3) by auto
qed

lemma set_intersection_abs:
  assumes a: "set_ok a" and b: "set_ok b" and k: "same_kind a b"
  shows "\<exists>r fr. set_intersection (\<lambda>_. True) (Some a) (Some b) = Some (Some r, fr) \<and> set_ok r \<and> set_abs r = set_abs a \<inter> set_abs b"
proof -
  define na where "na = hashmap_size (Some (smap a))"
  define nb where "nb = hashmap_size (Some (smap b))"
  define sm where "sm = (if na < nb then a else b)"
  define la where "la = (if na < nb then b else a)"
  have sl: "set_ok sm" "set_ok la" "eq_func (smap sm) = eq_func (smap la)" "set_abs sm \<inter> set_abs la = set_abs a \<inter> set_abs b"
    using a b same_kind_eq [OF k] by (auto simp: sm_def la_def)
  obtain r0 where r0: "set_create (\<lambda>_. True) (if na < nb then na else nb) (hash_func (smap a)) (eq_func (smap a))
      (key_frees (smap a)) (key_clone (smap a)) = Some r0" "set_ok r0" "same_kind a r0" "set_abs r0 = {}"
    using set_create_like [OF a] by blast
  have "same_kind sm r0" using r0(3) k by (auto simp: sm_def same_kind_def)
  then have "\<exists>r' fr'. foldl (add_if (\<lambda>_. True) (\<lambda>_ e. set_contains (Some la) e) (key_clone (smap sm))) (Some (r0, [])) (set_drain (set_iterator (Some sm))) = Some (r', fr') \<and>
    set_ok r' \<and> set_abs r' = {k \<in> set_abs sm. k \<in> set_abs la}"
    by (intro select_abs) (use sl r0 set_contains_abs [OF sl(2)] set_abs_closed [OF sl(2)] in auto)
  moreover have "set_intersection (\<lambda>_. True) (Some a) (Some b) = map_option (\<lambda>(r, fr). (Some r, fr))
      (foldl (add_if (\<lambda>_. True) (\<lambda>_ e. set_contains (Some la) e) (key_clone (smap sm))) (Some (r0, [])) (set_drain (set_iterator (Some sm))))"
    using r0(1) unfolding set_intersection_def Let_def na_def nb_def sm_def la_def by simp
  ultimately show ?thesis using sl(4) by (auto simp: Int_def)
qed

lemma set_difference_abs:
  assumes a: "set_ok a" and b: "set_ok b" and k: "same_kind a b"
  shows "\<exists>r fr. set_difference (\<lambda>_. True) (Some a) (Some b) = Some (Some r, fr) \<and> set_ok r \<and> set_abs r = set_abs a - set_abs b"
proof -
  obtain r0 where r0: "set_create (\<lambda>_. True) (hashmap_size (Some (smap a))) (hash_func (smap a)) (eq_func (smap a))
      (key_frees (smap a)) (key_clone (smap a)) = Some r0" "set_ok r0" "same_kind a r0" "set_abs r0 = {}"
    using set_create_like [OF a] by blast
  have "\<exists>r' fr'. foldl (add_if (\<lambda>_. True) (\<lambda>_ e. map_option Not (set_contains (Some b) e)) (key_clone (smap a))) (Some (r0, [])) (set_drain (set_iterator (Some a))) = Some (r', fr') \<and>
    set_ok r' \<and> set_abs r' = {k \<in> set_abs a. k \<notin> set_abs b}"
    by (rule select_abs) (use a r0 set_contains_abs [OF b] set_abs_closed [OF b] same_kind_eq [OF k] in auto)
  then show ?thesis using r0(1) by (auto simp: set_difference_def)
qed

lemma set_size_mono:
  assumes a: "set_ok a" and b: "set_ok b" and k: "same_kind a b" and sub: "set_abs a \<subseteq> set_abs b"
  shows "rsize (smap a) \<le> rsize (smap b)"
proof -
  define occ :: "Set \<Rightarrow> nat set" where "occ = (\<lambda>s. {i. i < length (entries (smap s)) \<and> occupied (entries (smap s) ! i)})"
  note ra = set_ok_rh [OF a] and rb = set_ok_rh [OF b]
  have card: "rsize (smap s) = card (occ s)" if "rh_ok (smap s)" for s
    using rh_ok_D(5) [OF that] size_contents [of "entries (smap s)"] by (simp add: occ_def length_filter_conv_card)
  have "\<forall>i \<in> occ a. \<exists>j \<in> occ b. eq_func (smap b) (rkey (entries (smap b) ! j)) (rkey (entries (smap a) ! i))"
  proof
    fix i assume i: "i \<in> occ a"
    have "rkey (entries (smap a) ! i) \<in> set (set_drain (set_iterator (Some a)))"
      unfolding set_elements [OF ra] using i by (auto simp: occ_def)
    then have "rkey (entries (smap a) ! i) \<in> set_abs b" using elements_abs(2) [OF a] sub by blast
    then show "\<exists>j \<in> occ b. eq_func (smap b) (rkey (entries (smap b) ! j)) (rkey (entries (smap a) ! i))"
      unfolding elements_abs(1) [OF b] set_elements [OF rb] by (auto simp: occ_def in_set_conv_nth)
  qed
  then obtain f where f: "\<And>i. i \<in> occ a \<Longrightarrow> f i \<in> occ b \<and> eq_func (smap b) (rkey (entries (smap b) ! f i)) (rkey (entries (smap a) ! i))" by metis
  note kl = rh_ok_D(3) [OF rb]
  have "inj_on f (occ a)"
  proof (rule inj_onI)
    fix i j assume ij: "i \<in> occ a" "j \<in> occ a" "f i = f j"
    let ?k = "rkey (entries (smap b) ! f i)"
    have "eq_func (smap a) (rkey (entries (smap a) ! i)) ?k" "eq_func (smap a) (rkey (entries (smap a) ! j)) ?k"
      using f [OF ij(1)] f [OF ij(2)] ij(3) key_laws_D(2) [OF kl] unfolding same_kind_eq [OF k] by auto
    then show "i = j" using slot_unique [OF ra, of i j ?k] ij(1,2) rh_ok_D(2) [OF ra] by (auto simp: occ_def)
  qed
  then have "card (occ a) \<le> card (occ b)" using f by (intro card_inj_on_le [of f]) (auto simp: occ_def)
  then show ?thesis using card [OF ra] card [OF rb] by simp
qed

lemma subset_loop_abs:
  "set_ok b \<Longrightarrow> (\<And>e. e \<in> set es \<Longrightarrow> e \<noteq> 0) \<Longrightarrow> subset_loop b es = Some (set es \<subseteq> set_abs b)"
  by (induction es) (auto simp: set_contains_abs split: bool.splits)

lemma set_is_subset_abs:
  assumes a: "set_ok a" and b: "set_ok b" and k: "same_kind a b"
  shows "set_is_subset (Some a) (Some b) = Some (set_abs a \<subseteq> set_abs b)"
proof -
  have "set (set_drain (set_iterator (Some a))) \<subseteq> set_abs b \<longleftrightarrow> set_abs a \<subseteq> set_abs b"
    using elements_abs [OF a] set_abs_closed [OF b] same_kind_eq [OF k] by auto
  moreover have "subset_loop b (set_drain (set_iterator (Some a))) = Some (set (set_drain (set_iterator (Some a))) \<subseteq> set_abs b)"
    by (rule subset_loop_abs [OF b]) (use elements_abs(2) [OF a] in blast)
  ultimately show ?thesis using set_size_mono [OF assms] by (auto simp: set_is_subset_def hashmap_size_def)
qed

text \<open>C22. Over two sets with the same callbacks and an allocator that does not refuse, union, intersection, difference and inclusion are those of the sets of elements (up to the equality callback), whichever set is iterated; the results are well formed, and no loop runs forever.\<close>

theorem set_operations_correct:
  assumes "set_ok a" "set_ok b" "same_kind a b"
  shows "(\<exists>r fr. set_union (\<lambda>_. True) (Some a) (Some b) = Some (Some r, fr) \<and> set_ok r \<and> set_abs r = set_abs a \<union> set_abs b) \<and>
    (\<exists>r fr. set_intersection (\<lambda>_. True) (Some a) (Some b) = Some (Some r, fr) \<and> set_ok r \<and> set_abs r = set_abs a \<inter> set_abs b) \<and>
    (\<exists>r fr. set_difference (\<lambda>_. True) (Some a) (Some b) = Some (Some r, fr) \<and> set_ok r \<and> set_abs r = set_abs a - set_abs b) \<and>
    set_is_subset (Some a) (Some b) = Some (set_abs a \<subseteq> set_abs b)"
  using set_union_abs [OF assms] set_intersection_abs [OF assms] set_difference_abs [OF assms] set_is_subset_abs [OF assms] by blast

lemma set_create_int_ok: "\<exists>s. set_create_int (\<lambda>_. True) 0 = Some s \<and> set_ok s \<and> set_abs s = {} \<and> hash_func (smap s) = hashmap_hash_int \<and>
    eq_func (smap s) = hashmap_equals_int \<and> key_clone (smap s) = hashmap_clone_int"
proof -
  obtain hm where hm: "hashmap_create (\<lambda>_. True) 0 hashmap_hash_int hashmap_equals_int True False hashmap_clone_int = Some hm"
    by (auto simp: hashmap_create_def Let_def)
  then show ?thesis using hashmap_create_correct [OF hm key_laws_int]
    by (auto simp: set_create_int_def set_create_def set_ok_def set_abs_def hashmap_clone_int_def hashmap_equals_int_def)
qed

theorem set_operations_correct_witness:
  "\<exists>a b fa fb. set_add (\<lambda>_. True) (set_create_int (\<lambda>_. True) 0) 5 = Some (True, Some a, fa) \<and>
     set_add (\<lambda>_. True) (set_create_int (\<lambda>_. True) 0) 21 = Some (True, Some b, fb) \<and>
     (\<exists>r fr. set_union (\<lambda>_. True) (Some a) (Some b) = Some (Some r, fr) \<and> set_abs r = {5, 21}) \<and> set_is_subset (Some a) (Some b) = Some False"
proof -
  obtain s where s: "set_create_int (\<lambda>_. True) 0 = Some s" "set_ok s" "set_abs s = {}" "eq_func (smap s) = hashmap_equals_int"
    using set_create_int_ok by blast
  obtain a fa where a: "set_add (\<lambda>_. True) (Some s) 5 = Some (True, Some a, fa)" "set_ok a" "same_kind s a" "set_abs a = {5}"
    using set_add_abs [OF s(2), of 5] s(3,4) by (auto simp: hashmap_equals_int_def)
  obtain b fb where b: "set_add (\<lambda>_. True) (Some s) 21 = Some (True, Some b, fb)" "set_ok b" "same_kind s b" "set_abs b = {21}"
    using set_add_abs [OF s(2), of 21] s(3,4) by (auto simp: hashmap_equals_int_def)
  have "same_kind a b" using a(3) b(3) by (simp add: same_kind_def)
  from set_operations_correct [OF a(2) b(2) this] show ?thesis using a b s(1) by auto
qed

end
