(* ===== verification/AetherQueues.thy ===== *)
theory AetherQueues
  imports Prelude
begin

section \<open>Message queues of the Aether actor runtime\<close>

text \<open>
  Models the ring buffers that carry messages between actors: the counted mailbox of
  \<^verbatim>\<open>runtime/actors/actor_state_machine.h\<close>, the single-producer single-consumer queues of
  \<^verbatim>\<open>aether_spsc_queue.h\<close>, \<^verbatim>\<open>lockfree_mailbox.h\<close> and
  \<^verbatim>\<open>scheduler/lockfree_queue.h\<close>.
  Positions are natural numbers below the size; the masked differences are taken on integers, where
  \<open>AND\<close> works on the two's complement form as in the source.  An output array is the list
  of messages written to it, an input array and its length are one list.

  Each queue is interpreted in the locale \<open>fifo_queue\<close>, whose lemma \<open>fifo\<close> says
  that any sequence of sends and receives delivers the accepted messages in order, each once.
\<close>

unbundle bit_operations_syntax

subsection \<open>Messages\<close>

record Message =
  mtype :: int
  sender_id :: int
  payload_int :: int
  payload_ptr :: nat
  zc_data :: nat
  zc_size :: int
  zc_owned :: int
  reply_slot :: nat

definition zero_message :: Message where
  "zero_message = \<lparr>mtype = 0, sender_id = 0, payload_int = 0, payload_ptr = 0, zc_data = 0, zc_size = 0, zc_owned = 0, reply_slot = 0\<rparr>"

definition message_create_zerocopy :: "int \<Rightarrow> int \<Rightarrow> nat \<Rightarrow> int \<Rightarrow> Message" where
  "message_create_zerocopy ty sender data sz =
     zero_message\<lparr>mtype := ty, sender_id := sender, zc_data := data, zc_size := sz, zc_owned := 1\<rparr>"

definition message_create_simple :: "int \<Rightarrow> int \<Rightarrow> int \<Rightarrow> Message" where
  "message_create_simple ty sender payload = zero_message\<lparr>mtype := ty, sender_id := sender, payload_int := payload\<rparr>"

text \<open>The message afterwards and the pointers released.\<close>

definition message_free :: "Message \<Rightarrow> Message \<times> nat list" where
  "message_free msg =
     (if zc_owned msg \<noteq> 0 \<and> zc_data msg \<noteq> 0 then (msg\<lparr>zc_data := 0, zc_size := 0, zc_owned := 0\<rparr>, [zc_data msg])
      else (msg, []))"

text \<open>The destination and the source afterwards.\<close>

definition message_transfer :: "Message \<Rightarrow> Message \<times> Message" where
  "message_transfer src = (src, if zc_owned src \<noteq> 0 then src\<lparr>zc_owned := 0, zc_data := 0\<rparr> else src)"

subsection \<open>Counted mailbox\<close>

definition MAILBOX_SIZE :: nat where
  "MAILBOX_SIZE = 32"

definition MAILBOX_MASK :: nat where
  "MAILBOX_MASK = MAILBOX_SIZE - 1"

record Mailbox =
  mb_messages :: "Message list"
  mb_head :: nat
  mb_tail :: nat
  mb_count :: nat

definition mailbox_init :: "Mailbox \<Rightarrow> Mailbox" where
  "mailbox_init mbox = mbox\<lparr>mb_head := 0, mb_tail := 0, mb_count := 0\<rparr>"

definition mailbox_send :: "Mailbox \<Rightarrow> Message \<Rightarrow> int \<times> Mailbox" where
  "mailbox_send mbox msg =
     (if mb_count mbox \<ge> MAILBOX_SIZE then (0, mbox)
      else (1, mbox\<lparr>mb_messages := (mb_messages mbox)[mb_tail mbox := msg],
                    mb_tail := (mb_tail mbox + 1) AND MAILBOX_MASK,
                    mb_count := mb_count mbox + 1\<rparr>))"

definition mailbox_receive :: "Mailbox \<Rightarrow> Message option \<times> Mailbox" where
  "mailbox_receive mbox =
     (if mb_count mbox = 0 then (None, mbox)
      else (Some (mb_messages mbox ! mb_head mbox),
            mbox\<lparr>mb_head := (mb_head mbox + 1) AND MAILBOX_MASK, mb_count := mb_count mbox - 1\<rparr>))"

text \<open>Up to \<open>n\<close> messages; the list is the output array.\<close>

fun mailbox_receive_batch :: "Mailbox \<Rightarrow> nat \<Rightarrow> Message list \<times> Mailbox" where
  "mailbox_receive_batch mbox 0 = ([], mbox)"
| "mailbox_receive_batch mbox (Suc n) =
     (if mb_count mbox > 0 then
        (let m = mb_messages mbox ! mb_head mbox;
             r = mailbox_receive_batch (mbox\<lparr>mb_head := (mb_head mbox + 1) AND MAILBOX_MASK, mb_count := mb_count mbox - 1\<rparr>) n
         in (m # fst r, snd r))
      else ([], mbox))"

fun mailbox_send_batch :: "Mailbox \<Rightarrow> Message list \<Rightarrow> nat \<times> Mailbox" where
  "mailbox_send_batch mbox [] = (0, mbox)"
| "mailbox_send_batch mbox (m # ms) =
     (if mb_count mbox < MAILBOX_SIZE then
        (let r = mailbox_send_batch (mbox\<lparr>mb_messages := (mb_messages mbox)[mb_tail mbox := m],
                                          mb_tail := (mb_tail mbox + 1) AND MAILBOX_MASK, mb_count := mb_count mbox + 1\<rparr>) ms
         in (fst r + 1, snd r))
      else (0, mbox))"

subsection \<open>Single producer, single consumer\<close>

definition SPSC_QUEUE_SIZE :: nat where
  "SPSC_QUEUE_SIZE = 64"

definition SPSC_QUEUE_MASK :: nat where
  "SPSC_QUEUE_MASK = SPSC_QUEUE_SIZE - 1"

record SPSCQueue =
  sq_buffer :: "Message list"
  sq_head :: nat
  sq_tail :: nat

definition spsc_queue_init :: "SPSCQueue \<Rightarrow> SPSCQueue" where
  "spsc_queue_init q = q\<lparr>sq_head := 0, sq_tail := 0\<rparr>"

definition spsc_enqueue :: "SPSCQueue \<Rightarrow> Message \<Rightarrow> int \<times> SPSCQueue" where
  "spsc_enqueue q msg =
     (let tail = sq_tail q; next_tail = (tail + 1) AND SPSC_QUEUE_MASK; head = sq_head q
      in if next_tail = head then (0, q)
         else (1, q\<lparr>sq_buffer := (sq_buffer q)[tail := msg], sq_tail := next_tail\<rparr>))"

text \<open>The copying loops: a buffer and a position that moves around the ring.\<close>

fun ring_copy_in :: "nat \<Rightarrow> 'a list \<Rightarrow> nat \<Rightarrow> 'a list \<Rightarrow> 'a list \<times> nat" where
  "ring_copy_in msk buf tail [] = (buf, tail)"
| "ring_copy_in msk buf tail (m # ms) = ring_copy_in msk (buf[tail := m]) ((tail + 1) AND msk) ms"

fun ring_copy_out :: "nat \<Rightarrow> 'a list \<Rightarrow> nat \<Rightarrow> nat \<Rightarrow> 'a list \<times> nat" where
  "ring_copy_out msk buf head 0 = ([], head)"
| "ring_copy_out msk buf head (Suc n) =
     (let r = ring_copy_out msk buf ((head + 1) AND msk) n in (buf ! head # fst r, snd r))"

definition spsc_enqueue_batch :: "SPSCQueue \<Rightarrow> Message list \<Rightarrow> nat \<times> SPSCQueue" where
  "spsc_enqueue_batch q msgs =
     (let tail = sq_tail q; head = sq_head q;
          space = (if head > tail then head - tail - 1 else SPSC_QUEUE_SIZE - (tail - head) - 1)
      in if space < length msgs then (0, q)
         else let r = ring_copy_in SPSC_QUEUE_MASK (sq_buffer q) tail msgs
              in (length msgs, q\<lparr>sq_buffer := fst r, sq_tail := snd r\<rparr>))"

definition spsc_dequeue :: "SPSCQueue \<Rightarrow> Message option \<times> SPSCQueue" where
  "spsc_dequeue q =
     (let head = sq_head q; tail = sq_tail q
      in if head = tail then (None, q)
         else (Some (sq_buffer q ! head), q\<lparr>sq_head := (head + 1) AND SPSC_QUEUE_MASK\<rparr>))"

definition spsc_dequeue_batch :: "SPSCQueue \<Rightarrow> int \<Rightarrow> Message list \<times> SPSCQueue" where
  "spsc_dequeue_batch q max_count =
     (let head = sq_head q; tail = sq_tail q
      in if head = tail then ([], q)
         else let available = (if tail > head then tail - head else SPSC_QUEUE_SIZE - (head - tail));
                  umax = nat (max_count mod 2 ^ 32);
                  to_dequeue = (if available < umax then available else umax);
                  r = ring_copy_out SPSC_QUEUE_MASK (sq_buffer q) head to_dequeue
              in (fst r, q\<lparr>sq_head := snd r\<rparr>))"

definition spsc_count :: "SPSCQueue \<Rightarrow> nat" where
  "spsc_count q = (if sq_tail q \<ge> sq_head q then sq_tail q - sq_head q else SPSC_QUEUE_SIZE - (sq_head q - sq_tail q))"

subsection \<open>Cross-core mailbox\<close>

definition LOCKFREE_MAILBOX_SIZE :: nat where
  "LOCKFREE_MAILBOX_SIZE = 64"

definition LOCKFREE_MAILBOX_MASK :: nat where
  "LOCKFREE_MAILBOX_MASK = LOCKFREE_MAILBOX_SIZE - 1"

record LockFreeMailbox =
  lm_tail :: nat
  lm_head :: nat
  lm_messages :: "Message list"

definition lockfree_mailbox_init :: "LockFreeMailbox" where
  "lockfree_mailbox_init = \<lparr>lm_tail = 0, lm_head = 0, lm_messages = replicate LOCKFREE_MAILBOX_SIZE zero_message\<rparr>"

definition lockfree_mailbox_send :: "LockFreeMailbox \<Rightarrow> Message \<Rightarrow> int \<times> LockFreeMailbox" where
  "lockfree_mailbox_send mbox msg =
     (let tail = lm_tail mbox; next_tail = (tail + 1) AND LOCKFREE_MAILBOX_MASK; head = lm_head mbox
      in if next_tail = head then (0, mbox)
         else (1, mbox\<lparr>lm_messages := (lm_messages mbox)[tail := msg], lm_tail := next_tail\<rparr>))"

definition lockfree_mailbox_receive :: "LockFreeMailbox \<Rightarrow> Message option \<times> LockFreeMailbox" where
  "lockfree_mailbox_receive mbox =
     (let head = lm_head mbox; tail = lm_tail mbox
      in if head = tail then (None, mbox)
         else (Some (lm_messages mbox ! head), mbox\<lparr>lm_head := (head + 1) AND LOCKFREE_MAILBOX_MASK\<rparr>))"

definition lockfree_mailbox_receive_batch :: "LockFreeMailbox \<Rightarrow> int \<Rightarrow> Message list \<times> LockFreeMailbox" where
  "lockfree_mailbox_receive_batch mbox max_count =
     (let head = lm_head mbox; tail = lm_tail mbox;
          available = (int tail - int head) AND int LOCKFREE_MAILBOX_MASK
      in if available = 0 then ([], mbox)
         else let to_receive = (if available < max_count then available else max_count)
              in (map (\<lambda>i. lm_messages mbox ! ((head + i) AND LOCKFREE_MAILBOX_MASK)) [0..<nat to_receive],
                  mbox\<lparr>lm_head := nat ((int head + to_receive) AND int LOCKFREE_MAILBOX_MASK)\<rparr>))"

fun copy_in_at :: "nat \<Rightarrow> 'a list \<Rightarrow> nat \<Rightarrow> nat \<Rightarrow> 'a list \<Rightarrow> 'a list" where
  "copy_in_at msk buf tail i [] = buf"
| "copy_in_at msk buf tail i (m # ms) = copy_in_at msk (buf[(tail + i) AND msk := m]) tail (i + 1) ms"

definition lockfree_mailbox_send_batch :: "LockFreeMailbox \<Rightarrow> Message list \<Rightarrow> nat \<times> LockFreeMailbox" where
  "lockfree_mailbox_send_batch mbox msgs =
     (let tail = lm_tail mbox; head = lm_head mbox;
          available = nat ((int head - int tail - 1) AND int LOCKFREE_MAILBOX_MASK)
      in if available = 0 then (0, mbox)
         else let to_send = (if available < length msgs then available else length msgs)
              in (to_send, mbox\<lparr>lm_messages := copy_in_at LOCKFREE_MAILBOX_MASK (lm_messages mbox) tail 0 (take to_send msgs),
                                lm_tail := (tail + to_send) AND LOCKFREE_MAILBOX_MASK\<rparr>))"

definition lockfree_mailbox_is_empty :: "LockFreeMailbox \<Rightarrow> bool" where
  "lockfree_mailbox_is_empty mbox \<longleftrightarrow> lm_head mbox = lm_tail mbox"

definition lockfree_mailbox_count :: "LockFreeMailbox \<Rightarrow> int" where
  "lockfree_mailbox_count mbox = (int (lm_tail mbox) - int (lm_head mbox)) AND int LOCKFREE_MAILBOX_MASK"

subsection \<open>Scheduler channel\<close>

definition QUEUE_SIZE :: nat where
  "QUEUE_SIZE = 1024"

definition QUEUE_MASK :: nat where
  "QUEUE_MASK = QUEUE_SIZE - 1"

type_synonym QueueItem = "nat \<times> Message"

record LockFreeQueue =
  lq_head :: nat
  lq_tail :: nat
  lq_items :: "QueueItem list"

definition queue_init :: "LockFreeQueue \<Rightarrow> LockFreeQueue" where
  "queue_init q = q\<lparr>lq_head := 0, lq_tail := 0\<rparr>"

definition queue_enqueue :: "LockFreeQueue \<Rightarrow> nat \<Rightarrow> Message \<Rightarrow> int \<times> LockFreeQueue" where
  "queue_enqueue q actor msg =
     (let tail = lq_tail q; next_tail = (tail + 1) AND QUEUE_MASK; head = lq_head q
      in if next_tail = head then (0, q)
         else (1, q\<lparr>lq_items := (lq_items q)[tail := (actor, msg)], lq_tail := next_tail\<rparr>))"

definition queue_dequeue :: "LockFreeQueue \<Rightarrow> QueueItem option \<times> LockFreeQueue" where
  "queue_dequeue q =
     (let head = lq_head q; tail = lq_tail q
      in if head = tail then (None, q)
         else (Some (lq_items q ! head), q\<lparr>lq_head := (head + 1) AND QUEUE_MASK\<rparr>))"

definition queue_enqueue_batch :: "LockFreeQueue \<Rightarrow> QueueItem list \<Rightarrow> nat \<times> LockFreeQueue" where
  "queue_enqueue_batch q its =
     (let tail = lq_tail q; head = lq_head q;
          space = nat ((int head - int tail - 1) AND int QUEUE_MASK)
      in if space = 0 then (0, q)
         else let to_enqueue = (if length its < space then length its else space);
                  r = ring_copy_in QUEUE_MASK (lq_items q) tail (take to_enqueue its)
              in (to_enqueue, q\<lparr>lq_items := fst r, lq_tail := snd r\<rparr>))"

definition queue_dequeue_batch :: "LockFreeQueue \<Rightarrow> int \<Rightarrow> QueueItem list \<times> LockFreeQueue" where
  "queue_dequeue_batch q max_count =
     (let head = lq_head q; tail = lq_tail q;
          available = (int tail - int head) AND int QUEUE_MASK
      in if available = 0 then ([], q)
         else let count = (if available < max_count then available else max_count);
                  r = ring_copy_out QUEUE_MASK (lq_items q) head (nat count)
              in (fst r, q\<lparr>lq_head := snd r\<rparr>))"

definition queue_size :: "LockFreeQueue \<Rightarrow> int" where
  "queue_size q = (int (lq_tail q) - int (lq_head q)) AND int QUEUE_MASK"

subsection \<open>Rings\<close>

definition ring_view :: "nat \<Rightarrow> 'a list \<Rightarrow> nat \<Rightarrow> nat \<Rightarrow> 'a list" where
  "ring_view N buf h c = map (\<lambda>i. buf ! ((h + i) mod N)) [0..<c]"

definition ring_count :: "nat \<Rightarrow> nat \<Rightarrow> nat \<Rightarrow> nat" where
  "ring_count N h t = (t + N - h) mod N"

lemma length_ring_view [simp]: "length (ring_view N buf h c) = c"
  by (simp add: ring_view_def)

lemma ring_inj: "(h :: nat) < N \<Longrightarrow> i < N \<Longrightarrow> j < N \<Longrightarrow> (h + i) mod N = (h + j) mod N \<Longrightarrow> i = j"
  by (cases "h + i < N"; cases "h + j < N") (auto simp: mod_if split: if_splits)

lemma ring_push:
  assumes "length buf = N" "h < N" "c < N"
  shows "ring_view N (buf[(h + c) mod N := m]) h (Suc c) = ring_view N buf h c @ [m]"
proof -
  have "buf[(h + c) mod N := m] ! ((h + i) mod N) = buf ! ((h + i) mod N)" if "i < c" for i
    using ring_inj [of h N i c] assms that by (metis less_trans nat_neq_iff nth_list_update_neq)
  then show ?thesis using assms by (auto simp: ring_view_def)
qed

lemma ring_pop:
  "0 < c \<Longrightarrow> ring_view N buf h c = buf ! (h mod N) # ring_view N buf ((h + 1) mod N) (c - 1)"
  by (cases c) (auto simp: ring_view_def upt_conv_Cons map_Suc_upt [symmetric] mod_simps simp del: upt_Suc)

lemma ring_count_facts:
  assumes "h < N" "t < N"
  shows "(h + ring_count N h t) mod N = t" "ring_count N h t < N" "h = t \<longleftrightarrow> ring_count N h t = 0"
    "(t + 1) mod N = h \<longleftrightarrow> ring_count N h t = N - 1"
  using assms by (cases "h \<le> t"; cases "Suc t = N"; auto simp: ring_count_def mod_if)+

lemma ring_count_send: "h < N \<Longrightarrow> t < N \<Longrightarrow> (t + 1) mod N \<noteq> h \<Longrightarrow> ring_count N h ((t + 1) mod N) = Suc (ring_count N h t)"
  by (cases "h \<le> t"; cases "Suc t = N"; auto simp: ring_count_def mod_if)

lemma ring_count_recv: "h < N \<Longrightarrow> t < N \<Longrightarrow> h \<noteq> t \<Longrightarrow> ring_count N ((h + 1) mod N) t = ring_count N h t - 1"
  by (cases "h \<le> t"; cases "Suc h = N"; auto simp: ring_count_def mod_if)

definition ring_list :: "nat \<Rightarrow> 'a list \<Rightarrow> nat \<Rightarrow> nat \<Rightarrow> 'a list" where
  "ring_list N buf h t = ring_view N buf h (ring_count N h t)"

lemma length_ring_list [simp]: "length (ring_list N buf h t) = ring_count N h t"
  by (simp add: ring_list_def)

lemma ring_list_send:
  assumes "length buf = N" "h < N" "t < N" "(t + 1) mod N \<noteq> h"
  shows "ring_list N (buf[t := m]) h ((t + 1) mod N) = ring_list N buf h t @ [m]"
  using ring_push [OF assms(1,2) ring_count_facts(2) [OF assms(2,3)], of m]
  unfolding ring_list_def ring_count_send [OF assms(2-4)] ring_count_facts(1) [OF assms(2,3)] .

lemma ring_list_recv:
  "h < N \<Longrightarrow> t < N \<Longrightarrow> h \<noteq> t \<Longrightarrow> ring_list N buf h t = buf ! h # ring_list N buf ((h + 1) mod N) t"
  using ring_pop [of "ring_count N h t" N buf h] ring_count_facts [of h N t] by (simp add: ring_list_def ring_count_recv [simplified])

lemma ring_copy_in_list:
  assumes "length buf = N" "h < N" "t < N" "N = 2 ^ k" "ring_count N h t + length ms < N"
  shows "ring_list N (fst (ring_copy_in (N - 1) buf t ms)) h (snd (ring_copy_in (N - 1) buf t ms)) = ring_list N buf h t @ ms \<and>
    length (fst (ring_copy_in (N - 1) buf t ms)) = N \<and> snd (ring_copy_in (N - 1) buf t ms) < N"
  using assms
proof (induction ms arbitrary: buf t)
  case (Cons m ms)
  have nf: "(t + 1) mod N \<noteq> h" using ring_count_facts(4) [OF Cons.prems(2,3)] Cons.prems(5) by simp
  have m: "(t + 1) AND (N - 1) = (t + 1) mod N" unfolding Cons.prems(4) by (rule nat_and_mask)
  have IH: "ring_list N (fst (ring_copy_in (N - 1) (buf[t := m]) ((t + 1) mod N) ms)) h (snd (ring_copy_in (N - 1) (buf[t := m]) ((t + 1) mod N) ms)) =
      ring_list N (buf[t := m]) h ((t + 1) mod N) @ ms \<and>
    length (fst (ring_copy_in (N - 1) (buf[t := m]) ((t + 1) mod N) ms)) = N \<and> snd (ring_copy_in (N - 1) (buf[t := m]) ((t + 1) mod N) ms) < N"
    by (rule Cons.IH) (use Cons.prems ring_count_send [OF Cons.prems(2,3) nf] in auto)
  show ?case using IH unfolding ring_copy_in.simps m ring_list_send [OF Cons.prems(1-3) nf] by simp
qed simp

lemma ring_copy_out_list:
  assumes "h < N" "t < N" "N = 2 ^ k" "n \<le> ring_count N h t"
  shows "fst (ring_copy_out (N - 1) buf h n) = take n (ring_list N buf h t) \<and>
    ring_list N buf (snd (ring_copy_out (N - 1) buf h n)) t = drop n (ring_list N buf h t) \<and> snd (ring_copy_out (N - 1) buf h n) < N"
  using assms
proof (induction n arbitrary: h)
  case (Suc n)
  have ne: "h \<noteq> t" using ring_count_facts(3) [OF Suc.prems(1,2)] Suc.prems(4) by auto
  have m: "(h + 1) AND (N - 1) = (h + 1) mod N" unfolding Suc.prems(3) by (rule nat_and_mask)
  have IH: "fst (ring_copy_out (N - 1) buf ((h + 1) mod N) n) = take n (ring_list N buf ((h + 1) mod N) t) \<and>
    ring_list N buf (snd (ring_copy_out (N - 1) buf ((h + 1) mod N) n)) t = drop n (ring_list N buf ((h + 1) mod N) t) \<and>
    snd (ring_copy_out (N - 1) buf ((h + 1) mod N) n) < N"
    by (rule Suc.IH) (use Suc.prems ring_count_recv [OF Suc.prems(1,2) ne] in auto)
  show ?case using IH unfolding ring_copy_out.simps m ring_list_recv [OF Suc.prems(1,2) ne, of buf] by (simp add: Let_def)
qed simp

lemma copy_in_at_ring:
  "N = 2 ^ k \<Longrightarrow> copy_in_at (N - 1) buf t i ms = fst (ring_copy_in (N - 1) buf ((t + i) mod N) ms) \<and>
     snd (ring_copy_in (N - 1) buf ((t + i) mod N) ms) = (t + i + length ms) mod N"
proof (induction ms arbitrary: buf i)
  case (Cons m ms)
  have msk: "x AND (N - 1) = x mod N" for x unfolding Cons.prems by (rule nat_and_mask)
  have nxt: "((t + i) mod N + 1) mod N = (t + (i + 1)) mod N" by (simp add: mod_simps)
  show ?case using Cons.IH [OF Cons.prems, of "buf[(t + i) mod N := m]" "i + 1"] by (simp only: copy_in_at.simps ring_copy_in.simps msk nxt) simp
qed simp

text \<open>The masked difference of two positions.\<close>

lemma int_and_mask: "(a :: int) AND (2 ^ n - 1) = a mod 2 ^ n"
  by (metis mask_eq_exp_minus_1 take_bit_eq_mask take_bit_eq_mod)

lemma ring_count_int:
  assumes "h < N" "t < N"
  shows "(int t - int h) mod int N = int (ring_count N h t)" "(int h - int t - 1) mod int N = int (N - 1 - ring_count N h t)"
proof -
  have "(int t - int h) mod int N = (int t - int h + int N) mod int N" by simp
  also have "int t - int h + int N = int (t + N - h)" using assms by simp
  finally show "(int t - int h) mod int N = int (ring_count N h t)" by (simp add: ring_count_def zmod_int)
  have c: "int (N - 1 - ring_count N h t) = int N - 1 - int (ring_count N h t)" using ring_count_facts(2) [OF assms] by simp
  have "(int h - int t - 1) mod int N = (int N - 1 - (int t - int h)) mod int N" by (simp add: algebra_simps) (metis add.commute add_diff_eq mod_add_self1)
  also have "\<dots> = (int N - 1 - int (ring_count N h t)) mod int N"
    using \<open>(int t - int h) mod int N = int (ring_count N h t)\<close> by (metis mod_diff_right_eq)
  also have "\<dots> = int N - 1 - int (ring_count N h t)" using ring_count_facts(2) [OF assms] by (intro mod_pos_pos_trivial) auto
  finally show "(int h - int t - 1) mod int N = int (N - 1 - ring_count N h t)" using c by simp
qed

subsection \<open>The queue interface\<close>

text \<open>A history: \<open>Some m\<close> sends, \<open>None\<close> receives.  The results are the accepted messages, the delivered messages and the queue.\<close>

fun queue_run :: "('q \<Rightarrow> 'm \<Rightarrow> int \<times> 'q) \<Rightarrow> ('q \<Rightarrow> 'm option \<times> 'q) \<Rightarrow> 'q \<Rightarrow> 'm option list \<Rightarrow> 'm list \<times> 'm list \<times> 'q" where
  "queue_run send recv q [] = ([], [], q)"
| "queue_run send recv q (Some m # ops) =
     (case send q m of (r, q') \<Rightarrow> case queue_run send recv q' ops of (acc, del, q'') \<Rightarrow> (if r = 1 then m # acc else acc, del, q''))"
| "queue_run send recv q (None # ops) =
     (case recv q of (mo, q') \<Rightarrow> case queue_run send recv q' ops of (acc, del, q'') \<Rightarrow>
        (acc, (case mo of None \<Rightarrow> del | Some m \<Rightarrow> m # del), q''))"

locale fifo_queue =
  fixes inv :: "'q \<Rightarrow> bool" and view :: "'q \<Rightarrow> 'm list" and cap :: nat
    and send :: "'q \<Rightarrow> 'm \<Rightarrow> int \<times> 'q" and recv :: "'q \<Rightarrow> 'm option \<times> 'q"
  assumes send_ok: "inv q \<Longrightarrow> length (view q) < cap \<Longrightarrow> fst (send q m) = 1 \<and> inv (snd (send q m)) \<and> view (snd (send q m)) = view q @ [m]"
    and send_full: "inv q \<Longrightarrow> cap \<le> length (view q) \<Longrightarrow> send q m = (0, q)"
    and recv_ok: "inv q \<Longrightarrow> view q = m # ms \<Longrightarrow> fst (recv q) = Some m \<and> inv (snd (recv q)) \<and> view (snd (recv q)) = ms"
    and recv_empty: "inv q \<Longrightarrow> view q = [] \<Longrightarrow> recv q = (None, q)"
    and bounded: "inv q \<Longrightarrow> length (view q) \<le> cap"
begin

lemma fifo:
  assumes "inv q" "queue_run send recv q ops = (acc, del, q')"
  shows "inv q' \<and> view q @ acc = del @ view q'"
  using assms
proof (induction ops arbitrary: q acc del)
  case (Cons opn ops)
  show ?case
  proof (cases opn)
    case (Some m)
    obtain r q1 where s: "send q m = (r, q1)" by fastforce
    obtain a d q2 where rn: "queue_run send recv q1 ops = (a, d, q2)" using prod_cases3 by blast
    have r2: "acc = (if r = 1 then m # a else a)" "del = d" "q' = q2" using Cons.prems(2) s rn Some by auto
    show ?thesis
    proof (cases "length (view q) < cap")
      case True
      then have "r = 1" "inv q1" "view q1 = view q @ [m]" using send_ok [OF Cons.prems(1) True, of m] s by auto
      then show ?thesis using Cons.IH [of q1 a d] rn r2 by simp
    next
      case False
      then have "r = 0" "q1 = q" using send_full [OF Cons.prems(1), of m] s by auto
      then show ?thesis using Cons.IH [of q a d] Cons.prems(1) rn r2 by simp
    qed
  next
    case None
    obtain mo q1 where s: "recv q = (mo, q1)" by fastforce
    obtain a d q2 where rn: "queue_run send recv q1 ops = (a, d, q2)" using prod_cases3 by blast
    have r2: "acc = a" "del = (case mo of None \<Rightarrow> d | Some m \<Rightarrow> m # d)" "q' = q2" using Cons.prems(2) s rn None by auto
    show ?thesis
    proof (cases "view q")
      case Nil
      then have "mo = None" "q1 = q" using recv_empty [OF Cons.prems(1)] s by auto
      then show ?thesis using Cons.IH [of q a d] Cons.prems(1) rn r2 by simp
    next
      case (Cons m ms)
      then have "mo = Some m" "inv q1" "view q1 = ms" using recv_ok [OF \<open>inv q\<close> Cons] s by auto
      then show ?thesis using Cons.IH [of q1 a d] rn r2 Cons by simp
    qed
  qed
qed simp

lemma fifo_from_empty:
  assumes "inv q" "view q = []" "queue_run send recv q ops = (acc, del, q')"
  shows "acc = del @ view q' \<and> length (view q') \<le> cap"
  using fifo [OF assms(1,3)] assms(2) bounded by auto

end

subsection \<open>The queues are first-in first-out\<close>

definition mailbox_ok :: "Mailbox \<Rightarrow> bool" where
  "mailbox_ok q \<longleftrightarrow> length (mb_messages q) = 32 \<and> mb_head q < 32 \<and> mb_count q \<le> 32 \<and> mb_tail q = (mb_head q + mb_count q) mod 32"

definition mailbox_list :: "Mailbox \<Rightarrow> Message list" where
  "mailbox_list q = ring_view 32 (mb_messages q) (mb_head q) (mb_count q)"

lemmas queue_sizes = MAILBOX_SIZE_def MAILBOX_MASK_def SPSC_QUEUE_SIZE_def SPSC_QUEUE_MASK_def LOCKFREE_MAILBOX_SIZE_def
  LOCKFREE_MAILBOX_MASK_def QUEUE_SIZE_def QUEUE_MASK_def

lemma mailbox_send_list:
  assumes "mailbox_ok q" "mb_count q < 32"
  shows "fst (mailbox_send q m) = 1 \<and> mailbox_ok (snd (mailbox_send q m)) \<and> mailbox_list (snd (mailbox_send q m)) = mailbox_list q @ [m]"
  using ring_push [of "mb_messages q" 32 "mb_head q" "mb_count q" m] assms
  by (auto simp: mailbox_send_def queue_sizes and_masks mailbox_ok_def mailbox_list_def mod_simps)

lemma mailbox_receive_list:
  assumes "mailbox_ok q" "mailbox_list q = m # ms"
  shows "fst (mailbox_receive q) = Some m \<and> mailbox_ok (snd (mailbox_receive q)) \<and> mailbox_list (snd (mailbox_receive q)) = ms"
proof -
  have c: "0 < mb_count q" using assms(2) by (metis length_greater_0_conv length_ring_view list.discI mailbox_list_def)
  then obtain n where n: "mb_count q = Suc n" by (metis not0_implies_Suc less_irrefl)
  show ?thesis using ring_pop [OF c, of 32 "mb_messages q" "mb_head q"] assms n
    by (auto simp: mailbox_receive_def queue_sizes and_masks mailbox_ok_def mailbox_list_def mod_simps)
qed

interpretation mailbox: fifo_queue mailbox_ok mailbox_list 32 mailbox_send mailbox_receive
proof
  show "mailbox_send q m = (0, q)" if "mailbox_ok q" "32 \<le> length (mailbox_list q)" for q m
    using that by (simp add: mailbox_send_def mailbox_list_def MAILBOX_SIZE_def)
  show "mailbox_receive q = (None, q)" if "mailbox_ok q" "mailbox_list q = []" for q
    using that by (metis length_ring_view list.size(3) mailbox_list_def mailbox_receive_def)
  show "length (mailbox_list q) \<le> 32" if "mailbox_ok q" for q using that by (simp add: mailbox_list_def mailbox_ok_def)
qed (use mailbox_send_list mailbox_receive_list in \<open>auto simp: mailbox_list_def\<close>)

definition spsc_ok :: "SPSCQueue \<Rightarrow> bool" where
  "spsc_ok q \<longleftrightarrow> length (sq_buffer q) = 64 \<and> sq_head q < 64 \<and> sq_tail q < 64"

definition spsc_list :: "SPSCQueue \<Rightarrow> Message list" where
  "spsc_list q = ring_list 64 (sq_buffer q) (sq_head q) (sq_tail q)"

definition lmailbox_ok :: "LockFreeMailbox \<Rightarrow> bool" where
  "lmailbox_ok q \<longleftrightarrow> length (lm_messages q) = 64 \<and> lm_head q < 64 \<and> lm_tail q < 64"

definition lmailbox_list :: "LockFreeMailbox \<Rightarrow> Message list" where
  "lmailbox_list q = ring_list 64 (lm_messages q) (lm_head q) (lm_tail q)"

definition channel_ok :: "LockFreeQueue \<Rightarrow> bool" where
  "channel_ok q \<longleftrightarrow> length (lq_items q) = 1024 \<and> lq_head q < 1024 \<and> lq_tail q < 1024"

definition channel_list :: "LockFreeQueue \<Rightarrow> QueueItem list" where
  "channel_list q = ring_list 1024 (lq_items q) (lq_head q) (lq_tail q)"

text \<open>The test for a full queue, the send and the receive on any ring.\<close>

lemma ring_full: "h < N \<Longrightarrow> t < N \<Longrightarrow> length (ring_list N buf h t) < N - 1 \<longleftrightarrow> (t + 1) mod N \<noteq> h"
  using ring_count_facts [of h N t] by auto

lemma ring_empty: "h < N \<Longrightarrow> t < N \<Longrightarrow> ring_list N buf h t = [] \<longleftrightarrow> h = t"
  using ring_count_facts(3) [of h N t] by (metis length_0_conv length_ring_list)

lemma ring_bounded: "h < N \<Longrightarrow> t < N \<Longrightarrow> length (ring_list N buf h t) \<le> N - 1"
  using ring_count_facts(2) [of h N t] by simp

lemma spsc_list_ops:
  assumes ok: "spsc_ok q"
  shows "length (spsc_list q) < 63 \<Longrightarrow> fst (spsc_enqueue q m) = 1 \<and> spsc_ok (snd (spsc_enqueue q m)) \<and> spsc_list (snd (spsc_enqueue q m)) = spsc_list q @ [m]"
    "63 \<le> length (spsc_list q) \<Longrightarrow> spsc_enqueue q m = (0, q)"
    "spsc_list q = x # xs \<Longrightarrow> fst (spsc_dequeue q) = Some x \<and> spsc_ok (snd (spsc_dequeue q)) \<and> spsc_list (snd (spsc_dequeue q)) = xs"
    "spsc_list q = [] \<Longrightarrow> spsc_dequeue q = (None, q)" "length (spsc_list q) \<le> 63"
  using ok ring_full [of "sq_head q" 64 "sq_tail q" "sq_buffer q"] ring_list_send [of "sq_buffer q" 64 "sq_head q" "sq_tail q" m]
    ring_list_recv [of "sq_head q" 64 "sq_tail q" "sq_buffer q"] ring_empty [of "sq_head q" 64 "sq_tail q" "sq_buffer q"]
    ring_bounded [of "sq_head q" 64 "sq_tail q" "sq_buffer q"]
  by (auto simp: spsc_ok_def spsc_list_def spsc_enqueue_def spsc_dequeue_def queue_sizes and_masks Let_def)

lemma lmailbox_list_ops:
  assumes ok: "lmailbox_ok q"
  shows "length (lmailbox_list q) < 63 \<Longrightarrow> fst (lockfree_mailbox_send q m) = 1 \<and> lmailbox_ok (snd (lockfree_mailbox_send q m)) \<and>
      lmailbox_list (snd (lockfree_mailbox_send q m)) = lmailbox_list q @ [m]"
    "63 \<le> length (lmailbox_list q) \<Longrightarrow> lockfree_mailbox_send q m = (0, q)"
    "lmailbox_list q = x # xs \<Longrightarrow> fst (lockfree_mailbox_receive q) = Some x \<and> lmailbox_ok (snd (lockfree_mailbox_receive q)) \<and>
      lmailbox_list (snd (lockfree_mailbox_receive q)) = xs"
    "lmailbox_list q = [] \<Longrightarrow> lockfree_mailbox_receive q = (None, q)" "length (lmailbox_list q) \<le> 63"
  using ok ring_full [of "lm_head q" 64 "lm_tail q" "lm_messages q"] ring_list_send [of "lm_messages q" 64 "lm_head q" "lm_tail q" m]
    ring_list_recv [of "lm_head q" 64 "lm_tail q" "lm_messages q"] ring_empty [of "lm_head q" 64 "lm_tail q" "lm_messages q"]
    ring_bounded [of "lm_head q" 64 "lm_tail q" "lm_messages q"]
  by (auto simp: lmailbox_ok_def lmailbox_list_def lockfree_mailbox_send_def lockfree_mailbox_receive_def queue_sizes and_masks Let_def)

lemma channel_list_ops:
  assumes ok: "channel_ok q"
  shows "length (channel_list q) < 1023 \<Longrightarrow> fst (queue_enqueue q a m) = 1 \<and> channel_ok (snd (queue_enqueue q a m)) \<and>
      channel_list (snd (queue_enqueue q a m)) = channel_list q @ [(a, m)]"
    "1023 \<le> length (channel_list q) \<Longrightarrow> queue_enqueue q a m = (0, q)"
    "channel_list q = x # xs \<Longrightarrow> fst (queue_dequeue q) = Some x \<and> channel_ok (snd (queue_dequeue q)) \<and> channel_list (snd (queue_dequeue q)) = xs"
    "channel_list q = [] \<Longrightarrow> queue_dequeue q = (None, q)" "length (channel_list q) \<le> 1023"
  using ok ring_full [of "lq_head q" 1024 "lq_tail q" "lq_items q"] ring_list_send [of "lq_items q" 1024 "lq_head q" "lq_tail q" "(a, m)"]
    ring_list_recv [of "lq_head q" 1024 "lq_tail q" "lq_items q"] ring_empty [of "lq_head q" 1024 "lq_tail q" "lq_items q"]
    ring_bounded [of "lq_head q" 1024 "lq_tail q" "lq_items q"]
  by (auto simp: channel_ok_def channel_list_def queue_enqueue_def queue_dequeue_def queue_sizes and_masks Let_def)

interpretation spsc: fifo_queue spsc_ok spsc_list 63 spsc_enqueue spsc_dequeue
  by unfold_locales (use spsc_list_ops in auto)

interpretation lmailbox: fifo_queue lmailbox_ok lmailbox_list 63 lockfree_mailbox_send lockfree_mailbox_receive
  by unfold_locales (use lmailbox_list_ops in auto)

interpretation channel: fifo_queue channel_ok channel_list 1023 "\<lambda>q (a, m). queue_enqueue q a m" queue_dequeue
  by unfold_locales (use channel_list_ops in auto)

subsection \<open>Batches\<close>

lemma mailbox_receive_batch_list:
  "mailbox_ok q \<Longrightarrow> mailbox_ok (snd (mailbox_receive_batch q n)) \<and> fst (mailbox_receive_batch q n) = take n (mailbox_list q) \<and>
     mailbox_list (snd (mailbox_receive_batch q n)) = drop n (mailbox_list q)"
proof (induction n arbitrary: q)
  case (Suc n)
  show ?case
  proof (cases "mailbox_list q")
    case Nil
    then have "mb_count q = 0" by (metis length_ring_view list.size(3) mailbox_list_def)
    then show ?thesis using Suc.prems Nil by simp
  next
    case (Cons m ms)
    then have c: "mb_count q > 0" by (metis length_greater_0_conv length_ring_view list.discI mailbox_list_def)
    define q1 where "q1 = q\<lparr>mb_head := (mb_head q + 1) AND MAILBOX_MASK, mb_count := mb_count q - 1\<rparr>"
    have r: "mailbox_receive q = (Some (mb_messages q ! mb_head q), q1)" using c by (simp add: mailbox_receive_def q1_def)
    have b: "mailbox_receive_batch q (Suc n) = (mb_messages q ! mb_head q # fst (mailbox_receive_batch q1 n), snd (mailbox_receive_batch q1 n))"
      using c by (simp add: q1_def Let_def)
    show ?thesis unfolding b using mailbox_receive_list [OF Suc.prems Cons] Suc.IH [of q1] Cons r by simp
  qed
qed simp

lemma mailbox_send_batch_list:
  "mailbox_ok q \<Longrightarrow> mailbox_ok (snd (mailbox_send_batch q ms)) \<and> fst (mailbox_send_batch q ms) = min (length ms) (32 - length (mailbox_list q)) \<and>
     mailbox_list (snd (mailbox_send_batch q ms)) = mailbox_list q @ take (32 - length (mailbox_list q)) ms"
proof (induction ms arbitrary: q)
  case (Cons m ms)
  have len: "length (mailbox_list q) = mb_count q" by (simp add: mailbox_list_def)
  show ?case
  proof (cases "mb_count q < 32")
    case False
    then show ?thesis using Cons.prems len by (simp add: MAILBOX_SIZE_def)
  next
    case True
    define q1 where "q1 = q\<lparr>mb_messages := (mb_messages q)[mb_tail q := m], mb_tail := (mb_tail q + 1) AND MAILBOX_MASK, mb_count := mb_count q + 1\<rparr>"
    have r: "mailbox_send q m = (1, q1)" using True by (simp add: mailbox_send_def q1_def MAILBOX_SIZE_def)
    have b: "mailbox_send_batch q (m # ms) = (fst (mailbox_send_batch q1 ms) + 1, snd (mailbox_send_batch q1 ms))"
      using True by (simp add: q1_def Let_def MAILBOX_SIZE_def)
    obtain k where k: "32 - mb_count q = Suc k" using True by (metis Suc_diff_Suc)
    have q1: "mailbox_ok q1" "mailbox_list q1 = mailbox_list q @ [m]" using mailbox_send_list [OF Cons.prems True, of m] r by auto
    then have k1: "32 - length (mailbox_list q1) = k" using k len by simp
    show ?thesis unfolding b len k using Cons.IH [OF q1(1)] unfolding k1 by (simp add: q1(2))
  qed
qed simp

lemma spsc_enqueue_batch_list:
  assumes "spsc_ok q"
  shows "(if length (spsc_list q) + length ms \<le> 63 then fst (spsc_enqueue_batch q ms) = length ms \<and> spsc_ok (snd (spsc_enqueue_batch q ms)) \<and>
      spsc_list (snd (spsc_enqueue_batch q ms)) = spsc_list q @ ms
    else spsc_enqueue_batch q ms = (0, q))"
proof -
  have h: "length (sq_buffer q) = 64" "sq_head q < 64" "sq_tail q < 64" using assms by (auto simp: spsc_ok_def)
  have sp: "(if sq_head q > sq_tail q then sq_head q - sq_tail q - 1 else SPSC_QUEUE_SIZE - (sq_tail q - sq_head q) - 1) =
      63 - ring_count 64 (sq_head q) (sq_tail q)"
    using h by (auto simp: SPSC_QUEUE_SIZE_def ring_count_def mod_if)
  show ?thesis using ring_copy_in_list [OF h, of 6 ms] ring_count_facts(2) [OF h(2,3)] h
    unfolding spsc_enqueue_batch_def Let_def sp by (auto simp: spsc_list_def spsc_ok_def SPSC_QUEUE_MASK_def SPSC_QUEUE_SIZE_def)
qed

lemma spsc_dequeue_batch_list:
  assumes "spsc_ok q" "0 \<le> n" "n < 2 ^ 31"
  shows "fst (spsc_dequeue_batch q n) = take (nat n) (spsc_list q) \<and> spsc_ok (snd (spsc_dequeue_batch q n)) \<and>
    spsc_list (snd (spsc_dequeue_batch q n)) = drop (nat n) (spsc_list q)"
proof -
  have h: "sq_head q < 64" "sq_tail q < 64" using assms by (auto simp: spsc_ok_def)
  define c where "c = ring_count 64 (sq_head q) (sq_tail q)"
  define d where "d = (if c < nat n then c else nat n)"
  have len: "length (spsc_list q) = c" by (simp add: spsc_list_def c_def)
  show ?thesis
  proof (cases "sq_head q = sq_tail q")
    case True
    then have "spsc_list q = []" using ring_empty [OF h] by (simp add: spsc_list_def)
    then show ?thesis using assms(1) True by (simp add: spsc_dequeue_batch_def Let_def)
  next
    case False
    have "(if sq_tail q > sq_head q then sq_tail q - sq_head q else SPSC_QUEUE_SIZE - (sq_head q - sq_tail q)) = c"
      using h False by (auto simp: SPSC_QUEUE_SIZE_def c_def ring_count_def mod_if)
    moreover have "n mod 2 ^ 32 = n" using assms(2,3) by simp
    ultimately have b: "spsc_dequeue_batch q n = (let r = ring_copy_out 63 (sq_buffer q) (sq_head q) d in (fst r, q\<lparr>sq_head := snd r\<rparr>))"
      using False unfolding spsc_dequeue_batch_def Let_def d_def SPSC_QUEUE_MASK_def by (simp add: SPSC_QUEUE_SIZE_def)
    have t: "take d (spsc_list q) = take (nat n) (spsc_list q)" "drop d (spsc_list q) = drop (nat n) (spsc_list q)"
      using len by (auto simp: d_def)
    have "d \<le> ring_count 64 (sq_head q) (sq_tail q)" by (simp add: d_def c_def)
    from ring_copy_out_list [OF h, of 6 d "sq_buffer q", OF _ this] assms(1) t show ?thesis
      unfolding b by (auto simp: Let_def spsc_list_def spsc_ok_def)
  qed
qed

lemma lockfree_mailbox_send_batch_list:
  assumes "lmailbox_ok q"
  shows "fst (lockfree_mailbox_send_batch q ms) = min (length ms) (63 - length (lmailbox_list q)) \<and> lmailbox_ok (snd (lockfree_mailbox_send_batch q ms)) \<and>
    lmailbox_list (snd (lockfree_mailbox_send_batch q ms)) = lmailbox_list q @ take (63 - length (lmailbox_list q)) ms"
proof -
  have h: "length (lm_messages q) = 64" "lm_head q < 64" "lm_tail q < 64" using assms by (auto simp: lmailbox_ok_def)
  define c where "c = ring_count 64 (lm_head q) (lm_tail q)"
  have c: "c < 64" using ring_count_facts(2) [OF h(2,3)] by (simp add: c_def)
  have len: "length (lmailbox_list q) = c" by (simp add: lmailbox_list_def c_def)
  have av: "nat ((int (lm_head q) - int (lm_tail q) - 1) AND int LOCKFREE_MAILBOX_MASK) = 63 - c"
    using int_and_mask [of "int (lm_head q) - int (lm_tail q) - 1" 6] ring_count_int(2) [OF h(2,3)]
    by (simp add: queue_sizes c_def)
  define k where "k = (if 63 - c < length ms then 63 - c else length ms)"
  have k: "take k ms = take (63 - c) ms" "k = min (length ms) (63 - c)" "length (take k ms) = k" by (auto simp: k_def)
  show ?thesis
  proof (cases "63 - c = 0")
    case True
    then show ?thesis unfolding lockfree_mailbox_send_batch_def Let_def av using assms len by simp
  next
    case False
    have b: "lockfree_mailbox_send_batch q ms = (k, q\<lparr>lm_messages := copy_in_at 63 (lm_messages q) (lm_tail q) 0 (take k ms), lm_tail := (lm_tail q + k) mod 64\<rparr>)"
      using False unfolding lockfree_mailbox_send_batch_def Let_def av k_def [symmetric] by (simp add: queue_sizes and_masks)
    have "ring_count 64 (lm_head q) (lm_tail q) + length (take k ms) < 64" using c by (auto simp: k_def c_def)
    from ring_copy_in_list [OF h _ this, of 6] copy_in_at_ring [of 64 6 "lm_messages q" "lm_tail q" 0 "take k ms"] h k
    show ?thesis unfolding b len k(1) [symmetric] by (simp add: lmailbox_list_def lmailbox_ok_def)
  qed
qed

lemma lockfree_mailbox_receive_batch_list:
  assumes "lmailbox_ok q" "0 \<le> n"
  shows "fst (lockfree_mailbox_receive_batch q n) = take (nat n) (lmailbox_list q) \<and> lmailbox_ok (snd (lockfree_mailbox_receive_batch q n)) \<and>
    lmailbox_list (snd (lockfree_mailbox_receive_batch q n)) = drop (nat n) (lmailbox_list q)"
proof -
  have h: "lm_head q < 64" "lm_tail q < 64" using assms by (auto simp: lmailbox_ok_def)
  define c where "c = ring_count 64 (lm_head q) (lm_tail q)"
  define d where "d = (if c < nat n then c else nat n)"
  have av: "(int (lm_tail q) - int (lm_head q)) AND int LOCKFREE_MAILBOX_MASK = int c"
    using int_and_mask [of "int (lm_tail q) - int (lm_head q)" 6] ring_count_int(1) [OF h] by (simp add: queue_sizes c_def)
  have len: "length (lmailbox_list q) = c" by (simp add: lmailbox_list_def c_def)
  have t: "take d (lmailbox_list q) = take (nat n) (lmailbox_list q)" "drop d (lmailbox_list q) = drop (nat n) (lmailbox_list q)"
    using len by (auto simp: d_def)
  have out: "ring_copy_out 63 buf hd d = (map (\<lambda>i. buf ! ((hd + i) mod 64)) [0..<d], (hd + d) mod 64)" if "hd < 64" for buf :: "Message list" and hd d
    using that
  proof (induction d arbitrary: hd)
    case (Suc d)
    have "(hd + 1) AND 63 = (hd + 1) mod 64" by (simp add: and_masks)
    then show ?case using Suc.IH [of "(hd + 1) mod 64"] Suc.prems
      by (simp add: Let_def upt_conv_Cons map_Suc_upt [symmetric] mod_simps del: upt_Suc)
  qed simp
  show ?thesis
  proof (cases "c = 0")
    case True
    then show ?thesis unfolding lockfree_mailbox_receive_batch_def Let_def av using assms len by simp
  next
    case False
    have dn: "(if int c < n then int c else n) = int d" using assms(2) by (auto simp: d_def)
    have "(int (lm_head q) + int d) AND 63 = int ((lm_head q + d) mod 64)"
      using int_and_mask [of "int (lm_head q + d)" 6] by (simp add: zmod_int)
    then have hd: "nat ((int (lm_head q) + int d) AND int LOCKFREE_MAILBOX_MASK) = (lm_head q + d) mod 64"
      by (simp add: queue_sizes)
    have b: "lockfree_mailbox_receive_batch q n = (let r = ring_copy_out 63 (lm_messages q) (lm_head q) d in (fst r, q\<lparr>lm_head := snd r\<rparr>))"
      using False unfolding lockfree_mailbox_receive_batch_def Let_def av dn hd out [OF h(1)] by (simp add: queue_sizes and_masks)
    have "d \<le> ring_count 64 (lm_head q) (lm_tail q)" by (simp add: d_def c_def)
    from ring_copy_out_list [OF h, of 6 d "lm_messages q", OF _ this] assms(1) t show ?thesis
      unfolding b by (auto simp: Let_def lmailbox_list_def lmailbox_ok_def)
  qed
qed

lemma queue_enqueue_batch_list:
  assumes "channel_ok q"
  shows "fst (queue_enqueue_batch q its) = min (length its) (1023 - length (channel_list q)) \<and> channel_ok (snd (queue_enqueue_batch q its)) \<and>
    channel_list (snd (queue_enqueue_batch q its)) = channel_list q @ take (1023 - length (channel_list q)) its"
proof -
  have h: "length (lq_items q) = 1024" "lq_head q < 1024" "lq_tail q < 1024" using assms by (auto simp: channel_ok_def)
  define c where "c = ring_count 1024 (lq_head q) (lq_tail q)"
  have c: "c < 1024" using ring_count_facts(2) [OF h(2,3)] by (simp add: c_def)
  have len: "length (channel_list q) = c" by (simp add: channel_list_def c_def)
  have av: "nat ((int (lq_head q) - int (lq_tail q) - 1) AND int QUEUE_MASK) = 1023 - c"
    using int_and_mask [of "int (lq_head q) - int (lq_tail q) - 1" 10] ring_count_int(2) [OF h(2,3)]
    by (simp add: queue_sizes c_def)
  define k where "k = (if length its < 1023 - c then length its else 1023 - c)"
  have k: "take k its = take (1023 - c) its" "k = min (length its) (1023 - c)" "length (take k its) = k" by (auto simp: k_def)
  show ?thesis
  proof (cases "1023 - c = 0")
    case True
    then show ?thesis unfolding queue_enqueue_batch_def Let_def av using assms len by simp
  next
    case False
    have b: "queue_enqueue_batch q its = (let r = ring_copy_in 1023 (lq_items q) (lq_tail q) (take k its) in (k, q\<lparr>lq_items := fst r, lq_tail := snd r\<rparr>))"
      using False unfolding queue_enqueue_batch_def Let_def av k_def [symmetric] by (simp add: queue_sizes)
    have "ring_count 1024 (lq_head q) (lq_tail q) + length (take k its) < 1024" using c by (auto simp: k_def c_def)
    from ring_copy_in_list [OF h _ this, of 10] h k
    show ?thesis unfolding b len k(1) [symmetric] by (simp add: channel_list_def channel_ok_def Let_def)
  qed
qed

lemma queue_dequeue_batch_list:
  assumes "channel_ok q"
  shows "fst (queue_dequeue_batch q n) = take (nat n) (channel_list q) \<and> channel_ok (snd (queue_dequeue_batch q n)) \<and>
    channel_list (snd (queue_dequeue_batch q n)) = drop (nat n) (channel_list q)"
proof -
  have h: "lq_head q < 1024" "lq_tail q < 1024" using assms by (auto simp: channel_ok_def)
  define c where "c = ring_count 1024 (lq_head q) (lq_tail q)"
  define d where "d = nat (if int c < n then int c else n)"
  have av: "(int (lq_tail q) - int (lq_head q)) AND int QUEUE_MASK = int c"
    using int_and_mask [of "int (lq_tail q) - int (lq_head q)" 10] ring_count_int(1) [OF h] by (simp add: queue_sizes c_def)
  have len: "length (channel_list q) = c" by (simp add: channel_list_def c_def)
  have t: "take d (channel_list q) = take (nat n) (channel_list q)" "drop d (channel_list q) = drop (nat n) (channel_list q)"
    using len by (auto simp: d_def)
  show ?thesis
  proof (cases "c = 0")
    case True
    then show ?thesis unfolding queue_dequeue_batch_def Let_def av using assms len by simp
  next
    case False
    have b: "queue_dequeue_batch q n = (let r = ring_copy_out 1023 (lq_items q) (lq_head q) d in (fst r, q\<lparr>lq_head := snd r\<rparr>))"
      using False unfolding queue_dequeue_batch_def Let_def av d_def by (simp add: queue_sizes)
    have "d \<le> ring_count 1024 (lq_head q) (lq_tail q)" by (auto simp: d_def c_def)
    from ring_copy_out_list [OF h, of 10 d "lq_items q", OF _ this] assms(1) t show ?thesis
      unfolding b by (auto simp: Let_def channel_list_def channel_ok_def)
  qed
qed

subsection \<open>Concurrent producer and consumer\<close>

text \<open>
  The steps of \<open>spsc_enqueue\<close> and \<open>spsc_dequeue\<close> as they interleave: a side first
  loads the position the other side owns and takes its decision, then writes or reads the slot, then
  publishes its own position.  The producer alone stores the tail and the consumer alone stores the head.
  The release stores and acquire loads of the source order the slot accesses between them, so the
  interleaving of these steps is what another thread can see.  \<open>accepted\<close> and
  \<open>delivered\<close> record the history.
\<close>

datatype pstate = PIdle | PChecked Message nat | PWritten nat
datatype cstate = CIdle | CChecked | CRead nat

record conc =
  shared :: SPSCQueue
  producer :: pstate
  consumer :: cstate
  accepted :: "Message list"
  delivered :: "Message list"

inductive spsc_step :: "conc \<Rightarrow> conc \<Rightarrow> bool" where
  enq_full: "producer s = PIdle \<Longrightarrow> (sq_tail (shared s) + 1) AND SPSC_QUEUE_MASK = sq_head (shared s) \<Longrightarrow> spsc_step s s"
| enq_check: "producer s = PIdle \<Longrightarrow> next_tail = (sq_tail (shared s) + 1) AND SPSC_QUEUE_MASK \<Longrightarrow> next_tail \<noteq> sq_head (shared s) \<Longrightarrow>
    spsc_step s (s\<lparr>producer := PChecked msg next_tail\<rparr>)"
| enq_write: "producer s = PChecked msg next_tail \<Longrightarrow>
    spsc_step s (s\<lparr>shared := (shared s)\<lparr>sq_buffer := (sq_buffer (shared s))[sq_tail (shared s) := msg]\<rparr>,
                   producer := PWritten next_tail, accepted := accepted s @ [msg]\<rparr>)"
| enq_publish: "producer s = PWritten next_tail \<Longrightarrow>
    spsc_step s (s\<lparr>shared := (shared s)\<lparr>sq_tail := next_tail\<rparr>, producer := PIdle\<rparr>)"
| deq_empty: "consumer s = CIdle \<Longrightarrow> sq_head (shared s) = sq_tail (shared s) \<Longrightarrow> spsc_step s s"
| deq_check: "consumer s = CIdle \<Longrightarrow> sq_head (shared s) \<noteq> sq_tail (shared s) \<Longrightarrow> spsc_step s (s\<lparr>consumer := CChecked\<rparr>)"
| deq_read: "consumer s = CChecked \<Longrightarrow>
    spsc_step s (s\<lparr>consumer := CRead ((sq_head (shared s) + 1) AND SPSC_QUEUE_MASK), delivered := delivered s @ [sq_buffer (shared s) ! sq_head (shared s)]\<rparr>)"
| deq_publish: "consumer s = CRead next_head \<Longrightarrow>
    spsc_step s (s\<lparr>shared := (shared s)\<lparr>sq_head := next_head\<rparr>, consumer := CIdle\<rparr>)"

inductive spsc_reachable :: "conc \<Rightarrow> bool" where
  start: "length buf = SPSC_QUEUE_SIZE \<Longrightarrow>
    spsc_reachable \<lparr>shared = \<lparr>sq_buffer = buf, sq_head = 0, sq_tail = 0\<rparr>, producer = PIdle, consumer = CIdle, accepted = [], delivered = []\<rparr>"
| step: "spsc_reachable s \<Longrightarrow> spsc_step s s' \<Longrightarrow> spsc_reachable s'"

text \<open>The slots between head and tail hold what is accepted and published but not yet released.\<close>

definition unpublished :: "conc \<Rightarrow> Message list" where
  "unpublished s = (case producer s of PWritten _ \<Rightarrow> [sq_buffer (shared s) ! sq_tail (shared s)] | _ \<Rightarrow> [])"

definition unreleased :: "conc \<Rightarrow> Message list" where
  "unreleased s = (case consumer s of CRead _ \<Rightarrow> [sq_buffer (shared s) ! sq_head (shared s)] | _ \<Rightarrow> [])"

definition spsc_inv :: "conc \<Rightarrow> bool" where
  "spsc_inv s \<longleftrightarrow> spsc_ok (shared s) \<and>
     (case producer s of PIdle \<Rightarrow> True
      | PChecked _ n \<Rightarrow> n = (sq_tail (shared s) + 1) mod 64 \<and> n \<noteq> sq_head (shared s)
      | PWritten n \<Rightarrow> n = (sq_tail (shared s) + 1) mod 64 \<and> n \<noteq> sq_head (shared s)) \<and>
     (case consumer s of CIdle \<Rightarrow> True
      | CChecked \<Rightarrow> sq_head (shared s) \<noteq> sq_tail (shared s)
      | CRead n \<Rightarrow> n = (sq_head (shared s) + 1) mod 64 \<and> sq_head (shared s) \<noteq> sq_tail (shared s)) \<and>
     (\<exists>released. delivered s = released @ unreleased s \<and> accepted s = released @ spsc_list (shared s) @ unpublished s)"

lemmas conc_defs = spsc_inv_def unpublished_def unreleased_def spsc_ok_def spsc_list_def SPSC_QUEUE_MASK_def SPSC_QUEUE_SIZE_def

lemma ring_list_write_tail:
  assumes "length buf = N" "h < N" "t < N"
  shows "ring_list N (buf[t := m]) h t = ring_list N buf h t"
proof -
  have "buf[t := m] ! ((h + i) mod N) = buf ! ((h + i) mod N)" if "i < ring_count N h t" for i
    using ring_inj [OF assms(2), of i "ring_count N h t"] ring_count_facts(1,2) [OF assms(2,3)] that
    by (metis less_trans nat_neq_iff nth_list_update_neq)
  then show ?thesis by (simp add: ring_list_def ring_view_def)
qed

lemma ring_list_publish:
  assumes "length buf = N" "h < N" "t < N" "(t + 1) mod N \<noteq> h"
  shows "ring_list N buf h ((t + 1) mod N) = ring_list N buf h t @ [buf ! t]"
  using ring_list_send [OF assms, of "buf ! t"] by simp

lemma spsc_mask: "x AND 63 = x mod (64 :: nat)"
  by (simp add: and_masks)

lemma spsc_inv_step:
  assumes "spsc_step s s'" "spsc_inv s"
  shows "spsc_inv s'"
  using assms
proof (induction rule: spsc_step.induct)
  case (enq_write s msg n)
  let ?q = "shared s"
  have q: "length (sq_buffer ?q) = 64" "sq_head ?q < 64" "sq_tail ?q < 64" using enq_write.prems by (auto simp: conc_defs)
  show ?case using enq_write ring_list_write_tail [OF q, of msg] q by (auto simp: conc_defs split: cstate.splits)
next
  case (enq_publish s n)
  let ?q = "shared s"
  have q: "length (sq_buffer ?q) = 64" "sq_head ?q < 64" "sq_tail ?q < 64" and n: "n = (sq_tail ?q + 1) mod 64" "n \<noteq> sq_head ?q"
    using enq_publish by (auto simp: conc_defs)
  show ?case using enq_publish ring_list_publish [OF q] q n by (auto simp: conc_defs split: cstate.splits)
next
  case (deq_read s)
  then show ?case by (auto simp: conc_defs spsc_mask split: pstate.splits)
next
  case (deq_publish s n)
  let ?q = "shared s"
  have q: "sq_head ?q < 64" "sq_tail ?q < 64" and n: "n = (sq_head ?q + 1) mod 64" "sq_head ?q \<noteq> sq_tail ?q"
    using deq_publish by (auto simp: conc_defs)
  have "(sq_tail ?q + 1) mod 64 \<noteq> (sq_head ?q + 1) mod 64" using q n(2) by (cases "Suc (sq_tail ?q) = 64"; cases "Suc (sq_head ?q) = 64") auto
  then show ?case using deq_publish ring_list_recv [OF q n(2), of "sq_buffer ?q"] q n
    by (auto simp: conc_defs split: pstate.splits)
qed (auto simp: conc_defs spsc_mask split: pstate.splits cstate.splits)

lemma spsc_inv_reachable: "spsc_reachable s \<Longrightarrow> spsc_inv s"
proof (induction rule: spsc_reachable.induct)
  case (start buf)
  show ?case using start by (simp add: conc_defs ring_list_def ring_view_def ring_count_def)
qed (rule spsc_inv_step)

subsection \<open>Claims\<close>

text \<open>C23. In every interleaving of one producer and one consumer on the single-producer single-consumer queue, what the consumer has read is an initial part of what the producer has written: no message is lost, duplicated, reordered or read before it is written, and the slot being written is never one of the slots being read.\<close>

theorem spsc_concurrent_fifo:
  assumes "spsc_reachable s"
  shows "(\<exists>pending. accepted s = delivered s @ pending \<and> length pending \<le> 64) \<and>
    (\<forall>msg n. producer s = PChecked msg n \<longrightarrow> consumer s = CChecked \<longrightarrow> sq_tail (shared s) \<noteq> sq_head (shared s))"
proof -
  have inv: "spsc_inv s" by (rule spsc_inv_reachable [OF assms])
  then obtain rel where r: "delivered s = rel @ unreleased s" "accepted s = rel @ spsc_list (shared s) @ unpublished s"
    by (auto simp: spsc_inv_def)
  have q: "sq_head (shared s) < 64" "sq_tail (shared s) < 64" using inv by (auto simp: conc_defs)
  have "length (spsc_list (shared s)) \<le> 63" using ring_bounded [OF q] by (simp add: spsc_list_def)
  moreover have "length (unpublished s) \<le> 1" by (simp add: unpublished_def split: pstate.splits)
  moreover have "\<exists>xs. spsc_list (shared s) = unreleased s @ xs"
    using ring_list_recv [OF q] inv by (auto simp: conc_defs split: cstate.splits)
  ultimately have "\<exists>pending. accepted s = delivered s @ pending \<and> length pending \<le> 64" using r by auto
  moreover have "\<forall>msg n. producer s = PChecked msg n \<longrightarrow> consumer s = CChecked \<longrightarrow> sq_tail (shared s) \<noteq> sq_head (shared s)"
    using inv by (auto simp: conc_defs)
  ultimately show ?thesis by blast
qed

text \<open>C24. For the actor mailbox, the cross-core mailbox, the same-core queue and the scheduler channel, starting empty: after any sequence of sends and receives, the accepted messages are the delivered ones, in order, followed by those still queued, and never more than 32, 63, 63 and 1023 are queued.\<close>

theorem queues_are_fifo:
  "(\<forall>q ops acc del q'. mailbox_ok q \<longrightarrow> queue_run mailbox_send mailbox_receive (mailbox_init q) ops = (acc, del, q') \<longrightarrow>
      acc = del @ mailbox_list q' \<and> length (mailbox_list q') \<le> 32) \<and>
   (\<forall>ops acc del q'. queue_run lockfree_mailbox_send lockfree_mailbox_receive lockfree_mailbox_init ops = (acc, del, q') \<longrightarrow>
      acc = del @ lmailbox_list q' \<and> length (lmailbox_list q') \<le> 63) \<and>
   (\<forall>q ops acc del q'. spsc_ok q \<longrightarrow> queue_run spsc_enqueue spsc_dequeue (spsc_queue_init q) ops = (acc, del, q') \<longrightarrow>
      acc = del @ spsc_list q' \<and> length (spsc_list q') \<le> 63) \<and>
   (\<forall>q ops acc del q'. channel_ok q \<longrightarrow> queue_run (\<lambda>q (a, m). queue_enqueue q a m) queue_dequeue (queue_init q) ops = (acc, del, q') \<longrightarrow>
      acc = del @ channel_list q' \<and> length (channel_list q') \<le> 1023)"
proof (intro conjI allI impI)
  have e: "ring_list N buf 0 0 = []" "ring_view N buf h 0 = []" for N h and buf :: "'a list"
    by (simp_all add: ring_list_def ring_view_def ring_count_def)
  show "acc = del @ mailbox_list q'" "length (mailbox_list q') \<le> 32"
    if "mailbox_ok q" "queue_run mailbox_send mailbox_receive (mailbox_init q) ops = (acc, del, q')" for q ops acc del q'
    using mailbox.fifo_from_empty [of "mailbox_init q" ops acc del q'] that
    by (simp_all add: mailbox_init_def mailbox_ok_def mailbox_list_def e)
  show "acc = del @ lmailbox_list q'" "length (lmailbox_list q') \<le> 63"
    if "queue_run lockfree_mailbox_send lockfree_mailbox_receive lockfree_mailbox_init ops = (acc, del, q')" for ops acc del q'
    using lmailbox.fifo_from_empty [of lockfree_mailbox_init ops acc del q'] that
    by (simp_all add: lockfree_mailbox_init_def lmailbox_ok_def lmailbox_list_def e LOCKFREE_MAILBOX_SIZE_def)
  show "acc = del @ spsc_list q'" "length (spsc_list q') \<le> 63"
    if "spsc_ok q" "queue_run spsc_enqueue spsc_dequeue (spsc_queue_init q) ops = (acc, del, q')" for q ops acc del q'
    using spsc.fifo_from_empty [of "spsc_queue_init q" ops acc del q'] that
    by (simp_all add: spsc_queue_init_def spsc_ok_def spsc_list_def e)
  show "acc = del @ channel_list q'" "length (channel_list q') \<le> 1023"
    if "channel_ok q" "queue_run (\<lambda>q (a, m). queue_enqueue q a m) queue_dequeue (queue_init q) ops = (acc, del, q')" for q ops acc del q'
    using channel.fifo_from_empty [of "queue_init q" ops acc del q'] that
    by (simp_all add: queue_init_def channel_ok_def channel_list_def e)
qed

text \<open>The batch operations move as many messages as fit, in order, and leave the queue that one operation at a time would: the mailboxes and the channel take a part of a batch that does not fit, the same-core queue refuses it as a whole.\<close>

theorem batches_are_fifo:
  assumes "mailbox_ok q1" "lmailbox_ok q2" "spsc_ok q3" "channel_ok q4" "0 \<le> n" "n < 2 ^ 31"
  shows "mailbox_list (snd (mailbox_send_batch q1 ms)) = mailbox_list q1 @ take (32 - length (mailbox_list q1)) ms \<and>
    fst (mailbox_receive_batch q1 k) = take k (mailbox_list q1) \<and> mailbox_list (snd (mailbox_receive_batch q1 k)) = drop k (mailbox_list q1) \<and>
    lmailbox_list (snd (lockfree_mailbox_send_batch q2 ms)) = lmailbox_list q2 @ take (63 - length (lmailbox_list q2)) ms \<and>
    fst (lockfree_mailbox_receive_batch q2 n) = take (nat n) (lmailbox_list q2) \<and>
    lmailbox_list (snd (lockfree_mailbox_receive_batch q2 n)) = drop (nat n) (lmailbox_list q2) \<and>
    spsc_list (snd (spsc_enqueue_batch q3 ms)) = (if length (spsc_list q3) + length ms \<le> 63 then spsc_list q3 @ ms else spsc_list q3) \<and>
    fst (spsc_dequeue_batch q3 n) = take (nat n) (spsc_list q3) \<and> spsc_list (snd (spsc_dequeue_batch q3 n)) = drop (nat n) (spsc_list q3) \<and>
    channel_list (snd (queue_enqueue_batch q4 its)) = channel_list q4 @ take (1023 - length (channel_list q4)) its \<and>
    fst (queue_dequeue_batch q4 n) = take (nat n) (channel_list q4) \<and> channel_list (snd (queue_dequeue_batch q4 n)) = drop (nat n) (channel_list q4)"
  using mailbox_send_batch_list [OF assms(1)] mailbox_receive_batch_list [OF assms(1)] lockfree_mailbox_send_batch_list [OF assms(2)]
    lockfree_mailbox_receive_batch_list [OF assms(2,5)] spsc_enqueue_batch_list [OF assms(3), of ms] spsc_dequeue_batch_list [OF assms(3,5,6)]
    queue_enqueue_batch_list [OF assms(4)] queue_dequeue_batch_list [OF assms(4)]
  by (auto split: if_splits)

text \<open>A zero-copy payload is released exactly once: after a transfer, releasing the destination and the source, in either order and any number of times, releases the payload once.\<close>

theorem message_ownership:
  assumes "zc_owned src \<noteq> 0" "zc_data src \<noteq> 0" "message_transfer src = (dest, src')"
  shows "snd (message_free dest) @ snd (message_free src') @ snd (message_free (fst (message_free dest))) = [zc_data src]"
  using assms by (auto simp: message_transfer_def message_free_def)

definition mailbox_example :: Mailbox where
  "mailbox_example = \<lparr>mb_messages = replicate 32 zero_message, mb_head = 31, mb_tail = 31, mb_count = 0\<rparr>"

definition spsc_example :: SPSCQueue where
  "spsc_example = \<lparr>sq_buffer = replicate 64 zero_message, sq_head = 0, sq_tail = 0\<rparr>"

definition channel_example :: LockFreeQueue where
  "channel_example = \<lparr>lq_head = 0, lq_tail = 0, lq_items = replicate 1024 (0, zero_message)\<rparr>"

lemma examples_ok: "mailbox_ok mailbox_example" "spsc_ok spsc_example" "channel_ok channel_example" "lmailbox_ok lockfree_mailbox_init"
  "spsc_list spsc_example = []"
  by (simp_all add: mailbox_ok_def mailbox_example_def spsc_ok_def spsc_example_def channel_ok_def channel_example_def lmailbox_ok_def
      lockfree_mailbox_init_def LOCKFREE_MAILBOX_SIZE_def spsc_list_def ring_list_def ring_view_def ring_count_def)

definition conc_example :: conc where
  "conc_example = \<lparr>shared = spsc_example, producer = PIdle, consumer = CIdle, accepted = [], delivered = []\<rparr>"

theorem spsc_concurrent_fifo_witness:
  "\<exists>pending. accepted (conc_example\<lparr>producer := PChecked zero_message 1\<rparr>) = delivered (conc_example\<lparr>producer := PChecked zero_message 1\<rparr>) @ pending"
proof -
  have "spsc_reachable conc_example" unfolding conc_example_def spsc_example_def by (rule start) (simp add: SPSC_QUEUE_SIZE_def)
  moreover have "spsc_step conc_example (conc_example\<lparr>producer := PChecked zero_message 1\<rparr>)"
    by (rule enq_check) (simp_all add: conc_example_def spsc_example_def SPSC_QUEUE_MASK_def SPSC_QUEUE_SIZE_def)
  ultimately have "spsc_reachable (conc_example\<lparr>producer := PChecked zero_message 1\<rparr>)" by (rule step)
  from spsc_concurrent_fifo [OF this] show ?thesis by blast
qed

theorem queues_are_fifo_witness:
  "\<exists>q'. queue_run mailbox_send mailbox_receive (mailbox_init mailbox_example) [Some zero_message, Some (message_create_simple 7 1 42), None]
      = ([zero_message, message_create_simple 7 1 42], [zero_message], q') \<and> mailbox_list q' = [message_create_simple 7 1 42]"
proof -
  have run: "\<exists>q'. queue_run mailbox_send mailbox_receive (mailbox_init mailbox_example) [Some zero_message, Some (message_create_simple 7 1 42), None]
      = ([zero_message, message_create_simple 7 1 42], [zero_message], q')"
    by (simp add: mailbox_send_def mailbox_receive_def mailbox_init_def mailbox_example_def MAILBOX_SIZE_def MAILBOX_MASK_def)
  then obtain q' where q': "queue_run mailbox_send mailbox_receive (mailbox_init mailbox_example) [Some zero_message, Some (message_create_simple 7 1 42), None]
      = ([zero_message, message_create_simple 7 1 42], [zero_message], q')" by blast
  from queues_are_fifo [THEN conjunct1, rule_format, OF examples_ok(1) q'] show ?thesis using q' by simp
qed

theorem batches_are_fifo_witness:
  "spsc_list (snd (spsc_enqueue_batch spsc_example [zero_message, message_create_simple 7 1 42])) = [zero_message, message_create_simple 7 1 42]"
  using batches_are_fifo [OF examples_ok(1,4,2,3), of 5 "[zero_message, message_create_simple 7 1 42]"] by (simp add: examples_ok(5))

theorem message_ownership_witness:
  "snd (message_free (fst (message_transfer (message_create_zerocopy 7 1 4096 512)))) = [4096]"
  using message_ownership [of "message_create_zerocopy 7 1 4096 512"]
  by (simp add: message_create_zerocopy_def message_transfer_def message_free_def zero_message_def)

end
