(* ===== verification/AetherMessaging.thy ===== *)
theory AetherMessaging
  imports AetherQueues
begin

section \<open>Policies on top of the mailbox\<close>

text \<open>
  The sending and receiving policies of the actor runtime: adaptive batch sizes
  (\<^verbatim>\<open>runtime/actors/aether_adaptive_batch.h\<close>), deduplication of messages in a window of the
  last sixteen (\<^verbatim>\<open>aether_message_dedup.h\<close>) and coalescing of small messages
  (\<^verbatim>\<open>aether_message_coalescing.h\<close>).  Hashes are 32-bit words; the message type and the
  payload are converted to them as C converts its integers.
\<close>

subsection \<open>Adaptive batches\<close>









subsection \<open>Deduplication\<close>

definition DEDUP_WINDOW_SIZE :: nat where
  "DEDUP_WINDOW_SIZE = 16"

definition DEDUP_WINDOW_MASK :: nat where
  "DEDUP_WINDOW_MASK = DEDUP_WINDOW_SIZE - 1"

record MessageFingerprint =
  type_hash :: "32 word"
  payload_hash :: "32 word"

record DedupWindow =
  window :: "MessageFingerprint list"
  write_index :: nat

text \<open>The product with the payload is taken at pointer width before it is stored in 32 bits; the low bits are those of the product at 32 bits.\<close>

definition hash_message :: "Message \<Rightarrow> 32 word" where
  "hash_message msg = (word_of_int (mtype msg) * 2654435761) XOR (word_of_int (payload_int msg) * 0x9e3779b1)"

definition message_fingerprint :: "Message \<Rightarrow> MessageFingerprint" where
  "message_fingerprint msg = \<lparr>type_hash = word_of_int (mtype msg) * 2654435761, payload_hash = hash_message msg\<rparr>"

definition is_duplicate :: "DedupWindow \<Rightarrow> Message \<Rightarrow> bool" where
  "is_duplicate w msg =
     (let fp = message_fingerprint msg
      in list_ex (\<lambda>i. type_hash (window w ! i) = type_hash fp \<and> payload_hash (window w ! i) = payload_hash fp) [0..<DEDUP_WINDOW_SIZE])"

definition record_message :: "DedupWindow \<Rightarrow> Message \<Rightarrow> DedupWindow" where
  "record_message w msg =
     (let fp = message_fingerprint msg; idx = write_index w AND DEDUP_WINDOW_MASK
      in w\<lparr>window := (window w)[idx := fp], write_index := write_index w + 1\<rparr>)"

definition send_deduplicated :: "Mailbox \<Rightarrow> DedupWindow \<Rightarrow> Message \<Rightarrow> int \<times> Mailbox \<times> DedupWindow" where
  "send_deduplicated mailbox w msg =
     (if is_duplicate w msg then (1, mailbox, w)
      else let w' = record_message w msg; r = mailbox_send mailbox msg in (fst r, snd r, w'))"

subsection \<open>Coalescing\<close>

definition COALESCE_BUFFER_SIZE :: nat where
  "COALESCE_BUFFER_SIZE = 16"

definition COALESCE_THRESHOLD :: nat where
  "COALESCE_THRESHOLD = 8"

record CoalescedBatch =
  cb_messages :: "nat list"
  cb_sizes :: "nat list"
  cb_count :: nat
  cb_capacity :: nat

record CoalescingBuffer =
  cpending :: CoalescedBatch
  last_flush_time :: "64 word"
  high_watermark :: nat
  flush_count :: nat

definition coalescing_buffer_init :: "CoalescingBuffer \<Rightarrow> CoalescingBuffer" where
  "coalescing_buffer_init buf =
     buf\<lparr>cpending := (cpending buf)\<lparr>cb_count := 0, cb_capacity := COALESCE_BUFFER_SIZE\<rparr>, last_flush_time := 0, high_watermark := 0, flush_count := 0\<rparr>"

definition coalescing_buffer_add :: "CoalescingBuffer \<Rightarrow> nat \<Rightarrow> nat \<Rightarrow> bool \<times> CoalescingBuffer" where
  "coalescing_buffer_add buf message sz =
     (let p = cpending buf
      in if cb_count p \<ge> cb_capacity p then (True, buf)
         else let p' = p\<lparr>cb_messages := (cb_messages p)[cb_count p := message], cb_sizes := (cb_sizes p)[cb_count p := sz], cb_count := cb_count p + 1\<rparr>
              in (cb_count p' \<ge> COALESCE_THRESHOLD,
                  buf\<lparr>cpending := p', high_watermark := (if cb_count p' > high_watermark buf then cb_count p' else high_watermark buf)\<rparr>))"

text \<open>The calls of the send function, in order.\<close>

definition coalescing_buffer_flush :: "CoalescingBuffer \<Rightarrow> (nat \<times> nat) list \<times> CoalescingBuffer" where
  "coalescing_buffer_flush buf =
     (let p = cpending buf
      in (map (\<lambda>i. (cb_messages p ! i, cb_sizes p ! i)) [0..<cb_count p],
          buf\<lparr>flush_count := flush_count buf + 1, cpending := p\<lparr>cb_count := 0\<rparr>\<rparr>))"

definition coalescing_buffer_should_flush_timeout :: "CoalescingBuffer \<Rightarrow> 64 word \<Rightarrow> 64 word \<Rightarrow> bool" where
  "coalescing_buffer_should_flush_timeout buf current_time_ns flush_interval_ns =
     (if cb_count (cpending buf) = 0 then False else current_time_ns - last_flush_time buf \<ge> flush_interval_ns)"

definition coalescing_should_enable :: "nat \<Rightarrow> nat \<Rightarrow> bool" where
  "coalescing_should_enable messages_pending messages_per_second \<longleftrightarrow> messages_pending \<ge> 5 \<or> messages_per_second > 10000"

subsection \<open>Batch sizes\<close>







subsection \<open>Fingerprints\<close>

lemma hash_mult_inj: "x * 2654435761 = y * 2654435761 \<longleftrightarrow> x = (y :: 32 word)"
proof
  have inv: "(2654435761 :: 32 word) * 244002641 = 1" by simp
  assume "x * 2654435761 = y * 2654435761"
  then have "x * (2654435761 * 244002641) = y * (2654435761 * 244002641)" by (simp only: mult.assoc [symmetric])
  then show "x = y" unfolding inv by simp
qed simp

lemma xor_left_cancel: "a XOR b = a XOR c \<longleftrightarrow> b = (c :: 32 word)"
  by (metis xor.assoc xor.left_neutral xor_self_eq)

lemma fingerprint_eq:
  "message_fingerprint m1 = message_fingerprint m2 \<longleftrightarrow>
     (word_of_int (mtype m1) :: 32 word) = word_of_int (mtype m2) \<and> (word_of_int (payload_int m1) :: 32 word) = word_of_int (payload_int m2)"
  by (simp add: message_fingerprint_def hash_message_def hash_mult_inj) (auto simp: xor_left_cancel hash_mult_inj)

lemma recorded_is_duplicate:
  assumes "length (window w) = 16"
  shows "is_duplicate (record_message w msg) msg"
proof -
  have i: "write_index w AND 15 = write_index w mod 16" by (simp add: and_masks)
  show ?thesis unfolding is_duplicate_def record_message_def Let_def list_ex_iff
    by (rule bexI [of _ "write_index w mod 16"]) (use assms i in \<open>simp_all add: DEDUP_WINDOW_MASK_def DEDUP_WINDOW_SIZE_def\<close>)
qed

subsection \<open>Coalescing\<close>

definition coalesced :: "CoalescingBuffer \<Rightarrow> (nat \<times> nat) list" where
  "coalesced buf = zip (take (cb_count (cpending buf)) (cb_messages (cpending buf))) (take (cb_count (cpending buf)) (cb_sizes (cpending buf)))"

definition coalescing_ok :: "CoalescingBuffer \<Rightarrow> bool" where
  "coalescing_ok buf \<longleftrightarrow> length (cb_messages (cpending buf)) = 16 \<and> length (cb_sizes (cpending buf)) = 16 \<and>
     cb_capacity (cpending buf) = 16 \<and> cb_count (cpending buf) \<le> 16"

lemma coalescing_add_ok:
  assumes "coalescing_ok buf" "coalescing_buffer_add buf m sz = (r, buf')"
  shows "coalescing_ok buf' \<and> last_flush_time buf' = last_flush_time buf \<and>
    coalesced buf' = (if length (coalesced buf) < 16 then coalesced buf @ [(m, sz)] else coalesced buf) \<and>
    (r \<longleftrightarrow> 8 \<le> length (coalesced buf'))"
  using assms
  by (auto simp: coalescing_buffer_add_def Let_def coalescing_ok_def coalesced_def COALESCE_THRESHOLD_def take_Suc_conv_app_nth split: if_splits)

lemma coalescing_flush_ok:
  assumes "coalescing_ok buf" "coalescing_buffer_flush buf = (sent, buf')"
  shows "coalescing_ok buf' \<and> last_flush_time buf' = last_flush_time buf \<and> sent = coalesced buf \<and> coalesced buf' = []"
  using assms by (auto simp: coalescing_buffer_flush_def Let_def coalescing_ok_def coalesced_def intro: nth_equalityI)

text \<open>Adding with a flush whenever the buffer asks for one.\<close>

fun coalesce_all :: "CoalescingBuffer \<Rightarrow> (nat \<times> nat) list \<Rightarrow> (nat \<times> nat) list \<times> CoalescingBuffer" where
  "coalesce_all buf [] = ([], buf)"
| "coalesce_all buf (x # xs) =
     (case coalescing_buffer_add buf (fst x) (snd x) of
        (False, buf') \<Rightarrow> coalesce_all buf' xs
      | (True, buf') \<Rightarrow>
          (case coalescing_buffer_flush buf' of (sent, buf'') \<Rightarrow> (case coalesce_all buf'' xs of (sent', b) \<Rightarrow> (sent @ sent', b))))"

lemma coalesce_all_ok:
  assumes "coalescing_ok buf" "length (coalesced buf) < 8" "coalesce_all buf xs = (sent, buf')"
  shows "coalescing_ok buf' \<and> length (coalesced buf') < 8 \<and> coalesced buf @ xs = sent @ coalesced buf' \<and> last_flush_time buf' = last_flush_time buf"
  using assms
proof (induction xs arbitrary: buf sent)
  case (Cons x xs)
  obtain r b1 where a: "coalescing_buffer_add buf (fst x) (snd x) = (r, b1)" by fastforce
  have b1: "coalescing_ok b1" "last_flush_time b1 = last_flush_time buf" "coalesced b1 = coalesced buf @ [x]" "r \<longleftrightarrow> 8 \<le> length (coalesced b1)"
    using coalescing_add_ok [OF Cons.prems(1) a] Cons.prems(2) by auto
  show ?case
  proof (cases r)
    case False
    then show ?thesis using Cons.IH [of b1 sent] b1 Cons.prems(3) a by simp
  next
    case True
    obtain s1 b2 where f: "coalescing_buffer_flush b1 = (s1, b2)" by fastforce
    obtain s2 b3 where g: "coalesce_all b2 xs = (s2, b3)" by fastforce
    have "coalescing_ok b2" "last_flush_time b2 = last_flush_time buf" "s1 = coalesced b1" "coalesced b2 = []"
      using coalescing_flush_ok [OF b1(1) f] b1(2) by auto
    moreover have "sent = s1 @ s2" "buf' = b3" using Cons.prems(3) a True f g by auto
    ultimately show ?thesis using Cons.IH [of b2 s2] g b1(3) by simp
  qed
qed simp

subsection \<open>Claims\<close>


text \<open>The fingerprint of a message determines its type and its integer payload modulo \<open>2 ^ 32\<close> and depends on nothing else: within that range no two different (type, integer payload) pairs are taken for duplicates, while messages that differ only in the pointer payload, the sender or a zero-copy payload always are.\<close>

theorem fingerprint_exact:
  "message_fingerprint m1 = message_fingerprint m2 \<longleftrightarrow>
     mtype m1 mod 2 ^ 32 = mtype m2 mod 2 ^ 32 \<and> payload_int m1 mod 2 ^ 32 = payload_int m2 mod 2 ^ 32"
  unfolding fingerprint_eq by (simp add: word_of_int_eq_iff take_bit_eq_mod)

text \<open>C26. A message refused by a full mailbox is remembered as sent: the deduplicating send reports the failure once, and every retry while the fingerprint is in the window reports success and sends nothing.\<close>

theorem dedup_retry_lost:
  assumes "mailbox_ok mbox" "length (mailbox_list mbox) = 32" "length (window w) = 16" "\<not> is_duplicate w msg"
    and "send_deduplicated mbox w msg = (r, mbox1, w1)"
  shows "r = 0 \<and> mbox1 = mbox \<and> send_deduplicated mbox2 w1 msg = (1, mbox2, w1)"
proof -
  have "mailbox_send mbox msg = (0, mbox)" using mailbox.send_full [OF assms(1)] assms(2) by simp
  then have "r = 0" "mbox1 = mbox" "w1 = record_message w msg" using assms(4,5) by (auto simp: send_deduplicated_def Let_def)
  then show ?thesis using recorded_is_duplicate [OF assms(3), of msg] by (simp add: send_deduplicated_def)
qed

lemma coalescing_init_ok:
  assumes "coalescing_ok buf"
  shows "coalescing_ok (coalescing_buffer_init buf)" "coalesced (coalescing_buffer_init buf) = []" "last_flush_time (coalescing_buffer_init buf) = 0"
  using assms by (auto simp: coalescing_buffer_init_def coalescing_ok_def coalesced_def COALESCE_BUFFER_SIZE_def)

text \<open>C27. Coalescing with a flush whenever the buffer asks for one, from an initialised buffer: the messages sent followed by the pending ones are all the messages added, once each and in order, fewer than eight are pending, and a last flush sends exactly these and leaves the buffer empty.\<close>

theorem coalescing_in_order:
  assumes "coalescing_ok buf" "coalesce_all (coalescing_buffer_init buf) xs = (sent, buf')" "coalescing_buffer_flush buf' = (rest, buf'')"
  shows "xs = sent @ rest \<and> rest = coalesced buf' \<and> length rest < 8 \<and> coalescing_ok buf' \<and> coalescing_ok buf'' \<and> coalesced buf'' = []"
proof -
  have "coalescing_ok buf'" "length (coalesced buf') < 8" "xs = sent @ coalesced buf'"
    using coalesce_all_ok [OF coalescing_init_ok(1) [OF assms(1)] _ assms(2)] coalescing_init_ok(2) [OF assms(1)] by auto
  then show ?thesis using coalescing_flush_ok [OF _ assms(3)] by simp
qed

text \<open>No operation updates the time of the last flush: after initialisation every nonempty buffer is reported as timed out as soon as the clock has reached the interval, also directly after a flush.\<close>

theorem coalescing_timeout_never_restarts:
  assumes "coalescing_ok buf" "coalesce_all (coalescing_buffer_init buf) xs = (sent, buf')" "coalesced buf' \<noteq> []" "interval \<le> now"
  shows "coalescing_buffer_should_flush_timeout buf' now interval"
proof -
  have "last_flush_time buf' = 0"
    using coalesce_all_ok [OF coalescing_init_ok(1) [OF assms(1)] _ assms(2)] coalescing_init_ok(2,3) [OF assms(1)] by auto
  moreover have "cb_count (cpending buf') \<noteq> 0" using assms(3) by (auto simp: coalesced_def)
  ultimately show ?thesis using assms(4) by (simp add: coalescing_buffer_should_flush_timeout_def)
qed

definition full_example :: Mailbox where
  "full_example = \<lparr>mb_messages = replicate 32 zero_message, mb_head = 0, mb_tail = 0, mb_count = 32\<rparr>"

definition dedup_example :: DedupWindow where
  "dedup_example = \<lparr>window = replicate 16 \<lparr>type_hash = 0, payload_hash = 0\<rparr>, write_index = 0\<rparr>"

definition coalescing_example :: CoalescingBuffer where
  "coalescing_example = \<lparr>cpending = \<lparr>cb_messages = replicate 16 0, cb_sizes = replicate 16 0, cb_count = 0, cb_capacity = 16\<rparr>,
     last_flush_time = 0, high_watermark = 0, flush_count = 0\<rparr>"

lemma full_example_ok: "mailbox_ok full_example" "length (mailbox_list full_example) = 32"
  by (simp_all add: mailbox_ok_def mailbox_list_def full_example_def)


theorem dedup_retry_lost_witness:
  "fst (send_deduplicated full_example dedup_example (message_create_simple 7 1 42)) = 0 \<and>
   send_deduplicated mailbox_example (snd (snd (send_deduplicated full_example dedup_example (message_create_simple 7 1 42)))) (message_create_simple 7 1 42) =
     (1, mailbox_example, snd (snd (send_deduplicated full_example dedup_example (message_create_simple 7 1 42))))"
proof -
  have w: "length (window dedup_example) = 16" by (simp add: dedup_example_def)
  have "\<not> is_duplicate dedup_example (message_create_simple 7 1 42)"
    by (auto simp: is_duplicate_def Let_def list_ex_iff dedup_example_def message_fingerprint_def message_create_simple_def zero_message_def DEDUP_WINDOW_SIZE_def)
  then show ?thesis
    using dedup_retry_lost [OF full_example_ok w, of "message_create_simple 7 1 42" _ _ _ mailbox_example]
    by (cases "send_deduplicated full_example dedup_example (message_create_simple 7 1 42)") auto
qed

theorem coalescing_in_order_witness:
  "fst (coalesce_all (coalescing_buffer_init coalescing_example) (map (\<lambda>i. (i, 1)) [0..<11])) @
   fst (coalescing_buffer_flush (snd (coalesce_all (coalescing_buffer_init coalescing_example) (map (\<lambda>i. (i, 1)) [0..<11])))) =
   map (\<lambda>i. (i, 1)) [0..<11]"
proof -
  have ok: "coalescing_ok coalescing_example" by (simp add: coalescing_ok_def coalescing_example_def)
  show ?thesis
    using coalescing_in_order [OF ok prod.collapse [symmetric] prod.collapse [symmetric], of "map (\<lambda>i. (i, 1)) [0..<11]"] by (rule conjunct1 [THEN sym])
qed

end
