(* ===== verification/AetherMemory.thy ===== *)
theory AetherMemory
  imports Prelude
begin

section \<open>Arenas and pools of the Aether runtime\<close>

text \<open>
  Models \<^verbatim>\<open>runtime/memory/aether_arena.c\<close> and \<^verbatim>\<open>aether_pool.c\<close>.
  An arena is a chain of chunks; the address of a block is the position of its chunk in the chain and the
  offset in that chunk, so that blocks of different chunks, which come from different calls of
  \<^verbatim>\<open>malloc\<close>, are disjoint by construction.  Sizes are natural numbers and the additions of
  \<^verbatim>\<open>size_t\<close> wrap at \<open>2 ^ 64\<close>.  An allocation that follows the chain may not end, so it is
  a partial function.  The argument \<open>malloc_ok\<close> says which requests the C allocator grants.

  A pool is a stack of free slots; the list that the source threads through the slots is the list of slot
  numbers.
\<close>

unbundle bit_operations_syntax

subsection \<open>Arenas\<close>

definition SIZE_T :: nat where
  "SIZE_T = 2 ^ 64"

definition ARENA_DEFAULT_SIZE :: nat where
  "ARENA_DEFAULT_SIZE = 1024 * 1024"

definition ALIGN_UP :: "nat \<Rightarrow> nat \<Rightarrow> nat" where
  "ALIGN_UP n align = ((n + align - 1) mod SIZE_T) AND (SIZE_T - align)"

record Arena =
  asize :: nat
  aused :: nat

definition arena_create :: "(nat \<Rightarrow> bool) \<Rightarrow> nat \<Rightarrow> Arena option" where
  "arena_create malloc_ok sz =
     (let sz = (if sz = 0 then ARENA_DEFAULT_SIZE else sz)
      in if \<not> malloc_ok 32 then None
         else if \<not> malloc_ok sz then None
         else Some \<lparr>asize = sz, aused = 0\<rparr>)"

partial_function (option) arena_alloc_aligned ::
    "(nat \<Rightarrow> bool) \<Rightarrow> Arena list \<Rightarrow> nat \<Rightarrow> nat \<Rightarrow> ((nat \<times> nat) option \<times> Arena list) option" where
  "arena_alloc_aligned malloc_ok arena bytes alignment =
     (case arena of
        [] \<Rightarrow> Some (None, [])
      | a # next \<Rightarrow>
          if bytes = 0 then Some (None, a # next)
          else let aligned_used = ALIGN_UP (aused a) alignment
               in if (aligned_used + bytes) mod SIZE_T > asize a then
                    (let next' = (if next = [] then
                                    (let new_size = (if bytes > asize a then ALIGN_UP bytes ARENA_DEFAULT_SIZE else asize a)
                                     in case arena_create malloc_ok new_size of None \<Rightarrow> [] | Some b \<Rightarrow> [b])
                                  else next)
                     in Option.bind (arena_alloc_aligned malloc_ok next' bytes alignment)
                          (\<lambda>r. Some (map_option (\<lambda>p. (fst p + 1, snd p)) (fst r), a # snd r)))
                  else Some (Some (0, aligned_used), a\<lparr>aused := (aligned_used + bytes) mod SIZE_T\<rparr> # next))"

definition arena_alloc :: "(nat \<Rightarrow> bool) \<Rightarrow> Arena list \<Rightarrow> nat \<Rightarrow> ((nat \<times> nat) option \<times> Arena list) option" where
  "arena_alloc malloc_ok arena bytes = arena_alloc_aligned malloc_ok arena bytes 8"

definition arena_reset :: "Arena list \<Rightarrow> Arena list" where
  "arena_reset arena = (case arena of [] \<Rightarrow> [] | a # next \<Rightarrow> [a\<lparr>aused := 0\<rparr>])"

definition arena_begin :: "Arena list \<Rightarrow> nat" where
  "arena_begin arena = (case arena of [] \<Rightarrow> 0 | a # next \<Rightarrow> aused a)"

definition arena_end :: "nat \<Rightarrow> Arena list \<Rightarrow> Arena list" where
  "arena_end restore_point arena = (case arena of [] \<Rightarrow> [] | a # next \<Rightarrow> a\<lparr>aused := restore_point\<rparr> # next)"

definition arena_get_used :: "Arena list \<Rightarrow> nat" where
  "arena_get_used arena = foldl (\<lambda>total a. (total + aused a) mod SIZE_T) 0 arena"

definition arena_get_size :: "Arena list \<Rightarrow> nat" where
  "arena_get_size arena = foldl (\<lambda>total a. (total + asize a) mod SIZE_T) 0 arena"

subsection \<open>Pools\<close>

text \<open>A slot number \<open>i\<close> stands for the address \<open>memory + i * object_size\<close>.\<close>

record MemoryPool =
  object_size :: nat
  pcapacity :: nat
  pused :: int
  free_list :: "nat list"

fun thread_free_list :: "nat \<Rightarrow> nat \<Rightarrow> nat list \<Rightarrow> nat list" where
  "thread_free_list i 0 fl = fl"
| "thread_free_list i (Suc n) fl = thread_free_list (i + 1) n (i # fl)"

definition pool_create :: "(nat \<Rightarrow> bool) \<Rightarrow> nat \<Rightarrow> nat \<Rightarrow> MemoryPool option" where
  "pool_create malloc_ok osize initial_count =
     (let osize = (if osize < 8 then 8 else osize)
      in if \<not> malloc_ok 40 then None
         else if \<not> malloc_ok (osize * initial_count) then None
         else Some \<lparr>object_size = osize, pcapacity = initial_count, pused = 0, free_list = thread_free_list 0 initial_count []\<rparr>)"

definition pool_alloc :: "MemoryPool option \<Rightarrow> nat option \<times> MemoryPool option" where
  "pool_alloc po =
     (case po of None \<Rightarrow> (None, None)
      | Some pool \<Rightarrow>
          (case free_list pool of
             [] \<Rightarrow> (None, Some pool)
           | node # rest \<Rightarrow> (Some node, Some (pool\<lparr>free_list := rest, pused := pused pool + 1\<rparr>))))"

definition pool_free :: "MemoryPool option \<Rightarrow> nat option \<Rightarrow> MemoryPool option" where
  "pool_free po ptr =
     (case (po, ptr) of
        (Some pool, Some node) \<Rightarrow> Some (pool\<lparr>free_list := node # free_list pool, pused := pused pool - 1\<rparr>)
      | _ \<Rightarrow> po)"

definition pool_get_capacity :: "MemoryPool option \<Rightarrow> nat" where
  "pool_get_capacity po = (case po of None \<Rightarrow> 0 | Some pool \<Rightarrow> pcapacity pool)"

definition pool_get_used :: "MemoryPool option \<Rightarrow> int" where
  "pool_get_used po = (case po of None \<Rightarrow> 0 | Some pool \<Rightarrow> pused pool)"

record StandardPools =
  pool_8 :: MemoryPool
  pool_16 :: MemoryPool
  pool_32 :: MemoryPool
  pool_64 :: MemoryPool
  pool_128 :: MemoryPool
  pool_256 :: MemoryPool

definition standard_pools_create :: "(nat \<Rightarrow> bool) \<Rightarrow> StandardPools option" where
  "standard_pools_create malloc_ok =
     (if \<not> malloc_ok 48 then None
      else case (pool_create malloc_ok 8 256, pool_create malloc_ok 16 128, pool_create malloc_ok 32 64,
                 pool_create malloc_ok 64 32, pool_create malloc_ok 128 16, pool_create malloc_ok 256 8) of
             (Some p8, Some p16, Some p32, Some p64, Some p128, Some p256) \<Rightarrow>
               Some \<lparr>pool_8 = p8, pool_16 = p16, pool_32 = p32, pool_64 = p64, pool_128 = p128, pool_256 = p256\<rparr>
           | _ \<Rightarrow> None)"

definition standard_pools_alloc :: "StandardPools option \<Rightarrow> nat \<Rightarrow> nat option \<times> StandardPools option" where
  "standard_pools_alloc so sz =
     (case so of None \<Rightarrow> (None, None)
      | Some ps \<Rightarrow>
          if sz \<le> 8 then (case pool_alloc (Some (pool_8 ps)) of (r, p) \<Rightarrow> (r, Some (ps\<lparr>pool_8 := the p\<rparr>)))
          else if sz \<le> 16 then (case pool_alloc (Some (pool_16 ps)) of (r, p) \<Rightarrow> (r, Some (ps\<lparr>pool_16 := the p\<rparr>)))
          else if sz \<le> 32 then (case pool_alloc (Some (pool_32 ps)) of (r, p) \<Rightarrow> (r, Some (ps\<lparr>pool_32 := the p\<rparr>)))
          else if sz \<le> 64 then (case pool_alloc (Some (pool_64 ps)) of (r, p) \<Rightarrow> (r, Some (ps\<lparr>pool_64 := the p\<rparr>)))
          else if sz \<le> 128 then (case pool_alloc (Some (pool_128 ps)) of (r, p) \<Rightarrow> (r, Some (ps\<lparr>pool_128 := the p\<rparr>)))
          else if sz \<le> 256 then (case pool_alloc (Some (pool_256 ps)) of (r, p) \<Rightarrow> (r, Some (ps\<lparr>pool_256 := the p\<rparr>)))
          else (None, Some ps))"

definition standard_pools_free :: "StandardPools option \<Rightarrow> nat option \<Rightarrow> nat \<Rightarrow> StandardPools option" where
  "standard_pools_free so ptr sz =
     (case (so, ptr) of
        (Some ps, Some _) \<Rightarrow>
          Some (if sz \<le> 8 then ps\<lparr>pool_8 := the (pool_free (Some (pool_8 ps)) ptr)\<rparr>
                else if sz \<le> 16 then ps\<lparr>pool_16 := the (pool_free (Some (pool_16 ps)) ptr)\<rparr>
                else if sz \<le> 32 then ps\<lparr>pool_32 := the (pool_free (Some (pool_32 ps)) ptr)\<rparr>
                else if sz \<le> 64 then ps\<lparr>pool_64 := the (pool_free (Some (pool_64 ps)) ptr)\<rparr>
                else if sz \<le> 128 then ps\<lparr>pool_128 := the (pool_free (Some (pool_128 ps)) ptr)\<rparr>
                else if sz \<le> 256 then ps\<lparr>pool_256 := the (pool_free (Some (pool_256 ps)) ptr)\<rparr>
                else ps)
      | _ \<Rightarrow> so)"

subsection \<open>Alignment\<close>

lemma and_high_mask:
  fixes n :: nat
  assumes "n < 2 ^ 64" "k \<le> 64"
  shows "n AND (2 ^ 64 - 2 ^ k) = n div 2 ^ k * 2 ^ k"
proof -
  have "(2 :: nat) ^ 64 = 2 ^ k * 2 ^ (64 - k)" using assms(2) by (metis le_add_diff_inverse power_add)
  then have m: "(2 :: nat) ^ 64 - 2 ^ k = push_bit k (mask (64 - k))"
    by (simp add: push_bit_eq_mult mask_eq_exp_minus_1 right_diff_distrib' mult.commute)
  have "n div 2 ^ k < 2 ^ (64 - k)" using assms \<open>(2 :: nat) ^ 64 = 2 ^ k * 2 ^ (64 - k)\<close> by (metis less_mult_imp_div_less mult.commute)
  then have "drop_bit k n AND mask (64 - k) = drop_bit k n"
    by (simp add: take_bit_eq_mask [symmetric] drop_bit_eq_div take_bit_nat_eq_self)
  then show ?thesis unfolding m and_push_bit by (simp add: push_bit_eq_mult drop_bit_eq_div)
qed

lemma ALIGN_UP_props:
  assumes "k \<le> 63" "n + 2 ^ k \<le> 2 ^ 64"
  shows "n \<le> ALIGN_UP n (2 ^ k)" "ALIGN_UP n (2 ^ k) < n + 2 ^ k" "2 ^ k dvd ALIGN_UP n (2 ^ k)"
proof -
  have p: "0 < (2 :: nat) ^ k" by simp
  have lt: "n + 2 ^ k - 1 < 2 ^ 64" using assms(2) p by linarith
  then have e: "ALIGN_UP n (2 ^ k) = (n + 2 ^ k - 1) div 2 ^ k * 2 ^ k"
    unfolding ALIGN_UP_def SIZE_T_def using and_high_mask [OF lt] assms(1) by simp
  have d: "(n + 2 ^ k - 1) div 2 ^ k * 2 ^ k + (n + 2 ^ k - 1) mod 2 ^ k = n + 2 ^ k - 1" by (rule div_mult_mod_eq)
  have "(n + 2 ^ k - 1) mod 2 ^ k < 2 ^ k" by simp
  then show "n \<le> ALIGN_UP n (2 ^ k)" "ALIGN_UP n (2 ^ k) < n + 2 ^ k" unfolding e using d p by linarith+
  show "2 ^ k dvd ALIGN_UP n (2 ^ k)" unfolding e by simp
qed

subsection \<open>Allocation\<close>

definition arena_ok :: "Arena list \<Rightarrow> bool" where
  "arena_ok chain \<longleftrightarrow> list_all (\<lambda>a. aused a \<le> asize a \<and> asize a \<le> 2 ^ 62) chain"

text \<open>A block is a chunk number, an offset and a length; \<open>owned\<close> blocks lie below the used part of their chunk.\<close>

definition owned :: "Arena list \<Rightarrow> nat \<times> nat \<times> nat \<Rightarrow> bool" where
  "owned chain b = (case b of (i, off, len) \<Rightarrow> i < length chain \<and> off + len \<le> aused (chain ! i))"

definition disjoint_blocks :: "nat \<times> nat \<times> nat \<Rightarrow> nat \<times> nat \<times> nat \<Rightarrow> bool" where
  "disjoint_blocks b c = (case (b, c) of ((i, o1, l1), (j, o2, l2)) \<Rightarrow> i = j \<longrightarrow> o1 + l1 \<le> o2 \<or> o2 + l2 \<le> o1)"

lemma alloc_fits:
  assumes a: "aused a \<le> asize a" "asize a \<le> 2 ^ 62" and k: "k \<le> 12" and b: "0 < bytes" "bytes \<le> 2 ^ 61"
    and fit: "\<not> (ALIGN_UP (aused a) (2 ^ k) + bytes) mod SIZE_T > asize a"
  shows "aused a \<le> ALIGN_UP (aused a) (2 ^ k) \<and> ALIGN_UP (aused a) (2 ^ k) + bytes \<le> asize a \<and>
    (ALIGN_UP (aused a) (2 ^ k) + bytes) mod SIZE_T = ALIGN_UP (aused a) (2 ^ k) + bytes \<and> 2 ^ k dvd ALIGN_UP (aused a) (2 ^ k)"
proof -
  have p: "(2 :: nat) ^ k \<le> 2 ^ 12" using k by (intro power_increasing) auto
  have n: "aused a + 2 ^ k \<le> 2 ^ 64" using a p by simp
  have al: "aused a \<le> ALIGN_UP (aused a) (2 ^ k)" "ALIGN_UP (aused a) (2 ^ k) < aused a + 2 ^ k" "2 ^ k dvd ALIGN_UP (aused a) (2 ^ k)"
    using ALIGN_UP_props [of k "aused a", OF _ n] k by auto
  have "ALIGN_UP (aused a) (2 ^ k) + bytes < SIZE_T" using al(2) a p b unfolding SIZE_T_def by simp
  then have "(ALIGN_UP (aused a) (2 ^ k) + bytes) mod SIZE_T = ALIGN_UP (aused a) (2 ^ k) + bytes" by simp
  then show ?thesis using fit al by simp
qed

lemma ALIGN_UP_0: "k \<le> 12 \<Longrightarrow> ALIGN_UP 0 (2 ^ k) = 0"
proof -
  assume k: "k \<le> 12"
  then have "(2 :: nat) ^ k \<le> 2 ^ 12" by (intro power_increasing) auto
  then have "0 + (2 :: nat) ^ k \<le> 2 ^ 64" by simp
  then have "ALIGN_UP 0 (2 ^ k) < 2 ^ k" "2 ^ k dvd ALIGN_UP 0 (2 ^ k)" using ALIGN_UP_props(2,3) [of k 0] k by auto
  then show ?thesis by (meson nat_dvd_not_less neq0_conv)
qed

lemma fresh_chunk:
  assumes "s \<le> 2 ^ 62" "k \<le> 12" "0 < bytes" "bytes \<le> 2 ^ 61"
    and "arena_create malloc_ok (if bytes > s then ALIGN_UP bytes ARENA_DEFAULT_SIZE else s) = Some a"
  shows "aused a = 0 \<and> asize a \<le> 2 ^ 62 \<and> \<not> (ALIGN_UP (aused a) (2 ^ k) + bytes) mod SIZE_T > asize a"
proof -
  have m: "ARENA_DEFAULT_SIZE = 2 ^ 20" by (simp add: ARENA_DEFAULT_SIZE_def)
  have "bytes + 2 ^ 20 \<le> 2 ^ 64" using assms(4) by simp
  then have al: "bytes \<le> ALIGN_UP bytes (2 ^ 20)" "ALIGN_UP bytes (2 ^ 20) < bytes + 2 ^ 20" using ALIGN_UP_props(1,2) [of 20 bytes] by auto
  then have "bytes \<le> asize a" "aused a = 0" "asize a \<le> 2 ^ 62"
    using assms(1,3,4,5) by (auto simp: arena_create_def Let_def m split: if_splits)
  then show ?thesis using assms(4) by (simp add: SIZE_T_def ALIGN_UP_0 [OF assms(2)])
qed

lemma arena_alloc_steps:
  "arena_alloc_aligned malloc_ok [] bytes al = Some (None, [])"
  "0 < bytes \<Longrightarrow> \<not> (ALIGN_UP (aused a) al + bytes) mod SIZE_T > asize a \<Longrightarrow>
     arena_alloc_aligned malloc_ok (a # nx) bytes al = Some (Some (0, ALIGN_UP (aused a) al), a\<lparr>aused := (ALIGN_UP (aused a) al + bytes) mod SIZE_T\<rparr> # nx)"
  "0 < bytes \<Longrightarrow> (ALIGN_UP (aused a) al + bytes) mod SIZE_T > asize a \<Longrightarrow> nx \<noteq> [] \<Longrightarrow>
     arena_alloc_aligned malloc_ok (a # nx) bytes al = Option.bind (arena_alloc_aligned malloc_ok nx bytes al)
       (\<lambda>r. Some (map_option (\<lambda>p. (fst p + 1, snd p)) (fst r), a # snd r))"
  "0 < bytes \<Longrightarrow> (ALIGN_UP (aused a) al + bytes) mod SIZE_T > asize a \<Longrightarrow>
     arena_alloc_aligned malloc_ok [a] bytes al =
       Option.bind (arena_alloc_aligned malloc_ok (case arena_create malloc_ok (if bytes > asize a then ALIGN_UP bytes ARENA_DEFAULT_SIZE else asize a) of None \<Rightarrow> [] | Some b \<Rightarrow> [b]) bytes al)
       (\<lambda>r. Some (map_option (\<lambda>p. (fst p + 1, snd p)) (fst r), a # snd r))"
     apply (subst arena_alloc_aligned.simps, simp)
    apply (subst arena_alloc_aligned.simps, simp add: Let_def)
   apply (subst arena_alloc_aligned.simps, simp add: Let_def)
  apply (subst arena_alloc_aligned.simps, simp add: Let_def)
  done

lemma owned_Cons: "owned (a # nx) b \<longleftrightarrow> (case b of (i, off, len) \<Rightarrow> if i = 0 then off + len \<le> aused a else owned nx (i - 1, off, len))"
  by (cases b) (auto simp: owned_def nth_Cons' split: if_splits)

text \<open>What a successful allocation guarantees.\<close>

definition alloc_result :: "Arena list \<Rightarrow> nat \<Rightarrow> nat \<Rightarrow> (nat \<times> nat) option \<Rightarrow> Arena list \<Rightarrow> bool" where
  "alloc_result chain bytes al r chain' \<longleftrightarrow> arena_ok chain' \<and> (\<forall>b. owned chain b \<longrightarrow> owned chain' b) \<and>
     (case r of None \<Rightarrow> chain' = chain
      | Some (i, off) \<Rightarrow> al dvd off \<and> owned chain' (i, off, bytes) \<and> off + bytes \<le> asize (chain' ! i) \<and>
          (\<forall>b. owned chain b \<longrightarrow> disjoint_blocks b (i, off, bytes)))"

lemma alloc_result_fit:
  assumes "arena_ok (a # nx)" "k \<le> 12" "0 < bytes" "bytes \<le> 2 ^ 61"
    and fit: "\<not> (ALIGN_UP (aused a) (2 ^ k) + bytes) mod SIZE_T > asize a"
  shows "alloc_result (a # nx) bytes (2 ^ k) (Some (0, ALIGN_UP (aused a) (2 ^ k))) (a\<lparr>aused := (ALIGN_UP (aused a) (2 ^ k) + bytes) mod SIZE_T\<rparr> # nx)"
proof -
  have a: "aused a \<le> asize a" "asize a \<le> 2 ^ 62" using assms(1) by (auto simp: arena_ok_def)
  note f = alloc_fits [OF a assms(2-5)]
  show ?thesis unfolding alloc_result_def using f assms(1)
    by (auto simp: arena_ok_def owned_Cons disjoint_blocks_def split: if_splits)
qed

lemma alloc_result_later:
  assumes "arena_ok (a # nx)" "alloc_result nx bytes al r nx'"
  shows "alloc_result (a # nx) bytes al (map_option (\<lambda>p. (fst p + 1, snd p)) r) (a # nx')"
  using assms unfolding alloc_result_def
  by (auto simp: arena_ok_def owned_Cons disjoint_blocks_def split: option.splits if_splits)

lemma arena_alloc_correct:
  assumes "arena_ok chain" "k \<le> 12" "0 < bytes" "bytes \<le> 2 ^ 61"
  shows "\<exists>r chain'. arena_alloc_aligned malloc_ok chain bytes (2 ^ k) = Some (r, chain') \<and> alloc_result chain bytes (2 ^ k) r chain' \<and>
    (chain \<noteq> [] \<and> (\<forall>n. malloc_ok n) \<longrightarrow> r \<noteq> None)"
  using assms(1)
proof (induction chain)
  case Nil
  then show ?case by (simp add: arena_alloc_steps(1) alloc_result_def)
next
  case (Cons a nx)
  show ?case
  proof (cases "(ALIGN_UP (aused a) (2 ^ k) + bytes) mod SIZE_T > asize a")
    case False
    then show ?thesis using arena_alloc_steps(2) [OF assms(3) False] alloc_result_fit [OF Cons.prems assms(2-4) False] by auto
  next
    case big: True
    have nx: "arena_ok nx" and a: "asize a \<le> 2 ^ 62" using Cons.prems by (auto simp: arena_ok_def)
    show ?thesis
    proof (cases "nx = []")
      case False
      obtain r nx' where r: "arena_alloc_aligned malloc_ok nx bytes (2 ^ k) = Some (r, nx')" "alloc_result nx bytes (2 ^ k) r nx'"
        "nx \<noteq> [] \<and> (\<forall>n. malloc_ok n) \<longrightarrow> r \<noteq> None" using Cons.IH [OF nx] by blast
      then show ?thesis using arena_alloc_steps(3) [OF assms(3) big False] alloc_result_later [OF Cons.prems r(2)] False by auto
    next
      case True
      let ?cr = "arena_create malloc_ok (if bytes > asize a then ALIGN_UP bytes ARENA_DEFAULT_SIZE else asize a)"
      show ?thesis
      proof (cases ?cr)
        case None
        then have "\<not> (\<forall>n. malloc_ok n)" by (auto simp: arena_create_def Let_def split: if_splits)
        then show ?thesis using arena_alloc_steps(4) [OF assms(3) big] arena_alloc_steps(1) None True Cons.prems
          by (auto simp: alloc_result_def)
      next
        case (Some b)
        have b: "aused b = 0" "asize b \<le> 2 ^ 62" "\<not> (ALIGN_UP (aused b) (2 ^ k) + bytes) mod SIZE_T > asize b"
          using fresh_chunk [OF a assms(2-4) Some] by auto
        then have okb: "arena_ok [b]" by (simp add: arena_ok_def)
        define b' where "b' = b\<lparr>aused := (ALIGN_UP (aused b) (2 ^ k) + bytes) mod SIZE_T\<rparr>"
        have fit: "alloc_result [b] bytes (2 ^ k) (Some (0, ALIGN_UP (aused b) (2 ^ k))) [b']"
          unfolding b'_def by (rule alloc_result_fit [OF okb assms(2-4) b(3)])
        have e: "arena_alloc_aligned malloc_ok (a # nx) bytes (2 ^ k) = Some (Some (1, ALIGN_UP (aused b) (2 ^ k)), [a, b'])"
          unfolding True arena_alloc_steps(4) [OF assms(3) big] using Some arena_alloc_steps(2) [OF assms(3) b(3)] by (simp add: b'_def)
        have okab: "arena_ok [a, b]" using Cons.prems okb by (auto simp: arena_ok_def)
        have "alloc_result [a, b] bytes (2 ^ k) (Some (1, ALIGN_UP (aused b) (2 ^ k))) [a, b']"
          using alloc_result_later [OF okab fit] by simp
        moreover have "owned [a] x \<Longrightarrow> owned [a, b] x" for x by (cases x) (auto simp: owned_def nth_Cons')
        ultimately have "alloc_result [a] bytes (2 ^ k) (Some (1, ALIGN_UP (aused b) (2 ^ k))) [a, b']"
          unfolding alloc_result_def by auto
        then show ?thesis using e True by auto
      qed
    qed
  qed
qed

text \<open>A sequence of allocations, with the blocks obtained.\<close>

fun arena_allocs :: "(nat \<Rightarrow> bool) \<Rightarrow> Arena list \<Rightarrow> nat list \<Rightarrow> ((nat \<times> nat \<times> nat) list \<times> Arena list) option" where
  "arena_allocs malloc_ok chain [] = Some ([], chain)"
| "arena_allocs malloc_ok chain (n # ns) =
     Option.bind (arena_alloc malloc_ok chain n) (\<lambda>r.
       Option.bind (arena_allocs malloc_ok (snd r) ns) (\<lambda>s.
         Some ((case fst r of None \<Rightarrow> fst s | Some (i, off) \<Rightarrow> (i, off, n) # fst s), snd s)))"

lemma arena_allocs_correct:
  assumes "arena_ok chain" "list_all (\<lambda>n. 0 < n \<and> n \<le> 2 ^ 61) ns"
  shows "\<exists>bs chain'. arena_allocs malloc_ok chain ns = Some (bs, chain') \<and> arena_ok chain' \<and> (\<forall>b. owned chain b \<longrightarrow> owned chain' b) \<and>
    (\<forall>b \<in> set bs. owned chain' b \<and> 8 dvd fst (snd b)) \<and> (\<forall>b c. owned chain b \<longrightarrow> c \<in> set bs \<longrightarrow> disjoint_blocks b c) \<and> sorted_wrt disjoint_blocks bs"
  using assms
proof (induction ns arbitrary: chain)
  case (Cons n ns)
  have n: "0 < n" "n \<le> 2 ^ 61" using Cons.prems(2) by auto
  obtain r c1 where r: "arena_alloc malloc_ok chain n = Some (r, c1)" "alloc_result chain n 8 r c1"
    using arena_alloc_correct [OF Cons.prems(1) _ n, of 3 malloc_ok] by (auto simp: arena_alloc_def)
  have c1: "arena_ok c1" "\<And>b. owned chain b \<Longrightarrow> owned c1 b" using r(2) by (auto simp: alloc_result_def)
  obtain bs c2 where s: "arena_allocs malloc_ok c1 ns = Some (bs, c2)" "arena_ok c2" "\<And>b. owned c1 b \<Longrightarrow> owned c2 b"
    "\<forall>b \<in> set bs. owned c2 b \<and> 8 dvd fst (snd b)" "\<And>b c. owned c1 b \<Longrightarrow> c \<in> set bs \<Longrightarrow> disjoint_blocks b c" "sorted_wrt disjoint_blocks bs"
    using Cons.IH [OF c1(1)] Cons.prems(2) by auto
  show ?case
  proof (cases r)
    case None
    then show ?thesis using r(1) s c1(2) by (intro exI [of _ bs] exI [of _ c2]) auto
  next
    case (Some p)
    then obtain i off where p: "r = Some (i, off)" by (cases p) auto
    have o: "8 dvd off" "owned c1 (i, off, n)" "\<And>b. owned chain b \<Longrightarrow> disjoint_blocks b (i, off, n)"
      using r(2) by (auto simp: alloc_result_def p)
    show ?thesis using r(1) s c1(2) o p by (intro exI [of _ "(i, off, n) # bs"] exI [of _ c2]) auto
  qed
qed simp

subsection \<open>Pool invariant\<close>

definition pool_ok :: "MemoryPool \<Rightarrow> nat set \<Rightarrow> bool" where
  "pool_ok pool live \<longleftrightarrow> distinct (free_list pool) \<and> set (free_list pool) \<inter> live = {} \<and> set (free_list pool) \<union> live = {..<pcapacity pool} \<and>
     pused pool = int (card live)"

lemma thread_free_list_props: "set (thread_free_list i n fl) = {i..<i + n} \<union> set fl \<and>
    (distinct fl \<and> set fl \<inter> {i..<i + n} = {} \<longrightarrow> distinct (thread_free_list i n fl))"
proof (induction n arbitrary: i fl)
  case (Suc n)
  have "{i..<i + Suc n} = insert i {i + 1..<i + 1 + n}" by auto
  then show ?case using Suc.IH [of "i + 1" "i # fl"] by (auto simp: disjoint_iff)
qed simp

lemma pool_create_ok:
  assumes "pool_create malloc_ok sz n = Some pool"
  shows "pool_ok pool {} \<and> sz \<le> object_size pool \<and> pcapacity pool = n"
proof -
  have "free_list pool = thread_free_list 0 n []" "pused pool = 0" "pcapacity pool = n" "sz \<le> object_size pool"
    using assms by (auto simp: pool_create_def Let_def split: if_splits)
  moreover have "set (thread_free_list 0 n []) = {..<n}" "distinct (thread_free_list 0 n [])"
    using thread_free_list_props [of 0 n "[]"] by (simp_all add: atLeast0LessThan)
  ultimately show ?thesis by (simp add: pool_ok_def)
qed

lemma pool_alloc_ok:
  assumes "pool_ok pool live"
  shows "case pool_alloc (Some pool) of
      (None, po) \<Rightarrow> po = Some pool \<and> live = {..<pcapacity pool}
    | (Some node, po) \<Rightarrow> \<exists>pool'. po = Some pool' \<and> node \<notin> live \<and> node < pcapacity pool \<and> pool_ok pool' (insert node live) \<and>
        object_size pool' = object_size pool \<and> pcapacity pool' = pcapacity pool"
proof (cases "free_list pool")
  case Nil
  then show ?thesis using assms by (simp add: pool_alloc_def pool_ok_def)
next
  case (Cons node rest)
  have fin: "finite live" using assms unfolding pool_ok_def by (metis finite_Un finite_lessThan)
  have "node \<notin> live" "node < pcapacity pool" using assms Cons by (auto simp: pool_ok_def)
  then show ?thesis using assms Cons fin by (auto simp: pool_alloc_def pool_ok_def)
qed

lemma pool_free_ok:
  assumes "pool_ok pool live" "node \<in> live"
  shows "\<exists>pool'. pool_free (Some pool) (Some node) = Some pool' \<and> pool_ok pool' (live - {node}) \<and> pcapacity pool' = pcapacity pool"
proof -
  have fin: "finite live" using assms(1) unfolding pool_ok_def by (metis finite_Un finite_lessThan)
  have "1 \<le> card live" using fin assms(2) by (metis One_nat_def Suc_leI card_gt_0_iff empty_iff)
  then show ?thesis using assms fin by (auto simp: pool_free_def pool_ok_def of_nat_diff)
qed

subsection \<open>Claims\<close>

text \<open>C28. Every allocation from an arena ends, and the blocks handed out by any sequence of allocations of at most \<open>2 ^ 61\<close> bytes each, from an arena whose first chunk has at most \<open>2 ^ 62\<close> bytes, are aligned to eight bytes, lie inside their chunk, and are pairwise disjoint, however the chain of chunks grows and whatever requests the C allocator refuses.\<close>

theorem arena_blocks_disjoint:
  assumes "arena_create malloc_ok sz = Some a" "sz \<le> 2 ^ 62" "list_all (\<lambda>n. 0 < n \<and> n \<le> 2 ^ 61) ns"
  shows "\<exists>bs chain. arena_allocs malloc_ok [a] ns = Some (bs, chain) \<and> arena_ok chain \<and> sorted_wrt disjoint_blocks bs \<and>
    list_all (\<lambda>b. owned chain b \<and> 8 dvd fst (snd b)) bs"
proof -
  have "arena_ok [a]" using assms(1,2) by (auto simp: arena_create_def arena_ok_def ARENA_DEFAULT_SIZE_def Let_def split: if_splits)
  from arena_allocs_correct [OF this assms(3), of malloc_ok] show ?thesis unfolding list_all_iff by blast
qed

text \<open>With a request close to the largest \<^verbatim>\<open>size_t\<close> the sum in the bounds check wraps: the allocation succeeds in a chunk of 64 bytes, moves the used mark back, and the next block overlaps one handed out before.\<close>

theorem arena_size_wraps:
  "arena_alloc (\<lambda>_. True) [\<lparr>asize = 64, aused = 16\<rparr>] (2 ^ 64 - 8) = Some (Some (0, 16), [\<lparr>asize = 64, aused = 8\<rparr>]) \<and>
   arena_alloc (\<lambda>_. True) [\<lparr>asize = 64, aused = 8\<rparr>] 8 = Some (Some (0, 8), [\<lparr>asize = 64, aused = 16\<rparr>]) \<and>
   owned [\<lparr>asize = 64, aused = 16\<rparr>] (0, 0, 16) \<and> \<not> disjoint_blocks (0, 0, 16) (0, 8, 8)"
proof -
  have al: "ALIGN_UP 16 8 = 16" "ALIGN_UP 8 8 = 8"
    using and_high_mask [of 23 3] and_high_mask [of 15 3] by (simp_all add: ALIGN_UP_def SIZE_T_def)
  have "arena_alloc (\<lambda>_. True) [\<lparr>asize = 64, aused = 16\<rparr>] (2 ^ 64 - 8) = Some (Some (0, 16), [\<lparr>asize = 64, aused = 8\<rparr>])"
    unfolding arena_alloc_def by (subst arena_alloc_steps(2)) (simp_all add: al SIZE_T_def)
  moreover have "arena_alloc (\<lambda>_. True) [\<lparr>asize = 64, aused = 8\<rparr>] 8 = Some (Some (0, 8), [\<lparr>asize = 64, aused = 16\<rparr>])"
    unfolding arena_alloc_def by (subst arena_alloc_steps(2)) (simp_all add: al SIZE_T_def)
  ultimately show ?thesis by (simp add: owned_def disjoint_blocks_def)
qed

text \<open>C29. A pool hands out a slot that is not in use, fails only when all slots are in use, and takes back a slot in use; the free list stays without duplicates and complementary to the slots in use, and the counter is their number.\<close>

theorem pool_slots_distinct:
  assumes "pool_ok pool live"
  shows "(case pool_alloc (Some pool) of
      (None, po) \<Rightarrow> po = Some pool \<and> live = {..<pcapacity pool}
    | (Some node, po) \<Rightarrow> node \<notin> live \<and> node < pcapacity pool \<and> (\<exists>pool'. po = Some pool' \<and> pool_ok pool' (insert node live))) \<and>
    (\<forall>node \<in> live. \<exists>pool'. pool_free (Some pool) (Some node) = Some pool' \<and> pool_ok pool' (live - {node})) \<and>
    pool_get_used (Some pool) = int (card live)"
proof (intro conjI)
  show "\<forall>node \<in> live. \<exists>pool'. pool_free (Some pool) (Some node) = Some pool' \<and> pool_ok pool' (live - {node})"
    using pool_free_ok [OF assms] by blast
  show "pool_get_used (Some pool) = int (card live)" using assms by (simp add: pool_get_used_def pool_ok_def)
qed (use pool_alloc_ok [OF assms] in \<open>auto split: option.splits prod.splits\<close>)

definition pool_example :: MemoryPool where
  "pool_example = \<lparr>object_size = 16, pcapacity = 3, pused = 1, free_list = [2, 0]\<rparr>"

theorem arena_blocks_disjoint_witness:
  "\<exists>bs chain. arena_allocs (\<lambda>_. True) [\<lparr>asize = 64, aused = 0\<rparr>] [10, 100, 20] = Some (bs, chain) \<and> sorted_wrt disjoint_blocks bs"
  using arena_blocks_disjoint [of "\<lambda>_. True" 64 "\<lparr>asize = 64, aused = 0\<rparr>" "[10, 100, 20]"] by (auto simp: arena_create_def Let_def)

theorem pool_slots_distinct_witness: "fst (pool_alloc (Some pool_example)) = Some 2 \<and> pool_get_used (Some pool_example) = 1"
proof -
  have "{..<3 :: nat} = {0, 1, 2}" by auto
  then have "pool_ok pool_example {1}" by (auto simp: pool_ok_def pool_example_def)
  from pool_slots_distinct [OF this] show ?thesis by (simp add: pool_alloc_def pool_example_def)
qed

end
