(* ===== verification/AetherBytes.thy ===== *)
theory AetherBytes
  imports Prelude
begin

section \<open>Byte buffers of the Aether library\<close>

text \<open>
  Models \<^verbatim>\<open>std/bytes/aether_bytes.c\<close>, a growable buffer that is filled out of order and then
  turned into a string.  The data is a list of \<open>bcapacity\<close> bytes; sizes are natural numbers below
  \<open>2 ^ 64\<close> and the doubling of the capacity wraps as \<^verbatim>\<open>size_t\<close> does.  The doubling loop
  of the source has no bound, so it is a partial function.  \<open>malloc_ok\<close> says which requests the C
  allocator grants.  A source string is the list of the bytes it points to, or \<open>None\<close> for
  \<^verbatim>\<open>NULL\<close>.
\<close>

subsection \<open>Operations\<close>

record AetherBytes =
  blength :: nat
  bcapacity :: nat
  bdata :: bytes

partial_function (option) grow_loop :: "nat \<Rightarrow> nat \<Rightarrow> nat option" where
  "grow_loop new_cap min_capacity =
     (if new_cap < min_capacity then
        (let doubled = (new_cap * 2) mod 2 ^ 64
         in if doubled < new_cap then Some min_capacity else grow_loop doubled min_capacity)
      else Some new_cap)"

definition bytes_reserve :: "(nat \<Rightarrow> bool) \<Rightarrow> AetherBytes \<Rightarrow> nat \<Rightarrow> (bool \<times> AetherBytes) option" where
  "bytes_reserve malloc_ok b min_capacity =
     (if bcapacity b \<ge> min_capacity then Some (True, b)
      else case grow_loop (if bcapacity b \<noteq> 0 then bcapacity b else 16) min_capacity of
             None \<Rightarrow> None
           | Some new_cap \<Rightarrow>
               if \<not> malloc_ok new_cap then Some (False, b)
               else Some (True, b\<lparr>bdata := bdata b @ replicate (new_cap - bcapacity b) 0, bcapacity := new_cap\<rparr>))"

definition aether_bytes_new :: "(nat \<Rightarrow> bool) \<Rightarrow> int \<Rightarrow> AetherBytes option option" where
  "aether_bytes_new malloc_ok initial_capacity =
     (if initial_capacity < 0 then Some None
      else if \<not> malloc_ok 24 then Some None
      else let b = \<lparr>blength = 0, bcapacity = 0, bdata = []\<rparr>
           in if initial_capacity > 0 then
                (case bytes_reserve malloc_ok b (nat initial_capacity) of
                   None \<Rightarrow> None | Some (ok, b') \<Rightarrow> Some (if ok then Some b' else None))
              else Some (Some b))"

definition aether_bytes_length :: "AetherBytes option \<Rightarrow> int" where
  "aether_bytes_length bo = (case bo of None \<Rightarrow> -1 | Some b \<Rightarrow> signed_take_bit 31 (int (blength b)))"

definition aether_bytes_set :: "(nat \<Rightarrow> bool) \<Rightarrow> AetherBytes \<Rightarrow> int \<Rightarrow> int \<Rightarrow> (int \<times> AetherBytes) option" where
  "aether_bytes_set malloc_ok b index byte =
     (if index < 0 then Some (0, b)
      else let needed = nat index + 1
           in case bytes_reserve malloc_ok b needed of
                None \<Rightarrow> None
              | Some (ok, b) \<Rightarrow>
                  if \<not> ok then Some (0, b)
                  else Some (1, b\<lparr>bdata := (bdata b)[nat index := nat (byte mod 256)],
                                  blength := (if needed > blength b then needed else blength b)\<rparr>))"

definition memcpy_into :: "bytes \<Rightarrow> nat \<Rightarrow> bytes \<Rightarrow> bytes" where
  "memcpy_into data dst src = take dst data @ src @ drop (dst + length src) data"

definition aether_bytes_copy_from_string ::
    "(nat \<Rightarrow> bool) \<Rightarrow> AetherBytes \<Rightarrow> int \<Rightarrow> bytes option \<Rightarrow> int \<Rightarrow> (int \<times> AetherBytes) option" where
  "aether_bytes_copy_from_string malloc_ok b dst src src_len =
     (if dst < 0 \<or> src = None \<or> src_len < 0 then Some (0, b)
      else if src_len = 0 then Some (1, b)
      else let needed = (nat dst + nat src_len) mod 2 ^ 64
           in if needed < nat dst then Some (0, b)
              else case bytes_reserve malloc_ok b needed of
                     None \<Rightarrow> None
                   | Some (ok, b) \<Rightarrow>
                       if \<not> ok then Some (0, b)
                       else Some (1, b\<lparr>bdata := memcpy_into (bdata b) (nat dst) (take (nat src_len) (the src)),
                                       blength := (if needed > blength b then needed else blength b)\<rparr>))"

text \<open>The byte-by-byte forward loop; \<open>n\<close> iterations are left.  The indices \<^verbatim>\<open>dst + i\<close> and \<^verbatim>\<open>src + i\<close> are sums of
  two \<^verbatim>\<open>int\<close>s and wrap at 32 bits; \<open>None\<close> is an access below the buffer.\<close>

fun copy_forward :: "bytes \<Rightarrow> nat \<Rightarrow> nat \<Rightarrow> nat \<Rightarrow> nat \<Rightarrow> bytes option" where
  "copy_forward data dst src i 0 = Some data"
| "copy_forward data dst src i (Suc n) =
     (let to_ix = signed_take_bit 31 (int dst + int i); from_ix = signed_take_bit 31 (int src + int i)
      in if to_ix < 0 \<or> from_ix < 0 then None
         else copy_forward (data[nat to_ix := data ! nat from_ix]) dst src (i + 1) n)"

definition aether_bytes_copy_within :: "(nat \<Rightarrow> bool) \<Rightarrow> AetherBytes \<Rightarrow> int \<Rightarrow> int \<Rightarrow> int \<Rightarrow> (int \<times> AetherBytes) option" where
  "aether_bytes_copy_within malloc_ok b dst src len =
     (if dst < 0 \<or> src < 0 \<or> len < 0 then Some (0, b)
      else if len = 0 then Some (1, b)
      else if nat src \<ge> blength b then Some (0, b)
      else if \<not> dst > src \<and> (nat src + nat len) mod 2 ^ 64 > blength b then Some (0, b)
      else let needed = (nat dst + nat len) mod 2 ^ 64
           in if needed < nat dst then Some (0, b)
              else case bytes_reserve malloc_ok b needed of
                     None \<Rightarrow> None
                   | Some (ok, b) \<Rightarrow>
                       if \<not> ok then Some (0, b)
                       else map_option (\<lambda>data. (1, b\<lparr>bdata := data, blength := (if needed > blength b then needed else blength b)\<rparr>))
                              (copy_forward (bdata b) (nat dst) (nat src) 0 (nat len)))"

text \<open>The bytes handed to \<^verbatim>\<open>string_new_with_length\<close>; the buffer is released.\<close>

definition aether_bytes_finish :: "AetherBytes option \<Rightarrow> int \<Rightarrow> bytes option" where
  "aether_bytes_finish bo len =
     (case bo of None \<Rightarrow> None
      | Some b \<Rightarrow>
          (let use_length = (if len < 0 then 0 else nat len);
               use_length = (if use_length > blength b then blength b else use_length)
           in Some (take use_length (bdata b))))"

subsection \<open>Growth\<close>

lemma grow_loop_ends:
  assumes "0 < c" "m < 2 ^ 64"
  shows "\<exists>n. grow_loop c m = Some n \<and> m \<le> n \<and> c \<le> n \<and> (n < 2 * m \<or> n = c)"
  using assms(1)
proof (induction "m - c" arbitrary: c rule: less_induct)
  case less
  show ?case
  proof (cases "c < m")
    case False
    then show ?thesis by (subst grow_loop.simps) simp
  next
    case True
    show ?thesis
    proof (cases "c * 2 < 2 ^ 64")
      case wrap: False
      then have "(c * 2) mod 2 ^ 64 < c" using True assms(2) by (auto simp: mod_if)
      then show ?thesis using True less.prems by (subst grow_loop.simps) (simp add: Let_def)
    next
      case small: True
      then have d: "(c * 2) mod 2 ^ 64 = c * 2" by (simp del: mult_Suc_right)
      have "m - c * 2 < m - c" using less.prems True by (intro diff_less_mono2) auto
      then obtain n where n: "grow_loop (c * 2) m = Some n" "m \<le> n" "c * 2 \<le> n" "n < 2 * m \<or> n = c * 2"
        using less.hyps [of "c * 2"] less.prems by auto
      have "grow_loop c m = grow_loop (c * 2) m" using True less.prems unfolding grow_loop.simps [of c m] Let_def d by simp
      then show ?thesis using n True by auto
    qed
  qed
qed

definition bytes_inv :: "AetherBytes \<Rightarrow> bool" where
  "bytes_inv b \<longleftrightarrow> length (bdata b) = bcapacity b \<and> blength b \<le> bcapacity b \<and> bytes_ok (bdata b) \<and>
     (\<forall>i < bcapacity b. blength b \<le> i \<longrightarrow> bdata b ! i = 0)"

definition bytes_of :: "AetherBytes \<Rightarrow> bytes" where
  "bytes_of b = take (blength b) (bdata b)"

lemma bytes_ok_replicate: "bytes_ok (replicate n 0)"
  by (simp add: bytes_ok_def list_all_iff)

lemma bytes_reserve_correct:
  assumes inv: "bytes_inv b" and m: "m < 2 ^ 64"
  shows "\<exists>ok b'. bytes_reserve malloc_ok b m = Some (ok, b') \<and> bytes_inv b' \<and> blength b' = blength b \<and> bytes_of b' = bytes_of b \<and>
    (\<exists>zs. bdata b' = bdata b @ replicate zs 0) \<and> (ok \<longrightarrow> m \<le> bcapacity b') \<and> (\<not> ok \<longrightarrow> b' = b \<and> \<not> (\<forall>n. malloc_ok n))"
proof (cases "bcapacity b \<ge> m")
  case True
  have "\<exists>zs. bdata b = bdata b @ replicate zs 0" by (rule exI [of _ 0]) simp
  then show ?thesis using True inv by (auto simp: bytes_reserve_def)
next
  case False
  have "0 < (if bcapacity b \<noteq> 0 then bcapacity b else 16)" by simp
  from grow_loop_ends [OF this m]
  obtain n where n: "grow_loop (if bcapacity b \<noteq> 0 then bcapacity b else 16) m = Some n" "m \<le> n" "(if bcapacity b \<noteq> 0 then bcapacity b else 16) \<le> n"
    by blast
  have "bytes_inv (b\<lparr>bdata := bdata b @ replicate (n - bcapacity b) 0, bcapacity := n\<rparr>)"
    using inv n by (auto simp: bytes_inv_def bytes_ok_replicate nth_append split: if_splits)
  moreover have "bytes_of (b\<lparr>bdata := bdata b @ replicate (n - bcapacity b) 0, bcapacity := n\<rparr>) = bytes_of b"
    using inv by (simp add: bytes_inv_def bytes_of_def)
  ultimately show ?thesis using False n inv by (auto simp: bytes_reserve_def)
qed

text \<open>What is stored, extended with zeros.\<close>

definition padded :: "AetherBytes \<Rightarrow> nat \<Rightarrow> bytes" where
  "padded b n = bytes_of b @ replicate (n - blength b) 0"

lemma padded_data:
  assumes "bytes_inv b" "n \<le> bcapacity b"
  shows "padded b n = take (max n (blength b)) (bdata b)"
proof (rule nth_equalityI)
  show "length (padded b n) = length (take (max n (blength b)) (bdata b))"
    using assms by (auto simp: padded_def bytes_of_def bytes_inv_def)
  show "padded b n ! i = take (max n (blength b)) (bdata b) ! i" if "i < length (padded b n)" for i
    using that assms by (auto simp: padded_def bytes_of_def bytes_inv_def nth_append)
qed

lemma take_update: "take n (xs[i := x]) = (take n xs)[i := x]"
  by (rule take_update_swap)

lemma padded_reserve:
  assumes "blength b' = blength b" "bytes_of b' = bytes_of b"
  shows "padded b' n = padded b n"
  using assms by (simp add: padded_def)

lemma bytes_set_ok:
  assumes inv: "bytes_inv b" and i: "0 \<le> index" "index < 2 ^ 31"
  shows "\<exists>r b'. aether_bytes_set malloc_ok b index byte = Some (r, b') \<and> bytes_inv b' \<and>
    (r = 1 \<and> bytes_of b' = (padded b (nat index + 1))[nat index := nat (byte mod 256)] \<or>
     r = 0 \<and> b' = b \<and> \<not> (\<forall>n. malloc_ok n))"
proof -
  have m: "nat index + 1 < 2 ^ 64" using i by simp
  obtain ok b1 where r: "bytes_reserve malloc_ok b (nat index + 1) = Some (ok, b1)" "bytes_inv b1" "blength b1 = blength b" "bytes_of b1 = bytes_of b"
    "ok \<longrightarrow> nat index + 1 \<le> bcapacity b1" "\<not> ok \<longrightarrow> b1 = b \<and> \<not> (\<forall>n. malloc_ok n)"
    using bytes_reserve_correct [OF inv m, of malloc_ok] by blast
  show ?thesis
  proof (cases ok)
    case False
    then show ?thesis using r i by (auto simp: aether_bytes_set_def Let_def)
  next
    case True
    define v where "v = nat (byte mod 256)"
    define b2 where "b2 = b1\<lparr>bdata := (bdata b1)[nat index := v], blength := (if nat index + 1 > blength b1 then nat index + 1 else blength b1)\<rparr>"
    have e: "aether_bytes_set malloc_ok b index byte = Some (1, b2)" using r(1) True i by (simp add: aether_bytes_set_def Let_def b2_def v_def)
    have v: "v < 256" by (simp add: v_def nat_less_iff)
    have cap: "nat index < bcapacity b1" using r(5) True by simp
    have "bytes_ok ((bdata b1)[nat index := v])" using r(2) v
      by (auto simp: bytes_inv_def bytes_ok_def list_all_iff dest!: set_update_subset_insert [THEN subsetD])
    then have "bytes_inv b2" using r(2) cap by (auto simp: bytes_inv_def b2_def nth_list_update)
    moreover have "bytes_of b2 = (take (max (nat index + 1) (blength b1)) (bdata b1))[nat index := v]"
      by (auto simp: bytes_of_def b2_def take_update max_def)
    ultimately show ?thesis using e padded_data [OF r(2), of "nat index + 1"] cap padded_reserve [OF r(3,4)] by (simp add: v_def)
  qed
qed

text \<open>The loop with the indices as natural numbers, which the loop of the code is as long as no index leaves the \<^verbatim>\<open>int\<close>s.\<close>

fun forward_copy :: "bytes \<Rightarrow> nat \<Rightarrow> nat \<Rightarrow> nat \<Rightarrow> nat \<Rightarrow> bytes" where
  "forward_copy data dst src i 0 = data"
| "forward_copy data dst src i (Suc n) = forward_copy (data[dst + i := data ! (src + i)]) dst src (i + 1) n"

lemma signed31_id: "0 \<le> x \<Longrightarrow> x < 2 ^ 31 \<Longrightarrow> signed_take_bit 31 x = (x :: int)"
  by (simp add: signed_take_bit_int_eq_self)

lemma signed31_top: "signed_take_bit 31 (2 ^ 31 :: int) = - (2 ^ 31)"
  by simp

lemma copy_forward_in_range:
  assumes "dst + i + n \<le> 2 ^ 31" "src + i + n \<le> 2 ^ 31"
  shows "copy_forward data dst src i n = Some (forward_copy data dst src i n)"
  using assms
proof (induction n arbitrary: data i)
  case (Suc n)
  have "signed_take_bit 31 (int dst + int i) = int dst + int i" "signed_take_bit 31 (int src + int i) = int src + int i"
    using Suc.prems by (auto intro!: signed31_id)
  then show ?case using Suc by (simp add: nat_add_distrib)
qed simp

lemma copy_forward_overflow:
  assumes "dst + i \<le> 2 ^ 31" "2 ^ 31 < dst + i + n"
  shows "copy_forward data dst src i n = None"
  using assms
proof (induction n arbitrary: data i)
  case (Suc n)
  show ?case
  proof (cases "dst + i = 2 ^ 31")
    case True
    then have "int dst + int i = 2 ^ 31" by (metis of_nat_add of_nat_numeral of_nat_power)
    then show ?thesis by (simp only: copy_forward.simps signed31_top Let_def) simp
  next
    case False
    then show ?thesis using Suc by (simp add: Let_def)
  qed
qed simp

lemma forward_copy_length [simp]: "length (forward_copy data dst src i n) = length data"
  by (induction n arbitrary: data i) auto

lemma forward_copy_down:
  assumes "dst \<le> src" "src + i + n \<le> length data"
  shows "forward_copy data dst src i n ! j = (if dst + i \<le> j \<and> j < dst + i + n then data ! (src + (j - dst)) else data ! j)"
  using assms(2)
proof (induction n arbitrary: data i)
  case (Suc n)
  let ?d = "data[dst + i := data ! (src + i)]"
  have "forward_copy ?d dst src (i + 1) n ! j = (if dst + (i + 1) \<le> j \<and> j < dst + (i + 1) + n then ?d ! (src + (j - dst)) else ?d ! j)"
    by (rule Suc.IH) (use Suc.prems in simp)
  moreover have "?d ! (src + (j - dst)) = data ! (src + (j - dst))" if "dst + (i + 1) \<le> j" using that assms(1) by simp
  ultimately show ?case using Suc.prems assms(1) by (auto simp: nth_list_update)
qed simp

lemma forward_copy_up:
  assumes "src < dst" "dst + i + n \<le> length data"
    and "\<And>j. j < i \<Longrightarrow> data ! (dst + j) = orig ! (src + j mod (dst - src))" "\<And>j. j < dst \<Longrightarrow> data ! j = orig ! j"
  shows "forward_copy data dst src i n ! j =
    (if dst \<le> j \<and> j < dst + i + n then orig ! (src + (j - dst) mod (dst - src)) else data ! j)"
  using assms(2-4)
proof (induction n arbitrary: data i)
  case 0
  then show ?case by (auto dest: 0(2) [of "j - dst"]) (metis add_diff_inverse_nat leD less_diff_conv2 add.commute)
next
  case (Suc n)
  let ?p = "dst - src"
  have rd: "data ! (src + i) = orig ! (src + i mod ?p)"
  proof (cases "i < ?p")
    case True
    then show ?thesis using Suc.prems(3) [of "src + i"] by simp
  next
    case False
    then have e: "src + i = dst + (i - ?p)" using assms(1) by simp
    have "i - ?p < i" using False assms(1) by linarith
    moreover have "(i - ?p) mod ?p = i mod ?p" using False by (metis le_mod_geq not_less)
    ultimately show ?thesis using Suc.prems(2) [of "i - ?p"] unfolding e by metis
  qed
  let ?d = "data[dst + i := data ! (src + i)]"
  have "forward_copy ?d dst src (i + 1) n ! j =
    (if dst \<le> j \<and> j < dst + (i + 1) + n then orig ! (src + (j - dst) mod ?p) else ?d ! j)"
  proof (rule Suc.IH)
    show "dst + (i + 1) + n \<le> length ?d" using Suc.prems(1) by simp
    show "?d ! (dst + k) = orig ! (src + k mod ?p)" if "k < i + 1" for k
      using that Suc.prems(1,2) rd by (cases "k = i") (auto simp: nth_list_update)
    show "?d ! k = orig ! k" if "k < dst" for k using that Suc.prems(3) by simp
  qed
  then show ?case using Suc.prems(1) by (auto simp: nth_list_update)
qed

lemma forward_copy_bytes_ok:
  "bytes_ok data \<Longrightarrow> src + i + n \<le> length data \<Longrightarrow> bytes_ok (forward_copy data dst src i n)"
proof (induction n arbitrary: data i)
  case (Suc n)
  have "data ! (src + i) < 256" using Suc.prems by (intro bytes_ok_nth) auto
  then have "bytes_ok (data[dst + i := data ! (src + i)])"
    using Suc.prems(1) by (auto simp: bytes_ok_def list_all_iff dest!: set_update_subset_insert [THEN subsetD])
  then show ?case using Suc.IH [of "data[dst + i := data ! (src + i)]" "i + 1"] Suc.prems(2) by simp
qed simp

text \<open>What the copy should leave: a plain copy downwards, and upwards the repetition of the bytes between source and destination.\<close>

definition repeat_copy :: "bytes \<Rightarrow> nat \<Rightarrow> nat \<Rightarrow> nat \<Rightarrow> bytes" where
  "repeat_copy old dst src n =
     map (\<lambda>j. if dst \<le> j \<and> j < dst + n then old ! (if src < dst then src + (j - dst) mod (dst - src) else src + (j - dst)) else old ! j) [0..<length old]"

lemma forward_copy_repeat:
  assumes "src < dst \<or> src + n \<le> length data" "dst + n \<le> length data"
  shows "forward_copy data dst src 0 n = repeat_copy data dst src n"
proof (rule nth_equalityI)
  show "forward_copy data dst src 0 n ! j = repeat_copy data dst src n ! j" if "j < length (forward_copy data dst src 0 n)" for j
  proof (cases "src < dst")
    case True
    then show ?thesis using forward_copy_up [OF True, of 0 n data data j] assms(2) that by (simp add: repeat_copy_def)
  next
    case False
    then show ?thesis using forward_copy_down [of dst src 0 n data j] assms(1) that by (simp add: repeat_copy_def)
  qed
qed (simp add: repeat_copy_def)

lemma take_repeat_copy:
  assumes "src < dst \<or> src + n \<le> k" "dst + n \<le> k" "k \<le> length data"
  shows "take k (repeat_copy data dst src n) = repeat_copy (take k data) dst src n"
proof (rule nth_equalityI)
  show "take k (repeat_copy data dst src n) ! j = repeat_copy (take k data) dst src n ! j" if j: "j < length (take k (repeat_copy data dst src n))" for j
  proof -
    have "src + (j - dst) mod (dst - src) < k" if "src < dst" "dst \<le> j" "j < dst + n"
    proof -
      have "(j - dst) mod (dst - src) < dst - src" using that by simp
      then show ?thesis using assms(2) that by linarith
    qed
    then show ?thesis using j assms by (auto simp: repeat_copy_def)
  qed
qed (use assms in \<open>simp add: repeat_copy_def\<close>)

lemma bytes_copy_within_ok:
  assumes inv: "bytes_inv b" and i: "0 \<le> dst" "dst < 2 ^ 31" "0 \<le> src" "src < 2 ^ 31" "0 < n" "n < 2 ^ 31"
    and s: "nat src < blength b" "src < dst \<or> nat src + nat n \<le> blength b" and w: "dst + n \<le> 2 ^ 31" "src + n \<le> 2 ^ 31"
  shows "\<exists>r b'. aether_bytes_copy_within malloc_ok b dst src n = Some (r, b') \<and> bytes_inv b' \<and>
    (r = 1 \<and> bytes_of b' = repeat_copy (padded b (nat dst + nat n)) (nat dst) (nat src) (nat n) \<or> r = 0 \<and> b' = b \<and> \<not> (\<forall>n. malloc_ok n))"
proof -
  define m where "m = nat dst + nat n"
  have m: "m < 2 ^ 64" "(nat dst + nat n) mod 2 ^ 64 = m" "(nat src + nat n) mod 2 ^ 64 = nat src + nat n" using i by (auto simp: m_def)
  obtain ok b1 where r: "bytes_reserve malloc_ok b m = Some (ok, b1)" "bytes_inv b1" "blength b1 = blength b" "bytes_of b1 = bytes_of b"
    "ok \<longrightarrow> m \<le> bcapacity b1" "\<not> ok \<longrightarrow> b1 = b \<and> \<not> (\<forall>n. malloc_ok n)"
    using bytes_reserve_correct [OF inv m(1), of malloc_ok] by blast
  have "nat dst + 0 + nat n \<le> 2 ^ 31" "nat src + 0 + nat n \<le> 2 ^ 31" using i w by (auto simp: nat_add_distrib [symmetric] nat_le_iff)
  note cf = copy_forward_in_range [OF this]
  have e: "aether_bytes_copy_within malloc_ok b dst src n = (if \<not> ok then Some (0, b1)
      else Some (1, b1\<lparr>bdata := forward_copy (bdata b1) (nat dst) (nat src) 0 (nat n), blength := (if m > blength b1 then m else blength b1)\<rparr>))"
    unfolding aether_bytes_copy_within_def Let_def m(2,3) using i s r(1) cf by (auto simp: m_def)
  show ?thesis
  proof (cases ok)
    case False
    then show ?thesis using e r(2,6) by auto
  next
    case True
    let ?d = "bdata b1"
    let ?k = "max m (blength b1)"
    have len: "length ?d = bcapacity b1" "m \<le> bcapacity b1" "blength b1 \<le> bcapacity b1" using r(2,5) True by (auto simp: bytes_inv_def)
    have sd: "nat src < nat dst \<or> nat src + nat n \<le> blength b1" using s(2) i r(3) by auto
    have cp: "forward_copy ?d (nat dst) (nat src) 0 (nat n) = repeat_copy ?d (nat dst) (nat src) (nat n)"
      by (rule forward_copy_repeat) (use sd len in \<open>auto simp: m_def\<close>)
    have bo: "bytes_ok (forward_copy ?d (nat dst) (nat src) 0 (nat n))"
      by (rule forward_copy_bytes_ok) (use r(2) sd len in \<open>auto simp: bytes_inv_def m_def\<close>)
    define b2 where "b2 = b1\<lparr>bdata := forward_copy ?d (nat dst) (nat src) 0 (nat n), blength := (if m > blength b1 then m else blength b1)\<rparr>"
    have "bytes_inv b2"
      using r(2) bo len unfolding cp b2_def by (auto simp: bytes_inv_def repeat_copy_def m_def)
    moreover have "bytes_of b2 = repeat_copy (take ?k ?d) (nat dst) (nat src) (nat n)"
      using take_repeat_copy [of "nat src" "nat dst" "nat n" ?k ?d] sd len unfolding b2_def cp bytes_of_def by (auto simp: m_def max_def)
    ultimately show ?thesis using e True padded_data [OF r(2) len(2)] padded_reserve [OF r(3,4), of m] by (auto simp: b2_def m_def)
  qed
qed

lemma memcpy_into_length: "dst + length src \<le> length data \<Longrightarrow> length (memcpy_into data dst src) = length data"
  by (simp add: memcpy_into_def)

lemma memcpy_into_nth:
  "dst + length src \<le> length data \<Longrightarrow> j < length data \<Longrightarrow>
     memcpy_into data dst src ! j = (if dst \<le> j \<and> j < dst + length src then src ! (j - dst) else data ! j)"
  by (auto simp: memcpy_into_def nth_append)

lemma take_memcpy_into:
  assumes "dst + length src \<le> k" "k \<le> length data"
  shows "take k (memcpy_into data dst src) = memcpy_into (take k data) dst src"
  using assms by (intro nth_equalityI) (simp_all add: memcpy_into_length memcpy_into_nth)

lemma bytes_copy_from_string_ok:
  assumes inv: "bytes_inv b" and i: "0 \<le> dst" "dst < 2 ^ 31" "0 < n" "n < 2 ^ 31" and src: "nat n \<le> length s" "bytes_ok s"
  shows "\<exists>r b'. aether_bytes_copy_from_string malloc_ok b dst (Some s) n = Some (r, b') \<and> bytes_inv b' \<and>
    (r = 1 \<and> bytes_of b' = memcpy_into (padded b (nat dst + nat n)) (nat dst) (take (nat n) s) \<or> r = 0 \<and> b' = b \<and> \<not> (\<forall>n. malloc_ok n))"
proof -
  define m where "m = nat dst + nat n"
  have m: "m < 2 ^ 64" "(nat dst + nat n) mod 2 ^ 64 = m" using i by (auto simp: m_def)
  obtain ok b1 where r: "bytes_reserve malloc_ok b m = Some (ok, b1)" "bytes_inv b1" "blength b1 = blength b" "bytes_of b1 = bytes_of b"
    "ok \<longrightarrow> m \<le> bcapacity b1" "\<not> ok \<longrightarrow> b1 = b \<and> \<not> (\<forall>n. malloc_ok n)"
    using bytes_reserve_correct [OF inv m(1), of malloc_ok] by blast
  have e: "aether_bytes_copy_from_string malloc_ok b dst (Some s) n = (if \<not> ok then Some (0, b1)
      else Some (1, b1\<lparr>bdata := memcpy_into (bdata b1) (nat dst) (take (nat n) s), blength := (if m > blength b1 then m else blength b1)\<rparr>))"
    unfolding aether_bytes_copy_from_string_def Let_def m(2) using i r(1) by (auto simp: m_def)
  show ?thesis
  proof (cases ok)
    case False
    then show ?thesis using e r(2,6) by auto
  next
    case True
    let ?d = "bdata b1"
    let ?t = "take (nat n) s"
    let ?k = "max m (blength b1)"
    have len: "length ?d = bcapacity b1" "m \<le> bcapacity b1" "blength b1 \<le> bcapacity b1" "length ?t = nat n" using r(2,5) True src(1) by (auto simp: bytes_inv_def)
    define b2 where "b2 = b1\<lparr>bdata := memcpy_into ?d (nat dst) ?t, blength := (if m > blength b1 then m else blength b1)\<rparr>"
    have "bytes_ok (memcpy_into ?d (nat dst) ?t)" using r(2) src(2)
      by (auto simp: bytes_inv_def bytes_ok_def memcpy_into_def list_all_iff dest: in_set_takeD in_set_dropD)
    then have "bytes_inv b2" using r(2) len unfolding b2_def by (auto simp: bytes_inv_def memcpy_into_length memcpy_into_nth m_def)
    moreover have "take ?k (memcpy_into ?d (nat dst) ?t) = memcpy_into (take ?k ?d) (nat dst) ?t"
      by (rule take_memcpy_into) (use len in \<open>auto simp: m_def\<close>)
    then have "bytes_of b2 = memcpy_into (take ?k ?d) (nat dst) ?t" unfolding b2_def bytes_of_def by (auto simp: max_def)
    ultimately show ?thesis using e True padded_data [OF r(2) len(2)] padded_reserve [OF r(3,4), of m] by (auto simp: b2_def m_def)
  qed
qed

subsection \<open>Claims\<close>

text \<open>Storing a byte or a string anywhere in a buffer extends it with zeros up to that place, stores the low eight bits (the bytes of the string) there and changes nothing else; it fails only when the allocator refuses, and then changes nothing.  The growth loop ends, and bytes past the length are always zero.\<close>

theorem bytes_store_correct:
  assumes "bytes_inv b" "0 \<le> index" "index < 2 ^ 31" "0 < n" "n < 2 ^ 31" "nat n \<le> length s" "bytes_ok s"
  shows "(\<exists>r b'. aether_bytes_set malloc_ok b index byte = Some (r, b') \<and> bytes_inv b' \<and>
      (r = 1 \<and> bytes_of b' = (padded b (nat index + 1))[nat index := nat (byte mod 256)] \<or> r = 0 \<and> b' = b \<and> \<not> (\<forall>n. malloc_ok n))) \<and>
    (\<exists>r b'. aether_bytes_copy_from_string malloc_ok b index (Some s) n = Some (r, b') \<and> bytes_inv b' \<and>
      (r = 1 \<and> bytes_of b' = memcpy_into (padded b (nat index + nat n)) (nat index) (take (nat n) s) \<or> r = 0 \<and> b' = b \<and> \<not> (\<forall>n. malloc_ok n)))"
  using bytes_set_ok [OF assms(1-3)] bytes_copy_from_string_ok [OF assms(1-7)] by blast

text \<open>C30. Copying inside a buffer, byte by byte forwards, where neither range runs past \<open>2 ^ 31\<close> (the indices are \<^verbatim>\<open>int\<close>s): it is the plain copy when the destination is not above the source, and otherwise repeats the bytes between source and destination, as run-length expansion needs: the byte at distance \<open>i\<close> from the destination is the one at distance \<open>i mod (dst - src)\<close> from the source, with zeros past the old end.\<close>

theorem bytes_copy_within_correct:
  assumes "bytes_inv b" "0 \<le> dst" "dst < 2 ^ 31" "0 \<le> src" "src < 2 ^ 31" "0 < n" "n < 2 ^ 31"
    and "nat src < blength b" "src < dst \<or> nat src + nat n \<le> blength b" "dst + n \<le> 2 ^ 31" "src + n \<le> 2 ^ 31"
  shows "\<exists>r b'. aether_bytes_copy_within malloc_ok b dst src n = Some (r, b') \<and> bytes_inv b' \<and>
    (r = 1 \<and> bytes_of b' = repeat_copy (padded b (nat dst + nat n)) (nat dst) (nat src) (nat n) \<or> r = 0 \<and> b' = b \<and> \<not> (\<forall>n. malloc_ok n))"
  by (rule bytes_copy_within_ok [OF assms])

text \<open>Past that limit the code has no guard: when the memory is granted, a copy whose destination range runs past \<open>2 ^ 31\<close> accesses memory outside the buffer.\<close>

theorem bytes_copy_within_overflow:
  assumes "bytes_inv b" "0 \<le> src" "src < dst" "dst < 2 ^ 31" "n < 2 ^ 31" "2 ^ 31 < dst + n" "nat src < blength b" "\<And>k. malloc_ok k"
  shows "aether_bytes_copy_within malloc_ok b dst src n = None"
proof -
  define m where "m = nat dst + nat n"
  have m: "m < 2 ^ 64" "(nat dst + nat n) mod 2 ^ 64 = m" "nat dst \<le> m" using assms by (auto simp: m_def)
  obtain ok b1 where r: "bytes_reserve malloc_ok b m = Some (ok, b1)" "ok"
    using bytes_reserve_correct [OF assms(1) m(1), of malloc_ok] assms(8) by blast
  have "nat dst + 0 \<le> 2 ^ 31" "2 ^ 31 < nat dst + 0 + nat n" using assms(2-6) by (auto simp: nat_add_distrib [symmetric] nat_le_iff zless_nat_eq_int_zless)
  note cf = copy_forward_overflow [OF this]
  show ?thesis unfolding aether_bytes_copy_within_def Let_def m(2) using assms(2-7) m(3) r cf by auto
qed

definition bytes_example :: AetherBytes where
  "bytes_example = \<lparr>blength = 2, bcapacity = 4, bdata = [97, 98, 0, 0]\<rparr>"

lemma bytes_example_inv: "bytes_inv bytes_example"
  by (auto simp: bytes_inv_def bytes_example_def less_Suc_eq numeral_eq_Suc)

theorem bytes_store_correct_witness:
  "\<exists>b'. aether_bytes_set (\<lambda>_. True) bytes_example 3 353 = Some (1, b') \<and> bytes_of b' = [97, 98, 0, 97]"
  using bytes_store_correct [OF bytes_example_inv, of 3 1 "[65]" "\<lambda>_. True" 353]
  by (auto simp: padded_def bytes_of_def bytes_example_def numeral_eq_Suc)

theorem bytes_copy_within_correct_witness:
  "\<exists>b'. aether_bytes_copy_within (\<lambda>_. True) bytes_example 2 0 5 = Some (1, b') \<and> bytes_of b' = [97, 98, 97, 98, 97, 98, 97]"
proof -
  have "repeat_copy (padded bytes_example 7) 2 0 5 = [97, 98, 97, 98, 97, 98, 97]"
    by code_simp
  then show ?thesis using bytes_copy_within_correct [OF bytes_example_inv, of 2 0 5 "\<lambda>_. True"] by (auto simp: bytes_example_def)
qed

end
