(* ===== verification/AetherStrings.thy ===== *)
theory AetherStrings
  imports Prelude
begin

section \<open>Strings of the Aether library\<close>

text \<open>
  Models \<^verbatim>\<open>std/string/aether_string.c\<close>.  A string argument is either a counted
  \<^verbatim>\<open>AetherString\<close> or a plain \<^verbatim>\<open>char*\<close> (\<open>strarg\<close>); both are given by the bytes
  before the terminator that the allocation ends with, and a plain one is read up to its first zero byte.
  \<open>None\<close> is \<^verbatim>\<open>NULL\<close>.  Character classes are those of the C locale.  \<open>malloc_ok\<close> says which
  requests the C allocator grants.  Parsing follows \<^verbatim>\<open>strtol\<close> with 64-bit \<^verbatim>\<open>long\<close>, printing follows
  the \<^verbatim>\<open>%d\<close> and \<^verbatim>\<open>%lld\<close> conversions.
\<close>

subsection \<open>Representation\<close>

datatype strarg = Wrapped bytes | Plain bytes

fun str_data :: "strarg option \<Rightarrow> bytes" where
  "str_data None = [0]"
| "str_data (Some (Wrapped d)) = d @ [0]"
| "str_data (Some (Plain m)) = m @ [0]"

definition strlen :: "bytes \<Rightarrow> nat" where
  "strlen m = length (takeWhile (\<lambda>c. c \<noteq> 0) m)"

fun str_len :: "strarg option \<Rightarrow> nat" where
  "str_len None = 0"
| "str_len (Some (Wrapped d)) = length d"
| "str_len (Some (Plain m)) = strlen m"

definition memcmp_eq :: "bytes \<Rightarrow> nat \<Rightarrow> bytes \<Rightarrow> nat \<Rightarrow> bool" where
  "memcmp_eq a i b n \<longleftrightarrow> take n (drop i a) = take n b"

definition isspace :: "nat \<Rightarrow> bool" where
  "isspace c \<longleftrightarrow> c = 32 \<or> 9 \<le> c \<and> c \<le> 13"

definition toupper :: "nat \<Rightarrow> nat" where
  "toupper c = (if 97 \<le> c \<and> c \<le> 122 then c - 32 else c)"

definition tolower :: "nat \<Rightarrow> nat" where
  "tolower c = (if 65 \<le> c \<and> c \<le> 90 then c + 32 else c)"

subsection \<open>Creation\<close>

definition sizeof_AetherString :: nat where
  "sizeof_AetherString = 32"

definition string_new_with_length :: "(nat \<Rightarrow> bool) \<Rightarrow> bytes \<Rightarrow> nat \<Rightarrow> strarg option" where
  "string_new_with_length malloc_ok data len =
     (if \<not> malloc_ok sizeof_AetherString then None
      else if \<not> malloc_ok (len + 1) then None
      else Some (Wrapped (take len data)))"

definition string_empty :: "(nat \<Rightarrow> bool) \<Rightarrow> strarg option" where
  "string_empty malloc_ok = string_new_with_length malloc_ok [0] 0"

definition string_new :: "(nat \<Rightarrow> bool) \<Rightarrow> bytes option \<Rightarrow> strarg option" where
  "string_new malloc_ok cstr =
     (case cstr of None \<Rightarrow> string_empty malloc_ok | Some m \<Rightarrow> string_new_with_length malloc_ok m (strlen m))"

definition string_from_char :: "(nat \<Rightarrow> bool) \<Rightarrow> int \<Rightarrow> strarg option" where
  "string_from_char malloc_ok code = string_new_with_length malloc_ok [nat (code mod 256)] 1"

subsection \<open>Concatenation, access, comparison\<close>

definition string_concat :: "(nat \<Rightarrow> bool) \<Rightarrow> strarg option \<Rightarrow> strarg option \<Rightarrow> strarg option" where
  "string_concat malloc_ok a b =
     (if a = None \<or> b = None then None
      else let la = str_len a; lb = str_len b; da = str_data a; db = str_data b
           in if lb = 0 then (if \<not> malloc_ok (la + 1) then None else Some (Plain (take la da)))
              else if la = 0 then (if \<not> malloc_ok (lb + 1) then None else Some (Plain (take lb db)))
              else if int la > 2 ^ 64 - 1 - int lb - 1 then None
              else if \<not> malloc_ok (la + lb + 1) then None
              else Some (Plain (take la da @ take lb db)))"

definition string_concat_wrapped :: "(nat \<Rightarrow> bool) \<Rightarrow> strarg option \<Rightarrow> strarg option \<Rightarrow> strarg option" where
  "string_concat_wrapped malloc_ok a b =
     (if a = None \<or> b = None then None
      else let la = str_len a; lb = str_len b; da = str_data a; db = str_data b
           in if int la > 2 ^ 64 - 1 - int lb - 1 then None
              else if \<not> malloc_ok (la + lb + 1) then None
              else string_new_with_length malloc_ok (take la da @ take lb db) (la + lb))"

definition c_int :: "nat \<Rightarrow> int" where
  "c_int n = signed_take_bit 31 (int n)"

definition string_length :: "strarg option \<Rightarrow> int" where
  "string_length str = c_int (str_len str)"

definition string_length_n :: "int \<Rightarrow> int" where
  "string_length_n known_length = (if known_length < 0 then 0 else known_length)"

definition string_char_at :: "strarg option \<Rightarrow> int \<Rightarrow> nat" where
  "string_char_at str index =
     (let len = str_len str
      in if str = None \<or> index < 0 \<or> index \<ge> c_int len then 0 else str_data str ! nat index)"

text \<open>The first argument says whether the two pointers are the same.\<close>

definition string_equals :: "bool \<Rightarrow> strarg option \<Rightarrow> strarg option \<Rightarrow> bool" where
  "string_equals same a b =
     (if same then True
      else if a = None \<or> b = None then False
      else if str_len a \<noteq> str_len b then False
      else memcmp_eq (str_data a) 0 (str_data b) (str_len a))"

fun strcmp :: "bytes \<Rightarrow> bytes \<Rightarrow> int" where
  "strcmp (x # xs) (y # ys) = (if x \<noteq> y then int x - int y else if x = 0 then 0 else strcmp xs ys)"
| "strcmp _ _ = 0"

definition string_compare :: "strarg option \<Rightarrow> strarg option \<Rightarrow> int" where
  "string_compare a b = (if a = None \<or> b = None then 0 else strcmp (str_data a) (str_data b))"

subsection \<open>Searching\<close>

definition string_starts_with :: "strarg option \<Rightarrow> bytes option \<Rightarrow> bool" where
  "string_starts_with str prefix =
     (case prefix of None \<Rightarrow> False
      | Some p \<Rightarrow>
          if str = None then False
          else if strlen p > str_len str then False
          else memcmp_eq (str_data str) 0 p (strlen p))"

definition string_ends_with :: "strarg option \<Rightarrow> bytes option \<Rightarrow> bool" where
  "string_ends_with str suffix =
     (case suffix of None \<Rightarrow> False
      | Some p \<Rightarrow>
          if str = None then False
          else if strlen p > str_len str then False
          else memcmp_eq (str_data str) (str_len str - strlen p) p (strlen p))"

function index_loop :: "bytes \<Rightarrow> bytes \<Rightarrow> nat \<Rightarrow> nat \<Rightarrow> nat \<Rightarrow> int" where
  "index_loop sdata sub_data sub_len upper i =
     (if i \<le> upper then
        (if memcmp_eq sdata i sub_data sub_len then c_int i else index_loop sdata sub_data sub_len upper (i + 1))
      else -1)"
  by pat_completeness auto
termination by (relation "measure (\<lambda>(s, d, n, upper, i). Suc upper - i)") auto

declare index_loop.simps [simp del]

definition string_index_of :: "strarg option \<Rightarrow> strarg option \<Rightarrow> int" where
  "string_index_of str substring =
     (if str = None \<or> substring = None then -1
      else let sub_len = str_len substring; slen = str_len str
           in if sub_len > slen then -1
              else index_loop (str_data str) (str_data substring) sub_len (slen - sub_len) 0)"

definition string_index_of_from :: "strarg option \<Rightarrow> strarg option \<Rightarrow> int \<Rightarrow> int" where
  "string_index_of_from str substring start =
     (if str = None \<or> substring = None then -1
      else let sub_len = str_len substring; slen = str_len str; start = (if start < 0 then 0 else start)
           in if nat start > slen then -1
              else if sub_len > slen - nat start then -1
              else index_loop (str_data str) (str_data substring) sub_len (slen - sub_len) (nat start))"

definition string_contains :: "strarg option \<Rightarrow> strarg option \<Rightarrow> bool" where
  "string_contains str substring \<longleftrightarrow> string_index_of str substring \<ge> 0"

subsection \<open>Parts and case\<close>

definition string_substring :: "(nat \<Rightarrow> bool) \<Rightarrow> strarg option \<Rightarrow> int \<Rightarrow> int \<Rightarrow> strarg option" where
  "string_substring malloc_ok str start en =
     (if str = None then None
      else let slen = str_len str; sdata = str_data str;
               start = (if start < 0 then 0 else start);
               en = (if en > c_int slen then c_int slen else en)
           in if start \<ge> en then (if malloc_ok 1 then Some (Plain []) else None)
              else let len = nat (en - start)
                   in if \<not> malloc_ok (len + 1) then None
                      else Some (Plain (take len (drop (nat start) sdata))))"

definition string_substring_n :: "(nat \<Rightarrow> bool) \<Rightarrow> bytes option \<Rightarrow> int \<Rightarrow> int \<Rightarrow> int \<Rightarrow> strarg option" where
  "string_substring_n malloc_ok str str_len_bytes start en =
     (case str of None \<Rightarrow> None
      | Some sdata \<Rightarrow>
          (let n = (if str_len_bytes < 0 then 0 else str_len_bytes);
               start = (if start < 0 then 0 else start);
               en = (if en > n then n else en)
           in if start \<ge> en then (if malloc_ok 1 then Some (Plain []) else None)
              else let len = nat (en - start)
                   in if \<not> malloc_ok (len + 1) then None
                      else Some (Plain (take len (drop (nat start) sdata)))))"

definition string_to_upper :: "(nat \<Rightarrow> bool) \<Rightarrow> strarg option \<Rightarrow> strarg option" where
  "string_to_upper malloc_ok str =
     (if str = None then None
      else if \<not> malloc_ok (str_len str + 1) then None
      else Some (Plain (map toupper (take (str_len str) (str_data str)))))"

definition string_to_lower :: "(nat \<Rightarrow> bool) \<Rightarrow> strarg option \<Rightarrow> strarg option" where
  "string_to_lower malloc_ok str =
     (if str = None then None
      else if \<not> malloc_ok (str_len str + 1) then None
      else Some (Plain (map tolower (take (str_len str) (str_data str)))))"

function skip_space :: "bytes \<Rightarrow> nat \<Rightarrow> nat \<Rightarrow> nat" where
  "skip_space sdata slen start =
     (if start < slen \<and> isspace (sdata ! start) then skip_space sdata slen (start + 1) else start)"
  by pat_completeness auto
termination by (relation "measure (\<lambda>(d, n, i). n - i)") auto

declare skip_space.simps [simp del]

fun skip_space_back :: "bytes \<Rightarrow> nat \<Rightarrow> nat \<Rightarrow> nat" where
  "skip_space_back sdata start 0 = 0"
| "skip_space_back sdata start (Suc e) =
     (if Suc e > start \<and> isspace (sdata ! e) then skip_space_back sdata start e else Suc e)"

definition string_trim :: "(nat \<Rightarrow> bool) \<Rightarrow> strarg option \<Rightarrow> strarg option" where
  "string_trim malloc_ok str =
     (if str = None then None
      else let slen = str_len str; sdata = str_data str;
               start = skip_space sdata slen 0;
               en = skip_space_back sdata start slen;
               len = en - start
           in if \<not> malloc_ok (len + 1) then None else Some (Plain (take len (drop start sdata))))"

subsection \<open>Splitting\<close>

text \<open>The first pass counts the pieces; the index advances past a match and by one otherwise.\<close>

function split_count :: "bytes \<Rightarrow> bytes \<Rightarrow> nat \<Rightarrow> nat \<Rightarrow> nat \<Rightarrow> nat \<Rightarrow> nat" where
  "split_count sdata delimiter delim_len upper i count =
     (if i \<le> upper then
        (if memcmp_eq sdata i delimiter delim_len then
           split_count sdata delimiter delim_len upper (i + (delim_len - 1) + 1) (count + 1)
         else split_count sdata delimiter delim_len upper (i + 1) count)
      else count)"
  by pat_completeness auto
termination by (relation "measure (\<lambda>(s, d, n, upper, i, c). Suc upper - i)") auto

declare split_count.simps [simp del]

text \<open>The second pass makes the pieces; \<open>None\<close> is a refused allocation.\<close>

function split_loop :: "(nat \<Rightarrow> bool) \<Rightarrow> bytes \<Rightarrow> nat \<Rightarrow> bytes \<Rightarrow> nat \<Rightarrow> nat \<Rightarrow> nat \<Rightarrow> nat \<Rightarrow> strarg list \<Rightarrow> strarg list option" where
  "split_loop malloc_ok sdata slen delimiter delim_len upper start i pieces =
     (if i \<le> upper then
        (if memcmp_eq sdata i delimiter delim_len then
           (case string_new_with_length malloc_ok (drop start sdata) (i - start) of
              None \<Rightarrow> None
            | Some piece \<Rightarrow> split_loop malloc_ok sdata slen delimiter delim_len upper (i + delim_len) (i + (delim_len - 1) + 1) (pieces @ [piece]))
         else split_loop malloc_ok sdata slen delimiter delim_len upper start (i + 1) pieces)
      else case string_new_with_length malloc_ok (drop start sdata) (slen - start) of
             None \<Rightarrow> None | Some tail \<Rightarrow> Some (pieces @ [tail]))"
  by pat_completeness auto
termination by (relation "measure (\<lambda>(m, s, l, d, n, upper, st, i, c). Suc upper - i)") auto

declare split_loop.simps [simp del]

fun bytes_pieces :: "(nat \<Rightarrow> bool) \<Rightarrow> bytes \<Rightarrow> strarg list option" where
  "bytes_pieces malloc_ok [] = Some []"
| "bytes_pieces malloc_ok (c # cs) =
     (case string_new_with_length malloc_ok [c] 1 of
        None \<Rightarrow> None
      | Some p \<Rightarrow> (case bytes_pieces malloc_ok cs of None \<Rightarrow> None | Some ps \<Rightarrow> Some (p # ps)))"

record AetherStringArray =
  strings :: "strarg list"
  acount :: nat

definition string_split :: "(nat \<Rightarrow> bool) \<Rightarrow> strarg option \<Rightarrow> bytes option \<Rightarrow> AetherStringArray option" where
  "string_split malloc_ok str delimiter =
     (if str = None \<or> delimiter = None then None
      else let slen = str_len str; sdata = str_data str; d = the delimiter; delim_len = strlen d
           in if \<not> malloc_ok 16 then None
              else if delim_len = 0 then
                (if slen = 0 then Some \<lparr>strings = [], acount = 0\<rparr>
                 else if \<not> malloc_ok (8 * slen) then None
                 else map_option (\<lambda>ps. \<lparr>strings = ps, acount = slen\<rparr>) (bytes_pieces malloc_ok (take slen sdata)))
              else if slen < delim_len then
                (if \<not> malloc_ok 8 then None
                 else map_option (\<lambda>p. \<lparr>strings = [p], acount = 1\<rparr>) (string_new_with_length malloc_ok sdata slen))
              else let upper = slen - delim_len; count = split_count sdata d delim_len upper 0 1
                   in if \<not> malloc_ok (8 * count) then None
                      else map_option (\<lambda>ps. \<lparr>strings = ps, acount = count\<rparr>)
                             (split_loop malloc_ok sdata slen d delim_len upper 0 0 []))"

definition string_array_size :: "AetherStringArray option \<Rightarrow> int" where
  "string_array_size arr = (case arr of None \<Rightarrow> 0 | Some a \<Rightarrow> c_int (acount a))"

definition string_array_get :: "AetherStringArray option \<Rightarrow> int \<Rightarrow> bytes option" where
  "string_array_get arr index =
     (case arr of None \<Rightarrow> None
      | Some a \<Rightarrow> if index < 0 \<or> nat index \<ge> acount a then None else Some (str_data (Some (strings a ! nat index))))"

subsection \<open>Numbers\<close>

fun decimal :: "nat \<Rightarrow> bytes" where
  "decimal n = (if n < 10 then [48 + n] else decimal (n div 10) @ [48 + n mod 10])"

declare decimal.simps [simp del]

definition print_int :: "int \<Rightarrow> bytes" where
  "print_int v = (if v < 0 then 45 # decimal (nat (- v)) else decimal (nat v))"

text \<open>The parameter of \<^verbatim>\<open>string_from_int\<close> is an \<^verbatim>\<open>int\<close>: a wider argument is truncated at the call.\<close>

definition string_from_int :: "(nat \<Rightarrow> bool) \<Rightarrow> int \<Rightarrow> strarg option" where
  "string_from_int malloc_ok v = string_new malloc_ok (Some (print_int (signed_take_bit 31 v)))"

definition string_from_long :: "(nat \<Rightarrow> bool) \<Rightarrow> int \<Rightarrow> strarg option" where
  "string_from_long malloc_ok v = string_new malloc_ok (Some (print_int v))"

definition is_digit :: "nat \<Rightarrow> bool" where
  "is_digit c \<longleftrightarrow> 48 \<le> c \<and> c \<le> 57"

text \<open>The value, whether it is out of range, and the rest; \<open>None\<close> when no conversion is made.\<close>

definition strtol :: "bytes \<Rightarrow> (int \<times> bool \<times> bytes) option" where
  "strtol data =
     (let s = dropWhile isspace data;
          neg = (s \<noteq> [] \<and> hd s = 45);
          s1 = (if s \<noteq> [] \<and> (hd s = 45 \<or> hd s = 43) then tl s else s);
          ds = takeWhile is_digit s1;
          v = foldl (\<lambda>a c. 10 * a + (int c - 48)) 0 ds;
          v = (if neg then - v else v)
      in if ds = [] then None
         else Some (if v > 2 ^ 63 - 1 then (2 ^ 63 - 1, True, dropWhile is_digit s1)
                    else if v < - (2 ^ 63) then (- (2 ^ 63), True, dropWhile is_digit s1)
                    else (v, False, dropWhile is_digit s1)))"

text \<open>The result is the parsed value; the bytes are read up to the terminator.\<close>

definition string_to_int_raw :: "strarg option \<Rightarrow> int option" where
  "string_to_int_raw str =
     (let data = str_data str
      in if str = None \<or> data ! 0 = 0 then None
         else case strtol (takeWhile (\<lambda>c. c \<noteq> 0) data) of
                None \<Rightarrow> None
              | Some (val, erange, rest) \<Rightarrow>
                  if erange \<or> val > 2 ^ 31 - 1 \<or> val < - (2 ^ 31) then None
                  else if dropWhile isspace rest \<noteq> [] then None
                  else Some val)"

definition string_to_long_raw :: "strarg option \<Rightarrow> int option" where
  "string_to_long_raw str =
     (let data = str_data str
      in if str = None \<or> data ! 0 = 0 then None
         else case strtol (takeWhile (\<lambda>c. c \<noteq> 0) data) of
                None \<Rightarrow> None
              | Some (val, erange, rest) \<Rightarrow>
                  if erange then None
                  else if dropWhile isspace rest \<noteq> [] then None
                  else Some val)"

definition string_try_int :: "strarg option \<Rightarrow> bool" where
  "string_try_int s \<longleftrightarrow> string_to_int_raw s \<noteq> None"

definition string_get_int :: "strarg option \<Rightarrow> int" where
  "string_get_int s = (case string_to_int_raw s of None \<Rightarrow> 0 | Some v \<Rightarrow> v)"

definition string_try_long :: "strarg option \<Rightarrow> bool" where
  "string_try_long s \<longleftrightarrow> string_to_long_raw s \<noteq> None"

definition string_get_long :: "strarg option \<Rightarrow> int" where
  "string_get_long s = (case string_to_long_raw s of None \<Rightarrow> 0 | Some v \<Rightarrow> v)"

subsection \<open>Formatting\<close>

text \<open>The two passes over the format: the size, then the bytes.  The list is what remains of the arguments.\<close>

fun format_size :: "bytes \<Rightarrow> strarg option list \<Rightarrow> nat" where
  "format_size [] as = 0"
| "format_size [c] as = 1"
| "format_size (c # d # p) as =
     (if c = 123 \<and> d = 123 then 1 + format_size p as
      else if c = 125 \<and> d = 125 then 1 + format_size p as
      else if c = 123 \<and> d = 125 then
        (case as of [] \<Rightarrow> format_size p [] | a # as' \<Rightarrow> (if a = None then 0 else str_len a) + format_size p as')
      else 1 + format_size (d # p) as)"

fun format_write :: "bytes \<Rightarrow> strarg option list \<Rightarrow> bytes \<Rightarrow> bytes" where
  "format_write [] as out = out"
| "format_write [c] as out = out @ [c]"
| "format_write (c # d # p) as out =
     (if c = 123 \<and> d = 123 then format_write p as (out @ [123])
      else if c = 125 \<and> d = 125 then format_write p as (out @ [125])
      else if c = 123 \<and> d = 125 then
        (case as of [] \<Rightarrow> format_write p [] out
         | a # as' \<Rightarrow> format_write p as' (if a = None then out else out @ take (str_len a) (str_data a)))
      else format_write (d # p) as (out @ [c]))"

definition string_format_list :: "(nat \<Rightarrow> bool) \<Rightarrow> bytes option \<Rightarrow> strarg option list \<Rightarrow> strarg option" where
  "string_format_list malloc_ok fmt as =
     (case fmt of None \<Rightarrow> string_empty malloc_ok
      | Some f \<Rightarrow>
          (let p = takeWhile (\<lambda>c. c \<noteq> 0) f; total = format_size p as
           in if \<not> malloc_ok (total + 1) then string_empty malloc_ok
              else let out = format_write p as [] in string_new_with_length malloc_ok out (length out)))"

subsection \<open>Text of a string\<close>

definition text_of :: "strarg option \<Rightarrow> bytes" where
  "text_of s = take (str_len s) (str_data s)"

lemma text_of_simps [simp]:
  "text_of None = []" "text_of (Some (Wrapped d)) = d" "text_of (Some (Plain m)) = takeWhile (\<lambda>c. c \<noteq> 0) m"
  by (simp_all add: text_of_def strlen_def takeWhile_eq_take [symmetric])
    (metis append_eq_conv_conj length_takeWhile_le take_append takeWhile_eq_take diff_is_0_eq' take0 append_Nil2)

lemma length_text_of [simp]: "length (text_of s) = str_len s"
  by (cases s rule: str_len.cases) (auto simp: strlen_def)

lemma take_str_data: "n \<le> str_len s \<Longrightarrow> take n (str_data s) = take n (text_of s)"
  by (simp add: text_of_def min_def)

lemma nth_str_data: "i < str_len s \<Longrightarrow> str_data s ! i = text_of s ! i"
  by (simp add: text_of_def)

lemma memcmp_text:
  assumes "i + n \<le> str_len s"
  shows "take n (drop i (str_data s)) = take n (drop i (text_of s))"
  using assms by (simp add: text_of_def drop_take min_def)

lemma strlen_le: "strlen m \<le> length m"
  by (simp add: strlen_def length_takeWhile_le)

lemma take_strlen: "take (strlen m) m = takeWhile (\<lambda>c. c \<noteq> 0) m"
  by (simp add: strlen_def takeWhile_eq_take [symmetric])

subsection \<open>Searching finds the first match\<close>

definition occurs_at :: "bytes \<Rightarrow> bytes \<Rightarrow> nat \<Rightarrow> bool" where
  "occurs_at t s i \<longleftrightarrow> i + length t \<le> length s \<and> take (length t) (drop i s) = t"

lemma memcmp_occurs:
  assumes "i + str_len t \<le> str_len s"
  shows "memcmp_eq (str_data s) i (str_data t) (str_len t) \<longleftrightarrow> occurs_at (text_of t) (text_of s) i"
  using assms by (simp add: memcmp_eq_def occurs_at_def memcmp_text take_str_data)

lemma index_loop_None:
  "(\<And>j. \<lbrakk>i \<le> j; j \<le> upper\<rbrakk> \<Longrightarrow> \<not> memcmp_eq s j d n) \<Longrightarrow> index_loop s d n upper i = -1"
proof (induction s d n upper i rule: index_loop.induct)
  case (1 s d n upper i)
  show ?case
  proof (cases "i \<le> upper")
    case True
    then have "\<not> memcmp_eq s i d n" using "1.prems" [of i] by simp
    then show ?thesis using True 1 by (subst index_loop.simps) simp
  next
    case False then show ?thesis by (subst index_loop.simps) simp
  qed
qed

lemma index_loop_Some:
  "\<lbrakk>i \<le> k; k \<le> upper; memcmp_eq s k d n; \<And>j. \<lbrakk>i \<le> j; j < k\<rbrakk> \<Longrightarrow> \<not> memcmp_eq s j d n\<rbrakk>
   \<Longrightarrow> index_loop s d n upper i = c_int k"
proof (induction s d n upper i rule: index_loop.induct)
  case (1 s d n upper i)
  show ?case
  proof (cases "i = k")
    case True then show ?thesis using 1 by (subst index_loop.simps) simp
  next
    case False
    then have "\<not> memcmp_eq s i d n" "i < k" using "1.prems" by auto
    then show ?thesis using 1 by (subst index_loop.simps) simp
  qed
qed

lemma c_int_small [simp]: "n < 2 ^ 31 \<Longrightarrow> c_int n = int n"
  by (simp add: c_int_def signed_take_bit_int_eq_self)

lemma string_index_of_from_None:
  assumes "\<And>i. start \<le> int i \<Longrightarrow> \<not> occurs_at (text_of (Some t)) (text_of (Some s)) i"
  shows "string_index_of_from (Some s) (Some t) start = -1"
proof -
  let ?n = "str_len (Some t)" and ?m = "str_len (Some s)"
  have "index_loop (str_data (Some s)) (str_data (Some t)) ?n (?m - ?n) (nat start) = -1"
    if "?n \<le> ?m"
    by (rule index_loop_None) (use that assms in \<open>auto simp: memcmp_occurs nat_le_iff\<close>)
  then show ?thesis
    by (cases "start < 0") (simp_all add: string_index_of_from_def Let_def)
qed

lemma string_index_of_from_Some:
  assumes "str_len (Some s) < 2 ^ 31" "start \<le> int k" "occurs_at (text_of (Some t)) (text_of (Some s)) k"
    and "\<And>i. start \<le> int i \<Longrightarrow> i < k \<Longrightarrow> \<not> occurs_at (text_of (Some t)) (text_of (Some s)) i"
  shows "string_index_of_from (Some s) (Some t) start = int k"
proof -
  let ?n = "str_len (Some t)" and ?m = "str_len (Some s)"
  have k: "k + ?n \<le> ?m" using assms(3) by (simp add: occurs_at_def del: str_len.simps text_of_simps)
  have "index_loop (str_data (Some s)) (str_data (Some t)) ?n (?m - ?n) (nat start) = c_int k"
    by (rule index_loop_Some) (use k assms in \<open>auto simp: memcmp_occurs nat_le_iff\<close>)
  moreover have "nat start \<le> ?m" "?n \<le> ?m - nat start" using k assms(2) by linarith+
  moreover have "c_int k = int k" using k assms(1) by simp
  ultimately show ?thesis
    by (cases "start < 0") (simp_all add: string_index_of_from_def Let_def)
qed

lemma string_index_of_from_0: "string_index_of s t = string_index_of_from s t 0"
  by (simp add: string_index_of_def string_index_of_from_def Let_def)

text \<open>For a string shorter than \<open>2 ^ 31\<close> bytes, \<^verbatim>\<open>string_index_of_from\<close> returns the
  least position at or after the start at which the needle occurs, whether either argument is counted
  or plain, and \<open>-1\<close> exactly when there is no such position; \<^verbatim>\<open>string_index_of\<close> is the search from 0.\<close>

theorem string_index_of_from_correct:
  assumes "str_len (Some s) < 2 ^ 31"
  shows "(string_index_of_from (Some s) (Some t) start = -1 \<longleftrightarrow>
            (\<nexists>i. start \<le> int i \<and> occurs_at (text_of (Some t)) (text_of (Some s)) i))
       \<and> (\<forall>k. string_index_of_from (Some s) (Some t) start = int k \<longleftrightarrow>
            start \<le> int k \<and> occurs_at (text_of (Some t)) (text_of (Some s)) k
            \<and> (\<nexists>i. start \<le> int i \<and> i < k \<and> occurs_at (text_of (Some t)) (text_of (Some s)) i))
       \<and> string_index_of (Some s) (Some t) = string_index_of_from (Some s) (Some t) 0"
proof (cases "\<exists>i. start \<le> int i \<and> occurs_at (text_of (Some t)) (text_of (Some s)) i")
  case True
  let ?P = "\<lambda>i. start \<le> int i \<and> occurs_at (text_of (Some t)) (text_of (Some s)) i"
  define k where "k = (LEAST i. ?P i)"
  have k: "?P k" using True unfolding k_def by (metis (mono_tags, lifting) LeastI_ex)
  have m: "\<not> ?P i" if "i < k" for i using that not_less_Least unfolding k_def by blast
  have r: "string_index_of_from (Some s) (Some t) start = int k"
    by (rule string_index_of_from_Some) (use assms k m in blast)+
  have "int k = int k' \<longleftrightarrow> ?P k' \<and> (\<nexists>i. ?P i \<and> i < k')" for k'
    using k m by (metis linorder_neqE_nat of_nat_eq_iff)
  then show ?thesis unfolding r string_index_of_from_0 using k by auto
next
  case False
  then have r: "string_index_of_from (Some s) (Some t) start = -1"
    by (intro string_index_of_from_None) blast
  show ?thesis unfolding r string_index_of_from_0 using False by simp
qed

theorem string_index_of_from_correct_witness:
  "string_index_of_from (Some (Wrapped [97, 0, 98, 97, 0])) (Some (Wrapped [97, 0])) 1 = int 3
   \<and> str_len (Some (Wrapped [97, 0, 98, 97, 0])) < 2 ^ 31"
proof -
  have *: "str_len (Some (Wrapped [97, 0, 98, 97, 0])) < 2 ^ 31" by simp
  have "occurs_at [97, 0] [97, 0, 98, 97, 0] 3" "\<not> occurs_at [97, 0] [97, 0, 98, 97, 0] 1"
    "\<not> occurs_at [97, 0] [97, 0, 98, 97, 0] 2" by (simp_all add: occurs_at_def)
  moreover have "i = 1 \<or> i = 2" if "1 \<le> int i" "i < 3" for i :: nat using that by linarith
  ultimately have "string_index_of_from (Some (Wrapped [97, 0, 98, 97, 0])) (Some (Wrapped [97, 0])) 1 = int 3"
    using conjunct1 [OF conjunct2 [OF string_index_of_from_correct [OF *, where t = "Wrapped [97, 0]" and start = 1]]]
    unfolding text_of_simps by (metis numeral_One of_nat_le_iff of_nat_numeral one_le_numeral)
  then show ?thesis using * by simp
qed

subsection \<open>Numbers read back as printed\<close>

lemma decimal_digits: "c \<in> set (decimal n) \<Longrightarrow> is_digit c"
proof (induction n rule: decimal.induct)
  case (1 n)
  then show ?case by (subst (asm) (2) decimal.simps) (auto simp: is_digit_def split: if_splits)
qed

lemma decimal_nonempty: "decimal n \<noteq> []"
  by (subst decimal.simps) simp

lemma decimal_value: "foldl (\<lambda>a c. 10 * a + (int c - 48)) 0 (decimal n) = int n"
proof (induction n rule: decimal.induct)
  case (1 n)
  show ?case
  proof (cases "n < 10")
    case False
    then show ?thesis using 1 by (subst decimal.simps) (simp, presburger)
  qed (subst decimal.simps, simp)
qed

lemma length_decimal: "n < 10 ^ k \<Longrightarrow> 0 < k \<Longrightarrow> length (decimal n) \<le> k"
proof (induction n arbitrary: k rule: decimal.induct)
  case (1 n)
  show ?case
  proof (cases "n < 10")
    case True then show ?thesis using 1 by (subst decimal.simps) simp
  next
    case False
    then obtain j where j: "k = Suc j" "0 < j" using "1.prems"
      by (cases k) (auto, metis mult.right_neutral neq0_conv power_0)
    then have "n div 10 < 10 ^ j" using "1.prems" by (simp add: less_mult_imp_div_less mult.commute)
    then show ?thesis using 1 False j by (subst decimal.simps) simp
  qed
qed

lemma digit_props: "is_digit c \<Longrightarrow> \<not> isspace c \<and> c \<noteq> 0 \<and> c \<noteq> 45 \<and> c \<noteq> 43"
  by (auto simp: is_digit_def isspace_def)

lemma decimal_takeWhile: "takeWhile is_digit (decimal n) = decimal n" "dropWhile is_digit (decimal n) = []"
  using decimal_digits by (auto simp: takeWhile_eq_all_conv dropWhile_eq_Nil_conv)

lemma hd_decimal: "is_digit (hd (decimal n))"
  using decimal_digits [OF hd_in_set [OF decimal_nonempty]] .

lemma strtol_print_int:
  assumes "- (2 ^ 63) \<le> v" "v < 2 ^ 63"
  shows "strtol (print_int v) = Some (v, False, [])"
proof -
  have d: "dropWhile isspace (decimal n) = decimal n" for n
    using decimal_nonempty [of n] hd_decimal [of n] digit_props by (cases "decimal n") auto
  show ?thesis
  proof (cases "v < 0")
    case True
    then have "dropWhile isspace (print_int v) = 45 # decimal (nat (- v))"
      by (simp add: print_int_def isspace_def)
    then show ?thesis using True assms
      by (simp add: strtol_def Let_def decimal_takeWhile decimal_value decimal_nonempty)
  next
    case False
    then have "dropWhile isspace (print_int v) = decimal (nat v)" by (simp add: print_int_def d)
    then show ?thesis using False assms hd_decimal [of "nat v"] digit_props [OF hd_decimal [of "nat v"]]
      by (simp add: strtol_def Let_def decimal_takeWhile decimal_value decimal_nonempty)
  qed
qed

lemma print_int_nonzero: "c \<in> set (print_int v) \<Longrightarrow> c \<noteq> 0"
  using decimal_digits digit_props by (auto simp: print_int_def split: if_splits)

lemma print_int_nonempty: "print_int v \<noteq> []"
  by (simp add: print_int_def decimal_nonempty)

lemma length_print_int:
  assumes "- (2 ^ 63) \<le> v" "v < 2 ^ 63"
  shows "length (print_int v) \<le> 20"
proof -
  have "nat (- v) < 10 ^ 19" "nat v < 10 ^ 19" using assms by (simp_all add: nat_less_iff)
  then show ?thesis
    using length_decimal [of "nat (- v)" 19] length_decimal [of "nat v" 19] by (simp add: print_int_def)
qed

lemma string_from_long_eq:
  assumes "- (2 ^ 63) \<le> v" "v < 2 ^ 63" "\<And>n. n \<le> 32 \<Longrightarrow> malloc_ok n"
  shows "string_from_long malloc_ok v = Some (Wrapped (print_int v))"
proof -
  have "strlen (print_int v) = length (print_int v)"
    using print_int_nonzero [of _ v] by (simp add: strlen_def takeWhile_eq_all_conv [THEN iffD2])
  then show ?thesis
    using assms(3) [of 32] assms(3) [of "length (print_int v) + 1"] length_print_int [OF assms(1,2)]
    by (simp add: string_from_long_def string_new_def string_new_with_length_def sizeof_AetherString_def)
qed

lemma print_int_data:
  "takeWhile (\<lambda>c. c \<noteq> 0) (str_data (Some (Wrapped (print_int v)))) = print_int v"
  "str_data (Some (Wrapped (print_int v))) ! 0 \<noteq> 0"
proof -
  show "takeWhile (\<lambda>c. c \<noteq> 0) (str_data (Some (Wrapped (print_int v)))) = print_int v"
    using print_int_nonzero [of _ v] by (simp add: takeWhile_append2)
  have "print_int v ! 0 \<in> set (print_int v)" by (simp add: print_int_nonempty)
  from print_int_nonzero [OF this] show "str_data (Some (Wrapped (print_int v))) ! 0 \<noteq> 0"
    by (simp add: nth_append print_int_nonempty)
qed

lemma string_from_int_eq: "string_from_int malloc_ok v = string_from_long malloc_ok (signed_take_bit 31 v)"
  by (simp add: string_from_int_def string_from_long_def)

text \<open>C32. Every \<^verbatim>\<open>long long\<close> printed by \<^verbatim>\<open>string_from_long\<close> fits the 32-byte buffer
  with its terminator and is read back by \<^verbatim>\<open>string_to_long_raw\<close> as the same number, when the two
  small allocations are granted.  Read as an \<^verbatim>\<open>int\<close> the same text gives the number when it is in the
  32-bit range and is refused otherwise.  \<^verbatim>\<open>string_from_int\<close> prints its argument truncated to 32 bits,
  and \<^verbatim>\<open>string_to_int_raw\<close> reads that value back.\<close>

theorem string_number_roundtrip:
  assumes "- (2 ^ 63) \<le> v" "v < 2 ^ 63" "\<And>n. n \<le> 32 \<Longrightarrow> malloc_ok n"
  shows "length (print_int v) < 32
       \<and> string_to_long_raw (string_from_long malloc_ok v) = Some v
       \<and> string_to_int_raw (string_from_long malloc_ok v) =
           (if - (2 ^ 31) \<le> v \<and> v < 2 ^ 31 then Some v else None)
       \<and> string_to_int_raw (string_from_int malloc_ok v) = Some (signed_take_bit 31 v)"
proof -
  let ?w = "signed_take_bit 31 v"
  have w: "- (2 ^ 31) \<le> ?w" "?w < 2 ^ 31"
    using signed_take_bit_int_greater_eq_minus_exp [of 31 v] signed_take_bit_int_less_exp [of 31 v] by auto
  then have w63: "- (2 ^ 63) \<le> ?w" "?w < 2 ^ 63" by auto
  note simps = string_from_long_eq [OF assms] strtol_print_int [OF assms(1,2)]
    string_from_long_eq [OF w63 assms(3)] strtol_print_int [OF w63] print_int_data
  show ?thesis
    using length_print_int [OF assms(1,2)] w
    by (simp add: string_from_int_eq string_to_long_raw_def string_to_int_raw_def simps Let_def del: str_data.simps neq0_conv)
qed

theorem string_number_roundtrip_witness:
  "string_to_long_raw (string_from_long (\<lambda>n. n \<le> 32) 4294967297) = Some 4294967297
   \<and> string_to_int_raw (string_from_long (\<lambda>n. n \<le> 32) 4294967297) = None
   \<and> string_to_int_raw (string_from_int (\<lambda>n. n \<le> 32) 4294967297) = Some 1"
  using string_number_roundtrip [where v = 4294967297 and malloc_ok = "\<lambda>n. n \<le> 32"] by simp

subsection \<open>Splitting\<close>

fun join :: "bytes \<Rightarrow> bytes list \<Rightarrow> bytes" where
  "join d [] = []"
| "join d [p] = p"
| "join d (p # q # ps) = p @ d @ join d (q # ps)"

lemma join_Cons: "qs \<noteq> [] \<Longrightarrow> join d (q # qs) = q @ d @ join d qs"
  by (cases qs) simp_all

lemma string_new_cases:
  assumes "start + n \<le> length T"
  shows "string_new_with_length malloc_ok (drop start (T @ Z)) n = None \<and> \<not> (\<forall>n. malloc_ok n)
       \<or> string_new_with_length malloc_ok (drop start (T @ Z)) n = Some (Wrapped (take n (drop start T)))"
  using assms by (auto simp: string_new_with_length_def)

lemma memcmp_occurs_plain:
  assumes "i + length D \<le> length T"
  shows "memcmp_eq (T @ Z) i (D @ Z') (length D) \<longleftrightarrow> occurs_at D T i"
  using assms by (auto simp: memcmp_eq_def occurs_at_def)

lemma occurs_at_part:
  assumes "occurs_at D (take n (drop start T)) j" "start + n \<le> length T"
  shows "occurs_at D T (start + j) \<and> start + j + length D \<le> start + n"
proof -
  have "j + length D \<le> n" using assms by (simp add: occurs_at_def)
  then show ?thesis using assms by (auto simp: occurs_at_def drop_take min_def add.commute split: if_splits)
qed

lemma occurs_at_split:
  assumes "occurs_at D T i" "start \<le> i"
  shows "take (i - start) (drop start T) @ D @ drop (i + length D) T = drop start T"
proof -
  have "D @ drop (i + length D) T = drop i T"
    using assms(1) by (metis add.commute append_take_drop_id drop_drop occurs_at_def)
  then show ?thesis using assms(2)
    by (metis append_take_drop_id drop_drop le_add_diff_inverse2)
qed

lemma split_loop_pieces:
  assumes "D \<noteq> []" "length D \<le> length T" "start \<le> i" "i \<le> length T"
    and "\<And>j. \<lbrakk>start \<le> j; j < i\<rbrakk> \<Longrightarrow> \<not> occurs_at D T j"
  shows "\<exists>qs. qs \<noteq> [] \<and> join D qs = drop start T \<and> (\<forall>q \<in> set qs. \<nexists>j. occurs_at D q j)
       \<and> split_count (T @ Z) (D @ Z') (length D) (length T - length D) i c + 1 = c + length qs
       \<and> (let r = split_loop malloc_ok (T @ Z) (length T) (D @ Z') (length D) (length T - length D) start i ps
          in r = None \<and> \<not> (\<forall>n. malloc_ok n) \<or> r = Some (ps @ map Wrapped qs))"
  using assms(3-)
proof (induction "Suc (length T) - i" arbitrary: start i ps c rule: less_induct)
  case less
  let ?n = "length D" and ?m = "length T"
  have D: "0 < ?n" using assms(1) by simp
  note unf = split_loop.simps [of malloc_ok "T @ Z" ?m "D @ Z'" ?n "?m - ?n" start i ps]
    split_count.simps [of "T @ Z" "D @ Z'" ?n "?m - ?n" i c]
  consider (miss) "i \<le> ?m - ?n" "\<not> occurs_at D T i" | (hit) "i \<le> ?m - ?n" "occurs_at D T i" | (stop) "i > ?m - ?n"
    by fastforce
  then show ?case
  proof cases
    case miss
    then have "i + ?n \<le> ?m" using assms(2) by linarith
    note m = memcmp_occurs_plain [OF this, of Z Z']
    have "\<not> occurs_at D T j" if "start \<le> j" "j < i + 1" for j
      using that miss(2) less.prems(3) [of j] by (cases "j = i") auto
    then show ?thesis unfolding unf
      using less.hyps [of "i + 1" start c ps] miss m D less.prems(1,2) \<open>i + ?n \<le> ?m\<close> by simp
  next
    case stop
    let ?q = "drop start T"
    have "\<nexists>j. occurs_at D ?q j"
      using occurs_at_part [of D "?m - start" start T] less.prems stop by fastforce
    then show ?thesis unfolding unf
      using stop less.prems string_new_cases [of start "?m - start" T malloc_ok Z]
      by (intro exI [of _ "[?q]"]) (auto simp: Let_def)
  next
    case hit
    then have le: "i + ?n \<le> ?m" using assms(2) by linarith
    let ?q = "take (i - start) (drop start T)"
    have lt: "Suc ?m - (i + ?n) < Suc ?m - i" using D le by linarith
    have no: "\<not> occurs_at D T j" if "i + ?n \<le> j" "j < i + ?n" for j using that by simp
    obtain qs where qs: "qs \<noteq> []" "join D qs = drop (i + ?n) T" "\<forall>q \<in> set qs. \<nexists>j. occurs_at D q j"
      "split_count (T @ Z) (D @ Z') ?n (?m - ?n) (i + ?n) (c + 1) + 1 = c + 1 + length qs"
      "let r = split_loop malloc_ok (T @ Z) ?m (D @ Z') ?n (?m - ?n) (i + ?n) (i + ?n) (ps @ [Wrapped ?q])
       in r = None \<and> \<not> (\<forall>n. malloc_ok n) \<or> r = Some ((ps @ [Wrapped ?q]) @ map Wrapped qs)"
      using less.hyps [OF lt order_refl le no, of "c + 1" "ps @ [Wrapped ?q]"] by blast
    have "\<not> occurs_at D ?q j" for j
    proof
      assume "occurs_at D ?q j"
      from occurs_at_part [OF this] less.prems(1,2)
      have "occurs_at D T (start + j)" "start + j + ?n \<le> i" by simp_all
      then show False using less.prems(3) [of "start + j"] D by simp
    qed
    moreover have "join D (?q # qs) = drop start T"
      using qs(1,2) occurs_at_split [OF hit(2)] less.prems by (simp add: join_Cons)
    moreover have next_i: "i + (?n - 1) + 1 = i + ?n" using D by simp
    ultimately show ?thesis unfolding unf next_i
      using hit qs memcmp_occurs_plain [OF le, of Z Z'] string_new_cases [of start "i - start" T malloc_ok Z] less.prems le
      by (intro exI [of _ "?q # qs"]) (auto simp: Let_def)
  qed
qed

lemma bytes_pieces_cases:
  "bytes_pieces malloc_ok cs = None \<and> \<not> (\<forall>n. malloc_ok n)
   \<or> bytes_pieces malloc_ok cs = Some (map (\<lambda>c. Wrapped [c]) cs)"
  by (induction cs) (auto simp: string_new_with_length_def)

lemma str_data_append: "\<exists>Z. str_data s = text_of s @ Z"
  by (metis append_take_drop_id text_of_def)

lemma string_split_cases:
  assumes "strlen d \<noteq> 0"
  shows "\<exists>qs. join (take (strlen d) d) qs = text_of (Some s) \<and> qs \<noteq> []
       \<and> (\<forall>q \<in> set qs. \<nexists>j. occurs_at (take (strlen d) d) q j)
       \<and> (string_split malloc_ok (Some s) (Some d) = None \<and> \<not> (\<forall>n. malloc_ok n)
          \<or> string_split malloc_ok (Some s) (Some d) = Some \<lparr>strings = map Wrapped qs, acount = length qs\<rparr>)"
proof -
  define D where "D = take (strlen d) d"
  define T where "T = text_of (Some s)"
  have n: "strlen d = length D" using strlen_le [of d] by (simp add: D_def)
  have m: "str_len (Some s) = length T" by (simp add: T_def del: text_of_simps str_len.simps)
  obtain Z where Z: "str_data (Some s) = T @ Z" using str_data_append T_def by blast
  obtain Z' where Z': "d = D @ Z'" using D_def append_take_drop_id by metis
  have D: "D \<noteq> []" using assms n by auto
  show ?thesis
  proof (cases "length T < length D")
    case True
    then have "\<nexists>j. occurs_at D T j" by (auto simp: occurs_at_def)
    then show ?thesis unfolding string_split_def Let_def m Z n [symmetric] T_def [symmetric] D_def [symmetric]
      using True n D string_new_cases [of 0 "length T" T malloc_ok Z] by (intro exI [of _ "[T]"]) auto
  next
    case False
    define r where "r = split_loop malloc_ok (T @ Z) (length T) (D @ Z') (length D) (length T - length D) 0 0 []"
    obtain qs where qs: "qs \<noteq> []" "join D qs = T" "\<forall>q \<in> set qs. \<nexists>j. occurs_at D q j"
      "split_count (T @ Z) (D @ Z') (length D) (length T - length D) 0 1 + 1 = 1 + length qs"
      "r = None \<and> \<not> (\<forall>n. malloc_ok n) \<or> r = Some (map Wrapped qs)"
      using split_loop_pieces [of D T 0 0 Z Z' 1 malloc_ok "[]"] D False by (auto simp: Let_def r_def)
    have "string_split malloc_ok (Some s) (Some d) =
      (if \<not> malloc_ok 16 then None else if \<not> malloc_ok (8 * length qs) then None
       else map_option (\<lambda>ps. \<lparr>strings = ps, acount = length qs\<rparr>) r)"
      unfolding string_split_def Let_def m Z option.sel n r_def using qs(4) D False Z' by simp
    then show ?thesis unfolding D_def [symmetric] T_def [symmetric]
      using qs(1,2,3,5) by (intro exI [of _ qs]) auto
  qed
qed

text \<open>C31. Splitting at a non-empty delimiter: joining the pieces with the delimiter gives the text back, no
  piece contains the delimiter, and there is at least one piece.  The count of the first pass, by which the
  array is allocated, is the number of pieces the second pass stores.  The result is \<^verbatim>\<open>NULL\<close> only when
  an allocation is refused, and with an empty delimiter there is one piece for each byte.\<close>

theorem string_split_correct:
  "(strlen d \<noteq> 0 \<longrightarrow>
      (\<exists>qs. join (take (strlen d) d) qs = text_of (Some s) \<and> qs \<noteq> []
        \<and> (\<forall>q \<in> set qs. \<nexists>j. occurs_at (take (strlen d) d) q j)
        \<and> (string_split malloc_ok (Some s) (Some d) \<noteq> None \<longrightarrow>
           string_split malloc_ok (Some s) (Some d) = Some \<lparr>strings = map Wrapped qs, acount = length qs\<rparr>)))
   \<and> (strlen d = 0 \<and> string_split malloc_ok (Some s) (Some d) \<noteq> None \<longrightarrow>
      string_split malloc_ok (Some s) (Some d) =
        Some \<lparr>strings = map (\<lambda>c. Wrapped [c]) (text_of (Some s)), acount = length (text_of (Some s))\<rparr>)
   \<and> ((\<forall>n. malloc_ok n) \<longrightarrow> string_split malloc_ok (Some s) (Some d) \<noteq> None)"
proof (cases "strlen d = 0")
  case True
  have "length (text_of (Some s)) = str_len (Some s)" by (rule length_text_of)
  then show ?thesis using True bytes_pieces_cases [of malloc_ok "text_of (Some s)"]
    by (auto simp: string_split_def Let_def text_of_def simp del: text_of_simps str_len.simps str_data.simps)
next
  case False
  then show ?thesis using string_split_cases [OF False, of s malloc_ok] by auto
qed

theorem string_split_correct_witness:
  "\<exists>qs. join [44, 44] qs = [97, 44, 44, 44] \<and> qs \<noteq> []
     \<and> string_split (\<lambda>n. True) (Some (Plain [97, 44, 44, 44, 0])) (Some [44, 44, 0]) =
         Some \<lparr>strings = map Wrapped qs, acount = length qs\<rparr>"
  using string_split_correct [of "[44, 44, 0]" "Plain [97, 44, 44, 44, 0]" "\<lambda>n. True"]
  by (simp add: strlen_def) blast

subsection \<open>Formatting\<close>

fun format_spec :: "bytes \<Rightarrow> bytes list \<Rightarrow> bytes" where
  "format_spec [] ts = []"
| "format_spec [c] ts = [c]"
| "format_spec (c # d # p) ts =
     (if c = 123 \<and> d = 123 then 123 # format_spec p ts
      else if c = 125 \<and> d = 125 then 125 # format_spec p ts
      else if c = 123 \<and> d = 125 then (case ts of [] \<Rightarrow> format_spec p [] | t # ts' \<Rightarrow> t @ format_spec p ts')
      else c # format_spec (d # p) ts)"

lemma format_write_spec: "format_write p as out = out @ format_spec p (map text_of as)"
  by (induction p as out rule: format_write.induct) (auto simp: text_of_def split: list.splits simp del: text_of_simps)

lemma length_format_spec: "length (format_spec p (map text_of as)) = format_size p as"
  by (induction p as rule: format_size.induct) (auto split: list.splits simp del: text_of_simps)

lemma length_take_strlen: "length (takeWhile (\<lambda>c. c \<noteq> 0) f) = strlen f"
  by (simp add: strlen_def)

definition escape_braces :: "bytes \<Rightarrow> bytes" where
  "escape_braces t = concat (map (\<lambda>c. if c = 123 \<or> c = 125 then [c, c] else [c]) t)"

lemma format_spec_escape: "format_spec (escape_braces t @ p) ts = t @ format_spec p ts"
proof (induction t)
  case (Cons c t)
  have "format_spec (c # q) ts = c # format_spec q ts" if "c \<noteq> 123" "c \<noteq> 125" for q
    using that by (cases q) simp_all
  then show ?case using Cons by (auto simp: escape_braces_def)
qed (simp add: escape_braces_def)

lemma escape_nonzero: "0 \<notin> set t \<Longrightarrow> takeWhile (\<lambda>c. c \<noteq> 0) (escape_braces t) = escape_braces t"
  by (auto simp: escape_braces_def takeWhile_eq_all_conv intro: ccontr)

text \<open>C33. The first pass of \<^verbatim>\<open>string_format_list\<close> computes exactly the number of bytes the second pass
  writes, so the buffer of that size plus the terminator is never overrun; what is written is the format with
  each \<^verbatim>\<open>{}\<close> replaced by the text of the next argument (nothing when the arguments run out) and doubled
  braces made single.  A text whose braces are doubled is reproduced, whatever the arguments.\<close>

theorem string_format_list_correct:
  assumes "\<And>n. malloc_ok n"
  shows "length (format_write (takeWhile (\<lambda>c. c \<noteq> 0) fmt) as []) = format_size (takeWhile (\<lambda>c. c \<noteq> 0) fmt) as
       \<and> string_format_list malloc_ok (Some fmt) as =
           Some (Wrapped (format_spec (takeWhile (\<lambda>c. c \<noteq> 0) fmt) (map text_of as)))
       \<and> (\<forall>t. 0 \<notin> set t \<longrightarrow> string_format_list malloc_ok (Some (escape_braces t)) as = Some (Wrapped t))"
proof -
  have *: "string_format_list malloc_ok (Some f) as =
           Some (Wrapped (format_spec (takeWhile (\<lambda>c. c \<noteq> 0) f) (map text_of as)))" for f
    using assms by (simp add: string_format_list_def Let_def format_write_spec string_new_with_length_def)
  have "format_spec (escape_braces t) ts = t" for t ts
    using format_spec_escape [of t "[]" ts] by simp
  then show ?thesis
    by (simp add: * escape_nonzero format_write_spec length_format_spec del: neq0_conv)
qed

theorem string_format_list_correct_witness:
  "string_format_list (\<lambda>n. True) (Some [97, 123, 125, 123, 123, 123, 125]) [Some (Wrapped [49, 0, 50])]
     = Some (Wrapped [97, 49, 0, 50, 123])"
  using string_format_list_correct [where malloc_ok = "\<lambda>n. True" and fmt = "[97, 123, 125, 123, 123, 123, 125]"
      and as = "[Some (Wrapped [49, 0, 50])]"] by simp

subsection \<open>Trimming and concatenation\<close>

lemma skip_space_spec:
  assumes "start \<le> length T"
  shows "skip_space (T @ Z) (length T) start = start + length (takeWhile isspace (drop start T))"
  using assms
proof (induction "length T - start" arbitrary: start)
  case 0
  then show ?case by (subst skip_space.simps) simp
next
  case (Suc k)
  then have "start < length T" by simp
  moreover have "drop start T = T ! start # drop (start + 1) T" using \<open>start < length T\<close>
    by (simp add: Cons_nth_drop_Suc)
  moreover have "skip_space (T @ Z) (length T) (start + 1) = start + 1 + length (takeWhile isspace (drop (start + 1) T))"
    using Suc by (intro Suc.hyps) auto
  ultimately show ?case by (subst skip_space.simps) (simp add: nth_append)
qed

lemma skip_space_back_spec:
  "\<lbrakk>start \<le> e; e \<le> length T\<rbrakk> \<Longrightarrow>
   take (skip_space_back (T @ Z) start e - start) (drop start T) = rev (dropWhile isspace (rev (drop start (take e T))))
   \<and> start \<le> skip_space_back (T @ Z) start e"
proof (induction e)
  case (Suc e)
  show ?case
  proof (cases "start = Suc e")
    case False
    then have s: "start \<le> e" using Suc.prems by simp
    have "drop start (take (Suc e) T) = drop start (take e T) @ [T ! e]"
      using Suc.prems s by (simp add: take_Suc_conv_app_nth)
    moreover have "take (Suc e - start) (drop start T) = drop start (take (Suc e) T)"
      by (simp add: drop_take)
    ultimately show ?thesis using Suc s by (simp add: nth_append)
  qed simp
qed simp

text \<open>\<^verbatim>\<open>string_trim\<close> removes exactly the leading and trailing white space.\<close>

lemma string_trim_correct:
  assumes "\<And>n. malloc_ok n"
  shows "string_trim malloc_ok (Some s) =
           Some (Plain (rev (dropWhile isspace (rev (dropWhile isspace (text_of (Some s)))))))"
proof -
  define T where "T = text_of (Some s)"
  have m: "str_len (Some s) = length T" by (simp add: T_def del: text_of_simps str_len.simps)
  obtain Z where Z: "str_data (Some s) = T @ Z" using str_data_append T_def by blast
  define st where "st = length (takeWhile isspace T)"
  have "st \<le> length T" by (simp add: st_def length_takeWhile_le)
  moreover have "skip_space (T @ Z) (length T) 0 = st" using skip_space_spec [of 0 T Z] by (simp add: st_def)
  moreover have "drop st T = dropWhile isspace T" by (simp add: st_def dropWhile_eq_drop)
  moreover have "skip_space_back d a e \<le> e" for d a e by (induction d a e rule: skip_space_back.induct) auto
  moreover have "st + length (dropWhile isspace T) = length T"
    using length_append [of "takeWhile isspace T" "dropWhile isspace T"] by (simp add: st_def)
  ultimately show ?thesis
    using assms skip_space_back_spec [of st "length T" T Z]
    unfolding string_trim_def Let_def m Z T_def [symmetric]
    by (auto simp: diff_le_mono)
qed

lemma string_concat_wrapped_correct:
  assumes "\<And>n. malloc_ok n" "str_len (Some a) + str_len (Some b) < 2 ^ 64 - 1"
  shows "string_concat_wrapped malloc_ok (Some a) (Some b) = Some (Wrapped (text_of (Some a) @ text_of (Some b)))"
proof -
  have "int (str_len (Some a)) \<le> 2 ^ 64 - 1 - int (str_len (Some b)) - 1"
    using assms(2) by (simp del: str_len.simps)
  then show ?thesis
    using assms(1) unfolding string_concat_wrapped_def Let_def text_of_def [symmetric]
    by (simp add: string_new_with_length_def del: text_of_simps str_len.simps)
qed

end
