(* ===== verification/AetherLexer.thy ===== *)
theory AetherLexer
  imports AetherStrings
begin

section \<open>The lexer of the Aether compiler\<close>

text \<open>
  Models \<^verbatim>\<open>compiler/parser/lexer.c\<close>, the token data of \<^verbatim>\<open>tokens.h\<close> and the loop of
  \<^verbatim>\<open>aetherc.c\<close> that collects the tokens of a file.  The global variables of the lexer are the record
  \<open>LexerState\<close>; \<open>source\<close> holds the bytes before the terminator.  Every buffer the lexer fills is a
  \<open>lexbuf\<close>: the bytes stored so far, the capacity of the allocation and whether the allocation was
  granted; a store outside the allocation is \<open>Overrun\<close> and one through a null pointer is \<open>Null_store\<close>.
  The theorems on \<open>next_token\<close> also say that the first never happens, and the second only when the unchecked first
  request of a buffer is refused.  \<open>malloc_ok\<close> says which requests the
  C allocator grants; \<open>Oom\<close> is the early return of a refused growth.  Character classes are those of the
  C locale.  Positions and capacities are unbounded numbers: sources are shorter than \<open>2 ^ 29\<close> bytes, so that no
  \<^verbatim>\<open>int\<close> of the lexer wraps (a buffer is doubled only when it is full up to three bytes, and holds at most one byte for
  every byte consumed).  The message that an unterminated comment prints on the error stream is left out.
\<close>

subsection \<open>Tokens\<close>

text \<open>
  The constructors of \<^verbatim>\<open>AeTokenType\<close> in the groups that \<^verbatim>\<open>tokens.h\<close> lists them in.
\<close>

datatype keyword_token =
    TOKEN_ACTOR | TOKEN_MAIN | TOKEN_FUNC | TOKEN_LET | TOKEN_VAR | TOKEN_IF | TOKEN_ELSE
  | TOKEN_FOR | TOKEN_WHILE | TOKEN_SWITCH | TOKEN_CASE | TOKEN_DEFAULT | TOKEN_BREAK
  | TOKEN_CONTINUE | TOKEN_RETURN | TOKEN_DEFER | TOKEN_BUILDER | TOKEN_MATCH | TOKEN_WHEN
  | TOKEN_RECEIVE | TOKEN_SEND | TOKEN_SPAWN_ACTOR | TOKEN_SPAWN | TOKEN_MAKE | TOKEN_SELF
  | TOKEN_STATE | TOKEN_STRUCT | TOKEN_IMPORT | TOKEN_AS | TOKEN_EXPORT | TOKEN_EXPORTS
  | TOKEN_MODULE | TOKEN_MESSAGE_KEYWORD | TOKEN_REPLY | TOKEN_EXCLAIM | TOKEN_QUESTION
  | TOKEN_EXTERN | TOKEN_NULL | TOKEN_CONST | TOKEN_IN | TOKEN_AFTER | TOKEN_CALLBACK | TOKEN_HIDE
  | TOKEN_SEAL | TOKEN_EXCEPT | TOKEN_TRY | TOKEN_CATCH | TOKEN_PANIC

datatype type_token =
    TOKEN_INT | TOKEN_INT64 | TOKEN_UINT64 | TOKEN_FLOAT | TOKEN_BOOL | TOKEN_BYTE | TOKEN_STRING
  | TOKEN_ACTOR_REF | TOKEN_MESSAGE | TOKEN_PTR

datatype literal_token =
    TOKEN_IDENTIFIER | TOKEN_NUMBER | TOKEN_INT64_LITERAL | TOKEN_STRING_LITERAL
  | TOKEN_INTERP_STRING | TOKEN_TRUE | TOKEN_FALSE

datatype operator_token =
    TOKEN_PLUS | TOKEN_MINUS | TOKEN_MULTIPLY | TOKEN_DIVIDE | TOKEN_MODULO | TOKEN_ASSIGN
  | TOKEN_EQUALS | TOKEN_NOT_EQUALS | TOKEN_LESS | TOKEN_LESS_EQUAL | TOKEN_GREATER
  | TOKEN_GREATER_EQUAL | TOKEN_AND | TOKEN_OR | TOKEN_NOT | TOKEN_INCREMENT | TOKEN_DECREMENT
  | TOKEN_AMPERSAND | TOKEN_CARET | TOKEN_TILDE | TOKEN_LSHIFT | TOKEN_RSHIFT | TOKEN_PLUS_ASSIGN
  | TOKEN_MINUS_ASSIGN | TOKEN_MULTIPLY_ASSIGN | TOKEN_DIVIDE_ASSIGN | TOKEN_MODULO_ASSIGN
  | TOKEN_AND_ASSIGN | TOKEN_OR_ASSIGN | TOKEN_XOR_ASSIGN | TOKEN_LSHIFT_ASSIGN
  | TOKEN_RSHIFT_ASSIGN | TOKEN_DOTDOT

datatype delimiter_token =
    TOKEN_LEFT_PAREN | TOKEN_RIGHT_PAREN | TOKEN_LEFT_BRACE | TOKEN_RIGHT_BRACE
  | TOKEN_LEFT_BRACKET | TOKEN_RIGHT_BRACKET | TOKEN_SEMICOLON | TOKEN_COMMA | TOKEN_DOT
  | TOKEN_COLON | TOKEN_ARROW | TOKEN_PIPE | TOKEN_AT

datatype special_token =
    TOKEN_PRINT | TOKEN_EOF | TOKEN_ERROR

datatype AeTokenType = Keyword keyword_token | TypeName type_token | Literal literal_token
  | Operator operator_token | Delimiter delimiter_token | Special special_token

record Token =
  tok_type :: AeTokenType
  tok_value :: "bytes option"
  tok_line :: nat
  tok_column :: nat

definition ascii :: "string \<Rightarrow> bytes" where
  "ascii t = map of_char t"

definition sizeof_Token :: nat where
  "sizeof_Token = 24"

definition create_token :: "(nat \<Rightarrow> bool) \<Rightarrow> AeTokenType \<Rightarrow> bytes option \<Rightarrow> nat \<Rightarrow> nat \<Rightarrow> Token option" where
  "create_token malloc_ok ty v l c =
     (if \<not> malloc_ok sizeof_Token then None
      else case v of
          None \<Rightarrow> Some \<lparr>tok_type = ty, tok_value = None, tok_line = l, tok_column = c\<rparr>
        | Some m \<Rightarrow>
            (if \<not> malloc_ok (strlen m + 1) then None
             else Some \<lparr>tok_type = ty, tok_value = Some (take (strlen m) m), tok_line = l, tok_column = c\<rparr>))"

definition token_names :: "(AeTokenType \<times> string) list" where
  "token_names = [
    (Keyword TOKEN_ACTOR, ''ACTOR''), (Keyword TOKEN_MAIN, ''MAIN''), (Keyword TOKEN_FUNC, ''FUNC''),
    (Keyword TOKEN_LET, ''LET''), (Keyword TOKEN_VAR, ''VAR''), (Keyword TOKEN_IF, ''IF''),
    (Keyword TOKEN_ELSE, ''ELSE''), (Keyword TOKEN_FOR, ''FOR''), (Keyword TOKEN_WHILE, ''WHILE''),
    (Keyword TOKEN_SWITCH, ''SWITCH''), (Keyword TOKEN_CASE, ''CASE''),
    (Keyword TOKEN_DEFAULT, ''DEFAULT''), (Keyword TOKEN_BREAK, ''BREAK''),
    (Keyword TOKEN_CONTINUE, ''CONTINUE''), (Keyword TOKEN_RETURN, ''RETURN''),
    (Keyword TOKEN_BUILDER, ''BUILDER''), (Keyword TOKEN_MATCH, ''MATCH''),
    (Keyword TOKEN_WHEN, ''WHEN''), (Keyword TOKEN_RECEIVE, ''RECEIVE''),
    (Keyword TOKEN_SEND, ''SEND''), (Keyword TOKEN_SPAWN_ACTOR, ''SPAWN_ACTOR''),
    (Keyword TOKEN_SPAWN, ''SPAWN''), (Keyword TOKEN_SELF, ''SELF''), (Keyword TOKEN_STATE, ''STATE''),
    (Keyword TOKEN_STRUCT, ''STRUCT''), (Keyword TOKEN_IMPORT, ''IMPORT''), (Keyword TOKEN_AS, ''AS''),
    (Keyword TOKEN_EXPORT, ''EXPORT''), (Keyword TOKEN_EXPORTS, ''EXPORTS''),
    (Keyword TOKEN_MODULE, ''MODULE''), (Keyword TOKEN_MESSAGE_KEYWORD, ''MESSAGE_KEYWORD''),
    (Keyword TOKEN_REPLY, ''REPLY''), (TypeName TOKEN_INT, ''INT''), (TypeName TOKEN_FLOAT, ''FLOAT''),
    (TypeName TOKEN_BOOL, ''BOOL''), (TypeName TOKEN_BYTE, ''BYTE''),
    (TypeName TOKEN_STRING, ''STRING''), (TypeName TOKEN_ACTOR_REF, ''ACTOR_REF''),
    (TypeName TOKEN_MESSAGE, ''MESSAGE''), (Literal TOKEN_IDENTIFIER, ''IDENTIFIER''),
    (Literal TOKEN_NUMBER, ''NUMBER''), (Literal TOKEN_INT64_LITERAL, ''INT64_LITERAL''),
    (Literal TOKEN_STRING_LITERAL, ''STRING_LITERAL''), (Literal TOKEN_TRUE, ''TRUE''),
    (Literal TOKEN_FALSE, ''FALSE''), (Operator TOKEN_PLUS, ''PLUS''),
    (Operator TOKEN_MINUS, ''MINUS''), (Operator TOKEN_MULTIPLY, ''MULTIPLY''),
    (Operator TOKEN_DIVIDE, ''DIVIDE''), (Operator TOKEN_MODULO, ''MODULO''),
    (Operator TOKEN_ASSIGN, ''ASSIGN''), (Operator TOKEN_EQUALS, ''EQUALS''),
    (Operator TOKEN_NOT_EQUALS, ''NOT_EQUALS''), (Operator TOKEN_LESS, ''LESS''),
    (Operator TOKEN_LESS_EQUAL, ''LESS_EQUAL''), (Operator TOKEN_GREATER, ''GREATER''),
    (Operator TOKEN_GREATER_EQUAL, ''GREATER_EQUAL''), (Operator TOKEN_AND, ''AND''),
    (Operator TOKEN_OR, ''OR''), (Operator TOKEN_NOT, ''NOT''),
    (Operator TOKEN_INCREMENT, ''INCREMENT''), (Operator TOKEN_DECREMENT, ''DECREMENT''),
    (Operator TOKEN_AMPERSAND, ''AMPERSAND''), (Operator TOKEN_CARET, ''CARET''),
    (Operator TOKEN_TILDE, ''TILDE''), (Operator TOKEN_LSHIFT, ''LSHIFT''),
    (Operator TOKEN_RSHIFT, ''RSHIFT''), (Operator TOKEN_PLUS_ASSIGN, ''PLUS_ASSIGN''),
    (Operator TOKEN_MINUS_ASSIGN, ''MINUS_ASSIGN''),
    (Operator TOKEN_MULTIPLY_ASSIGN, ''MULTIPLY_ASSIGN''),
    (Operator TOKEN_DIVIDE_ASSIGN, ''DIVIDE_ASSIGN''),
    (Operator TOKEN_MODULO_ASSIGN, ''MODULO_ASSIGN''), (Operator TOKEN_AND_ASSIGN, ''AND_ASSIGN''),
    (Operator TOKEN_OR_ASSIGN, ''OR_ASSIGN''), (Operator TOKEN_XOR_ASSIGN, ''XOR_ASSIGN''),
    (Operator TOKEN_LSHIFT_ASSIGN, ''LSHIFT_ASSIGN''),
    (Operator TOKEN_RSHIFT_ASSIGN, ''RSHIFT_ASSIGN''), (Keyword TOKEN_NULL, ''NULL''),
    (Keyword TOKEN_CALLBACK, ''CALLBACK''), (Keyword TOKEN_IN, ''IN''),
    (Operator TOKEN_DOTDOT, ''DOTDOT''), (Keyword TOKEN_CONST, ''CONST''),
    (Keyword TOKEN_TRY, ''TRY''), (Keyword TOKEN_CATCH, ''CATCH''), (Keyword TOKEN_PANIC, ''PANIC''),
    (Delimiter TOKEN_LEFT_PAREN, ''LEFT_PAREN''), (Delimiter TOKEN_RIGHT_PAREN, ''RIGHT_PAREN''),
    (Delimiter TOKEN_LEFT_BRACE, ''LEFT_BRACE''), (Delimiter TOKEN_RIGHT_BRACE, ''RIGHT_BRACE''),
    (Delimiter TOKEN_LEFT_BRACKET, ''LEFT_BRACKET''),
    (Delimiter TOKEN_RIGHT_BRACKET, ''RIGHT_BRACKET''), (Delimiter TOKEN_SEMICOLON, ''SEMICOLON''),
    (Delimiter TOKEN_COMMA, ''COMMA''), (Delimiter TOKEN_DOT, ''DOT''),
    (Delimiter TOKEN_COLON, ''COLON''), (Delimiter TOKEN_ARROW, ''ARROW''),
    (Delimiter TOKEN_PIPE, ''PIPE''), (Delimiter TOKEN_AT, ''AT''),
    (Keyword TOKEN_EXCLAIM, ''EXCLAIM''), (Keyword TOKEN_QUESTION, ''QUESTION''),
    (Special TOKEN_PRINT, ''PRINT''), (Special TOKEN_EOF, ''EOF''), (Special TOKEN_ERROR, ''ERROR'')]"

definition token_type_to_string :: "AeTokenType \<Rightarrow> string" where
  "token_type_to_string ty = (case map_of token_names ty of Some n \<Rightarrow> n | None \<Rightarrow> ''UNKNOWN'')"

subsection \<open>Lexer state\<close>

record LexerState =
  source :: bytes
  source_length :: nat
  current_pos :: nat
  current_line :: nat
  current_column :: nat

text \<open>
  The length is converted to \<^verbatim>\<open>int\<close>; a negative one, like \<open>0\<close>, makes the lexer stand at the end.
\<close>

definition lexer_init :: "bytes \<Rightarrow> LexerState" where
  "lexer_init src =
     \<lparr>source = takeWhile (\<lambda>c. c \<noteq> 0) src, source_length = nat (signed_take_bit 31 (int (strlen src))),
      current_pos = 0, current_line = 1, current_column = 1\<rparr>"

definition lexer_save :: "LexerState \<Rightarrow> LexerState" where
  "lexer_save s =
     \<lparr>source = source s, source_length = source_length s,
      current_pos = current_pos s, current_line = current_line s, current_column = current_column s\<rparr>"

definition lexer_restore :: "LexerState \<Rightarrow> LexerState \<Rightarrow> LexerState" where
  "lexer_restore saved s =
     s\<lparr>source := source saved, source_length := source_length saved, current_pos := current_pos saved,
       current_line := current_line saved, current_column := current_column saved\<rparr>"

definition at_end :: "LexerState \<Rightarrow> bool" where
  "at_end s \<longleftrightarrow> source_length s \<le> current_pos s"

definition peek :: "LexerState \<Rightarrow> nat" where
  "peek s = (if at_end s then 0 else source s ! current_pos s)"

text \<open>
  \<open>next_is c s\<close> is the lookahead \<^verbatim>\<open>current_pos + 1 < source_length && source[current_pos + 1] == c\<close>.
\<close>

definition next_is :: "nat \<Rightarrow> LexerState \<Rightarrow> bool" where
  "next_is c s \<longleftrightarrow> current_pos s + 1 < source_length s \<and> source s ! (current_pos s + 1) = c"

definition advance :: "LexerState \<Rightarrow> LexerState" where
  "advance s =
     (if at_end s then s
      else if peek s = 10
      then s\<lparr>current_pos := current_pos s + 1, current_line := current_line s + 1, current_column := 1\<rparr>
      else s\<lparr>current_pos := current_pos s + 1, current_column := current_column s + 1\<rparr>)"

text \<open>
  The C function also returns the character it passes, which is \<open>peek\<close> of the state before.
\<close>

definition bytes_left :: "LexerState \<Rightarrow> nat" where
  "bytes_left s = source_length s - current_pos s"

lemma advance_bytes_left [simp]: "\<not> at_end s \<Longrightarrow> bytes_left (advance s) < bytes_left s"
  by (simp add: advance_def bytes_left_def at_end_def)

lemma advance_bytes_left_le [simp]: "bytes_left (advance s) \<le> bytes_left s"
  by (auto simp: advance_def bytes_left_def)

subsection \<open>White space and comments\<close>

function skip_whitespace :: "LexerState \<Rightarrow> LexerState" where
  "skip_whitespace s =
     (if \<not> at_end s \<and> peek s \<in> {32, 9, 13, 10} then skip_whitespace (advance s) else s)"
  by auto
termination by (relation "measure bytes_left") auto

function skip_line :: "LexerState \<Rightarrow> LexerState" where
  "skip_line s = (if \<not> at_end s \<and> peek s \<noteq> 10 then skip_line (advance s) else s)"
  by auto
termination by (relation "measure bytes_left") auto

function skip_block :: "LexerState \<Rightarrow> LexerState" where
  "skip_block s =
     (if at_end s then s
      else if peek s = 42 \<and> next_is 47 s then advance (advance s)
      else skip_block (advance s))"
  by auto
termination by (relation "measure bytes_left") auto

declare skip_whitespace.simps [simp del] skip_line.simps [simp del] skip_block.simps [simp del]

definition skip_comment :: "LexerState \<Rightarrow> LexerState option" where
  "skip_comment s =
     (if peek s = 47 \<and> next_is 47 s then Some (skip_line s)
      else if peek s = 47 \<and> next_is 42 s then Some (skip_block (advance (advance s)))
      else None)"

subsection \<open>Buffers\<close>

record lexbuf =
  stored :: bytes
  capacity :: nat
  allocated :: bool

datatype 'a lexed = Lexed 'a | Oom LexerState | Overrun | Null_store

definition new_buffer :: "(nat \<Rightarrow> bool) \<Rightarrow> nat \<Rightarrow> lexbuf" where
  "new_buffer malloc_ok n = \<lparr>stored = [], capacity = n, allocated = malloc_ok n\<rparr>"

definition put :: "nat \<Rightarrow> lexbuf \<Rightarrow> lexbuf lexed" where
  "put c b =
     (if \<not> allocated b then Null_store
      else if length (stored b) < capacity b then Lexed (b\<lparr>stored := stored b @ [c]\<rparr>)
      else Overrun)"

text \<open>
  \<open>grow m\<close> is \<^verbatim>\<open>if (i >= capacity - m) { capacity *= 2; realloc(buffer, capacity); ... }\<close>.
\<close>

definition grow :: "(nat \<Rightarrow> bool) \<Rightarrow> nat \<Rightarrow> LexerState \<Rightarrow> lexbuf \<Rightarrow> lexbuf lexed" where
  "grow malloc_ok m s b =
     (if capacity b - m \<le> length (stored b)
      then if malloc_ok (2 * capacity b) then Lexed (b\<lparr>capacity := 2 * capacity b, allocated := True\<rparr>)
           else Oom s
      else Lexed b)"

fun and_then :: "'a lexed \<Rightarrow> ('a \<Rightarrow> 'b lexed) \<Rightarrow> 'b lexed" where
  "and_then (Lexed x) f = f x"
| "and_then (Oom s) f = Oom s"
| "and_then Overrun f = Overrun"
| "and_then Null_store f = Null_store"

text \<open>
  \<open>finish\<close> is the end of every reader: the terminator is stored, the token is made from the buffer.
\<close>

definition finish ::
  "(nat \<Rightarrow> bool) \<Rightarrow> AeTokenType \<Rightarrow> lexbuf \<Rightarrow> LexerState \<Rightarrow> (Token option \<times> LexerState) lexed" where
  "finish malloc_ok ty b s =
     and_then (put 0 b) (\<lambda>b'.
       Lexed (create_token malloc_ok ty (Some (stored b')) (current_line s) (current_column s), s))"

definition oom_token ::
  "(nat \<Rightarrow> bool) \<Rightarrow> string \<Rightarrow> (Token option \<times> LexerState) lexed \<Rightarrow> (Token option \<times> LexerState) lexed" where
  "oom_token malloc_ok msg r =
     (case r of
        Oom s \<Rightarrow> Lexed (create_token malloc_ok (Special TOKEN_ERROR) (Some (ascii msg))
                          (current_line s) (current_column s), s)
      | _ \<Rightarrow> r)"

subsection \<open>String literals\<close>

definition is_xdigit :: "nat \<Rightarrow> bool" where
  "is_xdigit c \<longleftrightarrow> is_digit c \<or> 65 \<le> c \<and> c \<le> 70 \<or> 97 \<le> c \<and> c \<le> 102"

definition is_octal :: "nat \<Rightarrow> bool" where
  "is_octal c \<longleftrightarrow> 48 \<le> c \<and> c \<le> 55"

definition digit_value :: "nat \<Rightarrow> nat" where
  "digit_value h = (if 97 \<le> h then h - 97 + 10 else if 65 \<le> h then h - 65 + 10 else h - 48)"

fun copy_digits ::
  "(nat \<Rightarrow> bool) \<Rightarrow> (nat \<Rightarrow> bool) \<Rightarrow> nat \<Rightarrow> LexerState \<Rightarrow> lexbuf \<Rightarrow> (LexerState \<times> lexbuf) lexed" where
  "copy_digits malloc_ok is_dig 0 s b = Lexed (s, b)"
| "copy_digits malloc_ok is_dig (Suc n) s b =
     (if \<not> at_end s \<and> is_dig (peek s)
      then and_then (grow malloc_ok 3 s b) (\<lambda>b1.
           and_then (put (peek s) b1) (\<lambda>b2.
           copy_digits malloc_ok is_dig n (advance s) b2))
      else Lexed (s, b))"

fun read_digits :: "(nat \<Rightarrow> bool) \<Rightarrow> nat \<Rightarrow> nat \<Rightarrow> LexerState \<Rightarrow> nat \<Rightarrow> nat \<Rightarrow> LexerState \<times> nat \<times> nat" where
  "read_digits is_dig base 0 s val digits = (s, val, digits)"
| "read_digits is_dig base (Suc n) s val digits =
     (if \<not> at_end s \<and> is_dig (peek s)
      then read_digits is_dig base n (advance s) (val * base + digit_value (peek s)) (digits + 1)
      else (s, val, digits))"

definition raw_escape :: "(nat \<Rightarrow> bool) \<Rightarrow> LexerState \<Rightarrow> lexbuf \<Rightarrow> (LexerState \<times> lexbuf) lexed" where
  "raw_escape malloc_ok s b =
     and_then (put (peek s) b) (\<lambda>b1.
       let s1 = advance s; esc = peek s1
       in if at_end s1 then Lexed (s1, b1)
          else and_then (put esc b1) (\<lambda>b2.
               if esc = 120 then copy_digits malloc_ok is_xdigit 2 (advance s1) b2
               else if is_octal esc then copy_digits malloc_ok is_octal 2 (advance s1) b2
               else Lexed (advance s1, b2)))"

definition cooked_escape :: "LexerState \<Rightarrow> LexerState \<times> nat" where
  "cooked_escape s =
     (let s1 = advance s; c = peek s1; s2 = advance s1
      in if c = 110 then (s2, 10)
         else if c = 116 then (s2, 9)
         else if c = 114 then (s2, 13)
         else if c = 92 then (s2, 92)
         else if c = 34 then (s2, 34)
         else if c = 120 then
           (case read_digits is_xdigit 16 2 s2 0 0 of (s3, val, digits) \<Rightarrow>
              (s3, if digits = 0 then 120 else u8 val))
         else if is_octal c then
           (case read_digits is_octal 8 2 s2 (c - 48) 1 of (s3, val, digits) \<Rightarrow> (s3, u8 val))
         else (s2, c))"

definition string_step ::
  "(nat \<Rightarrow> bool) \<Rightarrow> LexerState \<Rightarrow> lexbuf \<Rightarrow> bool \<Rightarrow> (LexerState \<times> lexbuf \<times> bool) lexed" where
  "string_step malloc_ok s b has_interp =
     and_then (grow malloc_ok 3 s b) (\<lambda>b1.
       if peek s = 36 \<and> next_is 123 s then
         and_then (put (peek s) b1) (\<lambda>b2.
         and_then (put (peek (advance s)) b2) (\<lambda>b3. Lexed (advance (advance s), b3, True)))
       else if peek s = 92 then
         if has_interp then and_then (raw_escape malloc_ok s b1) (\<lambda>(s', b2). Lexed (s', b2, has_interp))
         else (case cooked_escape s of (s', c) \<Rightarrow> and_then (put c b1) (\<lambda>b2. Lexed (s', b2, has_interp)))
       else and_then (put (peek s) b1) (\<lambda>b2. Lexed (advance s, b2, has_interp)))"

text \<open>
  Progress of the readers, which the termination of their loops rests on.
\<close>

lemma and_then_Lexed: "and_then r f = Lexed y \<longleftrightarrow> (\<exists>x. r = Lexed x \<and> f x = Lexed y)"
  by (cases r) auto

lemma copy_digits_left:
  "copy_digits malloc_ok p n s b = Lexed (s', b') \<Longrightarrow> bytes_left s' \<le> bytes_left s"
proof (induction n arbitrary: s b)
  case (Suc n)
  then show ?case
    by (auto simp: and_then_Lexed split: if_splits) (meson advance_bytes_left_le le_trans)
qed simp

lemma read_digits_left:
  "read_digits p base n s v d = (s', v', d') \<Longrightarrow> bytes_left s' \<le> bytes_left s"
proof (induction n arbitrary: s v d)
  case (Suc n)
  then show ?case
    by (auto split: if_splits) (meson advance_bytes_left_le le_trans)
qed simp

lemma raw_escape_left:
  assumes "\<not> at_end s" "raw_escape malloc_ok s b = Lexed (s', b')"
  shows "bytes_left s' < bytes_left s"
  using assms
  by (fastforce simp: raw_escape_def and_then_Lexed Let_def split: if_splits dest!: copy_digits_left
      intro: le_less_trans [OF _ advance_bytes_left] le_less_trans [OF advance_bytes_left_le]
      order.trans [OF _ advance_bytes_left_le])

lemma cooked_escape_left:
  assumes "\<not> at_end s" "cooked_escape s = (s', c)"
  shows "bytes_left s' < bytes_left s"
proof -
  have "bytes_left (advance (advance s)) < bytes_left s"
    by (rule le_less_trans [OF advance_bytes_left_le advance_bytes_left]) (rule assms(1))
  then show ?thesis
    using assms(2)
    by (auto simp: cooked_escape_def Let_def split: if_splits prod.splits dest!: read_digits_left)
qed

lemma string_step_left:
  assumes "\<not> at_end s" "string_step malloc_ok s b h = Lexed (s', b', h')"
  shows "bytes_left s' < bytes_left s"
proof -
  have "bytes_left (advance (advance s)) < bytes_left s"
    by (rule le_less_trans [OF advance_bytes_left_le advance_bytes_left]) (rule assms(1))
  moreover have "bytes_left (advance s) < bytes_left s"
    using assms(1) by simp
  ultimately show ?thesis
    using assms(2)
    by (auto simp: string_step_def and_then_Lexed split: if_splits prod.splits
        dest!: raw_escape_left [OF assms(1)] cooked_escape_left [OF assms(1)])
qed

function string_loop ::
  "(nat \<Rightarrow> bool) \<Rightarrow> LexerState \<Rightarrow> lexbuf \<Rightarrow> bool \<Rightarrow> (LexerState \<times> lexbuf \<times> bool) lexed" where
  "string_loop malloc_ok s b has_interp =
     (if \<not> at_end s \<and> peek s \<noteq> 34
      then (case string_step malloc_ok s b has_interp of
              Lexed (s', b', h') \<Rightarrow> string_loop malloc_ok s' b' h'
            | Oom s' \<Rightarrow> Oom s'
            | Overrun \<Rightarrow> Overrun
            | Null_store \<Rightarrow> Null_store)
      else Lexed (s, b, has_interp))"
  by auto
termination
  by (relation "measure (\<lambda>(m, s, b, h). bytes_left s)") (auto dest: string_step_left)

definition read_string :: "(nat \<Rightarrow> bool) \<Rightarrow> LexerState \<Rightarrow> (Token option \<times> LexerState) lexed" where
  "read_string malloc_ok s =
     oom_token malloc_ok ''out of memory''
       (and_then (string_loop malloc_ok (advance s) (new_buffer malloc_ok 256) False) (\<lambda>(s', b, has_interp).
          if \<not> at_end s' \<and> peek s' = 34
          then finish malloc_ok (Literal (if has_interp then TOKEN_INTERP_STRING else TOKEN_STRING_LITERAL))
                 b (advance s')
          else Lexed (create_token malloc_ok (Special TOKEN_ERROR) (Some (ascii ''unterminated string literal''))
                        (current_line s') (current_column s'), s')))"

subsection \<open>Numbers\<close>

text \<open>
  \<open>strtol_digits\<close> is \<^verbatim>\<open>strtol\<close> on a text with neither sign nor white space in front, which is all the
  lexer passes: the leading digits of the base, clamped to \<^verbatim>\<open>LONG_MAX\<close>; with base 16 a prefix \<^verbatim>\<open>0x\<close>
  before a digit is passed over.
\<close>

definition digit_of_base :: "nat \<Rightarrow> nat \<Rightarrow> bool" where
  "digit_of_base base c \<longleftrightarrow> is_xdigit c \<and> digit_value c < base"

definition digits_value :: "nat \<Rightarrow> bytes \<Rightarrow> nat" where
  "digits_value base ds = foldl (\<lambda>v c. v * base + digit_value c) 0 ds"

definition strtol_digits :: "nat \<Rightarrow> bytes \<Rightarrow> int" where
  "strtol_digits base m =
     (let m' = (case m of
                  c0 # c1 # c2 # r \<Rightarrow>
                    if base = 16 \<and> c0 = 48 \<and> (c1 = 120 \<or> c1 = 88) \<and> is_xdigit c2 then c2 # r else m
                | _ \<Rightarrow> m)
      in min (int (digits_value base (takeWhile (digit_of_base base) m'))) (2 ^ 63 - 1))"

function collect_digits ::
  "(nat \<Rightarrow> bool) \<Rightarrow> (nat \<Rightarrow> bool) \<Rightarrow> LexerState \<Rightarrow> lexbuf \<Rightarrow> (LexerState \<times> lexbuf) lexed" where
  "collect_digits malloc_ok is_dig s b =
     (if \<not> at_end s \<and> (is_dig (peek s) \<or> peek s = 95)
      then if peek s = 95 then collect_digits malloc_ok is_dig (advance s) b
           else (case and_then (grow malloc_ok 1 s b) (put (peek s)) of
                   Lexed b' \<Rightarrow> collect_digits malloc_ok is_dig (advance s) b'
                 | Oom s' \<Rightarrow> Oom s'
                 | Overrun \<Rightarrow> Overrun
                 | Null_store \<Rightarrow> Null_store)
      else Lexed (s, b))"
  by auto
termination by (relation "measure (\<lambda>(m, p, s, b). bytes_left s)") auto

definition prefixed_number ::
  "(nat \<Rightarrow> bool) \<Rightarrow> (nat \<Rightarrow> bool) \<Rightarrow> nat \<Rightarrow> nat \<Rightarrow> LexerState \<Rightarrow> lexbuf \<Rightarrow> (Token option \<times> LexerState) lexed" where
  "prefixed_number malloc_ok is_dig base skip s b =
     and_then (put (peek s) b) (\<lambda>b1.
     and_then (put (peek (advance s)) b1) (\<lambda>b2.
     and_then (collect_digits malloc_ok is_dig (advance (advance s)) b2) (\<lambda>(s', b3).
     and_then (put 0 b3) (\<lambda>b4.
       Lexed (create_token malloc_ok (Literal TOKEN_NUMBER)
                (Some (print_int (strtol_digits base (drop skip (stored b4)))))
                (current_line s') (current_column s'), s')))))"

text \<open>
  \<open>collect\<close> is the loop that stores characters as long as a condition on the state holds; the
  conditions are those of identifiers and of decimal numbers.
\<close>

function collect ::
  "(nat \<Rightarrow> bool) \<Rightarrow> (LexerState \<Rightarrow> bool) \<Rightarrow> LexerState \<Rightarrow> lexbuf \<Rightarrow> (LexerState \<times> lexbuf) lexed" where
  "collect malloc_ok accept s b =
     (if \<not> at_end s \<and> accept s
      then (case and_then (grow malloc_ok 1 s b) (put (peek s)) of
              Lexed b' \<Rightarrow> collect malloc_ok accept (advance s) b'
            | Oom s' \<Rightarrow> Oom s'
            | Overrun \<Rightarrow> Overrun
            | Null_store \<Rightarrow> Null_store)
      else Lexed (s, b))"
  by auto
termination by (relation "measure (\<lambda>(m, p, s, b). bytes_left s)") auto

declare string_loop.simps [simp del] collect_digits.simps [simp del] collect.simps [simp del]

definition in_number :: "LexerState \<Rightarrow> bool" where
  "in_number s \<longleftrightarrow> is_digit (peek s) \<or> peek s = 46 \<and> \<not> next_is 46 s"

definition decimal_number ::
  "(nat \<Rightarrow> bool) \<Rightarrow> LexerState \<Rightarrow> lexbuf \<Rightarrow> (Token option \<times> LexerState) lexed" where
  "decimal_number malloc_ok s b =
     and_then (collect malloc_ok in_number s b) (\<lambda>(s', b').
       if peek s' = 76 then finish malloc_ok (Literal TOKEN_INT64_LITERAL) b' (advance s')
       else finish malloc_ok (Literal TOKEN_NUMBER) b' s')"

definition read_number :: "(nat \<Rightarrow> bool) \<Rightarrow> LexerState \<Rightarrow> (Token option \<times> LexerState) lexed" where
  "read_number malloc_ok s =
     oom_token malloc_ok ''out of memory''
       (let b = new_buffer malloc_ok 256
        in if peek s = 48 \<and> (next_is 120 s \<or> next_is 88 s) then prefixed_number malloc_ok is_xdigit 16 0 s b
           else if peek s = 48 \<and> (next_is 111 s \<or> next_is 79 s) then prefixed_number malloc_ok is_octal 8 2 s b
           else if peek s = 48 \<and> (next_is 98 s \<or> next_is 66 s)
           then prefixed_number malloc_ok (\<lambda>c. c = 48 \<or> c = 49) 2 2 s b
           else decimal_number malloc_ok s b)"

subsection \<open>Identifiers and keywords\<close>

definition is_alpha :: "nat \<Rightarrow> bool" where
  "is_alpha c \<longleftrightarrow> 65 \<le> c \<and> c \<le> 90 \<or> 97 \<le> c \<and> c \<le> 122"

definition is_alnum :: "nat \<Rightarrow> bool" where
  "is_alnum c \<longleftrightarrow> is_alpha c \<or> is_digit c"

definition is_ident :: "nat \<Rightarrow> bool" where
  "is_ident c \<longleftrightarrow> is_alnum c \<or> c = 95"

definition keyword_table :: "(string \<times> AeTokenType) list" where
  "keyword_table =
    [(''actor'', Keyword TOKEN_ACTOR),
     (''main'', Keyword TOKEN_MAIN),
     (''func'', Keyword TOKEN_FUNC),
     (''let'', Keyword TOKEN_LET),
     (''var'', Keyword TOKEN_VAR),
     (''if'', Keyword TOKEN_IF),
     (''else'', Keyword TOKEN_ELSE),
     (''for'', Keyword TOKEN_FOR),
     (''while'', Keyword TOKEN_WHILE),
     (''switch'', Keyword TOKEN_SWITCH),
     (''case'', Keyword TOKEN_CASE),
     (''default'', Keyword TOKEN_DEFAULT),
     (''break'', Keyword TOKEN_BREAK),
     (''continue'', Keyword TOKEN_CONTINUE),
     (''return'', Keyword TOKEN_RETURN),
     (''defer'', Keyword TOKEN_DEFER),
     (''builder'', Keyword TOKEN_BUILDER),
     (''match'', Keyword TOKEN_MATCH),
     (''when'', Keyword TOKEN_WHEN),
     (''receive'', Keyword TOKEN_RECEIVE),
     (''send'', Keyword TOKEN_SEND),
     (''spawn_actor'', Keyword TOKEN_SPAWN_ACTOR),
     (''spawn'', Keyword TOKEN_SPAWN),
     (''make'', Keyword TOKEN_MAKE),
     (''self'', Keyword TOKEN_SELF),
     (''state'', Keyword TOKEN_STATE),
     (''struct'', Keyword TOKEN_STRUCT),
     (''import'', Keyword TOKEN_IMPORT),
     (''as'', Keyword TOKEN_AS),
     (''export'', Keyword TOKEN_EXPORT),
     (''exports'', Keyword TOKEN_EXPORTS),
     (''module'', Keyword TOKEN_MODULE),
     (''message'', Keyword TOKEN_MESSAGE_KEYWORD),
     (''reply'', Keyword TOKEN_REPLY),
     (''extern'', Keyword TOKEN_EXTERN),
     (''null'', Keyword TOKEN_NULL),
     (''const'', Keyword TOKEN_CONST),
     (''in'', Keyword TOKEN_IN),
     (''after'', Keyword TOKEN_AFTER),
     (''callback'', Keyword TOKEN_CALLBACK),
     (''hide'', Keyword TOKEN_HIDE),
     (''seal'', Keyword TOKEN_SEAL),
     (''except'', Keyword TOKEN_EXCEPT),
     (''try'', Keyword TOKEN_TRY),
     (''catch'', Keyword TOKEN_CATCH),
     (''panic'', Keyword TOKEN_PANIC),
     (''ptr'', TypeName TOKEN_PTR),
     (''int'', TypeName TOKEN_INT),
     (''long'', TypeName TOKEN_INT64),
     (''float'', TypeName TOKEN_FLOAT),
     (''bool'', TypeName TOKEN_BOOL),
     (''byte'', TypeName TOKEN_BYTE),
     (''string'', TypeName TOKEN_STRING),
     (''ActorRef'', TypeName TOKEN_ACTOR_REF),
     (''actor_ref'', TypeName TOKEN_ACTOR_REF),
     (''Message'', TypeName TOKEN_MESSAGE),
     (''true'', Literal TOKEN_TRUE),
     (''false'', Literal TOKEN_FALSE),
     (''print'', Special TOKEN_PRINT)]"

definition keyword_type :: "bytes \<Rightarrow> AeTokenType" where
  "keyword_type name =
     (case map_of (map (\<lambda>(k, ty). (ascii k, ty)) keyword_table) name of
        Some ty \<Rightarrow> ty
      | None \<Rightarrow> Literal TOKEN_IDENTIFIER)"

definition read_identifier :: "(nat \<Rightarrow> bool) \<Rightarrow> LexerState \<Rightarrow> (Token option \<times> LexerState) lexed" where
  "read_identifier malloc_ok s =
     oom_token malloc_ok ''out of memory''
       (and_then (collect malloc_ok (\<lambda>s. is_ident (peek s)) s (new_buffer malloc_ok 256)) (\<lambda>(s', b).
          finish malloc_ok (keyword_type (stored b)) b s'))"

subsection \<open>Heredocs\<close>

function skip_to_eol :: "LexerState \<Rightarrow> LexerState" where
  "skip_to_eol s = (if peek s \<noteq> 10 \<and> peek s \<noteq> 0 then skip_to_eol (advance s) else s)"
  by auto
termination
  by (relation "measure bytes_left") (auto intro!: advance_bytes_left simp: peek_def split: if_splits)

function read_marker :: "LexerState \<Rightarrow> lexbuf \<Rightarrow> (LexerState \<times> lexbuf) lexed" where
  "read_marker s b =
     (if is_ident (peek s) \<and> length (stored b) < 256 - 1
      then (case put (peek s) b of
              Lexed b' \<Rightarrow> read_marker (advance s) b'
            | Oom s' \<Rightarrow> Oom s'
            | Overrun \<Rightarrow> Overrun
            | Null_store \<Rightarrow> Null_store)
      else Lexed (s, b))"
  by auto
termination
  by (relation "measure (\<lambda>(s, b). 256 - length (stored b))") (auto simp: put_def split: if_splits)

fun marker_at :: "bytes \<Rightarrow> nat \<Rightarrow> nat \<Rightarrow> bytes \<Rightarrow> bool" where
  "marker_at src n pos [] = True"
| "marker_at src n pos (m # ms) = (if n \<le> pos \<or> src ! pos \<noteq> m then False else marker_at src n (pos + 1) ms)"

definition marker_here :: "LexerState \<Rightarrow> bytes \<Rightarrow> bool" where
  "marker_here s marker \<longleftrightarrow>
     marker_at (source s) (source_length s) (current_pos s) marker \<and>
     (let after = current_pos s + length marker
      in source_length s \<le> after \<or> source s ! after = 10 \<or>
         source s ! after = 13 \<and> after + 1 < source_length s \<and> source s ! (after + 1) = 10)"

definition skip_char :: "nat \<Rightarrow> LexerState \<Rightarrow> LexerState" where
  "skip_char c s = (if peek s = c then advance s else s)"

function heredoc_loop ::
  "(nat \<Rightarrow> bool) \<Rightarrow> bytes \<Rightarrow> LexerState \<Rightarrow> lexbuf \<Rightarrow> (LexerState \<times> lexbuf) lexed" where
  "heredoc_loop malloc_ok marker s b =
     (if at_end s then Lexed (s, b)
      else if marker_here s marker
      then Lexed (skip_char 10 (skip_char 13 ((advance ^^ length marker) s)), b)
      else if peek s \<noteq> 13 \<or> current_pos s + 1 < source_length s \<and> \<not> next_is 10 s
      then (case and_then (grow malloc_ok 1 s b) (put (peek s)) of
              Lexed b' \<Rightarrow> heredoc_loop malloc_ok marker (advance s) b'
            | Oom s' \<Rightarrow> Oom s'
            | Overrun \<Rightarrow> Overrun
            | Null_store \<Rightarrow> Null_store)
      else heredoc_loop malloc_ok marker (advance s) b)"
  by auto
termination by (relation "measure (\<lambda>(m, k, s, b). bytes_left s)") auto

declare skip_to_eol.simps [simp del] read_marker.simps [simp del] heredoc_loop.simps [simp del]

text \<open>
  \<open>strip_newline\<close> takes the last newline off; it only moves the end of the text, the capacity stays.
\<close>

definition strip_newline :: "lexbuf \<Rightarrow> lexbuf" where
  "strip_newline b =
     (if stored b \<noteq> [] \<and> last (stored b) = 10 then b\<lparr>stored := butlast (stored b)\<rparr> else b)"

definition read_heredoc :: "(nat \<Rightarrow> bool) \<Rightarrow> LexerState \<Rightarrow> (Token option \<times> LexerState) lexed" where
  "read_heredoc malloc_ok s =
     and_then (read_marker s \<lparr>stored = [], capacity = 256, allocated = True\<rparr>) (\<lambda>(s1, mb).
     and_then (put 0 mb) (\<lambda>mb0.
       let s2 = skip_char 10 (skip_to_eol s1); b = new_buffer malloc_ok 4096
       in if \<not> allocated b
          then Lexed (create_token malloc_ok (Special TOKEN_ERROR) (Some (ascii ''out of memory''))
                        (current_line s2) (current_column s2), s2)
          else oom_token malloc_ok ''heredoc too large''
                 (and_then (heredoc_loop malloc_ok (stored mb) s2 b) (\<lambda>(s3, b3).
                  and_then (put 0 (strip_newline b3)) (\<lambda>b4.
                    Lexed (create_token malloc_ok (Literal TOKEN_STRING_LITERAL) (Some (stored b4))
                             (current_line s2) (current_column s3), s3))))))"

subsection \<open>Tokens of a source\<close>

definition emit ::
  "(nat \<Rightarrow> bool) \<Rightarrow> AeTokenType \<Rightarrow> string \<Rightarrow> LexerState \<Rightarrow> (Token option \<times> LexerState) lexed" where
  "emit malloc_ok ty text s =
     Lexed (create_token malloc_ok ty (Some (ascii text)) (current_line s) (current_column s), s)"

text \<open>
  \<open>follow\<close> is the chain \<^verbatim>\<open>if (peek() == c) { advance(); return create_token(...); }\<close> of the
  operators: the first alternative whose character comes next.
\<close>

fun follow ::
  "(nat \<Rightarrow> bool) \<Rightarrow> (nat \<times> AeTokenType \<times> string) list \<Rightarrow> AeTokenType \<Rightarrow> string \<Rightarrow> LexerState
   \<Rightarrow> (Token option \<times> LexerState) lexed" where
  "follow malloc_ok [] ty text s = emit malloc_ok ty text s"
| "follow malloc_ok ((c, ty', text') # alts) ty text s =
     (if peek s = c then emit malloc_ok ty' text' (advance s) else follow malloc_ok alts ty text s)"

definition less_token :: "(nat \<Rightarrow> bool) \<Rightarrow> LexerState \<Rightarrow> (Token option \<times> LexerState) lexed" where
  "less_token malloc_ok s =
     (if peek s = 61 then emit malloc_ok (Operator TOKEN_LESS_EQUAL) ''<='' (advance s)
      else if peek s = 60 then
        (let s1 = advance s
         in if peek s1 = 61 then emit malloc_ok (Operator TOKEN_LSHIFT_ASSIGN) ''<<='' (advance s1)
            else if is_alpha (peek s1) \<or> peek s1 = 95 then read_heredoc malloc_ok s1
            else emit malloc_ok (Operator TOKEN_LSHIFT) ''<<'' s1)
      else emit malloc_ok (Operator TOKEN_LESS) ''<'' s)"

definition greater_token :: "(nat \<Rightarrow> bool) \<Rightarrow> LexerState \<Rightarrow> (Token option \<times> LexerState) lexed" where
  "greater_token malloc_ok s =
     (if peek s = 61 then emit malloc_ok (Operator TOKEN_GREATER_EQUAL) ''>='' (advance s)
      else if peek s = 62 then
        follow malloc_ok [(61, Operator TOKEN_RSHIFT_ASSIGN, ''>>='')] (Operator TOKEN_RSHIFT) ''>>'' (advance s)
      else emit malloc_ok (Operator TOKEN_GREATER) ''>'' s)"

definition single_tokens :: "(nat \<times> AeTokenType \<times> string) list" where
  "single_tokens =
    [(126, Operator TOKEN_TILDE, ''~''), (40, Delimiter TOKEN_LEFT_PAREN, ''(''),
     (41, Delimiter TOKEN_RIGHT_PAREN, '')''), (123, Delimiter TOKEN_LEFT_BRACE, ''{''),
     (125, Delimiter TOKEN_RIGHT_BRACE, ''}''), (91, Delimiter TOKEN_LEFT_BRACKET, ''[''),
     (93, Delimiter TOKEN_RIGHT_BRACKET, '']''), (59, Delimiter TOKEN_SEMICOLON, '';''),
     (44, Delimiter TOKEN_COMMA, '',''), (58, Delimiter TOKEN_COLON, '':''),
     (63, Keyword TOKEN_QUESTION, ''?''), (64, Delimiter TOKEN_AT, ''@'')]"

definition operator_tokens :: "(nat \<times> (nat \<times> AeTokenType \<times> string) list \<times> AeTokenType \<times> string) list" where
  "operator_tokens =
    [(43, [(43, Operator TOKEN_INCREMENT, ''++''), (61, Operator TOKEN_PLUS_ASSIGN, ''+='')],
      Operator TOKEN_PLUS, ''+''),
     (45, [(62, Delimiter TOKEN_ARROW, ''->''), (45, Operator TOKEN_DECREMENT, ''--''),
           (61, Operator TOKEN_MINUS_ASSIGN, ''-='')], Operator TOKEN_MINUS, ''-''),
     (42, [(61, Operator TOKEN_MULTIPLY_ASSIGN, ''*='')], Operator TOKEN_MULTIPLY, ''*''),
     (47, [(61, Operator TOKEN_DIVIDE_ASSIGN, ''/='')], Operator TOKEN_DIVIDE, ''/''),
     (37, [(61, Operator TOKEN_MODULO_ASSIGN, ''%='')], Operator TOKEN_MODULO, ''%''),
     (61, [(61, Operator TOKEN_EQUALS, ''=='')], Operator TOKEN_ASSIGN, ''=''),
     (33, [(61, Operator TOKEN_NOT_EQUALS, ''!='')], Keyword TOKEN_EXCLAIM, ''!''),
     (38, [(38, Operator TOKEN_AND, ''&&''), (61, Operator TOKEN_AND_ASSIGN, ''&='')],
      Operator TOKEN_AMPERSAND, ''&''),
     (124, [(124, Operator TOKEN_OR, ''||''), (61, Operator TOKEN_OR_ASSIGN, ''|='')],
      Delimiter TOKEN_PIPE, ''|''),
     (94, [(61, Operator TOKEN_XOR_ASSIGN, ''^='')], Operator TOKEN_CARET, ''^''),
     (46, [(46, Operator TOKEN_DOTDOT, ''..'')], Delimiter TOKEN_DOT, ''.'')]"

definition punctuation_token :: "(nat \<Rightarrow> bool) \<Rightarrow> LexerState \<Rightarrow> (Token option \<times> LexerState) lexed" where
  "punctuation_token malloc_ok s =
     (let c = peek s; s1 = advance s
      in if c = 60 then less_token malloc_ok s1
         else if c = 62 then greater_token malloc_ok s1
         else case map_of operator_tokens c of
            Some (alts, ty, text) \<Rightarrow> follow malloc_ok alts ty text s1
          | None \<Rightarrow>
              (case map_of single_tokens c of
                 Some (ty, text) \<Rightarrow> emit malloc_ok ty text s1
               | None \<Rightarrow> Lexed (create_token malloc_ok (Special TOKEN_ERROR) (Some [c, 0])
                                  (current_line s1) (current_column s1), s1)))"

lemma skip_line_left: "bytes_left (skip_line s) \<le> bytes_left s"
  by (induction s rule: skip_line.induct)
    (subst skip_line.simps, auto intro: order.trans [OF _ advance_bytes_left_le])

lemma skip_block_left: "bytes_left (skip_block s) \<le> bytes_left s"
  by (induction s rule: skip_block.induct)
    (subst skip_block.simps, auto intro: order.trans [OF _ advance_bytes_left_le])

lemma skip_whitespace_left: "bytes_left (skip_whitespace s) \<le> bytes_left s"
  by (induction s rule: skip_whitespace.induct)
    (subst skip_whitespace.simps, auto intro: order.trans [OF _ advance_bytes_left_le])

lemma skip_comment_left:
  assumes "\<not> at_end s" "skip_comment s = Some s'"
  shows "bytes_left s' < bytes_left s"
proof -
  have "bytes_left (advance s) < bytes_left s"
    using assms(1) by simp
  moreover have "bytes_left (skip_line s) \<le> bytes_left (advance s)" if "peek s = 47"
    using skip_line_left [of "advance s"] that assms(1) by (simp add: skip_line.simps [of s])
  moreover have "bytes_left (skip_block (advance (advance s))) \<le> bytes_left (advance s)"
    using skip_block_left [of "advance (advance s)"] advance_bytes_left_le [of "advance s"] by linarith
  ultimately show ?thesis
    using assms(2) by (auto simp: skip_comment_def split: if_splits)
qed

function next_token :: "(nat \<Rightarrow> bool) \<Rightarrow> LexerState \<Rightarrow> (Token option \<times> LexerState) lexed" where
  "next_token malloc_ok s0 =
     (let s = skip_whitespace s0; c = peek s
      in if at_end s
         then Lexed (create_token malloc_ok (Special TOKEN_EOF) None (current_line s) (current_column s), s)
         else case (if c = 47 then skip_comment s else None) of
             Some s' \<Rightarrow> next_token malloc_ok s'
           | None \<Rightarrow>
               if c = 34 then read_string malloc_ok s
               else if is_digit c then read_number malloc_ok s
               else if is_alpha c \<or> c = 95 then read_identifier malloc_ok s
               else punctuation_token malloc_ok s)"
  by auto
termination
proof (relation "measure (\<lambda>(m, s). bytes_left s)", goal_cases)
  case (2 malloc_ok s0 s c s')
  then have "bytes_left s' < bytes_left s"
    by (auto split: if_splits dest!: skip_comment_left)
  with 2 show ?case
    using skip_whitespace_left [of s0] by simp
qed simp

declare next_token.simps [simp del]

text \<open>
  The loop of \<^verbatim>\<open>aetherc.c\<close> that fills \<^verbatim>\<open>tokens[MAX_TOKENS]\<close>.  The fuel is the
  number of free slots before the last one, so running out of it is the error for an over-long file.  A
  null token is dereferenced by the loop.
\<close>

datatype lex_outcome = Tokens "Token list" | Lex_error Token | Too_many_tokens | Crash

fun lex_tokens :: "(nat \<Rightarrow> bool) \<Rightarrow> nat \<Rightarrow> LexerState \<Rightarrow> Token list \<Rightarrow> lex_outcome" where
  "lex_tokens malloc_ok 0 s tokens = Too_many_tokens"
| "lex_tokens malloc_ok (Suc n) s tokens =
     (case next_token malloc_ok s of
        Lexed (Some t, s') \<Rightarrow>
          if tok_type t = Special TOKEN_EOF then Tokens (tokens @ [t])
          else if tok_type t = Special TOKEN_ERROR then Lex_error t
          else lex_tokens malloc_ok n s' (tokens @ [t])
      | _ \<Rightarrow> Crash)"

definition max_tokens :: nat where
  "max_tokens = 50000"

definition lex_source :: "(nat \<Rightarrow> bool) \<Rightarrow> bytes \<Rightarrow> lex_outcome" where
  "lex_source malloc_ok src = lex_tokens malloc_ok (max_tokens - 1) (lexer_init src) []"

subsection \<open>Position invariant\<close>

definition lex_inv :: "LexerState \<Rightarrow> bool" where
  "lex_inv s \<longleftrightarrow>
     source_length s = length (source s) \<and> current_pos s \<le> length (source s) \<and> 0 \<notin> set (source s) \<and>
     current_line s = 1 + count_list (take (current_pos s) (source s)) 10 \<and>
     current_column s = 1 + length (takeWhile (\<lambda>c. c \<noteq> 10) (rev (take (current_pos s) (source s))))"

definition later :: "LexerState \<Rightarrow> LexerState \<Rightarrow> bool" where
  "later s s' \<longleftrightarrow>
     source s' = source s \<and> source_length s' = source_length s \<and> current_pos s \<le> current_pos s' \<and>
     (lex_inv s \<longrightarrow> lex_inv s')"

definition rest :: "LexerState \<Rightarrow> bytes" where
  "rest s = drop (current_pos s) (source s)"

lemma later_refl [simp, intro]: "later s s"
  by (simp add: later_def)

lemma later_trans [trans]: "later s t \<Longrightarrow> later t u \<Longrightarrow> later s u"
  by (auto simp: later_def)

lemma later_inv: "later s s' \<Longrightarrow> lex_inv s \<Longrightarrow> lex_inv s'"
  by (simp add: later_def)

lemma source_length_init: "strlen src < 2 ^ 31 \<Longrightarrow> source_length (lexer_init src) = strlen src"
  by (simp add: lexer_init_def signed_take_bit_int_eq_self)

lemma lex_inv_lexer_init: "strlen src < 2 ^ 31 \<Longrightarrow> lex_inv (lexer_init src)"
  using source_length_init [of src]
  by (auto simp: lex_inv_def lexer_init_def strlen_def dest: set_takeWhileD)

lemma lex_inv_example: "length src < 100 \<Longrightarrow> lex_inv (lexer_init src)"
  using length_takeWhile_le [of "\<lambda>c. c \<noteq> 0" src] by (intro lex_inv_lexer_init) (simp add: strlen_def)

lemma lex_inv_advance:
  assumes "lex_inv s"
  shows "lex_inv (advance s)"
proof (cases "at_end s")
  case False
  then have "take (Suc (current_pos s)) (source s) = take (current_pos s) (source s) @ [peek s]"
    using assms by (simp add: at_end_def peek_def lex_inv_def take_Suc_conv_app_nth)
  with False assms show ?thesis
    by (simp add: lex_inv_def advance_def at_end_def)
qed (simp add: advance_def assms)

lemma later_advance [simp, intro]: "later s (advance s)"
  by (auto simp: later_def lex_inv_advance) (auto simp: advance_def)

lemma later_advance2 [simp, intro]: "later s (advance (advance s))"
  by (rule later_trans [OF later_advance later_advance])

lemma later_advance_trans: "later (advance s) s' \<Longrightarrow> later s s'"
  by (rule later_trans [OF later_advance])

lemma later_advance_pow [simp, intro]: "later s ((advance ^^ n) s)"
  by (induction n) (auto intro: later_trans [OF _ later_advance])

lemma later_advance_progress:
  "\<not> at_end s \<Longrightarrow> later (advance s) s' \<Longrightarrow> current_pos s < current_pos s'"
  by (auto simp: later_def advance_def split: if_splits)

lemma later_skip_whitespace [simp, intro]: "later s (skip_whitespace s)"
  by (induction s rule: skip_whitespace.induct)
    (subst skip_whitespace.simps, auto intro: later_advance_trans)

lemma later_skip_line [simp, intro]: "later s (skip_line s)"
  by (induction s rule: skip_line.induct) (subst skip_line.simps, auto intro: later_advance_trans)

lemma later_skip_block [simp, intro]: "later s (skip_block s)"
  by (induction s rule: skip_block.induct) (subst skip_block.simps, auto intro: later_advance_trans)

lemma later_skip_comment: "skip_comment s = Some s' \<Longrightarrow> later s s'"
  by (auto simp: skip_comment_def split: if_splits intro: later_trans [OF later_advance2 later_skip_block])

lemma later_skip_to_eol [simp, intro]: "later s (skip_to_eol s)"
  by (induction s rule: skip_to_eol.induct) (subst skip_to_eol.simps, auto intro: later_advance_trans)

lemma later_skip_char [simp, intro]: "later s (skip_char c s)"
  by (simp add: skip_char_def)

lemma later_read_digits: "read_digits p base n s v d = (s', v', d') \<Longrightarrow> later s s'"
  by (induction n arbitrary: s v d) (auto split: if_splits intro: later_advance_trans)

lemma later_cooked_escape:
  assumes "cooked_escape s = (s', c)"
  shows "later s s'"
  using assms
  by (auto simp: cooked_escape_def Let_def split: if_splits prod.splits
      dest!: later_read_digits intro: later_trans [OF later_advance2])

subsection \<open>Buffer safety\<close>

text \<open>
  \<open>room malloc_ok k b\<close>: the buffer is allocated if the first requests of the readers are granted, and takes \<open>k\<close> more bytes and the terminator.  \<open>safe\<close> is a
  Hoare-style assertion on a reader: it stores inside its buffer, its result satisfies \<open>P\<close>, it gives
  up only on a refused allocation, at a later position, and it stores through a null pointer only when the first
  request of 256 bytes was refused.
\<close>

definition room :: "(nat \<Rightarrow> bool) \<Rightarrow> nat \<Rightarrow> lexbuf \<Rightarrow> bool" where
  "room malloc_ok k b \<longleftrightarrow> (malloc_ok 256 \<longrightarrow> allocated b) \<and> length (stored b) + k < capacity b \<and> 256 \<le> capacity b"

definition safe :: "(nat \<Rightarrow> bool) \<Rightarrow> LexerState \<Rightarrow> ('a \<Rightarrow> bool) \<Rightarrow> 'a lexed \<Rightarrow> bool" where
  "safe malloc_ok s P r \<longleftrightarrow>
     (case r of
        Lexed x \<Rightarrow> P x
      | Oom s' \<Rightarrow> later s s' \<and> (\<exists>n. \<not> malloc_ok n)
      | Overrun \<Rightarrow> False
      | Null_store \<Rightarrow> \<not> malloc_ok 256)"

lemma safe_Lexed [simp]: "safe malloc_ok s P (Lexed x) \<longleftrightarrow> P x"
  by (simp add: safe_def)

lemma safe_and_then:
  "safe malloc_ok s P r \<Longrightarrow> (\<And>x. P x \<Longrightarrow> safe malloc_ok s Q (f x)) \<Longrightarrow> safe malloc_ok s Q (and_then r f)"
  by (cases r) (auto simp: safe_def)

lemma safe_later: "later s t \<Longrightarrow> safe malloc_ok t P r \<Longrightarrow> safe malloc_ok s P r"
  by (auto simp: safe_def split: lexed.splits intro: later_trans)

lemma safe_mono: "safe malloc_ok s P r \<Longrightarrow> (\<And>x. P x \<Longrightarrow> Q x) \<Longrightarrow> safe malloc_ok s Q r"
  by (auto simp: safe_def split: lexed.splits)

lemma case_lexed_and_then:
  "(case r of Lexed x \<Rightarrow> f x | Oom s \<Rightarrow> Oom s | Overrun \<Rightarrow> Overrun | Null_store \<Rightarrow> Null_store) = and_then r f"
  by (cases r) auto

lemma safe_put: "room malloc_ok (Suc k) b \<Longrightarrow> safe malloc_ok s (\<lambda>b'. room malloc_ok k b' \<and> stored b' = stored b @ [c]) (put c b)"
  by (auto simp: put_def room_def safe_def)

lemma safe_put_end:
  "room malloc_ok 0 b \<Longrightarrow> safe malloc_ok s (\<lambda>b'. stored b' = stored b @ [c]) (put c b)"
  by (auto simp: put_def room_def safe_def)

lemma safe_grow:
  "room malloc_ok 0 b \<Longrightarrow> k \<le> 250 \<Longrightarrow>
    safe malloc_ok s (\<lambda>b'. room malloc_ok k b' \<and> stored b' = stored b) (grow malloc_ok k s b)"
  by (auto simp: grow_def room_def safe_def)

lemma safe_grow_put:
  assumes "room malloc_ok 0 b"
  shows "safe malloc_ok s (\<lambda>b'. room malloc_ok 0 b' \<and> stored b' = stored b @ [c]) (and_then (grow malloc_ok 1 s b) (put c))"
proof (rule safe_and_then [OF safe_grow [OF assms]])
  show "safe malloc_ok s (\<lambda>b'. room malloc_ok 0 b' \<and> stored b' = stored b @ [c]) (put c x)"
    if "room malloc_ok 1 x \<and> stored x = stored b" for x
    using safe_put [where k = 0 and b = x and c = c] that by simp
qed simp

lemma room_less: "room malloc_ok k b \<Longrightarrow> j \<le> k \<Longrightarrow> room malloc_ok j b"
  by (auto simp: room_def)

lemma room_new_buffer: "room malloc_ok 255 (new_buffer malloc_ok 256)"
  by (auto simp: room_def new_buffer_def)

definition reader_ok :: "(nat \<Rightarrow> bool) \<Rightarrow> LexerState \<Rightarrow> LexerState \<times> lexbuf \<Rightarrow> bool" where
  "reader_ok malloc_ok s p \<longleftrightarrow> later s (fst p) \<and> room malloc_ok 0 (snd p)"

lemma safe_copy_digits:
  "room malloc_ok 0 b \<Longrightarrow> safe malloc_ok s (reader_ok malloc_ok s) (copy_digits malloc_ok p n s b)"
proof (induction n arbitrary: s b)
  case (Suc n)
  have step: "safe malloc_ok s (reader_ok malloc_ok s) (copy_digits malloc_ok p n (advance s) b2)" if "room malloc_ok 0 b2" for b2
    using safe_later [OF later_advance Suc.IH [OF that]]
    by (rule safe_mono) (auto simp: reader_ok_def intro: later_advance_trans)
  show ?case
  proof (cases "\<not> at_end s \<and> p (peek s)")
    case True
    have "safe malloc_ok s (reader_ok malloc_ok s) (and_then (put (peek s) b1) (\<lambda>b2. copy_digits malloc_ok p n (advance s) b2))"
      if "room malloc_ok 3 b1" for b1
      by (rule safe_and_then [OF safe_put [where k = 0]]) (use that step in \<open>auto intro: room_less\<close>)
    with True show ?thesis
      by (simp, intro safe_and_then [OF safe_grow [OF Suc.prems]]) auto
  qed (use Suc.prems in \<open>auto simp: reader_ok_def\<close>)
qed (simp add: reader_ok_def)

lemma safe_raw_escape:
  assumes "room malloc_ok 3 b"
  shows "safe malloc_ok s (reader_ok malloc_ok s) (raw_escape malloc_ok s b)"
proof -
  let ?s1 = "advance s"
  have copy: "safe malloc_ok s (reader_ok malloc_ok s) (copy_digits malloc_ok p 2 (advance ?s1) b2)" if "room malloc_ok 0 b2" for p b2
    using safe_later [OF later_advance2 safe_copy_digits [OF that]]
    by (rule safe_mono) (auto simp: reader_ok_def intro: later_trans [OF later_advance2])
  have "safe malloc_ok s (reader_ok malloc_ok s)
      (and_then (put (peek ?s1) b1) (\<lambda>b2.
               if peek ?s1 = 120 then copy_digits malloc_ok is_xdigit 2 (advance ?s1) b2
               else if is_octal (peek ?s1) then copy_digits malloc_ok is_octal 2 (advance ?s1) b2
               else Lexed (advance ?s1, b2)))" if "room malloc_ok 1 b1" for b1
    by (rule safe_and_then [OF safe_put [where k = 0]]) (use that copy in \<open>auto simp: reader_ok_def\<close>)
  then show ?thesis
    unfolding raw_escape_def Let_def
    by (intro safe_and_then [OF safe_put [where k = 1]])
      (use assms in \<open>auto simp: reader_ok_def numeral_2_eq_2 intro: room_less\<close>)
qed

lemma safe_string_step:
  assumes "room malloc_ok 0 b"
  shows "safe malloc_ok s (\<lambda>(s', b', h'). reader_ok malloc_ok s (s', b')) (string_step malloc_ok s b h)"
proof -
  let ?P = "\<lambda>(s', b', h'). reader_ok malloc_ok s (s', b')"
  have put1: "safe malloc_ok s ?P (and_then (put c b1) (\<lambda>b2. Lexed (s', b2, h')))"
    if "room malloc_ok (Suc 0) b1" "later s s'" for b1 c s' h'
    by (rule safe_and_then [OF safe_put [where k = 0]]) (use that in \<open>auto simp: reader_ok_def\<close>)
  have put2: "safe malloc_ok s ?P
     (and_then (put c b1) (\<lambda>b2. and_then (put d b2) (\<lambda>b3. Lexed (advance (advance s), b3, True))))"
    if "room malloc_ok 3 b1" for b1 c d
  proof (rule safe_and_then [OF safe_put [where k = 1]])
    show "room malloc_ok (Suc 1) b1"
      using that by (rule room_less) simp
    show "safe malloc_ok s ?P (and_then (put d x) (\<lambda>b3. Lexed (advance (advance s), b3, True)))"
      if "room malloc_ok 1 x \<and> stored x = stored b1 @ [c]" for x
      using that by (intro put1) auto
  qed
  have raw: "safe malloc_ok s ?P (and_then (raw_escape malloc_ok s b1) (\<lambda>(s', b2). Lexed (s', b2, h')))"
    if "room malloc_ok 3 b1" for b1 h'
    by (rule safe_and_then [OF safe_raw_escape [OF that]]) auto
  have less: "room malloc_ok (Suc 0) b1" if "room malloc_ok 3 b1" for b1
    using that by (rule room_less) simp
  show ?thesis
    unfolding string_step_def
    by (rule safe_and_then [OF safe_grow [OF assms]])
      (auto simp: put2 put1 raw less later_cooked_escape split: prod.splits)
qed

lemma safe_string_loop:
  "room malloc_ok 0 b \<Longrightarrow> safe malloc_ok s (\<lambda>(s', b', h'). reader_ok malloc_ok s (s', b')) (string_loop malloc_ok s b h)"
proof (induction malloc_ok s b h rule: string_loop.induct)
  case (1 malloc_ok s b h)
  show ?case
  proof (cases "\<not> at_end s \<and> peek s \<noteq> 34")
    case True
    have "safe malloc_ok s (\<lambda>(s', b', h'). reader_ok malloc_ok s (s', b'))
        (case x of (s', b', h') \<Rightarrow> string_loop malloc_ok s' b' h')"
      if "string_step malloc_ok s b h = Lexed x" "case x of (s', b', h') \<Rightarrow> reader_ok malloc_ok s (s', b')" for x
    proof -
      obtain s' b' h' where x: "x = (s', b', h')"
        by (cases x)
      with that have le: "later s s'" and "room malloc_ok 0 b'"
        by (auto simp: reader_ok_def)
      with 1 True x that(1) have "safe malloc_ok s' (\<lambda>(s'', b', h'). reader_ok malloc_ok s' (s'', b')) (string_loop malloc_ok s' b' h')"
        by blast
      then have "safe malloc_ok s (\<lambda>(s'', b', h'). reader_ok malloc_ok s' (s'', b')) (string_loop malloc_ok s' b' h')"
        by (rule safe_later [OF le])
      then show ?thesis
        unfolding x by (simp, elim safe_mono) (auto simp: reader_ok_def intro: later_trans [OF le])
    qed
    then show ?thesis
      using safe_string_step [OF 1(2), of s h] True
      by (subst string_loop.simps) (cases "string_step malloc_ok s b h"; simp add: safe_def)
  next
    case False
    with 1(2) show ?thesis
      by (subst string_loop.simps) (auto simp: reader_ok_def)
  qed
qed

lemma safe_collect_step:
  assumes "room malloc_ok 0 b"
    and "\<And>b'. room malloc_ok 0 b' \<Longrightarrow> and_then (grow malloc_ok 1 s b) (put c) = Lexed b' \<Longrightarrow>
           safe malloc_ok (advance s) (reader_ok malloc_ok (advance s)) (f b')"
  shows "safe malloc_ok s (reader_ok malloc_ok s)
     (case and_then (grow malloc_ok 1 s b) (put c) of
        Lexed b' \<Rightarrow> f b' | Oom s' \<Rightarrow> Oom s' | Overrun \<Rightarrow> Overrun | Null_store \<Rightarrow> Null_store)"
proof -
  have "safe malloc_ok s (reader_ok malloc_ok s) (f b')"
    if "room malloc_ok 0 b'" "and_then (grow malloc_ok 1 s b) (put c) = Lexed b'" for b'
    using safe_later [OF later_advance assms(2) [OF that]]
    by (rule safe_mono) (auto simp: reader_ok_def intro: later_advance_trans)
  then show ?thesis
    using safe_grow_put [OF assms(1), of s c]
    by (cases "and_then (grow malloc_ok 1 s b) (put c)") (simp_all add: safe_def)
qed

lemma safe_reader_advance:
  "safe malloc_ok (advance s) (reader_ok malloc_ok (advance s)) r \<Longrightarrow> safe malloc_ok s (reader_ok malloc_ok s) r"
  by (rule safe_later [OF later_advance], erule safe_mono)
    (auto simp: reader_ok_def intro: later_advance_trans)

lemma reader_ok_pair [simp]: "reader_ok malloc_ok s (s', b) \<longleftrightarrow> later s s' \<and> room malloc_ok 0 b"
  by (simp add: reader_ok_def)

lemma safe_collect: "room malloc_ok 0 b \<Longrightarrow> safe malloc_ok s (reader_ok malloc_ok s) (collect malloc_ok p s b)"
proof (induction malloc_ok p s b rule: collect.induct)
  case (1 malloc_ok p s b)
  show ?case
  proof (cases "\<not> at_end s \<and> p s")
    case True
    with safe_collect_step [OF 1(2) 1(1) [OF True]] show ?thesis
      by (subst collect.simps) presburger
  qed (use 1(2) in \<open>subst collect.simps; auto\<close>)
qed

lemma safe_collect_digits: "room malloc_ok 0 b \<Longrightarrow> safe malloc_ok s (reader_ok malloc_ok s) (collect_digits malloc_ok p s b)"
proof (induction malloc_ok p s b rule: collect_digits.induct)
  case (1 malloc_ok p s b)
  show ?case
  proof (cases "\<not> at_end s \<and> (p (peek s) \<or> peek s = 95)")
    case True
    have a: "safe malloc_ok s (reader_ok malloc_ok s) (collect_digits malloc_ok p (advance s) b)" if "peek s = 95"
      using 1(1) [OF True that 1(3)] by (rule safe_reader_advance)
    show ?thesis
    proof (cases "peek s = 95")
      case False
      with True safe_collect_step [OF 1(3) 1(2) [OF True False]] show ?thesis
        by (subst collect_digits.simps) presburger
    qed (use True a in \<open>subst collect_digits.simps; simp\<close>)
  qed (use 1(3) in \<open>subst collect_digits.simps; auto\<close>)
qed

lemma safe_heredoc_loop: "room malloc_ok 0 b \<Longrightarrow> safe malloc_ok s (reader_ok malloc_ok s) (heredoc_loop malloc_ok marker s b)"
proof (induction malloc_ok marker s b rule: heredoc_loop.induct)
  case (1 malloc_ok marker s b)
  let ?keep = "peek s \<noteq> 13 \<or> current_pos s + 1 < source_length s \<and> \<not> next_is 10 s"
  have skip: "later s (skip_char 10 (skip_char 13 ((advance ^^ length marker) s)))"
    by (meson later_advance_pow later_skip_char later_trans)
  show ?case
  proof (cases "at_end s \<or> marker_here s marker")
    case False
    then have F: "\<not> at_end s" "\<not> marker_here s marker"
      by auto
    show ?thesis
    proof (cases ?keep)
      case True
      with F safe_collect_step [OF 1(3) 1(1) [OF F True]] show ?thesis
        by (subst heredoc_loop.simps) presburger
    next
      case False
      with F safe_reader_advance [OF 1(2) [OF F False 1(3)]] show ?thesis
        by (subst heredoc_loop.simps) presburger
    qed
  qed (use 1(3) skip in \<open>subst heredoc_loop.simps; auto\<close>)
qed

definition token_ok :: "(nat \<Rightarrow> bool) \<Rightarrow> LexerState \<Rightarrow> Token option \<times> LexerState \<Rightarrow> bool" where
  "token_ok malloc_ok s p \<longleftrightarrow> later s (snd p) \<and> (fst p = None \<longrightarrow> (\<exists>n. \<not> malloc_ok n)) \<and>
     (\<forall>t. fst p = Some t \<longrightarrow> tok_type t \<noteq> Special TOKEN_EOF)"

lemma create_token_None: "create_token malloc_ok ty v l c = None \<Longrightarrow> \<exists>n. \<not> malloc_ok n"
  by (auto simp: create_token_def split: if_splits option.splits)

lemma create_token_type: "create_token malloc_ok ty v l c = Some t \<Longrightarrow> tok_type t = ty"
  by (auto simp: create_token_def split: if_splits option.splits)

lemma token_ok_create [simp]:
  "ty \<noteq> Special TOKEN_EOF \<Longrightarrow>
    token_ok malloc_ok s (create_token malloc_ok ty v l c, s') \<longleftrightarrow> later s s'"
  by (auto simp: token_ok_def dest: create_token_None create_token_type)

lemma safe_token_mono:
  "later s t \<Longrightarrow> safe malloc_ok t (token_ok malloc_ok t) r \<Longrightarrow> safe malloc_ok s (token_ok malloc_ok s) r"
  by (rule safe_later, assumption, erule safe_mono) (auto simp: token_ok_def intro: later_trans)

lemma safe_finish:
  "room malloc_ok 0 b \<Longrightarrow> later s s' \<Longrightarrow> ty \<noteq> Special TOKEN_EOF \<Longrightarrow>
    safe malloc_ok s (token_ok malloc_ok s) (finish malloc_ok ty b s')"
  unfolding finish_def by (rule safe_and_then [OF safe_put_end]) auto

lemma safe_oom_token:
  assumes "safe malloc_ok s (token_ok malloc_ok s) r"
  shows "(\<exists>p. oom_token malloc_ok msg r = Lexed p \<and> token_ok malloc_ok s p) \<or> oom_token malloc_ok msg r = Null_store \<and> \<not> malloc_ok 256"
  using assms by (auto simp: safe_def oom_token_def split: lexed.splits)

definition reads :: "(nat \<Rightarrow> bool) \<Rightarrow> LexerState \<Rightarrow> (Token option \<times> LexerState) lexed \<Rightarrow> bool" where
  "reads malloc_ok s r \<longleftrightarrow> (\<exists>p. r = Lexed p \<and> token_ok malloc_ok s p) \<or> r = Null_store \<and> \<not> malloc_ok 256"

lemma reads_oom_token:
  "safe malloc_ok s (token_ok malloc_ok s) r \<Longrightarrow> reads malloc_ok s (oom_token malloc_ok msg r)"
  unfolding reads_def by (rule safe_oom_token)

lemma reads_emit [simp]: "ty \<noteq> Special TOKEN_EOF \<Longrightarrow> later s s' \<Longrightarrow> reads malloc_ok s (emit malloc_ok ty text s')"
  by (simp add: reads_def emit_def)

lemma reads_read_string: "reads malloc_ok (advance s) (read_string malloc_ok s)"
  unfolding read_string_def
proof (rule reads_oom_token, rule safe_and_then)
  show "safe malloc_ok (advance s) (\<lambda>(s', b', h'). reader_ok malloc_ok (advance s) (s', b'))
      (string_loop malloc_ok (advance s) (new_buffer malloc_ok 256) False)"
    by (rule safe_string_loop) (auto intro: room_less room_new_buffer)
next
  fix x :: "LexerState \<times> lexbuf \<times> bool"
  assume x: "case x of (s', b', h') \<Rightarrow> reader_ok malloc_ok (advance s) (s', b')"
  obtain s' b h where "x = (s', b, h)"
    by (cases x)
  with x show "safe malloc_ok (advance s) (token_ok malloc_ok (advance s))
      (case x of (s', b, has_interp) \<Rightarrow>
          if \<not> at_end s' \<and> peek s' = 34
          then finish malloc_ok (Literal (if has_interp then TOKEN_INTERP_STRING else TOKEN_STRING_LITERAL))
                 b (advance s')
          else Lexed (create_token malloc_ok (Special TOKEN_ERROR) (Some (ascii ''unterminated string literal''))
                        (current_line s') (current_column s'), s'))"
    by (auto intro!: safe_finish intro: later_trans [OF _ later_advance])
qed

lemma safe_prefixed_number:
  assumes "room malloc_ok 255 b"
  shows "safe malloc_ok (advance s) (token_ok malloc_ok (advance s)) (prefixed_number malloc_ok p base skip s b)"
proof -
  let ?t = "advance s"
  have digits: "safe malloc_ok ?t (reader_ok malloc_ok ?t) (collect_digits malloc_ok p (advance ?t) b2)" if "room malloc_ok 253 b2" for b2
    by (rule safe_reader_advance [OF safe_collect_digits]) (use that in \<open>auto intro: room_less\<close>)
  show ?thesis
    unfolding prefixed_number_def
    apply (rule safe_and_then [OF safe_put [where k = 254]])
    subgoal using assms by (rule room_less) simp
    subgoal for b1
      apply (rule safe_and_then [OF safe_put [where k = 253]])
      subgoal by (auto elim: room_less)
      subgoal for b2
        apply (rule safe_and_then [OF digits])
        subgoal by simp
        subgoal for x
          by (cases x) (auto intro!: safe_and_then [OF safe_put_end])
        done
      done
    done
qed

text \<open>
  The first character of an identifier or number is always consumed.
\<close>

lemma safe_collect_first:
  assumes "\<not> at_end s" "p s"
  shows "safe malloc_ok (advance s) (reader_ok malloc_ok (advance s)) (collect malloc_ok p s (new_buffer malloc_ok 256))"
proof -
  let ?b = "new_buffer malloc_ok 256"
  show ?thesis
  proof (cases "malloc_ok 256")
    case True
    then have "and_then (grow malloc_ok 1 s ?b) (put (peek s)) = Lexed (?b\<lparr>stored := [peek s]\<rparr>)"
      by (simp add: new_buffer_def grow_def put_def)
    then have "collect malloc_ok p s ?b = collect malloc_ok p (advance s) (?b\<lparr>stored := [peek s]\<rparr>)"
      using assms by (subst collect.simps) simp
    moreover have "room malloc_ok 0 (?b\<lparr>stored := [peek s]\<rparr>)"
      using True by (simp add: room_def new_buffer_def)
    ultimately show ?thesis
      by (simp add: safe_collect)
  next
    case False
    then have "and_then (grow malloc_ok 1 s ?b) (put (peek s)) = Null_store"
      by (simp add: new_buffer_def grow_def put_def)
    then have "collect malloc_ok p s ?b = Null_store"
      using assms by (subst collect.simps) simp
    then show ?thesis
      using False by (simp add: safe_def)
  qed
qed

lemma reads_read_number:
  assumes "\<not> at_end s" "is_digit (peek s)"
  shows "reads malloc_ok (advance s) (read_number malloc_ok s)"
proof -
  let ?t = "advance s" and ?b = "new_buffer malloc_ok 256"
  have "safe malloc_ok ?t (token_ok malloc_ok ?t) (decimal_number malloc_ok s ?b)"
    unfolding decimal_number_def
    by (rule safe_and_then [OF safe_collect_first])
      (use assms in \<open>auto simp: in_number_def intro!: safe_finish intro: later_trans [OF _ later_advance]\<close>)
  moreover have "safe malloc_ok ?t (token_ok malloc_ok ?t) (prefixed_number malloc_ok p base skip s ?b)" for p base skip
    by (rule safe_prefixed_number [OF room_new_buffer])
  ultimately show ?thesis
    unfolding read_number_def Let_def by (intro reads_oom_token) auto
qed

lemma keyword_type_no_eof: "keyword_type name \<noteq> Special TOKEN_EOF"
proof -
  have "list_all (\<lambda>(k, ty). ty \<noteq> Special TOKEN_EOF) keyword_table"
    by code_simp
  then show ?thesis
    by (auto simp: keyword_type_def list_all_iff split: option.splits dest!: map_of_SomeD)
qed

lemma reads_read_identifier:
  assumes "\<not> at_end s" "is_ident (peek s)"
  shows "reads malloc_ok (advance s) (read_identifier malloc_ok s)"
  unfolding read_identifier_def
  by (rule reads_oom_token, rule safe_and_then [OF safe_collect_first])
    (use assms in \<open>auto intro!: safe_finish simp: keyword_type_no_eof\<close>)

lemma read_marker_ok:
  assumes "allocated b" "capacity b = 256" "length (stored b) \<le> 255"
  shows "\<exists>s' b'. read_marker s b = Lexed (s', b') \<and> later s s' \<and> room (\<lambda>_. True) 0 b'"
  using assms
proof (induction s b rule: read_marker.induct)
  case (1 s b)
  show ?case
  proof (cases "is_ident (peek s) \<and> length (stored b) < 256 - 1")
    case True
    let ?b' = "b\<lparr>stored := stored b @ [peek s]\<rparr>"
    have put: "put (peek s) b = Lexed ?b'"
      using True 1(2,3) by (simp add: put_def)
    have "\<exists>s' b'. read_marker (advance s) ?b' = Lexed (s', b') \<and> later (advance s) s' \<and> room (\<lambda>_. True) 0 b'"
      using 1(1) [OF True put] 1(2,3) True by simp
    with True put show ?thesis
      by (subst read_marker.simps) (auto intro: later_advance_trans)
  next
    case False
    with 1(2-4) show ?thesis
      by (subst read_marker.simps) (auto simp: room_def)
  qed
qed

lemma room_strip_newline: "room malloc_ok 0 b \<Longrightarrow> room malloc_ok 0 (strip_newline b)"
  by (auto simp: strip_newline_def room_def)

lemma reads_read_heredoc: "reads malloc_ok s (read_heredoc malloc_ok s)"
proof -
  let ?mb = "\<lparr>stored = [], capacity = 256, allocated = True\<rparr> :: lexbuf"
  obtain s1 mb where mb: "read_marker s ?mb = Lexed (s1, mb)" "later s s1" "room (\<lambda>_. True) 0 mb"
    using read_marker_ok [of ?mb s] by auto
  then obtain mb0 where mb0: "put 0 mb = Lexed mb0"
    by (auto simp: put_def room_def)
  let ?s2 = "skip_char 10 (skip_to_eol s1)"
  have s2: "later s ?s2"
    using mb(2) by (meson later_skip_char later_skip_to_eol later_trans)
  have body: "safe malloc_ok s (token_ok malloc_ok s)
      (and_then (put 0 (strip_newline b)) (\<lambda>b4.
         Lexed (create_token malloc_ok ty (Some (stored b4)) l (current_column s3), s3)))"
    if "room malloc_ok 0 b" "later ?s2 s3" "ty \<noteq> Special TOKEN_EOF" for b s3 l ty
    by (rule safe_and_then [OF safe_put_end [OF room_strip_newline]])
      (use that s2 in \<open>auto intro: later_trans\<close>)
  have loop: "safe malloc_ok s (reader_ok malloc_ok ?s2) (heredoc_loop malloc_ok (stored mb) ?s2 (new_buffer malloc_ok 4096))"
    if "malloc_ok 4096"
    using s2 by (rule safe_later) (use that in \<open>auto intro!: safe_heredoc_loop simp: room_def new_buffer_def\<close>)
  have alloc: "allocated (new_buffer malloc_ok 4096) = malloc_ok 4096"
    by (simp add: new_buffer_def)
  show ?thesis
  proof (cases "malloc_ok 4096")
    case True
    have "safe malloc_ok s (token_ok malloc_ok s)
       (and_then (heredoc_loop malloc_ok (stored mb) ?s2 (new_buffer malloc_ok 4096)) (\<lambda>(s3, b3).
        and_then (put 0 (strip_newline b3)) (\<lambda>b4.
          Lexed (create_token malloc_ok (Literal TOKEN_STRING_LITERAL) (Some (stored b4))
                   (current_line ?s2) (current_column s3), s3))))"
      by (rule safe_and_then [OF loop [OF True]]) (use body in auto)
    then have "reads malloc_ok s (oom_token malloc_ok ''heredoc too large''
       (and_then (heredoc_loop malloc_ok (stored mb) ?s2 (new_buffer malloc_ok 4096)) (\<lambda>(s3, b3).
        and_then (put 0 (strip_newline b3)) (\<lambda>b4.
          Lexed (create_token malloc_ok (Literal TOKEN_STRING_LITERAL) (Some (stored b4))
                   (current_line ?s2) (current_column s3), s3)))))"
      by (rule reads_oom_token)
    with True show ?thesis
      unfolding read_heredoc_def Let_def mb(1) and_then.simps prod.case mb0 alloc by simp
  next
    case False
    then show ?thesis
      by (simp add: read_heredoc_def mb mb0 Let_def alloc reads_def s2)
  qed
qed

lemma reads_later: "later s t \<Longrightarrow> reads malloc_ok t r \<Longrightarrow> reads malloc_ok s r"
  by (auto simp: reads_def token_ok_def intro: later_trans)

lemma reads_follow:
  "ty \<noteq> Special TOKEN_EOF \<Longrightarrow> list_all (\<lambda>(c, ty, text). ty \<noteq> Special TOKEN_EOF) alts \<Longrightarrow>
    reads malloc_ok s (follow malloc_ok alts ty text s)"
  by (induction alts) auto

lemma operator_tokens_no_eof:
  "map_of operator_tokens c = Some (alts, ty, text) \<Longrightarrow>
    ty \<noteq> Special TOKEN_EOF \<and> list_all (\<lambda>(c, ty, text). ty \<noteq> Special TOKEN_EOF) alts"
proof -
  assume "map_of operator_tokens c = Some (alts, ty, text)"
  moreover have "list_all (\<lambda>(c, alts, ty, text). ty \<noteq> Special TOKEN_EOF \<and>
      list_all (\<lambda>(c, ty, text). ty \<noteq> Special TOKEN_EOF) alts) operator_tokens"
    by code_simp
  ultimately show ?thesis
    by (auto simp: list_all_iff dest!: map_of_SomeD)
qed

lemma single_tokens_no_eof: "map_of single_tokens c = Some (ty, text) \<Longrightarrow> ty \<noteq> Special TOKEN_EOF"
proof -
  assume "map_of single_tokens c = Some (ty, text)"
  moreover have "list_all (\<lambda>(c, ty, text). ty \<noteq> Special TOKEN_EOF) single_tokens"
    by code_simp
  ultimately show ?thesis
    by (auto simp: list_all_iff dest!: map_of_SomeD)
qed

lemma reads_less_token: "reads malloc_ok s (less_token malloc_ok s)"
  by (auto simp: less_token_def Let_def intro!: reads_later [OF later_advance reads_read_heredoc])

lemma reads_greater_token: "reads malloc_ok s (greater_token malloc_ok s)"
  by (auto simp: greater_token_def)

lemma reads_punctuation_token: "reads malloc_ok (advance s) (punctuation_token malloc_ok s)"
  by (auto simp: punctuation_token_def Let_def reads_less_token reads_greater_token
      dest!: operator_tokens_no_eof single_tokens_no_eof intro!: reads_follow split: option.splits prod.splits)
    (simp add: reads_def)

lemma next_token_cases:
  obtains (eof) "at_end (skip_whitespace s)"
      "next_token malloc_ok s =
        Lexed (create_token malloc_ok (Special TOKEN_EOF) None (current_line (skip_whitespace s))
                 (current_column (skip_whitespace s)), skip_whitespace s)"
  | (comment) s' where "\<not> at_end (skip_whitespace s)" "skip_comment (skip_whitespace s) = Some s'"
      "next_token malloc_ok s = next_token malloc_ok s'"
  | (token) "\<not> at_end (skip_whitespace s)"
      "next_token malloc_ok s =
        (if peek (skip_whitespace s) = 34 then read_string malloc_ok (skip_whitespace s)
         else if is_digit (peek (skip_whitespace s)) then read_number malloc_ok (skip_whitespace s)
         else if is_alpha (peek (skip_whitespace s)) \<or> peek (skip_whitespace s) = 95
         then read_identifier malloc_ok (skip_whitespace s)
         else punctuation_token malloc_ok (skip_whitespace s))"
  by (cases "at_end (skip_whitespace s)";
      cases "if peek (skip_whitespace s) = 47 then skip_comment (skip_whitespace s) else None")
    (simp_all add: next_token.simps [of malloc_ok s] Let_def split: if_splits)

definition token_progress :: "(nat \<Rightarrow> bool) \<Rightarrow> LexerState \<Rightarrow> Token option \<times> LexerState \<Rightarrow> bool" where
  "token_progress malloc_ok s p \<longleftrightarrow>
     later s (snd p) \<and> (fst p = None \<longrightarrow> (\<exists>n. \<not> malloc_ok n)) \<and>
     (\<forall>t. fst p = Some t \<longrightarrow>
        (if tok_type t = Special TOKEN_EOF then at_end (snd p) else current_pos s < current_pos (snd p)))"

lemma later_progress:
  "later s u \<Longrightarrow> token_progress malloc_ok u p \<Longrightarrow> token_progress malloc_ok s p"
  by (auto simp: token_progress_def intro: later_trans) (auto simp: later_def)

lemma reads_progress:
  assumes "\<not> at_end s" "reads malloc_ok (advance s) r"
  shows "(\<exists>p. r = Lexed p \<and> token_progress malloc_ok s p) \<or> r = Null_store \<and> \<not> malloc_ok 256"
  using assms
  by (auto simp: reads_def token_ok_def token_progress_def later_advance_progress intro: later_advance_trans)

lemma next_token_ok:
  "(\<exists>p. next_token malloc_ok s = Lexed p \<and> token_progress malloc_ok s p) \<or> next_token malloc_ok s = Null_store \<and> \<not> malloc_ok 256"
proof (induction malloc_ok s rule: next_token.induct)
  case (1 malloc_ok s)
  let ?t = "skip_whitespace s"
  show ?case
  proof (cases rule: next_token_cases [of s malloc_ok])
    case eof
    then show ?thesis
      by (auto simp: token_progress_def dest: create_token_None create_token_type)
  next
    case (comment s')
    then have "peek ?t = 47"
      by (auto simp: skip_comment_def split: if_splits)
    then have "(\<exists>p. next_token malloc_ok s' = Lexed p \<and> token_progress malloc_ok s' p) \<or> next_token malloc_ok s' = Null_store \<and> \<not> malloc_ok 256"
      using 1(1) [of ?t 47 s'] comment by auto
    moreover have "later s s'"
      using later_skip_comment [OF comment(2)] by (rule later_trans [OF later_skip_whitespace])
    ultimately show ?thesis
      using comment(3) later_progress by metis
  next
    case token
    have "reads malloc_ok (advance ?t) (next_token malloc_ok s)"
      unfolding token(2)
      using token(1)
      by (auto simp: reads_read_string reads_read_number reads_punctuation_token is_ident_def is_alnum_def
          intro!: reads_read_identifier)
    then show ?thesis
      using reads_progress [OF token(1)] later_progress [OF later_skip_whitespace] by blast
  qed
qed

lemma later_pos_le: "lex_inv s \<Longrightarrow> later s s' \<Longrightarrow> current_pos s' \<le> length (source s)"
  by (auto simp: later_def lex_inv_def)

subsection \<open>What the readers deliver\<close>

lemma at_end_rest: "lex_inv s \<Longrightarrow> at_end s \<longleftrightarrow> rest s = []"
  by (auto simp: at_end_def rest_def lex_inv_def)

lemma peek_rest: "lex_inv s \<Longrightarrow> rest s = c # r \<Longrightarrow> peek s = c \<and> \<not> at_end s"
  by (auto simp: peek_def at_end_def rest_def lex_inv_def) (metis nth_via_drop)+

lemma rest_advance: "lex_inv s \<Longrightarrow> rest s = c # r \<Longrightarrow> rest (advance s) = r"
  by (auto simp: rest_def advance_def at_end_def lex_inv_def) (metis drop_Suc list.sel(3) tl_drop)+

lemma next_is_rest: "lex_inv s \<Longrightarrow> rest s = d # r \<Longrightarrow> next_is c s \<longleftrightarrow> (\<exists>r'. r = c # r')"
proof -
  assume inv: "lex_inv s" and r: "rest s = d # r"
  then have "rest (advance s) = r"
    by (rule rest_advance)
  moreover have "current_pos (advance s) = current_pos s + 1"
    using peek_rest [OF inv r] by (simp add: advance_def)
  ultimately have "drop (current_pos s + 1) (source s) = r"
    by (simp add: rest_def) (simp add: advance_def split: if_splits)
  then show ?thesis
    using inv by (auto simp: next_is_def lex_inv_def) (metis Cons_nth_drop_Suc Suc_eq_plus1 nth_via_drop not_less drop_all list.distinct(1))+
qed

lemma rest_no_nul: "lex_inv s \<Longrightarrow> 0 \<notin> set (rest s)"
  by (auto simp: rest_def lex_inv_def dest: in_set_dropD)

lemma grow_put_total:
  assumes "\<forall>n. malloc_ok n" "room malloc_ok 0 b" "k \<le> 250"
  shows "\<exists>b'. grow malloc_ok k s b = Lexed b' \<and> room malloc_ok k b' \<and> stored b' = stored b"
  using safe_grow [OF assms(2,3), of s] assms(1)
  by (cases "grow malloc_ok k s b") (auto simp: safe_def)

lemma put_total: "malloc_ok 256 \<Longrightarrow> room malloc_ok (Suc k) b \<Longrightarrow> \<exists>b'. put c b = Lexed b' \<and> room malloc_ok k b' \<and> stored b' = stored b @ [c]"
  by (auto simp: put_def room_def)

lemma grow1_put_total:
  assumes "\<forall>n. malloc_ok n" "room malloc_ok 0 b"
  shows "\<exists>b'. and_then (grow malloc_ok 1 s b) (put c) = Lexed b' \<and> room malloc_ok 0 b' \<and> stored b' = stored b @ [c]"
  using grow_put_total [OF assms, of 1 s] put_total [of malloc_ok 0 _ c] assms(1) by fastforce

lemma collect_spec:
  assumes "\<forall>n. malloc_ok n" "lex_inv s" "room malloc_ok 0 b" "rest s = name @ post"
    and "\<forall>c\<in>set name. p c" "post = [] \<or> \<not> p (hd post)"
  shows "\<exists>s' b'. collect malloc_ok (\<lambda>s. p (peek s)) s b = Lexed (s', b') \<and> lex_inv s' \<and> rest s' = post \<and>
           room malloc_ok 0 b' \<and> stored b' = stored b @ name"
  using assms(2-5)
proof (induction name arbitrary: s b)
  case Nil
  then have "at_end s \<or> \<not> p (peek s)"
    using assms(6) peek_rest [of s] at_end_rest [of s] by (cases post) auto
  with Nil show ?case
    by (subst collect.simps) auto
next
  case (Cons c name)
  have c: "peek s = c" "\<not> at_end s" and r: "rest (advance s) = name @ post"
    using peek_rest [of s c "name @ post"] rest_advance [of s c "name @ post"] Cons.prems by auto
  obtain b' where b': "and_then (grow malloc_ok 1 s b) (put c) = Lexed b'" "room malloc_ok 0 b'" "stored b' = stored b @ [c]"
    using grow1_put_total [OF assms(1) Cons.prems(2)] by blast
  have "collect malloc_ok (\<lambda>s. p (peek s)) s b = collect malloc_ok (\<lambda>s. p (peek s)) (advance s) b'"
    using c b'(1) Cons.prems(4) by (subst collect.simps) simp
  then show ?case
    using Cons.IH [OF lex_inv_advance [OF Cons.prems(1)] b'(2) r] Cons.prems(4) b'(3) by auto
qed

lemma collect_digits_spec:
  assumes "\<forall>n. malloc_ok n" "lex_inv s" "room malloc_ok 0 b" "rest s = ds @ post"
    and "\<forall>c\<in>set ds. p c \<or> c = 95" "post = [] \<or> \<not> p (hd post) \<and> hd post \<noteq> 95"
  shows "\<exists>s' b'. collect_digits malloc_ok p s b = Lexed (s', b') \<and> lex_inv s' \<and> rest s' = post \<and>
           room malloc_ok 0 b' \<and> stored b' = stored b @ filter (\<lambda>c. c \<noteq> 95) ds"
  using assms(2-5)
proof (induction ds arbitrary: s b)
  case Nil
  then have "at_end s \<or> \<not> p (peek s) \<and> peek s \<noteq> 95"
    using assms(6) peek_rest [of s] at_end_rest [of s] by (cases post) auto
  with Nil show ?case
    by (subst collect_digits.simps) auto
next
  case (Cons c ds)
  have c: "peek s = c" "\<not> at_end s" and r: "rest (advance s) = ds @ post"
    using peek_rest [of s c "ds @ post"] rest_advance [of s c "ds @ post"] Cons.prems by auto
  note IH = Cons.IH [OF lex_inv_advance [OF Cons.prems(1)] _ r]
  show ?case
  proof (cases "c = 95")
    case True
    then have "collect_digits malloc_ok p s b = collect_digits malloc_ok p (advance s) b"
      using c by (subst collect_digits.simps) simp
    with IH [OF Cons.prems(2)] Cons.prems(4) True show ?thesis
      by auto
  next
    case False
    obtain b' where b': "and_then (grow malloc_ok 1 s b) (put c) = Lexed b'" "room malloc_ok 0 b'" "stored b' = stored b @ [c]"
      using grow1_put_total [OF assms(1) Cons.prems(2)] by blast
    have "collect_digits malloc_ok p s b = collect_digits malloc_ok p (advance s) b'"
      using c b'(1) Cons.prems(4) False by (subst collect_digits.simps) simp
    with IH [OF b'(2)] Cons.prems(4) b'(3) False show ?thesis
      by auto
  qed
qed

text \<open>
  The printer of string literals that the reader inverts.
\<close>

definition escape_char :: "nat \<Rightarrow> bytes" where
  "escape_char c =
     (if c = 10 then [92, 110] else if c = 9 then [92, 116] else if c = 13 then [92, 114]
      else if c = 34 \<or> c = 92 \<or> c = 36 then [92, c] else [c])"

definition escape :: "bytes \<Rightarrow> bytes" where
  "escape str = concat (map escape_char str)"

lemma string_step_escape:
  assumes "\<forall>n. malloc_ok n" "lex_inv s" "room malloc_ok 0 b" "rest s = escape_char c @ r"
  shows "\<exists>s' b'. string_step malloc_ok s b False = Lexed (s', b', False) \<and> lex_inv s' \<and> rest s' = r \<and>
           room malloc_ok 0 b' \<and> stored b' = stored b @ [c] \<and> \<not> at_end s \<and> peek s \<noteq> 34"
proof -
  obtain b1 where b1: "grow malloc_ok 3 s b = Lexed b1" "room malloc_ok 3 b1" "stored b1 = stored b"
    using grow_put_total [OF assms(1,3), of 3 s] by auto
  then have "room malloc_ok (Suc 0) b1"
    by (auto intro: room_less)
  from put_total [OF _ this] assms(1) obtain b2 where b2: "put c b1 = Lexed b2" "room malloc_ok 0 b2" "stored b2 = stored b @ [c]"
    using b1(3) by metis
  show ?thesis
  proof (cases "escape_char c = [c]")
    case True
    then have r: "rest s = c # r" and c: "c \<noteq> 36" "c \<noteq> 92" "c \<noteq> 34"
      using assms(4) by (auto simp: escape_char_def split: if_splits)
    then show ?thesis
      using b1 b2 peek_rest [OF assms(2) r] rest_advance [OF assms(2) r] lex_inv_advance [OF assms(2)]
      by (simp add: string_step_def)
  next
    case False
    then obtain d where d: "rest s = 92 # d # r" "escape_char c = [92, d]"
      using assms(4) by (auto simp: escape_char_def split: if_splits)
    let ?s1 = "advance s"
    have inv1: "lex_inv ?s1" and r1: "rest ?s1 = d # r"
      using lex_inv_advance [OF assms(2)] rest_advance [OF assms(2) d(1)] by auto
    have inv2: "lex_inv (advance ?s1)" and r2: "rest (advance ?s1) = r" and d1: "peek ?s1 = d"
      using lex_inv_advance [OF inv1] rest_advance [OF inv1 r1] peek_rest [OF inv1 r1] by auto
    have "cooked_escape s = (advance ?s1, c)"
      using d(2) False by (auto simp: cooked_escape_def Let_def d1 escape_char_def is_octal_def split: if_splits)
    then show ?thesis
      using b1 b2 peek_rest [OF assms(2) d(1)] inv2 r2 by (simp add: string_step_def)
  qed
qed

lemma string_loop_escape:
  assumes "\<forall>n. malloc_ok n" "lex_inv s" "room malloc_ok 0 b" "rest s = escape str @ 34 # r"
  shows "\<exists>s' b'. string_loop malloc_ok s b False = Lexed (s', b', False) \<and> lex_inv s' \<and> rest s' = 34 # r \<and>
           room malloc_ok 0 b' \<and> stored b' = stored b @ str"
  using assms(2-4)
proof (induction str arbitrary: s b)
  case Nil
  then show ?case
    using peek_rest [of s 34 r] by (subst string_loop.simps) (simp add: escape_def)
next
  case (Cons c str)
  then have "rest s = escape_char c @ escape str @ 34 # r"
    by (simp add: escape_def)
  then obtain s1 b1 where s1: "string_step malloc_ok s b False = Lexed (s1, b1, False)" "lex_inv s1"
      "rest s1 = escape str @ 34 # r" "room malloc_ok 0 b1" "stored b1 = stored b @ [c]" "\<not> at_end s" "peek s \<noteq> 34"
    using string_step_escape [OF assms(1) Cons.prems(1,2)] by blast
  then have "string_loop malloc_ok s b False = string_loop malloc_ok s1 b1 False"
    by (subst string_loop.simps) simp
  with Cons.IH [OF s1(2,4,3)] s1(5) show ?case
    by auto
qed

lemma strlen_text: "0 \<notin> set str \<Longrightarrow> strlen (str @ [0]) = length str"
  by (induction str) (auto simp: strlen_def)

lemma finish_total:
  assumes "\<forall>n. malloc_ok n" "room malloc_ok 0 b" "0 \<notin> set (stored b)"
  shows "finish malloc_ok ty b s =
    Lexed (Some \<lparr>tok_type = ty, tok_value = Some (stored b), tok_line = current_line s, tok_column = current_column s\<rparr>, s)"
  using assms strlen_text [OF assms(3)]
  by (auto simp: finish_def put_def room_def create_token_def)

lemma skip_whitespace_token:
  "lex_inv s \<Longrightarrow> rest s = c # r \<Longrightarrow> c \<notin> {32, 9, 13, 10} \<Longrightarrow> skip_whitespace s = s"
  using peek_rest [of s c r] by (subst skip_whitespace.simps) auto

lemma next_token_start:
  assumes "lex_inv s" "rest s = c # r" "c \<notin> {32, 9, 13, 10, 47}"
  shows "next_token malloc_ok s =
    (if c = 34 then read_string malloc_ok s else if is_digit c then read_number malloc_ok s
     else if is_alpha c \<or> c = 95 then read_identifier malloc_ok s else punctuation_token malloc_ok s)"
  using skip_whitespace_token [OF assms(1,2)] peek_rest [OF assms(1,2)] assms(3)
  by (simp add: next_token.simps [of malloc_ok s] Let_def)

lemma stored_new_buffer [simp]: "stored (new_buffer malloc_ok n) = []"
  by (simp add: new_buffer_def)

lemma read_string_escape:
  assumes "\<forall>n. malloc_ok n" "lex_inv s" "rest s = 34 # escape str @ 34 # post" "0 \<notin> set str"
  shows "\<exists>s'. read_string malloc_ok s =
      Lexed (Some \<lparr>tok_type = Literal TOKEN_STRING_LITERAL, tok_value = Some str,
                   tok_line = current_line s', tok_column = current_column s'\<rparr>, s') \<and>
      lex_inv s' \<and> rest s' = post"
proof -
  have room: "room malloc_ok 0 (new_buffer malloc_ok 256)"
    using assms(1) by (simp add: room_def new_buffer_def)
  obtain s' b' where s': "string_loop malloc_ok (advance s) (new_buffer malloc_ok 256) False = Lexed (s', b', False)"
      "lex_inv s'" "rest s' = 34 # post" "room malloc_ok 0 b'" "stored b' = str"
    using string_loop_escape [OF assms(1) lex_inv_advance [OF assms(2)] room rest_advance [OF assms(2,3)]]
    by auto
  have "read_string malloc_ok s = oom_token malloc_ok ''out of memory''
      (finish malloc_ok (Literal TOKEN_STRING_LITERAL) b' (advance s'))"
    using peek_rest [OF s'(2,3)] by (simp add: read_string_def s'(1))
  then show ?thesis
    using finish_total [OF assms(1) s'(4)] s'(5) assms(4) lex_inv_advance [OF s'(2)] rest_advance [OF s'(2,3)]
    by (auto simp: oom_token_def)
qed

lemma read_identifier_name:
  assumes "\<forall>n. malloc_ok n" "lex_inv s" "rest s = name @ post" "\<forall>c\<in>set name. is_ident c"
    and "post = [] \<or> \<not> is_ident (hd post)"
  shows "\<exists>s'. read_identifier malloc_ok s =
      Lexed (Some \<lparr>tok_type = keyword_type name, tok_value = Some name,
                   tok_line = current_line s', tok_column = current_column s'\<rparr>, s') \<and>
      lex_inv s' \<and> rest s' = post"
proof -
  have room: "room malloc_ok 0 (new_buffer malloc_ok 256)"
    using assms(1) by (simp add: room_def new_buffer_def)
  obtain s' b' where s': "collect malloc_ok (\<lambda>s. is_ident (peek s)) s (new_buffer malloc_ok 256) = Lexed (s', b')"
      "lex_inv s'" "rest s' = post" "room malloc_ok 0 b'" "stored b' = name"
    using collect_spec [OF assms(1,2) room assms(3-5)] by auto
  moreover have "0 \<notin> set name"
    using rest_no_nul [OF assms(2)] assms(3) by simp
  ultimately show ?thesis
    using finish_total [OF assms(1) s'(4)] by (simp add: read_identifier_def oom_token_def)
qed

definition number_base :: "nat \<Rightarrow> nat option" where
  "number_base c =
     (if c = 120 \<or> c = 88 then Some 16 else if c = 111 \<or> c = 79 then Some 8
      else if c = 98 \<or> c = 66 then Some 2 else None)"

lemma takeWhile_digits_nul:
  "\<forall>c\<in>set ds. digit_of_base base c \<Longrightarrow> takeWhile (digit_of_base base) (ds @ [0]) = ds"
  by (induction ds) (auto simp: digit_of_base_def is_xdigit_def is_digit_def)

lemma strtol_prefixed:
  assumes "\<forall>c\<in>set ds. digit_of_base base c" "number_base x = Some base"
  shows "strtol_digits base (drop (if base = 16 then 0 else 2) (48 # x # ds @ [0])) =
    min (int (digits_value base ds)) (2 ^ 63 - 1)"
proof (cases "base = 16")
  case False
  then have "(case ds @ [0] of c0 # c1 # c2 # r \<Rightarrow>
       if base = 16 \<and> c0 = 48 \<and> (c1 = 120 \<or> c1 = 88) \<and> is_xdigit c2 then c2 # r else ds @ [0] | _ \<Rightarrow> ds @ [0]) = ds @ [0]"
    by (auto split: list.splits)
  with False show ?thesis
    by (simp add: strtol_digits_def Let_def takeWhile_digits_nul [OF assms(1)])
next
  case True
  with assms(2) have x: "x = 120 \<or> x = 88" "\<not> digit_of_base 16 x"
    by (auto simp: number_base_def digit_of_base_def is_xdigit_def is_digit_def split: if_splits)
  show ?thesis
  proof (cases ds)
    case Nil
    then show ?thesis
      using True x(1) by (auto simp: strtol_digits_def digits_value_def is_xdigit_def is_digit_def
          digit_of_base_def digit_value_def)
  next
    case (Cons c ds')
    then have "is_xdigit c"
      using assms(1) by (simp add: digit_of_base_def)
    with True x Cons show ?thesis
      using takeWhile_digits_nul [OF assms(1)] by (simp add: strtol_digits_def)
  qed
qed

lemma print_int_no_nul: "0 \<notin> set (print_int v)"
proof -
  have "0 \<notin> set (decimal n)" for n
    by (induction n rule: decimal.induct) (subst decimal.simps, auto)
  then show ?thesis
    by (simp add: print_int_def)
qed

lemma takeWhile_no_nul: "0 \<notin> set m \<Longrightarrow> takeWhile (\<lambda>c. c \<noteq> (0::nat)) m = m"
  by (induction m) auto

lemma create_token_number:
  "\<forall>n. malloc_ok n \<Longrightarrow> create_token malloc_ok ty (Some (print_int v)) l c =
    Some \<lparr>tok_type = ty, tok_value = Some (print_int v), tok_line = l, tok_column = c\<rparr>"
  unfolding create_token_def option.case take_strlen takeWhile_no_nul [OF print_int_no_nul] by simp

lemma prefixed_number_spec:
  assumes "\<forall>n. malloc_ok n" "lex_inv s" "rest s = 48 # x # ds @ post" "number_base x = Some base"
    and "\<And>c. p c \<longleftrightarrow> digit_of_base base c" "skip = (if base = 16 then 0 else 2)"
    and "\<forall>c\<in>set ds. digit_of_base base c \<or> c = 95"
    and "post = [] \<or> \<not> digit_of_base base (hd post) \<and> hd post \<noteq> 95"
  shows "\<exists>s'. prefixed_number malloc_ok p base skip s (new_buffer malloc_ok 256) =
      Lexed (Some \<lparr>tok_type = Literal TOKEN_NUMBER,
                   tok_value = Some (print_int (min (int (digits_value base (filter (\<lambda>c. c \<noteq> 95) ds))) (2 ^ 63 - 1))),
                   tok_line = current_line s', tok_column = current_column s'\<rparr>, s') \<and>
      lex_inv s' \<and> rest s' = post"
proof -
  let ?b = "new_buffer malloc_ok 256\<lparr>stored := [48, x]\<rparr>" and ?s2 = "advance (advance s)"
    and ?ds = "filter (\<lambda>c. c \<noteq> 95) ds"
  have inv1: "lex_inv (advance s)" and r1: "rest (advance s) = x # ds @ post"
    using lex_inv_advance [OF assms(2)] rest_advance [OF assms(2,3)] by auto
  have inv2: "lex_inv ?s2" and r2: "rest ?s2 = ds @ post"
    using lex_inv_advance [OF inv1] rest_advance [OF inv1 r1] by auto
  have room: "room malloc_ok 0 ?b"
    using assms(1) by (simp add: room_def new_buffer_def)
  obtain s' b' where s': "collect_digits malloc_ok p ?s2 ?b = Lexed (s', b')" "lex_inv s'" "rest s' = post"
      "room malloc_ok 0 b'" "stored b' = 48 # x # ?ds"
    using collect_digits_spec [OF assms(1) inv2 room r2, of p] assms(5,7,8) by auto
  let ?b1 = "new_buffer malloc_ok 256\<lparr>stored := [48]\<rparr>"
  have put: "put 48 (new_buffer malloc_ok 256) = Lexed ?b1" "put x ?b1 = Lexed ?b"
    using assms(1) by (simp_all add: put_def new_buffer_def)
  have put0: "put 0 b' = Lexed (b'\<lparr>stored := 48 # x # ?ds @ [0]\<rparr>)"
    using s'(4,5) assms(1) by (simp add: put_def room_def)
  have "peek s = 48" "peek (advance s) = x"
    using peek_rest [OF assms(2,3)] peek_rest [OF inv1 r1] by auto
  then have "prefixed_number malloc_ok p base skip s (new_buffer malloc_ok 256) =
      Lexed (create_token malloc_ok (Literal TOKEN_NUMBER)
        (Some (print_int (strtol_digits base (drop skip (48 # x # ?ds @ [0])))))
        (current_line s') (current_column s'), s')"
    by (simp add: prefixed_number_def put s'(1) put0 del: drop_Cons')
  moreover have "strtol_digits base (drop skip (48 # x # ?ds @ [0])) = min (int (digits_value base ?ds)) (2 ^ 63 - 1)"
    unfolding assms(6) by (rule strtol_prefixed) (use assms(4,7) in auto)
  ultimately have "prefixed_number malloc_ok p base skip s (new_buffer malloc_ok 256) =
      Lexed (create_token malloc_ok (Literal TOKEN_NUMBER)
        (Some (print_int (min (int (digits_value base ?ds)) (2 ^ 63 - 1))))
        (current_line s') (current_column s'), s')"
    by simp
  with create_token_number [OF assms(1)] s'(2,3) show ?thesis
    by auto
qed

lemma read_number_prefixed:
  assumes "\<forall>n. malloc_ok n" "lex_inv s" "rest s = 48 # x # ds @ post" "number_base x = Some base"
    and "\<forall>c\<in>set ds. digit_of_base base c \<or> c = 95"
    and "post = [] \<or> \<not> digit_of_base base (hd post) \<and> hd post \<noteq> 95"
  shows "\<exists>s'. read_number malloc_ok s =
      Lexed (Some \<lparr>tok_type = Literal TOKEN_NUMBER,
                   tok_value = Some (print_int (min (int (digits_value base (filter (\<lambda>c. c \<noteq> 95) ds))) (2 ^ 63 - 1))),
                   tok_line = current_line s', tok_column = current_column s'\<rparr>, s') \<and>
      lex_inv s' \<and> rest s' = post"
proof -
  have xd: "is_xdigit c \<longleftrightarrow> digit_of_base 16 c" "is_octal c \<longleftrightarrow> digit_of_base 8 c"
    "c = 48 \<or> c = 49 \<longleftrightarrow> digit_of_base 2 c" for c
    by (auto simp: digit_of_base_def is_xdigit_def is_digit_def is_octal_def digit_value_def)
  have nx: "next_is c s \<longleftrightarrow> c = x" for c
    using next_is_rest [OF assms(2,3)] by auto
  have p: "peek s = 48"
    using peek_rest [OF assms(2,3)] by simp
  note spec = prefixed_number_spec [OF assms(1-4) _ _ assms(5,6)]
  consider "x = 120 \<or> x = 88" "base = 16" | "x = 111 \<or> x = 79" "base = 8" | "x = 98 \<or> x = 66" "base = 2"
    using assms(4) by (auto simp: number_base_def split: if_splits)
  then show ?thesis
  proof cases
    case 1
    then have "read_number malloc_ok s =
        oom_token malloc_ok ''out of memory'' (prefixed_number malloc_ok is_xdigit base 0 s (new_buffer malloc_ok 256))"
      by (auto simp: read_number_def Let_def nx p)
    with spec [of is_xdigit 0] xd(1) 1(2) show ?thesis
      by (auto simp: oom_token_def)
  next
    case 2
    then have "read_number malloc_ok s =
        oom_token malloc_ok ''out of memory'' (prefixed_number malloc_ok is_octal base 2 s (new_buffer malloc_ok 256))"
      by (auto simp: read_number_def Let_def nx p)
    with spec [of is_octal 2] xd(2) 2(2) show ?thesis
      by (auto simp: oom_token_def)
  next
    case 3
    then have "read_number malloc_ok s = oom_token malloc_ok ''out of memory''
        (prefixed_number malloc_ok (\<lambda>c. c = 48 \<or> c = 49) base 2 s (new_buffer malloc_ok 256))"
      by (auto simp: read_number_def Let_def nx p)
    with spec [of "\<lambda>c. c = 48 \<or> c = 49" 2] xd(3) 3(2) show ?thesis
      by (auto simp: oom_token_def)
  qed
qed

lemma keyword_type_table:
  "(k, ty) \<in> set keyword_table \<Longrightarrow> name = ascii k \<Longrightarrow> keyword_type name = ty"
  "name \<notin> (\<lambda>(k, kty). ascii k) ` set keyword_table \<Longrightarrow> keyword_type name = Literal TOKEN_IDENTIFIER"
proof -
  let ?t = "map (\<lambda>(k, ty). (ascii k, ty)) keyword_table"
  have "distinct (map fst ?t)"
    by code_simp
  moreover have "(ascii k, ty) \<in> set ?t" if "(k, ty) \<in> set keyword_table"
    using that by force
  ultimately show "(k, ty) \<in> set keyword_table \<Longrightarrow> name = ascii k \<Longrightarrow> keyword_type name = ty"
    using map_of_is_SomeI [of ?t "ascii k" ty] by (simp add: keyword_type_def)
  have "map_of ?t name = None" if "name \<notin> (\<lambda>(k, kty). ascii k) ` set keyword_table"
    using that by (auto simp: map_of_eq_None_iff image_iff split_beta)
  then show "name \<notin> (\<lambda>(k, kty). ascii k) ` set keyword_table \<Longrightarrow> keyword_type name = Literal TOKEN_IDENTIFIER"
    by (simp add: keyword_type_def)
qed

text \<open>
  \<open>yields malloc_ok s ts s'\<close>: the next calls of the lexer deliver the tokens \<open>ts\<close>, none of them an error or the end.
\<close>

inductive yields :: "(nat \<Rightarrow> bool) \<Rightarrow> LexerState \<Rightarrow> Token list \<Rightarrow> LexerState \<Rightarrow> bool" for malloc_ok where
  no_token: "yields malloc_ok s [] s"
| more: "next_token malloc_ok s = Lexed (Some t, s1) \<Longrightarrow> tok_type t \<notin> {Special TOKEN_EOF, Special TOKEN_ERROR} \<Longrightarrow>
    yields malloc_ok s1 ts s' \<Longrightarrow> yields malloc_ok s (t # ts) s'"

lemma next_token_total:
  assumes "\<forall>n. malloc_ok n" "lex_inv s"
  obtains t s' where "next_token malloc_ok s = Lexed (Some t, s')" "lex_inv s'"
    "tok_type t \<noteq> Special TOKEN_EOF \<Longrightarrow> bytes_left s' < bytes_left s"
proof -
  obtain p where p: "next_token malloc_ok s = Lexed p" "token_progress malloc_ok s p"
    using next_token_ok [of malloc_ok s] assms(1) by auto
  then obtain t s' where t: "p = (Some t, s')"
    using assms(1) by (cases p; cases "fst p") (auto simp: token_progress_def)
  have "bytes_left s' < bytes_left s" if "tok_type t \<noteq> Special TOKEN_EOF"
  proof -
    have "current_pos s < current_pos s'" "current_pos s' \<le> source_length s" "source_length s' = source_length s"
      using p(2) t that assms(2) by (auto simp: token_progress_def later_def lex_inv_def)
    then show ?thesis
      by (auto simp: bytes_left_def)
  qed
  moreover have "lex_inv s'"
    using p(2) t assms(2) by (auto simp: token_progress_def later_def)
  ultimately show ?thesis
    using that p(1) t by blast
qed

lemma lex_tokens_outcome:
  assumes "\<forall>n. malloc_ok n" "lex_inv s"
  shows "case lex_tokens malloc_ok k s tokens of
       Tokens ts \<Rightarrow> \<exists>new e s' s''. ts = tokens @ new @ [e] \<and> yields malloc_ok s new s' \<and>
          next_token malloc_ok s' = Lexed (Some e, s'') \<and> tok_type e = Special TOKEN_EOF \<and> length new \<le> bytes_left s
     | Lex_error e \<Rightarrow> \<exists>new s' s''. yields malloc_ok s new s' \<and> next_token malloc_ok s' = Lexed (Some e, s'') \<and>
          tok_type e = Special TOKEN_ERROR \<and> length new < k
     | Too_many_tokens \<Rightarrow> k \<le> bytes_left s \<and> (\<exists>new s'. yields malloc_ok s new s' \<and> length new = k)
     | Crash \<Rightarrow> False"
  using assms(2)
proof (induction k arbitrary: s tokens)
  case 0
  then show ?case
    by (auto intro: no_token)
next
  case (Suc k)
  obtain t s1 where t: "next_token malloc_ok s = Lexed (Some t, s1)" "lex_inv s1"
      "tok_type t \<noteq> Special TOKEN_EOF \<Longrightarrow> bytes_left s1 < bytes_left s"
    using next_token_total [OF assms(1) Suc.prems] by blast
  show ?case
  proof (cases "tok_type t \<in> {Special TOKEN_EOF, Special TOKEN_ERROR}")
    case True
    then show ?thesis
      using t(1) no_token [of malloc_ok s] by fastforce
  next
    case False
    have step: "lex_tokens malloc_ok (Suc k) s tokens = lex_tokens malloc_ok k s1 (tokens @ [t])"
      using t(1) False by simp
    have y: "yields malloc_ok s1 ts s' \<Longrightarrow> yields malloc_ok s (t # ts) s'" for ts s'
      by (rule more [OF t(1) False])
    have left: "bytes_left s1 < bytes_left s"
      using t(3) False by simp
    note IH = Suc.IH [OF t(2), of "tokens @ [t]"]
    show ?thesis
    proof (cases "lex_tokens malloc_ok k s1 (tokens @ [t])")
      case (Tokens ts)
      then obtain new e s' s'' where "ts = tokens @ (t # new) @ [e]" "yields malloc_ok s1 new s'"
          "next_token malloc_ok s' = Lexed (Some e, s'')" "tok_type e = Special TOKEN_EOF" "length new \<le> bytes_left s1"
        using IH by auto
      then show ?thesis
        unfolding step Tokens lex_outcome.case using y [of new s'] left
        by (intro exI [of _ "t # new"] exI [of _ e] exI [of _ s'] exI [of _ s'']) simp
    next
      case (Lex_error e)
      then obtain new s' s'' where "yields malloc_ok s1 new s'" "next_token malloc_ok s' = Lexed (Some e, s'')"
          "tok_type e = Special TOKEN_ERROR" "length new < k"
        using IH by auto
      then show ?thesis
        unfolding step Lex_error lex_outcome.case using y [of new s'] by (intro exI [of _ "t # new"] exI [of _ s'] exI [of _ s'']) simp
    next
      case Too_many_tokens
      then obtain new s' where "yields malloc_ok s1 new s'" "length new = k" "k \<le> bytes_left s1"
        using IH by auto
      then show ?thesis
        unfolding step Too_many_tokens lex_outcome.case using y [of new s'] left by (intro conjI exI [of _ "t # new"] exI [of _ s']) simp_all
    next
      case Crash
      then show ?thesis
        using IH by simp
    qed
  qed
qed

subsection \<open>Properties\<close>

text \<open>C34. \<open>next_token\<close> always returns (the C recursion over comments ends), whatever bytes a source shorter than
  \<open>2 ^ 29\<close> bytes holds: every byte it stores, terminators included, lies inside the buffer that holds it, except that it
  stores through a null pointer when the unchecked request for the first 256 bytes of a buffer is refused.  It only moves
  forward in the source.  The line and column are those of the new position: one plus the newlines passed, one plus the
  bytes passed since the last newline.  It delivers no token only when an allocation was refused; the end token comes
  exactly at the end of the source, and every other token consumes something.
\<close>

theorem next_token_safe:
  assumes "lex_inv s" "length (source s) < 2 ^ 29"
  shows "(\<exists>t s'. next_token malloc_ok s = Lexed (t, s') \<and> lex_inv s' \<and> source s' = source s \<and>
     current_pos s \<le> current_pos s' \<and> (t = None \<longrightarrow> (\<exists>n. \<not> malloc_ok n)) \<and>
     (\<forall>tk. t = Some tk \<longrightarrow>
        (if tok_type tk = Special TOKEN_EOF then current_pos s' = length (source s)
         else current_pos s < current_pos s'))) \<or>
     next_token malloc_ok s = Null_store \<and> \<not> malloc_ok 256"
proof (cases "next_token malloc_ok s = Null_store \<and> \<not> malloc_ok 256")
  case False
  then obtain t s' where p: "next_token malloc_ok s = Lexed (t, s')" "token_progress malloc_ok s (t, s')"
    using next_token_ok [of malloc_ok s] by auto
  then have l: "later s s'"
    by (simp add: token_progress_def)
  have "current_pos s' = length (source s)" if "at_end s'"
    using that later_inv [OF l assms(1)] l by (auto simp: at_end_def lex_inv_def later_def)
  with p l assms(1) show ?thesis
    by (intro disjI1 exI [of _ t] exI [of _ s']) (auto simp: token_progress_def later_def)
qed simp

theorem next_token_safe_witness:
  "\<exists>t s'. next_token (\<lambda>n. True) (lexer_init [97, 0]) = Lexed (t, s') \<and> lex_inv s' \<and>
     current_pos (lexer_init [97, 0]) \<le> current_pos s'"
  using next_token_safe [OF lex_inv_example, of "[97, 0]" "\<lambda>n. True"] by (auto simp: lexer_init_def)

text \<open>C36. Lexing a whole file shorter than \<open>2 ^ 29\<close> bytes ends in one of three ways when all memory is granted, and a null
  token is never followed.  Either all tokens are there, the end token last and only last and none of them an error; or
  the token reported is the first error, after tokens that are neither errors nor the end; or the file has at least as
  many tokens before its end as the array has slots but one, which never happens to a file shorter than that.
\<close>

theorem lex_source_outcome:
  assumes "\<forall>n. malloc_ok n" "strlen src < 2 ^ 29"
  shows "case lex_source malloc_ok src of
       Tokens ts \<Rightarrow> \<exists>new e s' s''. ts = new @ [e] \<and> yields malloc_ok (lexer_init src) new s' \<and>
          next_token malloc_ok s' = Lexed (Some e, s'') \<and> tok_type e = Special TOKEN_EOF \<and> length new \<le> strlen src
     | Lex_error e \<Rightarrow> \<exists>new s' s''. yields malloc_ok (lexer_init src) new s' \<and>
          next_token malloc_ok s' = Lexed (Some e, s'') \<and> tok_type e = Special TOKEN_ERROR \<and> length new < max_tokens - 1
     | Too_many_tokens \<Rightarrow> max_tokens - 1 \<le> strlen src \<and>
          (\<exists>new s'. yields malloc_ok (lexer_init src) new s' \<and> length new = max_tokens - 1)
     | Crash \<Rightarrow> False"
proof -
  have s: "strlen src < 2 ^ 31"
    using assms(2) by simp
  have b: "bytes_left (lexer_init src) = strlen src"
    using source_length_init [OF s] by (simp add: bytes_left_def lexer_init_def)
  show ?thesis
    using lex_tokens_outcome [OF assms(1) lex_inv_lexer_init [OF s], of "[]" "max_tokens - 1"]
    unfolding lex_source_def b append_Nil .
qed

theorem lex_source_outcome_witness:
  "case lex_source (\<lambda>n. True) [120, 0] of
       Tokens ts \<Rightarrow> ts \<noteq> [] \<and> tok_type (last ts) = Special TOKEN_EOF \<and> length ts \<le> 2
     | Lex_error e \<Rightarrow> tok_type e = Special TOKEN_ERROR
     | Too_many_tokens \<Rightarrow> False
     | Crash \<Rightarrow> False"
proof -
  have l: "strlen [120, 0] = 1"
    by (simp add: strlen_def)
  show ?thesis
    using lex_source_outcome [of "\<lambda>n. True" "[120, 0]"] by (auto simp: l max_tokens_def split: lex_outcome.splits)
qed

text \<open>C35. String literals round trip: any text without a zero byte, written between quotes with its quotes, backslashes,
  dollar signs and control characters escaped, is read back as one string literal whose value is that text, and the lexer
  stands right after the closing quote.
\<close>

theorem string_literal_roundtrip:
  assumes "\<forall>n. malloc_ok n" "lex_inv s" "rest s = 34 # escape str @ 34 # post" "0 \<notin> set str"
  shows "\<exists>s'. next_token malloc_ok s =
      Lexed (Some \<lparr>tok_type = Literal TOKEN_STRING_LITERAL, tok_value = Some str,
                   tok_line = current_line s', tok_column = current_column s'\<rparr>, s') \<and>
      lex_inv s' \<and> rest s' = post"
  using read_string_escape [OF assms] next_token_start [OF assms(2,3)] by simp

theorem string_literal_roundtrip_witness:
  "\<exists>s'. next_token (\<lambda>n. True) (lexer_init [34, 97, 92, 110, 34, 59, 0]) =
      Lexed (Some \<lparr>tok_type = Literal TOKEN_STRING_LITERAL, tok_value = Some [97, 10],
                   tok_line = current_line s', tok_column = current_column s'\<rparr>, s') \<and>
      lex_inv s' \<and> rest s' = [59]"
  using string_literal_roundtrip [of "\<lambda>n. True" "lexer_init [34, 97, 92, 110, 34, 59, 0]" "[97, 10]" "[59]",
      OF _ lex_inv_example]
  by (simp add: rest_def lexer_init_def escape_def escape_char_def)

text \<open>Words are read with the longest match: a word of letters, digits and underscores that does not start with a
  digit becomes one token with the whole word as its value, of the keyword's type exactly when it is in the keyword
  table, an identifier otherwise.
\<close>

theorem word_token:
  assumes "\<forall>n. malloc_ok n" "lex_inv s" "rest s = name @ post" "name \<noteq> []" "\<forall>c\<in>set name. is_ident c"
    and "\<not> is_digit (hd name)" "post = [] \<or> \<not> is_ident (hd post)"
  shows "\<exists>s' ty. next_token malloc_ok s =
      Lexed (Some \<lparr>tok_type = ty, tok_value = Some name,
                   tok_line = current_line s', tok_column = current_column s'\<rparr>, s') \<and>
      lex_inv s' \<and> rest s' = post \<and>
      (\<forall>k kty. (k, kty) \<in> set keyword_table \<and> name = ascii k \<longrightarrow> ty = kty) \<and>
      (name \<notin> (\<lambda>(k, kty). ascii k) ` set keyword_table \<longrightarrow> ty = Literal TOKEN_IDENTIFIER)"
proof -
  obtain c r where c: "name = c # r"
    using assms(4) by (cases name) auto
  then have w: "is_alpha c \<or> c = 95" "\<not> is_digit c"
    using assms(5,6) by (auto simp: is_ident_def is_alnum_def)
  then have "next_token malloc_ok s = read_identifier malloc_ok s"
    using next_token_start [OF assms(2), of c "r @ post"] assms(3) c
    by (auto simp: is_alpha_def)
  with read_identifier_name [OF assms(1-3,5,7)] keyword_type_table(1) [of _ _ name] keyword_type_table(2) [of name] show ?thesis
    by auto
qed

theorem word_token_witness:
  "\<exists>s' ty. next_token (\<lambda>n. True) (lexer_init [105, 102, 40, 0]) =
      Lexed (Some \<lparr>tok_type = ty, tok_value = Some [105, 102],
                   tok_line = current_line s', tok_column = current_column s'\<rparr>, s') \<and>
      lex_inv s' \<and> rest s' = [40]"
  using word_token [of "\<lambda>n. True" "lexer_init [105, 102, 40, 0]" "[105, 102]" "[40]", OF _ lex_inv_example]
  by (auto simp: rest_def lexer_init_def is_ident_def is_alnum_def is_alpha_def is_digit_def)

text \<open>A literal with a \<^verbatim>\<open>0x\<close>, \<^verbatim>\<open>0o\<close> or \<^verbatim>\<open>0b\<close> prefix becomes a number token whose value is the
  number its digits denote in that base, underscores left out, printed in decimal and clamped to the largest 64-bit
  signed integer; all its digits are consumed.
\<close>

theorem radix_literal_token:
  assumes "\<forall>n. malloc_ok n" "lex_inv s" "rest s = 48 # x # ds @ post" "number_base x = Some base"
    and "\<forall>c\<in>set ds. digit_of_base base c \<or> c = 95"
    and "post = [] \<or> \<not> digit_of_base base (hd post) \<and> hd post \<noteq> 95"
  shows "\<exists>s'. next_token malloc_ok s =
      Lexed (Some \<lparr>tok_type = Literal TOKEN_NUMBER,
                   tok_value = Some (print_int (min (int (digits_value base (filter (\<lambda>c. c \<noteq> 95) ds))) (2 ^ 63 - 1))),
                   tok_line = current_line s', tok_column = current_column s'\<rparr>, s') \<and>
      lex_inv s' \<and> rest s' = post"
  using read_number_prefixed [OF assms] next_token_start [OF assms(2,3)] by (simp add: is_digit_def)

theorem radix_literal_token_witness:
  "\<exists>s'. next_token (\<lambda>n. True) (lexer_init [48, 120, 49, 95, 102, 59, 0]) =
      Lexed (Some \<lparr>tok_type = Literal TOKEN_NUMBER, tok_value = Some [51, 49],
                   tok_line = current_line s', tok_column = current_column s'\<rparr>, s') \<and>
      lex_inv s' \<and> rest s' = [59]"
  using radix_literal_token [of "\<lambda>n. True" "lexer_init [48, 120, 49, 95, 102, 59, 0]" 120 "[49, 95, 102]" "[59]" 16,
      OF _ lex_inv_example]
  by (simp add: rest_def lexer_init_def number_base_def digit_of_base_def is_xdigit_def is_digit_def digit_value_def
      digits_value_def print_int_def decimal.simps)

text \<open>
  The end marker of a heredoc is taken wherever it ends a line, so the body below stops inside its first line;
  a quoted text after an interpolation keeps its escapes while one before it has them resolved, and both are
  tokens of the same type.
\<close>

lemma heredoc_marker_in_line:
  "(case next_token (\<lambda>n. True) (lexer_init (ascii ''<<E'' @ [10] @ ascii ''aE'' @ [10] @ ascii ''b'' @ [10] @ ascii ''E'' @ [10])) of
      Lexed (Some t, s') \<Rightarrow> tok_value t = Some (ascii ''a'') \<and> rest s' = ascii ''b'' @ [10] @ ascii ''E'' @ [10]
    | _ \<Rightarrow> False)"
  by code_simp

lemma escape_before_interpolation:
  "(case next_token (\<lambda>n. True) (lexer_init (34 # 92 # 92 # 110 # ascii ''${x}'' @ [34])) of
      Lexed (Some t, s') \<Rightarrow> tok_type t = Literal TOKEN_INTERP_STRING \<and> tok_value t = Some (92 # 110 # ascii ''${x}'')
    | _ \<Rightarrow> False)"
  by code_simp

end
