(* ===== verification/AetherSeq.thy ===== *)
theory AetherSeq
  imports Prelude
begin

section \<open>Shared string sequences of the Aether library\<close>

text \<open>
  Models \<^verbatim>\<open>std/collections/aether_stringseq.c\<close>: immutable cons cells with reference counts that
  share their tails, and the reference counts of the strings they hold (\<^verbatim>\<open>string_retain\<close> and
  \<^verbatim>\<open>string_release\<close> of \<^verbatim>\<open>aether_string.c\<close>).  The store is a \<open>seqheap\<close>: the live cells
  by address and the counts of the live strings by address.  Every operation is partial: it is \<open>None\<close> when it
  follows a pointer to a cell or string that is not live, and for the loops also when they do not end, so a
  theorem that an operation gives \<open>Some\<close> says that it ends and never touches freed memory.  \<open>alloc\<close>
  is the C allocator for cells: a refusal, or an address, which the theorems require to be unused.  Counts and
  cached lengths are taken below \<open>2 ^ 31\<close>.
\<close>

subsection \<open>Store\<close>

datatype strref = NullStr | Lit bytes | Obj nat

record StringSeq =
  ref_count :: int
  seq_length :: nat
  head :: strref
  tail :: "nat option"

record seqheap =
  cells :: "nat \<rightharpoonup> StringSeq"
  strs :: "nat \<rightharpoonup> int"

type_synonym allocator = "seqheap \<Rightarrow> nat option"

fun string_retain :: "strref \<Rightarrow> seqheap \<Rightarrow> seqheap option" where
  "string_retain (Obj i) h =
     (case strs h i of None \<Rightarrow> None | Some n \<Rightarrow> Some (h\<lparr>strs := (strs h)(i \<mapsto> n + 1)\<rparr>))"
| "string_retain s h = Some h"

fun string_release :: "strref \<Rightarrow> seqheap \<Rightarrow> seqheap option" where
  "string_release (Obj i) h =
     (case strs h i of
        None \<Rightarrow> None
      | Some n \<Rightarrow> Some (h\<lparr>strs := (strs h)(i := (if n - 1 \<le> 0 then None else Some (n - 1)))\<rparr>))"
| "string_release s h = Some h"

subsection \<open>Cells\<close>

definition string_seq_empty :: "nat option" where
  "string_seq_empty = None"

fun string_seq_retain :: "nat option \<Rightarrow> seqheap \<Rightarrow> seqheap option" where
  "string_seq_retain None h = Some h"
| "string_seq_retain (Some a) h =
     (case cells h a of
        None \<Rightarrow> None
      | Some c \<Rightarrow> Some (h\<lparr>cells := (cells h)(a \<mapsto> c\<lparr>ref_count := ref_count c + 1\<rparr>)\<rparr>))"

fun string_seq_length :: "nat option \<Rightarrow> seqheap \<Rightarrow> nat option" where
  "string_seq_length None h = Some 0"
| "string_seq_length (Some a) h = map_option seq_length (cells h a)"

fun string_seq_head :: "nat option \<Rightarrow> seqheap \<Rightarrow> strref option" where
  "string_seq_head None h = Some (Lit [])"
| "string_seq_head (Some a) h = map_option head (cells h a)"

fun string_seq_tail :: "nat option \<Rightarrow> seqheap \<Rightarrow> nat option option" where
  "string_seq_tail None h = Some None"
| "string_seq_tail (Some a) h = map_option tail (cells h a)"

definition string_seq_is_empty :: "nat option \<Rightarrow> bool" where
  "string_seq_is_empty p \<longleftrightarrow> p = None"

text \<open>
  The new cell is written last; the C code fills it between the two retains, which do not see it.
\<close>

definition string_seq_cons :: "allocator \<Rightarrow> strref \<Rightarrow> nat option \<Rightarrow> seqheap \<Rightarrow> (nat option \<times> seqheap) option" where
  "string_seq_cons alloc el t h =
     (case alloc h of
        None \<Rightarrow> Some (None, h)
      | Some a \<Rightarrow>
          Option.bind (string_seq_length t h) (\<lambda>n.
          Option.bind (string_retain el h) (\<lambda>h1.
          Option.bind (string_seq_retain t h1) (\<lambda>h2.
            Some (Some a, h2\<lparr>cells := (cells h2)(a \<mapsto>
              \<lparr>ref_count = 1, seq_length = n + 1, head = el, tail = t\<rparr>)\<rparr>)))))"

partial_function (option) string_seq_free :: "nat option \<Rightarrow> seqheap \<Rightarrow> seqheap option" where
  "string_seq_free p h =
     (case p of
        None \<Rightarrow> Some h
      | Some a \<Rightarrow>
          (case cells h a of
             None \<Rightarrow> None
           | Some c \<Rightarrow>
               if ref_count c - 1 > 0
               then Some (h\<lparr>cells := (cells h)(a \<mapsto> c\<lparr>ref_count := ref_count c - 1\<rparr>)\<rparr>)
               else Option.bind (string_release (head c) h) (\<lambda>h1.
                    string_seq_free (tail c) (h1\<lparr>cells := (cells h1)(a := None)\<rparr>))))"

subsection \<open>Builders\<close>

text \<open>
  \<open>string_seq_push\<close> is the step all builders share: cons, then drop the local reference to the old
  sequence, which the code does whether the cons succeeded or not.
\<close>

definition string_seq_push :: "allocator \<Rightarrow> strref \<Rightarrow> nat option \<Rightarrow> seqheap \<Rightarrow> (nat option \<times> seqheap) option" where
  "string_seq_push alloc el r h =
     Option.bind (string_seq_cons alloc el r h) (\<lambda>(cell, h1).
     Option.bind (string_seq_free r h1) (\<lambda>h2. Some (cell, h2)))"

fun from_array_loop :: "allocator \<Rightarrow> strref list \<Rightarrow> nat \<Rightarrow> nat option \<Rightarrow> seqheap \<Rightarrow> (nat option \<times> seqheap) option" where
  "from_array_loop alloc strings 0 r h = Some (r, h)"
| "from_array_loop alloc strings (Suc i) r h =
     (if length strings \<le> i then None
      else Option.bind (string_seq_push alloc (strings ! i) r h) (\<lambda>(cell, h1).
             case cell of None \<Rightarrow> Some (None, h1) | Some a \<Rightarrow> from_array_loop alloc strings i (Some a) h1))"

definition string_seq_from_array ::
  "allocator \<Rightarrow> strref list option \<Rightarrow> int \<Rightarrow> seqheap \<Rightarrow> (nat option \<times> seqheap) option" where
  "string_seq_from_array alloc arr count h =
     (case arr of
        None \<Rightarrow> Some (None, h)
      | Some strings \<Rightarrow>
          if count \<le> 0 then Some (None, h) else from_array_loop alloc strings (nat count) None h)"

text \<open>
  \<open>prepend_loop\<close> is the loop of \<^verbatim>\<open>string_seq_reverse\<close> and of \<^verbatim>\<open>string_seq_concat\<close>;
  its result is \<open>None\<close> when a cell was refused.
\<close>

partial_function (option) prepend_loop ::
  "allocator \<Rightarrow> nat option \<Rightarrow> nat option \<Rightarrow> seqheap \<Rightarrow> (nat option option \<times> seqheap) option" where
  "prepend_loop alloc cur r h =
     (case cur of
        None \<Rightarrow> Some (Some r, h)
      | Some a \<Rightarrow>
          Option.bind (string_seq_head (Some a) h) (\<lambda>el.
          Option.bind (string_seq_push alloc el r h) (\<lambda>(cell, h1).
            case cell of
              None \<Rightarrow> Some (None, h1)
            | Some b \<Rightarrow>
                Option.bind (string_seq_tail (Some a) h1) (\<lambda>t. prepend_loop alloc t (Some b) h1))))"

definition string_seq_reverse :: "allocator \<Rightarrow> nat option \<Rightarrow> seqheap \<Rightarrow> (nat option \<times> seqheap) option" where
  "string_seq_reverse alloc s h =
     Option.bind (prepend_loop alloc s None h) (\<lambda>(r, h1). Some (case r of None \<Rightarrow> None | Some p \<Rightarrow> p, h1))"

definition string_seq_concat ::
  "allocator \<Rightarrow> nat option \<Rightarrow> nat option \<Rightarrow> seqheap \<Rightarrow> (nat option \<times> seqheap) option" where
  "string_seq_concat alloc a b h =
     (if a = None then Option.bind (string_seq_retain b h) (\<lambda>h1. Some (b, h1))
      else Option.bind (string_seq_reverse alloc a h) (\<lambda>(reversed, h1).
        if reversed = None then Some (None, h1)
        else Option.bind (string_seq_retain b h1) (\<lambda>h2.
             Option.bind (prepend_loop alloc reversed b h2) (\<lambda>(r, h3).
             Option.bind (string_seq_free reversed h3) (\<lambda>h4.
               Some (case r of None \<Rightarrow> None | Some p \<Rightarrow> p, h4))))))"

fun take_loop :: "allocator \<Rightarrow> nat \<Rightarrow> nat option \<Rightarrow> nat option \<Rightarrow> seqheap \<Rightarrow> (nat option option \<times> seqheap) option" where
  "take_loop alloc 0 cur r h = Some (Some r, h)"
| "take_loop alloc (Suc n) cur r h =
     (case cur of
        None \<Rightarrow> Some (Some r, h)
      | Some a \<Rightarrow>
          Option.bind (string_seq_head (Some a) h) (\<lambda>el.
          Option.bind (string_seq_push alloc el r h) (\<lambda>(cell, h1).
            case cell of
              None \<Rightarrow> Some (None, h1)
            | Some b \<Rightarrow>
                Option.bind (string_seq_tail (Some a) h1) (\<lambda>t. take_loop alloc n t (Some b) h1))))"

definition string_seq_take :: "allocator \<Rightarrow> nat option \<Rightarrow> int \<Rightarrow> seqheap \<Rightarrow> (nat option \<times> seqheap) option" where
  "string_seq_take alloc s n h =
     (if n \<le> 0 \<or> s = None then Some (None, h)
      else Option.bind (take_loop alloc (nat n) s None h) (\<lambda>(r, h1).
        case r of
          None \<Rightarrow> Some (None, h1)
        | Some prefix \<Rightarrow>
            Option.bind (string_seq_reverse alloc prefix h1) (\<lambda>(res, h2).
            Option.bind (string_seq_free prefix h2) (\<lambda>h3. Some (res, h3)))))"

fun drop_loop :: "nat \<Rightarrow> nat option \<Rightarrow> seqheap \<Rightarrow> nat option option" where
  "drop_loop 0 cur h = Some cur"
| "drop_loop (Suc n) cur h =
     (if cur = None then Some cur else Option.bind (string_seq_tail cur h) (\<lambda>t. drop_loop n t h))"

definition string_seq_drop :: "nat option \<Rightarrow> int \<Rightarrow> seqheap \<Rightarrow> (nat option \<times> seqheap) option" where
  "string_seq_drop s n h =
     (if n \<le> 0 then Option.bind (string_seq_retain s h) (\<lambda>h1. Some (s, h1))
      else Option.bind (drop_loop (nat n) s h) (\<lambda>cur.
           Option.bind (string_seq_retain cur h) (\<lambda>h1. Some (cur, h1))))"

fun to_array_loop :: "nat \<Rightarrow> nat option \<Rightarrow> seqheap \<Rightarrow> strref list \<Rightarrow> (strref list \<times> seqheap) option" where
  "to_array_loop 0 cur h out = Some (out, h)"
| "to_array_loop (Suc n) cur h out =
     (if cur = None then Some (out, h)
      else Option.bind (string_seq_head cur h) (\<lambda>el.
           Option.bind (string_retain el h) (\<lambda>h1.
           Option.bind (string_seq_tail cur h1) (\<lambda>t. to_array_loop n t h1 (out @ [el])))))"

definition string_seq_to_array ::
  "(nat \<Rightarrow> bool) \<Rightarrow> nat option \<Rightarrow> seqheap \<Rightarrow> (strref list option \<times> seqheap) option" where
  "string_seq_to_array malloc_ok s h =
     (if s = None then Some (None, h)
      else Option.bind (string_seq_length s h) (\<lambda>n.
        if \<not> malloc_ok 16 \<or> \<not> malloc_ok (8 * n) then Some (None, h)
        else Option.bind (to_array_loop n s h []) (\<lambda>(out, h1). Some (Some out, h1))))"

subsection \<open>Reference counting invariant\<close>

text \<open>
  \<open>ext\<close> and \<open>sext\<close> count the references that clients hold to cells and strings, \<open>refs\<close> those
  held by cells.  The count stored with every live object is the sum, and an object is live exactly when that
  sum is positive; the cached lengths are those of the tails plus one, so the spines have no cycle.
\<close>

definition refs :: "(StringSeq \<Rightarrow> 'k) \<Rightarrow> (nat \<rightharpoonup> StringSeq) \<Rightarrow> 'k \<Rightarrow> nat" where
  "refs f cs k = card {b. \<exists>c. cs b = Some c \<and> f c = k}"

definition counted :: "('v \<Rightarrow> int) \<Rightarrow> ('k \<Rightarrow> nat) \<Rightarrow> ('k \<rightharpoonup> 'v) \<Rightarrow> bool" where
  "counted f n m \<longleftrightarrow> (\<forall>k. case m k of None \<Rightarrow> n k = 0 | Some v \<Rightarrow> f v = int (n k) \<and> 0 < n k)"

definition lengths_ok :: "(nat \<rightharpoonup> StringSeq) \<Rightarrow> bool" where
  "lengths_ok cs \<longleftrightarrow>
     (\<forall>a c. cs a = Some c \<longrightarrow>
        (case tail c of None \<Rightarrow> seq_length c = 1
                      | Some b \<Rightarrow> \<exists>d. cs b = Some d \<and> seq_length c = seq_length d + 1))"

definition seq_inv :: "(nat \<Rightarrow> nat) \<Rightarrow> (nat \<Rightarrow> nat) \<Rightarrow> seqheap \<Rightarrow> bool" where
  "seq_inv ext sext h \<longleftrightarrow>
     finite (dom (cells h)) \<and> lengths_ok (cells h) \<and>
     counted ref_count (\<lambda>a. ext a + refs tail (cells h) (Some a)) (cells h) \<and>
     counted (\<lambda>n. n) (\<lambda>i. sext i + refs head (cells h) (Obj i)) (strs h)"

fun add_ref :: "nat option \<Rightarrow> (nat \<Rightarrow> nat) \<Rightarrow> nat \<Rightarrow> nat" where
  "add_ref None ext = ext"
| "add_ref (Some a) ext = ext(a := ext a + 1)"

fun cell_live :: "nat option \<Rightarrow> seqheap \<Rightarrow> bool" where
  "cell_live None h = True"
| "cell_live (Some a) h \<longleftrightarrow> cells h a \<noteq> None"

fun str_live :: "strref \<Rightarrow> seqheap \<Rightarrow> bool" where
  "str_live (Obj i) h \<longleftrightarrow> strs h i \<noteq> None"
| "str_live s h \<longleftrightarrow> True"

inductive seq :: "(nat \<rightharpoonup> StringSeq) \<Rightarrow> nat option \<Rightarrow> strref list \<Rightarrow> bool" for cs where
  seq_nil: "seq cs None []"
| seq_cons: "cs a = Some c \<Longrightarrow> seq cs (tail c) xs \<Longrightarrow> seq cs (Some a) (head c # xs)"

inductive_cases seq_NoneE: "seq cs None xs"
inductive_cases seq_SomeE: "seq cs (Some a) xs"

definition grows :: "(nat \<rightharpoonup> StringSeq) \<Rightarrow> (nat \<rightharpoonup> StringSeq) \<Rightarrow> bool" where
  "grows cs cs' \<longleftrightarrow>
     (\<forall>a c. cs a = Some c \<longrightarrow> (\<exists>c'. cs' a = Some c' \<and> head c' = head c \<and> tail c' = tail c \<and> seq_length c' = seq_length c))"

definition alloc_fresh :: "allocator \<Rightarrow> bool" where
  "alloc_fresh alloc \<longleftrightarrow> (\<forall>h a. alloc h = Some a \<longrightarrow> cells h a = None)"

definition refuses :: "allocator \<Rightarrow> bool" where
  "refuses alloc \<longleftrightarrow> (\<exists>h. finite (dom (cells h)) \<and> alloc h = None)"

lemma refs_split:
  assumes "finite (dom cs)" "cs a = Some c"
  shows "refs f cs k = refs f (cs(a := None)) k + (if f c = k then 1 else 0)"
proof -
  let ?S = "{b. \<exists>c. (cs(a := None)) b = Some c \<and> f c = k}"
  have "?S \<subseteq> dom cs"
    by (auto split: if_splits)
  then have fin: "finite ?S"
    using assms(1) finite_subset by blast
  have "{b. \<exists>c. cs b = Some c \<and> f c = k} = (if f c = k then insert a ?S else ?S)"
    using assms(2) by auto
  with fin show ?thesis
    unfolding refs_def by simp
qed

lemma refs_insert:
  assumes "finite (dom cs)" "cs a = None"
  shows "refs f (cs(a \<mapsto> c)) k = refs f cs k + (if f c = k then 1 else 0)"
  using refs_split [of "cs(a \<mapsto> c)" a c f k] assms by (simp add: fun_upd_idem)

lemma refs_update:
  assumes "finite (dom cs)" "cs a = Some c" "f c' = f c"
  shows "refs f (cs(a \<mapsto> c')) k = refs f cs k"
  using refs_split [of "cs(a \<mapsto> c')" a c' f k] refs_split [of cs a c f k] assms by simp

lemma refs_pos: "finite (dom cs) \<Longrightarrow> cs a = Some c \<Longrightarrow> f c = k \<Longrightarrow> 0 < refs f cs k"
  using refs_split [of cs a c f k] by simp

lemma counted_at: "counted f n m \<Longrightarrow> case m k of None \<Rightarrow> n k = 0 | Some v \<Rightarrow> f v = int (n k) \<and> 0 < n k"
  unfolding counted_def by (rule spec)

lemma counted_Some: "counted f n m \<Longrightarrow> m k = Some v \<Longrightarrow> f v = int (n k) \<and> 0 < n k"
  using counted_at [of f n m k] by simp

lemma counted_pos: "counted f n m \<Longrightarrow> 0 < n k \<Longrightarrow> \<exists>v. m k = Some v"
  using counted_at [of f n m k] by (cases "m k") auto

lemma counted_upd:
  assumes "counted f n m" "f v = int j" "0 < j" "\<And>x. n' x = (if x = k then j else n x)"
  shows "counted f n' (m(k \<mapsto> v))"
  unfolding counted_def
proof
  fix x
  show "case (m(k \<mapsto> v)) x of None \<Rightarrow> n' x = 0 | Some v \<Rightarrow> f v = int (n' x) \<and> 0 < n' x"
    using counted_at [OF assms(1), of x] assms(2,3) assms(4) [of x] by (cases "x = k") (auto split: option.splits)
qed

lemma counted_drop:
  assumes "counted f n m" "\<And>x. n' x = (if x = k then 0 else n x)"
  shows "counted f n' (m(k := None))"
  unfolding counted_def
proof
  fix x
  show "case (m(k := None)) x of None \<Rightarrow> n' x = 0 | Some v \<Rightarrow> f v = int (n' x) \<and> 0 < n' x"
    using counted_at [OF assms(1), of x] assms(2) [of x] by (cases "x = k") (auto split: option.splits)
qed

lemma seq_det: "seq cs p xs \<Longrightarrow> seq cs p ys \<Longrightarrow> xs = ys"
proof (induction p xs arbitrary: ys rule: seq.induct)
  case seq_nil
  then show ?case
    by (rule seq_NoneE) simp
next
  case (seq_cons a c xs)
  from seq_cons.prems show ?case
    by (rule seq_SomeE) (use seq_cons in auto)
qed

lemma seq_grows: "seq cs p xs \<Longrightarrow> grows cs cs' \<Longrightarrow> seq cs' p xs"
proof (induction p xs rule: seq.induct)
  case (seq_cons a c xs)
  then obtain c' where "cs' a = Some c'" "head c' = head c" "tail c' = tail c"
    by (auto simp: grows_def)
  with seq_cons show ?case
    using seq.seq_cons [of cs' a c' xs] by simp
qed (rule seq.seq_nil)

lemma grows_refl [simp, intro]: "grows cs cs"
  by (simp add: grows_def)

lemma grows_trans [trans]: "grows a b \<Longrightarrow> grows b c \<Longrightarrow> grows a c"
  unfolding grows_def by metis

lemma lengths_okD:
  "lengths_ok cs \<Longrightarrow> cs a = Some c \<Longrightarrow>
    (case tail c of None \<Rightarrow> seq_length c = 1 | Some b \<Rightarrow> \<exists>d. cs b = Some d \<and> seq_length c = seq_length d + 1)"
  by (simp add: lengths_ok_def)

lemma seq_exists:
  assumes "lengths_ok cs" "cs a = Some c"
  shows "\<exists>xs. seq cs (Some a) xs \<and> length xs = seq_length c"
  using assms(2)
proof (induction "seq_length c" arbitrary: a c)
  case 0
  then show ?case
    using assms(1) by (fastforce simp: lengths_ok_def split: option.splits)
next
  case (Suc n)
  have len: "case tail c of None \<Rightarrow> seq_length c = 1 | Some b \<Rightarrow> \<exists>d. cs b = Some d \<and> seq_length c = seq_length d + 1"
    using assms(1) Suc.prems by (auto simp: lengths_ok_def)
  show ?case
  proof (cases "tail c")
    case None
    with len Suc.prems show ?thesis
      using seq.seq_cons [of cs a c "[]"] seq_nil [of cs] by (intro exI [of _ "[head c]"]) simp
  next
    case (Some b)
    with len obtain d where d: "cs b = Some d" "seq_length c = seq_length d + 1"
      by auto
    with Suc.hyps(1) [of d b] Suc.hyps(2) obtain xs where "seq cs (Some b) xs" "length xs = seq_length d"
      by auto
    with Some d(2) show ?thesis
      using seq.seq_cons [of cs a c xs] Suc.prems by (intro exI [of _ "head c # xs"]) simp
  qed
qed

lemma seq_inv_live: "seq_inv ext sext h \<Longrightarrow> 0 < ext a \<Longrightarrow> \<exists>c. cells h a = Some c"
  unfolding seq_inv_def by (elim conjE counted_pos) simp

lemma seq_inv_tail_live:
  "seq_inv ext sext h \<Longrightarrow> cells h a = Some c \<Longrightarrow> cell_live (tail c) h"
  by (cases "tail c") (fastforce simp: seq_inv_def lengths_ok_def)+

lemma seq_inv_head_live:
  assumes "seq_inv ext sext h" "cells h a = Some c"
  shows "str_live (head c) h"
proof (cases "head c")
  case (Obj i)
  then have "0 < refs head (cells h) (Obj i)"
    using assms by (intro refs_pos) (auto simp: seq_inv_def)
  then show ?thesis
    using assms(1) counted_pos [of "\<lambda>n. n" _ "strs h" i] Obj by (fastforce simp: seq_inv_def)
qed auto

lemma seq_length_ok:
  assumes "seq_inv ext sext h" "cell_live p h"
  shows "\<exists>n. string_seq_length p h = Some n \<and> (\<forall>xs. seq (cells h) p xs \<longrightarrow> length xs = n)"
proof (cases p)
  case None
  then show ?thesis
    by (auto elim: seq_NoneE)
next
  case (Some a)
  then obtain c where c: "cells h a = Some c"
    using assms(2) by auto
  then obtain xs where "seq (cells h) p xs" "length xs = seq_length c"
    using seq_exists [of "cells h" a c] assms(1) Some by (auto simp: seq_inv_def)
  with c Some show ?thesis
    by (auto dest: seq_det)
qed

lemma lengths_ok_update:
  assumes "lengths_ok cs" "cs a = Some c" "tail c' = tail c" "seq_length c' = seq_length c"
  shows "lengths_ok (cs(a \<mapsto> c'))"
  unfolding lengths_ok_def
proof (intro allI impI)
  fix x d
  assume d: "(cs(a \<mapsto> c')) x = Some d"
  obtain d0 where "cs x = Some d0" "tail d = tail d0" "seq_length d = seq_length d0"
    using d assms(2-4) by (cases "x = a") auto
  moreover have "case tail d0 of None \<Rightarrow> seq_length d0 = 1 | Some b \<Rightarrow> \<exists>e. cs b = Some e \<and> seq_length d0 = seq_length e + 1"
    if "cs x = Some d0"
    using assms(1) that unfolding lengths_ok_def by simp
  ultimately have "case tail d of None \<Rightarrow> seq_length d = 1 | Some b \<Rightarrow> \<exists>e. cs b = Some e \<and> seq_length d = seq_length e + 1"
    by (cases "tail d0") auto
  then show "case tail d of None \<Rightarrow> seq_length d = 1
      | Some b \<Rightarrow> \<exists>e. (cs(a \<mapsto> c')) b = Some e \<and> seq_length d = seq_length e + 1"
    using assms(2,4) by (auto split: option.splits)
qed

text \<open>
  Retaining and releasing change one count and nothing else.
\<close>

lemma grows_update:
  "cs a = Some c \<Longrightarrow> head c' = head c \<Longrightarrow> tail c' = tail c \<Longrightarrow> seq_length c' = seq_length c \<Longrightarrow>
    grows cs (cs(a \<mapsto> c'))"
  by (auto simp: grows_def)

lemma seq_inv_recount:
  assumes "seq_inv ext sext h" "cells h a = Some c" "0 < j + refs tail (cells h) (Some a)"
    and c': "head c' = head c" "tail c' = tail c" "seq_length c' = seq_length c"
      "ref_count c' = int (j + refs tail (cells h) (Some a))"
  shows "seq_inv (ext(a := j)) sext (h\<lparr>cells := (cells h)(a \<mapsto> c')\<rparr>)"
proof -
  have fin: "finite (dom (cells h))"
    using assms(1) by (simp add: seq_inv_def)
  have t: "refs tail ((cells h)(a \<mapsto> c')) k = refs tail (cells h) k"
    and hd: "refs head ((cells h)(a \<mapsto> c')) i = refs head (cells h) i" for k i
    by (rule refs_update [OF fin assms(2)]; simp add: c')+
  have "counted ref_count (\<lambda>x. (ext(a := j)) x + refs tail (cells h) (Some x)) ((cells h)(a \<mapsto> c'))"
    by (rule counted_upd [where n = "\<lambda>x. ext x + refs tail (cells h) (Some x)"
          and j = "j + refs tail (cells h) (Some a)"])
      (use assms(1,3) c'(4) in \<open>auto simp: seq_inv_def\<close>)
  then show ?thesis
    using assms(1) fin lengths_ok_update [of "cells h" a c c'] assms(2) c' by (simp add: seq_inv_def t hd)
qed

lemma string_seq_retain_ok:
  assumes "seq_inv ext sext h" "cell_live p h"
  shows "\<exists>h'. string_seq_retain p h = Some h' \<and> seq_inv (add_ref p ext) sext h' \<and> grows (cells h) (cells h') \<and>
    dom (cells h') = dom (cells h) \<and> strs h' = strs h"
proof (cases p)
  case (Some a)
  then obtain c where c: "cells h a = Some c"
    using assms(2) by auto
  then have rc: "ref_count c = int (ext a + refs tail (cells h) (Some a))"
    using assms(1) counted_Some [of ref_count _ "cells h" a c] by (auto simp: seq_inv_def)
  show ?thesis
    using seq_inv_recount [OF assms(1) c, of "ext a + 1" "c\<lparr>ref_count := ref_count c + 1\<rparr>"] Some c rc
    by (auto intro!: grows_update)
qed (use assms in auto)

lemma string_retain_ok:
  assumes "seq_inv ext sext h" "str_live s h"
  shows "\<exists>h'. string_retain s h = Some h' \<and> cells h' = cells h \<and> dom (strs h') = dom (strs h) \<and>
    seq_inv ext (\<lambda>i. sext i + (if s = Obj i then 1 else 0)) h'"
proof (cases s)
  case (Obj i)
  then obtain n where n: "strs h i = Some n"
    using assms(2) by auto
  then have "n = int (sext i + refs head (cells h) (Obj i))"
    using assms(1) counted_Some [of "\<lambda>n. n" _ "strs h" i n] by (auto simp: seq_inv_def)
  then have "counted (\<lambda>n. n) (\<lambda>x. sext x + (if Obj i = Obj x then 1 else 0) + refs head (cells h) (Obj x))
      ((strs h)(i \<mapsto> n + 1))"
    by (intro counted_upd [where n = "\<lambda>x. sext x + refs head (cells h) (Obj x)"
          and j = "sext i + refs head (cells h) (Obj i) + 1"])
      (use assms(1) in \<open>auto simp: seq_inv_def\<close>)
  with assms(1) n Obj show ?thesis
    by (auto simp: seq_inv_def)
qed (use assms in \<open>auto simp: seq_inv_def\<close>)

lemma string_release_ok:
  assumes "counted (\<lambda>n. n) m (strs h)" "\<And>i. s = Obj i \<Longrightarrow> 0 < m i"
  shows "\<exists>h'. string_release s h = Some h' \<and> cells h' = cells h \<and>
    counted (\<lambda>n. n) (\<lambda>i. m i - (if s = Obj i then 1 else 0)) (strs h')"
proof (cases s)
  case (Obj i)
  obtain n where n: "strs h i = Some n"
    using counted_pos [OF assms(1)] assms(2) [OF Obj] by auto
  then have rc: "n = int (m i)"
    using counted_Some [OF assms(1) n] by simp
  let ?m = "\<lambda>x. m x - (if s = Obj x then 1 else 0)"
  have "counted (\<lambda>n. n) ?m ((strs h)(i := (if n - 1 \<le> 0 then None else Some (n - 1))))"
  proof (cases "n - 1 \<le> 0")
    case True
    then show ?thesis
      using rc Obj by (auto intro: counted_drop [OF assms(1)])
  next
    case False
    then show ?thesis
      using rc Obj by (auto intro!: counted_upd [OF assms(1), where j = "m i - 1"])
  qed
  with n Obj show ?thesis
    by auto
qed (use assms in auto)

lemma add_ref_commute: "add_ref p (add_ref q ext) = add_ref q (add_ref p ext)"
  by (cases p; cases q) auto

lemma lengths_ok_insert:
  assumes "lengths_ok cs" "cs a = None"
    and "case tail c of None \<Rightarrow> seq_length c = 1 | Some b \<Rightarrow> \<exists>d. cs b = Some d \<and> seq_length c = seq_length d + 1"
  shows "lengths_ok (cs(a \<mapsto> c))"
  unfolding lengths_ok_def
proof (intro allI impI)
  fix x d
  assume d: "(cs(a \<mapsto> c)) x = Some d"
  have "case tail d of None \<Rightarrow> seq_length d = 1 | Some b \<Rightarrow> \<exists>e. cs b = Some e \<and> seq_length d = seq_length e + 1"
    using d assms(1,3) by (cases "x = a") (auto simp: lengths_ok_def)
  with assms(2) show "case tail d of None \<Rightarrow> seq_length d = 1
      | Some b \<Rightarrow> \<exists>e. (cs(a \<mapsto> c)) b = Some e \<and> seq_length d = seq_length e + 1"
    by (cases "tail d") auto
qed

lemma grows_insert: "cs a = None \<Longrightarrow> grows cs (cs(a \<mapsto> c))"
  by (auto simp: grows_def)

lemma seq_inv_insert:
  assumes "seq_inv (add_ref t ext) (\<lambda>i. sext i + (if el = Obj i then 1 else 0)) h" "cells h a = None"
    and "head c = el" "tail c = t" "ref_count c = 1" "string_seq_length t h = Some n" "seq_length c = n + 1"
  shows "seq_inv (add_ref (Some a) ext) sext (h\<lparr>cells := (cells h)(a \<mapsto> c)\<rparr>)"
proof -
  have fin: "finite (dom (cells h))"
    using assms(1) by (simp add: seq_inv_def)
  note ins = refs_insert [OF fin assms(2), of _ c]
  have dead: "add_ref t ext a + refs tail (cells h) (Some a) = 0"
    using assms(1,2) counted_at [of ref_count "\<lambda>a. add_ref t ext a + refs tail (cells h) (Some a)" "cells h" a]
    by (simp add: seq_inv_def)
  then have ta: "t \<noteq> Some a"
    by auto
  have "counted ref_count (\<lambda>x. add_ref (Some a) ext x + refs tail ((cells h)(a \<mapsto> c)) (Some x)) ((cells h)(a \<mapsto> c))"
  proof (rule counted_upd [where j = 1 and n = "\<lambda>a. add_ref t ext a + refs tail (cells h) (Some a)"])
    show "add_ref (Some a) ext x + refs tail ((cells h)(a \<mapsto> c)) (Some x) =
        (if x = a then 1 else add_ref t ext x + refs tail (cells h) (Some x))" for x
      using dead ta assms(4) by (cases t) (auto simp: ins)
  qed (use assms in \<open>auto simp: seq_inv_def\<close>)
  moreover have "counted (\<lambda>n. n) (\<lambda>i. sext i + refs head ((cells h)(a \<mapsto> c)) (Obj i)) (strs h)"
  proof -
    have "sext i + refs head ((cells h)(a \<mapsto> c)) (Obj i) =
        sext i + (if el = Obj i then 1 else 0) + refs head (cells h) (Obj i)" for i
      using assms(3) by (simp add: ins)
    with assms(1) show ?thesis
      by (simp add: seq_inv_def add.assoc)
  qed
  moreover have "lengths_ok ((cells h)(a \<mapsto> c))"
    by (rule lengths_ok_insert) (use assms in \<open>auto simp: seq_inv_def split: option.splits\<close>)
  ultimately show ?thesis
    using fin by (simp add: seq_inv_def)
qed

definition shrinks :: "seqheap \<Rightarrow> seqheap \<Rightarrow> bool" where
  "shrinks h h' \<longleftrightarrow> grows (cells h') (cells h)"

lemma string_seq_cons_ok:
  assumes "seq_inv ext sext h" "cell_live t h" "str_live el h" "alloc_fresh alloc"
  obtains (refused) "string_seq_cons alloc el t h = Some (None, h)" "refuses alloc"
  | (cell) a h' where "string_seq_cons alloc el t h = Some (Some a, h')" "seq_inv (add_ref (Some a) ext) sext h'"
      "grows (cells h) (cells h')" "dom (strs h') = dom (strs h)" "cells h a = None" "t \<noteq> Some a"
      "\<And>xs. seq (cells h) t xs \<Longrightarrow> seq (cells h') (Some a) (el # xs)"
proof (cases "alloc h")
  case None
  then show ?thesis
    using refused assms(1) by (auto simp: string_seq_cons_def refuses_def seq_inv_def)
next
  case (Some a)
  then have a: "cells h a = None"
    using assms(4) by (simp add: alloc_fresh_def)
  obtain n where n: "string_seq_length t h = Some n"
    using seq_length_ok [OF assms(1,2)] by auto
  obtain h1 where h1: "string_retain el h = Some h1" "cells h1 = cells h" "dom (strs h1) = dom (strs h)"
      "seq_inv ext (\<lambda>i. sext i + (if el = Obj i then 1 else 0)) h1"
    using string_retain_ok [OF assms(1,3)] by auto
  have "cell_live t h1"
    using assms(2) h1(2) by (cases t) auto
  from string_seq_retain_ok [OF h1(4) this] obtain h2 where h2: "string_seq_retain t h1 = Some h2"
      "seq_inv (add_ref t ext) (\<lambda>i. sext i + (if el = Obj i then 1 else 0)) h2"
      "grows (cells h1) (cells h2)" "dom (cells h2) = dom (cells h1)" "strs h2 = strs h1"
    by auto
  let ?c = "\<lparr>ref_count = 1, seq_length = n + 1, head = el, tail = t\<rparr>"
  let ?h = "h2\<lparr>cells := (cells h2)(a \<mapsto> ?c)\<rparr>"
  have a2: "cells h2 a = None"
    using a h1(2) h2(4) by (metis domIff)
  have len: "string_seq_length t h2 = Some n"
    using n h2(3) h1(2) by (cases t) (auto simp: grows_def)
  have g: "grows (cells h) (cells ?h)"
    using grows_trans [OF h2(3) grows_insert [of "cells h2" a ?c]] a2 h1(2) by simp
  have ta: "t \<noteq> Some a"
    using assms(2) a by auto
  show ?thesis
  proof (rule cell [of a ?h])
    show "string_seq_cons alloc el t h = Some (Some a, ?h)"
      by (simp add: string_seq_cons_def Some n h1(1) h2(1))
    show "seq_inv (add_ref (Some a) ext) sext ?h"
      by (rule seq_inv_insert [OF h2(2) a2 _ _ _ len]) auto
    show "seq (cells ?h) (Some a) (el # xs)" if "seq (cells h) t xs" for xs
      using seq.seq_cons [of "cells ?h" a ?c xs] seq_grows [OF that g] by simp
  qed (use g h1(3) h2(5) a ta in auto)
qed

text \<open>
  Dropping the last reference to a cell hands its reference to the tail over to the loop.
\<close>

lemma seq_inv_remove:
  assumes "seq_inv (add_ref (Some a) ext) sext h" "cells h a = Some c" "\<not> ref_count c - 1 > 0"
  shows "\<exists>h1. string_release (head c) h = Some h1 \<and>
    seq_inv (add_ref (tail c) ext) sext (h1\<lparr>cells := (cells h1)(a := None)\<rparr>) \<and> cells h1 = cells h"
proof -
  let ?cs = "(cells h)(a := None)"
  have fin: "finite (dom (cells h))" and len: "lengths_ok (cells h)"
    and cc: "counted ref_count (\<lambda>x. add_ref (Some a) ext x + refs tail (cells h) (Some x)) (cells h)"
    and sc: "counted (\<lambda>n. n) (\<lambda>i. sext i + refs head (cells h) (Obj i)) (strs h)"
    using assms(1) by (auto simp: seq_inv_def)
  note spl = refs_split [OF fin assms(2)]
  have zero: "ext a = 0" "refs tail (cells h) (Some a) = 0"
    using counted_Some [OF cc assms(2)] assms(3) by auto
  have ta: "tail c \<noteq> Some a"
    using zero(2) refs_pos [OF fin assms(2), of tail "Some a"] by auto
  obtain h1 where h1: "string_release (head c) h = Some h1" "cells h1 = cells h"
      "counted (\<lambda>n. n) (\<lambda>i. sext i + refs head (cells h) (Obj i) - (if head c = Obj i then 1 else 0)) (strs h1)"
    using string_release_ok [OF sc, of "head c"] refs_pos [OF fin assms(2), of head] by auto
  have "counted ref_count (\<lambda>x. add_ref (tail c) ext x + refs tail ?cs (Some x)) ?cs"
  proof (rule counted_drop [OF cc])
    show "add_ref (tail c) ext x + refs tail ?cs (Some x) =
        (if x = a then 0 else add_ref (Some a) ext x + refs tail (cells h) (Some x))" for x
      using zero ta spl [of tail "Some x"] by (cases "tail c") auto
  qed
  moreover have "sext i + refs head (cells h) (Obj i) - (if head c = Obj i then 1 else 0) = sext i + refs head ?cs (Obj i)" for i
    using spl [of head "Obj i"] by simp
  moreover have "lengths_ok ?cs"
    unfolding lengths_ok_def
  proof (intro allI impI)
    fix x d
    assume "?cs x = Some d"
    then have d: "cells h x = Some d"
      by (auto split: if_splits)
    then have "tail d \<noteq> Some a"
      using zero(2) refs_pos [OF fin d, of tail "Some a"] by auto
    with lengths_okD [OF len d] show "case tail d of None \<Rightarrow> seq_length d = 1
        | Some b \<Rightarrow> \<exists>e. ?cs b = Some e \<and> seq_length d = seq_length e + 1"
      by (cases "tail d") auto
  qed
  ultimately show ?thesis
    using h1 fin by (auto simp: seq_inv_def)
qed

lemma string_seq_free_ok:
  assumes "seq_inv (add_ref p ext) sext h"
  shows "\<exists>h'. string_seq_free p h = Some h' \<and> seq_inv ext sext h' \<and> shrinks h h'"
  using assms
proof (induction "card (dom (cells h))" arbitrary: p h rule: less_induct)
  case less
  show ?case
  proof (cases p)
    case None
    then show ?thesis
      using less.prems by (simp add: string_seq_free.simps shrinks_def)
  next
    case (Some a)
    obtain c where c: "cells h a = Some c"
      using seq_inv_live [OF less.prems, of a] Some by auto
    have rc: "ref_count c = int (ext a + 1 + refs tail (cells h) (Some a))"
      using less.prems c Some counted_Some [of ref_count _ "cells h" a c] by (auto simp: seq_inv_def)
    show ?thesis
    proof (cases "ref_count c - 1 > 0")
      case True
      let ?c = "c\<lparr>ref_count := ref_count c - 1\<rparr>"
      have "seq_inv ((add_ref p ext)(a := ext a)) sext (h\<lparr>cells := (cells h)(a \<mapsto> ?c)\<rparr>)"
        by (rule seq_inv_recount [OF less.prems c]) (use True rc in auto)
      moreover have "(add_ref p ext)(a := ext a) = ext"
        using Some by auto
      ultimately show ?thesis
        using True Some c by (subst string_seq_free.simps) (simp add: shrinks_def grows_def)
    next
      case False
      obtain h1 where h1: "string_release (head c) h = Some h1" "cells h1 = cells h"
          "seq_inv (add_ref (tail c) ext) sext (h1\<lparr>cells := (cells h1)(a := None)\<rparr>)"
        using seq_inv_remove [of a ext sext h c] less.prems c False Some by auto
      let ?h = "h1\<lparr>cells := (cells h1)(a := None)\<rparr>"
      have "finite (dom (cells h))"
        using less.prems by (simp add: seq_inv_def)
      then have "card (dom (cells ?h)) < card (dom (cells h))"
        using h1(2) c by (auto intro!: psubset_card_mono)
      from less.hyps [OF this h1(3)] obtain h' where "string_seq_free (tail c) ?h = Some h'"
          "seq_inv ext sext h'" "shrinks ?h h'"
        by auto
      moreover have "grows (cells ?h) (cells h)"
        using h1(2) by (auto simp: grows_def split: if_splits)
      ultimately show ?thesis
        using False Some c h1(1) grows_trans
        by (subst string_seq_free.simps) (auto simp: shrinks_def)
    qed
  qed
qed

lemma free_keeps_seq:
  assumes "seq_inv ext sext h'" "shrinks h h'" "0 < ext a" "seq (cells h) (Some a) xs"
  shows "seq (cells h') (Some a) xs"
proof -
  obtain ys where ys: "seq (cells h') (Some a) ys"
    using seq_inv_live [OF assms(1,3)] seq_exists [of "cells h'" a] assms(1) by (auto simp: seq_inv_def)
  then have "seq (cells h) (Some a) ys"
    using assms(2) by (auto simp: shrinks_def intro: seq_grows)
  with ys assms(4) show ?thesis
    using seq_det by blast
qed

text \<open>
  The shared step of the builders: the old sequence stays shared by the new cell, so the drop of the local
  reference only decrements.
\<close>

lemma string_seq_push_ok:
  assumes inv: "seq_inv (add_ref r ext) sext h" and live: "str_live el h" and fresh: "alloc_fresh alloc"
    and r: "seq (cells h) r xs"
  obtains (refused) h' where "string_seq_push alloc el r h = Some (None, h')" "seq_inv ext sext h'"
      "refuses alloc" "shrinks h h'"
  | (cell) a h' where "string_seq_push alloc el r h = Some (Some a, h')" "seq_inv (add_ref (Some a) ext) sext h'"
      "grows (cells h) (cells h')" "dom (strs h') = dom (strs h)" "seq (cells h') (Some a) (el # xs)"
proof -
  have rl: "cell_live r h"
    using inv seq_inv_live [OF inv] by (cases r) auto
  show ?thesis
    using inv rl live fresh
  proof (cases rule: string_seq_cons_ok)
    case refused
    obtain h' where "string_seq_free r h = Some h'" "seq_inv ext sext h'" "shrinks h h'"
      using string_seq_free_ok [OF inv] by auto
    with refused show ?thesis
      using that(1) [of h'] by (fastforce simp: string_seq_push_def)
  next
    case (cell a h1)
    have inv1: "seq_inv (add_ref r (add_ref (Some a) ext)) sext h1"
      using cell(2) by (simp only: add_ref_commute [of r "Some a"])
    have s1: "seq (cells h1) (Some a) (el # xs)"
      by (rule cell(7) [OF r])
    show ?thesis
    proof (cases r)
      case None
      then have "string_seq_push alloc el r h = Some (Some a, h1)"
        using cell(1) by (simp add: string_seq_push_def string_seq_free.simps)
      then show ?thesis
        using cell None s1 that(2) by auto
    next
      case (Some b)
      obtain c where c: "cells h1 b = Some c"
        using seq_inv_live [OF inv1, of b] Some by auto
      have fin: "finite (dom (cells h1))"
        using inv1 by (simp add: seq_inv_def)
      obtain d where d: "cells h1 a = Some d" "tail d = r"
        using cell(1) by (auto simp: string_seq_cons_def bind_eq_Some_conv split: option.splits)
      have "0 < refs tail (cells h1) (Some b)"
        using refs_pos [OF fin d(1), of tail "Some b"] d(2) Some by simp
      moreover have "ref_count c = int (add_ref r (add_ref (Some a) ext) b + refs tail (cells h1) (Some b))"
        using inv1 c counted_Some [of ref_count _ "cells h1" b c] by (auto simp: seq_inv_def)
      ultimately have "ref_count c - 1 > 0"
        using Some by simp
      then have "string_seq_free r h1 = Some (h1\<lparr>cells := (cells h1)(b \<mapsto> c\<lparr>ref_count := ref_count c - 1\<rparr>)\<rparr>)"
        using Some c by (subst string_seq_free.simps) simp
      then obtain h2 where h2: "string_seq_free r h1 = Some h2" "strs h2 = strs h1" "grows (cells h1) (cells h2)"
        using grows_update [of "cells h1" b c "c\<lparr>ref_count := ref_count c - 1\<rparr>"] c by auto
      moreover have "seq_inv (add_ref (Some a) ext) sext h2"
        using string_seq_free_ok [OF inv1] h2(1) by auto
      ultimately show ?thesis
        using that(2) [of a h2] cell seq_grows [OF s1 h2(3)] grows_trans [OF cell(3) h2(3)]
        by (simp add: string_seq_push_def)
    qed
  qed
qed

lemma seq_head_tail:
  assumes "seq (cells h) (Some a) xs"
  obtains c ys where "cells h a = Some c" "xs = head c # ys" "seq (cells h) (tail c) ys"
    "string_seq_head (Some a) h = Some (head c)" "string_seq_tail (Some a) h = Some (tail c)"
  using assms by (auto elim: seq_SomeE)

lemma seq_head_tail_later:
  assumes "seq (cells h) (Some a) (x # ys)" "grows (cells h) (cells h')"
  shows "\<exists>t. string_seq_tail (Some a) h' = Some t \<and> seq (cells h') t ys"
  using seq_grows [OF assms] by (auto elim: seq_SomeE)

lemma prepend_loop_ok:
  assumes "seq (cells h) cur xs" "seq_inv (add_ref r ext) sext h" "seq (cells h) r ys" "alloc_fresh alloc"
  shows "\<exists>res h'. prepend_loop alloc cur r h = Some (res, h') \<and>
    (case res of
       None \<Rightarrow> seq_inv ext sext h' \<and> refuses alloc
     | Some p \<Rightarrow> seq_inv (add_ref p ext) sext h' \<and> seq (cells h') p (rev xs @ ys) \<and> grows (cells h) (cells h') \<and>
         (p = None \<longleftrightarrow> xs = [] \<and> r = None))"
  using assms(1-3)
proof (induction xs arbitrary: cur r h ys rule: list.induct)
  case Nil
  then have "cur = None"
    by (auto elim: seq.cases)
  with Nil show ?case
    by (subst prepend_loop.simps) auto
next
  case (Cons x xs)
  then obtain a where a: "cur = Some a"
    by (auto elim: seq.cases)
  obtain c where c: "cells h a = Some c" "head c = x" "string_seq_head (Some a) h = Some x"
    using seq_head_tail [OF Cons.prems(1) [unfolded a]] by auto
  have live: "str_live x h"
    using seq_inv_head_live [OF Cons.prems(2) c(1)] c(2) by simp
  show ?case
    using Cons.prems(2) live assms(4) Cons.prems(3)
  proof (cases rule: string_seq_push_ok)
    case (refused h')
    then show ?thesis
      using a c(3) by (subst prepend_loop.simps) auto
  next
    case (cell b h')
    obtain t where t: "string_seq_tail (Some a) h' = Some t" "seq (cells h') t xs"
      using seq_head_tail_later [OF Cons.prems(1) [unfolded a] cell(3)] by auto
    have step: "prepend_loop alloc cur r h = prepend_loop alloc t (Some b) h'"
      using a c(3) cell(1) t(1)
      by (subst prepend_loop.simps) (simp del: string_seq_head.simps string_seq_tail.simps)
    obtain res h2 where res: "prepend_loop alloc t (Some b) h' = Some (res, h2)"
        "case res of None \<Rightarrow> seq_inv ext sext h2 \<and> refuses alloc
         | Some p \<Rightarrow> seq_inv (add_ref p ext) sext h2 \<and> seq (cells h2) p (rev xs @ x # ys) \<and> grows (cells h') (cells h2) \<and>
             (p = None \<longleftrightarrow> xs = [] \<and> Some b = None)"
      using Cons.IH [OF t(2) cell(2,5)] by auto
    then show ?thesis
      unfolding step using grows_trans [OF cell(3)]
      by (intro exI [of _ res] exI [of _ h2]) (auto split: option.splits)
  qed
qed

lemma string_seq_reverse_ok:
  assumes "seq (cells h) s xs" "seq_inv ext sext h" "alloc_fresh alloc"
  shows "\<exists>p h'. string_seq_reverse alloc s h = Some (p, h') \<and> seq_inv (add_ref p ext) sext h' \<and>
    (seq (cells h') p (rev xs) \<and> grows (cells h) (cells h') \<and> (p = None \<longleftrightarrow> xs = []) \<or> p = None \<and> refuses alloc)"
proof -
  obtain res h' where res: "prepend_loop alloc s None h = Some (res, h')"
      "case res of None \<Rightarrow> seq_inv ext sext h' \<and> refuses alloc
       | Some p \<Rightarrow> seq_inv (add_ref p ext) sext h' \<and> seq (cells h') p (rev xs @ []) \<and> grows (cells h) (cells h') \<and>
         (p = None \<longleftrightarrow> xs = [] \<and> (None :: nat option) = None)"
    using prepend_loop_ok [OF assms(1) _ seq_nil assms(3), of ext sext] assms(2) by auto
  then show ?thesis
    by (auto simp: string_seq_reverse_def split: option.splits)
qed

lemma seq_inv_kept:
  "seq_inv (add_ref p ext) sext h \<Longrightarrow> seq (cells h) p xs \<Longrightarrow> 
    seq_inv ext' sext' h' \<Longrightarrow> shrinks h h' \<Longrightarrow> (\<And>a. p = Some a \<Longrightarrow> 0 < ext' a) \<Longrightarrow> seq (cells h') p xs"
  using free_keeps_seq [of ext' sext' h' h _ xs] by (cases p) (auto elim!: seq_NoneE intro: seq_nil)

text \<open>
  \<open>delivers\<close> is the contract of the operations that return a sequence: the caller owns one new reference to
  it, every count is exact again, and the result holds \<open>xs\<close>; or it is empty because a cell was refused, and
  then nothing has been kept.
\<close>

definition delivers ::
  "allocator \<Rightarrow> (nat \<Rightarrow> nat) \<Rightarrow> (nat \<Rightarrow> nat) \<Rightarrow> strref list \<Rightarrow> (nat option \<times> seqheap) option \<Rightarrow> bool" where
  "delivers alloc ext sext xs r \<longleftrightarrow>
     (\<exists>p h'. r = Some (p, h') \<and> seq_inv (add_ref p ext) sext h' \<and>
        (seq (cells h') p xs \<or> p = None \<and> refuses alloc))"

lemma string_seq_concat_ok:
  assumes "seq (cells h) a xs" "seq (cells h) b ys" "seq_inv ext sext h" "alloc_fresh alloc"
  shows "delivers alloc ext sext (xs @ ys) (string_seq_concat alloc a b h)"
proof (cases "a = None")
  case True
  then have "xs = []"
    using assms(1) by (auto elim: seq_NoneE)
  moreover have "cell_live b h"
    using assms(2) by (cases b) (auto elim: seq_SomeE)
  ultimately show ?thesis
    using string_seq_retain_ok [OF assms(3), of b] assms(2) True
    by (auto simp: delivers_def string_seq_concat_def intro: seq_grows)
next
  case False
  then have ne: "xs \<noteq> []"
    using assms(1) by (auto elim: seq.cases)
  obtain q h1 where q: "string_seq_reverse alloc a h = Some (q, h1)" "seq_inv (add_ref q ext) sext h1"
      "seq (cells h1) q (rev xs) \<and> grows (cells h) (cells h1) \<and> (q = None \<longleftrightarrow> xs = []) \<or> q = None \<and> refuses alloc"
    using string_seq_reverse_ok [OF assms(1,3,4)] by auto
  show ?thesis
  proof (cases "q = None")
    case True
    with q False ne show ?thesis
      by (auto simp: delivers_def string_seq_concat_def)
  next
    case qn: False
    with q have s1: "seq (cells h1) q (rev xs)" and g1: "grows (cells h) (cells h1)"
      by auto
    have b1: "seq (cells h1) b ys"
      by (rule seq_grows [OF assms(2) g1])
    then have "cell_live b h1"
      by (cases b) (auto elim: seq_SomeE)
    from string_seq_retain_ok [OF q(2) this] obtain h2 where h2: "string_seq_retain b h1 = Some h2"
        "seq_inv (add_ref b (add_ref q ext)) sext h2" "grows (cells h1) (cells h2)"
      by auto
    obtain res h3 where res: "prepend_loop alloc q b h2 = Some (res, h3)"
        "case res of None \<Rightarrow> seq_inv (add_ref q ext) sext h3 \<and> refuses alloc
         | Some p \<Rightarrow> seq_inv (add_ref p (add_ref q ext)) sext h3 \<and> seq (cells h3) p (rev (rev xs) @ ys) \<and>
             grows (cells h2) (cells h3) \<and> (p = None \<longleftrightarrow> rev xs = [] \<and> b = None)"
      using prepend_loop_ok [OF seq_grows [OF s1 h2(3)] h2(2) seq_grows [OF b1 h2(3)] assms(4)] by auto
    define p where "p = (case res of None \<Rightarrow> None | Some p \<Rightarrow> p)"
    have inv3: "seq_inv (add_ref q (add_ref p ext)) sext h3"
      using res(2) by (cases res) (auto simp: p_def add_ref_commute [of q])
    obtain h4 where h4: "string_seq_free q h3 = Some h4" "seq_inv (add_ref p ext) sext h4" "shrinks h3 h4"
      using string_seq_free_ok [OF inv3] by auto
    have "seq (cells h4) p (xs @ ys) \<or> p = None \<and> refuses alloc"
    proof (cases res)
      case (Some p')
      then have "seq (cells h3) p (xs @ ys)"
        using res(2) by (simp add: p_def)
      with seq_inv_kept [OF _ this h4(2,3)] res(2) Some show ?thesis
        by (auto simp: p_def)
    qed (use res in \<open>auto simp: p_def\<close>)
    moreover have "string_seq_concat alloc a b h = Some (p, h4)"
      using False qn by (auto simp: string_seq_concat_def q(1) h2(1) res(1) h4(1) p_def)
    ultimately show ?thesis
      using h4(2) by (auto simp: delivers_def)
  qed
qed

lemma take_loop_ok:
  assumes "seq (cells h) cur xs" "seq_inv (add_ref r ext) sext h" "seq (cells h) r ys" "alloc_fresh alloc"
  shows "\<exists>res h'. take_loop alloc n cur r h = Some (res, h') \<and>
    (case res of
       None \<Rightarrow> seq_inv ext sext h' \<and> refuses alloc
     | Some p \<Rightarrow> seq_inv (add_ref p ext) sext h' \<and> seq (cells h') p (rev (take n xs) @ ys))"
  using assms(1-3)
proof (induction n arbitrary: cur r h xs ys rule: nat.induct)
  case (Suc n)
  show ?case
  proof (cases cur)
    case None
    then have "xs = []"
      using Suc.prems(1) by (auto elim: seq_NoneE)
    with None Suc.prems show ?thesis
      by auto
  next
    case (Some a)
    obtain c zs where c: "cells h a = Some c" "xs = head c # zs" "string_seq_head (Some a) h = Some (head c)"
      using seq_head_tail [OF Suc.prems(1) [unfolded Some]] by metis
    note live = seq_inv_head_live [OF Suc.prems(2) c(1)]
    show ?thesis
      using Suc.prems(2) live assms(4) Suc.prems(3)
    proof (cases rule: string_seq_push_ok)
      case (refused h')
      then show ?thesis
        using Some c(3) by auto
    next
      case (cell b h')
      obtain t where t: "string_seq_tail (Some a) h' = Some t" "seq (cells h') t zs"
        using seq_head_tail_later [OF _ cell(3)] Suc.prems(1) Some c(2) by blast
      have step: "take_loop alloc (Suc n) cur r h = take_loop alloc n t (Some b) h'"
        using Some c(3) cell(1) t(1) by (simp del: string_seq_head.simps string_seq_tail.simps)
      have eq: "rev (take (Suc n) xs) @ ys = rev (take n zs) @ head c # ys"
        using c(2) by simp
      show ?thesis
        unfolding step eq by (rule Suc.IH [OF t(2) cell(2,5)])
    qed
  qed
qed auto

lemma string_seq_take_ok:
  assumes "seq (cells h) s xs" "seq_inv ext sext h" "alloc_fresh alloc"
  shows "delivers alloc ext sext (take (nat n) xs) (string_seq_take alloc s n h)"
proof (cases "n \<le> 0 \<or> s = None")
  case True
  then have "take (nat n) xs = []"
    using assms(1) by (auto elim: seq_NoneE)
  with True assms(2) show ?thesis
    by (auto simp: delivers_def string_seq_take_def intro: seq_nil)
next
  case False
  obtain res h1 where res: "take_loop alloc (nat n) s None h = Some (res, h1)"
      "case res of None \<Rightarrow> seq_inv ext sext h1 \<and> refuses alloc
       | Some p \<Rightarrow> seq_inv (add_ref p ext) sext h1 \<and> seq (cells h1) p (rev (take (nat n) xs) @ [])"
    using take_loop_ok [where n = "nat n" and ext = ext and sext = sext and r = None, OF assms(1) _ seq_nil assms(3)]
      assms(2) by auto
  show ?thesis
  proof (cases res)
    case None
    with res False show ?thesis
      by (auto simp: delivers_def string_seq_take_def)
  next
    case (Some q)
    then have inv1: "seq_inv (add_ref q ext) sext h1" and s1: "seq (cells h1) q (rev (take (nat n) xs))"
      using res(2) by auto
    obtain p h2 where p: "string_seq_reverse alloc q h1 = Some (p, h2)" "seq_inv (add_ref p (add_ref q ext)) sext h2"
        "seq (cells h2) p (take (nat n) xs) \<or> p = None \<and> refuses alloc"
      using string_seq_reverse_ok [OF s1 inv1 assms(3)] by auto
    obtain h3 where h3: "string_seq_free q h2 = Some h3" "seq_inv (add_ref p ext) sext h3" "shrinks h2 h3"
      using string_seq_free_ok [OF p(2) [unfolded add_ref_commute [of p]]] by auto
    have "seq (cells h3) p (take (nat n) xs) \<or> p = None \<and> refuses alloc"
      using p(3) seq_inv_kept [OF p(2) _ h3(2,3)] by auto
    moreover have "string_seq_take alloc s n h = Some (p, h3)"
      using False by (auto simp: string_seq_take_def res(1) Some p(1) h3(1))
    ultimately show ?thesis
      using h3(2) by (auto simp: delivers_def)
  qed
qed

lemma drop_loop_ok:
  "seq (cells h) cur xs \<Longrightarrow> \<exists>q. drop_loop n cur h = Some q \<and> seq (cells h) q (drop n xs)"
proof (induction n arbitrary: cur xs rule: nat.induct)
  case (Suc n)
  show ?case
  proof (cases cur)
    case None
    then have "xs = []"
      using Suc.prems by (auto elim: seq_NoneE)
    with None Suc.prems show ?thesis
      by auto
  next
    case (Some a)
    obtain t zs x where "xs = x # zs" "seq (cells h) t zs" "string_seq_tail (Some a) h = Some t"
      using Suc.prems [unfolded Some] by (rule seq_SomeE) auto
    with Suc.IH [of t zs] Some show ?thesis
      by (simp del: string_seq_tail.simps)
  qed
qed auto

lemma string_seq_drop_ok:
  assumes "seq (cells h) s xs" "seq_inv ext sext h"
  shows "delivers alloc ext sext (drop (nat n) xs) (string_seq_drop s n h)"
proof -
  obtain q where q: "drop_loop (nat n) s h = Some q" "seq (cells h) q (drop (nat n) xs)"
    using drop_loop_ok [OF assms(1)] by blast
  have q0: "q = s" if "n \<le> 0"
    using q(1) that by simp
  have "cell_live q h"
    using q(2) by (cases q) (auto elim: seq_SomeE)
  with string_seq_retain_ok [OF assms(2)] obtain h' where "string_seq_retain q h = Some h'"
      "seq_inv (add_ref q ext) sext h'" "grows (cells h) (cells h')"
    by blast
  then show ?thesis
    using q q0 by (auto simp: delivers_def string_seq_drop_def intro: seq_grows)
qed

lemma from_array_loop_ok:
  assumes "seq_inv (add_ref r ext) sext h" "seq (cells h) r ys" "alloc_fresh alloc"
    and "\<forall>x\<in>set strings. str_live x h" "i \<le> length strings"
  shows "delivers alloc ext sext (take i strings @ ys) (from_array_loop alloc strings i r h)"
  using assms(1,2,4,5)
proof (induction i arbitrary: r h ys rule: nat.induct)
  case (Suc i)
  then have live: "str_live (strings ! i) h"
    by simp
  show ?case
    using Suc.prems(1) live assms(3) Suc.prems(2)
  proof (cases rule: string_seq_push_ok)
    case (refused h')
    then show ?thesis
      using Suc.prems(4) by (auto simp: delivers_def)
  next
    case (cell a h')
    have "str_live x h' = str_live x h" for x
      using cell(4) by (cases x) (auto simp: domIff set_eq_iff)
    then have "delivers alloc ext sext (take i strings @ strings ! i # ys) (from_array_loop alloc strings i (Some a) h')"
      using Suc.IH [OF cell(2,5)] Suc.prems(3,4) by auto
    with cell(1) Suc.prems(4) show ?thesis
      by (simp add: take_Suc_conv_app_nth)
  qed
qed (auto simp: delivers_def)

lemma to_array_loop_ok:
  assumes "seq (cells h) cur xs" "seq_inv ext sext h" "length xs = n"
  shows "\<exists>h'. to_array_loop n cur h out = Some (out @ xs, h') \<and> cells h' = cells h \<and>
    seq_inv ext (\<lambda>i. sext i + count_list xs (Obj i)) h'"
  using assms
proof (induction n arbitrary: cur xs h sext out rule: nat.induct)
  case (Suc n)
  then obtain a where a: "cur = Some a"
    by (cases cur) (auto elim: seq_NoneE)
  obtain c zs where c: "cells h a = Some c" "xs = head c # zs" "seq (cells h) (tail c) zs"
    using seq_head_tail [OF Suc.prems(1) [unfolded a]] by metis
  obtain h1 where h1: "string_retain (head c) h = Some h1" "cells h1 = cells h"
      "seq_inv ext (\<lambda>i. sext i + (if head c = Obj i then 1 else 0)) h1"
    using string_retain_ok [OF Suc.prems(2) seq_inv_head_live [OF Suc.prems(2) c(1)]] by auto
  have "seq (cells h1) (tail c) zs" "length zs = n"
    using c h1(2) Suc.prems(3) by auto
  moreover have "(\<lambda>i. sext i + (if head c = Obj i then 1 else 0) + count_list zs (Obj i)) =
      (\<lambda>i. sext i + count_list xs (Obj i))"
    by (auto simp: c(2))
  ultimately show ?case
    using Suc.IH [of h1 "tail c" zs "\<lambda>i. sext i + (if head c = Obj i then 1 else 0)" "out @ [head c]"] a c h1 by auto
qed auto

text \<open>
  Without client references no cell is left: a longest sequence would have no owner.
\<close>

lemma finite_max:
  "finite A \<Longrightarrow> A \<noteq> {} \<Longrightarrow> \<exists>a\<in>A. \<forall>b\<in>A. (f b :: nat) \<le> f a"
  by (induction A rule: finite_ne_induct) (auto, metis le_trans nat_le_linear)

lemma seq_inv_no_leak:
  assumes "seq_inv (\<lambda>a. 0) sext h"
  shows "cells h = Map.empty"
proof (rule ccontr)
  assume "cells h \<noteq> Map.empty"
  then have ne: "dom (cells h) \<noteq> {}"
    by simp
  have fin: "finite (dom (cells h))"
    using assms by (simp add: seq_inv_def)
  let ?len = "\<lambda>a. seq_length (the (cells h a))"
  obtain a where a: "a \<in> dom (cells h)" "\<forall>b\<in>dom (cells h). ?len b \<le> ?len a"
    using finite_max [OF fin ne, of ?len] by blast
  then obtain c where c: "cells h a = Some c"
    by auto
  then have "0 < refs tail (cells h) (Some a)"
    using assms counted_Some [of ref_count _ "cells h" a c] by (auto simp: seq_inv_def)
  then obtain b d where d: "cells h b = Some d" "tail d = Some a"
    unfolding refs_def by (auto simp: card_gt_0_iff)
  then have "seq_length d = seq_length c + 1"
    using assms lengths_okD [of "cells h" b d] c by (auto simp: seq_inv_def)
  then show False
    using bspec [OF a(2), of b] d(1) c by auto
qed

subsection \<open>Clients\<close>

definition held :: "(nat \<Rightarrow> nat) \<Rightarrow> nat option \<Rightarrow> bool" where
  "held ext p \<longleftrightarrow> (case p of None \<Rightarrow> True | Some a \<Rightarrow> 0 < ext a)"

definition str_held :: "(nat \<Rightarrow> nat) \<Rightarrow> strref \<Rightarrow> bool" where
  "str_held sext s \<longleftrightarrow> (case s of Obj i \<Rightarrow> 0 < sext i | _ \<Rightarrow> True)"

text \<open>
  A client of the library: the references it holds to cells and to strings, over the store.  It calls the library only
  with handles and strings it holds, and only while no count can overflow its \<^verbatim>\<open>int\<close>: \<open>new_refs\<close> bounds the
  references a call takes, and \<open>room\<close> says that every count can grow by so many.
\<close>

datatype seq_call =
    Call_cons strref "nat option"
  | Call_retain "nat option"
  | Call_free "nat option"
  | Call_from_array "strref list" int
  | Call_reverse "nat option"
  | Call_concat "nat option" "nat option"
  | Call_take "nat option" int
  | Call_drop "nat option" int
  | Call_release nat

record seq_client =
  handles :: "nat \<Rightarrow> nat"
  held_strs :: "nat \<Rightarrow> nat"
  store :: seqheap

fun new_refs :: "seq_call \<Rightarrow> seqheap \<Rightarrow> nat" where
  "new_refs (Call_from_array strings count) h = nat count + 1"
| "new_refs (Call_reverse s) h = the (string_seq_length s h) + 1"
| "new_refs (Call_concat s t) h = 2 * the (string_seq_length s h) + 1"
| "new_refs (Call_take s n) h = 2 * the (string_seq_length s h) + 1"
| "new_refs c h = 1"

definition room :: "nat \<Rightarrow> seqheap \<Rightarrow> bool" where
  "room k h \<longleftrightarrow> (\<forall>c \<in> ran (cells h). ref_count c + int k < 2 ^ 31) \<and> (\<forall>n \<in> ran (strs h). n + int k < 2 ^ 31)"

fun may_call :: "seq_call \<Rightarrow> seq_client \<Rightarrow> bool" where
  "may_call (Call_cons el t) st \<longleftrightarrow> held (handles st) t \<and> str_held (held_strs st) el"
| "may_call (Call_retain p) st \<longleftrightarrow> held (handles st) p"
| "may_call (Call_free p) st \<longleftrightarrow> held (handles st) p"
| "may_call (Call_from_array strings count) st \<longleftrightarrow> (\<forall>x\<in>set strings. str_held (held_strs st) x) \<and> nat count \<le> length strings"
| "may_call (Call_reverse s) st \<longleftrightarrow> held (handles st) s"
| "may_call (Call_concat s t) st \<longleftrightarrow> held (handles st) s \<and> held (handles st) t"
| "may_call (Call_take s n) st \<longleftrightarrow> held (handles st) s"
| "may_call (Call_drop s n) st \<longleftrightarrow> held (handles st) s"
| "may_call (Call_release i) st \<longleftrightarrow> 0 < held_strs st i"

fun drop_ref :: "nat option \<Rightarrow> (nat \<Rightarrow> nat) \<Rightarrow> nat \<Rightarrow> nat" where
  "drop_ref None ext = ext"
| "drop_ref (Some a) ext = ext(a := ext a - 1)"

definition gains :: "seq_client \<Rightarrow> (nat option \<times> seqheap) option \<Rightarrow> seq_client option" where
  "gains st r = map_option (\<lambda>(p, h). st\<lparr>handles := add_ref p (handles st), store := h\<rparr>) r"

fun perform :: "allocator \<Rightarrow> seq_call \<Rightarrow> seq_client \<Rightarrow> seq_client option" where
  "perform alloc (Call_cons el t) st = gains st (string_seq_cons alloc el t (store st))"
| "perform alloc (Call_retain p) st = gains st (map_option (Pair p) (string_seq_retain p (store st)))"
| "perform alloc (Call_free p) st =
     map_option (\<lambda>h. st\<lparr>handles := drop_ref p (handles st), store := h\<rparr>) (string_seq_free p (store st))"
| "perform alloc (Call_from_array strings count) st = gains st (string_seq_from_array alloc (Some strings) count (store st))"
| "perform alloc (Call_reverse s) st = gains st (string_seq_reverse alloc s (store st))"
| "perform alloc (Call_concat s t) st = gains st (string_seq_concat alloc s t (store st))"
| "perform alloc (Call_take s n) st = gains st (string_seq_take alloc s n (store st))"
| "perform alloc (Call_drop s n) st = gains st (string_seq_drop s n (store st))"
| "perform alloc (Call_release i) st =
     map_option (\<lambda>h. st\<lparr>held_strs := (held_strs st)(i := held_strs st i - 1), store := h\<rparr>) (string_release (Obj i) (store st))"

text \<open>
  The calls of a list, in order, without those the client may not make; \<open>None\<close> when a call does not return or
  touches an object that is gone.
\<close>

fun seq_run :: "allocator \<Rightarrow> seq_call list \<Rightarrow> seq_client \<Rightarrow> seq_client option" where
  "seq_run alloc [] st = Some st"
| "seq_run alloc (c # cs) st =
     (if may_call c st \<and> room (new_refs c (store st)) (store st)
      then Option.bind (perform alloc c st) (seq_run alloc cs)
      else seq_run alloc cs st)"

lemma held_seq:
  assumes "seq_inv ext sext h" "held ext p"
  obtains xs where "seq (cells h) p xs"
proof (cases p)
  case None
  then show ?thesis
    using that seq_nil by blast
next
  case (Some a)
  then obtain c where "cells h a = Some c"
    using seq_inv_live [OF assms(1)] assms(2) by (auto simp: held_def)
  then show ?thesis
    using that seq_exists [of "cells h" a c] assms(1) Some by (auto simp: seq_inv_def)
qed

lemma seq_cell_live: "seq (cells h) p xs \<Longrightarrow> cell_live p h"
  by (cases p) (auto elim: seq_SomeE)

lemma str_held_live:
  assumes "seq_inv ext sext h" "str_held sext s"
  shows "str_live s h"
proof (cases s)
  case (Obj i)
  then show ?thesis
    using assms counted_pos [of "\<lambda>n. n" _ "strs h" i] by (fastforce simp: seq_inv_def str_held_def)
qed auto

lemma delivers_inv: "delivers alloc ext sext xs (Some (p, h')) \<Longrightarrow> seq_inv (add_ref p ext) sext h'"
  by (auto simp: delivers_def)

lemma string_seq_from_array_ok:
  assumes "seq_inv ext sext h" "alloc_fresh alloc" "\<forall>x\<in>set strings. str_held sext x" "nat count \<le> length strings"
  shows "delivers alloc ext sext (take (nat count) strings) (string_seq_from_array alloc (Some strings) count h)"
proof (cases "count \<le> 0")
  case True
  with assms(1) show ?thesis
    by (auto simp: delivers_def string_seq_from_array_def intro: seq_nil)
next
  case False
  then show ?thesis
    using from_array_loop_ok [of None ext sext h "[]" alloc strings "nat count"] assms str_held_live [OF assms(1)]
    by (auto simp: string_seq_from_array_def intro: seq_nil)
qed

definition client_inv :: "seq_client \<Rightarrow> bool" where
  "client_inv st \<longleftrightarrow> seq_inv (handles st) (held_strs st) (store st)"

lemma gains_ok:
  assumes "delivers alloc (handles st) (held_strs st) xs r"
  shows "\<exists>st'. gains st r = Some st' \<and> client_inv st'"
  using assms by (auto simp: delivers_def gains_def client_inv_def)

lemma release_client_ok:
  assumes "client_inv st" "0 < held_strs st i"
  shows "\<exists>st'. perform alloc (Call_release i) st = Some st' \<and> client_inv st'"
proof -
  let ?h = "store st" and ?s = "held_strs st"
  have c: "counted (\<lambda>n. n) (\<lambda>i. ?s i + refs head (cells ?h) (Obj i)) (strs ?h)"
    using assms(1) by (simp add: client_inv_def seq_inv_def)
  obtain h1 where h1: "string_release (Obj i) ?h = Some h1" "cells h1 = cells ?h"
      "counted (\<lambda>n. n) (\<lambda>x. ?s x + refs head (cells ?h) (Obj x) - (if Obj i = Obj x then 1 else 0)) (strs h1)"
    using string_release_ok [OF c, of "Obj i"] assms(2) by auto
  have "(\<lambda>x. ?s x + refs head (cells ?h) (Obj x) - (if Obj i = Obj x then 1 else 0)) =
      (\<lambda>x. (?s(i := ?s i - 1)) x + refs head (cells ?h) (Obj x))"
    using assms(2) by auto
  with h1 assms(1) show ?thesis
    by (auto simp: client_inv_def seq_inv_def)
qed

lemma add_drop_ref: "held ext p \<Longrightarrow> add_ref p (drop_ref p ext) = ext"
  by (cases p) (auto simp: held_def)

text \<open>
  Every call that a client may make returns.
\<close>

lemma perform_ok:
  assumes inv: "client_inv st" and fresh: "alloc_fresh alloc" and may: "may_call c st"
  shows "\<exists>st'. perform alloc c st = Some st' \<and> client_inv st'"
proof -
  note si = inv [unfolded client_inv_def]
  note hs = held_seq [OF si]
  show ?thesis
  proof (cases c)
    case (Call_cons el t)
    obtain xs where "seq (cells (store st)) t xs"
      using hs [of t] may Call_cons by auto
    note live = seq_cell_live [OF this] str_held_live [OF si, of el]
    from string_seq_cons_ok [OF si live(1) live(2) fresh] may Call_cons show ?thesis
      by (cases rule: string_seq_cons_ok [OF si live(1) live(2) fresh])
        (use may Call_cons si in \<open>auto simp: gains_def client_inv_def\<close>)
  next
    case (Call_retain q)
    obtain xs where "seq (cells (store st)) q xs"
      using hs [of q] may Call_retain by auto
    from string_seq_retain_ok [OF si seq_cell_live [OF this]] Call_retain show ?thesis
      by (auto simp: gains_def client_inv_def)
  next
    case (Call_free q)
    then have "seq_inv (add_ref q (drop_ref q (handles st))) (held_strs st) (store st)"
      using may si by (simp add: add_drop_ref)
    from string_seq_free_ok [OF this] Call_free show ?thesis
      by (auto simp: client_inv_def)
  next
    case (Call_from_array strings count)
    then show ?thesis
      using gains_ok [OF string_seq_from_array_ok [OF si fresh]] may by simp
  next
    case (Call_reverse s)
    obtain xs where "seq (cells (store st)) s xs"
      using hs [of s] may Call_reverse by auto
    from string_seq_reverse_ok [OF this si fresh] Call_reverse show ?thesis
      by (auto simp: gains_def client_inv_def)
  next
    case (Call_concat s t)
    obtain xs ys where "seq (cells (store st)) s xs" "seq (cells (store st)) t ys"
      using hs [of s] hs [of t] may Call_concat by (metis may_call.simps(6))
    from gains_ok [OF string_seq_concat_ok [OF this si fresh]] Call_concat show ?thesis
      by simp
  next
    case (Call_take s n)
    obtain xs where "seq (cells (store st)) s xs"
      using hs [of s] may Call_take by auto
    from gains_ok [OF string_seq_take_ok [OF this si fresh]] Call_take show ?thesis
      by simp
  next
    case (Call_drop s n)
    obtain xs where "seq (cells (store st)) s xs"
      using hs [of s] may Call_drop by auto
    from gains_ok [OF string_seq_drop_ok [OF this si]] Call_drop show ?thesis
      by simp
  next
    case (Call_release i)
    then show ?thesis
      using release_client_ok [OF inv] may by auto
  qed
qed

lemma seq_run_ok:
  "client_inv st \<Longrightarrow> alloc_fresh alloc \<Longrightarrow> \<exists>st'. seq_run alloc cs st = Some st' \<and> client_inv st'"
proof (induction cs arbitrary: st)
  case (Cons c cs)
  show ?case
  proof (cases "may_call c st \<and> room (new_refs c (store st)) (store st)")
    case True
    then obtain st1 where "perform alloc c st = Some st1" "client_inv st1"
      using perform_ok [OF Cons.prems, of c] by blast
    then show ?thesis
      using Cons.IH [of st1] Cons.prems True by simp
  next
    case False
    then show ?thesis
      using Cons by auto
  qed
qed auto

lemma start_inv: "counted (\<lambda>n. n) sext ss \<Longrightarrow> client_inv \<lparr>handles = \<lambda>a. 0, held_strs = sext, store = \<lparr>cells = Map.empty, strs = ss\<rparr>\<rparr>"
  by (simp add: client_inv_def seq_inv_def lengths_ok_def counted_def refs_def)

text \<open>
  A store with one cell and an allocator that gives the first free address.
\<close>

definition one_cell :: seqheap where
  "one_cell = \<lparr>cells = [0 \<mapsto> \<lparr>ref_count = 1, seq_length = 1, head = Lit [97], tail = None\<rparr>], strs = Map.empty\<rparr>"

definition first_free :: allocator where
  "first_free h = (if \<exists>a. cells h a = None then Some (LEAST a. cells h a = None) else None)"

lemma first_free_fresh: "alloc_fresh first_free"
  by (auto simp: alloc_fresh_def first_free_def intro: LeastI)

lemma first_free_total: "\<not> refuses first_free"
proof
  assume "refuses first_free"
  then obtain h where h: "finite (dom (cells h))" "first_free h = None"
    by (auto simp: refuses_def)
  then obtain a where "a \<notin> dom (cells h)"
    using ex_new_if_finite infinite_UNIV_nat by blast
  with h(2) show False
    by (auto simp: first_free_def split: if_splits)
qed

lemma one_cell_inv: "seq_inv (add_ref (Some 0) (\<lambda>a. 0)) (\<lambda>i. 0) one_cell"
proof -
  let ?e = "\<lparr>cells = Map.empty, strs = Map.empty\<rparr> :: seqheap"
  have "seq_inv (add_ref None (\<lambda>a. 0)) (\<lambda>i. 0 + (if Lit [97] = Obj i then 1 else 0)) ?e"
    by (simp add: seq_inv_def lengths_ok_def counted_def refs_def)
  from seq_inv_insert [OF this, of 0 "\<lparr>ref_count = 1, seq_length = 1, head = Lit [97], tail = None\<rparr>" 0] show ?thesis
    by (simp add: one_cell_def)
qed

lemma one_cell_seq: "seq (cells one_cell) (Some 0) [Lit [97]]"
  using seq.seq_cons [of "cells one_cell" 0 _ "[]"] seq_nil [of "cells one_cell"] by (simp add: one_cell_def)

subsection \<open>Properties\<close>

text \<open>C37. Dropping a reference that the client holds always ends and touches only live cells and strings.
  Afterwards every stored count is again the exact number of references, so the other owners are not affected: every
  sequence still held has the same elements as before, and cells with no owner are gone.
\<close>

theorem string_seq_free_correct:
  assumes "seq_inv (add_ref p ext) sext h"
  shows "\<exists>h'. string_seq_free p h = Some h' \<and> seq_inv ext sext h' \<and>
    (\<forall>a xs. 0 < ext a \<and> seq (cells h) (Some a) xs \<longrightarrow> seq (cells h') (Some a) xs) \<and>
    (\<forall>a. cells h' a \<noteq> None \<longleftrightarrow> 0 < ext a + refs tail (cells h') (Some a))"
proof -
  obtain h' where h': "string_seq_free p h = Some h'" "seq_inv ext sext h'" "shrinks h h'"
    using string_seq_free_ok [OF assms] by auto
  moreover have "cells h' a \<noteq> None \<longleftrightarrow> 0 < ext a + refs tail (cells h') (Some a)" for a
    using h'(2) counted_at [of ref_count "\<lambda>a. ext a + refs tail (cells h') (Some a)" "cells h'" a]
    by (cases "cells h' a") (auto simp: seq_inv_def)
  ultimately show ?thesis
    using free_keeps_seq [OF h'(2,3)] by blast
qed

theorem string_seq_free_correct_witness:
  "\<exists>h'. string_seq_free (Some 0) one_cell = Some h' \<and> seq_inv (\<lambda>a. 0) (\<lambda>i. 0) h'"
  using string_seq_free_correct [OF one_cell_inv] by blast

text \<open>C38. The combinators compute the list functions they are named after on any live sequences, shared or not, and
  own exactly one new reference to their result; when a cell is refused they return the empty sequence and have given
  back all they took.
\<close>

theorem string_seq_combinators:
  assumes "seq_inv ext sext h" "alloc_fresh alloc" "seq (cells h) s xs" "seq (cells h) t ys"
  shows "delivers alloc ext sext (rev xs) (string_seq_reverse alloc s h) \<and>
    delivers alloc ext sext (xs @ ys) (string_seq_concat alloc s t h) \<and>
    delivers alloc ext sext (take (nat n) xs) (string_seq_take alloc s n h) \<and>
    delivers alloc ext sext (drop (nat n) xs) (string_seq_drop s n h)"
proof (intro conjI)
  show "delivers alloc ext sext (rev xs) (string_seq_reverse alloc s h)"
    using string_seq_reverse_ok [OF assms(3,1,2)] by (auto simp: delivers_def)
  show "delivers alloc ext sext (drop (nat n) xs) (string_seq_drop s n h)"
    by (rule string_seq_drop_ok [OF assms(3,1)])
qed (use assms string_seq_concat_ok string_seq_take_ok in blast)+

theorem string_seq_combinators_witness:
  "delivers first_free (add_ref (Some 0) (\<lambda>a. 0)) (\<lambda>i. 0) ([Lit [97]] @ []) (string_seq_concat first_free (Some 0) None one_cell)"
  using string_seq_combinators [OF one_cell_inv first_free_fresh one_cell_seq seq_nil, of 0] by blast

text \<open>C39. Whatever list of calls a client makes on handles and strings it holds, starting with no cell and as long as the
  \<^verbatim>\<open>int\<close> counts have room (a call that breaks these rules is not made): every call returns and touches only live cells and strings, the counts are exact, and once
  the client has dropped its last handle no cell is left and every string is back to the references held outside.
\<close>

theorem seq_run_no_leak:
  assumes "counted (\<lambda>n. n) sext ss" "alloc_fresh alloc"
  shows "\<exists>st. seq_run alloc cs \<lparr>handles = \<lambda>a. 0, held_strs = sext, store = \<lparr>cells = Map.empty, strs = ss\<rparr>\<rparr> = Some st \<and>
    seq_inv (handles st) (held_strs st) (store st) \<and>
    (handles st = (\<lambda>a. 0) \<longrightarrow>
      cells (store st) = Map.empty \<and> (\<forall>i n. strs (store st) i = Some n \<longrightarrow> n = int (held_strs st i)))"
proof -
  obtain st where st: "seq_run alloc cs \<lparr>handles = \<lambda>a. 0, held_strs = sext, store = \<lparr>cells = Map.empty, strs = ss\<rparr>\<rparr> = Some st"
      "client_inv st"
    using seq_run_ok [OF start_inv [OF assms(1)] assms(2)] by blast
  note inv = st(2) [unfolded client_inv_def]
  have e: "cells (store st) = Map.empty" if "handles st = (\<lambda>a. 0)"
    using inv that by (auto intro: seq_inv_no_leak)
  have "n = int (held_strs st i)" if "handles st = (\<lambda>a. 0)" "strs (store st) i = Some n" for i n
    using inv counted_Some [of "\<lambda>n. n" _ "strs (store st)" i n] that e by (auto simp: seq_inv_def refs_def)
  then show ?thesis
    using st(1) inv e by blast
qed

text \<open>
  A client with one string that builds a sequence of two cells, shares its tail, reverses it and gives everything back.
\<close>

definition four_cells :: allocator where
  "four_cells h = (if cells h 0 = None then Some 0 else if cells h 1 = None then Some 1
     else if cells h 2 = None then Some 2 else if cells h 3 = None then Some 3 else None)"

definition sample_calls :: "seq_call list" where
  "sample_calls =
     [Call_cons (Obj 5) None, Call_cons (Lit [98]) (Some 0), Call_retain (Some 0), Call_reverse (Some 1),
      Call_free (Some 1), Call_free (Some 0), Call_free (Some 0), Call_free (Some 3)]"

definition sample_client :: seq_client where
  "sample_client = \<lparr>handles = \<lambda>a. 0, held_strs = (\<lambda>i. if i = 5 then 1 else 0), store = \<lparr>cells = Map.empty, strs = [5 \<mapsto> 1]\<rparr>\<rparr>"

lemma four_cells_fresh: "alloc_fresh four_cells"
  by (simp add: alloc_fresh_def four_cells_def)

lemmas run_simps = gains_def held_def str_held_def room_def four_cells_def string_seq_cons_def string_seq_free.simps
  string_seq_reverse_def string_seq_push_def

lemma sample_calls_return: "\<exists>st. seq_run four_cells sample_calls sample_client = Some st \<and> handles st = (\<lambda>a. 0)"
  by (simp add: sample_calls_def sample_client_def run_simps prepend_loop.simps fun_eq_iff)

theorem seq_run_no_leak_witness:
  "\<exists>st. seq_run four_cells sample_calls sample_client = Some st \<and> cells (store st) = Map.empty"
proof -
  have "counted (\<lambda>n. n) (\<lambda>i. if i = 5 then 1 else 0) [5 \<mapsto> 1]"
    by (simp add: counted_def)
  from seq_run_no_leak [OF this four_cells_fresh, of sample_calls] sample_calls_return show ?thesis
    by (auto simp: sample_client_def)
qed

text \<open>An array of strings turned into a sequence and back is the same array, prefix by prefix, and the array owns one
  more reference to each of its strings.
\<close>

theorem string_seq_array_roundtrip:
  assumes "seq_inv ext sext h" "alloc_fresh alloc" "\<not> refuses alloc" "\<forall>n. malloc_ok n"
    and "\<forall>x\<in>set strings. str_held sext x" "0 < count" "nat count \<le> length strings"
  shows "\<exists>p h1 h2. string_seq_from_array alloc (Some strings) count h = Some (p, h1) \<and>
    string_seq_to_array malloc_ok p h1 = Some (Some (take (nat count) strings), h2) \<and>
    seq_inv (add_ref p ext) (\<lambda>i. sext i + count_list (take (nat count) strings) (Obj i)) h2"
proof -
  let ?xs = "take (nat count) strings"
  obtain p h1 where p: "string_seq_from_array alloc (Some strings) count h = Some (p, h1)"
      "seq_inv (add_ref p ext) sext h1" "seq (cells h1) p ?xs"
    using string_seq_from_array_ok [OF assms(1,2,5,7)] assms(3) by (auto simp: delivers_def)
  have "?xs \<noteq> []"
    using assms(6,7) by auto
  then have "p \<noteq> None"
    using p(3) by (metis seq_NoneE)
  moreover obtain n where n: "string_seq_length p h1 = Some n" "length ?xs = n"
    using seq_length_ok [OF p(2) seq_cell_live [OF p(3)]] p(3) by auto
  moreover obtain h2 where "to_array_loop n p h1 [] = Some ([] @ ?xs, h2)"
      "seq_inv (add_ref p ext) (\<lambda>i. sext i + count_list ?xs (Obj i)) h2"
    using to_array_loop_ok [OF p(3,2) n(2), of "[]"] by auto
  ultimately show ?thesis
    using p(1) assms(4) by (auto simp: string_seq_to_array_def)
qed

theorem string_seq_array_roundtrip_witness:
  "\<exists>p h1 h2. string_seq_from_array first_free (Some [Lit [97], NullStr]) 2 one_cell = Some (p, h1) \<and>
    string_seq_to_array (\<lambda>n. True) p h1 = Some (Some [Lit [97], NullStr], h2)"
  using string_seq_array_roundtrip [OF one_cell_inv first_free_fresh first_free_total, of "\<lambda>n. True" "[Lit [97], NullStr]" 2]
  by (auto simp: str_held_def numeral_2_eq_2)

end
