(* ===== verification/AetherStringList.thy ===== *)
theory AetherStringList
  imports AetherArrays AetherSeq
begin

section \<open>String lists of the Aether library\<close>

text \<open>
  Models \<^verbatim>\<open>std/collections/aether_stringlist.c\<close>: an array list (\<^verbatim>\<open>AetherArrays\<close>) that holds a
  reference to each of its strings (the counts of \<^verbatim>\<open>AetherSeq\<close>).  Items are pointers; \<open>is_str\<close>
  is the magic number test that tells a counted string from a plain one, and a list operation is \<open>None\<close>
  when it would touch a string that has been freed.
\<close>

subsection \<open>Operations\<close>

record StringList =
  sl_items :: "ArrayList option"

definition str_of :: "(nat \<Rightarrow> bool) \<Rightarrow> nat \<Rightarrow> strref" where
  "str_of is_str p = (if p = 0 then NullStr else if is_str p then Obj p else Lit [])"

definition string_list_new :: "(nat \<Rightarrow> bool) \<Rightarrow> StringList option" where
  "string_list_new alloc =
     (if \<not> alloc 8 then None
      else case list_new alloc of None \<Rightarrow> None | Some l \<Rightarrow> Some \<lparr>sl_items = Some l\<rparr>)"

definition sl_null :: "StringList option \<Rightarrow> bool" where
  "sl_null lst \<longleftrightarrow> (case lst of None \<Rightarrow> True | Some sl \<Rightarrow> sl_items sl = None)"

definition items_of :: "StringList option \<Rightarrow> ArrayList option" where
  "items_of lst = (case lst of None \<Rightarrow> None | Some sl \<Rightarrow> sl_items sl)"

definition string_list_add ::
  "(nat \<Rightarrow> bool) \<Rightarrow> (nat \<Rightarrow> bool) \<Rightarrow> StringList option \<Rightarrow> nat \<Rightarrow> seqheap \<Rightarrow> (int \<times> StringList option \<times> seqheap) option" where
  "string_list_add alloc is_str lst s h =
     (if sl_null lst then Some (0, lst, h)
      else Option.bind (string_retain (str_of is_str s) h) (\<lambda>h1.
        case list_add_raw alloc (items_of lst) s of (r, l) \<Rightarrow>
          if r = 0
          then Option.bind (string_release (str_of is_str s) h1) (\<lambda>h2. Some (0, Some \<lparr>sl_items = l\<rparr>, h2))
          else Some (1, Some \<lparr>sl_items = l\<rparr>, h1)))"

definition string_list_get :: "StringList option \<Rightarrow> int \<Rightarrow> nat" where
  "string_list_get lst index = (if sl_null lst then 0 else list_get_raw (items_of lst) index)"

definition string_list_size :: "StringList option \<Rightarrow> int" where
  "string_list_size lst = (if sl_null lst then - 1 else list_size (items_of lst))"

definition string_list_set ::
  "(nat \<Rightarrow> bool) \<Rightarrow> StringList option \<Rightarrow> int \<Rightarrow> nat \<Rightarrow> seqheap \<Rightarrow> (StringList option \<times> seqheap) option" where
  "string_list_set is_str lst index s h =
     (if sl_null lst \<or> index < 0 \<or> index \<ge> list_size (items_of lst) then Some (lst, h)
      else let old = list_get_raw (items_of lst) index
           in Option.bind (string_retain (str_of is_str s) h) (\<lambda>h1.
              Option.bind (string_release (str_of is_str old) h1) (\<lambda>h2.
                Some (Some \<lparr>sl_items = list_set (items_of lst) index s\<rparr>, h2))))"

definition string_list_remove ::
  "(nat \<Rightarrow> bool) \<Rightarrow> StringList option \<Rightarrow> int \<Rightarrow> seqheap \<Rightarrow> (StringList option \<times> seqheap) option" where
  "string_list_remove is_str lst index h =
     (if sl_null lst \<or> index < 0 \<or> index \<ge> list_size (items_of lst) then Some (lst, h)
      else let old = list_get_raw (items_of lst) index
           in Option.bind (string_release (str_of is_str old) h) (\<lambda>h1.
                Some (Some \<lparr>sl_items = list_remove (items_of lst) index\<rparr>, h1)))"

text \<open>
  \<open>release_from\<close> is the loop over the items of \<^verbatim>\<open>string_list_clear\<close> and
  \<^verbatim>\<open>string_list_free\<close>, with the number of items left.
\<close>

fun release_from :: "(nat \<Rightarrow> bool) \<Rightarrow> ArrayList option \<Rightarrow> nat \<Rightarrow> nat \<Rightarrow> seqheap \<Rightarrow> seqheap option" where
  "release_from is_str l 0 i h = Some h"
| "release_from is_str l (Suc k) i h =
     Option.bind (string_release (str_of is_str (list_get_raw l (int i))) h) (\<lambda>h1. release_from is_str l k (i + 1) h1)"

definition string_list_clear ::
  "(nat \<Rightarrow> bool) \<Rightarrow> StringList option \<Rightarrow> seqheap \<Rightarrow> (StringList option \<times> seqheap) option" where
  "string_list_clear is_str lst h =
     (if sl_null lst then Some (lst, h)
      else Option.bind (release_from is_str (items_of lst) (nat (list_size (items_of lst))) 0 h) (\<lambda>h1.
             Some (Some \<lparr>sl_items = list_clear (items_of lst)\<rparr>, h1)))"

definition string_list_free :: "(nat \<Rightarrow> bool) \<Rightarrow> StringList option \<Rightarrow> seqheap \<Rightarrow> seqheap option" where
  "string_list_free is_str lst h =
     (if sl_null lst then Some h
      else release_from is_str (items_of lst) (nat (list_size (items_of lst))) 0 h)"

subsection \<open>Counts\<close>

definition obj_count :: "(nat \<Rightarrow> bool) \<Rightarrow> nat list \<Rightarrow> nat \<Rightarrow> nat" where
  "obj_count is_str xs i = (if i \<noteq> 0 \<and> is_str i then count_list xs i else 0)"

definition sl_inv :: "(nat \<Rightarrow> bool) \<Rightarrow> (nat \<Rightarrow> nat) \<Rightarrow> nat list \<Rightarrow> StringList option \<Rightarrow> seqheap \<Rightarrow> bool" where
  "sl_inv is_str sext xs lst h \<longleftrightarrow>
     (\<exists>l. lst = Some \<lparr>sl_items = Some l\<rparr> \<and> al_ok l \<and> alist l = xs) \<and>
     counted (\<lambda>n. n) (\<lambda>i. sext i + obj_count is_str xs i) (strs h)"

definition usable :: "(nat \<Rightarrow> bool) \<Rightarrow> nat \<Rightarrow> seqheap \<Rightarrow> bool" where
  "usable is_str s h \<longleftrightarrow> str_live (str_of is_str s) h"

lemma retain_counted:
  assumes "counted (\<lambda>n. n) m (strs h)" "usable is_str s h"
  shows "\<exists>h'. string_retain (str_of is_str s) h = Some h' \<and>
    counted (\<lambda>n. n) (\<lambda>i. m i + obj_count is_str [s] i) (strs h')"
proof (cases "s \<noteq> 0 \<and> is_str s")
  case True
  then obtain n where n: "strs h s = Some n"
    using assms(2) by (auto simp: usable_def str_of_def)
  then have "n = int (m s)" "0 < m s"
    using counted_Some [OF assms(1) n] by auto
  then have "counted (\<lambda>n. n) (\<lambda>i. m i + obj_count is_str [s] i) ((strs h)(s \<mapsto> n + 1))"
    using True by (intro counted_upd [OF assms(1), where j = "m s + 1"]) (auto simp: obj_count_def)
  with True n show ?thesis
    by (auto simp: str_of_def)
next
  case False
  then have "obj_count is_str [s] = (\<lambda>i. 0)"
    by (auto simp: obj_count_def)
  with False assms(1) show ?thesis
    by (auto simp: str_of_def)
qed

lemma release_counted:
  assumes "counted (\<lambda>n. n) (\<lambda>i. m i + obj_count is_str [s] i) (strs h)"
  shows "\<exists>h'. string_release (str_of is_str s) h = Some h' \<and> counted (\<lambda>n. n) m (strs h')"
proof -
  let ?m = "\<lambda>i. m i + obj_count is_str [s] i"
  have pos: "0 < ?m i" if "str_of is_str s = Obj i" for i
    using that by (auto simp: str_of_def obj_count_def split: if_splits)
  have "(\<lambda>i. ?m i - (if str_of is_str s = Obj i then 1 else 0)) = m"
    by (auto simp: str_of_def obj_count_def)
  with string_release_ok [OF assms, of "str_of is_str s"] pos show ?thesis
    by auto
qed

lemma obj_count_append: "obj_count is_str (xs @ ys) i = obj_count is_str xs i + obj_count is_str ys i"
  by (simp add: obj_count_def count_list_append)

lemma obj_count_Nil [simp]: "obj_count is_str [] i = 0"
  by (simp add: obj_count_def)

lemma obj_count_Cons: "obj_count is_str (x # xs) i = obj_count is_str [x] i + obj_count is_str xs i"
  using obj_count_append [of is_str "[x]" xs i] by simp

lemma obj_count_nth:
  assumes "k < length xs"
  shows "obj_count is_str xs i = obj_count is_str (take k xs) i + obj_count is_str [xs ! k] i + obj_count is_str (drop (Suc k) xs) i"
  using obj_count_append [of is_str "take k xs" "drop k xs" i] obj_count_Cons [of is_str "xs ! k" "drop (Suc k) xs" i]
    Cons_nth_drop_Suc [OF assms] by simp

lemma list_get_alist: "al_ok l \<Longrightarrow> 0 \<le> i \<Longrightarrow> i < al_size l \<Longrightarrow> list_get_raw (Some l) i = alist l ! nat i"
  by (auto simp: list_get_raw_def alist_def al_ok_def)

lemma list_set_alist:
  "al_ok l \<Longrightarrow> 0 \<le> i \<Longrightarrow> i < al_size l \<Longrightarrow>
    \<exists>m. list_set (Some l) i x = Some m \<and> al_ok m \<and> alist m = (alist l)[nat i := x]"
  by (auto simp: list_set_def alist_def al_ok_def take_update_swap)

lemma list_clear_alist: "al_ok l \<Longrightarrow> \<exists>m. list_clear (Some l) = Some m \<and> al_ok m \<and> alist m = []"
  by (auto simp: list_clear_def alist_def al_ok_def)

lemma sl_cases:
  assumes "sl_inv is_str sext xs lst h"
  obtains l where "lst = Some \<lparr>sl_items = Some l\<rparr>" "al_ok l" "alist l = xs" "\<not> sl_null lst" "items_of lst = Some l"
    "list_size (items_of lst) = int (length xs)" "al_size l = int (length xs)"
    "counted (\<lambda>n. n) (\<lambda>i. sext i + obj_count is_str xs i) (strs h)"
  using assms alist_length by (fastforce simp: sl_inv_def sl_null_def items_of_def list_size_def)

lemma release_from_ok:
  assumes "al_ok l" "counted (\<lambda>n. n) (\<lambda>j. sext j + obj_count is_str (drop i (alist l)) j) (strs h)"
    "k = length (alist l) - i"
  shows "\<exists>h'. release_from is_str (Some l) k i h = Some h' \<and> counted (\<lambda>n. n) sext (strs h')"
  using assms(2,3)
proof (induction k arbitrary: i h)
  case 0
  then have "obj_count is_str (drop i (alist l)) = (\<lambda>j. 0)"
    by (auto simp: obj_count_def)
  with 0 show ?case
    by simp
next
  case (Suc k)
  then have i: "i < length (alist l)"
    by simp
  then have g: "list_get_raw (Some l) (int i) = alist l ! i"
    using list_get_alist [OF assms(1), of "int i"] alist_length [OF assms(1)] by simp
  have "(\<lambda>j. sext j + obj_count is_str (drop i (alist l)) j) =
      (\<lambda>j. sext j + obj_count is_str (drop (i + 1) (alist l)) j + obj_count is_str [alist l ! i] j)"
    using obj_count_Cons [of is_str "alist l ! i" "drop (i + 1) (alist l)"] Cons_nth_drop_Suc [OF i] by auto
  with Suc.prems(1) have "counted (\<lambda>n. n)
      (\<lambda>j. sext j + obj_count is_str (drop (i + 1) (alist l)) j + obj_count is_str [alist l ! i] j) (strs h)"
    by simp
  from release_counted [OF this] obtain h1 where
      "string_release (str_of is_str (alist l ! i)) h = Some h1"
      "counted (\<lambda>n. n) (\<lambda>j. sext j + obj_count is_str (drop (i + 1) (alist l)) j) (strs h1)"
    by auto
  moreover have "k = length (alist l) - (i + 1)"
    using Suc.prems(2) by simp
  ultimately show ?case
    using Suc.IH [of "i + 1" h1] g by (simp only: release_from.simps) simp
qed

lemma string_list_add_ok:
  assumes "sl_inv is_str sext xs lst h" "usable is_str s h"
  shows "\<exists>r lst' h'. string_list_add alloc is_str lst s h = Some (r, lst', h') \<and>
    (r = 1 \<and> sl_inv is_str sext (xs @ [s]) lst' h' \<or> r = 0 \<and> sl_inv is_str sext xs lst' h' \<and> ((\<exists>n. \<not> alloc n) \<or> 2 ^ 30 \<le> length xs))"
  using assms(1)
proof (cases rule: sl_cases)
  case (1 l)
  obtain h1 where h1: "string_retain (str_of is_str s) h = Some h1"
      "counted (\<lambda>n. n) (\<lambda>i. sext i + obj_count is_str xs i + obj_count is_str [s] i) (strs h1)"
    using retain_counted [OF 1(8) assms(2)] by auto
  obtain r l' where r: "list_add_raw alloc (Some l) s = (r, l')"
    by (cases "list_add_raw alloc (Some l) s")
  consider (added) m where "r = 1" "l' = Some m" "al_ok m" "alist m = alist l @ [s]"
    | (refused) "r = 0" "l' = Some l" "2 ^ 30 \<le> length (alist l) \<or> \<not> alloc (nat (if al_capacity l = 0 then 8 else al_capacity l * 2) * 8)"
    using list_add_raw_correct [OF 1(2) r] by blast
  then show ?thesis
  proof cases
    case m: added
    have "sl_inv is_str sext (xs @ [s]) (Some \<lparr>sl_items = Some m\<rparr>) h1"
      using m 1(3) h1(2) by (simp add: sl_inv_def obj_count_append add.assoc)
    with m r h1(1) 1 show ?thesis
      by (auto simp: string_list_add_def)
  next
    case m: refused
    obtain h2 where "string_release (str_of is_str s) h1 = Some h2"
        "counted (\<lambda>n. n) (\<lambda>i. sext i + obj_count is_str xs i) (strs h2)"
      using release_counted [OF h1(2)] by auto
    with m r h1(1) 1 show ?thesis
      by (auto simp: string_list_add_def sl_inv_def)
  qed
qed

lemma string_list_set_ok:
  assumes "sl_inv is_str sext xs lst h" "usable is_str s h"
  shows "\<exists>lst' h'. string_list_set is_str lst index s h = Some (lst', h') \<and>
    sl_inv is_str sext (if 0 \<le> index \<and> index < int (length xs) then xs[nat index := s] else xs) lst' h'"
  using assms(1)
proof (cases rule: sl_cases)
  case (1 l)
  show ?thesis
  proof (cases "0 \<le> index \<and> index < int (length xs)")
    case True
    let ?k = "nat index"
    have k: "?k < length xs" and get: "list_get_raw (Some l) index = xs ! ?k"
      using True list_get_alist [OF 1(2), of index] 1(3,7) by auto
    obtain m where m: "list_set (Some l) index s = Some m" "al_ok m" "alist m = xs[?k := s]"
      using list_set_alist [OF 1(2), of index s] True 1(3,7) by auto
    obtain h1 where h1: "string_retain (str_of is_str s) h = Some h1"
        "counted (\<lambda>n. n) (\<lambda>i. sext i + obj_count is_str xs i + obj_count is_str [s] i) (strs h1)"
      using retain_counted [OF 1(8) assms(2)] by auto
    have "(\<lambda>i. sext i + obj_count is_str xs i + obj_count is_str [s] i) =
        (\<lambda>i. sext i + obj_count is_str (xs[?k := s]) i + obj_count is_str [xs ! ?k] i)"
      using obj_count_nth [OF k] obj_count_nth [of ?k "xs[?k := s]"] k by (auto simp: fun_eq_iff)
    with release_counted [of "\<lambda>i. sext i + obj_count is_str (xs[?k := s]) i" is_str "xs ! ?k" h1] h1(2)
    obtain h2 where h2: "string_release (str_of is_str (xs ! ?k)) h1 = Some h2"
        "counted (\<lambda>n. n) (\<lambda>i. sext i + obj_count is_str (xs[?k := s]) i) (strs h2)"
      by auto
    have "string_list_set is_str lst index s h = Some (Some \<lparr>sl_items = Some m\<rparr>, h2)"
      using True 1 by (simp add: string_list_set_def get h1(1) h2(1) m(1))
    with m h2(2) True show ?thesis
      by (auto simp: sl_inv_def)
  next
    case False
    then show ?thesis
      using assms(1) 1 by (auto simp: string_list_set_def)
  qed
qed

lemma string_list_remove_ok:
  assumes "sl_inv is_str sext xs lst h"
  shows "\<exists>lst' h'. string_list_remove is_str lst index h = Some (lst', h') \<and>
    sl_inv is_str sext (if 0 \<le> index \<and> index < int (length xs) then take (nat index) xs @ drop (nat index + 1) xs else xs) lst' h'"
  using assms(1)
proof (cases rule: sl_cases)
  case (1 l)
  show ?thesis
  proof (cases "0 \<le> index \<and> index < int (length xs)")
    case True
    let ?k = "nat index"
    let ?ys = "take ?k xs @ drop (?k + 1) xs"
    have k: "?k < length xs" and get: "list_get_raw (Some l) index = xs ! ?k"
      using True list_get_alist [OF 1(2), of index] 1(3,7) by auto
    obtain m where m: "list_remove (Some l) index = Some m" "al_ok m" "alist m = ?ys"
      using list_remove_correct [OF 1(2), of index] True 1(3) by auto
    have "(\<lambda>i. sext i + obj_count is_str xs i) = (\<lambda>i. sext i + obj_count is_str ?ys i + obj_count is_str [xs ! ?k] i)"
      using obj_count_nth [OF k] by (auto simp: fun_eq_iff obj_count_append)
    with release_counted [of "\<lambda>i. sext i + obj_count is_str ?ys i" is_str "xs ! ?k" h] 1(8)
    obtain h2 where h2: "string_release (str_of is_str (xs ! ?k)) h = Some h2"
        "counted (\<lambda>n. n) (\<lambda>i. sext i + obj_count is_str ?ys i) (strs h2)"
      by auto
    have "string_list_remove is_str lst index h = Some (Some \<lparr>sl_items = Some m\<rparr>, h2)"
      using True 1 by (simp add: string_list_remove_def get h2(1) m(1))
    with m h2(2) True show ?thesis
      by (auto simp: sl_inv_def)
  next
    case False
    then show ?thesis
      using assms(1) 1 by (auto simp: string_list_remove_def)
  qed
qed

subsection \<open>Properties\<close>

text \<open>C40. A string list owns one reference to each of its strings, no more and no fewer: every operation acts on the list as
  named, never touches a freed string, also when an element is replaced by itself or an append is refused (by the
  allocator, or because the doubled capacity no longer is an \<^verbatim>\<open>int\<close>), and after the list is freed exactly the references held outside are left.
\<close>

theorem string_list_owns_items:
  assumes "sl_inv is_str sext xs lst h" "usable is_str s h"
  shows "(\<exists>r lst' h'. string_list_add alloc is_str lst s h = Some (r, lst', h') \<and>
      (r = 1 \<and> sl_inv is_str sext (xs @ [s]) lst' h' \<or> r = 0 \<and> sl_inv is_str sext xs lst' h' \<and> ((\<exists>n. \<not> alloc n) \<or> 2 ^ 30 \<le> length xs))) \<and>
    (\<exists>lst' h'. string_list_set is_str lst index s h = Some (lst', h') \<and>
      sl_inv is_str sext (if 0 \<le> index \<and> index < int (length xs) then xs[nat index := s] else xs) lst' h') \<and>
    (\<exists>lst' h'. string_list_remove is_str lst index h = Some (lst', h') \<and>
      sl_inv is_str sext (if 0 \<le> index \<and> index < int (length xs) then take (nat index) xs @ drop (nat index + 1) xs else xs) lst' h') \<and>
    (\<exists>lst' h'. string_list_clear is_str lst h = Some (lst', h') \<and> sl_inv is_str sext [] lst' h') \<and>
    (\<exists>h'. string_list_free is_str lst h = Some h' \<and> counted (\<lambda>n. n) sext (strs h'))"
proof -
  obtain l where l: "lst = Some \<lparr>sl_items = Some l\<rparr>" "al_ok l" "alist l = xs" "\<not> sl_null lst" "items_of lst = Some l"
      "list_size (items_of lst) = int (length xs)" "counted (\<lambda>n. n) (\<lambda>i. sext i + obj_count is_str xs i) (strs h)"
    using assms(1) by (rule sl_cases)
  obtain h' where h': "release_from is_str (Some l) (length xs) 0 h = Some h'" "counted (\<lambda>n. n) sext (strs h')"
    using release_from_ok [OF l(2), of sext is_str 0 h "length xs"] l(3,7) by auto
  obtain m where "list_clear (Some l) = Some m" "al_ok m" "alist m = []"
    using list_clear_alist [OF l(2)] by auto
  with l h' have "string_list_clear is_str lst h = Some (Some \<lparr>sl_items = Some m\<rparr>, h')"
      "sl_inv is_str sext [] (Some \<lparr>sl_items = Some m\<rparr>) h'"
    by (auto simp: string_list_clear_def sl_inv_def)
  moreover have "string_list_free is_str lst h = Some h'"
    using l h' by (simp add: string_list_free_def)
  ultimately show ?thesis
    using h'(2) string_list_add_ok [OF assms] string_list_set_ok [OF assms] string_list_remove_ok [OF assms(1)] by blast
qed

theorem string_list_owns_items_witness:
  "\<exists>lst' h'. string_list_set (\<lambda>p. True) (Some \<lparr>sl_items = Some \<lparr>items = [5], al_size = 1, al_capacity = 1\<rparr>\<rparr>) 0 5
      \<lparr>cells = Map.empty, strs = [5 \<mapsto> 1]\<rparr> = Some (lst', h') \<and> sl_inv (\<lambda>p. True) (\<lambda>i. 0) [5] lst' h'"
proof -
  have "sl_inv (\<lambda>p. True) (\<lambda>i. 0) [5] (Some \<lparr>sl_items = Some \<lparr>items = [5], al_size = 1, al_capacity = 1\<rparr>\<rparr>)
      \<lparr>cells = Map.empty, strs = [5 \<mapsto> 1]\<rparr>"
    by (auto simp: sl_inv_def al_ok_def alist_def counted_def obj_count_def)
  from string_list_owns_items [OF this, of 5 "\<lambda>n. True" 0] show ?thesis
    by (simp add: usable_def str_of_def)
qed

end
