(* ===== verification/JSGCMark.thy ===== *)
theory JSGCMark
  imports Prelude
begin

section \<open>Marking of the garbage collector\<close>

text \<open>
  Models the mark pass of the collector of \<^verbatim>\<open>mquickjs.c\<close>: \<^verbatim>\<open>gc_mark\<close>,
  \<^verbatim>\<open>gc_mark_flush\<close> and the root and overflow loops of \<^verbatim>\<open>gc_mark_all\<close>.  A value is a plain
  value, a pointer to read-only memory, or a pointer to a block of the heap; a block is given with the values it
  holds; those without references (numbers, strings, byte arrays) are not told apart, and \<^verbatim>\<open>JS_CLASS_USER\<close>
  stands for the classes of the embedding program, numbered from it.  The mark stack lies in the free memory between the heap and the value stack and has \<open>cap\<close> words: an
  entry for a value array takes two words (the array and the next position), any other one word.  When it is full
  the block is left marked but unscanned and a flag is set, and the heap is then scanned again until no overflow
  happens.  The two pushes of that scan are not checked in the code; a push beyond the stack is \<open>None\<close>.
\<close>

subsection \<open>Blocks\<close>

datatype gcval = NonPtr | Rom | Ptr nat

datatype object_data =
    JS_CLASS_CLOSURE gcval "gcval list"
  | JS_CLASS_C_FUNCTION "gcval option"
  | JS_CLASS_ARRAY gcval
  | JS_CLASS_ERROR gcval gcval
  | JS_CLASS_ARRAY_BUFFER gcval
  | JS_CLASS_TYPED_ARRAY gcval
  | JS_CLASS_REGEXP gcval gcval
  | JS_CLASS_USER nat nat
  | JS_CLASS_OTHER

datatype gcblock =
    JS_MTAG_OBJECT gcval gcval object_data
  | JS_MTAG_VALUE_ARRAY "gcval list"
  | JS_MTAG_VARREF gcval
  | JS_MTAG_FUNCTION_BYTECODE gcval gcval gcval gcval gcval gcval gcval
  | JS_MTAG_NO_REFERENCE
  | JS_MTAG_FREE

fun mtag_has_references :: "gcblock \<Rightarrow> bool" where
  "mtag_has_references JS_MTAG_NO_REFERENCE = False"
| "mtag_has_references JS_MTAG_FREE = False"
| "mtag_has_references b = True"

fun object_refs :: "object_data \<Rightarrow> gcval list" where
  "object_refs (JS_CLASS_CLOSURE func_bytecode var_refs) = func_bytecode # var_refs"
| "object_refs (JS_CLASS_C_FUNCTION params) = (case params of None \<Rightarrow> [] | Some v \<Rightarrow> [v])"
| "object_refs (JS_CLASS_ARRAY array_tab) = [array_tab]"
| "object_refs (JS_CLASS_ERROR message stack) = [message, stack]"
| "object_refs (JS_CLASS_ARRAY_BUFFER byte_buffer) = [byte_buffer]"
| "object_refs (JS_CLASS_TYPED_ARRAY buffer) = [buffer]"
| "object_refs (JS_CLASS_REGEXP source byte_code) = [source, byte_code]"
| "object_refs (JS_CLASS_USER class_id opaque) = []"
| "object_refs JS_CLASS_OTHER = []"

fun block_refs :: "gcblock \<Rightarrow> gcval list" where
  "block_refs (JS_MTAG_OBJECT proto props u) = proto # props # object_refs u"
| "block_refs (JS_MTAG_VALUE_ARRAY arr) = arr"
| "block_refs (JS_MTAG_VARREF v) = [v]"
| "block_refs (JS_MTAG_FUNCTION_BYTECODE func_name byte_code cpool vars ext_vars filename pc2line) =
     [func_name, byte_code, cpool, vars, ext_vars, filename, pc2line]"
| "block_refs JS_MTAG_NO_REFERENCE = []"
| "block_refs JS_MTAG_FREE = []"

fun is_value_array :: "gcblock \<Rightarrow> bool" where
  "is_value_array (JS_MTAG_VALUE_ARRAY arr) = True"
| "is_value_array b = False"

type_synonym gcheap = "nat \<rightharpoonup> gcblock"

subsection \<open>Marking\<close>

datatype gcentry = Block nat | Array nat nat

fun entry_words :: "gcentry \<Rightarrow> nat" where
  "entry_words (Block a) = 1"
| "entry_words (Array a pos) = 2"

definition used_words :: "gcentry list \<Rightarrow> nat" where
  "used_words st = sum_list (map entry_words st)"

record GCMarkState =
  marked :: "nat set"
  gstack :: "gcentry list"
  overflow :: bool

definition scan_entry :: "nat \<Rightarrow> gcblock \<Rightarrow> gcentry" where
  "scan_entry a b = (if is_value_array b then Array a 0 else Block a)"

definition gc_mark :: "nat \<Rightarrow> gcheap \<Rightarrow> gcval \<Rightarrow> GCMarkState \<Rightarrow> GCMarkState option" where
  "gc_mark cap heap val s =
     (case val of
        Ptr a \<Rightarrow>
          (case heap a of
             None \<Rightarrow> None
           | Some b \<Rightarrow>
               if a \<in> marked s then Some s
               else let s' = s\<lparr>marked := insert a (marked s)\<rparr>; e = scan_entry a b
                    in if \<not> mtag_has_references b then Some s'
                       else if cap - used_words (gstack s') < entry_words e then Some (s'\<lparr>overflow := True\<rparr>)
                       else Some (s'\<lparr>gstack := e # gstack s'\<rparr>))
      | _ \<Rightarrow> Some s)"

fun gc_mark_list :: "nat \<Rightarrow> gcheap \<Rightarrow> gcval list \<Rightarrow> GCMarkState \<Rightarrow> GCMarkState option" where
  "gc_mark_list cap heap [] s = Some s"
| "gc_mark_list cap heap (v # vs) s = Option.bind (gc_mark cap heap v s) (gc_mark_list cap heap vs)"

function skip_plain :: "gcval list \<Rightarrow> nat \<Rightarrow> nat" where
  "skip_plain arr pos = (if pos < length arr \<and> arr ! pos = NonPtr then skip_plain arr (pos + 1) else pos)"
  by auto
termination by (relation "measure (\<lambda>(arr, pos). length arr - pos)") auto

declare skip_plain.simps [simp del]

definition scan_top :: "nat \<Rightarrow> gcheap \<Rightarrow> gcentry \<Rightarrow> GCMarkState \<Rightarrow> GCMarkState option" where
  "scan_top cap heap e s =
     (case e of
        Block a \<Rightarrow> (case heap a of None \<Rightarrow> None | Some b \<Rightarrow> gc_mark_list cap heap (block_refs b) s)
      | Array a pos0 \<Rightarrow>
          (case heap a of
             None \<Rightarrow> None
           | Some b \<Rightarrow>
               let arr = block_refs b; pos = skip_plain arr pos0
               in if pos < length arr
                  then gc_mark cap heap (arr ! pos)
                         (if pos + 1 < length arr then s\<lparr>gstack := Array a (pos + 1) # gstack s\<rparr> else s)
                  else Some s))"

partial_function (option) gc_mark_flush :: "nat \<Rightarrow> gcheap \<Rightarrow> GCMarkState \<Rightarrow> GCMarkState option" where
  "gc_mark_flush cap heap s =
     (case gstack s of
        [] \<Rightarrow> Some s
      | e # st \<Rightarrow> Option.bind (scan_top cap heap e (s\<lparr>gstack := st\<rparr>)) (gc_mark_flush cap heap))"

definition gc_mark_root :: "nat \<Rightarrow> gcheap \<Rightarrow> gcval \<Rightarrow> GCMarkState \<Rightarrow> GCMarkState option" where
  "gc_mark_root cap heap val s = Option.bind (gc_mark cap heap val s) (gc_mark_flush cap heap)"

fun mark_roots :: "nat \<Rightarrow> gcheap \<Rightarrow> gcval list \<Rightarrow> GCMarkState \<Rightarrow> GCMarkState option" where
  "mark_roots cap heap [] s = Some s"
| "mark_roots cap heap (v # vs) s = Option.bind (gc_mark_root cap heap v s) (mark_roots cap heap vs)"

text \<open>
  \<open>rescan\<close> goes over the blocks of the heap in address order.
\<close>

fun rescan :: "nat \<Rightarrow> gcheap \<Rightarrow> nat list \<Rightarrow> GCMarkState \<Rightarrow> GCMarkState option" where
  "rescan cap heap [] s = Some s"
| "rescan cap heap (a # as) s =
     (case heap a of
        None \<Rightarrow> None
      | Some b \<Rightarrow>
          if a \<in> marked s \<and> mtag_has_references b
          then let e = scan_entry a b
               in if cap < used_words (e # gstack s) then None
                  else Option.bind (gc_mark_flush cap heap (s\<lparr>gstack := e # gstack s\<rparr>)) (rescan cap heap as)
          else rescan cap heap as s)"

partial_function (option) overflow_loop :: "nat \<Rightarrow> gcheap \<Rightarrow> nat list \<Rightarrow> GCMarkState \<Rightarrow> GCMarkState option" where
  "overflow_loop cap heap addrs s =
     (if overflow s
      then Option.bind (rescan cap heap addrs (s\<lparr>overflow := False\<rparr>)) (overflow_loop cap heap addrs)
      else Some s)"

definition gc_mark_blocks :: "nat \<Rightarrow> gcheap \<Rightarrow> nat list \<Rightarrow> gcval list \<Rightarrow> GCMarkState option" where
  "gc_mark_blocks cap heap addrs roots =
     Option.bind (mark_roots cap heap roots \<lparr>marked = {}, gstack = [], overflow = False\<rparr>)
       (overflow_loop cap heap addrs)"

subsection \<open>Reachability\<close>

inductive_set reachable :: "gcheap \<Rightarrow> gcval list \<Rightarrow> nat set" for heap roots where
  root: "Ptr a \<in> set roots \<Longrightarrow> a \<in> reachable heap roots"
| step: "a \<in> reachable heap roots \<Longrightarrow> heap a = Some b \<Longrightarrow> Ptr c \<in> set (block_refs b) \<Longrightarrow> c \<in> reachable heap roots"

definition closed_heap :: "gcheap \<Rightarrow> bool" where
  "closed_heap heap \<longleftrightarrow>
     finite (dom heap) \<and> (\<forall>a b c. heap a = Some b \<and> Ptr c \<in> set (block_refs b) \<longrightarrow> c \<in> dom heap)"

definition closed_under :: "gcheap \<Rightarrow> nat set \<Rightarrow> bool" where
  "closed_under heap live \<longleftrightarrow>
     (\<forall>a b c. a \<in> live \<and> heap a = Some b \<and> Ptr c \<in> set (block_refs b) \<longrightarrow> c \<in> live)"

text \<open>
  \<open>pending st a i\<close>: the reference number \<open>i\<close> of block \<open>a\<close> is still to be visited from the stack.
\<close>

definition pending :: "gcentry list \<Rightarrow> nat \<Rightarrow> nat \<Rightarrow> bool" where
  "pending st a i \<longleftrightarrow> Block a \<in> set st \<or> (\<exists>pos\<le>i. Array a pos \<in> set st)"

definition entry_ok :: "gcheap \<Rightarrow> nat set \<Rightarrow> gcentry \<Rightarrow> bool" where
  "entry_ok heap mk e \<longleftrightarrow>
     (case e of
        Block a \<Rightarrow> a \<in> mk \<and> (\<exists>b. heap a = Some b)
      | Array a pos \<Rightarrow> a \<in> mk \<and> (\<exists>b. heap a = Some b))"

definition mark_inv :: "nat \<Rightarrow> gcheap \<Rightarrow> nat set \<Rightarrow> nat set \<Rightarrow> GCMarkState \<Rightarrow> bool" where
  "mark_inv cap heap live todo s \<longleftrightarrow>
     marked s \<subseteq> live \<inter> dom heap \<and> used_words (gstack s) \<le> cap \<and> (\<forall>e\<in>set (gstack s). entry_ok heap (marked s) e) \<and>
     (\<not> overflow s \<longrightarrow> (\<forall>a\<in>marked s - todo. \<forall>b i. heap a = Some b \<and> i < length (block_refs b) \<longrightarrow>
        pending (gstack s) a i \<or> (\<forall>c. block_refs b ! i = Ptr c \<longrightarrow> c \<in> marked s)))"

definition grown :: "GCMarkState \<Rightarrow> GCMarkState \<Rightarrow> bool" where
  "grown s s' \<longleftrightarrow> s' = s \<or> marked s \<subset> marked s' \<and> set (gstack s) \<subseteq> set (gstack s') \<and> (overflow s \<longrightarrow> overflow s')"

lemma grownD:
  assumes "grown s s'"
  shows "marked s \<subseteq> marked s'" "set (gstack s) \<subseteq> set (gstack s')" "overflow s \<longrightarrow> overflow s'"
  using assms by (auto simp: grown_def)

lemma grown_trans: "grown s t \<Longrightarrow> grown t u \<Longrightarrow> grown s u"
  by (auto simp: grown_def)

lemma pending_mono: "pending st a i \<Longrightarrow> set st \<subseteq> set st' \<Longrightarrow> pending st' a i"
  by (auto simp: pending_def)

lemma used_words_Cons [simp]: "used_words (e # st) = entry_words e + used_words st" "used_words [] = 0"
  by (simp_all add: used_words_def)

lemma entry_ok_mono: "entry_ok heap mk e \<Longrightarrow> mk \<subseteq> mk' \<Longrightarrow> entry_ok heap mk' e"
  by (auto simp: entry_ok_def split: gcentry.splits)

lemma scan_entry_pending: "pending (scan_entry a b # st) a i"
  by (auto simp: pending_def scan_entry_def)

lemma no_refs: "\<not> mtag_has_references b \<Longrightarrow> block_refs b = []"
  by (cases b) auto

definition scanned :: "gcheap \<Rightarrow> GCMarkState \<Rightarrow> nat \<Rightarrow> bool" where
  "scanned heap s a \<longleftrightarrow>
     (\<forall>b i. heap a = Some b \<and> i < length (block_refs b) \<longrightarrow>
        pending (gstack s) a i \<or> (\<forall>c. block_refs b ! i = Ptr c \<longrightarrow> c \<in> marked s))"

lemma mark_inv_alt:
  "mark_inv cap heap live todo s \<longleftrightarrow>
     marked s \<subseteq> live \<inter> dom heap \<and> used_words (gstack s) \<le> cap \<and> (\<forall>e\<in>set (gstack s). entry_ok heap (marked s) e) \<and>
     (\<not> overflow s \<longrightarrow> (\<forall>a\<in>marked s - todo. scanned heap s a))"
  by (simp add: mark_inv_def scanned_def)

lemma scanned_grown: "scanned heap s a \<Longrightarrow> grown s s' \<Longrightarrow> scanned heap s' a"
  unfolding scanned_def using grownD [of s s'] pending_mono by (meson subsetD)

lemma gc_mark_ok:
  assumes inv: "mark_inv cap heap live todo s" and v: "\<And>a. v = Ptr a \<Longrightarrow> a \<in> live \<inter> dom heap"
  shows "\<exists>s'. gc_mark cap heap v s = Some s' \<and> mark_inv cap heap live todo s' \<and> grown s s' \<and>
    (\<forall>a. v = Ptr a \<longrightarrow> a \<in> marked s')"
proof (cases "\<exists>a. v = Ptr a \<and> a \<notin> marked s")
  case False
  moreover have "\<exists>b. heap a = Some b" if "v = Ptr a" for a
    using v [OF that] by auto
  ultimately show ?thesis
    using inv by (cases v) (auto simp: gc_mark_def grown_def)
next
  case True
  then obtain a b where a: "v = Ptr a" "a \<notin> marked s" "heap a = Some b"
    using v by blast
  define s' where "s' =
    (let s1 = s\<lparr>marked := insert a (marked s)\<rparr>
     in if \<not> mtag_has_references b then s1
        else if cap - used_words (gstack s) < entry_words (scan_entry a b) then s1\<lparr>overflow := True\<rparr>
        else s1\<lparr>gstack := scan_entry a b # gstack s\<rparr>)"
  have step: "gc_mark cap heap v s = Some s'"
    using a by (auto simp: gc_mark_def s'_def Let_def)
  have m: "marked s' = insert a (marked s)"
    by (simp add: s'_def Let_def)
  have g: "grown s s'"
    using a(2) by (auto simp: grown_def s'_def Let_def)
  have "entry_ok heap (marked s') (scan_entry a b)"
    using a(3) m by (auto simp: entry_ok_def scan_entry_def)
  moreover have "\<forall>e\<in>set (gstack s). entry_ok heap (marked s') e"
    using inv grownD(1) [OF g] entry_ok_mono by (fastforce simp: mark_inv_def)
  ultimately have ok: "\<forall>e\<in>set (gstack s'). entry_ok heap (marked s') e"
    by (auto simp: s'_def Let_def split: if_splits)
  have used: "used_words (gstack s') \<le> cap"
    using inv by (auto simp: s'_def Let_def mark_inv_def)
  have new: "scanned heap s' a" if "\<not> overflow s'"
    using that a(3) scan_entry_pending [of a b] no_refs [of b] by (auto simp: scanned_def s'_def Let_def split: if_splits)
  have "scanned heap s' x" if "x \<in> marked s - todo" "\<not> overflow s'" for x
  proof -
    have "scanned heap s x"
      using inv that grownD(3) [OF g] unfolding mark_inv_alt by blast
    then show ?thesis
      using g by (rule scanned_grown)
  qed
  then have "mark_inv cap heap live todo s'"
    using inv v [OF a(1)] ok used new unfolding mark_inv_alt m by auto
  with step g m a(1) show ?thesis
    by auto
qed

lemma gc_mark_list_ok:
  assumes "mark_inv cap heap live todo s" "\<And>a. Ptr a \<in> set vs \<Longrightarrow> a \<in> live \<inter> dom heap"
  shows "\<exists>s'. gc_mark_list cap heap vs s = Some s' \<and> mark_inv cap heap live todo s' \<and> grown s s' \<and>
    (\<forall>a. Ptr a \<in> set vs \<longrightarrow> a \<in> marked s')"
  using assms
proof (induction vs arbitrary: s)
  case Nil
  then show ?case
    by (auto simp: grown_def)
next
  case (Cons v vs)
  obtain s1 where s1: "gc_mark cap heap v s = Some s1" "mark_inv cap heap live todo s1" "grown s s1"
      "\<forall>a. v = Ptr a \<longrightarrow> a \<in> marked s1"
    using gc_mark_ok [OF Cons.prems(1), of v] Cons.prems(2) by auto
  obtain s2 where "gc_mark_list cap heap vs s1 = Some s2" "mark_inv cap heap live todo s2" "grown s1 s2"
      "\<forall>a. Ptr a \<in> set vs \<longrightarrow> a \<in> marked s2"
    using Cons.IH [OF s1(2)] Cons.prems(2) by auto
  with s1 grown_trans [OF s1(3)] show ?case
    using grownD(1) by auto blast
qed

lemma skip_plain_spec:
  "pos \<le> skip_plain arr pos \<and> (\<forall>i. pos \<le> i \<and> i < skip_plain arr pos \<longrightarrow> arr ! i = NonPtr)"
proof (induction arr pos rule: skip_plain.induct)
  case (1 arr pos)
  show ?case
  proof (cases "pos < length arr \<and> arr ! pos = NonPtr")
    case True
    then have eq: "skip_plain arr pos = skip_plain arr (pos + 1)"
      by (subst skip_plain.simps) simp
    show ?thesis
      unfolding eq
    proof (intro conjI allI impI)
      show "pos \<le> skip_plain arr (pos + 1)"
        using 1 [OF True] by linarith
      show "arr ! i = NonPtr" if "pos \<le> i \<and> i < skip_plain arr (pos + 1)" for i
        using 1 [OF True] True that by (cases "i = pos") auto
    qed
  next
    case False
    then have "skip_plain arr pos = pos"
      by (subst skip_plain.simps) auto
    then show ?thesis
      by auto
  qed
qed

definition entry_weight :: "gcheap \<Rightarrow> gcentry \<Rightarrow> nat" where
  "entry_weight heap e =
     (case e of Block a \<Rightarrow> 1
      | Array a pos \<Rightarrow> 1 + (case heap a of None \<Rightarrow> 0 | Some b \<Rightarrow> length (block_refs b) - pos))"

definition stack_weight :: "gcheap \<Rightarrow> GCMarkState \<Rightarrow> nat" where
  "stack_weight heap s = sum_list (map (entry_weight heap) (gstack s))"

text \<open>
  Popping an entry exposes its block; scanning it covers the block again.
\<close>

lemma mark_inv_pop:
  assumes "mark_inv cap heap live todo s" "gstack s = e # st" "a = (case e of Block a \<Rightarrow> a | Array a pos \<Rightarrow> a)"
  shows "mark_inv cap heap live (insert a todo) (s\<lparr>gstack := st\<rparr>)"
proof -
  have "pending st x i" if "pending (gstack s) x i" "x \<noteq> a" for x i
    using that assms(2,3) by (auto simp: pending_def split: gcentry.splits)
  then have "scanned heap (s\<lparr>gstack := st\<rparr>) x" if "scanned heap s x" "x \<noteq> a" for x
    using that unfolding scanned_def by simp blast
  with assms(1,2) show ?thesis
    unfolding mark_inv_alt by auto
qed

lemma mark_inv_close:
  "mark_inv cap heap live (insert a todo) s \<Longrightarrow> (\<not> overflow s \<Longrightarrow> a \<in> marked s \<Longrightarrow> a \<notin> todo \<Longrightarrow> scanned heap s a) \<Longrightarrow>
    mark_inv cap heap live todo s"
  unfolding mark_inv_alt by auto

lemma grown_progress:
  assumes "grown t s'" "marked t = marked s" "overflow t = overflow s" "stack_weight heap t < stack_weight heap s"
  shows "marked s' = marked s \<and> stack_weight heap s' < stack_weight heap s \<and> overflow s' = overflow s \<or>
    marked s \<subset> marked s' \<and> (overflow s \<longrightarrow> overflow s')"
  using assms unfolding grown_def by (elim disjE) simp_all

lemma scan_top_ok:
  assumes heap: "closed_heap heap" and inv: "mark_inv cap heap live todo s" and st: "gstack s = e # st"
    and live: "closed_under heap live"
  shows "\<exists>s'. scan_top cap heap e (s\<lparr>gstack := st\<rparr>) = Some s' \<and> mark_inv cap heap live todo s' \<and>
    (marked s' = marked s \<and> stack_weight heap s' < stack_weight heap s \<and> overflow s' = overflow s \<or>
     marked s \<subset> marked s' \<and> (overflow s \<longrightarrow> overflow s'))"
proof -
  define a where "a = (case e of Block a \<Rightarrow> a | Array a pos \<Rightarrow> a)"
  have "entry_ok heap (marked s) e"
    using inv st by (auto simp: mark_inv_def)
  then obtain b where b: "heap a = Some b" "a \<in> marked s"
    by (auto simp: entry_ok_def a_def split: gcentry.splits)
  have child: "c \<in> live \<inter> dom heap" if "Ptr c \<in> set (block_refs b)" for c
    using live heap that b inv unfolding closed_under_def closed_heap_def mark_inv_def by blast
  let ?s = "s\<lparr>gstack := st\<rparr>"
  have pop: "mark_inv cap heap live (insert a todo) ?s"
    by (rule mark_inv_pop [OF inv st a_def])
  show ?thesis
  proof (cases e)
    case (Block a')
    then have a': "a' = a"
      by (simp add: a_def)
    obtain s' where s': "gc_mark_list cap heap (block_refs b) ?s = Some s'" "mark_inv cap heap live (insert a todo) s'"
        "grown ?s s'" "\<forall>c. Ptr c \<in> set (block_refs b) \<longrightarrow> c \<in> marked s'"
      using gc_mark_list_ok [OF pop] child by blast
    have "scanned heap s' a"
      unfolding scanned_def
    proof (intro allI impI disjI2)
      fix b' i c
      assume "heap a = Some b' \<and> i < length (block_refs b')" "block_refs b' ! i = Ptr c"
      then have "Ptr c \<in> set (block_refs b)"
        using b(1) nth_mem [of i "block_refs b"] by simp
      with s'(4) show "c \<in> marked s'"
        by simp
    qed
    then have "mark_inv cap heap live todo s'"
      using mark_inv_close [OF s'(2)] by blast
    moreover have "scan_top cap heap e ?s = Some s'"
      using Block a' b(1) s'(1) by (simp add: scan_top_def)
    moreover have "stack_weight heap ?s < stack_weight heap s"
      using st Block by (simp add: stack_weight_def entry_weight_def)
    then have "marked s' = marked s \<and> stack_weight heap s' < stack_weight heap s \<and> overflow s' = overflow s \<or>
        marked s \<subset> marked s' \<and> (overflow s \<longrightarrow> overflow s')"
      using grown_progress [OF s'(3), of s heap] by simp
    ultimately show ?thesis
      by blast
  next
    case (Array a' pos0)
    then have a': "a' = a"
      by (simp add: a_def)
    define arr where "arr = block_refs b"
    define pos where "pos = skip_plain arr pos0"
    have skip: "pos0 \<le> pos" "\<And>i. pos0 \<le> i \<Longrightarrow> i < pos \<Longrightarrow> arr ! i = NonPtr"
      using skip_plain_spec [of pos0 arr] by (auto simp: pos_def)
    have before: "pending st a i \<or> (\<forall>c. arr ! i = Ptr c \<longrightarrow> c \<in> marked s)"
      if "i < pos" "i < length arr" "\<not> overflow s" "a \<notin> todo" for i
    proof (cases "pos0 \<le> i")
      case True
      with skip(2) that(1) show ?thesis
        by simp
    next
      case False
      have "scanned heap s a"
        using inv that(3,4) b(2) unfolding mark_inv_alt by blast
      then have "pending (gstack s) a i \<or> (\<forall>c. arr ! i = Ptr c \<longrightarrow> c \<in> marked s)"
        using b(1) that(2) by (auto simp: scanned_def arr_def)
      with False st Array show ?thesis
        by (auto simp: pending_def)
    qed
    have w: "entry_weight heap e = 1 + (length arr - pos0)"
      using Array a' b(1) by (simp add: entry_weight_def arr_def)
    show ?thesis
    proof (cases "pos < length arr")
      case False
      then have "scan_top cap heap e ?s = Some ?s"
        using Array a' b(1) by (simp add: scan_top_def arr_def [symmetric] pos_def [symmetric] Let_def)
      moreover have "scanned heap ?s a" if "\<not> overflow s" "a \<notin> todo"
        using before that False b(1) by (auto simp: scanned_def arr_def)
      then have "mark_inv cap heap live todo ?s"
        using mark_inv_close [OF pop] by auto
      moreover have "stack_weight heap ?s < stack_weight heap s"
        using st w by (simp add: stack_weight_def)
      ultimately show ?thesis
        by auto
    next
      case True
      define s1 where "s1 = (if pos + 1 < length arr then ?s\<lparr>gstack := Array a (pos + 1) # st\<rparr> else ?s)"
      have st1: "set st \<subseteq> set (gstack s1)" "marked s1 = marked s" "overflow s1 = overflow s"
        by (auto simp: s1_def)
      have "entry_ok heap (marked s) (Array a (pos + 1))"
        using b by (simp add: entry_ok_def)
      then have "used_words (gstack s1) \<le> cap" "\<forall>e\<in>set (gstack s1). entry_ok heap (marked s1) e"
        using inv st Array by (auto simp: s1_def mark_inv_alt)
      moreover have "scanned heap s1 x" if "scanned heap ?s x" for x
        using that st1 pending_mono [of st _ _ "gstack s1"] unfolding scanned_def by simp blast
      ultimately have inv1: "mark_inv cap heap live (insert a todo) s1"
        using pop st1(2,3) unfolding mark_inv_alt by simp
      have "c \<in> live \<inter> dom heap" if "arr ! pos = Ptr c" for c
        using True child [of c] that nth_mem [of pos arr] by (simp add: arr_def)
      then obtain s' where s': "gc_mark cap heap (arr ! pos) s1 = Some s'" "mark_inv cap heap live (insert a todo) s'"
          "grown s1 s'" "\<forall>c. arr ! pos = Ptr c \<longrightarrow> c \<in> marked s'"
        using gc_mark_ok [OF inv1, of "arr ! pos"] by blast
      have top: "scan_top cap heap e ?s = Some s'"
        using Array a' b(1) True s'(1)
        by (simp add: scan_top_def arr_def [symmetric] pos_def [symmetric] Let_def s1_def split: if_splits)
      have "scanned heap s' a" if "\<not> overflow s'" "a \<notin> todo"
        unfolding scanned_def
      proof (intro allI impI)
        fix b' i
        assume i: "heap a = Some b' \<and> i < length (block_refs b')"
        then have i: "i < length arr" "b' = b"
          using b(1) by (auto simp: arr_def)
        have no: "\<not> overflow s"
          using grownD(3) [OF s'(3)] that(1) st1(3) by auto
        consider "i < pos" | "i = pos" | "pos + 1 \<le> i"
          by linarith
        then show "pending (gstack s') a i \<or> (\<forall>c. block_refs b' ! i = Ptr c \<longrightarrow> c \<in> marked s')"
        proof cases
          case 1
          from before [OF this i(1) no that(2)] show ?thesis
            using grownD(1,2) [OF s'(3)] st1 pending_mono [of st a i "gstack s'"] i(2) by (auto simp: arr_def)
        next
          case 2
          then show ?thesis
            using s'(4) i(2) by (simp add: arr_def)
        next
          case 3
          then have "Array a (pos + 1) \<in> set (gstack s1)"
            using i(1) by (simp add: s1_def)
          then have "pending (gstack s') a i"
            using grownD(2) [OF s'(3)] 3 by (auto simp: pending_def)
          then show ?thesis ..
        qed
      qed
      then have "mark_inv cap heap live todo s'"
        using mark_inv_close [OF s'(2)] by blast
      moreover have "stack_weight heap s1 < stack_weight heap s"
        using st w True skip(1) b(1) by (auto simp: stack_weight_def s1_def entry_weight_def arr_def)
      then have "marked s' = marked s \<and> stack_weight heap s' < stack_weight heap s \<and> overflow s' = overflow s \<or>
          marked s \<subset> marked s' \<and> (overflow s \<longrightarrow> overflow s')"
        using grown_progress [OF s'(3), of s heap] st1 by simp
      ultimately show ?thesis
        using top by blast
    qed
  qed
qed

text \<open>
  Emptying the stack ends: a step marks a block or makes the stack lighter.
\<close>

lemma card_unmarked:
  assumes "closed_heap heap" "m \<subset> m'" "m' \<subseteq> dom heap"
  shows "card (dom heap - m') < card (dom heap - m)"
proof (rule psubset_card_mono)
  show "finite (dom heap - m)"
    using assms(1) by (simp add: closed_heap_def)
  show "dom heap - m' \<subset> dom heap - m"
    using assms(2,3) by auto
qed

lemma gc_mark_flush_ok:
  assumes heap: "closed_heap heap" and inv: "mark_inv cap heap live todo s"
    and live: "closed_under heap live"
  shows "\<exists>s'. gc_mark_flush cap heap s = Some s' \<and> mark_inv cap heap live todo s' \<and> gstack s' = [] \<and>
    marked s \<subseteq> marked s' \<and> (overflow s' \<and> marked s' = marked s \<longrightarrow> overflow s)"
  using inv
proof (induction s rule: wf_induct_rule [OF wf_measures, of "[\<lambda>s. card (dom heap - marked s), stack_weight heap]"])
  case (1 s)
  show ?case
  proof (cases "gstack s")
    case Nil
    with 1(2) show ?thesis
      by (subst gc_mark_flush.simps) simp
  next
    case (Cons e st)
    obtain s1 where s1: "scan_top cap heap e (s\<lparr>gstack := st\<rparr>) = Some s1" "mark_inv cap heap live todo s1"
        "marked s1 = marked s \<and> stack_weight heap s1 < stack_weight heap s \<and> overflow s1 = overflow s \<or>
         marked s \<subset> marked s1 \<and> (overflow s \<longrightarrow> overflow s1)"
      using scan_top_ok [OF heap 1(2) Cons live] by blast
    have "marked s1 \<subseteq> dom heap"
      using s1(2) by (simp add: mark_inv_def)
    then have "(s1, s) \<in> measures [\<lambda>s. card (dom heap - marked s), stack_weight heap]"
      using s1(3) card_unmarked [OF heap, of "marked s" "marked s1"] by auto
    from 1(1) [OF this s1(2)] obtain s2 where s2: "gc_mark_flush cap heap s1 = Some s2" "mark_inv cap heap live todo s2"
        "gstack s2 = []" "marked s1 \<subseteq> marked s2" "overflow s2 \<and> marked s2 = marked s1 \<longrightarrow> overflow s1"
      by blast
    have "gc_mark_flush cap heap s = Some s2"
      using Cons s1(1) s2(1) by (subst gc_mark_flush.simps) simp
    moreover have "marked s \<subseteq> marked s2" "overflow s2 \<and> marked s2 = marked s \<longrightarrow> overflow s"
      using s1(3) s2(4,5) by auto
    ultimately show ?thesis
      using s2(2,3) by blast
  qed
qed

lemma mark_roots_ok:
  assumes "closed_heap heap" "mark_inv cap heap live todo s" "gstack s = []"
    "closed_under heap live"
    "\<And>a. Ptr a \<in> set roots \<Longrightarrow> a \<in> live \<inter> dom heap"
  shows "\<exists>s'. mark_roots cap heap roots s = Some s' \<and> mark_inv cap heap live todo s' \<and> gstack s' = [] \<and>
    marked s \<subseteq> marked s' \<and> (\<forall>a. Ptr a \<in> set roots \<longrightarrow> a \<in> marked s')"
  using assms(2,3,5)
proof (induction roots arbitrary: s)
  case Nil
  then show ?case
    by simp
next
  case (Cons v vs)
  obtain s1 where s1: "gc_mark cap heap v s = Some s1" "mark_inv cap heap live todo s1" "grown s s1"
      "\<forall>a. v = Ptr a \<longrightarrow> a \<in> marked s1"
    using gc_mark_ok [OF Cons.prems(1), of v] Cons.prems(3) by auto
  obtain s2 where s2: "gc_mark_flush cap heap s1 = Some s2" "mark_inv cap heap live todo s2" "gstack s2 = []"
      "marked s1 \<subseteq> marked s2"
    using gc_mark_flush_ok [OF assms(1) s1(2) assms(4)] by blast
  obtain s3 where s3: "mark_roots cap heap vs s2 = Some s3" "mark_inv cap heap live todo s3" "gstack s3 = []"
      "marked s2 \<subseteq> marked s3" "\<forall>a. Ptr a \<in> set vs \<longrightarrow> a \<in> marked s3"
    using Cons.IH [OF s2(2,3)] Cons.prems(3) by auto
  have "mark_roots cap heap (v # vs) s = Some s3"
    using s1(1) s2(1) s3(1) by (simp add: gc_mark_root_def)
  moreover have "marked s \<subseteq> marked s3" "\<forall>a. Ptr a \<in> set (v # vs) \<longrightarrow> a \<in> marked s3"
    using grownD(1) [OF s1(3)] s1(4) s2(4) s3(4,5) by auto
  ultimately show ?case
    using s3(2,3) by blast
qed

text \<open>
  A pass over the heap settles every block that was waiting for it.
\<close>

lemma rescan_ok:
  assumes "closed_heap heap" "mark_inv cap heap live todo s" "gstack s = []" "2 \<le> cap" "set as \<subseteq> dom heap"
    "closed_under heap live"
  shows "\<exists>s'. rescan cap heap as s = Some s' \<and> mark_inv cap heap live (todo - set as) s' \<and> gstack s' = [] \<and>
    marked s \<subseteq> marked s' \<and> (overflow s' \<and> marked s' = marked s \<longrightarrow> overflow s)"
  using assms(2,3,5)
proof (induction as arbitrary: s todo)
  case Nil
  then show ?case
    by simp
next
  case (Cons a as)
  obtain b where b: "heap a = Some b"
    using Cons.prems(3) by auto
  have rest: "todo - set (a # as) = todo - {a} - set as"
    by auto
  show ?case
  proof (cases "a \<in> marked s \<and> mtag_has_references b")
    case False
    have "scanned heap s a" if "a \<in> marked s"
      using False that no_refs [of b] b by (auto simp: scanned_def)
    then have "mark_inv cap heap live (todo - {a}) s"
      using Cons.prems(1) by (intro mark_inv_close [of cap heap live a "todo - {a}"]) (auto simp: mark_inv_alt)
    from Cons.IH [OF this Cons.prems(2)] Cons.prems(3) show ?thesis
      unfolding rest using b False by auto
  next
    case True
    let ?s = "s\<lparr>gstack := [scan_entry a b]\<rparr>"
    have room: "used_words [scan_entry a b] \<le> cap"
      using assms(4) by (simp add: scan_entry_def)
    have "scanned heap ?s a"
      using scan_entry_pending [of a b "[]"] b by (auto simp: scanned_def)
    moreover have "scanned heap ?s x" if "scanned heap s x" for x
      using that Cons.prems(2) by (auto simp: scanned_def pending_def)
    moreover have "entry_ok heap (marked s) (scan_entry a b)"
      using True b by (auto simp: entry_ok_def scan_entry_def)
    ultimately have "mark_inv cap heap live (todo - {a}) ?s"
      using Cons.prems(1) room unfolding mark_inv_alt by (auto, blast)
    from gc_mark_flush_ok [OF assms(1) this assms(6)]
    obtain s1 where s1: "gc_mark_flush cap heap ?s = Some s1" "mark_inv cap heap live (todo - {a}) s1" "gstack s1 = []"
        "marked s \<subseteq> marked s1" "overflow s1 \<and> marked s1 = marked s \<longrightarrow> overflow s"
      by auto
    from Cons.IH [OF s1(2,3)] Cons.prems(3)
    obtain s2 where s2: "rescan cap heap as s1 = Some s2" "mark_inv cap heap live (todo - {a} - set as) s2" "gstack s2 = []"
        "marked s1 \<subseteq> marked s2" "overflow s2 \<and> marked s2 = marked s1 \<longrightarrow> overflow s1"
      by auto
    have "rescan cap heap (a # as) s = Some s2"
      using True b room s1(1) s2(1) Cons.prems(2) by (simp add: Let_def)
    moreover have "marked s \<subseteq> marked s2" "overflow s2 \<and> marked s2 = marked s \<longrightarrow> overflow s"
      using s1(4,5) s2(4,5) by auto
    ultimately show ?thesis
      unfolding rest using s2(2,3) by blast
  qed
qed

lemma overflow_loop_ok:
  assumes "closed_heap heap" "mark_inv cap heap live {} s" "gstack s = []" "2 \<le> cap" "set addrs = dom heap"
    "closed_under heap live"
  shows "\<exists>s'. overflow_loop cap heap addrs s = Some s' \<and> mark_inv cap heap live {} s' \<and> gstack s' = [] \<and>
    marked s \<subseteq> marked s' \<and> \<not> overflow s'"
  using assms(2,3)
proof (induction "card (dom heap - marked s)" arbitrary: s rule: less_induct)
  case less
  show ?case
  proof (cases "overflow s")
    case False
    with less.prems show ?thesis
      by (subst overflow_loop.simps) simp
  next
    case True
    let ?s = "s\<lparr>overflow := False\<rparr>"
    have "mark_inv cap heap live (marked s) ?s"
      using less.prems(1) by (simp add: mark_inv_def)
    from rescan_ok [OF assms(1) this _ assms(4) _ assms(6), of addrs]
    obtain s1 where s1: "rescan cap heap addrs ?s = Some s1" "mark_inv cap heap live (marked s - set addrs) s1"
        "gstack s1 = []" "marked s \<subseteq> marked s1" "overflow s1 \<longrightarrow> marked s1 \<noteq> marked s"
      using less.prems(2) assms(5) by auto
    have "marked s - set addrs = {}"
      using less.prems(1) assms(5) by (auto simp: mark_inv_def)
    with s1(2) have inv1: "mark_inv cap heap live {} s1"
      by simp
    have step: "overflow_loop cap heap addrs s = overflow_loop cap heap addrs s1"
      using True s1(1) by (subst overflow_loop.simps) simp
    show ?thesis
    proof (cases "overflow s1")
      case False
      then have "overflow_loop cap heap addrs s1 = Some s1"
        by (subst overflow_loop.simps) simp
      with step False inv1 s1(3,4) show ?thesis
        by auto
    next
      case True
      then have "card (dom heap - marked s1) < card (dom heap - marked s)"
        using s1(4,5) inv1 by (intro card_unmarked [OF assms(1)]) (auto simp: mark_inv_def)
      from less.hyps [OF this inv1 s1(3)] show ?thesis
        using step s1(4) by auto
    qed
  qed
qed

lemma gc_mark_blocks_ok:
  assumes "closed_heap heap" "set addrs = dom heap" "\<And>a. Ptr a \<in> set roots \<Longrightarrow> a \<in> dom heap" "2 \<le> cap"
  shows "\<exists>s. gc_mark_blocks cap heap addrs roots = Some s \<and> marked s = reachable heap roots \<and> gstack s = [] \<and> \<not> overflow s"
proof -
  let ?live = "reachable heap roots"
  have live: "closed_under heap ?live"
    unfolding closed_under_def using reachable.step by blast
  have "mark_inv cap heap ?live {} \<lparr>marked = {}, gstack = [], overflow = False\<rparr>"
    by (simp add: mark_inv_def)
  from mark_roots_ok [OF assms(1) this _ live, of roots] assms(3)
  obtain s1 where s1: "mark_roots cap heap roots \<lparr>marked = {}, gstack = [], overflow = False\<rparr> = Some s1"
      "mark_inv cap heap ?live {} s1" "gstack s1 = []" "\<forall>a. Ptr a \<in> set roots \<longrightarrow> a \<in> marked s1"
    by (auto intro: reachable.root)
  from overflow_loop_ok [OF assms(1) s1(2,3) assms(4,2) live]
  obtain s2 where s2: "overflow_loop cap heap addrs s1 = Some s2" "mark_inv cap heap ?live {} s2" "gstack s2 = []"
      "marked s1 \<subseteq> marked s2" "\<not> overflow s2"
    by blast
  have "a \<in> marked s2" if "a \<in> ?live" for a
    using that
  proof (induction rule: reachable.induct)
    case (root a)
    then show ?case
      using s1(4) s2(4) by auto
  next
    case (step a b c)
    then have "scanned heap s2 a"
      using s2(2,5) by (auto simp: mark_inv_alt)
    moreover obtain i where "i < length (block_refs b)" "block_refs b ! i = Ptr c"
      using step.hyps(3) by (auto simp: in_set_conv_nth)
    ultimately show ?case
      using step.hyps(2) s2(3) by (auto simp: scanned_def pending_def)
  qed
  moreover have "marked s2 \<subseteq> ?live"
    using s2(2) by (simp add: mark_inv_def)
  ultimately show ?thesis
    using s1(1) s2(1,3,5) by (auto simp: gc_mark_blocks_def)
qed

subsection \<open>Properties\<close>

text \<open>C3. With a mark stack of at least two words, however small otherwise, the mark pass ends and marks exactly the blocks
  that can be reached from the roots: the stack is never overrun, and what its overflow leaves behind is found by scanning
  the heap again.  (The scan pushes an entry of up to two words without testing for room.)
\<close>

theorem gc_mark_blocks_correct:
  assumes "closed_heap heap" "set addrs = dom heap" "\<And>a. Ptr a \<in> set roots \<Longrightarrow> a \<in> dom heap" "2 \<le> cap"
  shows "\<exists>s. gc_mark_blocks cap heap addrs roots = Some s \<and> marked s = reachable heap roots \<and> gstack s = [] \<and> \<not> overflow s"
  using assms by (rule gc_mark_blocks_ok)

theorem gc_mark_blocks_correct_witness:
  "\<exists>s. gc_mark_blocks 2 [0 \<mapsto> JS_MTAG_VALUE_ARRAY [NonPtr, Ptr 1, Ptr 1], 1 \<mapsto> JS_MTAG_VARREF (Ptr 0), 2 \<mapsto> JS_MTAG_NO_REFERENCE]
      [0, 1, 2] [Ptr 0] = Some s \<and> 1 \<in> marked s \<and> 2 \<notin> marked s"
proof -
  let ?heap = "[0 \<mapsto> JS_MTAG_VALUE_ARRAY [NonPtr, Ptr 1, Ptr 1], 1 \<mapsto> JS_MTAG_VARREF (Ptr 0), 2 \<mapsto> JS_MTAG_NO_REFERENCE]"
  have closed: "closed_heap ?heap"
    by (auto simp: closed_heap_def split: if_splits)
  have "1 \<in> reachable ?heap [Ptr 0]"
    by (rule reachable.step [of 0 _ _ "JS_MTAG_VALUE_ARRAY [NonPtr, Ptr 1, Ptr 1]"]) (auto intro: reachable.root)
  moreover have "a \<noteq> 2" if "a \<in> reachable ?heap [Ptr 0]" for a
    using that by (induction rule: reachable.induct) (auto split: if_splits)
  ultimately show ?thesis
    using gc_mark_blocks_correct [OF closed, of "[0, 1, 2]" "[Ptr 0]" 2] by force
qed

end
