(* ===== verification/JSGCSweep.thy ===== *)
theory JSGCSweep
  imports JSGCMark
begin

section \<open>Sweeping of the garbage collector\<close>

text \<open>
  Models the rest of \<^verbatim>\<open>gc_mark_all\<close> of \<^verbatim>\<open>mquickjs.c\<close>: its roots, the weak table of unique strings, the
  weak string position cache and the pass that clears the marks and merges the dead blocks into free ones.  The heap
  is the list of its blocks in address order; addresses and sizes are in words, and the header of a value array is
  one word.  The result carries the calls of finalizers, as pairs of the class and the opaque pointer.
\<close>

subsection \<open>Operations\<close>

record hblock =
  hb_addr :: nat
  hb_size :: nat
  hb_block :: gcblock
  hb_mark :: bool

record GCContext =
  atom_blocks :: "nat list option"
  context_values :: "gcval list"
  stack_values :: "gcval list"
  top_gc_ref :: "gcval list"
  last_gc_ref :: "gcval list"
  parse_state :: "(gcval \<times> gcval \<times> gcval \<times> gcval \<times> gcval) option"
  unique_strings :: gcval
  unique_strings_len :: nat
  string_pos_cache :: "gcval list"
  blocks :: "hblock list"

definition gc_roots :: "bool \<Rightarrow> GCContext \<Rightarrow> gcval list" where
  "gc_roots keep_atoms ctx =
     (case atom_blocks ctx of None \<Rightarrow> [] | Some as \<Rightarrow> if keep_atoms then map Ptr as else []) @
     context_values ctx @ stack_values ctx @ top_gc_ref ctx @ last_gc_ref ctx @
     (case parse_state ctx of
        None \<Rightarrow> []
      | Some (source_str, filename_str, token_value, cur_func, byte_code) \<Rightarrow>
          [source_str, filename_str, token_value, cur_func, byte_code])"

definition heap_of :: "hblock list \<Rightarrow> gcheap" where
  "heap_of bs = map_of (map (\<lambda>b. (hb_addr b, hb_block b)) bs)"

definition set_marks :: "nat set \<Rightarrow> hblock list \<Rightarrow> hblock list" where
  "set_marks mk bs = map (\<lambda>b. b\<lparr>hb_mark := hb_addr b \<in> mk\<rparr>) bs"

definition gc_mb_is_marked :: "bool \<Rightarrow> hblock list \<Rightarrow> gcval \<Rightarrow> bool" where
  "gc_mb_is_marked rom_mark bs val =
     (case val of
        NonPtr \<Rightarrow> False
      | Rom \<Rightarrow> rom_mark
      | Ptr a \<Rightarrow> list_ex (\<lambda>b. hb_addr b = a \<and> hb_mark b) bs)"

function unique_loop :: "(gcval \<Rightarrow> bool) \<Rightarrow> gcval list \<Rightarrow> nat \<Rightarrow> nat \<Rightarrow> gcval list \<times> nat" where
  "unique_loop live arr i j =
     (if i < length arr
      then if live (arr ! i) then unique_loop live (arr[j := arr ! i]) (i + 1) (j + 1)
           else unique_loop live arr (i + 1) j
      else (arr, j))"
  by auto
termination by (relation "measure (\<lambda>(live, arr, i, j). length arr - i)") auto

declare unique_loop.simps [simp del]

definition shrink_unique :: "gcval list \<Rightarrow> nat \<Rightarrow> hblock \<Rightarrow> hblock list" where
  "shrink_unique arr j b =
     b\<lparr>hb_mark := True, hb_size := hb_size b - (length arr - j), hb_block := JS_MTAG_VALUE_ARRAY (take j arr)\<rparr> #
     (if j < length arr
      then [\<lparr>hb_addr = hb_addr b + (hb_size b - (length arr - j)), hb_size = length arr - j,
             hb_block = JS_MTAG_FREE, hb_mark = False\<rparr>]
      else [])"

definition update_unique_strings :: "bool \<Rightarrow> GCContext \<Rightarrow> GCContext option" where
  "update_unique_strings rom_mark ctx =
     (case unique_strings ctx of
        NonPtr \<Rightarrow> Some ctx
      | Rom \<Rightarrow> None
      | Ptr u \<Rightarrow>
          (case heap_of (blocks ctx) u of
             Some (JS_MTAG_VALUE_ARRAY arr) \<Rightarrow>
               (case unique_loop (gc_mb_is_marked rom_mark (blocks ctx)) arr 0 0 of (arr', j) \<Rightarrow>
                  if j > 0
                  then Some (ctx\<lparr>unique_strings_len := j, blocks :=
                         concat (map (\<lambda>b. if hb_addr b = u then shrink_unique arr' j b else [b]) (blocks ctx))\<rparr>)
                  else Some (ctx\<lparr>unique_strings_len := j, unique_strings := NonPtr, blocks :=
                         map (\<lambda>b. if hb_addr b = u then b\<lparr>hb_mark := False\<rparr> else b) (blocks ctx)\<rparr>))
           | _ \<Rightarrow> None))"

definition update_string_pos_cache :: "bool \<Rightarrow> GCContext \<Rightarrow> GCContext" where
  "update_string_pos_cache rom_mark ctx =
     ctx\<lparr>string_pos_cache :=
       map (\<lambda>str. if \<not> gc_mb_is_marked rom_mark (blocks ctx) str then NonPtr else str) (string_pos_cache ctx)\<rparr>"

definition finalizer_call :: "(nat \<Rightarrow> bool) \<Rightarrow> hblock \<Rightarrow> (nat \<times> nat) list" where
  "finalizer_call c_finalizer_table b =
     (case hb_block b of
        JS_MTAG_OBJECT proto props (JS_CLASS_USER class_id opaque) \<Rightarrow>
          if c_finalizer_table class_id then [(class_id, opaque)] else []
      | _ \<Rightarrow> [])"

fun skip_unmarked :: "hblock list \<Rightarrow> nat \<Rightarrow> nat \<times> hblock list" where
  "skip_unmarked [] ptr1 = (ptr1, [])"
| "skip_unmarked (b # bs) ptr1 = (if \<not> hb_mark b then skip_unmarked bs (ptr1 + hb_size b) else (ptr1, b # bs))"

lemma skip_unmarked_length: "length (snd (skip_unmarked bs ptr1)) \<le> length bs"
  by (induction bs arbitrary: ptr1) (auto intro: le_SucI)

function sweep :: "(nat \<Rightarrow> bool) \<Rightarrow> hblock list \<Rightarrow> (nat \<times> nat) list \<times> hblock list" where
  "sweep c_finalizer_table [] = ([], [])"
| "sweep c_finalizer_table (b # bs) =
     (if hb_mark b
      then (case sweep c_finalizer_table bs of (calls, r) \<Rightarrow> (calls, b\<lparr>hb_mark := False\<rparr> # r))
      else (case skip_unmarked bs (hb_addr b + hb_size b) of (ptr1, rest) \<Rightarrow>
              case sweep c_finalizer_table rest of (calls, r) \<Rightarrow>
                (finalizer_call c_finalizer_table b @ calls,
                 \<lparr>hb_addr = hb_addr b, hb_size = ptr1 - hb_addr b, hb_block = JS_MTAG_FREE, hb_mark = False\<rparr> # r)))"
  by pat_completeness auto
termination
  using skip_unmarked_length
  by (relation "measure (length \<circ> snd)") (auto simp: less_Suc_eq_le dest!: sym [of "skip_unmarked _ _"], metis snd_conv)

definition gc_mark_all ::
  "nat \<Rightarrow> bool \<Rightarrow> (nat \<Rightarrow> bool) \<Rightarrow> bool \<Rightarrow> GCContext \<Rightarrow> ((nat \<times> nat) list \<times> GCContext) option" where
  "gc_mark_all cap rom_mark c_finalizer_table keep_atoms ctx =
     Option.bind (gc_mark_blocks cap (heap_of (blocks ctx)) (map hb_addr (blocks ctx)) (gc_roots keep_atoms ctx)) (\<lambda>s.
     Option.bind (update_unique_strings rom_mark (ctx\<lparr>blocks := set_marks (marked s) (blocks ctx)\<rparr>)) (\<lambda>ctx1.
     let ctx2 = update_string_pos_cache rom_mark ctx1
     in case sweep c_finalizer_table (blocks ctx2) of (calls, bs) \<Rightarrow> Some (calls, ctx2\<lparr>blocks := bs\<rparr>)))"

subsection \<open>Sweeping\<close>

text \<open>
  The blocks of a heap follow each other without gaps.
\<close>

fun contiguous :: "nat \<Rightarrow> hblock list \<Rightarrow> nat \<Rightarrow> bool" where
  "contiguous base [] lim \<longleftrightarrow> base = lim"
| "contiguous base (b # bs) lim \<longleftrightarrow> hb_addr b = base \<and> 0 < hb_size b \<and> contiguous (base + hb_size b) bs lim"

fun merged :: "hblock list \<Rightarrow> bool" where
  "merged (b # c # bs) \<longleftrightarrow> \<not> (hb_block b = JS_MTAG_FREE \<and> hb_block c = JS_MTAG_FREE) \<and> merged (c # bs)"
| "merged bs \<longleftrightarrow> True"

definition live_blocks :: "hblock list \<Rightarrow> hblock list" where
  "live_blocks bs = filter (\<lambda>b. hb_block b \<noteq> JS_MTAG_FREE) bs"

text \<open>
  The blocks that begin a run of dead ones; \<open>alive\<close> says that the block before is not dead.
\<close>

fun run_heads :: "bool \<Rightarrow> hblock list \<Rightarrow> hblock list" where
  "run_heads alive [] = []"
| "run_heads alive (b # bs) = (if \<not> hb_mark b \<and> alive then b # run_heads False bs else run_heads (hb_mark b) bs)"

lemma run_heads_dead: "b \<in> set (run_heads alive bs) \<Longrightarrow> b \<in> set bs \<and> \<not> hb_mark b"
  by (induction bs arbitrary: alive) (auto split: if_splits)

lemma skip_unmarked_spec:
  assumes "contiguous base bs lim" "skip_unmarked bs base = (ptr1, rest)"
  shows "contiguous ptr1 rest lim \<and> base \<le> ptr1 \<and> filter hb_mark rest = filter hb_mark bs \<and>
    run_heads False bs = run_heads True rest \<and> (\<forall>b bs'. rest = b # bs' \<longrightarrow> hb_mark b)"
  using assms by (induction bs arbitrary: base) (fastforce split: if_splits)+

lemma merged_Cons:
  "merged r \<Longrightarrow> hb_block b \<noteq> JS_MTAG_FREE \<or> r = [] \<or> hb_block (hd r) \<noteq> JS_MTAG_FREE \<Longrightarrow> merged (b # r)"
  by (cases r) auto

lemma sweep_head: "bs = b # bs' \<Longrightarrow> hb_mark b \<Longrightarrow> hb_block (hd (snd (sweep f bs))) = hb_block b"
  by (auto split: prod.splits)

lemma sweep_spec:
  assumes "contiguous base bs lim" "\<And>b. b \<in> set bs \<Longrightarrow> hb_mark b \<Longrightarrow> hb_block b \<noteq> JS_MTAG_FREE" "sweep f bs = (calls, r)"
  shows "contiguous base r lim \<and> merged r \<and> (\<forall>b\<in>set r. \<not> hb_mark b) \<and>
    live_blocks r = map (\<lambda>b. b\<lparr>hb_mark := False\<rparr>) (filter hb_mark bs) \<and>
    calls = concat (map (finalizer_call f) (run_heads True bs))"
  using assms
proof (induction f bs arbitrary: base calls r rule: sweep.induct)
  case (1 f)
  then show ?case
    by (simp add: live_blocks_def)
next
  case (2 f b bs)
  show ?case
  proof (cases "hb_mark b")
    case True
    obtain calls' r' where r': "sweep f bs = (calls', r')"
      by fastforce
    then have r: "r = b\<lparr>hb_mark := False\<rparr> # r'" "calls = calls'"
      using 2(5) True by auto
    have "contiguous (base + hb_size b) bs lim"
      using 2(3) by simp
    from 2(1) [OF True this _ r'] 2(4)
    have "contiguous (base + hb_size b) r' lim \<and> merged r' \<and> (\<forall>b\<in>set r'. \<not> hb_mark b) \<and>
        live_blocks r' = map (\<lambda>b. b\<lparr>hb_mark := False\<rparr>) (filter hb_mark bs) \<and>
        calls' = concat (map (finalizer_call f) (run_heads True bs))"
      by simp
    then show ?thesis
      unfolding r using 2(3,4) True by (simp add: live_blocks_def merged_Cons)
  next
    case False
    obtain ptr1 rest where rest: "skip_unmarked bs (hb_addr b + hb_size b) = (ptr1, rest)"
      by fastforce
    obtain calls' r' where r': "sweep f rest = (calls', r')"
      by fastforce
    let ?f = "\<lparr>hb_addr = hb_addr b, hb_size = ptr1 - hb_addr b, hb_block = JS_MTAG_FREE, hb_mark = False\<rparr>"
    have r: "r = ?f # r'" "calls = finalizer_call f b @ calls'"
      using 2(5) False rest r' by auto
    have "contiguous (hb_addr b + hb_size b) bs lim"
      using 2(3) by simp
    from skip_unmarked_spec [OF this rest]
    have skip: "contiguous ptr1 rest lim" "hb_addr b + hb_size b \<le> ptr1" "filter hb_mark rest = filter hb_mark bs"
        "run_heads False bs = run_heads True rest" "\<And>c bs'. rest = c # bs' \<Longrightarrow> hb_mark c"
      by auto
    have mem: "c \<in> set rest \<Longrightarrow> hb_mark c \<Longrightarrow> hb_block c \<noteq> JS_MTAG_FREE" for c
      using 2(4) [of c] arg_cong [OF skip(3), of set] by auto
    from 2(2) [OF False rest [symmetric] skip(1) mem r']
    have ih: "contiguous ptr1 r' lim" "merged r'" "\<forall>b\<in>set r'. \<not> hb_mark b"
        "live_blocks r' = map (\<lambda>b. b\<lparr>hb_mark := False\<rparr>) (filter hb_mark rest)"
        "calls' = concat (map (finalizer_call f) (run_heads True rest))"
      by auto
    have "r' = [] \<or> hb_block (hd r') \<noteq> JS_MTAG_FREE"
    proof (cases rest)
      case Nil
      then show ?thesis
        using r' by simp
    next
      case (Cons c cs)
      then show ?thesis
        using sweep_head [OF Cons, of f] skip(5) [OF Cons] mem [of c] r' by simp
    qed
    then have "merged r"
      unfolding r(1) using ih(2) by (intro merged_Cons) auto
    moreover have "contiguous base r lim"
      unfolding r(1) using ih(1) skip(2) 2(3) by simp
    moreover have "live_blocks r = map (\<lambda>b. b\<lparr>hb_mark := False\<rparr>) (filter hb_mark (b # bs))"
      using ih(4) skip(3) False by (simp add: r live_blocks_def)
    moreover have "calls = concat (map (finalizer_call f) (run_heads True (b # bs)))"
      using ih(5) skip(4) False by (simp add: r)
    moreover have "\<forall>b\<in>set r. \<not> hb_mark b"
      unfolding r(1) using ih(3) by simp
    ultimately show ?thesis
      by blast
  qed
qed

subsection \<open>Weak references\<close>

lemma unique_loop_spec:
  "j \<le> i \<Longrightarrow> i \<le> length arr \<Longrightarrow> unique_loop live arr i j = (arr', j') \<Longrightarrow>
    length arr' = length arr \<and> j' \<le> length arr \<and> take j' arr' = take j arr @ filter live (drop i arr)"
proof (induction live arr i j rule: unique_loop.induct)
  case (1 live arr i j)
  show ?case
  proof (cases "i < length arr")
    case False
    then show ?thesis
      using 1(3,4,5) by (subst (asm) unique_loop.simps) simp
  next
    case True
    note d = Cons_nth_drop_Suc [OF True, symmetric]
    show ?thesis
    proof (cases "live (arr ! i)")
      case False
      then have "unique_loop live arr (i + 1) j = (arr', j')"
        using 1(5) True by (subst (asm) unique_loop.simps) simp
      from 1(2) [OF True False _ _ this] 1(3) True False show ?thesis
        by (simp add: d)
    next
      case live: True
      then have "unique_loop live (arr[j := arr ! i]) (i + 1) (j + 1) = (arr', j')"
        using 1(5) True by (subst (asm) unique_loop.simps) simp
      from 1(1) [OF True live _ _ this] 1(3) True live show ?thesis
        by (simp add: d take_Suc_conv_app_nth)
    qed
  qed
qed

lemma contiguous_addr: "contiguous base bs lim \<Longrightarrow> b \<in> set bs \<Longrightarrow> base \<le> hb_addr b"
  by (induction bs arbitrary: base) fastforce+

lemma contiguous_distinct: "contiguous base bs lim \<Longrightarrow> distinct (map hb_addr bs)"
proof (induction bs arbitrary: base)
  case (Cons b bs)
  then have "contiguous (base + hb_size b) bs lim"
    by simp
  from contiguous_addr [OF this] Cons show ?case
    by fastforce
qed simp

lemma heap_of_nth: "contiguous base bs lim \<Longrightarrow> b \<in> set bs \<Longrightarrow> heap_of bs (hb_addr b) = Some (hb_block b)"
  unfolding heap_of_def by (rule map_of_is_SomeI) (auto simp: comp_def dest: contiguous_distinct)

lemma heap_of_filter:
  assumes "contiguous base bs lim" "b \<in> set bs" "hb_mark b"
  shows "heap_of (filter hb_mark bs) (hb_addr b) = Some (hb_block b)"
  unfolding heap_of_def
proof (rule map_of_is_SomeI)
  show "distinct (map fst (map (\<lambda>b. (hb_addr b, hb_block b)) (filter hb_mark bs)))"
    using contiguous_distinct [OF assms(1)] by (simp add: comp_def distinct_map_filter)
qed (use assms(2,3) in auto)

lemma reachable_dom:
  assumes "closed_heap heap" "\<And>a. Ptr a \<in> set roots \<Longrightarrow> a \<in> dom heap"
  shows "reachable heap roots \<subseteq> dom heap"
proof
  show "a \<in> dom heap" if "a \<in> reachable heap roots" for a
    using that by (induction rule: reachable.induct) (use assms in \<open>auto simp: closed_heap_def\<close>)
qed

lemma dom_heap_of: "dom (heap_of bs) = hb_addr ` set bs"
  by (simp add: heap_of_def dom_map_of_conv_image_fst image_image)

lemma heap_of_Cons: "heap_of (b # bs) = (heap_of bs)(hb_addr b \<mapsto> hb_block b)" "heap_of [] = Map.empty"
  by (simp_all add: heap_of_def)

lemma heap_of_marks: "heap_of (filter hb_mark (set_marks mk bs)) = heap_of bs |` mk"
  by (induction bs) (auto simp: set_marks_def heap_of_Cons restrict_map_def fun_eq_iff)

lemma heap_of_set_marks [simp]: "heap_of (set_marks mk bs) = heap_of bs"
  by (simp add: heap_of_def set_marks_def comp_def)

lemma heap_of_unmark: "heap_of (map (\<lambda>b. b\<lparr>hb_mark := False\<rparr>) bs) = heap_of bs"
  by (simp add: heap_of_def comp_def)

lemma set_marks_addr [simp]: "hb_addr ` set (set_marks mk bs) = hb_addr ` set bs"
  by (simp add: set_marks_def image_image)

lemma contiguous_set_marks [simp]: "contiguous base (set_marks mk bs) lim = contiguous base bs lim"
  by (induction bs arbitrary: base) (auto simp: set_marks_def)

definition shrink_at :: "nat \<Rightarrow> gcval list \<Rightarrow> nat \<Rightarrow> hblock list \<Rightarrow> hblock list" where
  "shrink_at u arr j bs = concat (map (\<lambda>b. if hb_addr b = u then shrink_unique arr j b else [b]) bs)"

lemma shrink_at_Cons [simp]:
  "shrink_at u arr j [] = []"
  "shrink_at u arr j (b # bs) = (if hb_addr b = u then shrink_unique arr j b else [b]) @ shrink_at u arr j bs"
  by (simp_all add: shrink_at_def)

lemma heap_of_shrink:
  "heap_of (filter hb_mark (shrink_at u arr j bs)) a =
    (if a = u \<and> u \<in> hb_addr ` set bs then Some (JS_MTAG_VALUE_ARRAY (take j arr)) else heap_of (filter hb_mark bs) a)"
  by (induction bs) (auto simp: shrink_unique_def heap_of_Cons)

lemma contiguous_shrink:
  "contiguous base bs lim \<Longrightarrow> (\<And>b. b \<in> set bs \<Longrightarrow> hb_addr b = u \<Longrightarrow> length arr - j < hb_size b) \<Longrightarrow>
    contiguous base (shrink_at u arr j bs) lim"
proof (induction bs arbitrary: base)
  case (Cons b bs)
  then have ih: "contiguous (base + hb_size b) (shrink_at u arr j bs) lim"
    by simp
  have b: "hb_addr b = base" "0 < hb_size b"
    using Cons.prems(1) by auto
  show ?case
  proof (cases "hb_addr b = u")
    case True
    then have "hb_size b - (length arr - j) + (length arr - j) = hb_size b" "0 < hb_size b - (length arr - j)"
      using Cons.prems(2) [of b] by auto
    with ih b True show ?thesis
      by (simp add: shrink_unique_def add.assoc)
  qed (use ih b in auto)
qed simp


subsection \<open>Properties\<close>

text \<open>
  What the collector relies on: references lead to blocks of the heap that are not free; the table of unique strings is a
  value array that fills its block and is not in the position cache.  Normally only its weak pointer holds it.  While
  \<^verbatim>\<open>js_resize_value_array2\<close> allocates a larger one it is a root as well, and then it holds some string.
\<close>

definition gc_ready :: "nat \<Rightarrow> nat \<Rightarrow> bool \<Rightarrow> GCContext \<Rightarrow> bool" where
  "gc_ready base lim keep_atoms ctx \<longleftrightarrow>
     contiguous base (blocks ctx) lim \<and> closed_heap (heap_of (blocks ctx)) \<and>
     (\<forall>a. Ptr a \<in> set (gc_roots keep_atoms ctx) \<longrightarrow> a \<in> dom (heap_of (blocks ctx))) \<and>
     (\<forall>a\<in>reachable (heap_of (blocks ctx)) (gc_roots keep_atoms ctx). heap_of (blocks ctx) a \<noteq> Some JS_MTAG_FREE) \<and>
     (case unique_strings ctx of
        NonPtr \<Rightarrow> True
      | Rom \<Rightarrow> False
      | Ptr u \<Rightarrow> Ptr u \<notin> set (string_pos_cache ctx) \<and>
          (\<exists>b\<in>set (blocks ctx). \<exists>arr. hb_addr b = u \<and> hb_block b = JS_MTAG_VALUE_ARRAY arr \<and> hb_size b = 1 + length arr \<and>
             (u \<in> reachable (heap_of (blocks ctx)) (gc_roots keep_atoms ctx) \<longrightarrow> (\<exists>a. Ptr a \<in> set arr))))"

definition live_val :: "bool \<Rightarrow> nat set \<Rightarrow> gcval \<Rightarrow> bool" where
  "live_val rom_mark live v = (case v of NonPtr \<Rightarrow> False | Rom \<Rightarrow> rom_mark | Ptr a \<Rightarrow> a \<in> live)"

definition live_strings :: "bool \<Rightarrow> nat set \<Rightarrow> GCContext \<Rightarrow> gcval list" where
  "live_strings rom_mark live ctx =
     (case unique_strings ctx of
        Ptr u \<Rightarrow> (case heap_of (blocks ctx) u of Some b \<Rightarrow> filter (live_val rom_mark live) (block_refs b) | None \<Rightarrow> [])
      | _ \<Rightarrow> [])"

definition collected :: "bool \<Rightarrow> nat set \<Rightarrow> GCContext \<Rightarrow> gcheap" where
  "collected rom_mark live ctx =
     (if live_strings rom_mark live ctx = [] then heap_of (blocks ctx) |` live
      else case unique_strings ctx of
        Ptr u \<Rightarrow> (heap_of (blocks ctx) |` live)(u \<mapsto> JS_MTAG_VALUE_ARRAY (live_strings rom_mark live ctx))
      | _ \<Rightarrow> heap_of (blocks ctx) |` live)"

text \<open>
  The blocks as the sweep finds them: the reached ones marked, and the table of unique strings, when a string is left in
  it, marked and cut down to these, with a free block for the slots given up.
\<close>

definition weak_blocks :: "bool \<Rightarrow> nat set \<Rightarrow> GCContext \<Rightarrow> hblock list" where
  "weak_blocks rom_mark live ctx =
     (let bs = set_marks live (blocks ctx); strs = live_strings rom_mark live ctx
      in case unique_strings ctx of
           Ptr u \<Rightarrow>
             if strs = [] then bs
             else concat (map (\<lambda>b. if hb_addr b = u
                then b\<lparr>hb_mark := True, hb_size := 1 + length strs, hb_block := JS_MTAG_VALUE_ARRAY strs\<rparr> #
                     (if 1 + length strs < hb_size b
                      then [\<lparr>hb_addr = hb_addr b + (1 + length strs), hb_size = hb_size b - (1 + length strs),
                             hb_block = JS_MTAG_FREE, hb_mark = False\<rparr>]
                      else [])
                else [b]) bs)
         | _ \<Rightarrow> bs)"

lemma is_marked_live:
  assumes "live \<subseteq> dom (heap_of bs)"
  shows "gc_mb_is_marked rom_mark (set_marks live bs) = live_val rom_mark live"
  using assms unfolding dom_heap_of
  by (auto simp: fun_eq_iff gc_mb_is_marked_def live_val_def set_marks_def list_ex_iff split: gcval.splits)

lemma is_marked_shrink:
  assumes "v \<noteq> Ptr u"
  shows "gc_mb_is_marked rom_mark (shrink_at u arr j bs) v = gc_mb_is_marked rom_mark bs v"
  using assms
  by (cases v) (auto simp: gc_mb_is_marked_def list_ex_iff shrink_at_def shrink_unique_def split: if_splits)

lemma update_unique_strings_ok:
  assumes "gc_ready base lim keep_atoms ctx" "live = reachable (heap_of (blocks ctx)) (gc_roots keep_atoms ctx)"
    "live \<subseteq> dom (heap_of (blocks ctx))"
  shows "\<exists>n bs. update_unique_strings rom_mark (ctx\<lparr>blocks := set_marks live (blocks ctx)\<rparr>) =
      Some (ctx\<lparr>unique_strings_len := n, blocks := bs,
        unique_strings := (if live_strings rom_mark live ctx = [] then NonPtr else unique_strings ctx)\<rparr>) \<and>
    (unique_strings ctx \<noteq> NonPtr \<longrightarrow> n = length (live_strings rom_mark live ctx)) \<and>
    contiguous base bs lim \<and> heap_of (filter hb_mark bs) = collected rom_mark live ctx \<and>
    (\<forall>v\<in>set (string_pos_cache ctx). gc_mb_is_marked rom_mark bs v = live_val rom_mark live v) \<and>
    (\<forall>b\<in>set bs. \<not> hb_mark b \<longrightarrow> b \<in> set (set_marks live (blocks ctx)) \<or> hb_block b = JS_MTAG_FREE) \<and>
    bs = weak_blocks rom_mark live ctx"
proof (cases "unique_strings ctx")
  case NonPtr
  then show ?thesis
    using assms is_marked_live [OF assms(3)]
    by (intro exI [of _ "unique_strings_len ctx"] exI [of _ "set_marks live (blocks ctx)"])
      (auto simp: update_unique_strings_def live_strings_def gc_ready_def collected_def heap_of_marks weak_blocks_def)
next
  case Rom
  then show ?thesis
    using assms(1) by (simp add: gc_ready_def)
next
  case (Ptr u)
  let ?bs = "set_marks live (blocks ctx)"
  obtain b arr where b: "b \<in> set (blocks ctx)" "hb_addr b = u" "hb_block b = JS_MTAG_VALUE_ARRAY arr" "hb_size b = 1 + length arr"
      and u: "u \<in> live \<Longrightarrow> \<exists>a. Ptr a \<in> set arr" "Ptr u \<notin> set (string_pos_cache ctx)" and cont: "contiguous base (blocks ctx) lim"
    using assms(1,2) Ptr by (auto simp: gc_ready_def)
  have heap_u: "heap_of (blocks ctx) u = Some (JS_MTAG_VALUE_ARRAY arr)"
    using heap_of_nth [OF cont b(1)] b by simp
  then have strs: "live_strings rom_mark live ctx = filter (live_val rom_mark live) arr"
    using Ptr by (simp add: live_strings_def)
  obtain arr' j where loop: "unique_loop (live_val rom_mark live) arr 0 0 = (arr', j)"
    by fastforce
  from unique_loop_spec [OF _ _ this]
  have arr': "length arr' = length arr" "j \<le> length arr" "take j arr' = live_strings rom_mark live ctx"
    by (simp_all add: strs)
  then have len: "j = length (live_strings rom_mark live ctx)"
    by (metis length_take min.absorb2)
  have only: "hb_size c = 1 + length arr" if "c \<in> set (blocks ctx)" "hb_addr c = u" for c
    using contiguous_distinct [OF cont] b that by (auto simp: distinct_map inj_on_def)
  show ?thesis
  proof (cases "j > 0")
    case True
    have "heap_of (filter hb_mark (shrink_at u arr' j ?bs)) = collected rom_mark live ctx"
      using heap_of_shrink [of u arr' j ?bs] b(1,2) True len arr'(3) Ptr
      by (auto simp: fun_eq_iff heap_of_marks collected_def)
    moreover have "contiguous base (shrink_at u arr' j ?bs) lim"
    proof (rule contiguous_shrink)
      show "contiguous base ?bs lim"
        using cont by simp
      show "length arr' - j < hb_size c" if "c \<in> set ?bs" "hb_addr c = u" for c
        using that only arr'(1) by (fastforce simp: set_marks_def)
    qed
    moreover have "gc_mb_is_marked rom_mark (shrink_at u arr' j ?bs) v = live_val rom_mark live v"
      if "v \<in> set (string_pos_cache ctx)" for v
    proof -
      have "v \<noteq> Ptr u"
        using u(2) that by auto
      then show ?thesis
        by (simp add: is_marked_shrink is_marked_live [OF assms(3)])
    qed
    moreover have "b \<in> set ?bs \<or> hb_block b = JS_MTAG_FREE" if "b \<in> set (shrink_at u arr' j ?bs)" "\<not> hb_mark b" for b
      using that by (auto simp: shrink_at_def shrink_unique_def split: if_splits)
    moreover have "update_unique_strings rom_mark (ctx\<lparr>blocks := ?bs\<rparr>) =
        Some (ctx\<lparr>blocks := ?bs, unique_strings_len := j, blocks := shrink_at u arr' j ?bs\<rparr>)"
      using Ptr heap_u loop True
      by (simp add: update_unique_strings_def is_marked_live [OF assms(3)] shrink_at_def)
    moreover have "shrink_unique arr' j c = c\<lparr>hb_mark := True, hb_size := 1 + j, hb_block := JS_MTAG_VALUE_ARRAY (live_strings rom_mark live ctx)\<rparr> #
        (if 1 + j < hb_size c then [\<lparr>hb_addr = hb_addr c + (1 + j), hb_size = hb_size c - (1 + j), hb_block = JS_MTAG_FREE, hb_mark = False\<rparr>] else [])"
      if "c \<in> set ?bs" "hb_addr c = u" for c
    proof -
      have "hb_size c = 1 + length arr" using that only by (fastforce simp: set_marks_def)
      then show ?thesis using arr' by (simp add: shrink_unique_def)
    qed
    then have "shrink_at u arr' j ?bs = weak_blocks rom_mark live ctx"
      unfolding shrink_at_def weak_blocks_def Let_def Ptr gcval.case using True len by (auto intro!: arg_cong [of _ _ concat] map_cong)
    ultimately show ?thesis
      using True len Ptr by (intro exI [of _ j] exI [of _ "shrink_at u arr' j ?bs"]) auto
  next
    case False
    have nil: "live_strings rom_mark live ctx = []" using False len by simp
    have "u \<notin> live"
    proof
      assume ul: "u \<in> live"
      then obtain a where a: "Ptr a \<in> set arr" using u(1) by blast
      then have "a \<in> live" using reachable.step [OF ul [unfolded assms(2)] heap_u] assms(2) by simp
      then show False using a nil by (auto simp: strs filter_empty_conv live_val_def)
    qed
    then have "map (\<lambda>b. if hb_addr b = u then b\<lparr>hb_mark := False\<rparr> else b) ?bs = ?bs"
      by (auto simp: set_marks_def)
    then have "update_unique_strings rom_mark (ctx\<lparr>blocks := ?bs\<rparr>) =
        Some (ctx\<lparr>blocks := ?bs, unique_strings_len := j, unique_strings := NonPtr\<rparr>)"
      using Ptr heap_u loop False
      by (simp add: update_unique_strings_def is_marked_live [OF assms(3)])
    then show ?thesis
      using False len is_marked_live [OF assms(3)] cont
      by (intro exI [of _ j] exI [of _ ?bs]) (auto simp: collected_def heap_of_marks weak_blocks_def Ptr)
  qed
qed


text \<open>C4. A collection, on a heap in which references lead to blocks that are not free and with a mark stack of at least
  two words: it keeps exactly the blocks that the roots reach, each at its address with its contents, and of the
  weak references exactly those to live strings, in the order of the table, also while the table itself is a root. It
  clears every mark, covers the same memory without gaps, and leaves no two free blocks side by side. Finalizers are
  called for dead objects only; they are exactly those of the objects that begin a run of dead blocks (the free tail of
  the shrunk table counts as one), and not those of the dead objects behind them.
\<close>

theorem gc_mark_all_correct:
  assumes "gc_ready base lim keep_atoms ctx" "2 \<le> cap"
  defines "live \<equiv> reachable (heap_of (blocks ctx)) (gc_roots keep_atoms ctx)"
  shows "\<exists>calls ctx'. gc_mark_all cap rom_mark fin keep_atoms ctx = Some (calls, ctx') \<and>
    contiguous base (blocks ctx') lim \<and> merged (blocks ctx') \<and> (\<forall>b\<in>set (blocks ctx'). \<not> hb_mark b) \<and>
    heap_of (live_blocks (blocks ctx')) = collected rom_mark live ctx \<and>
    string_pos_cache ctx' = map (\<lambda>v. if live_val rom_mark live v then v else NonPtr) (string_pos_cache ctx) \<and>
    unique_strings ctx' = (if live_strings rom_mark live ctx = [] then NonPtr else unique_strings ctx) \<and>
    (\<forall>c\<in>set calls. \<exists>b\<in>set (blocks ctx). hb_addr b \<notin> live \<and> c \<in> set (finalizer_call fin b)) \<and>
    calls = concat (map (finalizer_call fin) (run_heads True (weak_blocks rom_mark live ctx)))"
proof -
  let ?heap = "heap_of (blocks ctx)" and ?roots = "gc_roots keep_atoms ctx"
  have ready: "closed_heap ?heap" "\<And>a. Ptr a \<in> set ?roots \<Longrightarrow> a \<in> dom ?heap" "\<forall>a\<in>live. ?heap a \<noteq> Some JS_MTAG_FREE"
    using assms(1) by (auto simp: gc_ready_def live_def)
  obtain s where s: "gc_mark_blocks cap ?heap (map hb_addr (blocks ctx)) ?roots = Some s" "marked s = live"
    using gc_mark_blocks_ok [OF ready(1) _ ready(2) assms(2), of "map hb_addr (blocks ctx)"] unfolding live_def
    by (auto simp: dom_heap_of)
  have sub: "live \<subseteq> dom ?heap"
    unfolding live_def using ready(1,2) by (rule reachable_dom)
  obtain n bs where bs: "update_unique_strings rom_mark (ctx\<lparr>blocks := set_marks live (blocks ctx)\<rparr>) =
        Some (ctx\<lparr>unique_strings_len := n, blocks := bs,
          unique_strings := (if live_strings rom_mark live ctx = [] then NonPtr else unique_strings ctx)\<rparr>)"
      "contiguous base bs lim" "heap_of (filter hb_mark bs) = collected rom_mark live ctx"
      "\<forall>v\<in>set (string_pos_cache ctx). gc_mb_is_marked rom_mark bs v = live_val rom_mark live v"
      "\<forall>b\<in>set bs. \<not> hb_mark b \<longrightarrow> b \<in> set (set_marks live (blocks ctx)) \<or> hb_block b = JS_MTAG_FREE"
      "bs = weak_blocks rom_mark live ctx"
    using update_unique_strings_ok [OF assms(1) live_def [THEN meta_eq_to_obj_eq] sub] by blast
  obtain calls r where r: "sweep fin bs = (calls, r)"
    by fastforce
  have "hb_block b \<noteq> JS_MTAG_FREE" if "b \<in> set bs" "hb_mark b" for b
  proof -
    have "collected rom_mark live ctx (hb_addr b) = Some (hb_block b)"
      using heap_of_filter [OF bs(2) that] bs(3) by simp
    then show ?thesis
      using ready(3) by (auto simp: collected_def restrict_map_def split: if_splits gcval.splits)
  qed
  from sweep_spec [OF bs(2) this r]
  have sw: "contiguous base r lim \<and> merged r \<and> (\<forall>b\<in>set r. \<not> hb_mark b)"
      "live_blocks r = map (\<lambda>b. b\<lparr>hb_mark := False\<rparr>) (filter hb_mark bs)"
      "calls = concat (map (finalizer_call fin) (run_heads True bs))"
    by auto
  let ?cache = "map (\<lambda>v. if live_val rom_mark live v then v else NonPtr) (string_pos_cache ctx)"
  have "gc_mark_all cap rom_mark fin keep_atoms ctx =
      Some (calls, ctx\<lparr>unique_strings_len := n, blocks := r,
        unique_strings := (if live_strings rom_mark live ctx = [] then NonPtr else unique_strings ctx),
        string_pos_cache := ?cache\<rparr>)"
    using s bs(1,4) r by (auto simp: gc_mark_all_def update_string_pos_cache_def Let_def)
  moreover have "heap_of (live_blocks r) = collected rom_mark live ctx"
    using sw(2) bs(3) by (simp add: heap_of_unmark)
  moreover have "\<exists>b\<in>set (blocks ctx). hb_addr b \<notin> live \<and> c \<in> set (finalizer_call fin b)" if c: "c \<in> set calls" for c
  proof -
    obtain b where b: "b \<in> set bs" "\<not> hb_mark b" "c \<in> set (finalizer_call fin b)"
      using c sw(3) run_heads_dead by fastforce
    then have "b \<in> set (set_marks live (blocks ctx))"
      using bs(5) by (auto simp: finalizer_call_def)
    then obtain b0 where "b0 \<in> set (blocks ctx)" "b = b0\<lparr>hb_mark := hb_addr b0 \<in> live\<rparr>"
      by (auto simp: set_marks_def)
    with b show ?thesis
      by (intro bexI [of _ b0]) (auto simp: finalizer_call_def)
  qed
  ultimately show ?thesis
    using sw(1,3) bs(6) by auto
qed

text \<open>
  A heap with a live array and two dead objects of an embedding class: only the first one is finalized.
\<close>

definition sample_ctx :: GCContext where
  "sample_ctx =
     \<lparr>atom_blocks = None, context_values = [Ptr 0], stack_values = [], top_gc_ref = [], last_gc_ref = [],
      parse_state = None, unique_strings = NonPtr, unique_strings_len = 0, string_pos_cache = [],
      blocks =
        [\<lparr>hb_addr = 0, hb_size = 2, hb_block = JS_MTAG_VALUE_ARRAY [NonPtr], hb_mark = False\<rparr>,
         \<lparr>hb_addr = 2, hb_size = 4, hb_block = JS_MTAG_OBJECT NonPtr NonPtr (JS_CLASS_USER 0 7), hb_mark = False\<rparr>,
         \<lparr>hb_addr = 6, hb_size = 4, hb_block = JS_MTAG_OBJECT NonPtr NonPtr (JS_CLASS_USER 0 8), hb_mark = False\<rparr>]\<rparr>"

theorem gc_mark_all_correct_witness:
  "\<exists>ctx'. gc_mark_all 2 False (\<lambda>c. True) False sample_ctx = Some ([(0, 7)], ctx') \<and> contiguous 0 (blocks ctx') 10 \<and>
    merged (blocks ctx')"
proof -
  let ?heap = "heap_of (blocks sample_ctx)"
  have heap: "?heap = [0 \<mapsto> JS_MTAG_VALUE_ARRAY [NonPtr], 2 \<mapsto> JS_MTAG_OBJECT NonPtr NonPtr (JS_CLASS_USER 0 7),
      6 \<mapsto> JS_MTAG_OBJECT NonPtr NonPtr (JS_CLASS_USER 0 8)]"
    by (simp add: sample_ctx_def heap_of_Cons fun_eq_iff)
  have roots: "gc_roots False sample_ctx = [Ptr 0]"
    by (simp add: sample_ctx_def gc_roots_def)
  have "a = 0" if "a \<in> reachable ?heap [Ptr 0]" for a
    using that unfolding heap by (induction rule: reachable.induct) (auto split: if_splits)
  then have live: "reachable ?heap [Ptr 0] = {0}"
    by (auto intro: reachable.root)
  have "closed_heap ?heap"
    unfolding heap by (auto simp: closed_heap_def split: if_splits)
  then have "gc_ready 0 10 False sample_ctx"
    unfolding gc_ready_def roots live by (simp add: heap) (simp add: sample_ctx_def)
  from gc_mark_all_correct [OF this, of 2 False "\<lambda>c. True"] show ?thesis
    unfolding roots live by (auto simp: sample_ctx_def set_marks_def finalizer_call_def weak_blocks_def)
qed

end
