(* ===== verification/JSGCCompact.thy ===== *)
theory JSGCCompact
  imports Prelude
begin

section \<open>Compaction of the garbage collector\<close>

text \<open>
  Models \<^verbatim>\<open>gc_compact_heap\<close> of \<^verbatim>\<open>mquickjs.c\<close>, up to the rehashing of the properties: the sliding
  compaction by pointer threading.  Memory is a function from word addresses to words, of 64 bits; a word is a block
  header, a pointer into the heap, a pointer to read-only memory or anything else.  Headers are never taken for pointers
  (their mark bit is clear).  A header carries the fields that \<^verbatim>\<open>get_mblock_size\<close> and
  \<^verbatim>\<open>gc_thread_block\<close> read; it is read once per block, which is what the code does as long as no block
  refers to itself directly.  Following a word that is not a heap pointer, or sizing a word that is not a header, is
  \<open>None\<close>.
\<close>

subsection \<open>Blocks\<close>

datatype class_kind =
    CClosure | CFunction | CArray | CError | CArrayBuffer | CTypedArray | CRegExp | COther

datatype header =
    HObject class_kind nat
  | HFloat64
  | HString nat
  | HByteArray nat
  | HValueArray nat
  | HFree nat
  | HVarRef bool
  | HFunctionBytecode

datatype mword = Hdr header | Plain nat | RomPtr nat | HeapPtr nat

type_synonym memory = "nat \<Rightarrow> mword"

fun is_ptr :: "mword \<Rightarrow> bool" where
  "is_ptr (HeapPtr a) = True"
| "is_ptr (RomPtr a) = True"
| "is_ptr w = False"

fun header_size :: "header \<Rightarrow> nat" where
  "header_size (HObject class_id extra_size) = 3 + extra_size"
| "header_size HFloat64 = 2"
| "header_size (HString len) = 1 + (len + 8) div 8"
| "header_size (HByteArray sz) = 1 + (sz + 7) div 8"
| "header_size (HValueArray sz) = 1 + sz"
| "header_size (HFree sz) = 1 + sz"
| "header_size (HVarRef is_detached) = (if is_detached then 2 else 3)"
| "header_size HFunctionBytecode = 10"

definition get_mblock_size :: "mword \<Rightarrow> nat option" where
  "get_mblock_size w = (case w of Hdr h \<Rightarrow> Some (header_size h) | _ \<Rightarrow> None)"

fun is_free :: "mword \<Rightarrow> bool" where
  "is_free (Hdr (HFree sz)) = True"
| "is_free w = False"

fun class_slots :: "class_kind \<Rightarrow> nat \<Rightarrow> nat list" where
  "class_slots CClosure extra_size = 3 # map (\<lambda>i. 4 + i) [0..<extra_size - 1]"
| "class_slots CFunction extra_size = (if extra_size > 1 then [4] else [])"
| "class_slots CArray extra_size = [3]"
| "class_slots CError extra_size = [3, 4]"
| "class_slots CArrayBuffer extra_size = [3]"
| "class_slots CTypedArray extra_size = [3]"
| "class_slots CRegExp extra_size = [3, 4]"
| "class_slots COther extra_size = []"

fun header_slots :: "header \<Rightarrow> nat list" where
  "header_slots (HObject class_id extra_size) = 1 # 2 # class_slots class_id extra_size"
| "header_slots (HValueArray sz) = map (\<lambda>i. 1 + i) [0..<sz]"
| "header_slots (HVarRef is_detached) = [1]"
| "header_slots HFunctionBytecode = [1, 2, 3, 4, 5, 7, 8]"
| "header_slots h = []"

subsection \<open>Threading\<close>

definition gc_thread_pointer :: "memory \<Rightarrow> nat \<Rightarrow> memory" where
  "gc_thread_pointer m pval = (case m pval of HeapPtr p \<Rightarrow> m(pval := m p, p := HeapPtr pval) | _ \<Rightarrow> m)"

partial_function (option) unthread :: "memory \<Rightarrow> mword \<Rightarrow> nat \<Rightarrow> (memory \<times> mword) option" where
  "unthread m val new_ptr =
     (case val of
        HeapPtr pv \<Rightarrow>
          let val' = m pv; m' = m(pv := HeapPtr new_ptr)
          in if is_ptr val' then unthread m' val' new_ptr else Some (m', val')
      | _ \<Rightarrow> None)"

definition gc_update_threaded_pointers :: "memory \<Rightarrow> nat \<Rightarrow> nat \<Rightarrow> memory option" where
  "gc_update_threaded_pointers m p new_ptr =
     (if is_ptr (m p) then Option.bind (unthread m (m p) new_ptr) (\<lambda>(m', val). Some (m'(p := val))) else Some m)"

definition gc_thread_block :: "memory \<Rightarrow> nat \<Rightarrow> memory" where
  "gc_thread_block m p =
     (case m p of Hdr h \<Rightarrow> foldl gc_thread_pointer m (map (\<lambda>i. p + i) (header_slots h)) | _ \<Rightarrow> m)"

definition memmove :: "memory \<Rightarrow> nat \<Rightarrow> nat \<Rightarrow> nat \<Rightarrow> memory" where
  "memmove m dst src sz = (\<lambda>x. if dst \<le> x \<and> x < dst + sz then m (src + (x - dst)) else m x)"

partial_function (option) compact_pass1 :: "nat \<Rightarrow> memory \<Rightarrow> nat \<Rightarrow> nat \<Rightarrow> memory option" where
  "compact_pass1 heap_free m p new_ptr =
     (if p < heap_free
      then Option.bind (gc_update_threaded_pointers m p new_ptr) (\<lambda>m1.
           Option.bind (get_mblock_size (m1 p)) (\<lambda>sz.
             if \<not> is_free (m1 p)
             then compact_pass1 heap_free (gc_thread_block m1 p) (p + sz) (new_ptr + sz)
             else compact_pass1 heap_free m1 (p + sz) new_ptr))
      else Some m)"

partial_function (option) compact_pass2 :: "nat \<Rightarrow> memory \<Rightarrow> nat \<Rightarrow> nat \<Rightarrow> (memory \<times> nat) option" where
  "compact_pass2 heap_free m p new_ptr =
     (if p < heap_free
      then Option.bind (gc_update_threaded_pointers m p new_ptr) (\<lambda>m1.
           Option.bind (get_mblock_size (m1 p)) (\<lambda>sz.
             if \<not> is_free (m1 p)
             then compact_pass2 heap_free (if new_ptr \<noteq> p then memmove m1 new_ptr p sz else m1)
                    (p + sz) (new_ptr + sz)
             else compact_pass2 heap_free m1 (p + sz) new_ptr))
      else Some (m, new_ptr))"

text \<open>
  \<open>ext\<close> are the addresses of the pointers outside the heap: those of the context, the position cache, the value
  stack, the references of C code and the parser.
\<close>

definition gc_compact_heap :: "nat \<Rightarrow> nat \<Rightarrow> nat list \<Rightarrow> memory \<Rightarrow> (memory \<times> nat) option" where
  "gc_compact_heap heap_base heap_free ext m =
     Option.bind (compact_pass1 heap_free (foldl gc_thread_pointer m ext) heap_base heap_base) (\<lambda>m1.
       compact_pass2 heap_free m1 heap_base heap_base)"

subsection \<open>Chains\<close>

text \<open>
  \<open>chain m w xs h\<close>: following the word \<open>w\<close> leads through the slots \<open>xs\<close> to the header \<open>h\<close>.
\<close>

fun chain :: "memory \<Rightarrow> mword \<Rightarrow> nat list \<Rightarrow> mword \<Rightarrow> bool" where
  "chain m w [] h \<longleftrightarrow> w = h"
| "chain m w (x # xs) h \<longleftrightarrow> w = HeapPtr x \<and> chain m (m x) xs h"

lemma chain_cong: "(\<And>x. x \<in> set xs \<Longrightarrow> m x = m' x) \<Longrightarrow> chain m w xs h = chain m' w xs h"
  by (induction xs arbitrary: w) auto

definition threaded_by :: "nat set \<Rightarrow> nat set \<Rightarrow> memory \<Rightarrow> (nat \<Rightarrow> nat list) \<Rightarrow> nat set \<Rightarrow> memory \<Rightarrow> bool" where
  "threaded_by X H A C T m \<longleftrightarrow>
     (\<forall>p\<in>H. chain m (m p) (C p) (A p) \<and> \<not> is_ptr (A p) \<and> distinct (C p)) \<and>
     (\<forall>p\<in>H. set (C p) = {s \<in> T. A s = HeapPtr p}) \<and>
     T \<subseteq> X - H \<and> (\<forall>s\<in>T. \<exists>p\<in>H. A s = HeapPtr p) \<and> (\<forall>x\<in>X - H - T. m x = A x)"

text \<open>
  \<open>threaded X H A T m\<close>: in the region \<open>X\<close>, \<open>m\<close> stands for the memory \<open>A\<close> with the slots \<open>T\<close> threaded
  to the headers \<open>H\<close> that they point to.
\<close>

definition threaded :: "nat set \<Rightarrow> nat set \<Rightarrow> memory \<Rightarrow> nat set \<Rightarrow> memory \<Rightarrow> bool" where
  "threaded X H A T m \<longleftrightarrow> (\<exists>C. threaded_by X H A C T m)"

lemma thread_pointer_ok:
  assumes "threaded X H A T m" "s \<in> X - H - T" "A s = HeapPtr p" "p \<in> H"
  shows "threaded X H A (insert s T) (gc_thread_pointer m s)"
proof -
  obtain C where C: "threaded_by X H A C T m"
    using assms(1) by (auto simp: threaded_def)
  let ?m = "m(s := m p, p := HeapPtr s)"
  have ms: "m s = HeapPtr p"
    using C assms(2,3) by (auto simp: threaded_by_def)
  have notin: "s \<notin> set (C q)" "p \<notin> set (C q)" if "q \<in> H" for q
    using C that assms(2,4) unfolding threaded_by_def by blast+
  have "chain ?m w (C q) h = chain m w (C q) h" if "q \<in> H" for q w h
    using notin [OF that] by (intro chain_cong) auto
  then have "threaded_by X H A (C(p := s # C p)) (insert s T) ?m"
    using C assms(2,3,4) notin [OF assms(4)] unfolding threaded_by_def by auto
  then show ?thesis
    using ms by (auto simp: threaded_def gc_thread_pointer_def)
qed

lemma unthread_chain:
  assumes "chain m w xs h" "distinct xs" "xs \<noteq> []" "\<not> is_ptr h"
  shows "unthread m w n = Some (\<lambda>x. if x \<in> set xs then HeapPtr n else m x, h)"
  using assms
proof (induction xs arbitrary: m w)
  case (Cons x xs)
  let ?m = "m(x := HeapPtr n)"
  show ?case
  proof (cases "xs = []")
    case True
    then show ?thesis
      using Cons.prems by (subst unthread.simps) (auto simp: Let_def fun_eq_iff)
  next
    case False
    then obtain y ys where y: "xs = y # ys"
      by (cases xs) auto
    have "chain ?m (m x) xs h"
      using Cons.prems by (subst chain_cong [of _ ?m m]) auto
    moreover have "distinct xs"
      using Cons.prems(2) by simp
    ultimately have "unthread ?m (m x) n = Some (\<lambda>z. if z \<in> set xs then HeapPtr n else ?m z, h)"
      using False Cons.prems(4) by (rule Cons.IH)
    moreover have "unthread m w n = unthread ?m (m x) n"
      using Cons.prems(1) y by (subst unthread.simps) (auto simp: Let_def)
    ultimately show ?thesis
      by (auto simp: fun_eq_iff)
  qed
qed simp

lemma update_threaded_ok:
  assumes "threaded X H A T m" "p \<in> H"
  defines "Q \<equiv> {s \<in> T. A s = HeapPtr p}"
  shows "\<exists>m'. gc_update_threaded_pointers m p n = Some m' \<and> m' p = A p \<and>
    threaded X H (\<lambda>s. if s \<in> Q then HeapPtr n else A s) (T - Q) m' \<and> (\<forall>x. x \<notin> insert p Q \<longrightarrow> m' x = m x)"
proof -
  obtain C where C: "threaded_by X H A C T m"
    using assms(1) by (auto simp: threaded_def)
  then have p: "chain m (m p) (C p) (A p)" "\<not> is_ptr (A p)" "distinct (C p)" "set (C p) = Q"
    using assms(2) by (auto simp: threaded_by_def Q_def)
  let ?m = "\<lambda>x. if x = p then A p else if x \<in> Q then HeapPtr n else m x"
  have eq: "gc_update_threaded_pointers m p n = Some ?m"
  proof (cases "C p")
    case Nil
    then show ?thesis
      using p by (auto simp: gc_update_threaded_pointers_def fun_eq_iff)
  next
    case (Cons x xs)
    then show ?thesis
      using unthread_chain [OF p(1,3) _ p(2), of n] p by (auto simp: gc_update_threaded_pointers_def fun_eq_iff)
  qed
  have sets: "set (C q) \<inter> Q = {}" "p \<notin> set (C q)" if "q \<in> H" "q \<noteq> p" for q
    using C that assms(2) unfolding threaded_by_def Q_def by fastforce+
  have "chain ?m w (C q) h = chain m w (C q) h" if "q \<in> H" "q \<noteq> p" for q w h
    using sets [OF that] by (intro chain_cong) auto
  moreover have QH: "Q \<inter> H = {}" "Q \<subseteq> T"
    using C by (auto simp: threaded_by_def Q_def)
  ultimately have "threaded_by X H (\<lambda>s. if s \<in> Q then HeapPtr n else A s) (C(p := [])) (T - Q) ?m"
    using C assms(2) p sets unfolding threaded_by_def by (auto simp: Q_def)
  then show ?thesis
    using eq QH assms(2) by (auto simp: threaded_def)
qed

lemma thread_list_ok:
  assumes "threaded X H A T m" "distinct xs" "set xs \<subseteq> X - H - T"
    "\<And>s p. s \<in> set xs \<Longrightarrow> A s = HeapPtr p \<Longrightarrow> p \<in> H"
  shows "threaded X H A (T \<union> {s \<in> set xs. \<exists>p. A s = HeapPtr p}) (foldl gc_thread_pointer m xs)"
  using assms
proof (induction xs arbitrary: T m)
  case Nil
  then show ?case
    by simp
next
  case (Cons s xs)
  show ?case
  proof (cases "\<exists>p. A s = HeapPtr p")
    case True
    then obtain p where p: "A s = HeapPtr p" "p \<in> H"
      using Cons.prems(4) by auto
    have "threaded X H A (insert s T) (gc_thread_pointer m s)"
      using Cons.prems(1,3) p by (intro thread_pointer_ok) auto
    from Cons.IH [OF this] Cons.prems
    have "threaded X H A (insert s T \<union> {s \<in> set xs. \<exists>p. A s = HeapPtr p}) (foldl gc_thread_pointer (gc_thread_pointer m s) xs)"
      by auto
    moreover have "insert s T \<union> {s \<in> set xs. \<exists>p. A s = HeapPtr p} = T \<union> {x \<in> set (s # xs). \<exists>p. A x = HeapPtr p}"
      using True by auto
    ultimately show ?thesis
      by simp
  next
    case False
    have "m s = A s"
      using Cons.prems(1,3) by (auto simp: threaded_def threaded_by_def)
    then have "gc_thread_pointer m s = m"
      using False by (auto simp: gc_thread_pointer_def split: mword.splits)
    moreover have "{x \<in> set (s # xs). \<exists>p. A x = HeapPtr p} = {x \<in> set xs. \<exists>p. A x = HeapPtr p}"
      using False by auto
    ultimately show ?thesis
      using Cons.IH [OF Cons.prems(1)] Cons.prems by auto
  qed
qed

subsection \<open>Relocation\<close>

fun layout :: "memory \<Rightarrow> nat \<Rightarrow> nat \<Rightarrow> nat list \<Rightarrow> bool" where
  "layout M p lim [] \<longleftrightarrow> p = lim"
| "layout M p lim (q # qs) \<longleftrightarrow> q = p \<and> (\<exists>h. M p = Hdr h \<and> layout M (p + header_size h) lim qs)"

definition live_size :: "mword \<Rightarrow> nat" where
  "live_size w = (case w of Hdr h \<Rightarrow> if is_free w then 0 else header_size h | _ \<Rightarrow> 0)"

fun dest :: "memory \<Rightarrow> nat \<Rightarrow> nat list \<Rightarrow> nat \<Rightarrow> nat" where
  "dest M n [] q = n"
| "dest M n (p # ps) q = (if q = p then n else dest M (n + live_size (M p)) ps q)"

definition slots_of :: "memory \<Rightarrow> nat set \<Rightarrow> nat set" where
  "slots_of M H = {s. \<exists>p\<in>H. \<exists>h. M p = Hdr h \<and> (\<exists>i\<in>set (header_slots h). s = p + i)}"

text \<open>
  The memory \<open>M\<close> with the pointers in the slots \<open>S\<close> that \<open>R\<close> holds for replaced by their destinations.
\<close>

definition relocated :: "memory \<Rightarrow> (nat \<Rightarrow> nat) \<Rightarrow> nat set \<Rightarrow> (nat \<Rightarrow> nat \<Rightarrow> bool) \<Rightarrow> memory" where
  "relocated M D S R = (\<lambda>x. case M x of HeapPtr q \<Rightarrow> if x \<in> S \<and> R x q then HeapPtr (D q) else M x | _ \<Rightarrow> M x)"

definition open_slots :: "memory \<Rightarrow> nat set \<Rightarrow> (nat \<Rightarrow> nat \<Rightarrow> bool) \<Rightarrow> nat set" where
  "open_slots M S R = {s \<in> S. \<exists>q. M s = HeapPtr q \<and> \<not> R s q}"

lemma relocated_open: "s \<in> open_slots M S R \<Longrightarrow> relocated M D S R s = M s"
  by (auto simp: open_slots_def relocated_def)

lemma update_relocated:
  assumes thr: "threaded X H (relocated M D S R) T m" and p: "p \<in> H" "M p = Hdr h" and T: "T \<subseteq> open_slots M S R"
    and R': "\<And>s q. s \<in> S \<Longrightarrow> M s = HeapPtr q \<Longrightarrow> R' s q \<longleftrightarrow> R s q \<or> q = p \<and> s \<in> T"
  shows "\<exists>m'. gc_update_threaded_pointers m p (D p) = Some m' \<and> m' p = Hdr h \<and>
    threaded X H (relocated M D S R') {s \<in> T. M s \<noteq> HeapPtr p} m' \<and>
    (\<forall>x. x \<noteq> p \<and> x \<notin> T \<longrightarrow> m' x = m x)"
proof -
  let ?A = "relocated M D S R" and ?Q = "{s \<in> T. relocated M D S R s = HeapPtr p}"
  have Q: "?Q = {s \<in> T. M s = HeapPtr p}"
    using T relocated_open [of _ M S R D] by auto
  have "?A p = Hdr h"
    using p(2) by (simp add: relocated_def)
  moreover have "(\<lambda>s. if s \<in> ?Q then HeapPtr (D p) else ?A s) = relocated M D S R'"
  proof
    fix s
    show "(if s \<in> ?Q then HeapPtr (D p) else ?A s) = relocated M D S R' s"
      unfolding Q using T R' [of s]
      by (cases "M s") (auto simp: relocated_def open_slots_def)
  qed
  moreover have "T - ?Q = {s \<in> T. M s \<noteq> HeapPtr p}"
    unfolding Q by auto
  ultimately show ?thesis
    using update_threaded_ok [OF thr p(1), of "D p"] by auto
qed

lemma header_size_pos: "0 < header_size h"
  by (cases h) auto

lemma distinct_slots: "distinct (header_slots h)"
proof (cases h)
  case (HObject c n)
  then show ?thesis
    by (cases c) (auto simp: distinct_map inj_on_def)
qed (auto simp: distinct_map inj_on_def)

lemma layout_ge: "layout M p lim ps \<Longrightarrow> q \<in> set ps \<Longrightarrow> p \<le> q \<and> (\<exists>h. M q = Hdr h \<and> q + header_size h \<le> lim)"
  and layout_lim: "layout M p lim ps \<Longrightarrow> p \<le> lim"
proof (induction ps arbitrary: p)
  case (Cons a ps)
  {
    case 1
    then obtain h where h: "M p = Hdr h" "layout M (p + header_size h) lim ps" "a = p"
      by auto
    then show ?case
      using Cons.IH(1) [OF h(2)] Cons.IH(2) [OF h(2)] 1(2) by (cases "q = p") auto
  next
    case 2
    then show ?case
      using Cons.IH(2) by fastforce
  }
qed auto

lemma layout_sep:
  "layout M p lim ps \<Longrightarrow> a \<in> set ps \<Longrightarrow> b \<in> set ps \<Longrightarrow> a < b \<Longrightarrow> M a = Hdr h \<Longrightarrow> a + header_size h \<le> b"
proof (induction ps arbitrary: p)
  case (Cons c ps)
  then obtain k where k: "M p = Hdr k" "layout M (p + header_size k) lim ps" "c = p"
    by auto
  have "a \<in> set ps \<Longrightarrow> b \<in> set ps \<Longrightarrow> ?case"
    using Cons.IH [OF k(2)] Cons.prems by blast
  moreover have "p < b \<Longrightarrow> b \<in> set ps"
    using Cons.prems(3) k(3) by auto
  ultimately show ?case
    using Cons.prems k layout_ge [OF k(2)] by fastforce
qed simp

text \<open>
  What compaction relies on: blocks without gaps, references inside their blocks and to blocks, no block that refers to
  itself, and the external pointers outside the heap.
\<close>

definition all_slots :: "memory \<Rightarrow> nat list \<Rightarrow> nat list \<Rightarrow> nat set" where
  "all_slots M ext bs = set ext \<union> slots_of M (set bs)"

definition compact_wf :: "memory \<Rightarrow> nat \<Rightarrow> nat \<Rightarrow> nat list \<Rightarrow> nat list \<Rightarrow> bool" where
  "compact_wf M base lim ext bs \<longleftrightarrow>
     layout M base lim bs \<and>
     (\<forall>p\<in>set bs. \<forall>h. M p = Hdr h \<longrightarrow>
        (\<forall>i\<in>set (header_slots h). 0 < i \<and> i < header_size h \<and> M (p + i) \<noteq> HeapPtr p)) \<and>
     distinct ext \<and> (\<forall>e\<in>set ext. e < base \<or> lim \<le> e) \<and>
     (\<forall>s\<in>all_slots M ext bs. \<forall>q. M s = HeapPtr q \<longrightarrow> q \<in> set bs)"

lemma wf_block:
  assumes "compact_wf M base lim ext bs" "p \<in> set bs"
  obtains h where "M p = Hdr h" "base \<le> p" "p + header_size h \<le> lim"
  using assms layout_ge [of M base lim bs p] by (auto simp: compact_wf_def)

lemma wf_sep:
  "compact_wf M base lim ext bs \<Longrightarrow> p \<in> set bs \<Longrightarrow> q \<in> set bs \<Longrightarrow> M p = Hdr h \<Longrightarrow> q < p + header_size h \<Longrightarrow> q \<le> p"
  using layout_sep [of M base lim bs p q h] by (fastforce simp: compact_wf_def)

lemma wf_ptr: "compact_wf M base lim ext bs \<Longrightarrow> s \<in> all_slots M ext bs \<Longrightarrow> M s = HeapPtr q \<Longrightarrow> q \<in> set bs"
  by (auto simp: compact_wf_def)

lemma wf_field:
  assumes "compact_wf M base lim ext bs" "s \<in> slots_of M (set bs)"
  obtains p h i where "p \<in> set bs" "M p = Hdr h" "i \<in> set (header_slots h)" "s = p + i" "0 < i" "i < header_size h"
  using assms by (fastforce simp: compact_wf_def slots_of_def)

lemma wf_ext:
  assumes "compact_wf M base lim ext bs" "p \<in> set bs" "M p = Hdr h" "p \<le> s" "s < p + header_size h"
  shows "s \<notin> set ext"
proof -
  obtain k where "M p = Hdr k" "base \<le> p" "p + header_size k \<le> lim"
    using wf_block [OF assms(1,2)] .
  with assms have "\<not> (s < base \<or> lim \<le> s)"
    by simp
  with assms(1) show ?thesis
    unfolding compact_wf_def by blast
qed

lemma wf_ext':
  assumes "compact_wf M base lim ext bs" "p \<in> set bs" "M p = Hdr h" "x \<in> set ext"
  shows "x < base \<or> p + header_size h \<le> x"
proof -
  obtain k where "M p = Hdr k" "base \<le> p" "p + header_size k \<le> lim"
    using wf_block [OF assms(1,2)] .
  moreover have "x < base \<or> lim \<le> x"
    using assms(1,4) unfolding compact_wf_def by blast
  ultimately show ?thesis
    using assms(3) by auto
qed

lemma wf_inside:
  assumes "compact_wf M base lim ext bs" "p \<in> set bs" "M p = Hdr h"
  shows "{s \<in> all_slots M ext bs. p \<le> s \<and> s < p + header_size h} = (\<lambda>i. p + i) ` set (header_slots h)"
proof (intro equalityI subsetI)
  fix s
  assume s: "s \<in> {s \<in> all_slots M ext bs. p \<le> s \<and> s < p + header_size h}"
  have "s \<notin> set ext"
    using wf_ext [OF assms] s by auto
  with s have "s \<in> slots_of M (set bs)"
    by (auto simp: all_slots_def)
  from wf_field [OF assms(1) this] obtain q k i where
      q: "q \<in> set bs" "M q = Hdr k" "i \<in> set (header_slots k)" "s = q + i" "i < header_size k"
    by metis
  have "q \<le> p" "p \<le> q"
    using wf_sep [OF assms(1,2) q(1) assms(3)] wf_sep [OF assms(1) q(1) assms(2) q(2)] s q(4,5) by auto
  with q assms(3) show "s \<in> (\<lambda>i. p + i) ` set (header_slots h)"
    by auto
next
  fix s
  assume "s \<in> (\<lambda>i. p + i) ` set (header_slots h)"
  then obtain i where i: "i \<in> set (header_slots h)" "s = p + i"
    by auto
  moreover have "i < header_size h"
    using assms i(1) unfolding compact_wf_def by blast
  ultimately show "s \<in> {s \<in> all_slots M ext bs. p \<le> s \<and> s < p + header_size h}"
    using assms(2,3) by (auto simp: all_slots_def slots_of_def)
qed

lemma wf_slot_header:
  assumes "compact_wf M base lim ext bs" "s \<in> all_slots M ext bs"
  shows "s \<notin> set bs"
proof
  assume s: "s \<in> set bs"
  obtain h where h: "M s = Hdr h" "base \<le> s" "s + header_size h \<le> lim"
    using wf_block [OF assms(1) s] .
  have "s \<in> slots_of M (set bs)"
    using assms h header_size_pos [of h] by (fastforce simp: all_slots_def compact_wf_def)
  then show False
    using wf_field [OF assms(1)] wf_sep [OF assms(1) _ s] by (metis add_less_cancel_left less_add_same_cancel1 linorder_not_less)
qed

definition pass1_done :: "nat list \<Rightarrow> nat \<Rightarrow> nat \<Rightarrow> nat \<Rightarrow> bool" where
  "pass1_done ext p = (\<lambda>s q. (s \<in> set ext \<or> s < q) \<and> q < p)"

definition pass1_open :: "memory \<Rightarrow> nat list \<Rightarrow> nat list \<Rightarrow> nat \<Rightarrow> nat set" where
  "pass1_open M ext bs p = {s \<in> open_slots M (all_slots M ext bs) (pass1_done ext p). s \<in> set ext \<or> s < p}"

lemma pass1_open_step:
  assumes "compact_wf M base lim ext bs" "p \<in> set bs" "M p = Hdr h"
  shows "pass1_open M ext bs (p + header_size h) =
    {s \<in> pass1_open M ext bs p. M s \<noteq> HeapPtr p} \<union> {s \<in> (\<lambda>i. p + i) ` set (header_slots h). \<exists>q. M s = HeapPtr q}"
proof (intro equalityI subsetI)
  fix s
  assume "s \<in> pass1_open M ext bs (p + header_size h)"
  then obtain q where q: "s \<in> all_slots M ext bs" "M s = HeapPtr q" "\<not> pass1_done ext (p + header_size h) s q"
      "s \<in> set ext \<or> s < p + header_size h"
    by (auto simp: pass1_open_def open_slots_def)
  show "s \<in> {s \<in> pass1_open M ext bs p. M s \<noteq> HeapPtr p} \<union> {s \<in> (\<lambda>i. p + i) ` set (header_slots h). \<exists>q. M s = HeapPtr q}"
  proof (cases "s \<in> set ext \<or> s < p")
    case True
    with q header_size_pos [of h] show ?thesis
      by (auto simp: pass1_open_def open_slots_def pass1_done_def)
  next
    case False
    with q wf_inside [OF assms] show ?thesis
      by auto
  qed
next
  fix s
  assume s: "s \<in> {s \<in> pass1_open M ext bs p. M s \<noteq> HeapPtr p} \<union> {s \<in> (\<lambda>i. p + i) ` set (header_slots h). \<exists>q. M s = HeapPtr q}"
  then have in_range: "s \<in> all_slots M ext bs" "s \<in> set ext \<or> s < p + header_size h"
    using wf_inside [OF assms] by (auto simp: pass1_open_def open_slots_def)
  from s obtain q where q: "M s = HeapPtr q"
    by (auto simp: pass1_open_def open_slots_def)
  then have qb: "q < p + header_size h \<Longrightarrow> q \<le> p"
    using wf_sep [OF assms(1,2) _ assms(3)] wf_ptr [OF assms(1) in_range(1)] by blast
  have "\<not> pass1_done ext (p + header_size h) s q"
  proof (cases "s \<in> pass1_open M ext bs p \<and> M s \<noteq> HeapPtr p")
    case True
    with q qb show ?thesis
      by (auto simp: pass1_open_def open_slots_def pass1_done_def)
  next
    case False
    with s have "s \<in> (\<lambda>i. p + i) ` set (header_slots h)"
      by auto
    then have "p \<le> s" "s < p + header_size h"
      using wf_inside [OF assms] by auto
    moreover have "s \<notin> set ext"
      using wf_ext [OF assms] calculation by auto
    ultimately show ?thesis
      using qb by (auto simp: pass1_done_def)
  qed
  with q in_range show "s \<in> pass1_open M ext bs (p + header_size h)"
    by (auto simp: pass1_open_def open_slots_def)
qed

lemma rest_blocks:
  assumes "set (a # ps) = {q \<in> set bs. p \<le> q}" "layout M (p + header_size h) lim ps" "a = p"
  shows "set ps = {q \<in> set bs. p + header_size h \<le> q}"
proof (intro equalityI subsetI)
  show "q \<in> {q \<in> set bs. p + header_size h \<le> q}" if "q \<in> set ps" for q
    using layout_ge [OF assms(2) that] assms(1) that by auto
  show "q \<in> set ps" if "q \<in> {q \<in> set bs. p + header_size h \<le> q}" for q
  proof -
    have "q \<in> set (a # ps)"
      using that unfolding assms(1) by auto
    with that header_size_pos [of h] assms(3) show ?thesis
      by auto
  qed
qed

lemma pass1_ok:
  assumes wf: "compact_wf M base lim ext bs"
    and "layout M p lim ps" "set ps = {q \<in> set bs. p \<le> q}" "\<And>q. q \<in> set ps \<Longrightarrow> D q = dest M n ps q"
    "threaded UNIV (set bs) (relocated M D (all_slots M ext bs) (pass1_done ext p)) (pass1_open M ext bs p) m"
  shows "\<exists>m'. compact_pass1 lim m p n = Some m' \<and>
    threaded UNIV (set bs) (relocated M D (all_slots M ext bs) (pass1_done ext lim)) (pass1_open M ext bs lim) m'"
  using assms(2-)
proof (induction ps arbitrary: p n m)
  case Nil
  then show ?case
    by (subst compact_pass1.simps) auto
next
  case (Cons a ps)
  let ?S = "all_slots M ext bs"
  obtain h where h: "M p = Hdr h" "layout M (p + header_size h) lim ps" "a = p"
    using Cons.prems(1) by auto
  have p: "p \<in> set bs" "p < lim"
    using Cons.prems(2) h(3) layout_lim [OF h(2)] header_size_pos [of h] by auto
  have Dp: "D p = n"
    using Cons.prems(3) [of p] h(3) by simp
  let ?p = "p + header_size h" and ?R = "pass1_done ext (p + header_size h)"
  have sub: "pass1_open M ext bs p \<subseteq> open_slots M ?S (pass1_done ext p)"
    by (auto simp: pass1_open_def)
  have R: "?R s q \<longleftrightarrow> pass1_done ext p s q \<or> q = p \<and> s \<in> pass1_open M ext bs p" if "s \<in> ?S" "M s = HeapPtr q" for s q
    using wf_sep [OF wf p(1) wf_ptr [OF wf that] h(1)] that header_size_pos [of h]
    by (auto simp: pass1_done_def pass1_open_def open_slots_def)
  obtain m1 where m1: "gc_update_threaded_pointers m p n = Some m1" "m1 p = Hdr h"
      "threaded UNIV (set bs) (relocated M D ?S ?R) {s \<in> pass1_open M ext bs p. M s \<noteq> HeapPtr p} m1"
    using update_relocated [OF Cons.prems(4) p(1) h(1) sub R] unfolding Dp by blast
  let ?fs = "map (\<lambda>i. p + i) (header_slots h)"
  have field: "s \<in> ?S \<and> p \<le> s \<and> s < ?p \<and> s \<notin> set ext" if "s \<in> set ?fs" for s
    using wf_inside [OF wf p(1) h(1)] wf_ext [OF wf p(1) h(1)] that by auto
  have A: "relocated M D ?S ?R s = M s" if "s \<in> set ?fs" for s
  proof (cases "M s")
    case (HeapPtr q)
    then show ?thesis
      using field [OF that] wf_sep [OF wf p(1) wf_ptr [OF wf, of s q] h(1)]
      by (auto simp: relocated_def pass1_done_def)
  qed (simp_all add: relocated_def)
  have "threaded UNIV (set bs) (relocated M D ?S ?R)
      ({s \<in> pass1_open M ext bs p. M s \<noteq> HeapPtr p} \<union> {s \<in> set ?fs. \<exists>q. relocated M D ?S ?R s = HeapPtr q})
      (foldl gc_thread_pointer m1 ?fs)"
  proof (rule thread_list_ok [OF m1(3)])
    show "distinct ?fs"
      using distinct_slots [of h] by (simp add: distinct_map)
    show "set ?fs \<subseteq> UNIV - set bs - {s \<in> pass1_open M ext bs p. M s \<noteq> HeapPtr p}"
      using field wf_slot_header [OF wf] by (fastforce simp: pass1_open_def)
    show "q \<in> set bs" if "s \<in> set ?fs" "relocated M D ?S ?R s = HeapPtr q" for s q
      using that A field wf_ptr [OF wf] by metis
  qed
  moreover have "{s \<in> set ?fs. \<exists>q. relocated M D ?S ?R s = HeapPtr q} = {s \<in> (\<lambda>i. p + i) ` set (header_slots h). \<exists>q. M s = HeapPtr q}"
    using A by auto
  ultimately have next_state: "threaded UNIV (set bs) (relocated M D ?S ?R) (pass1_open M ext bs ?p) (foldl gc_thread_pointer m1 ?fs)"
    by (simp add: pass1_open_step [OF wf p(1) h(1)])
  have rest: "set ps = {q \<in> set bs. ?p \<le> q}"
    by (rule rest_blocks [OF Cons.prems(2) h(2,3)])
  have Dps: "D q = dest M (n + live_size (M p)) ps q" if "q \<in> set ps" for q
    using Cons.prems(3) [of q] that rest h(3) header_size_pos [of h] by auto
  have "compact_pass1 lim m p n = compact_pass1 lim (foldl gc_thread_pointer m1 ?fs) ?p (n + live_size (M p))"
  proof (cases "is_free (M p)")
    case True
    then obtain k where "h = HFree k"
      using h(1) by (cases h) auto
    then show ?thesis
      using p(2) m1 h(1) by (subst compact_pass1.simps) (simp add: get_mblock_size_def live_size_def)
  next
    case False
    then show ?thesis
      using p(2) m1 h(1) by (subst compact_pass1.simps) (simp add: get_mblock_size_def live_size_def gc_thread_block_def)
  qed
  with Cons.IH [OF h(2) rest Dps next_state] show ?case
    by simp
qed

lemma threaded_restrict:
  assumes "threaded X H A T m" "X' \<subseteq> X" "H' \<subseteq> H" "H' \<subseteq> X'" "X' \<inter> H \<subseteq> H'" "T \<subseteq> X'"
    "\<And>s. s \<in> T \<Longrightarrow> \<exists>q\<in>H'. A s = HeapPtr q" "\<And>x. x \<in> X' \<Longrightarrow> m' x = m x"
  shows "threaded X' H' A T m'"
proof -
  obtain C where C: "threaded_by X H A C T m"
    using assms(1) by (auto simp: threaded_def)
  have "set (C q) \<subseteq> X'" if "q \<in> H'" for q
    using C that assms(3,6) unfolding threaded_by_def by blast
  then have "chain m' w (C q) h = chain m w (C q) h" if "q \<in> H'" for q w h
    using that assms(8) by (intro chain_cong) auto
  moreover have "m' q = m q" if "q \<in> H'" for q
    using assms(4,8) that by auto
  ultimately have "\<forall>q\<in>H'. chain m' (m' q) (C q) (A q) \<and> \<not> is_ptr (A q) \<and> distinct (C q)"
    using C assms(3) unfolding threaded_by_def by (metis subsetD)
  moreover have "\<forall>q\<in>H'. set (C q) = {s \<in> T. A s = HeapPtr q}" "T \<subseteq> X' - H'"
    using C assms(3,6) unfolding threaded_by_def by blast+
  moreover have "m' x = A x" if "x \<in> X' - H' - T" for x
  proof -
    have "x \<in> X - H - T"
      using that assms(2,5) by auto
    with C have "m x = A x"
      unfolding threaded_by_def by blast
    with assms(8) that show ?thesis
      by simp
  qed
  ultimately have "threaded_by X' H' A C T m'"
    using assms(7) unfolding threaded_by_def by blast
  then show ?thesis
    unfolding threaded_def by blast
qed

definition pass2_done :: "nat list \<Rightarrow> nat \<Rightarrow> nat \<Rightarrow> nat \<Rightarrow> bool" where
  "pass2_done ext p = (\<lambda>s q. s \<in> set ext \<or> s < q \<or> q < p)"

definition moved :: "memory \<Rightarrow> (nat \<Rightarrow> nat) \<Rightarrow> nat list \<Rightarrow> nat list \<Rightarrow> nat \<Rightarrow> nat \<Rightarrow> memory \<Rightarrow> bool" where
  "moved M D ext bs p n m \<longleftrightarrow>
     (\<forall>b\<in>set bs. \<forall>h. b < p \<and> M b = Hdr h \<and> \<not> is_free (M b) \<longrightarrow> D b + header_size h \<le> n \<and>
        (\<forall>i<header_size h. m (D b + i) = relocated M D (all_slots M ext bs) (\<lambda>s q. True) (b + i)))"

lemma pass2_open_le:
  "s \<in> open_slots M S (pass2_done ext p) \<Longrightarrow> p \<le> s"
  by (auto simp: open_slots_def pass2_done_def)

lemma pass2_ok:
  assumes wf: "compact_wf M base lim ext bs"
    and "layout M p lim ps" "set ps = {q \<in> set bs. p \<le> q}" "\<And>q. q \<in> set ps \<Longrightarrow> D q = dest M n ps q"
    "threaded ({x. p \<le> x} \<union> set ext) {q \<in> set bs. p \<le> q} (relocated M D (all_slots M ext bs) (pass2_done ext p))
       (open_slots M (all_slots M ext bs) (pass2_done ext p)) m"
    "moved M D ext bs p n m" "base \<le> n" "n \<le> p"
  shows "\<exists>m'. compact_pass2 lim m p n = Some (m', n + sum_list (map (\<lambda>q. live_size (M q)) ps)) \<and>
    moved M D ext bs lim (n + sum_list (map (\<lambda>q. live_size (M q)) ps)) m' \<and>
    (\<forall>e\<in>set ext. m' e = relocated M D (all_slots M ext bs) (\<lambda>s q. True) e)"
  using assms(2-)
proof (induction ps arbitrary: p n m)
  case Nil
  let ?S = "all_slots M ext bs"
  have lim: "p = lim"
    using Nil.prems(1) by simp
  have "m e = relocated M D ?S (\<lambda>s q. True) e" if e: "e \<in> set ext" for e
  proof -
    have "e \<notin> open_slots M ?S (pass2_done ext p)" "e \<notin> set bs"
      using e wf_slot_header [OF wf, of e] by (auto simp: open_slots_def pass2_done_def all_slots_def)
    then have "m e = relocated M D ?S (pass2_done ext p) e"
      using Nil.prems(4) e unfolding threaded_def threaded_by_def by blast
    also have "\<dots> = relocated M D ?S (\<lambda>s q. True) e"
      using e by (auto simp: relocated_def pass2_done_def split: mword.splits)
    finally show ?thesis .
  qed
  with Nil.prems(5) lim show ?case
    by (subst compact_pass2.simps) auto
next
  case (Cons a ps)
  let ?S = "all_slots M ext bs"
  obtain h where h: "M p = Hdr h" "layout M (p + header_size h) lim ps" "a = p"
    using Cons.prems(1) by auto
  have p: "p \<in> set bs" "p < lim"
    using Cons.prems(2) h(3) layout_lim [OF h(2)] header_size_pos [of h] by auto
  have Dp: "D p = n"
    using Cons.prems(3) [of p] h(3) by simp
  let ?p = "p + header_size h" and ?R = "pass2_done ext (p + header_size h)"
  let ?T = "open_slots M ?S (pass2_done ext p)" and ?T' = "open_slots M ?S ?R"
  have le: "q < ?p \<longleftrightarrow> q < p \<or> q = p" if "s \<in> ?S" "M s = HeapPtr q" for s q
    using wf_sep [OF wf p(1) wf_ptr [OF wf that] h(1)] header_size_pos [of h] by auto
  have R: "?R s q \<longleftrightarrow> pass2_done ext p s q \<or> q = p \<and> s \<in> ?T" if "s \<in> ?S" "M s = HeapPtr q" for s q
    using le [OF that] that by (auto simp: pass2_done_def open_slots_def)
  have T': "{s \<in> ?T. M s \<noteq> HeapPtr p} = ?T'"
    using le header_size_pos [of h] by (auto simp: open_slots_def pass2_done_def)
  have ph: "p \<in> {q \<in> set bs. p \<le> q}"
    using p(1) by simp
  obtain m1 where m1: "gc_update_threaded_pointers m p n = Some m1" "m1 p = Hdr h"
      "threaded ({x. p \<le> x} \<union> set ext) {q \<in> set bs. p \<le> q} (relocated M D ?S ?R) ?T' m1"
      "\<forall>x. x \<noteq> p \<and> x \<notin> ?T \<longrightarrow> m1 x = m x"
    using update_relocated [OF Cons.prems(4) ph h(1) order_refl R] unfolding Dp T' by blast
  have rest: "set ps = {q \<in> set bs. ?p \<le> q}"
    by (rule rest_blocks [OF Cons.prems(2) h(2,3)])
  have Dps: "D q = dest M (n + live_size (M p)) ps q" if "q \<in> set ps" for q
    using Cons.prems(3) [of q] that rest h(3) header_size_pos [of h] by auto
  have inside: "m1 (p + i) = relocated M D ?S (\<lambda>s q. True) (p + i)" if i: "i < header_size h" for i
  proof (cases "i = 0")
    case True
    then show ?thesis
      using m1(2) h(1) by (simp add: relocated_def)
  next
    case False
    let ?x = "p + i"
    have "?x \<notin> set bs"
      using wf_sep [OF wf p(1) _ h(1), of ?x] False i by auto
    moreover have "?x \<notin> ?T'"
      using pass2_open_le [of ?x M ?S ext ?p] i by auto
    ultimately have "m1 ?x = relocated M D ?S ?R ?x"
      using m1(3) unfolding threaded_def threaded_by_def by auto
    also have "\<dots> = relocated M D ?S (\<lambda>s q. True) ?x"
      using i by (auto simp: relocated_def pass2_done_def split: mword.splits)
    finally show ?thesis .
  qed
  define m2 where "m2 = (if is_free (M p) then m1 else memmove m1 n p (header_size h))"
  have keep: "m2 x = m1 x" if "?p \<le> x \<or> x < n \<or> x \<in> set ext" for x
  proof -
    have "x \<notin> {n..<n + header_size h}"
      using that wf_ext' [OF wf p(1) h(1), of x] Cons.prems(6,7) by auto
    then show ?thesis
      by (auto simp: m2_def memmove_def)
  qed
  have thr: "threaded ({x. ?p \<le> x} \<union> set ext) {q \<in> set bs. ?p \<le> q} (relocated M D ?S ?R) ?T' m2"
  proof (rule threaded_restrict [OF m1(3)])
    show "({x. ?p \<le> x} \<union> set ext) \<inter> {q \<in> set bs. p \<le> q} \<subseteq> {q \<in> set bs. ?p \<le> q}"
      using wf_slot_header [OF wf] by (auto simp: all_slots_def)
    show "?T' \<subseteq> {x. ?p \<le> x} \<union> set ext"
      using pass2_open_le by blast
    show "\<exists>q\<in>{q \<in> set bs. ?p \<le> q}. relocated M D ?S ?R s = HeapPtr q" if "s \<in> ?T'" for s
      using that wf_ptr [OF wf] relocated_open [OF that] by (auto simp: open_slots_def pass2_done_def)
    show "m2 x = m1 x" if "x \<in> {x. ?p \<le> x} \<union> set ext" for x
      using keep that by auto
  qed auto
  have "moved M D ext bs ?p (n + live_size (M p)) m2"
    unfolding moved_def
  proof (intro ballI allI impI)
    fix b k
    assume b: "b \<in> set bs" "b < ?p \<and> M b = Hdr k \<and> \<not> is_free (M b)"
    show "D b + header_size k \<le> n + live_size (M p) \<and>
        (\<forall>i<header_size k. m2 (D b + i) = relocated M D ?S (\<lambda>s q. True) (b + i))"
    proof (cases "b = p")
      case True
      then show ?thesis
        using b h(1) Dp inside by (auto simp: live_size_def m2_def memmove_def)
    next
      case False
      then have "b < p"
        using wf_sep [OF wf p(1) b(1) h(1)] b(2) by auto
      then have old: "D b + header_size k \<le> n" "\<forall>i<header_size k. m (D b + i) = relocated M D ?S (\<lambda>s q. True) (b + i)"
        using Cons.prems(5) b unfolding moved_def by blast+
      have "m2 (D b + i) = m (D b + i)" if "i < header_size k" for i
      proof -
        have x: "D b + i < n" "D b + i < p"
          using that old(1) Cons.prems(7) by auto
        then have "D b + i \<notin> ?T"
          using pass2_open_le by fastforce
        with x keep m1(4) show ?thesis
          by auto
      qed
      with old show ?thesis
        by auto
    qed
  qed
  moreover have "compact_pass2 lim m p n = compact_pass2 lim m2 ?p (n + live_size (M p))"
  proof -
    have "memmove m1 p p (header_size h) = m1"
      by (auto simp: memmove_def fun_eq_iff)
    then show ?thesis
      using p(2) m1(1,2) h(1) by (subst compact_pass2.simps) (auto simp: get_mblock_size_def live_size_def m2_def)
  qed
  moreover have "n + live_size (M p) \<le> ?p" "base \<le> n + live_size (M p)"
    using Cons.prems(6,7) h(1) by (auto simp: live_size_def)
  ultimately show ?case
    using Cons.IH [OF h(2) rest Dps thr] h(3) by (simp add: add.assoc)
qed

lemma dest_ge: "n \<le> dest M n ps q"
  by (induction ps arbitrary: n) (auto intro: le_trans [OF le_add1])

lemma dest_sep:
  "layout M p lim ps \<Longrightarrow> a \<in> set ps \<Longrightarrow> b \<in> set ps \<Longrightarrow> a < b \<Longrightarrow> dest M n ps a + live_size (M a) \<le> dest M n ps b"
proof (induction ps arbitrary: p n)
  case (Cons c ps)
  then obtain k where k: "M p = Hdr k" "layout M (p + header_size k) lim ps" "c = p"
    by auto
  have "p < x" if "x \<in> set ps" for x
    using layout_ge [OF k(2) that] header_size_pos [of k] by simp
  then have b: "b \<noteq> p" "b \<in> set ps"
    using Cons.prems(2-4) k(3) by fastforce+
  show ?case
  proof (cases "a = p")
    case True
    with b k(3) dest_ge [of "n + live_size (M p)" M ps b] show ?thesis
      by simp
  next
    case False
    with Cons.IH [OF k(2) _ b(2)] Cons.prems b k(3) show ?thesis
      by simp
  qed
qed simp

lemma slot_range:
  assumes "compact_wf M base lim ext bs" "s \<in> all_slots M ext bs"
  shows "s \<in> set ext \<or> base \<le> s \<and> s < lim"
proof (cases "s \<in> set ext")
  case False
  with assms(2) have "s \<in> slots_of M (set bs)"
    by (simp add: all_slots_def)
  from wf_field [OF assms(1) this] obtain p h i where
      p: "p \<in> set bs" "M p = Hdr h" "s = p + i" "i < header_size h"
    by metis
  obtain k where "M p = Hdr k" "base \<le> p" "p + header_size k \<le> lim"
    using wf_block [OF assms(1) p(1)] .
  with p show ?thesis
    by simp
qed simp

lemma wf_target:
  assumes "compact_wf M base lim ext bs" "s \<in> all_slots M ext bs" "M s = HeapPtr q"
  shows "base \<le> q \<and> q < lim"
proof -
  obtain h where "base \<le> q" "q + header_size h \<le> lim"
    using wf_block [OF assms(1) wf_ptr [OF assms]] by metis
  then show ?thesis
    using header_size_pos [of h] by linarith
qed

lemma relocated_cong:
  "(\<And>s q. s \<in> S \<Longrightarrow> M s = HeapPtr q \<Longrightarrow> R s q = R' s q) \<Longrightarrow> relocated M D S R = relocated M D S R'"
  by (auto simp: relocated_def fun_eq_iff split: mword.splits)

lemma start_threaded:
  assumes wf: "compact_wf M base lim ext bs"
  shows "threaded UNIV (set bs) (relocated M D (all_slots M ext bs) (pass1_done ext base)) (pass1_open M ext bs base)
    (foldl gc_thread_pointer M ext)"
proof -
  let ?S = "all_slots M ext bs"
  have M: "relocated M D ?S (pass1_done ext base) = M"
    using wf_target [OF wf] by (fastforce simp: relocated_def pass1_done_def fun_eq_iff split: mword.splits)
  have hdr: "\<not> is_ptr (M p)" if "p \<in> set bs" for p
    using wf_block [OF wf that] by fastforce
  have "threaded_by UNIV (set bs) M (\<lambda>p. []) {} M"
    using hdr by (simp add: threaded_by_def)
  then have "threaded UNIV (set bs) M {} M"
    unfolding threaded_def by blast
  then have "threaded UNIV (set bs) M ({} \<union> {s \<in> set ext. \<exists>p. M s = HeapPtr p}) (foldl gc_thread_pointer M ext)"
  proof (rule thread_list_ok)
    show "distinct ext"
      using wf by (simp add: compact_wf_def)
    show "set ext \<subseteq> UNIV - set bs - {}"
      using wf_slot_header [OF wf] by (auto simp: all_slots_def)
    show "p \<in> set bs" if "s \<in> set ext" "M s = HeapPtr p" for s p
      using wf_ptr [OF wf _ that(2)] that(1) by (simp add: all_slots_def)
  qed
  moreover have "{s \<in> set ext. \<exists>p. M s = HeapPtr p} = pass1_open M ext bs base"
    using slot_range [OF wf] wf_target [OF wf]
    by (fastforce simp: pass1_open_def open_slots_def pass1_done_def all_slots_def)
  ultimately show ?thesis
    unfolding M by simp
qed

lemma between_passes:
  assumes wf: "compact_wf M base lim ext bs"
    and "threaded UNIV (set bs) (relocated M D (all_slots M ext bs) (pass1_done ext lim)) (pass1_open M ext bs lim) m"
  shows "threaded ({x. base \<le> x} \<union> set ext) {q \<in> set bs. base \<le> q}
    (relocated M D (all_slots M ext bs) (pass2_done ext base)) (open_slots M (all_slots M ext bs) (pass2_done ext base)) m"
proof -
  let ?S = "all_slots M ext bs"
  have A: "relocated M D ?S (pass1_done ext lim) = relocated M D ?S (pass2_done ext base)"
    using wf_target [OF wf] by (intro relocated_cong) (fastforce simp: pass1_done_def pass2_done_def)
  have T: "pass1_open M ext bs lim = open_slots M ?S (pass2_done ext base)"
    using wf_target [OF wf] slot_range [OF wf]
    by (fastforce simp: pass1_open_def open_slots_def pass1_done_def pass2_done_def)
  have base: "base \<le> q" if "q \<in> set bs" for q
    using wf_block [OF wf that] by metis
  from assms(2) show ?thesis
    unfolding A T
  proof (rule threaded_restrict)
    show "open_slots M ?S (pass2_done ext base) \<subseteq> {x. base \<le> x} \<union> set ext"
      using pass2_open_le by blast
    show "\<exists>q\<in>{q \<in> set bs. base \<le> q}. relocated M D ?S (pass2_done ext base) s = HeapPtr q"
      if "s \<in> open_slots M ?S (pass2_done ext base)" for s
      using that wf_ptr [OF wf] base relocated_open [OF that] by (auto simp: open_slots_def)
  qed (use base in auto)
qed

subsection \<open>Properties\<close>

text \<open>C5. Compaction ends and slides every live block, in order and without overlap, to the bottom of the heap, with its
  words unchanged except for its references; every reference, in a block or outside the heap, leads to the new place of
  the block it led to.  The heap then ends after the last live block.
\<close>

theorem gc_compact_heap_correct:
  assumes "compact_wf M base lim ext bs"
  defines "D \<equiv> dest M base bs" and "final \<equiv> relocated M (dest M base bs) (all_slots M ext bs) (\<lambda>s q. True)"
  shows "\<exists>m heap_free'. gc_compact_heap base lim ext M = Some (m, heap_free') \<and>
    heap_free' = base + sum_list (map (\<lambda>q. live_size (M q)) bs) \<and>
    (\<forall>b\<in>set bs. \<forall>h. M b = Hdr h \<and> \<not> is_free (M b) \<longrightarrow> D b + header_size h \<le> heap_free' \<and>
      (\<forall>i<header_size h. m (D b + i) = final (b + i)) \<and>
      (\<forall>c\<in>set bs. b < c \<longrightarrow> D b + header_size h \<le> D c)) \<and>
    (\<forall>e\<in>set ext. m e = final e)"
proof -
  have lay: "layout M base lim bs"
    using assms(1) by (simp add: compact_wf_def)
  have all: "set bs = {q \<in> set bs. base \<le> q}"
    using layout_ge [OF lay] by auto
  obtain m1 where m1: "compact_pass1 lim (foldl gc_thread_pointer M ext) base base = Some m1"
      "threaded UNIV (set bs) (relocated M D (all_slots M ext bs) (pass1_done ext lim)) (pass1_open M ext bs lim) m1"
    using pass1_ok [OF assms(1) lay all _ start_threaded [OF assms(1), of D]] by (auto simp: D_def)
  have "moved M D ext bs base base m1"
    using layout_ge [OF lay] by (fastforce simp: moved_def)
  from pass2_ok [OF assms(1) lay all _ between_passes [OF assms(1) m1(2)] this]
  obtain m where m: "compact_pass2 lim m1 base base = Some (m, base + sum_list (map (\<lambda>q. live_size (M q)) bs))"
      "moved M D ext bs lim (base + sum_list (map (\<lambda>q. live_size (M q)) bs)) m" "\<forall>e\<in>set ext. m e = final e"
    by (auto simp: D_def final_def)
  have "b < lim" if b: "b \<in> set bs" for b
  proof -
    obtain h where "b + header_size h \<le> lim"
      using layout_ge [OF lay b] by blast
    then show ?thesis
      using header_size_pos [of h] by linarith
  qed
  moreover have "D b + header_size h \<le> D c" if "b \<in> set bs" "c \<in> set bs" "b < c" "M b = Hdr h" "\<not> is_free (M b)" for b c h
    using dest_sep [OF lay that(1-3), of base] that(4,5) by (simp add: D_def live_size_def)
  ultimately show ?thesis
    using m m1(1) unfolding moved_def gc_compact_heap_def final_def D_def by auto
qed

text \<open>
  A free block, an array and a variable that refer to each other, and an external reference to the variable.
\<close>

definition sample_memory :: memory where
  "sample_memory = (\<lambda>x.
     if x = 0 then Hdr (HFree 1)
     else if x = 2 then Hdr (HValueArray 2)
     else if x = 3 then HeapPtr 5
     else if x = 5 then Hdr (HVarRef True)
     else if x = 6 then HeapPtr 2
     else if x = 10 then HeapPtr 5
     else Plain 0)"

theorem gc_compact_heap_correct_witness:
  "\<exists>m. gc_compact_heap 0 7 [10] sample_memory = Some (m, 5) \<and> m 10 = HeapPtr 3 \<and> m 1 = HeapPtr 3 \<and> m 4 = HeapPtr 0"
proof -
  have slots: "all_slots sample_memory [10] [0, 2, 5] = {10, 3, 4, 6}"
    by (auto simp: all_slots_def slots_of_def sample_memory_def)
  have "compact_wf sample_memory 0 7 [10] [0, 2, 5]"
    unfolding compact_wf_def slots by (auto simp: sample_memory_def)
  from gc_compact_heap_correct [OF this, unfolded slots] obtain m where
      m: "gc_compact_heap 0 7 [10] sample_memory = Some (m, 5)"
      "\<forall>b\<in>{0, 2, 5}. \<forall>h. sample_memory b = Hdr h \<and> \<not> is_free (sample_memory b) \<longrightarrow>
        (\<forall>i<header_size h. m (dest sample_memory 0 [0, 2, 5] b + i) =
          relocated sample_memory (dest sample_memory 0 [0, 2, 5]) {10, 3, 4, 6} (\<lambda>s q. True) (b + i))"
      "m 10 = relocated sample_memory (dest sample_memory 0 [0, 2, 5]) {10, 3, 4, 6} (\<lambda>s q. True) 10"
    by (auto simp: live_size_def sample_memory_def)
  have "m (0 + 1) = HeapPtr 3"
    using m(2) [rule_format, of 2 "HValueArray 2" 1] by (simp add: sample_memory_def live_size_def relocated_def)
  moreover have "m (3 + 1) = HeapPtr 0"
    using m(2) [rule_format, of 5 "HVarRef True" 1]
    by (simp add: sample_memory_def live_size_def relocated_def numeral_eq_Suc)
  moreover have "m 10 = HeapPtr 3"
    using m(3) by (simp add: sample_memory_def live_size_def relocated_def)
  ultimately show ?thesis
    using m(1) by simp
qed

end
