(* ===== verification/Spec2Isabelle.thy ===== *)
theory Spec2Isabelle
  imports Atoms JSProps JSCharClass JSPc2line AetherPQueue AetherSet AetherMessaging AetherMemory AetherBytes AetherLexer AetherStringList JSGCSweep JSGCCompact
begin

section \<open>A verification library for MicroQuickJS and Aether\<close>

text \<open>
  \<^bold>\<open>The program.\<close>  The repository holds two C systems.  \<^verbatim>\<open>src/mquickjs\<close> is MicroQuickJS, a small
  JavaScript engine in one file (\<^verbatim>\<open>mquickjs.c\<close>) over a few C utilities (\<^verbatim>\<open>cutils.c\<close>): strings
  are stored in WTF-8 and addressed by UTF-16 position, property names are interned, and every object lives in
  one compacting heap.  \<^verbatim>\<open>src/aether\<close> is Aether, an actor language: a compiler to C
  (\<^verbatim>\<open>compiler/\<close>), a runtime with mailboxes, queues, schedulers and memory pools (\<^verbatim>\<open>runtime/\<close>),
  and a standard library of strings, byte buffers and collections (\<^verbatim>\<open>std/\<close>) that generated programs
  call.  The library follows the data path of both: text and names in the engine; strings, containers, memory
  and message transport in Aether.

  \<^bold>\<open>Conventions.\<close>  A C structure is a record, an enumeration a datatype, a byte buffer a list of numbers
  below 256.  A pointer that may be \<^verbatim>\<open>NULL\<close> is an option.  \<^verbatim>\<open>size_t\<close> and
  \<^verbatim>\<open>uint32_t\<close> arithmetic is reduced modulo \<open>2 ^ 64\<close> and \<open>2 ^ 32\<close> wherever it can wrap,
  and a conversion to \<^verbatim>\<open>int\<close> is \<open>signed_take_bit 31\<close>.  An \<^verbatim>\<open>int\<close> sum, product or counter that
  the code lets grow past 31 bits wraps in the model too (string lengths of a concatenation, doubled capacities, the
  counters of the batch policy), and where the wrapped value is used as an index the model fails (\<open>InvalidStore\<close>,
  \<open>None\<close>); elsewhere the bound is a hypothesis of the theorem.  The C allocator is a parameter
  (\<open>malloc_ok\<close>, \<open>alloc\<close>) that says which requests are granted, so every failure branch of the code
  is a branch of the model; the engine's allocator is seen through the memory it can grant.  Key comparisons, hash callbacks and heap orders that the code takes as function
  pointers are parameters too, with their laws as hypotheses.  A loop is a \<open>fun\<close> or a
  \<open>function\<close> with a measure; the probe loops of the Robin Hood table and the chain walks of
  property lists, which end only because of the invariants of the tables, are \<open>partial_function (option)\<close>, and the theorems prove that they return.  Where the C
  code recurses once to retry after a resize, the model has an explicit depth (\<open>hashmap_insert\<close> has
  depth two: after a resize the load test fails, so one retry is enough, and the theorems prove that the bound
  is not reached).

  \<^bold>\<open>Theories.\<close>
  \<^item> \<^verbatim>\<open>Prelude\<close>: bytes, bit operations as arithmetic (collection \<open>bits_arith\<close>).
  \<^item> \<^verbatim>\<open>Cutils\<close> (\<^verbatim>\<open>cutils.c\<close>, \<^verbatim>\<open>cutils.h\<close>): bounded copies, prefix and
    suffix tests, the UTF-8 codec, unaligned access and byte swapping.  Round trip of the codec, rejection of
    overlong and truncated sequences, truncation without overrun.
  \<^item> \<^verbatim>\<open>JSStrings\<close>, \<^verbatim>\<open>JSStringOps\<close>, \<^verbatim>\<open>JSStringBuf\<close>,
    \<^verbatim>\<open>JSArrays\<close>, \<^verbatim>\<open>Atoms\<close>, \<^verbatim>\<open>JSProps\<close>, \<^verbatim>\<open>JSSort\<close>,
    \<^verbatim>\<open>JSPc2line\<close>, \<^verbatim>\<open>JSCharClass\<close> (\<^verbatim>\<open>mquickjs.c\<close>): conversion between UTF-8 and
    UTF-16 positions with the position cache (\<^verbatim>\<open>js_string_convert_pos\<close>), unit access, length,
    equality and comparison; substrings, string buffers and concatenation with surrogate pairs split and
    joined; value arrays; interning (\<^verbatim>\<open>JS_MakeUniqueString\<close>); the property
    lists of objects with their hash chains (\<^verbatim>\<open>find_own_property\<close>,
    \<^verbatim>\<open>js_create_property\<close>, \<^verbatim>\<open>JS_DeleteProperty\<close>); array sorting; the
    bit stream of the line number table; the character classes of regular expressions.  The cached conversion equals the
    cache-free one; each operation is the operation on the list of UTF-16 units; the atom tables stay sorted
    and canonical as long as no collection inside the number test drops an entry
    (\<open>stale_index_duplicates_atom\<close> shows what happens otherwise); a property list is an association list in creation order, also after the collector has
    moved the keys; the heap sort is a stable sort; the line number
    table reads back as written; a compiled character class matches exactly the characters it denotes (its intervals
    are sorted by the heap sort of \<^verbatim>\<open>JSSort\<close>).
  \<^item> \<^verbatim>\<open>JSGCMark\<close>, \<^verbatim>\<open>JSGCSweep\<close>, \<^verbatim>\<open>JSGCCompact\<close> (\<^verbatim>\<open>gc_mark_all\<close> and
    \<^verbatim>\<open>gc_compact_heap\<close> of \<^verbatim>\<open>mquickjs.c\<close>): the collector.  Marking and sweeping are over blocks with
    their references.  The mark loops, whose end depends on the heap, are
    \<open>partial_function (option)\<close>; they are proved to return by a measure of unmarked blocks and stack weight, for
    every mark stack of at least two words, with exactly the reachable blocks (\<open>reachable\<close>) marked.  Sweeping keeps
    these and the live weak references, which include the table of unique strings itself (\<open>weak_blocks\<close>), and
    merges the rest.  Compaction is over a memory of words, where a header can
    be the end of a chain of threaded slots; the invariant (\<open>threaded\<close>) says which memory such a state stands for,
    and every reference is proved to follow its block.  The two models of the heap are separate: that the blocks a sweep
    leaves are laid out in words is not stated.
  \<^item> \<^verbatim>\<open>AetherStrings\<close> (\<^verbatim>\<open>std/string/aether_string.c\<close>): counted and plain strings.
    Search gives the first match, split and join are inverse, numbers round-trip, the two passes of the
    formatter agree.
  \<^item> \<^verbatim>\<open>AetherLexer\<close> (\<^verbatim>\<open>compiler/parser/lexer.c\<close>, the token loop of
    \<^verbatim>\<open>compiler/aetherc.c\<close>): the whole lexer, over a position invariant (\<open>lex_inv\<close>) and a
    Hoare-style assertion for its buffers (\<open>safe\<close>).  On every source shorter than \<open>2 ^ 29\<close>
    bytes it returns, never stores outside a buffer (and through a null pointer only when the unchecked first request
    of a buffer is refused), keeps line and column right and reaches the end token; the driver reports the first error
    token (\<open>yields\<close>); string literals round-trip, words are read by
    longest match, prefixed numbers denote their digits.
  \<^item> \<^verbatim>\<open>AetherBytes\<close> (\<^verbatim>\<open>std/bytes/aether_bytes.c\<close>): growing byte buffers, and the
    overlapping copy used by decompressors.
  \<^item> \<^verbatim>\<open>AetherArrays\<close>, \<^verbatim>\<open>AetherPQueue\<close> (\<^verbatim>\<open>std/collections\<close>): array
    lists, vectors and integer arrays as refinements of lists; the binary heap.
  \<^item> \<^verbatim>\<open>AetherSeq\<close> (\<^verbatim>\<open>std/collections/aether_stringseq.c\<close>): reference-counted cons
    cells with shared tails over an explicit store.  The stored counts are exact after every operation, dropping a
    reference never touches freed memory nor the sequences of other owners, the combinators are the list functions,
    and a client that makes any list of permitted calls (\<open>seq_run\<close>) and drops all its handles leaves no cell
    behind; every one of its calls is proved to return.
  \<^item> \<^verbatim>\<open>AetherStringList\<close> (\<^verbatim>\<open>std/collections/aether_stringlist.c\<close>): array lists that own
    a reference to each of their strings.
  \<^item> \<^verbatim>\<open>AetherMap\<close>, \<^verbatim>\<open>RobinHood\<close>, \<^verbatim>\<open>AetherSet\<close>: the chained map, the
    open-addressing map and the sets over it.  The locale \<open>map_interface\<close> states what a map promises; it
    is interpreted on both tables, and the history theorems come from it.  The open-addressing map needs a free slot or
    a granted resize for every insertion; \<open>full_table_loses_entry\<close> is the case without.
  \<^item> \<^verbatim>\<open>AetherQueues\<close> (\<^verbatim>\<open>runtime/actors\<close>, \<^verbatim>\<open>runtime/scheduler\<close>): the counted
    mailbox, the lock-free mailboxes and the scheduler channel.  The locale \<open>fifo_queue\<close> is interpreted on
    the four rings; the single-producer single-consumer queue is also a step relation
    (\<open>spsc_step\<close>) whose interleavings are covered by an invariant.
  \<^item> \<^verbatim>\<open>AetherMessaging\<close>: adaptive batches, deduplication, coalescing, over the mailbox.  The batch size
    stays in its bounds and moves as the policy says; coalesced messages arrive in order.
  \<^item> \<^verbatim>\<open>AetherMemory\<close> (\<^verbatim>\<open>runtime/memory\<close>): arena chains and pools; blocks are aligned, in
    bounds and disjoint.

  \<^bold>\<open>How the parts meet.\<close>  \<^verbatim>\<open>Atoms\<close> compares with \<^verbatim>\<open>js_string_compare\<close> of
  \<^verbatim>\<open>JSStringOps\<close>, which rests on the positions of \<^verbatim>\<open>JSStrings\<close> and the codec of
  \<^verbatim>\<open>Cutils\<close>; \<^verbatim>\<open>AetherSet\<close> calls the map of \<^verbatim>\<open>RobinHood\<close>;
  \<^verbatim>\<open>AetherMessaging\<close> sends through the mailbox of \<^verbatim>\<open>AetherQueues\<close>;
  \<^verbatim>\<open>AetherStringList\<close> joins the lists of \<^verbatim>\<open>AetherArrays\<close> and the counts of
  \<^verbatim>\<open>AetherSeq\<close>.

  \<^bold>\<open>Limits of the models.\<close>  Freeing functions are modelled where they change a structure that stays in use;
  that memory is not used after its release is shown only where a theorem says so.  Memory orderings of the
  atomic operations appear only as the order of the steps of the queue relation.  Floating-point statistics
  are left out.

  \<^bold>\<open>Not modelled.\<close>  In MicroQuickJS: the parser and bytecode compiler, the interpreter loop, the
  bump allocator of the heap, the built-in objects other than array sorting, property access along prototypes, regular expressions other than character classes, the number conversion of \<^verbatim>\<open>dtoa.c\<close>, the
  floating-point code (\<^verbatim>\<open>libm.c\<close>, the soft-float templates), and the build-time tool: their correctness statement is
  the ECMAScript semantics or IEEE arithmetic, which is larger than the code.  In Aether: the compiler
  after its lexer (parser, type checker, code generator), the multi-threaded scheduler, the JSON reader, the
  HTTP, file, process and log modules (system calls), the bindings to OpenSSL, zlib and SQLite, the language
  hosts, the user interface back ends, the command line tool and the language server.  Tests, benchmarks and
  examples are not part of the program.
\<close>

end
